(* ===== verification/Prelude.thy ===== *)
theory Prelude
  imports Main "HOL-Library.Word" "HOL-Library.Sublist"
begin

text \<open>
  What the components share: the byte and word types, the two result types of the
  parsers, the operations of \<open>std::string\<close> the sources call (\<open>find\<close>, \<open>substr\<close>, the
  splitting loop \<open>while (pos <= arg.size())\<close>), big-endian encoding, and the lemma
  collections the component proofs draw on.
\<close>

named_theorems str_simps "rewriting of the std::string operations"
named_theorems byte_simps "encoding and decoding of big-endian fields"

type_synonym u8 = "8 word"
type_synonym u16 = "16 word"
type_synonym u32 = "32 word"
type_synonym u64 = "64 word"
type_synonym bytes = "8 word list"

section \<open>std::string\<close>

text \<open>\<open>s.find(c, pos)\<close>: the first index at or after \<open>pos\<close> that holds \<open>c\<close>; \<open>None\<close> is \<open>npos\<close>.\<close>

fun find_char :: "char \<Rightarrow> string \<Rightarrow> nat option" where
  "find_char c [] = None"
| "find_char c (x # xs) = (if x = c then Some 0 else map_option Suc (find_char c xs))"

definition str_find :: "string \<Rightarrow> char \<Rightarrow> nat \<Rightarrow> nat option" where
  "str_find s c pos = map_option (\<lambda>i. pos + i) (find_char c (drop pos s))"

text \<open>
  \<open>s.substr(pos, n)\<close> and \<open>s.substr(pos)\<close>. The library raises \<open>out_of_range\<close> for
  \<open>pos > s.size()\<close>; every call below is guarded by a position that \<open>find\<close> returned
  (plus one), so the raise is unreachable.
\<close>

definition substr :: "string \<Rightarrow> nat \<Rightarrow> nat \<Rightarrow> string" where
  "substr s pos n = take n (drop pos s)"

definition substr_from :: "string \<Rightarrow> nat \<Rightarrow> string" where
  "substr_from s pos = drop pos s"

lemma find_char_None [str_simps]: "find_char c s = None \<longleftrightarrow> c \<notin> set s"
  by (induction s) auto

lemma find_char_Some:
  "find_char c s = Some i \<Longrightarrow> i < length s \<and> s ! i = c \<and> c \<notin> set (take i s)"
proof (induction s arbitrary: i)
  case Nil
  then show ?case by simp
next
  case (Cons x xs)
  then show ?case by (cases i) (auto split: if_splits)
qed

lemma find_char_append [str_simps]: "c \<notin> set s \<Longrightarrow> find_char c (s @ c # t) = Some (length s)"
  by (induction s) auto

lemma find_char_append_None [str_simps]:
  "c \<notin> set s \<Longrightarrow> find_char c (s @ t) = map_option (\<lambda>i. i + length s) (find_char c t)"
  by (induction s) (auto simp: option.map_comp comp_def option.map_ident)

lemma find_char_split:
  assumes "find_char c s = Some i"
  shows "s = take i s @ c # drop (Suc i) s"
  using find_char_Some [OF assms] by (metis id_take_nth_drop)

lemma str_find_0 [str_simps]: "str_find s c 0 = find_char c s"
  by (simp add: str_find_def option.map_ident)

lemma str_find_Some:
  assumes "str_find s c pos = Some i"
  shows "pos \<le> i" and "i < length s" and "s ! i = c"
proof -
  from assms obtain j where j: "find_char c (drop pos s) = Some j" and i: "i = pos + j"
    by (auto simp: str_find_def)
  from find_char_Some [OF j] have "j < length (drop pos s)" and "drop pos s ! j = c" by auto
  with i show "pos \<le> i" "i < length s" "s ! i = c" by auto
qed

text \<open>
  The splitting loop of the option parsers:
  \<^verbatim>\<open>
  size_t pos = 0;
  while (pos <= arg.size()) {
      size_t comma = arg.find(',', pos);
      std::string token = arg.substr(pos, comma == npos ? npos : comma - pos);
      pos = (comma == npos) ? arg.size() + 1 : comma + 1;
      ...
  \<close>
  \<open>tokens_from\<close> lists the tokens the loop sees when it starts at \<open>pos\<close>.
\<close>

function tokens_from :: "char \<Rightarrow> string \<Rightarrow> nat \<Rightarrow> string list" where
  "tokens_from c s pos =
     (if pos \<le> length s then
        (case str_find s c pos of
           None \<Rightarrow> [substr_from s pos]
         | Some i \<Rightarrow> substr s pos (i - pos) # tokens_from c s (i + 1))
      else [])"
  by pat_completeness auto
termination
  by (relation "measure (\<lambda>(c, s, pos). Suc (length s) - pos)") (auto dest: str_find_Some)

declare tokens_from.simps [simp del]

text \<open>What the loop computes: the segments between the separators, in order.\<close>

fun split_on :: "char \<Rightarrow> string \<Rightarrow> string list" where
  "split_on c [] = [[]]"
| "split_on c (x # xs) =
     (if x = c then [] # split_on c xs
      else (case split_on c xs of [] \<Rightarrow> [[x]] | t # ts \<Rightarrow> (x # t) # ts))"

lemma split_on_not_Nil [simp]: "split_on c s \<noteq> []"
  by (induction s) (auto split: list.splits)

lemma split_on_no_sep [str_simps]: "c \<notin> set s \<Longrightarrow> split_on c s = [s]"
  by (induction s) auto

lemma split_on_append [str_simps]:
  "c \<notin> set s \<Longrightarrow> split_on c (s @ c # t) = s # split_on c t"
  by (induction s) auto

lemma split_on_find_None: "find_char c s = None \<Longrightarrow> split_on c s = [s]"
  by (simp add: str_simps)

lemma split_on_find_Some:
  assumes "find_char c s = Some i"
  shows "split_on c s = take i s # split_on c (drop (Suc i) s)"
  using find_char_split [OF assms] find_char_Some [OF assms] split_on_append by metis

lemma tokens_from_split: "pos \<le> length s \<Longrightarrow> tokens_from c s pos = split_on c (drop pos s)"
proof (induction c s pos rule: tokens_from.induct)
  case (1 c s pos)
  show ?case
  proof (cases "str_find s c pos")
    case None
    then show ?thesis
      using "1.prems"
      by (simp add: tokens_from.simps [of c s pos] str_find_def split_on_find_None substr_from_def)
  next
    case (Some i)
    then obtain j where j: "find_char c (drop pos s) = Some j" and i: "i = pos + j"
      by (auto simp: str_find_def)
    have "i < length s" using Some by (rule str_find_Some)
    then have "tokens_from c s (i + 1) = split_on c (drop (i + 1) s)"
      using "1.IH" [OF "1.prems" Some] by simp
    with Some j i "1.prems" show ?thesis
      by (simp add: tokens_from.simps [of c s pos] split_on_find_Some substr_def add.commute)
  qed
qed

lemma tokens_from_0 [str_simps]: "tokens_from c s 0 = split_on c s"
  by (simp add: tokens_from_split)

lemma split_on_no_sep_in: "t \<in> set (split_on c s) \<Longrightarrow> c \<notin> set t"
  by (induction s arbitrary: t) (auto split: if_splits list.splits)

text \<open>\<open>join_with\<close> is the inverse of splitting, for the round trips.\<close>

fun join_with :: "char \<Rightarrow> string list \<Rightarrow> string" where
  "join_with c [] = []"
| "join_with c [t] = t"
| "join_with c (t # ts) = t @ c # join_with c ts"

lemma split_on_join [str_simps]:
  "ts \<noteq> [] \<Longrightarrow> \<forall>t \<in> set ts. c \<notin> set t \<Longrightarrow> split_on c (join_with c ts) = ts"
  by (induction c ts rule: join_with.induct) (auto simp: str_simps)

section \<open>Results\<close>

text \<open>
  A parser of the form \<open>bool f(const std::string&, Config& out)\<close> returns a flag and
  leaves a configuration behind, also when it fails. Its model returns the configuration
  and \<open>None\<close> for \<open>true\<close>, or \<open>Some e\<close> for \<open>false\<close>, with one error per message the code prints.
\<close>

type_synonym ('e, 'c) outcome = "'e option \<times> 'c"

section \<open>Big-endian fields\<close>

definition be16 :: "u16 \<Rightarrow> bytes" where
  "be16 w = [ucast (drop_bit 8 w), ucast w]"

definition be32 :: "u32 \<Rightarrow> bytes" where
  "be32 w = [ucast (drop_bit 24 w), ucast (drop_bit 16 w), ucast (drop_bit 8 w), ucast w]"

definition get_be16 :: "u8 \<Rightarrow> u8 \<Rightarrow> u16" where
  "get_be16 a b = or (push_bit 8 (ucast a)) (ucast b)"

definition get_be32 :: "u8 \<Rightarrow> u8 \<Rightarrow> u8 \<Rightarrow> u8 \<Rightarrow> u32" where
  "get_be32 a b c d = or (or (push_bit 24 (ucast a)) (push_bit 16 (ucast b))) (or (push_bit 8 (ucast c)) (ucast d))"

lemma length_be16 [simp]: "length (be16 w) = 2"
  by (simp add: be16_def)

lemma length_be32 [simp]: "length (be32 w) = 4"
  by (simp add: be32_def)

lemma get_be16_be16 [byte_simps]: "get_be16 (be16 w ! 0) (be16 w ! Suc 0) = w"
  by (rule bit_word_eqI)
    (auto simp: get_be16_def be16_def bit_simps nth_Cons split: nat.splits)

lemma get_be32_be32 [byte_simps]:
  "get_be32 (be32 w ! 0) (be32 w ! Suc 0) (be32 w ! 2) (be32 w ! 3) = w"
proof (rule bit_word_eqI)
  fix n assume "n < LENGTH(32)"
  then consider "n < 8" | "8 \<le> n" "n < 16" | "16 \<le> n" "n < 24" | "24 \<le> n" "n < 32"
    by fastforce
  then show "bit (get_be32 (be32 w ! 0) (be32 w ! Suc 0) (be32 w ! 2) (be32 w ! 3)) n = bit w n"
    by cases (auto simp: get_be32_def be32_def bit_simps)
qed

lemma unat_u8: "unat (a :: u8) < 256"
  using unsigned_less [of a, where 'a = nat] by simp

lemma unat_u16: "unat (a :: u16) < 65536"
  using unsigned_less [of a, where 'a = nat] by simp

lemma unat_u32: "unat (a :: u32) < 4294967296"
  using unsigned_less [of a, where 'a = nat] by simp

lemma unat_get_be16: "unat (get_be16 a b) = 256 * unat a + unat b"
proof -
  have "get_be16 a b = push_bit 8 (ucast a) + ucast b"
    unfolding get_be16_def
    by (rule disjunctive_add [symmetric]) (auto simp: bit_simps dest: bit_imp_le_length)
  moreover have "unat (push_bit 8 (ucast a :: u16)) = 256 * unat a"
    using unat_u8 [of a]
    by (simp add: push_bit_eq_mult unat_word_ariths unsigned_ucast_eq take_bit_nat_eq_self)
  ultimately show ?thesis
    using unat_u8 [of a] unat_u8 [of b]
    by (simp add: unat_word_ariths unsigned_ucast_eq take_bit_nat_eq_self)
qed

end
