(* ===== verification/Cxx_Num.thy ===== *)
theory Cxx_Num
  imports Prelude Complex_Main
begin

text \<open>
  The numeric conversions of the C++ standard library that the option parsers call:
  \<open>std::stoi\<close>, \<open>std::stol\<close>, \<open>std::stoul\<close>, \<open>std::stoull\<close> with bases 0, 10 and 16 (LP64:
  \<open>int\<close> has 32 bits, \<open>long\<close> 64), \<open>std::stod\<close> on decimal numerals, and binary64
  rounding to nearest, ties to even. A conversion returns the value and the number of
  characters it consumed, or the exception it raises.
\<close>

named_theorems num_simps "evaluation of the conversions"

datatype num_exc = InvalidArgument | OutOfRange

section \<open>Characters of the C locale\<close>

definition is_space :: "char \<Rightarrow> bool" where
  "is_space c \<longleftrightarrow> (of_char c :: nat) = 32 \<or> (9 \<le> (of_char c :: nat) \<and> (of_char c :: nat) \<le> 13)"

definition is_digit :: "char \<Rightarrow> bool" where
  "is_digit c \<longleftrightarrow> 48 \<le> (of_char c :: nat) \<and> (of_char c :: nat) \<le> 57"

definition to_upper :: "char \<Rightarrow> char" where
  "to_upper c = (if 97 \<le> (of_char c :: nat) \<and> (of_char c :: nat) \<le> 122
     then char_of ((of_char c :: nat) - 32) else c)"

text \<open>The digit a character stands for, in bases up to 36 as \<open>strtoul\<close> reads them.\<close>

definition digit_value :: "char \<Rightarrow> nat option" where
  "digit_value c =
     (let n = (of_char c :: nat) in
      if 48 \<le> n \<and> n \<le> 57 then Some (n - 48)
      else if 97 \<le> n \<and> n \<le> 122 then Some (n - 87)
      else if 65 \<le> n \<and> n \<le> 90 then Some (n - 55)
      else None)"

definition is_digit_in :: "nat \<Rightarrow> char \<Rightarrow> bool" where
  "is_digit_in b c = (case digit_value c of None \<Rightarrow> False | Some d \<Rightarrow> d < b)"

definition digits_value :: "nat \<Rightarrow> string \<Rightarrow> nat" where
  "digits_value b ds = foldl (\<lambda>a c. a * b + (case digit_value c of None \<Rightarrow> 0 | Some d \<Rightarrow> d)) 0 ds"

section \<open>strtol and its wrappers\<close>

text \<open>
  The base a numeral is read in and the length of its prefix: base 16 accepts an optional
  \<open>0x\<close> when a hexadecimal digit follows, base 0 chooses 16, 8 or 10 by the prefix.
\<close>

definition hex_prefix :: "string \<Rightarrow> bool" where
  "hex_prefix s = (case s of
     z # x # h # _ \<Rightarrow> z = CHR ''0'' \<and> (x = CHR ''x'' \<or> x = CHR ''X'') \<and> is_digit_in 16 h
   | _ \<Rightarrow> False)"

definition base_prefix :: "nat \<Rightarrow> string \<Rightarrow> nat \<times> nat" where
  "base_prefix base s =
     (if base = 16 then (16, if hex_prefix s then 2 else 0)
      else if base = 0 then
        (if hex_prefix s then (16, 2)
         else if (case s of z # _ \<Rightarrow> z = CHR ''0'' | [] \<Rightarrow> False) then (8, 0)
         else (10, 0))
      else (base, 0))"

definition sign_prefix :: "string \<Rightarrow> bool \<times> nat" where
  "sign_prefix s = (case s of
     c # _ \<Rightarrow> if c = CHR ''-'' then (True, 1) else if c = CHR ''+'' then (False, 1) else (False, 0)
   | [] \<Rightarrow> (False, 0))"

text \<open>
  White space, sign, prefix and the longest run of digits: the sign, the magnitude and the
  number of characters consumed; \<open>None\<close> when there is no digit.
\<close>

definition strto :: "nat \<Rightarrow> string \<Rightarrow> (bool \<times> nat \<times> nat) option" where
  "strto base s =
     (let ws = length (takeWhile is_space s);
          s1 = drop ws s;
          (neg, sg) = sign_prefix s1;
          s2 = drop sg s1;
          (b, pre) = base_prefix base s2;
          ds = takeWhile (is_digit_in b) (drop pre s2)
      in if ds = [] then None
         else Some (neg, digits_value b ds, ws + sg + pre + length ds))"

definition signed_value :: "bool \<Rightarrow> nat \<Rightarrow> int" where
  "signed_value neg m = (if neg then - int m else int m)"

definition stol :: "string \<Rightarrow> num_exc + (int \<times> nat)" where
  "stol s = (case strto 10 s of
     None \<Rightarrow> Inl InvalidArgument
   | Some (neg, m, used) \<Rightarrow>
       (let v = signed_value neg m in
        if v < - (2 ^ 63) \<or> 2 ^ 63 - 1 < v then Inl OutOfRange else Inr (v, used)))"

definition stoi :: "string \<Rightarrow> num_exc + (int \<times> nat)" where
  "stoi s = (case stol s of
     Inl e \<Rightarrow> Inl e
   | Inr (v, used) \<Rightarrow>
       if v < - (2 ^ 31) \<or> 2 ^ 31 - 1 < v then Inl OutOfRange else Inr (v, used))"

text \<open>
  \<open>strtoul\<close> accepts a minus sign and negates the value in \<open>unsigned long\<close>; only a
  magnitude that does not fit is out of range. \<open>stoull\<close> is the same on LP64.
\<close>

definition stoul :: "nat \<Rightarrow> string \<Rightarrow> num_exc + (nat \<times> nat)" where
  "stoul base s = (case strto base s of
     None \<Rightarrow> Inl InvalidArgument
   | Some (neg, m, used) \<Rightarrow>
       if 2 ^ 64 - 1 < m then Inl OutOfRange
       else Inr (if neg then (2 ^ 64 - m) mod 2 ^ 64 else m, used))"

definition stoull :: "string \<Rightarrow> num_exc + (nat \<times> nat)" where
  "stoull s = stoul 10 s"

lemma stoul_bound: "stoul base s = Inr (v, used) \<Longrightarrow> v < 2 ^ 64"
  by (auto simp: stoul_def split: option.splits prod.splits if_splits)

section \<open>Printed numbers are read back\<close>

text \<open>\<open>std::to_string\<close> on a non-negative number.\<close>

fun show_nat :: "nat \<Rightarrow> string" where
  "show_nat n =
     (if n < 10 then [char_of (48 + n)] else show_nat (n div 10) @ [char_of (48 + n mod 10)])"

declare show_nat.simps [simp del]

lemma of_char_digit: "d < 10 \<Longrightarrow> (of_char (char_of (48 + d)) :: nat) = 48 + d"
  by (simp add: of_char_of)

lemma digit_char_facts:
  fixes d :: nat
  assumes "d < 10"
  shows "digit_value (char_of (48 + d)) = Some d" and "is_digit (char_of (48 + d))"
    and "is_digit_in 10 (char_of (48 + d))" and "\<not> is_space (char_of (48 + d))"
  using assms by (simp_all add: digit_value_def is_digit_def is_digit_in_def is_space_def Let_def
      of_char_digit)

lemma show_nat_digits: "c \<in> set (show_nat n) \<Longrightarrow> \<exists>d<10::nat. c = char_of (48 + d)"
proof (induction n rule: show_nat.induct)
  case (1 n)
  then show ?case
    by (subst (asm) show_nat.simps) (auto split: if_splits intro: exI [of _ n] exI [of _ "n mod 10"])
qed

lemma show_nat_Nil [simp]: "show_nat n \<noteq> []"
  by (subst show_nat.simps) simp

lemma digits_value_show_nat: "digits_value 10 (show_nat n) = n"
proof (induction n rule: show_nat.induct)
  case (1 n)
  then show ?case
    by (subst show_nat.simps) (simp add: digits_value_def digit_char_facts)
qed

lemma digit_char_not:
  assumes "c \<in> set (show_nat n)"
  shows "is_digit_in 10 c" and "\<not> is_space c" and "is_digit c"
    and "c \<noteq> CHR ''-''" and "c \<noteq> CHR ''+''" and "c \<noteq> CHR '':''" and "c \<noteq> CHR '',''"
proof -
  from show_nat_digits [OF assms] obtain d :: nat where d: "d < 10" "c = char_of (48 + d)" by blast
  then show "is_digit_in 10 c" "\<not> is_space c" and dig: "is_digit c" by (simp_all add: digit_char_facts)
  from dig show "c \<noteq> CHR ''-''" "c \<noteq> CHR ''+''" "c \<noteq> CHR '':''" "c \<noteq> CHR '',''"
    by (auto simp: is_digit_def)
qed

text \<open>A printed number is read back, whatever follows it, as long as no digit does.\<close>

lemma strto_show_nat:
  assumes rest: "case rest of [] \<Rightarrow> True | c # _ \<Rightarrow> \<not> is_digit_in 10 c"
  shows "strto 10 (show_nat n @ rest) = Some (False, n, length (show_nat n))"
proof -
  obtain c cs where s: "show_nat n = c # cs" by (cases "show_nat n") auto
  then have c: "c \<in> set (show_nat n)" by simp
  have run: "takeWhile (is_digit_in 10) (show_nat n @ rest) = show_nat n"
    using rest digit_char_not(1) by (subst takeWhile_append2) (auto split: list.splits)
  have ws: "takeWhile is_space (show_nat n @ rest) = []"
    using digit_char_not [OF c] s by simp
  have sg: "sign_prefix (show_nat n @ rest) = (False, 0)"
    using digit_char_not [OF c] s by (simp add: sign_prefix_def)
  show ?thesis
    by (simp add: strto_def ws sg base_prefix_def run digits_value_show_nat Let_def)
qed

lemma stol_show_nat [num_simps]: "n < 2 ^ 63 \<Longrightarrow> stol (show_nat n) = Inr (int n, length (show_nat n))"
  using strto_show_nat [of "[]" n] by (simp add: stol_def signed_value_def)

lemma stoi_show_nat [num_simps]: "n < 2 ^ 31 \<Longrightarrow> stoi (show_nat n) = Inr (int n, length (show_nat n))"
  by (simp add: stoi_def num_simps)

lemma stoul_show_nat [num_simps]: "n < 2 ^ 64 \<Longrightarrow> stoul 10 (show_nat n) = Inr (n, length (show_nat n))"
  using strto_show_nat [of "[]" n] by (simp add: stoul_def)

text \<open>Base 0 reads a printed number as decimal too: only zero starts with the digit 0.\<close>

lemma hd_show_nat: "0 < n \<Longrightarrow> hd (show_nat n) \<noteq> CHR ''0''"
proof (induction n rule: show_nat.induct)
  case (1 n)
  show ?case
  proof (cases "n < 10")
    case True
    have "char_of (48 + n) \<noteq> CHR ''0''"
    proof
      assume "char_of (48 + n) = CHR ''0''"
      then have "(of_char (char_of (48 + n)) :: nat) = of_char (CHR ''0'')" by simp
      with True "1.prems" show False by (simp add: of_char_digit)
    qed
    with True show ?thesis by (simp add: show_nat.simps [of n])
  next
    case False
    with "1.IH" have "hd (show_nat (n div 10)) \<noteq> CHR ''0''" by (simp add: div_greater_zero_iff)
    with False show ?thesis by (simp add: show_nat.simps [of n])
  qed
qed

lemma show_nat_0: "show_nat 0 = ''0''"
  by code_simp

lemma strto0_show_nat: "strto 0 (show_nat n) = Some (False, n, length (show_nat n))"
proof (cases "n = 0")
  case True
  then show ?thesis
    by (simp add: show_nat_0 strto_def sign_prefix_def base_prefix_def hex_prefix_def is_digit_in_def
        digit_value_def digits_value_def is_space_def)
next
  case False
  obtain c cs where s: "show_nat n = c # cs" by (cases "show_nat n") auto
  with hd_show_nat [of n] False have "base_prefix 0 (show_nat n) = (10, 0)"
    by (auto simp: base_prefix_def hex_prefix_def split: list.splits)
  moreover have "base_prefix 10 (show_nat n) = (10, 0)" by (simp add: base_prefix_def)
  moreover have "takeWhile is_space (show_nat n) = []" and "sign_prefix (show_nat n) = (False, 0)"
    using digit_char_not [of c n] s by (simp_all add: sign_prefix_def)
  ultimately have "strto 0 (show_nat n) = strto 10 (show_nat n)" by (simp add: strto_def)
  then show ?thesis using strto_show_nat [of "[]" n] by simp
qed

lemma stoul0_show_nat [num_simps]: "n < 2 ^ 64 \<Longrightarrow> stoul 0 (show_nat n) = Inr (n, length (show_nat n))"
  by (simp add: stoul_def strto0_show_nat)

lemma show_nat_no_sep [simp]:
  "CHR '':'' \<notin> set (show_nat n)" "CHR '','' \<notin> set (show_nat n)" "CHR ''-'' \<notin> set (show_nat n)"
  using digit_char_not by blast+

end
