(* ===== verification/Binary64.thy ===== *)
theory Binary64
  imports Cxx_Num "HOL-Library.Log_Nat"
begin

text \<open>
  The double-precision arithmetic the parsers use, on non-negative numbers: rounding of an
  exact rational to binary64 (nearest, ties to even), \<open>std::stod\<close> on numerals made of
  digits and points (the callers check the characters first), multiplication, comparison
  and the truncating cast to an unsigned integer.
\<close>

section \<open>Rounding\<close>

definition round_half_even :: "rat \<Rightarrow> int" where
  "round_half_even x =
     (let f = \<lfloor>x\<rfloor>; r = x - of_int f in
      if r < 1 / 2 then f else if 1 / 2 < r then f + 1 else if even f then f else f + 1)"

text \<open>An exponent \<open>e\<close> with \<open>2^e \<le> x \<le> 2^(e+1)\<close>.\<close>

definition exponent_of :: "rat \<Rightarrow> int" where
  "exponent_of x = (if 1 \<le> x then bitlen \<lfloor>x\<rfloor> - 1 else - bitlen \<lfloor>1 / x\<rfloor>)"

definition ulp_exponent :: "rat \<Rightarrow> int" where
  "ulp_exponent x = max (exponent_of x) (-1022) - 52"

definition round64 :: "rat \<Rightarrow> rat" where
  "round64 x =
     (if x \<le> 0 then 0
      else of_int (round_half_even (x * 2 powi (- ulp_exponent x))) * 2 powi (ulp_exponent x))"

datatype dbl = Finite rat | Infinity

definition to_dbl :: "rat \<Rightarrow> dbl" where
  "to_dbl x = (if 2 ^ 1024 \<le> round64 x then Infinity else Finite (round64 x))"

definition dbl_mul :: "rat \<Rightarrow> rat \<Rightarrow> dbl" where
  "dbl_mul a b = to_dbl (a * b)"

section \<open>Decimal numerals\<close>

text \<open>
  The numeral at the start of a string of digits and points: its exact value and length.
  A second point ends it.
\<close>

definition decimal_prefix :: "string \<Rightarrow> (rat \<times> nat) option" where
  "decimal_prefix s =
     (let ip = takeWhile is_digit s;
          rest = drop (length ip) s in
      case rest of
        c # t \<Rightarrow>
          if c = CHR ''.'' then
            (let fp = takeWhile is_digit t in
             if ip = [] \<and> fp = [] then None
             else Some (of_nat (digits_value 10 ip) + of_nat (digits_value 10 fp) / 10 ^ length fp,
                        length ip + 1 + length fp))
          else if ip = [] then None else Some (of_nat (digits_value 10 ip), length ip)
      | [] \<Rightarrow> if ip = [] then None else Some (of_nat (digits_value 10 ip), length ip))"

text \<open>
  \<open>std::stod\<close>: overflow raises \<open>out_of_range\<close>, and so does an inexact result below the
  smallest normal number (\<open>strtod\<close> reports ERANGE).
\<close>

definition stod :: "string \<Rightarrow> num_exc + (rat \<times> nat)" where
  "stod s = (case decimal_prefix s of
     None \<Rightarrow> Inl InvalidArgument
   | Some (x, used) \<Rightarrow>
       (case to_dbl x of
          Infinity \<Rightarrow> Inl OutOfRange
        | Finite v \<Rightarrow>
            if v \<noteq> x \<and> x < 2 powi (-1022) then Inl OutOfRange else Inr (v, used)))"

section \<open>Facts about rounding\<close>

lemma round_half_even_int [simp]: "round_half_even (of_int z) = z"
  by (simp add: round_half_even_def)

lemma round_half_even_error: "\<bar>of_int (round_half_even x) - x\<bar> \<le> 1 / 2"
proof -
  define f where "f = \<lfloor>x\<rfloor>"
  have "of_int f \<le> x" and "x < of_int f + 1" unfolding f_def by linarith+
  then show ?thesis
    unfolding round_half_even_def Let_def f_def [symmetric] by (auto simp: abs_if field_simps)
qed

lemma round_half_even_nonneg: "0 \<le> x \<Longrightarrow> 0 \<le> round_half_even x"
  by (auto simp: round_half_even_def Let_def)

lemma round64_nonneg [simp]: "0 \<le> round64 x"
  by (simp add: round64_def round_half_even_nonneg)

lemma powi_minus_nat: "(2 :: rat) powi (- int k) = 1 / 2 ^ k"
  by (simp add: power_int_minus power_int_of_nat divide_inverse)

lemma exponent_of_lower_ge1:
  assumes "1 \<le> x"
  shows "2 powi (exponent_of x) \<le> x"
proof -
  define k where "k = nat (bitlen \<lfloor>x\<rfloor> - 1)"
  from assms have f: "0 < \<lfloor>x\<rfloor>" by simp
  then have "bitlen \<lfloor>x\<rfloor> \<noteq> 0" using bitlen_bounds [of "\<lfloor>x\<rfloor>"] by auto
  with bitlen_nonneg [of "\<lfloor>x\<rfloor>"] have k: "bitlen \<lfloor>x\<rfloor> - 1 = int k" by (simp add: k_def)
  have "2 ^ k \<le> \<lfloor>x\<rfloor>" using bitlen_bounds [OF f] unfolding k_def by blast
  then have "(of_int (2 ^ k) :: rat) \<le> x" by (simp add: le_floor_iff)
  with assms k show ?thesis by (simp add: exponent_of_def)
qed

lemma exponent_of_lower_lt1:
  assumes "0 < x" and "x < 1"
  shows "2 powi (exponent_of x) \<le> x"
proof -
  define y where "y = \<lfloor>1 / x\<rfloor>"
  define k where "k = nat (bitlen y)"
  have y: "0 < y" using assms by (simp add: y_def)
  have k: "bitlen y = int k" using bitlen_nonneg [of y] by (simp add: k_def)
  have "y < 2 ^ k" using bitlen_bounds [OF y] unfolding k_def by blast
  then have "y + 1 \<le> 2 ^ k" by simp
  then have "(of_int (y + 1) :: rat) \<le> of_int (2 ^ k)" by (simp only: of_int_le_iff)
  moreover have "1 / x < of_int (y + 1)" unfolding y_def by linarith
  ultimately have "1 / x < 2 ^ k" by simp
  with assms(1) have "1 / 2 ^ k \<le> x" by (simp add: field_simps)
  with assms(2) k show ?thesis by (simp add: exponent_of_def y_def [symmetric] powi_minus_nat)
qed

lemma exponent_of_lower: "0 < x \<Longrightarrow> 2 powi (exponent_of x) \<le> x"
  using exponent_of_lower_ge1 exponent_of_lower_lt1 by (cases "1 \<le> x") auto

lemma two_powi_cancel: "(2 :: rat) powi a * 2 powi (- a) = 1"
  by (simp add: power_int_minus)

text \<open>A number whose multiple of its unit in the last place is an integer is not rounded.\<close>

lemma round64_exact:
  assumes "x * 2 powi (- ulp_exponent x) = of_int z" and "0 < x"
  shows "round64 x = x"
proof -
  have "round64 x = of_int z * 2 powi (ulp_exponent x)" using assms by (simp add: round64_def)
  also have "\<dots> = x * (2 powi (ulp_exponent x) * 2 powi (- ulp_exponent x))"
    using assms(1) by (simp add: mult_ac)
  finally show ?thesis by (simp add: two_powi_cancel)
qed

lemma round64_of_nat:
  assumes "n < 2 ^ 53"
  shows "round64 (of_nat n) = of_nat n"
proof (cases "n = 0")
  case True
  then show ?thesis by (simp add: round64_def)
next
  case False
  have b: "bitlen (int n) \<le> 53"
    using assms bitlen_le_iff_power [of "int n" 53] by (simp add: of_nat_less_numeral_power_cancel_iff)
  have "0 \<le> bitlen (int n)" by (rule bitlen_nonneg)
  with b have e: "ulp_exponent (of_nat n) = - int (nat (53 - bitlen (int n)))"
    using False by (simp add: ulp_exponent_def exponent_of_def)
  have "of_nat n * (2 :: rat) powi (- ulp_exponent (of_nat n)) = of_int (int n * 2 ^ nat (53 - bitlen (int n)))"
    unfolding e minus_minus power_int_of_nat by simp
  from round64_exact [OF this] False show ?thesis by simp
qed

text \<open>Rounding moves a number by at most half a unit in the last place.\<close>

lemma round64_half_ulp:
  assumes "0 < x"
  shows "\<bar>round64 x - x\<bar> \<le> 1 / 2 * 2 powi (ulp_exponent x)"
proof -
  define q where "q = ulp_exponent x"
  have "x * 2 powi (- q) * 2 powi q = x" using two_powi_cancel [of q] by (simp add: mult_ac)
  with assms have "round64 x - x = (of_int (round_half_even (x * 2 powi (- q))) - x * 2 powi (- q)) * 2 powi q"
    by (simp add: round64_def q_def left_diff_distrib)
  then have "\<bar>round64 x - x\<bar> = \<bar>of_int (round_half_even (x * 2 powi (- q))) - x * 2 powi (- q)\<bar> * 2 powi q"
    by (simp add: abs_mult)
  also have "\<dots> \<le> 1 / 2 * 2 powi q"
    by (intro mult_right_mono round_half_even_error) simp
  finally show ?thesis by (simp only: q_def)
qed

lemma round64_relative_error:
  assumes "2 powi (-1022) \<le> x"
  shows "\<bar>round64 x - x\<bar> \<le> x / 2 ^ 53"
proof -
  define q where "q = ulp_exponent x"
  have x: "0 < x" using assms zero_less_power_int [of "2 :: rat" "-1022"] by linarith
  have "2 powi (q + 52) \<le> x"
    using exponent_of_lower [OF x] assms by (auto simp: q_def ulp_exponent_def max_def)
  then have "2 powi q * 2 ^ 52 \<le> x" by (simp add: power_int_add)
  with round64_half_ulp [OF x] show ?thesis by (simp add: q_def)
qed

lemma round64_tiny:
  assumes "0 < x" and "x < 2 powi (-1022)"
  shows "round64 x < 1"
proof -
  have "(2 :: rat) powi (exponent_of x) < 2 powi (-1022)"
    using exponent_of_lower [OF assms(1)] assms(2) by linarith
  then have "exponent_of x < -1022"
    using power_int_increasing [of "-1022" "exponent_of x" "2 :: rat"] by force
  then have "ulp_exponent x = - int 1074" by (simp add: ulp_exponent_def)
  then have "\<bar>round64 x - x\<bar> \<le> 1 / 2 * (1 / 2 ^ 1074)"
    using round64_half_ulp [OF assms(1)] by (simp only: powi_minus_nat)
  moreover have "(1 :: rat) / 2 ^ 1074 \<le> 1" by simp
  moreover have "(2 :: rat) powi (-1022) \<le> 1 / 2"
    using power_int_increasing [of "-1022" "-1" "2 :: rat"] by simp
  ultimately show ?thesis using assms(2) by linarith
qed

text \<open>
  A decimal numeral read by \<open>stod\<close> and multiplied: two roundings of normal numbers move
  the exact product by at most \<open>2^-51\<close> of its size.
\<close>

lemma compose_errors:
  assumes "\<bar>a - b\<bar> \<le> b / k" and "\<bar>u - a\<bar> \<le> a / k" and "(1 :: rat) \<le> k" and "0 \<le> b"
  shows "\<bar>u - b\<bar> \<le> 3 * b / k"
proof -
  have bk: "b / k \<le> b" using assms(3,4) by (simp add: field_simps mult_le_cancel_left1)
  have "a \<le> b + b / k" using assms(1) by (simp add: abs_le_iff)
  also have "\<dots> \<le> 2 * b" using bk by simp
  finally have "a / k \<le> 2 * b / k" using assms(3) by (intro divide_right_mono) auto
  then have "\<bar>u - a\<bar> + \<bar>a - b\<bar> \<le> 2 * b / k + b / k" using assms(1,2) by linarith
  then have "\<bar>u - a\<bar> + \<bar>a - b\<bar> \<le> 3 * b / k" by (simp flip: add_divide_distrib)
  moreover have "\<bar>u - b\<bar> \<le> \<bar>u - a\<bar> + \<bar>a - b\<bar>" by simp
  ultimately show ?thesis by linarith
qed

lemma two_roundings:
  assumes v: "\<bar>v - x\<bar> \<le> x / 2 ^ 53" and u: "\<bar>u - v * m\<bar> \<le> v * m / 2 ^ 53"
    and "0 \<le> x" and "0 \<le> m"
  shows "\<bar>u - x * m\<bar> \<le> x * m / (2 :: rat) ^ 51"
proof -
  have "\<bar>v - x\<bar> * m \<le> x / 2 ^ 53 * m" using v assms(4) by (intro mult_right_mono) auto
  then have "\<bar>v * m - x * m\<bar> \<le> x * m / 2 ^ 53"
    using assms(4) by (simp add: abs_mult flip: left_diff_distrib)
  from compose_errors [OF this u] assms(3,4) have "\<bar>u - x * m\<bar> \<le> 3 * (x * m) / 2 ^ 53" by simp
  also have "\<dots> \<le> x * m / 2 ^ 51" using assms(3,4) by simp
  finally show ?thesis .
qed

end
