(* ===== verification/Parser.thy ===== *)
theory Parser
  imports Binary64
begin

text \<open>
  The option parsers of src/parser.cpp that configure source ports, pacing and the IPv4
  header (lines 1 to 534), with the configuration structs of src/scan.hpp they fill. A
  parser returns its configuration as the code leaves it, also when it fails, together
  with \<open>None\<close> for \<open>true\<close> or the error whose message the code prints.
\<close>

named_theorems parser_defs "the parsers and their helpers"

section \<open>Errors\<close>

text \<open>One constructor per kind of message printed before \<open>return false\<close>.\<close>

datatype perr =
    EFormat           \<comment> \<open>the separators of the option are missing or misplaced\<close>
  | ENumber           \<comment> \<open>a number does not parse\<close>
  | EPortRange        \<comment> \<open>a port is outside 1 to 65535\<close>
  | EOrder            \<comment> \<open>min is not below (or not at most) max\<close>
  | EStageNumber      \<comment> \<open>an attempt number does not parse\<close>
  | EStageRange       \<comment> \<open>an attempt number is outside 0 to 5\<close>
  | EStageTwice       \<comment> \<open>an attempt is given twice\<close>
  | EIsRange          \<comment> \<open>a range where one port is expected\<close>
  | EUnit             \<comment> \<open>unknown time unit\<close>
  | EMissing          \<comment> \<open>no number before the unit\<close>
  | ENotPositive      \<comment> \<open>a value that must be positive is not\<close>
  | ETooSmall         \<comment> \<open>below one microsecond\<close>
  | ETooLarge         \<comment> \<open>above 1.8e19 microseconds\<close>
  | EValue            \<comment> \<open>a value out of the option's range\<close>
  | EUnknown          \<comment> \<open>an unrecognized word\<close>
  | EDuplicate        \<comment> \<open>a header listed twice\<close>

section \<open>Configurations (src/scan.hpp)\<close>

record sport_range_config =
  stage_is_range :: "bool list"
  stage_min :: "u16 list"
  stage_max :: "u16 list"

definition sport_range_default :: sport_range_config where
  "sport_range_default = \<lparr>stage_is_range = replicate 6 False,
     stage_min = replicate 6 0, stage_max = replicate 6 0\<rparr>"

record gsport_config =
  stage_is_set :: "bool list"
  stage_port :: "u16 list"

definition gsport_default :: gsport_config where
  "gsport_default = \<lparr>stage_is_set = replicate 6 False, stage_port = replicate 6 0\<rparr>"

record rate_config =
  rc_enabled :: bool
  rc_window_us :: nat
  rc_min_packets :: nat
  rc_max_packets :: nat
  rc_dynamic_mode :: bool
  rc_gate_by_retry :: bool

definition rate_default :: rate_config where
  "rate_default = \<lparr>rc_enabled = False, rc_window_us = 0, rc_min_packets = 0, rc_max_packets = 0,
     rc_dynamic_mode = False, rc_gate_by_retry = False\<rparr>"

record jitter_config =
  jc_enabled :: bool
  jc_random_mode :: bool
  jc_delay_us :: nat

record batch_delay_config =
  bd_enabled :: bool
  bd_random_mode :: bool
  bd_range_mode :: bool
  bd_delay_us :: nat
  bd_min_us :: nat
  bd_max_us :: nat
  bd_dynamic_mode :: bool

record bandwidth_config =
  bw_enabled :: bool
  bw_window_us :: nat
  bw_total_bytes_min :: nat
  bw_total_bytes_max :: nat

definition bandwidth_default :: bandwidth_config where
  "bandwidth_default = \<lparr>bw_enabled = False, bw_window_us = 0, bw_total_bytes_min = 0, bw_total_bytes_max = 0\<rparr>"

record packet_length_config =
  pl_enabled :: bool
  pl_target_len :: u16

datatype ip_id_mode = IPID_RANDOM | IPID_SEQUENTIAL | IPID_ZERO | IPID_FIXED | IPID_IPROFILE | IPID_TIME

section \<open>--sport-range\<close>

text \<open>The lambda \<open>parse_one_range\<close>: \<open>stol\<close> on both sides, without a check of what it consumed.\<close>

definition parse_one_range :: "string \<Rightarrow> perr + (u16 \<times> u16)" where
  "parse_one_range s =
     (case str_find s (CHR ''-'') 0 of
        None \<Rightarrow> Inl EFormat
      | Some dash \<Rightarrow>
          if dash = 0 \<or> dash = length s - 1 then Inl EFormat
          else (case (stol (substr s 0 dash), stol (substr_from s (dash + 1))) of
              (Inr (lo_v, _), Inr (hi_v, _)) \<Rightarrow>
                if lo_v < 1 \<or> lo_v > 65535 \<or> hi_v < 1 \<or> hi_v > 65535 then Inl EPortRange
                else if lo_v \<ge> hi_v then Inl EOrder
                else Inr (word_of_int lo_v, word_of_int hi_v)
            | _ \<Rightarrow> Inl ENumber))"

definition set_sport_stage :: "nat \<Rightarrow> u16 \<Rightarrow> u16 \<Rightarrow> sport_range_config \<Rightarrow> sport_range_config" where
  "set_sport_stage idx lo hi out = out\<lparr>stage_is_range := (stage_is_range out)[idx := True],
     stage_min := (stage_min out)[idx := lo], stage_max := (stage_max out)[idx := hi]\<rparr>"

text \<open>The prefix \<open>N:\<close> of a token, shared by \<open>--sport-range\<close> and \<open>-g\<close>: the attempt and the rest.\<close>

definition parse_stage_token :: "string \<Rightarrow> perr + (nat \<times> string)" where
  "parse_stage_token token =
     (case str_find token (CHR '':'') 0 of
        None \<Rightarrow> Inl EFormat
      | Some colon \<Rightarrow>
          if colon = 0 \<or> colon = length token - 1 then Inl EFormat
          else (case stoi (substr token 0 colon) of
              Inl _ \<Rightarrow> Inl EStageNumber
            | Inr (stage_num, _) \<Rightarrow>
                if stage_num < 0 \<or> stage_num > 5 then Inl EStageRange
                else Inr (nat stage_num, substr_from token (colon + 1))))"

fun sport_stages :: "string list \<Rightarrow> bool list \<Rightarrow> sport_range_config \<Rightarrow> (perr, sport_range_config) outcome" where
  "sport_stages [] seen out = (None, out)"
| "sport_stages (token # ts) seen out =
     (case parse_stage_token token of
        Inl e \<Rightarrow> (Some e, out)
      | Inr (idx, rest) \<Rightarrow>
          if seen ! idx then (Some EStageTwice, out)
          else (case parse_one_range rest of
              Inl e \<Rightarrow> (Some e, out)
            | Inr (lo, hi) \<Rightarrow> sport_stages ts (seen[idx := True]) (set_sport_stage idx lo hi out)))"

definition parse_sport_range_config ::
    "string \<Rightarrow> sport_range_config \<Rightarrow> (perr, sport_range_config) outcome" where
  "parse_sport_range_config arg out =
     (case str_find arg (CHR '':'') 0 of
        None \<Rightarrow>
          (case parse_one_range arg of
             Inl e \<Rightarrow> (Some e, out)
           | Inr (lo, hi) \<Rightarrow> (None, fold (\<lambda>i c. set_sport_stage i lo hi c) [0..<6] out))
      | Some _ \<Rightarrow> sport_stages (tokens_from (CHR '','') arg 0) (replicate 6 False) out)"

section \<open>-g\<close>

text \<open>The lambda \<open>parse_one_port\<close>: here the whole string must be consumed.\<close>

definition parse_one_port :: "string \<Rightarrow> perr + u16" where
  "parse_one_port s =
     (if str_find s (CHR ''-'') 0 \<noteq> None then Inl EIsRange
      else (case stol s of
          Inl _ \<Rightarrow> Inl ENumber
        | Inr (v, consumed) \<Rightarrow>
            if consumed \<noteq> length s then Inl ENumber
            else if v < 1 \<or> v > 65535 then Inl EPortRange
            else Inr (word_of_int v)))"

definition set_gsport_stage :: "nat \<Rightarrow> u16 \<Rightarrow> gsport_config \<Rightarrow> gsport_config" where
  "set_gsport_stage i port out = out\<lparr>stage_is_set := (stage_is_set out)[i := True],
     stage_port := (stage_port out)[i := port]\<rparr>"

fun gsport_stages :: "string list \<Rightarrow> bool list \<Rightarrow> gsport_config \<Rightarrow> (perr, gsport_config) outcome" where
  "gsport_stages [] seen out = (None, out)"
| "gsport_stages (token # ts) seen out =
     (case parse_stage_token token of
        Inl e \<Rightarrow> (Some e, out)
      | Inr (stage_num, rest) \<Rightarrow>
          if seen ! stage_num then (Some EStageTwice, out)
          else (case parse_one_port rest of
              Inl e \<Rightarrow> (Some e, out)
            | Inr port \<Rightarrow> gsport_stages ts (seen[stage_num := True]) (set_gsport_stage stage_num port out)))"

definition parse_gsport_config :: "string \<Rightarrow> gsport_config \<Rightarrow> (perr, gsport_config) outcome" where
  "parse_gsport_config arg out =
     (case str_find arg (CHR '':'') 0 of
        None \<Rightarrow>
          (case parse_one_port arg of
             Inl e \<Rightarrow> (Some e, out)
           | Inr port \<Rightarrow> (None, set_gsport_stage 0 port out))
      | Some _ \<Rightarrow> gsport_stages (tokens_from (CHR '','') arg 0) (replicate 6 False) out)"

section \<open>Durations\<close>

text \<open>The unit suffix: the multiplier to microseconds and the length of the number before it.\<close>

definition duration_unit :: "string \<Rightarrow> (nat \<times> nat) option" where
  "duration_unit s =
     (let n = length s in
      if 2 \<le> n \<and> drop (n - 2) s = ''ms'' then Some (1000, n - 2)
      else if s \<noteq> [] \<and> last s = CHR ''s'' \<and> (n < 2 \<or> s ! (n - 2) \<noteq> CHR ''m'')
        then Some (1000000, n - 1)
      else if s \<noteq> [] \<and> last s = CHR ''m'' then Some (60000000, n - 1)
      else None)"

definition parse_duration_to_us :: "string \<Rightarrow> perr + nat" where
  "parse_duration_to_us s =
     (case duration_unit s of
        None \<Rightarrow> Inl EUnit
      | Some (multiplier, num_len) \<Rightarrow>
          if num_len = 0 then Inl EMissing
          else (let num = take num_len s in
            if \<not> list_all (\<lambda>c. is_digit c \<or> c = CHR ''.'') num then Inl ENumber
            else (case stod num of
                Inl _ \<Rightarrow> Inl ENumber
              | Inr (val, used) \<Rightarrow>
                  if used \<noteq> length num then Inl ENumber
                  else if val \<le> 0 then Inl ENotPositive
                  else (case dbl_mul val (of_nat multiplier) of
                      Infinity \<Rightarrow> Inl ETooLarge
                    | Finite us \<Rightarrow>
                        if us < 1 then Inl ETooSmall
                        else if 18 * 10 ^ 18 < us then Inl ETooLarge
                        else Inr (nat \<lfloor>us\<rfloor>)))))"

section \<open>--rate, --jitter, --batch-delay, --bandwidth\<close>

definition to_uint32 :: "nat \<Rightarrow> nat" where
  "to_uint32 n = n mod 2 ^ 32"

definition parse_rate_config :: "string \<Rightarrow> rate_config \<Rightarrow> (perr, rate_config) outcome" where
  "parse_rate_config arg out =
     (case str_find arg (CHR '':'') 0 of
        None \<Rightarrow> (Some EFormat, out)
      | Some colon \<Rightarrow>
          if colon = 0 \<or> colon = length arg - 1 then (Some EFormat, out)
          else (let time_part = substr arg 0 colon; range_part = substr_from arg (colon + 1) in
            case parse_duration_to_us time_part of
              Inl e \<Rightarrow> (Some e, out)
            | Inr window_us \<Rightarrow>
                (case str_find range_part (CHR ''-'') 0 of
                   None \<Rightarrow> (Some EFormat, out)
                 | Some dash \<Rightarrow>
                     if dash = 0 \<or> dash = length range_part - 1 then (Some EFormat, out)
                     else (case (stoul 10 (substr range_part 0 dash),
                                 stoul 10 (substr_from range_part (dash + 1))) of
                         (Inr (a, _), Inr (b, _)) \<Rightarrow>
                           (let pmin = to_uint32 a; pmax = to_uint32 b in
                            if pmin = 0 \<or> pmax = 0 then (Some ENotPositive, out)
                            else if pmin > pmax then (Some EOrder, out)
                            else (None, out\<lparr>rc_enabled := True, rc_window_us := window_us,
                                   rc_min_packets := pmin, rc_max_packets := pmax\<rparr>))
                       | _ \<Rightarrow> (Some ENumber, out)))))"

definition parse_jitter_config :: "string \<Rightarrow> jitter_config \<Rightarrow> (perr, jitter_config) outcome" where
  "parse_jitter_config arg out =
     (if arg = [] then (None, out\<lparr>jc_enabled := True, jc_random_mode := True, jc_delay_us := 0\<rparr>)
      else (case parse_duration_to_us arg of
          Inl e \<Rightarrow> (Some e, out)
        | Inr us \<Rightarrow> (None, out\<lparr>jc_delay_us := us, jc_enabled := True, jc_random_mode := False\<rparr>)))"

text \<open>The dash of \<open>--batch-delay\<close> is looked for from index 1.\<close>

definition batch_delay_single ::
    "string \<Rightarrow> batch_delay_config \<Rightarrow> (perr, batch_delay_config) outcome" where
  "batch_delay_single arg out =
     (case parse_duration_to_us arg of
        Inl e \<Rightarrow> (Some e, out)
      | Inr us \<Rightarrow> (None, out\<lparr>bd_enabled := True, bd_random_mode := False,
                     bd_range_mode := False, bd_delay_us := us\<rparr>))"

definition batch_delay_range ::
    "string \<Rightarrow> string \<Rightarrow> batch_delay_config \<Rightarrow> (perr, batch_delay_config) outcome" where
  "batch_delay_range min_str max_str out =
     (case parse_duration_to_us min_str of
        Inl e \<Rightarrow> (Some e, out)
      | Inr min_us \<Rightarrow>
          (case parse_duration_to_us max_str of
             Inl e \<Rightarrow> (Some e, out)
           | Inr max_us \<Rightarrow>
               if min_us \<ge> max_us then (Some EOrder, out)
               else (None, out\<lparr>bd_enabled := True, bd_range_mode := True,
                       bd_min_us := min_us, bd_max_us := max_us\<rparr>)))"

definition parse_batch_delay_config ::
    "string \<Rightarrow> batch_delay_config \<Rightarrow> (perr, batch_delay_config) outcome" where
  "parse_batch_delay_config arg out =
     (if arg = [] then (None, out\<lparr>bd_enabled := True, bd_random_mode := True,
                                 bd_min_us := 10000, bd_max_us := 60000\<rparr>)
      else (case str_find arg (CHR ''-'') 1 of
          Some dash \<Rightarrow>
            if dash \<noteq> length arg - 1
            then batch_delay_range (substr arg 0 dash) (substr_from arg (dash + 1)) out
            else batch_delay_single arg out
        | None \<Rightarrow> batch_delay_single arg out))"

definition bandwidth_suffix :: "string \<Rightarrow> nat \<times> string" where
  "bandwidth_suffix bytes_part =
     (if bytes_part = [] then (1, bytes_part)
      else (let suf = to_upper (last bytes_part); cut = take (length bytes_part - 1) bytes_part in
        if suf = CHR ''K'' then (1024, cut)
        else if suf = CHR ''M'' then (1024 * 1024, cut)
        else if suf = CHR ''G'' then (1024 * 1024 * 1024, cut)
        else (1, bytes_part)))"

definition bandwidth_range :: "string \<Rightarrow> (string \<times> string) option" where
  "bandwidth_range num_part =
     (case str_find num_part (CHR ''-'') 0 of
        None \<Rightarrow> None
      | Some dash \<Rightarrow>
          if dash > 0 \<and> dash < length num_part - 1
          then Some (substr num_part 0 dash, substr_from num_part (dash + 1)) else None)"

definition parse_bandwidth_config ::
    "string \<Rightarrow> bandwidth_config \<Rightarrow> (perr, bandwidth_config) outcome" where
  "parse_bandwidth_config arg out =
     (case str_find arg (CHR '':'') 0 of
        None \<Rightarrow> (Some EFormat, out)
      | Some colon \<Rightarrow>
          if colon = 0 \<or> colon = length arg - 1 then (Some EFormat, out)
          else (case parse_duration_to_us (substr arg 0 colon) of
              Inl e \<Rightarrow> (Some e, out)
            | Inr window_us \<Rightarrow>
                (let (multiplier, num_part) = bandwidth_suffix (substr_from arg (colon + 1));
                     range = bandwidth_range num_part;
                     (lo_part, hi_part) = (case range of None \<Rightarrow> (num_part, num_part) | Some r \<Rightarrow> r)
                 in
                 if num_part = [] then (Some EMissing, out)
                 else (case (stoull lo_part, stoull hi_part) of
                     (Inr (bytes_lo, _), Inr (bytes_hi, _)) \<Rightarrow>
                       if bytes_lo = 0 then (Some ENotPositive, out)
                       else if range \<noteq> None \<and> bytes_hi < bytes_lo then (Some EOrder, out)
                       else (None, out\<lparr>bw_enabled := True, bw_window_us := window_us,
                              bw_total_bytes_min := (bytes_lo * multiplier) mod 2 ^ 64,
                              bw_total_bytes_max := (bytes_hi * multiplier) mod 2 ^ 64\<rparr>)
                   | _ \<Rightarrow> (Some ENumber, out)))))"

section \<open>--packet-length, --dscp, --ip-tos, --ip-id\<close>

definition parse_packet_length ::
    "string \<Rightarrow> packet_length_config \<Rightarrow> (perr, packet_length_config) outcome" where
  "parse_packet_length arg out =
     (case stoul 10 arg of
        Inl _ \<Rightarrow> (Some ENumber, out)
      | Inr (v, _) \<Rightarrow>
          if v < 40 \<or> v > 65535 then (Some EValue, out)
          else (None, out\<lparr>pl_enabled := True, pl_target_len := of_nat v\<rparr>))"

text \<open>\<open>dscp_map\<close>, by upper-cased name.\<close>

definition dscp_names :: "(string \<times> u8) list" where
  "dscp_names = [(''BE'', 0), (''CS0'', 0), (''CS1'', 8), (''CS2'', 16), (''CS3'', 24), (''CS4'', 32),
     (''CS5'', 40), (''CS6'', 48), (''CS7'', 56), (''AF11'', 10), (''AF12'', 12), (''AF13'', 14),
     (''AF21'', 18), (''AF22'', 20), (''AF23'', 22), (''AF31'', 26), (''AF32'', 28), (''AF33'', 30),
     (''AF41'', 34), (''AF42'', 36), (''AF43'', 38), (''EF'', 46), (''VA'', 44)]"

text \<open>Decimal, or hexadecimal behind \<open>0x\<close>, as \<open>--dscp\<close>, \<open>--ip-tos\<close> and \<open>--ip-id\<close> read it.\<close>

definition dec_or_hex :: "string \<Rightarrow> num_exc + (nat \<times> nat)" where
  "dec_or_hex arg =
     (if length arg > 2 \<and> arg ! 0 = CHR ''0'' \<and> (arg ! 1 = CHR ''x'' \<or> arg ! 1 = CHR ''X'')
      then stoul 16 (substr_from arg 2) else stoul 10 arg)"

definition parse_dscp_value :: "string \<Rightarrow> perr + u8" where
  "parse_dscp_value arg =
     (case map_of dscp_names (map to_upper arg) of
        Some d \<Rightarrow> Inr d
      | None \<Rightarrow>
          (case dec_or_hex arg of
             Inl _ \<Rightarrow> Inl ENumber
           | Inr (val, _) \<Rightarrow> if val > 63 then Inl EValue else Inr (of_nat val)))"

definition parse_ip_tos_value :: "string \<Rightarrow> perr + u8" where
  "parse_ip_tos_value arg =
     (case dec_or_hex arg of
        Inl _ \<Rightarrow> Inl ENumber
      | Inr (val, _) \<Rightarrow> if val > 255 then Inl EValue else Inr (of_nat val))"

text \<open>The out parameters: the mode and the fixed value, which only the numeric form writes.\<close>

definition parse_ip_id_mode :: "string \<Rightarrow> ip_id_mode \<times> u16 \<Rightarrow> (perr, ip_id_mode \<times> u16) outcome" where
  "parse_ip_id_mode arg out =
     (if arg = ''random'' then (None, (IPID_RANDOM, snd out))
      else if arg = ''sequential'' then (None, (IPID_SEQUENTIAL, snd out))
      else if arg = ''zero'' then (None, (IPID_ZERO, snd out))
      else if arg = ''iprofile'' then (None, (IPID_IPROFILE, snd out))
      else if arg = ''time'' then (None, (IPID_TIME, snd out))
      else (case dec_or_hex arg of
          Inl _ \<Rightarrow> (Some ENumber, out)
        | Inr (v, _) \<Rightarrow>
            if v > 65535 then (Some EValue, out) else (None, (IPID_FIXED, of_nat v))))"

section \<open>The per-attempt options\<close>

text \<open>
  \<open>--sport-range\<close> and \<open>-g\<close> share the loop over \<open>N:VALUE\<close> tokens: the interface is the value
  parser, the write of one attempt and the loop's two equations.
\<close>

locale staged_option =
  fixes parse_val :: "string \<Rightarrow> perr + 'v"
    and set_stage :: "nat \<Rightarrow> 'v \<Rightarrow> 'c \<Rightarrow> 'c"
    and run :: "string list \<Rightarrow> bool list \<Rightarrow> 'c \<Rightarrow> (perr, 'c) outcome"
    and valid :: "'v \<Rightarrow> bool"
  assumes run_Nil: "run [] seen out = (None, out)"
    and run_Cons: "run (token # ts) seen out =
      (case parse_stage_token token of
         Inl e \<Rightarrow> (Some e, out)
       | Inr (idx, rest) \<Rightarrow>
           if seen ! idx then (Some EStageTwice, out)
           else (case parse_val rest of
               Inl e \<Rightarrow> (Some e, out)
             | Inr v \<Rightarrow> run ts (seen[idx := True]) (set_stage idx v out)))"
    and parse_valid: "parse_val s = Inr v \<Longrightarrow> valid v"

definition print_stage :: "('v \<Rightarrow> string) \<Rightarrow> nat \<times> 'v \<Rightarrow> string" where
  "print_stage pr e = show_nat (fst e) @ CHR '':'' # pr (snd e)"

lemma stage_token_bound: "parse_stage_token t = Inr (i, rest) \<Longrightarrow> i \<le> 5"
  by (auto simp: parse_stage_token_def split: option.splits sum.splits if_splits)

lemma parse_stage_token_print:
  assumes "i \<le> 5" and "v \<noteq> []"
  shows "parse_stage_token (show_nat i @ CHR '':'' # v) = Inr (i, v)"
  using assms
  by (simp add: parse_stage_token_def str_simps substr_def substr_from_def num_simps)

context staged_option
begin

lemma run_invariant:
  assumes step: "\<And>i v c. i \<le> 5 \<Longrightarrow> valid v \<Longrightarrow> P c \<Longrightarrow> P (set_stage i v c)" and "P out"
  shows "P (snd (run ts seen out))"
  using \<open>P out\<close>
proof (induction ts arbitrary: seen out)
  case Nil
  then show ?case by (simp add: run_Nil)
next
  case (Cons t ts)
  then show ?case
    by (auto simp: run_Cons step stage_token_bound parse_valid split: sum.splits)
qed

lemma run_print:
  assumes "\<forall>e \<in> set es. fst e \<le> 5 \<and> pr (snd e) \<noteq> [] \<and> parse_val (pr (snd e)) = Inr (snd e)"
    and "distinct (map fst es)" and "\<forall>e \<in> set es. \<not> seen ! fst e" and "length seen = 6"
  shows "run (map (print_stage pr) es) seen out = (None, fold (\<lambda>(i, v). set_stage i v) es out)"
  using assms
proof (induction es arbitrary: seen out)
  case Nil
  then show ?case by (simp add: run_Nil)
next
  case (Cons e es)
  obtain i v where e: "e = (i, v)" by (cases e)
  have "\<not> seen[i := True] ! fst e'" if "e' \<in> set es" for e'
  proof -
    have "fst e' \<noteq> i" using that Cons.prems(2) e by (auto simp: rev_image_eqI)
    then show ?thesis using that Cons.prems(3) by simp
  qed
  with Cons.IH [of "seen[i := True]" "set_stage i v out"] Cons.prems e show ?case
    by (simp add: run_Cons print_stage_def parse_stage_token_print)
qed

text \<open>An attempt that was seen stays seen, and a repeated one is refused.\<close>

lemma run_seen:
  assumes "parse_stage_token t = Inr (i, rest)" and "seen ! i"
  shows "run (t # ts) seen out = (Some EStageTwice, out)"
  using assms by (simp add: run_Cons)

end

lemma unat_word_of_int_u16:
  "0 \<le> v \<Longrightarrow> v < 65536 \<Longrightarrow> unat (word_of_int v :: u16) = nat v"
  by (simp add: unat_eq_nat_uint uint_word_of_int)

definition valid_range :: "u16 \<times> u16 \<Rightarrow> bool" where
  "valid_range v \<longleftrightarrow> 1 \<le> unat (fst v) \<and> unat (fst v) < unat (snd v)"

lemma nat_ge_1: "\<not> v < 1 \<Longrightarrow> Suc 0 \<le> nat v"
  by simp

definition valid_port :: "u16 \<Rightarrow> bool" where
  "valid_port v \<longleftrightarrow> 1 \<le> unat v"

lemma parse_one_range_valid: "parse_one_range s = Inr v \<Longrightarrow> valid_range v"
  by (auto simp: parse_one_range_def valid_range_def unat_word_of_int_u16 nat_ge_1
      split: option.splits sum.splits if_splits)

lemma parse_one_port_valid: "parse_one_port s = Inr v \<Longrightarrow> valid_port v"
  by (auto simp: parse_one_port_def valid_port_def unat_word_of_int_u16 nat_ge_1
      split: sum.splits if_splits)

interpretation sport: staged_option parse_one_range "\<lambda>i (lo, hi). set_sport_stage i lo hi"
  sport_stages valid_range
  by unfold_locales (auto simp: parse_one_range_valid split: sum.splits prod.splits)

interpretation gsport: staged_option parse_one_port set_gsport_stage gsport_stages valid_port
  by unfold_locales (auto simp: parse_one_port_valid split: sum.splits)

text \<open>What a source-port configuration promises its users: six slots, and a range wherever one is set.\<close>

definition sport_wf :: "sport_range_config \<Rightarrow> bool" where
  "sport_wf c \<longleftrightarrow> length (stage_is_range c) = 6 \<and> length (stage_min c) = 6 \<and> length (stage_max c) = 6 \<and>
     (\<forall>i<6. stage_is_range c ! i \<longrightarrow> valid_range (stage_min c ! i, stage_max c ! i))"

lemma set_sport_stage_wf:
  "i \<le> 5 \<Longrightarrow> valid_range (lo, hi) \<Longrightarrow> sport_wf c \<Longrightarrow> sport_wf (set_sport_stage i lo hi c)"
  by (auto simp: sport_wf_def set_sport_stage_def nth_list_update)

lemma fold_sport_stage_wf:
  "\<forall>i \<in> set is. i \<le> 5 \<Longrightarrow> valid_range (lo, hi) \<Longrightarrow> sport_wf c \<Longrightarrow>
   sport_wf (fold (\<lambda>i c. set_sport_stage i lo hi c) is c)"
  by (induction "is" arbitrary: c) (auto simp: set_sport_stage_wf)

lemma parse_one_port_print:
  assumes "valid_port p"
  shows "parse_one_port (show_nat (unat p)) = Inr p"
proof -
  have "1 \<le> int (unat p)" and "int (unat p) < 65536"
    using unat_u16 [of p] assms by (simp_all only: valid_port_def of_nat_less_iff)
  moreover have "unat p < 2 ^ 63" by (rule less_trans [OF unat_u16]) simp
  ultimately show ?thesis
    using assms by (simp add: parse_one_port_def valid_port_def str_simps num_simps)
qed

text \<open>Unit suffixes of a printed duration.\<close>

definition duration_units :: "(string \<times> nat) list" where
  "duration_units = [(''ms'', 1000), (''s'', 1000000), (''m'', 60000000)]"

lemma duration_unit_print:
  assumes "(u, m) \<in> set duration_units"
  shows "duration_unit (show_nat n @ u) = Some (m, length (show_nat n))"
proof -
  have last_digit: "last (show_nat n) \<noteq> CHR ''m''"
  proof
    assume "last (show_nat n) = CHR ''m''"
    with last_in_set [OF show_nat_Nil [of n]] have "is_digit (CHR ''m'')" using digit_char_not(3) by metis
    then show False by (simp add: is_digit_def)
  qed
  obtain k where k: "length (show_nat n) = Suc k" by (cases "show_nat n") auto
  then have "show_nat n ! k \<noteq> CHR ''m''" using last_digit by (simp add: last_conv_nth)
  moreover have "drop k (show_nat n) = [show_nat n ! k]"
    using Cons_nth_drop_Suc [of k "show_nat n"] k by simp
  ultimately show ?thesis
    using assms k by (auto simp: duration_units_def duration_unit_def Let_def nth_append)
qed

lemma decimal_prefix_print: "decimal_prefix (show_nat n) = Some (of_nat n, length (show_nat n))"
proof -
  have "takeWhile is_digit (show_nat n) = show_nat n"
    using digit_char_not(3) by (simp add: takeWhile_eq_all_conv)
  then show ?thesis unfolding decimal_prefix_def by (simp only: Let_def digits_value_show_nat) simp
qed

lemma to_dbl_of_nat: "n < 2 ^ 53 \<Longrightarrow> to_dbl (of_nat n) = Finite (of_nat n)"
proof -
  assume n: "n < 2 ^ 53"
  then have "n < 2 ^ 1024" by (rule less_le_trans) simp
  then have "(of_nat n :: rat) < of_nat (2 ^ 1024)" by (simp only: of_nat_less_iff)
  then have "\<not> (2 :: rat) ^ 1024 \<le> of_nat n" by simp
  then show ?thesis using n by (simp only: to_dbl_def round64_of_nat if_False)
qed

lemma stod_print: "n < 2 ^ 53 \<Longrightarrow> stod (show_nat n) = Inr (of_nat n, length (show_nat n))"
  by (simp add: stod_def decimal_prefix_print to_dbl_of_nat)

text \<open>
  The time an option string denotes, as an exact rational number of microseconds: the
  specification of \<open>parse_duration_to_us\<close>.
\<close>

definition duration_exact :: "string \<Rightarrow> rat option" where
  "duration_exact s = (case duration_unit s of
     None \<Rightarrow> None
   | Some (m, n) \<Rightarrow> map_option (\<lambda>(v, _). v * of_nat m) (decimal_prefix (take n s)))"

lemma decimal_prefix_nonneg: "decimal_prefix s = Some (x, n) \<Longrightarrow> 0 \<le> x"
  by (auto simp: decimal_prefix_def Let_def split: list.splits if_splits)

lemma stod_error:
  assumes "stod s = Inr (v, n)"
  obtains x where "decimal_prefix s = Some (x, n)" and "0 \<le> x" and "\<bar>v - x\<bar> \<le> x / 2 ^ 53"
proof -
  from assms obtain x where x: "decimal_prefix s = Some (x, n)" and v: "v = round64 x"
    and n: "v \<noteq> x \<longrightarrow> 2 powi (-1022) \<le> x"
    by (auto simp: stod_def to_dbl_def split: option.splits dbl.splits if_splits)
  have "0 \<le> x" using x by (rule decimal_prefix_nonneg)
  then have "\<bar>v - x\<bar> \<le> x / 2 ^ 53"
    using n v round64_relative_error [of x] by (cases "v = x") auto
  with that x \<open>0 \<le> x\<close> show thesis by blast
qed

lemma dbl_mul_error:
  assumes "dbl_mul v m = Finite u" and "1 \<le> u"
  shows "\<bar>u - v * m\<bar> \<le> v * m / 2 ^ 53"
proof -
  have u: "u = round64 (v * m)" using assms(1) by (auto simp: dbl_mul_def to_dbl_def split: if_splits)
  then have "0 < v * m" using assms(2) by (auto simp: round64_def split: if_splits)
  then have "2 powi (-1022) \<le> v * m" using round64_tiny [of "v * m"] u assms(2) by force
  then show ?thesis unfolding u by (rule round64_relative_error)
qed

lemma parse_duration_Inr:
  assumes "parse_duration_to_us s = Inr us"
  obtains m n v u where "duration_unit s = Some (m, n)" and "stod (take n s) = Inr (v, length (take n s))"
    and "dbl_mul v (of_nat m) = Finite u" and "1 \<le> u" and "u \<le> 18 * 10 ^ 18" and "us = nat \<lfloor>u\<rfloor>"
  using assms
  by (auto simp: parse_duration_to_us_def Let_def not_less split: option.splits sum.splits dbl.splits if_splits
      intro: that)

lemma parse_duration_print:
  assumes um: "(u, m) \<in> set duration_units" and "0 < n" and "n * m < 2 ^ 53"
  shows "parse_duration_to_us (show_nat n @ u) = Inr (n * m)"
proof -
  have m: "1 \<le> m" using um by (auto simp: duration_units_def)
  then have n: "n < 2 ^ 53" using assms(3) by (metis le_less_trans mult.right_neutral mult_le_mono2)
  have "dbl_mul (of_nat n) (of_nat m) = Finite (of_nat (n * m))"
    using to_dbl_of_nat [OF assms(3)] by (simp only: dbl_mul_def of_nat_mult)
  moreover have "1 \<le> n * m" using m assms(2) by simp
  then have "(of_nat 1 :: rat) \<le> of_nat (n * m)" by (simp only: of_nat_le_iff)
  then have "(1 :: rat) \<le> of_nat (n * m)" by simp
  moreover have "(of_nat (n * m) :: rat) \<le> of_nat (2 ^ 53)" using assms(3) by (simp only: of_nat_le_iff)
  then have "\<not> (18 * 10 ^ 18 :: rat) < of_nat (n * m)" by simp
  moreover have "list_all (\<lambda>c. is_digit c \<or> c = CHR ''.'') (show_nat n)"
    using digit_char_not(3) by (simp add: list_all_iff)
  ultimately show ?thesis
    using assms(2) n unfolding parse_duration_to_us_def duration_unit_print [OF um]
    by (simp add: stod_print not_less flip: of_nat_mult)
qed

text \<open>
  An accepted duration (\<open>--rate\<close>, \<open>--jitter\<close>, \<open>--batch-delay\<close>, \<open>--bandwidth\<close>) is at least
  one microsecond, fits in \<open>uint64_t\<close>, and differs from the exact value of the numeral times
  its unit by less than one microsecond of truncation plus the rounding of two binary64
  operations.
\<close>

theorem duration_accurate:
  assumes "parse_duration_to_us s = Inr us"
  shows "\<exists>t. duration_exact s = Some t \<and> \<bar>of_nat us - t\<bar> \<le> 1 + t / 2 ^ 51 \<and>
    1 \<le> us \<and> us \<le> 18 * 10 ^ 18 \<and> us < 2 ^ 64"
proof -
  from assms obtain m n v u where un: "duration_unit s = Some (m, n)"
    and v: "stod (take n s) = Inr (v, length (take n s))"
    and u: "dbl_mul v (of_nat m) = Finite u" "1 \<le> u" "u \<le> 18 * 10 ^ 18" and us: "us = nat \<lfloor>u\<rfloor>"
    by (rule parse_duration_Inr)
  from v obtain x where x: "decimal_prefix (take n s) = Some (x, length (take n s))" "0 \<le> x"
    "\<bar>v - x\<bar> \<le> x / 2 ^ 53" by (rule stod_error)
  have "\<bar>u - x * of_nat m\<bar> \<le> x * of_nat m / 2 ^ 51"
    using two_roundings [OF x(3) dbl_mul_error [OF u(1,2)] x(2)] by simp
  moreover have f: "1 \<le> \<lfloor>u\<rfloor>" using u(2) by simp
  moreover have "of_nat us \<le> u" and "u < of_nat us + 1"
    using f unfolding us by (simp_all add: of_nat_nat) linarith+
  ultimately have "\<bar>of_nat us - x * of_nat m\<bar> \<le> 1 + x * of_nat m / 2 ^ 51" by linarith
  moreover have "\<lfloor>u\<rfloor> \<le> 18 * 10 ^ 18" using u(3) floor_mono by fastforce
  ultimately show ?thesis
    using un x(1) f unfolding us duration_exact_def by (auto simp: nat_le_iff nat_less_iff le_nat_iff)
qed

theorem duration_accurate_witness:
  "\<exists>t. duration_exact (show_nat 20 @ ''ms'') = Some t \<and> \<bar>of_nat 20000 - t\<bar> \<le> 1 + t / 2 ^ 51 \<and>
    1 \<le> (20000 :: nat) \<and> (20000 :: nat) \<le> 18 * 10 ^ 18 \<and> (20000 :: nat) < 2 ^ 64"
  by (rule duration_accurate) (simp add: parse_duration_print [of _ 1000] duration_units_def)

text \<open>
  Whole numbers of milliseconds, seconds and minutes are read exactly, up to
  \<open>2^53\<close> microseconds (285 years): no rounding reaches the pacing windows.
\<close>

theorem duration_integer:
  assumes "(u, m) \<in> set duration_units" and "0 < n" and "n * m < 2 ^ 53"
  shows "parse_duration_to_us (show_nat n @ u) = Inr (n * m)"
  using assms by (rule parse_duration_print)

theorem duration_integer_witness:
  "(''s'', 1000000) \<in> set duration_units \<and> parse_duration_to_us (show_nat 2 @ ''s'') = Inr (2 * 1000000)"
proof -
  have u: "(''s'', 1000000) \<in> set duration_units" by (simp add: duration_units_def)
  show ?thesis using u duration_integer [OF u, of 2] by simp
qed

text \<open>
  \<open>--sport-range\<close> keeps the source-port configuration well formed on every input, also
  when it fails after writing some attempts: six slots, and every attempt marked as a range
  holds \<open>1 \<le> min < max \<le> 65535\<close>, which the port generator relies on.
\<close>

theorem sport_range_wf:
  assumes "sport_wf out"
  shows "sport_wf (snd (parse_sport_range_config arg out))"
proof (cases "str_find arg (CHR '':'') 0")
  case None
  then show ?thesis
    using assms parse_one_range_valid [of arg]
    by (auto simp: parse_sport_range_config_def fold_sport_stage_wf simp del: upt_conv_Cons split: sum.splits)
next
  case (Some i)
  have "sport_wf (snd (sport_stages ts seen out))" for ts seen
  proof (rule sport.run_invariant [where P = sport_wf])
    show "sport_wf ((case v of (lo, hi) \<Rightarrow> set_sport_stage i lo hi) c)"
      if "i \<le> 5" and "valid_range v" and "sport_wf c" for i v c
      using that by (cases v) (simp add: set_sport_stage_wf)
  qed (rule assms)
  with Some show ?thesis by (simp add: parse_sport_range_config_def)
qed

theorem sport_range_wf_witness:
  "sport_wf sport_range_default \<and>
   sport_wf (snd (parse_sport_range_config ''0:2222-3333,1:5-x'' sport_range_default))"
proof -
  have d: "sport_wf sport_range_default" by (simp add: sport_wf_def sport_range_default_def)
  show ?thesis using d sport_range_wf [OF d] by simp
qed

text \<open>The text of a \<open>-g\<close> option with one entry per attempt.\<close>

definition print_gsport :: "(nat \<times> u16) list \<Rightarrow> string" where
  "print_gsport es = join_with (CHR '','') (map (print_stage (\<lambda>p. show_nat (unat p))) es)"

lemma print_stage_seps:
  "CHR '','' \<notin> set (print_stage (\<lambda>p. show_nat (unat p)) e)"
  "CHR '':'' \<in> set (print_stage (\<lambda>p. show_nat (unat p)) e)"
  by (simp_all add: print_stage_def)

lemma join_with_mem: "ts \<noteq> [] \<Longrightarrow> \<forall>t \<in> set ts. x \<in> set t \<Longrightarrow> x \<in> set (join_with c ts)"
  by (induction c ts rule: join_with.induct) auto

text \<open>
  \<open>-g\<close> round trip: an option that lists ports for distinct attempts is accepted, and the
  configuration it leaves holds exactly these ports at these attempts.
\<close>

theorem gsport_roundtrip:
  assumes "es \<noteq> []" and "distinct (map fst es)" and "\<forall>(i, p) \<in> set es. i \<le> 5 \<and> 1 \<le> unat p"
  shows "parse_gsport_config (print_gsport es) out = (None, fold (\<lambda>(i, p). set_gsport_stage i p) es out)"
proof -
  let ?ts = "map (print_stage (\<lambda>p. show_nat (unat p))) es"
  have "CHR '':'' \<in> set (print_gsport es)"
    unfolding print_gsport_def using assms(1) by (intro join_with_mem) (auto simp: print_stage_seps)
  then obtain k where k: "find_char (CHR '':'') (print_gsport es) = Some k"
    by (meson find_char_None option.exhaust)
  have "tokens_from (CHR '','') (print_gsport es) 0 = ?ts"
    unfolding print_gsport_def tokens_from_0 using assms(1) by (intro split_on_join) (auto simp: print_stage_seps)
  then have "parse_gsport_config (print_gsport es) out = gsport_stages ?ts (replicate 6 False) out"
    by (simp only: parse_gsport_config_def str_find_0 k option.case)
  also have "\<dots> = (None, fold (\<lambda>(i, p). set_gsport_stage i p) es out)"
  proof (rule gsport.run_print)
    show "\<forall>e \<in> set es. fst e \<le> 5 \<and> show_nat (unat (snd e)) \<noteq> [] \<and>
        parse_one_port (show_nat (unat (snd e))) = Inr (snd e)"
      using assms(3) parse_one_port_print valid_port_def by fastforce
    show "\<forall>e \<in> set es. \<not> replicate 6 False ! fst e"
      using assms(3) nth_replicate [of _ 6 False] by fastforce
  qed (use assms(2) in simp_all)
  finally show ?thesis .
qed

theorem gsport_roundtrip_witness:
  "parse_gsport_config (print_gsport [(0, 443), (2, 8080)]) gsport_default =
     (None, fold (\<lambda>(i, p). set_gsport_stage i p) [(0, 443), (2, 8080)] gsport_default)"
  by (rule gsport_roundtrip) simp_all

text \<open>The text of a \<open>--rate\<close> option: a window in milliseconds and a packet range.\<close>

definition print_rate :: "nat \<Rightarrow> nat \<Rightarrow> nat \<Rightarrow> string" where
  "print_rate w a b = (show_nat w @ ''ms'') @ CHR '':'' # (show_nat a @ CHR ''-'' # show_nat b)"

lemma split_range_print:
  "str_find (show_nat a @ CHR ''-'' # s) (CHR ''-'') 0 = Some (length (show_nat a))"
  "substr (show_nat a @ CHR ''-'' # s) 0 (length (show_nat a)) = show_nat a"
  "substr_from (show_nat a @ CHR ''-'' # s) (length (show_nat a) + 1) = s"
  by (simp_all add: str_simps substr_def substr_from_def)

lemma split_colon_print:
  assumes "CHR '':'' \<notin> set t"
  shows "str_find (t @ CHR '':'' # s) (CHR '':'') 0 = Some (length t)"
    and "substr (t @ CHR '':'' # s) 0 (length t) = t"
    and "substr_from (t @ CHR '':'' # s) (length t + 1) = s"
  using assms by (simp_all add: str_simps substr_def substr_from_def)

text \<open>
  What \<open>--rate\<close> does with a window and two numbers: each number is reduced to 32 bits
  before it is checked, so a zero remainder or a reversed pair of remainders is refused and
  everything else configures the limiter with the remainders. In particular
  \<open>1000ms:4294967297-2\<close> is accepted as the range 1 to 2 although its minimum is above its
  maximum.
\<close>

theorem rate_decision:
  assumes "0 < w" and "w * 1000 < 2 ^ 53" and "a < 2 ^ 64" and "b < 2 ^ 64"
  shows "parse_rate_config (print_rate w a b) out =
    (let pmin = a mod 2 ^ 32; pmax = b mod 2 ^ 32 in
     if pmin = 0 \<or> pmax = 0 then (Some ENotPositive, out)
     else if pmin > pmax then (Some EOrder, out)
     else (None, out\<lparr>rc_enabled := True, rc_window_us := w * 1000,
            rc_min_packets := pmin, rc_max_packets := pmax\<rparr>))"
proof -
  have t: "CHR '':'' \<notin> set (show_nat w @ ''ms'')" by simp
  have d: "parse_duration_to_us (show_nat w @ ''ms'') = Inr (w * 1000)"
    using assms(1,2) by (intro parse_duration_print) (simp_all add: duration_units_def)
  have len: "show_nat w @ ''ms'' \<noteq> []" "show_nat b \<noteq> []" "show_nat a \<noteq> []" by simp_all
  show ?thesis
    unfolding print_rate_def parse_rate_config_def split_colon_print [OF t] option.case Let_def d sum.case
      split_range_print stoul_show_nat [OF assms(3)] stoul_show_nat [OF assms(4)] prod.case to_uint32_def
    using len by (cases "show_nat b") simp_all
qed

theorem rate_decision_witness:
  "parse_rate_config (print_rate 1000 4294967297 2) rate_default =
     (None, rate_default\<lparr>rc_enabled := True, rc_window_us := 1000000, rc_min_packets := 1, rc_max_packets := 2\<rparr>)"
  by (subst rate_decision) (simp_all add: Let_def)

text \<open>The text of a \<open>--bandwidth\<close> option with a byte range and a K, M or G suffix.\<close>

definition bandwidth_units :: "(char \<times> nat) list" where
  "bandwidth_units = [(CHR ''K'', 1024), (CHR ''M'', 1024 * 1024), (CHR ''G'', 1024 * 1024 * 1024)]"

definition print_bandwidth :: "nat \<Rightarrow> nat \<Rightarrow> nat \<Rightarrow> char \<Rightarrow> string" where
  "print_bandwidth w lo hi u =
     (show_nat w @ ''ms'') @ CHR '':'' # ((show_nat lo @ CHR ''-'' # show_nat hi) @ [u])"

lemma bandwidth_suffix_print:
  assumes "(u, m) \<in> set bandwidth_units"
  shows "bandwidth_suffix (s @ [u]) = (m, s)"
  using assms by (auto simp: bandwidth_units_def bandwidth_suffix_def Let_def to_upper_def)

lemma bandwidth_range_print: "bandwidth_range (show_nat lo @ CHR ''-'' # show_nat hi) = Some (show_nat lo, show_nat hi)"
  using show_nat_Nil [of lo] show_nat_Nil [of hi]
  unfolding bandwidth_range_def split_range_print option.case by (cases "show_nat hi") simp_all

text \<open>
  What \<open>--bandwidth\<close> does with a byte range and a unit: the totals are the products
  modulo \<open>2^64\<close>, with no overflow check after the checks on the factors. When the products
  fit, the budget is positive and ordered; \<open>17179869184-17179869184G\<close> leaves an enabled limiter with
  a budget of zero bytes.
\<close>

theorem bandwidth_decision:
  assumes "0 < w" and "w * 1000 < 2 ^ 53" and "(u, m) \<in> set bandwidth_units"
    and "lo < 2 ^ 64" and "hi < 2 ^ 64"
  shows "parse_bandwidth_config (print_bandwidth w lo hi u) out =
    (if lo = 0 then (Some ENotPositive, out)
     else if hi < lo then (Some EOrder, out)
     else (None, out\<lparr>bw_enabled := True, bw_window_us := w * 1000,
            bw_total_bytes_min := lo * m mod 2 ^ 64, bw_total_bytes_max := hi * m mod 2 ^ 64\<rparr>))"
proof -
  have t: "CHR '':'' \<notin> set (show_nat w @ ''ms'')" by simp
  have d: "parse_duration_to_us (show_nat w @ ''ms'') = Inr (w * 1000)"
    using assms(1,2) by (intro parse_duration_print) (simp_all add: duration_units_def)
  show ?thesis
    unfolding print_bandwidth_def parse_bandwidth_config_def split_colon_print [OF t] option.case Let_def d sum.case
      bandwidth_suffix_print [OF assms(3)] bandwidth_range_print prod.case stoull_def
      stoul_show_nat [OF assms(4)] stoul_show_nat [OF assms(5)]
    by simp
qed

theorem bandwidth_decision_witness:
  "parse_bandwidth_config (print_bandwidth 1000 (2 ^ 34) (2 ^ 34) (CHR ''G'')) bandwidth_default =
     (None, bandwidth_default\<lparr>bw_enabled := True, bw_window_us := 1000000,
        bw_total_bytes_min := 0, bw_total_bytes_max := 0\<rparr>)"
  by (subst bandwidth_decision [where m = "1024 * 1024 * 1024"]) (simp_all add: bandwidth_units_def)

end
