(* ===== verification/Ext_Options.thy ===== *)
theory Ext_Options
  imports Parser
begin

text \<open>
  The IPv6 extension-header options of src/parser.cpp (lines 522 to 885) over
  \<open>Ipv6ExtHeaderOptions\<close> of src/scan.hpp: \<open>--hop\<close>, \<open>--dest\<close>, \<open>--route\<close>, \<open>--ah\<close>, \<open>--esp\<close>,
  \<open>--flow\<close>, \<open>--chain\<close> and \<open>--stop\<close>. \<open>inet_pton(AF_INET6, ...)\<close> belongs to the C library of
  the system and is a parameter: the 16 address bytes, or \<open>None\<close>.
\<close>

section \<open>Options (src/scan.hpp)\<close>

datatype hop_opt_kind = HOP_NONE | HOP_ALERT | HOP_JUMBO | HOP_PAD | HOP_UNKNOWN
datatype dest_opt_kind = DEST_NONE | DEST_HOME | DEST_TUNNEL | DEST_PAD | DEST_MALFORMED | DEST_UNKNOWN
datatype route_hdr_type = ROUTE_NONE | ROUTE_TYPE0 | ROUTE_TYPE2 | ROUTE_SRH | ROUTE_INVALID
datatype ah_mode = AH_NONE | AH_VALID | AH_BADSPI | AH_NOICV | AH_BADLEN | AH_SEQ0
datatype esp_mode = ESP_NONE | ESP_VALID | ESP_BADPAD | ESP_BADSPI | ESP_NOIV | ESP_MALFORMED
datatype flow_label_mode = FLOW_NONE | FLOW_FIXED | FLOW_RANDOM | FLOW_INCREMENT
datatype chain_mode = CHAIN_NONE | CHAIN_RAND | CHAIN_REVERSE | CHAIN_CUSTOM | CHAIN_DUP | CHAIN_UNKNOWN | CHAIN_SPLIT
datatype stop_mode = STOP_NONE | STOP_FIRST | STOP_HOP | STOP_DEST | STOP_ROUTE | STOP_ALL

record ipv6_ext_options =
  use_hop_opts :: bool
  hop_kind :: hop_opt_kind
  hop_value :: u32
  hop_unknown_type :: u8
  use_dest_opts :: bool
  dest_kind :: dest_opt_kind
  dest_value :: u32
  dest_unknown_type :: u8
  dest_home_addr :: bytes
  dest_home_addr_set :: bool
  use_route_hdr :: bool
  route_kind :: route_hdr_type
  route_segments :: u32
  route_raw_type :: u8
  use_ah :: bool
  ah_mode_of :: ah_mode
  use_esp :: bool
  esp_mode_of :: esp_mode
  use_flow_label :: bool
  flow_mode :: flow_label_mode
  flow_value :: u32
  chain_mode_of :: chain_mode
  chain_custom_order :: "u8 list"
  chain_dup_target :: u8
  chain_dup_count :: u32
  chain_unknown_value :: u8
  stop_mode_of :: stop_mode
  stop_dest_n :: u32

definition ext_default :: ipv6_ext_options where
  "ext_default = \<lparr>use_hop_opts = False, hop_kind = HOP_NONE, hop_value = 0, hop_unknown_type = 0x3E,
     use_dest_opts = False, dest_kind = DEST_NONE, dest_value = 0, dest_unknown_type = 0x3E,
     dest_home_addr = replicate 16 0, dest_home_addr_set = False,
     use_route_hdr = False, route_kind = ROUTE_NONE, route_segments = 0, route_raw_type = 0,
     use_ah = False, ah_mode_of = AH_NONE, use_esp = False, esp_mode_of = ESP_NONE,
     use_flow_label = False, flow_mode = FLOW_NONE, flow_value = 0,
     chain_mode_of = CHAIN_NONE, chain_custom_order = [], chain_dup_target = 0, chain_dup_count = 2,
     chain_unknown_value = 0, stop_mode_of = STOP_NONE, stop_dest_n = 1\<rparr>"

abbreviation (input) IP6_ROUTE_SEG_MAX :: u32 where "IP6_ROUTE_SEG_MAX \<equiv> 16"
abbreviation (input) IP6_FLOW_LABEL_MAX :: nat where "IP6_FLOW_LABEL_MAX \<equiv> 0xFFFFF"
abbreviation (input) IP6_CHAIN_DUP_MAX :: nat where "IP6_CHAIN_DUP_MAX \<equiv> 8"
abbreviation (input) IP6_HOP_PAD_MAX :: u32 where "IP6_HOP_PAD_MAX \<equiv> 256"
abbreviation (input) IP6_DEST_PAD_MAX :: u32 where "IP6_DEST_PAD_MAX \<equiv> 256"
abbreviation (input) IP6_JUMBO_MIN :: u32 where "IP6_JUMBO_MIN \<equiv> 65536"
abbreviation (input) IP6_TUNNEL_MAX :: u32 where "IP6_TUNNEL_MAX \<equiv> 255"
abbreviation (input) IP6_EXT_HDR_CAP :: nat where "IP6_EXT_HDR_CAP \<equiv> 320"

abbreviation (input) PROTO_HOPOPTS :: u8 where "PROTO_HOPOPTS \<equiv> 0"
abbreviation (input) PROTO_ROUTING :: u8 where "PROTO_ROUTING \<equiv> 43"
abbreviation (input) PROTO_ESP :: u8 where "PROTO_ESP \<equiv> 50"
abbreviation (input) PROTO_AH :: u8 where "PROTO_AH \<equiv> 51"
abbreviation (input) PROTO_DSTOPTS :: u8 where "PROTO_DSTOPTS \<equiv> 60"

section \<open>The parsers\<close>

text \<open>\<open>name:value\<close>; without a colon the value is empty.\<close>

definition split_name_value :: "string \<Rightarrow> string \<times> string" where
  "split_name_value arg =
     (case str_find arg (CHR '':'') 0 of
        None \<Rightarrow> (arg, [])
      | Some colon \<Rightarrow> (substr arg 0 colon, substr_from arg (colon + 1)))"

text \<open>
  The lambda \<open>parse_u32\<close>: base 0, the whole string consumed, and the \<open>unsigned long\<close> cast to
  32 bits without a range check.
\<close>

definition parse_u32 :: "string \<Rightarrow> u32 option" where
  "parse_u32 s =
     (if s = [] then None
      else (case stoul 0 s of
          Inl _ \<Rightarrow> None
        | Inr (parsed, pos) \<Rightarrow> if pos \<noteq> length s then None else Some (of_nat parsed)))"

definition parse_hop_option :: "string \<Rightarrow> ipv6_ext_options \<Rightarrow> (perr, ipv6_ext_options) outcome" where
  "parse_hop_option arg out =
     (let (name, val) = split_name_value arg in
      if name = ''alert'' then
        (case parse_u32 val of
           None \<Rightarrow> (Some EValue, out)
         | Some v \<Rightarrow> if v \<noteq> 0 \<and> v \<noteq> 1 then (Some EValue, out)
             else (None, out\<lparr>use_hop_opts := True, hop_kind := HOP_ALERT, hop_value := v\<rparr>))
      else if name = ''jumbo'' then
        (case parse_u32 val of
           None \<Rightarrow> (Some EValue, out)
         | Some v \<Rightarrow> if v < IP6_JUMBO_MIN then (Some EValue, out)
             else (None, out\<lparr>use_hop_opts := True, hop_kind := HOP_JUMBO, hop_value := v\<rparr>))
      else if name = ''pad'' then
        (case parse_u32 val of
           None \<Rightarrow> (Some EValue, out)
         | Some v \<Rightarrow> if v > IP6_HOP_PAD_MAX then (Some EValue, out)
             else (None, out\<lparr>use_hop_opts := True, hop_kind := HOP_PAD, hop_value := v\<rparr>))
      else if name = ''unknown'' then
        (case parse_u32 val of
           None \<Rightarrow> (Some EValue, out)
         | Some v \<Rightarrow> if v > 0xFF then (Some EValue, out)
             else (None, out\<lparr>use_hop_opts := True, hop_kind := HOP_UNKNOWN, hop_unknown_type := ucast v\<rparr>))
      else (Some EUnknown, out))"

definition parse_dest_option ::
    "(string \<Rightarrow> bytes option) \<Rightarrow> string \<Rightarrow> ipv6_ext_options \<Rightarrow> (perr, ipv6_ext_options) outcome" where
  "parse_dest_option inet_pton6 arg out =
     (let (name, val) = split_name_value arg in
      if name = ''home'' then
        (let out1 = out\<lparr>use_dest_opts := True, dest_kind := DEST_HOME\<rparr> in
         if val = [] then (None, out1)
         else (case inet_pton6 val of
             None \<Rightarrow> (Some EValue, out1)
           | Some a \<Rightarrow> (None, out1\<lparr>dest_home_addr := a, dest_home_addr_set := True\<rparr>)))
      else if name = ''tunnel'' then
        (case parse_u32 val of
           None \<Rightarrow> (Some EValue, out)
         | Some v \<Rightarrow> if v > IP6_TUNNEL_MAX then (Some EValue, out)
             else (None, out\<lparr>use_dest_opts := True, dest_kind := DEST_TUNNEL, dest_value := v\<rparr>))
      else if name = ''pad'' then
        (case parse_u32 val of
           None \<Rightarrow> (Some EValue, out)
         | Some v \<Rightarrow> if v > IP6_DEST_PAD_MAX then (Some EValue, out)
             else (None, out\<lparr>use_dest_opts := True, dest_kind := DEST_PAD, dest_value := v\<rparr>))
      else if name = ''malformed'' then
        (None, out\<lparr>use_dest_opts := True, dest_kind := DEST_MALFORMED\<rparr>)
      else if name = ''unknown'' then
        (case parse_u32 val of
           None \<Rightarrow> (Some EValue, out)
         | Some v \<Rightarrow> if v > 0xFF then (Some EValue, out)
             else (None, out\<lparr>use_dest_opts := True, dest_kind := DEST_UNKNOWN, dest_unknown_type := ucast v\<rparr>))
      else (Some EUnknown, out))"

definition parse_route_option :: "string \<Rightarrow> ipv6_ext_options \<Rightarrow> (perr, ipv6_ext_options) outcome" where
  "parse_route_option arg out =
     (let (head, tail) = split_name_value arg in
      if head = ''srh'' then
        (case parse_u32 tail of
           None \<Rightarrow> (Some EValue, out)
         | Some n \<Rightarrow> if n > IP6_ROUTE_SEG_MAX then (Some EValue, out)
             else (None, out\<lparr>use_route_hdr := True, route_kind := ROUTE_SRH, route_segments := n\<rparr>))
      else if head = ''0'' then
        (case (if tail = [] then None else parse_u32 tail) of
           None \<Rightarrow> (Some EValue, out)
         | Some n \<Rightarrow> if n > IP6_ROUTE_SEG_MAX then (Some EValue, out)
             else (None, out\<lparr>use_route_hdr := True, route_kind := ROUTE_TYPE0, route_segments := n\<rparr>))
      else if head = ''2'' \<and> tail = [] then
        (None, out\<lparr>use_route_hdr := True, route_kind := ROUTE_TYPE2, route_segments := 1\<rparr>)
      else (case parse_u32 head of
          None \<Rightarrow> (Some EUnknown, out)
        | Some raw \<Rightarrow>
            if tail \<noteq> [] \<or> raw > 0xFF then (Some EUnknown, out)
            else (None, out\<lparr>use_route_hdr := True, route_kind := ROUTE_INVALID,
                    route_raw_type := ucast raw, route_segments := 0\<rparr>)))"

definition parse_ah_option :: "string \<Rightarrow> ipv6_ext_options \<Rightarrow> (perr, ipv6_ext_options) outcome" where
  "parse_ah_option arg out =
     (if arg = ''yes'' then (None, out\<lparr>use_ah := True, ah_mode_of := AH_VALID\<rparr>)
      else if arg = ''badspi'' then (None, out\<lparr>use_ah := True, ah_mode_of := AH_BADSPI\<rparr>)
      else if arg = ''noicv'' then (None, out\<lparr>use_ah := True, ah_mode_of := AH_NOICV\<rparr>)
      else if arg = ''badlen'' then (None, out\<lparr>use_ah := True, ah_mode_of := AH_BADLEN\<rparr>)
      else if arg = ''seq0'' then (None, out\<lparr>use_ah := True, ah_mode_of := AH_SEQ0\<rparr>)
      else (Some EUnknown, out))"

definition parse_esp_option :: "string \<Rightarrow> ipv6_ext_options \<Rightarrow> (perr, ipv6_ext_options) outcome" where
  "parse_esp_option arg out =
     (if arg = ''yes'' then (None, out\<lparr>use_esp := True, esp_mode_of := ESP_VALID\<rparr>)
      else if arg = ''badpad'' then (None, out\<lparr>use_esp := True, esp_mode_of := ESP_BADPAD\<rparr>)
      else if arg = ''badspi'' then (None, out\<lparr>use_esp := True, esp_mode_of := ESP_BADSPI\<rparr>)
      else if arg = ''noiv'' then (None, out\<lparr>use_esp := True, esp_mode_of := ESP_NOIV\<rparr>)
      else if arg = ''bad'' then (None, out\<lparr>use_esp := True, esp_mode_of := ESP_MALFORMED\<rparr>)
      else (Some EUnknown, out))"

definition parse_flow_option :: "string \<Rightarrow> ipv6_ext_options \<Rightarrow> (perr, ipv6_ext_options) outcome" where
  "parse_flow_option arg out =
     (if arg = ''rand'' then (None, out\<lparr>use_flow_label := True, flow_mode := FLOW_RANDOM\<rparr>)
      else if arg = ''inc'' then (None, out\<lparr>use_flow_label := True, flow_mode := FLOW_INCREMENT\<rparr>)
      else (case stoul 0 arg of
          Inl _ \<Rightarrow> (Some EUnknown, out)
        | Inr (v, pos) \<Rightarrow>
            if pos \<noteq> length arg \<or> v > IP6_FLOW_LABEL_MAX then (Some EValue, out)
            else (None, out\<lparr>use_flow_label := True, flow_mode := FLOW_FIXED, flow_value := of_nat v\<rparr>)))"

definition chain_token_to_proto :: "string \<Rightarrow> u8 option" where
  "chain_token_to_proto tok =
     (if tok = ''HBH'' then Some PROTO_HOPOPTS
      else if tok = ''DEST'' then Some PROTO_DSTOPTS
      else if tok = ''ROUTE'' then Some PROTO_ROUTING
      else if tok = ''AH'' then Some PROTO_AH
      else if tok = ''ESP'' then Some PROTO_ESP
      else None)"

text \<open>The loop over the comma-separated tokens of \<open>--chain custom:\<close>.\<close>

fun chain_order :: "string list \<Rightarrow> u8 list \<Rightarrow> perr + u8 list" where
  "chain_order [] order = Inr order"
| "chain_order (tok # toks) order =
     (case chain_token_to_proto tok of
        None \<Rightarrow> Inl EUnknown
      | Some proto \<Rightarrow>
          if proto \<in> set order then Inl EDuplicate else chain_order toks (order @ [proto]))"

definition dup_target :: "string \<Rightarrow> u8 option" where
  "dup_target target =
     (if target = ''hop'' then Some PROTO_HOPOPTS
      else if target = ''dest'' then Some PROTO_DSTOPTS
      else if target = ''route'' then Some PROTO_ROUTING
      else if target = ''ah'' then Some PROTO_AH
      else None)"

text \<open>A count in base 0 that is all of the string and lies in \<open>lo..hi\<close>.\<close>

definition parse_count :: "nat \<Rightarrow> nat \<Rightarrow> string \<Rightarrow> perr + nat" where
  "parse_count lo hi s =
     (case stoul 0 s of
        Inl _ \<Rightarrow> Inl ENumber
      | Inr (v, pos) \<Rightarrow> if pos \<noteq> length s \<or> v < lo \<or> v > hi then Inl EValue else Inr v)"

text \<open>The branches of \<open>--chain\<close> that take a value: \<open>custom\<close>, \<open>dup\<close> and \<open>unknown\<close>.\<close>

definition chain_custom :: "string \<Rightarrow> ipv6_ext_options \<Rightarrow> (perr, ipv6_ext_options) outcome" where
  "chain_custom val out =
     (if val = [] then (Some EMissing, out)
      else (case chain_order (tokens_from (CHR '','') val 0) [] of
          Inl e \<Rightarrow> (Some e, out)
        | Inr order \<Rightarrow> (None, out\<lparr>chain_mode_of := CHAIN_CUSTOM, chain_custom_order := order\<rparr>)))"

definition chain_dup :: "string \<Rightarrow> ipv6_ext_options \<Rightarrow> (perr, ipv6_ext_options) outcome" where
  "chain_dup val out =
     (let (target, countstr) = split_name_value val in
      case dup_target target of
        None \<Rightarrow> (Some EUnknown, out)
      | Some proto \<Rightarrow>
          (case (if countstr = [] then Inr 2 else parse_count 2 IP6_CHAIN_DUP_MAX countstr) of
             Inl e \<Rightarrow> (Some e, out)
           | Inr count \<Rightarrow> (None, out\<lparr>chain_mode_of := CHAIN_DUP, chain_dup_target := proto,
                             chain_dup_count := of_nat count\<rparr>)))"

definition chain_unknown :: "string \<Rightarrow> ipv6_ext_options \<Rightarrow> (perr, ipv6_ext_options) outcome" where
  "chain_unknown val out =
     (if val = [] then (Some EMissing, out)
      else (case parse_count 0 0xFF val of
          Inl e \<Rightarrow> (Some e, out)
        | Inr v \<Rightarrow> (None, out\<lparr>chain_mode_of := CHAIN_UNKNOWN, chain_unknown_value := of_nat v\<rparr>)))"

definition parse_chain_option :: "string \<Rightarrow> ipv6_ext_options \<Rightarrow> (perr, ipv6_ext_options) outcome" where
  "parse_chain_option arg out =
     (let (name, val) = split_name_value arg in
      if name = ''rand'' then (None, out\<lparr>chain_mode_of := CHAIN_RAND\<rparr>)
      else if name = ''reverse'' then (None, out\<lparr>chain_mode_of := CHAIN_REVERSE\<rparr>)
      else if name = ''split'' then (None, out\<lparr>chain_mode_of := CHAIN_SPLIT\<rparr>)
      else if name = ''custom'' then chain_custom val out
      else if name = ''dup'' then chain_dup val out
      else if name = ''unknown'' then chain_unknown val out
      else (Some EUnknown, out))"

definition parse_stop_option :: "string \<Rightarrow> ipv6_ext_options \<Rightarrow> (perr, ipv6_ext_options) outcome" where
  "parse_stop_option arg out =
     (let (name, val) = split_name_value arg in
      if name = ''first'' then (None, out\<lparr>stop_mode_of := STOP_FIRST\<rparr>)
      else if name = ''hop'' then (None, out\<lparr>stop_mode_of := STOP_HOP\<rparr>)
      else if name = ''route'' then (None, out\<lparr>stop_mode_of := STOP_ROUTE\<rparr>)
      else if name = ''all'' then (None, out\<lparr>stop_mode_of := STOP_ALL\<rparr>)
      else if name = ''dest'' then
        (case (if val = [] then Inr 1 else parse_count 1 IP6_CHAIN_DUP_MAX val) of
           Inl e \<Rightarrow> (Some e, out)
         | Inr n \<Rightarrow> (None, out\<lparr>stop_mode_of := STOP_DEST, stop_dest_n := of_nat n\<rparr>))
      else (Some EUnknown, out))"

section \<open>What the options guarantee\<close>

text \<open>
  The bounds the header builders and the chain assembler rely on: lengths fit the header
  buffers, the fields fit their widths, a custom order names each header once.
\<close>

definition chain_protos :: "u8 set" where
  "chain_protos = {PROTO_HOPOPTS, PROTO_DSTOPTS, PROTO_ROUTING, PROTO_AH, PROTO_ESP}"

fun hop_wf :: "hop_opt_kind \<Rightarrow> u32 \<Rightarrow> bool" where
  "hop_wf HOP_ALERT v = (v = 0 \<or> v = 1)"
| "hop_wf HOP_JUMBO v = (IP6_JUMBO_MIN \<le> v)"
| "hop_wf HOP_PAD v = (v \<le> IP6_HOP_PAD_MAX)"
| "hop_wf _ v = True"

fun dest_wf :: "dest_opt_kind \<Rightarrow> u32 \<Rightarrow> bool" where
  "dest_wf DEST_PAD v = (v \<le> IP6_DEST_PAD_MAX)"
| "dest_wf DEST_TUNNEL v = (v \<le> IP6_TUNNEL_MAX)"
| "dest_wf _ v = True"

definition order_wf :: "u8 list \<Rightarrow> bool" where
  "order_wf order \<longleftrightarrow> set order \<subseteq> chain_protos \<and> distinct order"

definition count_wf :: "nat \<Rightarrow> u32 \<Rightarrow> bool" where
  "count_wf lo n \<longleftrightarrow> lo \<le> unat n \<and> unat n \<le> IP6_CHAIN_DUP_MAX"

definition flow_wf :: "u32 \<Rightarrow> bool" where
  "flow_wf v \<longleftrightarrow> unat v \<le> IP6_FLOW_LABEL_MAX"

definition ext_wf :: "ipv6_ext_options \<Rightarrow> bool" where
  "ext_wf o6 \<longleftrightarrow> hop_wf (hop_kind o6) (hop_value o6) \<and> dest_wf (dest_kind o6) (dest_value o6) \<and>
     length (dest_home_addr o6) = 16 \<and> route_segments o6 \<le> IP6_ROUTE_SEG_MAX \<and>
     flow_wf (flow_value o6) \<and> order_wf (chain_custom_order o6) \<and>
     count_wf 2 (chain_dup_count o6) \<and> count_wf 1 (stop_dest_n o6)"

text \<open>
  The contract of an option parser: it keeps the invariant of the configuration it writes
  to, on every argument and also when it refuses. Repeated options then keep it too.
\<close>

locale option_parser =
  fixes wf_cfg :: "'c \<Rightarrow> bool" and parse :: "string \<Rightarrow> 'c \<Rightarrow> (perr, 'c) outcome"
  assumes keeps: "wf_cfg out \<Longrightarrow> wf_cfg (snd (parse arg out))"
begin

lemma run_keeps: "wf_cfg out \<Longrightarrow> wf_cfg (fold (\<lambda>arg c. snd (parse arg c)) args out)"
  by (induction args arbitrary: out) (simp_all add: keeps)

end

lemma unat_of_nat_u32: "n < 2 ^ 32 \<Longrightarrow> unat (of_nat n :: u32) = n"
  by (simp add: unat_of_nat)

interpretation hop: option_parser ext_wf parse_hop_option
  by unfold_locales
    (auto simp: parse_hop_option_def ext_wf_def not_less split: prod.splits option.splits if_splits)

interpretation route: option_parser ext_wf parse_route_option
  by unfold_locales
    (auto simp: parse_route_option_def ext_wf_def not_less split: prod.splits option.splits if_splits)

interpretation ah: option_parser ext_wf parse_ah_option
  by unfold_locales (auto simp: parse_ah_option_def ext_wf_def)

interpretation esp: option_parser ext_wf parse_esp_option
  by unfold_locales (auto simp: parse_esp_option_def ext_wf_def)

lemma flow_wf_of_nat: "v \<le> IP6_FLOW_LABEL_MAX \<Longrightarrow> flow_wf (of_nat v)"
  by (simp add: flow_wf_def unat_of_nat_u32)

lemma count_wf_of_nat: "lo \<le> v \<Longrightarrow> v \<le> IP6_CHAIN_DUP_MAX \<Longrightarrow> count_wf lo (of_nat v)"
  by (simp add: count_wf_def unat_of_nat_u32)

interpretation flow: option_parser ext_wf parse_flow_option
  by unfold_locales
    (auto simp: parse_flow_option_def ext_wf_def not_less flow_wf_of_nat split: sum.splits if_splits)

lemma chain_token_proto: "chain_token_to_proto t = Some p \<Longrightarrow> p \<in> chain_protos"
  by (auto simp: chain_token_to_proto_def chain_protos_def split: if_splits)

lemma chain_order_wf: "chain_order ts order = Inr r \<Longrightarrow> order_wf order \<Longrightarrow> order_wf r"
  by (induction ts order rule: chain_order.induct)
    (auto simp: order_wf_def split: option.splits if_splits dest: chain_token_proto)

lemma chain_order_custom: "chain_order ts [] = Inr r \<Longrightarrow> order_wf r"
  by (erule chain_order_wf) (simp add: order_wf_def)

lemma parse_count_wf: "parse_count lo IP6_CHAIN_DUP_MAX s = Inr v \<Longrightarrow> count_wf lo (of_nat v)"
  by (auto simp: parse_count_def count_wf_of_nat split: sum.splits if_splits)

lemma count_wf_default [simp]: "count_wf 2 2" "count_wf (Suc 0) 1"
  by (simp_all add: count_wf_def)

lemmas parse_count_stop = parse_count_wf [where lo = "Suc 0"]

interpretation stop: option_parser ext_wf parse_stop_option
  by unfold_locales
    (simp add: parse_stop_option_def ext_wf_def parse_count_stop Let_def split: prod.split sum.split)

lemma snd_if_wf: "ext_wf (snd a) \<Longrightarrow> ext_wf (snd b) \<Longrightarrow> ext_wf (snd (if c then a else b))"
  by simp

lemma chain_custom_wf: "ext_wf out \<Longrightarrow> ext_wf (snd (chain_custom val out))"
  by (simp add: chain_custom_def ext_wf_def chain_order_custom split: sum.split)

lemma chain_dup_wf: "ext_wf out \<Longrightarrow> ext_wf (snd (chain_dup val out))"
  by (simp add: chain_dup_def ext_wf_def parse_count_wf split: prod.split sum.split option.split)

lemma chain_unknown_wf: "ext_wf out \<Longrightarrow> ext_wf (snd (chain_unknown val out))"
  by (simp add: chain_unknown_def ext_wf_def split: sum.split)

interpretation chain: option_parser ext_wf parse_chain_option
  unfolding parse_chain_option_def Let_def case_prod_beta
  by unfold_locales
    (intro snd_if_wf chain_custom_wf chain_dup_wf chain_unknown_wf; simp add: ext_wf_def)

lemma dest_keeps:
  assumes "\<forall>s a. inet_pton6 s = Some a \<longrightarrow> length a = 16"
  shows "option_parser ext_wf (parse_dest_option inet_pton6)"
  unfolding parse_dest_option_def Let_def case_prod_beta
  by unfold_locales
    (intro snd_if_wf; simp add: ext_wf_def not_less assms split: option.split)

section \<open>The command line\<close>

text \<open>
  The handlers of src/main.cpp for the eight flags: each parses its value into the one
  \<open>config.ipv6_ext_opts\<close> and exits on failure, so a run either stops with the error or goes on.
\<close>

datatype ext_flag = FlagHop | FlagDest | FlagRoute | FlagAh | FlagEsp | FlagFlow | FlagChain | FlagStop

fun ext_handler ::
    "(string \<Rightarrow> bytes option) \<Rightarrow> ext_flag \<Rightarrow> string \<Rightarrow> ipv6_ext_options \<Rightarrow> (perr, ipv6_ext_options) outcome" where
  "ext_handler inet_pton6 FlagHop val cfg = parse_hop_option val cfg"
| "ext_handler inet_pton6 FlagDest val cfg = parse_dest_option inet_pton6 val cfg"
| "ext_handler inet_pton6 FlagRoute val cfg = parse_route_option val cfg"
| "ext_handler inet_pton6 FlagAh val cfg = parse_ah_option val cfg"
| "ext_handler inet_pton6 FlagEsp val cfg = parse_esp_option val cfg"
| "ext_handler inet_pton6 FlagFlow val cfg = parse_flow_option val cfg"
| "ext_handler inet_pton6 FlagChain val cfg = parse_chain_option val cfg"
| "ext_handler inet_pton6 FlagStop val cfg = parse_stop_option val cfg"

fun run_ext_options ::
    "(string \<Rightarrow> bytes option) \<Rightarrow> (ext_flag \<times> string) list \<Rightarrow> ipv6_ext_options \<Rightarrow> perr + ipv6_ext_options" where
  "run_ext_options inet_pton6 [] cfg = Inr cfg"
| "run_ext_options inet_pton6 ((flag, val) # opts) cfg =
     (case ext_handler inet_pton6 flag val cfg of
        (None, cfg') \<Rightarrow> run_ext_options inet_pton6 opts cfg'
      | (Some e, _) \<Rightarrow> Inl e)"

lemma ext_handler_wf:
  assumes "\<forall>s a. inet_pton6 s = Some a \<longrightarrow> length a = 16" and "ext_wf cfg"
  shows "ext_wf (snd (ext_handler inet_pton6 flag val cfg))"
  using option_parser.keeps [OF dest_keeps [OF assms(1)]] assms(2)
  by (cases flag) (simp_all add: hop.keeps route.keeps ah.keeps esp.keeps flow.keeps chain.keeps stop.keeps)

lemma run_ext_options_keeps:
  assumes "\<forall>s a. inet_pton6 s = Some a \<longrightarrow> length a = 16"
    and "ext_wf cfg" and "run_ext_options inet_pton6 opts cfg = Inr cfg'"
  shows "ext_wf cfg'"
  using assms(2,3)
proof (induction opts arbitrary: cfg)
  case Nil
  then show ?case by simp
next
  case (Cons opt opts)
  obtain flag val where opt: "opt = (flag, val)" by (cases opt)
  obtain e c where h: "ext_handler inet_pton6 flag val cfg = (e, c)" by (cases "ext_handler inet_pton6 flag val cfg")
  have "ext_wf c" using ext_handler_wf [OF assms(1) Cons.prems(1), of flag val] h by simp
  with Cons opt h show ?case by (cases e) auto
qed

lemma ext_default_wf: "ext_wf ext_default"
  by (simp add: ext_wf_def ext_default_def flow_wf_def order_wf_def)

text \<open>
  C40. Whatever extension-header options the command line gives, and however often, a run that
  is not refused leaves a configuration within the bounds the header builders rely on: pad
  lengths up to 256, a one-byte tunnel limit, at most 16 segments, a 20-bit flow label, a
  custom order without repetition over the five headers, repeat counts within 8.
\<close>

theorem ext_options_wf:
  assumes "\<forall>s a. inet_pton6 s = Some a \<longrightarrow> length a = 16"
    and "run_ext_options inet_pton6 opts ext_default = Inr cfg"
  shows "ext_wf cfg"
  using assms(1) ext_default_wf assms(2) by (rule run_ext_options_keeps)

lemma split_name_value_print:
  "CHR '':'' \<notin> set name \<Longrightarrow> split_name_value (name @ CHR '':'' # val) = (name, val)"
  by (simp add: split_name_value_def str_simps substr_def substr_from_def)

lemma parse_u32_print: "n < 2 ^ 64 \<Longrightarrow> parse_u32 (show_nat n) = Some (of_nat n)"
  by (simp add: parse_u32_def stoul0_show_nat)

lemma parse_hop_pad: "parse_hop_option (''pad'' @ CHR '':'' # show_nat 16) out =
    (None, out\<lparr>use_hop_opts := True, hop_kind := HOP_PAD, hop_value := 16\<rparr>)"
  unfolding parse_hop_option_def
  by (subst split_name_value_print) (simp_all add: parse_u32_print)

theorem ext_options_wf_witness:
  "run_ext_options (\<lambda>s. if s = ''::1'' then Some (replicate 15 0 @ [1]) else None)
     [(FlagHop, ''pad'' @ CHR '':'' # show_nat 16)] ext_default =
     Inr (ext_default\<lparr>use_hop_opts := True, hop_kind := HOP_PAD, hop_value := 16\<rparr>) \<and>
   ext_wf (ext_default\<lparr>use_hop_opts := True, hop_kind := HOP_PAD, hop_value := 16\<rparr>)"
proof -
  let ?pton = "\<lambda>s. if s = ''::1'' then Some (replicate 15 (0 :: u8) @ [1]) else None"
  have r: "run_ext_options ?pton [(FlagHop, ''pad'' @ CHR '':'' # show_nat 16)] ext_default =
     Inr (ext_default\<lparr>use_hop_opts := True, hop_kind := HOP_PAD, hop_value := 16\<rparr>)"
    by (simp only: run_ext_options.simps ext_handler.simps parse_hop_pad) simp
  have "\<forall>s a. ?pton s = Some a \<longrightarrow> length a = 16" by simp
  from r ext_options_wf [OF this r] show ?thesis by blast
qed

text \<open>The names of the headers, as \<open>--chain custom:\<close> spells them.\<close>

datatype ext_header = HdrHBH | HdrDEST | HdrROUTE | HdrAH | HdrESP

fun header_name :: "ext_header \<Rightarrow> string" where
  "header_name HdrHBH = ''HBH''"
| "header_name HdrDEST = ''DEST''"
| "header_name HdrROUTE = ''ROUTE''"
| "header_name HdrAH = ''AH''"
| "header_name HdrESP = ''ESP''"

fun header_proto :: "ext_header \<Rightarrow> u8" where
  "header_proto HdrHBH = 0"
| "header_proto HdrDEST = 60"
| "header_proto HdrROUTE = 43"
| "header_proto HdrAH = 51"
| "header_proto HdrESP = 50"

lemma header_proto_inj [simp]: "header_proto h = header_proto h' \<longleftrightarrow> h = h'"
  by (cases h; cases h') simp_all

lemma chain_token_name: "chain_token_to_proto (header_name h) = Some (header_proto h)"
  by (cases h) (simp_all add: chain_token_to_proto_def)

lemma header_name_facts: "CHR '','' \<notin> set (header_name h)" "header_name h \<noteq> []"
  by (cases h; simp)+

lemma chain_order_names:
  "distinct before \<Longrightarrow> chain_order (map header_name hs) (map header_proto before) =
    (if distinct (before @ hs) then Inr (map header_proto (before @ hs)) else Inl EDuplicate)"
proof (induction hs arbitrary: before)
  case Nil
  then show ?case by simp
next
  case (Cons h hs)
  have mem: "header_proto h \<in> set (map header_proto before) \<longleftrightarrow> h \<in> set before"
    by (auto simp: image_iff)
  show ?case
  proof (cases "h \<in> set before")
    case True
    then show ?thesis using mem by (auto simp: chain_token_name)
  next
    case False
    with Cons.IH [of "before @ [h]"] Cons.prems mem show ?thesis
      by (simp add: chain_token_name)
  qed
qed

text \<open>
  \<open>--chain custom:\<close> followed by header names joined by commas is accepted exactly when no
  name is repeated, and then stores their protocol numbers in the order given; a repetition
  is refused and changes nothing.
\<close>

theorem chain_custom_roundtrip:
  assumes "hs \<noteq> []"
  shows "parse_chain_option (''custom:'' @ join_with (CHR '','') (map header_name hs)) out =
    (if distinct hs
     then (None, out\<lparr>chain_mode_of := CHAIN_CUSTOM, chain_custom_order := map header_proto hs\<rparr>)
     else (Some EDuplicate, out))"
proof -
  define val where "val = join_with (CHR '','') (map header_name hs)"
  have "tokens_from (CHR '','') val 0 = map header_name hs"
    unfolding val_def tokens_from_0 using assms by (intro split_on_join) (auto simp: header_name_facts)
  moreover have "val \<noteq> []"
    unfolding val_def using assms header_name_facts(2) by (cases hs rule: remdups_adj.cases) auto
  ultimately have "chain_custom val out = (if distinct hs
     then (None, out\<lparr>chain_mode_of := CHAIN_CUSTOM, chain_custom_order := map header_proto hs\<rparr>)
     else (Some EDuplicate, out))"
    using chain_order_names [of "[]" hs] by (simp add: chain_custom_def)
  moreover have "split_name_value (''custom:'' @ val) = (''custom'', val)"
    using split_name_value_print [of "''custom''" val] by simp
  ultimately show ?thesis by (simp add: parse_chain_option_def val_def [symmetric])
qed

theorem chain_custom_roundtrip_witness:
  "parse_chain_option (''custom:'' @ join_with (CHR '','') (map header_name [HdrAH, HdrESP, HdrHBH])) ext_default =
    (None, ext_default\<lparr>chain_mode_of := CHAIN_CUSTOM, chain_custom_order := [51, 50, 0]\<rparr>)"
  by (subst chain_custom_roundtrip) simp_all

text \<open>
  \<open>--hop alert:\<close> looks at the low 32 bits of its number only: the values 0 and 1 that
  its message allows are accepted, and so is every number congruent to them modulo \<open>2^32\<close>.
\<close>

theorem hop_alert_decision:
  assumes "n < 2 ^ 64"
  shows "parse_hop_option (''alert:'' @ show_nat n) out =
    (if n mod 2 ^ 32 \<le> 1
     then (None, out\<lparr>use_hop_opts := True, hop_kind := HOP_ALERT, hop_value := of_nat n\<rparr>)
     else (Some EValue, out))"
proof -
  have "split_name_value (''alert:'' @ show_nat n) = (''alert'', show_nat n)"
    using split_name_value_print [of "''alert''" "show_nat n"] by simp
  moreover have "parse_u32 (show_nat n) = Some (of_nat n)" using assms by (rule parse_u32_print)
  moreover have "(of_nat n :: u32) = 0 \<or> (of_nat n :: u32) = 1 \<longleftrightarrow> n mod 2 ^ 32 \<le> 1"
    unfolding word_unat_eq_iff unat_of_nat by auto
  ultimately show ?thesis by (auto simp: parse_hop_option_def)
qed

theorem hop_alert_decision_witness:
  "parse_hop_option (''alert:'' @ show_nat 4294967297) ext_default =
    (None, ext_default\<lparr>use_hop_opts := True, hop_kind := HOP_ALERT, hop_value := 1\<rparr>)"
  by (subst hop_alert_decision) simp_all

end
