(* ===== verification/Ext_Headers.thy ===== *)
theory Ext_Headers
  imports Ext_Options
begin

text \<open>
  The IPv6 extension-header builders of src/scan.cpp (lines 643 to 900). A builder writes
  into a caller's buffer of \<open>cap\<close> bytes and returns how much it wrote; its model returns
  the bytes written, so the length of the list is the position \<open>pos\<close> of the code. The
  random engine \<open>std::mt19937\<close> is the stream of the values its calls return.
\<close>

section \<open>The random engine\<close>

type_synonym rng = "nat \<Rightarrow> u32"

definition rng_skip :: "nat \<Rightarrow> rng \<Rightarrow> rng" where
  "rng_skip n r = (\<lambda>i. r (i + n))"

text \<open>\<open>n\<close> calls \<open>static_cast<uint8_t>(rng())\<close>.\<close>

definition rng_bytes :: "nat \<Rightarrow> rng \<Rightarrow> bytes" where
  "rng_bytes n r = map (\<lambda>i. ucast (r i)) [0..<n]"

lemma length_rng_bytes [simp]: "length (rng_bytes n r) = n"
  by (simp add: rng_bytes_def)

section \<open>Padding\<close>

abbreviation (input) OPT_PAD1 :: u8 where "OPT_PAD1 \<equiv> 0x00"
abbreviation (input) OPT_PADN :: u8 where "OPT_PADN \<equiv> 0x01"
abbreviation (input) OPT_ROUTER_ALERT :: u8 where "OPT_ROUTER_ALERT \<equiv> 0x05"
abbreviation (input) OPT_JUMBO :: u8 where "OPT_JUMBO \<equiv> 0xC2"
abbreviation (input) OPT_TUNNEL_LIMIT :: u8 where "OPT_TUNNEL_LIMIT \<equiv> 0x04"
abbreviation (input) OPT_HOME_ADDRESS :: u8 where "OPT_HOME_ADDRESS \<equiv> 0xC9"

text \<open>The loop of \<open>HopOptKind::PAD\<close> and \<open>DestOptKind::PAD\<close>: fill \<open>remaining\<close> bytes with padding.\<close>

function pad_fill :: "nat \<Rightarrow> nat \<Rightarrow> bytes \<Rightarrow> bytes" where
  "pad_fill cap remaining b =
     (if remaining > 0 \<and> length b + 2 \<le> cap then
        (if remaining = 1 then b @ [OPT_PAD1]
         else (let chunk = min (remaining - 2) (min 255 (cap - length b - 2)) in
           pad_fill cap (remaining - (chunk + 2)) (b @ [OPT_PADN, of_nat chunk] @ replicate chunk 0)))
      else b)"
  by pat_completeness auto
termination
  by (relation "measure (\<lambda>(cap, remaining, b). remaining)") (auto simp: Let_def)

declare pad_fill.simps [simp del]

lemma split_by_8:
  fixes n :: nat
  obtains q r where "n = 8 * q + r" and "r < 8" and "n div 8 = q" and "n mod 8 = r"
  by (rule that [of "n div 8" "n mod 8"]) simp_all

lemma align_up: "n + (8 - n mod 8) = 8 * (n div 8 + 1)" for n :: nat
  by (rule split_by_8 [of n]) simp

lemma align_up_mod: "(n + (8 - n mod 8)) mod 8 = 0" for n :: nat
  unfolding align_up by simp

lemma align_up_le: "n mod 8 \<noteq> 0 \<Longrightarrow> n + (8 - n mod 8) \<le> 8 * ((n + 7) div 8)" for n :: nat
proof (rule split_by_8 [of n])
  fix q r assume n: "n mod 8 \<noteq> 0" "n = 8 * q + r" "r < 8" "n div 8 = q" "n mod 8 = r"
  then have "8 * (q + 1) div 8 \<le> (n + 7) div 8" by (intro div_le_mono) simp
  then have "q + 1 \<le> (n + 7) div 8" by simp
  then show ?thesis unfolding align_up n(4) by (rule mult_le_mono2)
qed

lemma round_up_le: "a \<le> c \<Longrightarrow> c mod 8 = 0 \<Longrightarrow> 8 * ((a + 7) div 8) \<le> c" for a c :: nat
proof (rule split_by_8 [of c])
  fix q r assume c: "a \<le> c" "c mod 8 = 0" "c = 8 * q + r" "c mod 8 = r"
  then have "(a + 7) div 8 \<le> (8 * q + 7) div 8" by (intro div_le_mono) simp
  also have "\<dots> = q" by simp
  finally show ?thesis using c by simp
qed

lemma units_of_8: "n mod 8 = 0 \<Longrightarrow> 8 \<le> n \<Longrightarrow> 8 * (n div 8 - 1 + 1) = n" for n :: nat
  by (rule split_by_8 [of n]) simp

text \<open>The loop \<open>while (pos % 8 != 0)\<close> that pads a header to a multiple of eight bytes.\<close>

function align8 :: "bytes \<Rightarrow> bytes" where
  "align8 b =
     (if length b mod 8 \<noteq> 0 then
        (let need = 8 - length b mod 8 in
         if need = 1 then align8 (b @ [OPT_PAD1])
         else (let data = need - 2 in align8 (b @ [OPT_PADN, of_nat data] @ replicate data 0)))
      else b)"
  by pat_completeness auto
termination
proof (relation "measure (\<lambda>b. (8 - length b mod 8) mod 8)", goal_cases)
  case (3 b need data)
  define m where "m = length b mod 8"
  have "m < 8" by (simp add: m_def)
  with 3 have "2 + data = 8 - m" by (simp add: m_def [symmetric])
  then have "length (b @ [OPT_PADN, of_nat data] @ replicate data 0) = length b + (8 - length b mod 8)"
    unfolding m_def [symmetric] by simp
  then have "length (b @ [OPT_PADN, of_nat data] @ replicate data 0) mod 8 = 0"
    by (simp only: align_up_mod)
  moreover have "0 < (8 - length b mod 8) mod 8" using 3 by (simp add: mod_less_eq_dividend)
  ultimately show ?case by (simp only: in_measure diff_zero mod_self)
next
  case (2 b need)
  then have "length (b @ [OPT_PAD1]) = length b + (8 - length b mod 8)" by simp
  then have "length (b @ [OPT_PAD1]) mod 8 = 0" by (simp only: align_up_mod)
  moreover have "0 < (8 - length b mod 8) mod 8" using 2 by simp
  ultimately show ?case by (simp only: in_measure diff_zero mod_self)
qed simp

declare align8.simps [simp del]

text \<open>The next header and the length in 8-byte units, written when the header is complete.\<close>

definition finish_ext :: "u8 \<Rightarrow> bytes \<Rightarrow> bytes" where
  "finish_ext next_header b = b[0 := next_header, 1 := of_nat (length b div 8 - 1)]"

section \<open>Hop-by-Hop and Destination Options\<close>

definition hop_options :: "nat \<Rightarrow> ipv6_ext_options \<Rightarrow> bytes \<Rightarrow> bytes" where
  "hop_options cap opt b =
     (case hop_kind opt of
        HOP_ALERT \<Rightarrow>
          if length b + 4 \<le> cap then b @ [OPT_ROUTER_ALERT, 2] @ be16 (ucast (hop_value opt)) else b
      | HOP_JUMBO \<Rightarrow>
          if length b + 6 \<le> cap then b @ [OPT_JUMBO, 4] @ be32 (hop_value opt) else b
      | HOP_PAD \<Rightarrow> pad_fill cap (unat (hop_value opt)) b
      | HOP_UNKNOWN \<Rightarrow> if length b + 2 \<le> cap then b @ [hop_unknown_type opt, 0] else b
      | HOP_NONE \<Rightarrow> b)"

definition build_hop_by_hop_header :: "nat \<Rightarrow> u8 \<Rightarrow> ipv6_ext_options \<Rightarrow> bytes" where
  "build_hop_by_hop_header cap next_header opt =
     (if \<not> use_hop_opts opt then [] else finish_ext next_header (align8 (hop_options cap opt [0, 0])))"

definition dest_options :: "nat \<Rightarrow> ipv6_ext_options \<Rightarrow> bytes \<Rightarrow> bytes" where
  "dest_options cap opt b =
     (case dest_kind opt of
        DEST_HOME \<Rightarrow>
          if length b + 18 \<le> cap
          then b @ [OPT_HOME_ADDRESS, 16] @ (if dest_home_addr_set opt then dest_home_addr opt else replicate 16 0)
          else b
      | DEST_TUNNEL \<Rightarrow>
          if length b + 3 \<le> cap then b @ [OPT_TUNNEL_LIMIT, 1, ucast (dest_value opt)] else b
      | DEST_PAD \<Rightarrow> pad_fill cap (unat (dest_value opt)) b
      | DEST_MALFORMED \<Rightarrow> if length b + 6 \<le> cap then b @ [0x8E, 40] @ replicate 4 0xAA else b
      | DEST_UNKNOWN \<Rightarrow> if length b + 2 \<le> cap then b @ [dest_unknown_type opt, 0] else b
      | DEST_NONE \<Rightarrow> b)"

definition build_dest_options_header :: "nat \<Rightarrow> u8 \<Rightarrow> ipv6_ext_options \<Rightarrow> bytes" where
  "build_dest_options_header cap next_header opt =
     (if \<not> use_dest_opts opt then [] else finish_ext next_header (align8 (dest_options cap opt [0, 0])))"

section \<open>Routing header\<close>

text \<open>\<open>for (i = 0; i < n && pos + 16 <= cap; ++i)\<close>: zero placeholders for addresses.\<close>

fun put_segments :: "nat \<Rightarrow> nat \<Rightarrow> bytes \<Rightarrow> bytes" where
  "put_segments cap 0 b = b"
| "put_segments cap (Suc n) b =
     (if length b + 16 \<le> cap then put_segments cap n (b @ replicate 16 0) else b)"

definition put_within :: "nat \<Rightarrow> bytes \<Rightarrow> bytes \<Rightarrow> bytes" where
  "put_within cap bs b = (if length b + length bs \<le> cap then b @ bs else b)"

text \<open>The body behind the four fixed bytes, the routing type and the segments left.\<close>

definition route_body :: "nat \<Rightarrow> ipv6_ext_options \<Rightarrow> bytes \<Rightarrow> bytes \<times> u8 \<times> u8" where
  "route_body cap opt b =
     (let n = min (route_segments opt) IP6_ROUTE_SEG_MAX in
      case route_kind opt of
        ROUTE_TYPE0 \<Rightarrow> (put_segments cap (unat n) (put_within cap (replicate 4 0) b), 0, ucast n)
      | ROUTE_TYPE2 \<Rightarrow> (put_within cap (replicate 16 0) (put_within cap (replicate 4 0) b), 2, 1)
      | ROUTE_SRH \<Rightarrow>
          (put_segments cap (unat n)
             (put_within cap [if n > 0 then ucast (n - 1) else 0, 0, 0, 0] b), 4, ucast n)
      | ROUTE_INVALID \<Rightarrow> (b, route_raw_type opt, ucast n)
      | ROUTE_NONE \<Rightarrow> (b, 0, 0))"

function zero_align8 :: "nat \<Rightarrow> bytes \<Rightarrow> bytes" where
  "zero_align8 cap b =
     (if length b mod 8 \<noteq> 0 \<and> length b < cap then zero_align8 cap (b @ [0]) else b)"
  by pat_completeness auto
termination
  by (relation "measure (\<lambda>(cap, b). cap - length b)") auto

declare zero_align8.simps [simp del]

definition build_routing_header :: "nat \<Rightarrow> u8 \<Rightarrow> ipv6_ext_options \<Rightarrow> bytes" where
  "build_routing_header cap next_header opt =
     (if \<not> use_route_hdr opt then []
      else (let (body, routing_type, segments_left) = route_body cap opt [0, 0, 0, 0];
                b = zero_align8 cap body
        in (finish_ext next_header b)[2 := routing_type, 3 := segments_left]))"

section \<open>Authentication Header and ESP\<close>

definition ah_total :: "ipv6_ext_options \<Rightarrow> nat" where
  "ah_total opt =
     (let total = 12 + (if ah_mode_of opt = AH_NOICV then 0 else 12) in
      if total mod 8 \<noteq> 0 then total + (8 - total mod 8) else total)"

definition build_ah_header :: "nat \<Rightarrow> u8 \<Rightarrow> ipv6_ext_options \<Rightarrow> rng \<Rightarrow> bytes \<times> rng" where
  "build_ah_header cap next_header opt r =
     (let icv_len = (if ah_mode_of opt = AH_NOICV then 0 else 12); total = ah_total opt in
      if \<not> use_ah opt \<or> 12 + icv_len > cap \<or> total > cap then ([], r)
      else (let payload_len = of_nat (total div 4 - 2) + (if ah_mode_of opt = AH_BADLEN then 5 else 0);
                spi = (if ah_mode_of opt = AH_BADSPI then 0 else 0x1000 + and (r 0) 0xFFFF);
                seq = (if ah_mode_of opt = AH_SEQ0 then 0 else 1);
                fixed = [next_header, payload_len, 0, 0] @ be32 spi @ be32 seq;
                icv = rng_bytes icv_len (rng_skip 1 r)
        in (fixed @ icv @ replicate (total - (12 + icv_len)) 0, rng_skip (1 + icv_len) r)))"

definition esp_iv_len :: "ipv6_ext_options \<Rightarrow> nat" where
  "esp_iv_len opt = (case esp_mode_of opt of ESP_NOIV \<Rightarrow> 0 | ESP_MALFORMED \<Rightarrow> 3 | _ \<Rightarrow> 8)"

definition build_esp_header :: "nat \<Rightarrow> ipv6_ext_options \<Rightarrow> rng \<Rightarrow> bytes \<times> rng" where
  "build_esp_header cap opt r =
     (let iv_len = esp_iv_len opt; total = 8 + iv_len + 2 in
      if \<not> use_esp opt \<or> total > cap then ([], r)
      else (let spi = (if esp_mode_of opt = ESP_BADSPI then 0 else 0x2000 + and (r 0) 0xFFFF);
                b = be32 spi @ be32 1 @ rng_bytes iv_len (rng_skip 1 r) @
                    [if esp_mode_of opt = ESP_BADPAD then 0x2A else 0x00, 6]
        in (if esp_mode_of opt = ESP_MALFORMED then take (max (length b - 2) 8) b else b,
            rng_skip (1 + iv_len) r)))"

section \<open>Well-formed option headers\<close>

text \<open>
  How a receiver reads the options area (RFC 8200, section 4.2): Pad1 is a single byte,
  every other option a type, a length and that many bytes; the area is used up exactly.
\<close>

function tlvs :: "bytes \<Rightarrow> bool" where
  "tlvs [] = True"
| "tlvs (t # bs) =
     (if t = OPT_PAD1 then tlvs bs
      else (case bs of [] \<Rightarrow> False | l # rest \<Rightarrow> unat l \<le> length rest \<and> tlvs (drop (unat l) rest)))"
  by pat_completeness auto
termination
  by (relation "measure length") auto

lemma tlvs_append: "tlvs a \<Longrightarrow> tlvs b \<Longrightarrow> tlvs (a @ b)"
proof (induction a rule: tlvs.induct)
  case 1
  then show ?case by simp
next
  case (2 t bs)
  show ?case
  proof (cases "t = OPT_PAD1")
    case True
    with 2 show ?thesis by simp
  next
    case False
    then obtain l rest where bs: "bs = l # rest" "unat l \<le> length rest"
      using "2.prems"(1) by (auto split: list.splits)
    with 2 False show ?thesis by simp
  qed
qed

text \<open>An option whose length byte is right.\<close>

lemma tlvs_option: "t \<noteq> OPT_PAD1 \<Longrightarrow> n < 256 \<Longrightarrow> length d = n \<Longrightarrow> tlvs (t # of_nat n # d)"
  by (simp add: unat_of_nat)

lemma tlvs_pads: "tlvs [OPT_PAD1]" "n < 256 \<Longrightarrow> tlvs ([OPT_PADN, of_nat n] @ replicate n 0)"
  using tlvs_option [of OPT_PADN n "replicate n 0"] by simp_all

text \<open>
  The contract of the code that fills an options area: for a configuration it accepts it
  appends well-formed options and stays within the capacity. A header around such an area
  is then well formed whatever the area holds.
\<close>

definition ext_header_ok :: "nat \<Rightarrow> u8 \<Rightarrow> bytes \<Rightarrow> bool" where
  "ext_header_ok cap next_header h \<longleftrightarrow> 8 \<le> length h \<and> length h \<le> cap \<and> h ! 0 = next_header \<and>
     length h = 8 * (unat (h ! 1) + 1)"

lemma align8_spec:
  "\<exists>ts. align8 b = b @ ts \<and> tlvs ts \<and> length (b @ ts) mod 8 = 0 \<and> length ts \<le> 7 \<and>
     length (b @ ts) \<le> 8 * ((length b + 7) div 8)"
proof (cases "length b mod 8 = 0")
  case True
  then show ?thesis by (subst align8.simps) auto
next
  case False
  define need where "need = 8 - length b mod 8"
  define ts where "ts = (if need = 1 then [OPT_PAD1] else [OPT_PADN, of_nat (need - 2)] @ replicate (need - 2) 0)"
  have n: "1 \<le> need" "need \<le> 7" using False by (auto simp: need_def)
  have len: "length ts = need" using n by (auto simp: ts_def)
  have al: "length (b @ ts) mod 8 = 0" using align_up_mod [of "length b"] len by (simp add: need_def)
  have "align8 b = align8 (b @ ts)"
    using False by (subst align8.simps) (simp add: need_def [symmetric] ts_def Let_def)
  also have "\<dots> = b @ ts" using al by (subst align8.simps) simp
  finally have e: "align8 b = b @ ts" .
  have "length (b @ ts) \<le> 8 * ((length b + 7) div 8)"
    using align_up_le [OF False] len by (simp add: need_def)
  moreover have "tlvs ts"
  proof (cases "need = 1")
    case True
    then show ?thesis by (simp add: ts_def)
  next
    case False
    then show ?thesis using n tlvs_pads(2) [of "need - 2"] by (simp only: ts_def if_False)
  qed
  ultimately show ?thesis using e al len n by auto
qed

locale option_filler =
  fixes fill :: "nat \<Rightarrow> ipv6_ext_options \<Rightarrow> bytes \<Rightarrow> bytes" and ok :: "ipv6_ext_options \<Rightarrow> bool"
  assumes fill_tlvs: "ok opt \<Longrightarrow> length b \<le> cap \<Longrightarrow>
    \<exists>ts. fill cap opt b = b @ ts \<and> tlvs ts \<and> length (b @ ts) \<le> cap"
begin

lemma header_ok:
  assumes "ok opt" and "cap mod 8 = 0" and "8 \<le> cap" and "cap \<le> 2048"
  shows "ext_header_ok cap nh (finish_ext nh (align8 (fill cap opt [0, 0])))"
    and "tlvs (drop 2 (finish_ext nh (align8 (fill cap opt [0, 0]))))"
proof -
  obtain ts where ts: "fill cap opt [0, 0] = [0, 0] @ ts" "tlvs ts" "length ([0, 0 :: u8] @ ts) \<le> cap"
    using fill_tlvs [of opt "[0, 0]" cap] assms by auto
  obtain ps where ps: "align8 ([0, 0] @ ts) = ([0, 0] @ ts) @ ps" "tlvs ps"
    "length (([0, 0 :: u8] @ ts) @ ps) mod 8 = 0" "length (([0, 0 :: u8] @ ts) @ ps) \<le> 8 * ((length ([0, 0 :: u8] @ ts) + 7) div 8)"
    using align8_spec [of "[0, 0] @ ts"] by (elim exE conjE)
  define n where "n = length ts + length ps + 2"
  have "length (([0, 0 :: u8] @ ts) @ ps) = n" by (simp add: n_def)
  with ps(3,4) round_up_le [OF ts(3) assms(2)] have n: "n mod 8 = 0" "n \<le> cap" by simp_all
  moreover have "2 \<le> n" by (simp add: n_def)
  ultimately have n8: "8 \<le> n" by (metis dvd_imp_le mod_0_imp_dvd not_numeral_le_zero gr0I)
  have "n div 8 \<le> 256" using div_le_mono [OF order_trans [OF n(2) assms(4)], of 8] by simp
  then have "n div 8 - 1 < 256" by linarith
  then have len: "unat (of_nat (n div 8 - 1) :: u8) = n div 8 - 1" by (simp add: unat_of_nat)
  have h: "finish_ext nh (align8 (fill cap opt [0, 0])) = nh # of_nat (n div 8 - 1) # ts @ ps"
    using ts ps by (simp add: finish_ext_def n_def)
  show "ext_header_ok cap nh (finish_ext nh (align8 (fill cap opt [0, 0])))"
    using n n8 len units_of_8 [OF n(1) n8] unfolding h ext_header_ok_def by (simp add: n_def)
  show "tlvs (drop 2 (finish_ext nh (align8 (fill cap opt [0, 0]))))"
    using ts(2) ps(2) unfolding h by (simp add: tlvs_append)
qed

end

lemma pad_fill_tlvs:
  "length b \<le> cap \<Longrightarrow> \<exists>ts. pad_fill cap n b = b @ ts \<and> tlvs ts \<and> length (b @ ts) \<le> cap"
proof (induction cap n b rule: pad_fill.induct)
  case (1 cap remaining b)
  show ?case
  proof (cases "remaining > 0 \<and> length b + 2 \<le> cap \<and> remaining \<noteq> 1")
    case True
    define chunk where "chunk = min (remaining - 2) (min 255 (cap - length b - 2))"
    define opt where "opt = [OPT_PADN, of_nat chunk] @ replicate chunk 0"
    have "chunk \<le> cap - length b - 2" by (simp add: chunk_def)
    moreover have "length (b @ opt) = length b + 2 + chunk" by (simp add: opt_def)
    ultimately have fits: "length (b @ opt) \<le> cap" using True by linarith
    have "tlvs opt" unfolding opt_def by (rule tlvs_pads) (simp add: chunk_def)
    moreover from fits True obtain ts where
      ts: "pad_fill cap (remaining - (chunk + 2)) (b @ opt) = (b @ opt) @ ts" "tlvs ts" "length ((b @ opt) @ ts) \<le> cap"
      using "1.IH" [of chunk] unfolding chunk_def opt_def by blast
    moreover have "pad_fill cap remaining b = pad_fill cap (remaining - (chunk + 2)) (b @ opt)"
      unfolding pad_fill.simps [of cap remaining b] using True by (simp only: Let_def chunk_def opt_def) simp
    ultimately have "pad_fill cap remaining b = b @ (opt @ ts)" "tlvs (opt @ ts)" "length (b @ (opt @ ts)) \<le> cap"
      by (simp_all add: tlvs_append)
    then show ?thesis by blast
  next
    case False
    then show ?thesis using "1.prems" by (subst pad_fill.simps) auto
  qed
qed

interpretation hop_filler: option_filler hop_options "\<lambda>_. True"
proof
  fix opt and b :: bytes and cap
  assume "length b \<le> cap"
  moreover have "tlvs ([OPT_ROUTER_ALERT, 2] @ be16 w)" for w
    using tlvs_option [of OPT_ROUTER_ALERT 2 "be16 w"] by simp
  moreover have "tlvs ([OPT_JUMBO, 4] @ be32 w)" for w
    using tlvs_option [of OPT_JUMBO 4 "be32 w"] by simp
  ultimately show "\<exists>ts. hop_options cap opt b = b @ ts \<and> tlvs ts \<and> length (b @ ts) \<le> cap"
    using pad_fill_tlvs [of b cap] by (auto simp: hop_options_def split: hop_opt_kind.split)
qed

interpretation dest_filler: option_filler dest_options
  "\<lambda>opt. dest_kind opt \<noteq> DEST_MALFORMED \<and> length (dest_home_addr opt) = 16"
proof
  fix opt :: ipv6_ext_options and b :: bytes and cap
  assume "dest_kind opt \<noteq> DEST_MALFORMED \<and> length (dest_home_addr opt) = 16" and "length b \<le> cap"
  moreover from this have "tlvs ([OPT_HOME_ADDRESS, 16] @ dest_home_addr opt)"
    using tlvs_option [of OPT_HOME_ADDRESS 16 "dest_home_addr opt"] by simp
  moreover have "tlvs ([OPT_HOME_ADDRESS, 16] @ replicate 16 0)"
    using tlvs_option [of OPT_HOME_ADDRESS 16 "replicate 16 0"] by simp
  ultimately show "\<exists>ts. dest_options cap opt b = b @ ts \<and> tlvs ts \<and> length (b @ ts) \<le> cap"
    using pad_fill_tlvs [of b cap] by (auto simp: dest_options_def split: dest_opt_kind.split)
qed

text \<open>
  A Hop-by-Hop header is well formed for every configuration: it fits its buffer, starts
  with the next header given, its length byte counts its 8-byte units, and its options area
  reads as a sequence of options that ends exactly at the end of the header.
\<close>

theorem hop_header_wellformed:
  assumes "use_hop_opts opt"
  shows "ext_header_ok IP6_EXT_HDR_CAP nh (build_hop_by_hop_header IP6_EXT_HDR_CAP nh opt) \<and>
    tlvs (drop 2 (build_hop_by_hop_header IP6_EXT_HDR_CAP nh opt))"
  using hop_filler.header_ok [where opt = opt and cap = IP6_EXT_HDR_CAP and nh = nh] assms
  by (simp add: build_hop_by_hop_header_def)

theorem hop_header_wellformed_witness:
  "ext_header_ok IP6_EXT_HDR_CAP 6 (build_hop_by_hop_header IP6_EXT_HDR_CAP 6
     (ext_default\<lparr>use_hop_opts := True, hop_kind := HOP_PAD, hop_value := 256\<rparr>))"
  using hop_header_wellformed [of "ext_default\<lparr>use_hop_opts := True, hop_kind := HOP_PAD, hop_value := 256\<rparr>" 6]
  by simp

lemma malformed_dest_header:
  assumes "use_dest_opts opt" and "dest_kind opt = DEST_MALFORMED"
  shows "build_dest_options_header IP6_EXT_HDR_CAP nh opt = [nh, 0, 0x8E, 40] @ replicate 4 0xAA"
proof -
  have "align8 [0, 0, 0x8E, 40, 0xAA, 0xAA, 0xAA, 0xAA] = [0, 0, 0x8E, 40, 0xAA, 0xAA, 0xAA, 0xAA]"
    by (subst align8.simps) simp
  moreover have "replicate 4 (0xAA :: u8) = [0xAA, 0xAA, 0xAA, 0xAA]" by (simp add: eval_nat_numeral)
  ultimately show ?thesis
    using assms by (simp add: build_dest_options_header_def dest_options_def finish_ext_def)
qed

text \<open>
  A Destination Options header fits its buffer and its length byte is right in every mode;
  its options area is readable exactly when \<open>--dest malformed\<close> was not asked for.
\<close>

theorem dest_header_wellformed:
  assumes "use_dest_opts opt" and "length (dest_home_addr opt) = 16"
  shows "ext_header_ok IP6_EXT_HDR_CAP nh (build_dest_options_header IP6_EXT_HDR_CAP nh opt) \<and>
    (tlvs (drop 2 (build_dest_options_header IP6_EXT_HDR_CAP nh opt)) \<longleftrightarrow> dest_kind opt \<noteq> DEST_MALFORMED)"
proof (cases "dest_kind opt = DEST_MALFORMED")
  case True
  with malformed_dest_header [OF assms(1) True, of nh] show ?thesis
    by (simp add: ext_header_ok_def)
next
  case False
  with dest_filler.header_ok [where opt = opt and cap = IP6_EXT_HDR_CAP and nh = nh] assms show ?thesis
    by (simp add: build_dest_options_header_def)
qed

theorem dest_header_wellformed_witness:
  "ext_header_ok IP6_EXT_HDR_CAP 6 (build_dest_options_header IP6_EXT_HDR_CAP 6
     (ext_default\<lparr>use_dest_opts := True, dest_kind := DEST_HOME\<rparr>))"
  using dest_header_wellformed [of "ext_default\<lparr>use_dest_opts := True, dest_kind := DEST_HOME\<rparr>" 6]
  by (simp add: ext_default_def)

lemma put_segments_fit:
  "length b + 16 * n \<le> cap \<Longrightarrow> put_segments cap n b = b @ replicate (16 * n) 0"
  by (induction n arbitrary: b) (simp_all add: replicate_add [symmetric])

lemma zero_align8_done: "length b mod 8 = 0 \<Longrightarrow> zero_align8 cap b = b"
  by (subst zero_align8.simps) simp

lemma segments_bound: "unat (min (route_segments opt) IP6_ROUTE_SEG_MAX) \<le> 16"
  using word_le_nat_alt [of "min (route_segments opt) 16" 16] by simp

lemma length_finish_route:
  "length b = 8 * k \<Longrightarrow> 1 \<le> k \<Longrightarrow> k \<le> 256 \<Longrightarrow> k * 8 \<le> cap \<Longrightarrow>
   ext_header_ok cap nh ((finish_ext nh b)[2 := t, 3 := s])"
  by (cases b; cases "tl b") (auto simp: ext_header_ok_def finish_ext_def unat_of_nat simp del: of_nat_diff)

text \<open>
  A routing header of type 0 or a segment routing header with the requested number of
  segments (at most 16): the length byte is twice the number of segments, the segments-left
  field is that number, and the header is 8 bytes and 16 per segment, within its buffer.
\<close>

theorem routing_header_segments:
  assumes "use_route_hdr opt" and "route_kind opt = ROUTE_TYPE0 \<or> route_kind opt = ROUTE_SRH"
    and "unat (route_segments opt) = n" and "n \<le> 16"
  shows "ext_header_ok IP6_EXT_HDR_CAP nh (build_routing_header IP6_EXT_HDR_CAP nh opt) \<and>
    length (build_routing_header IP6_EXT_HDR_CAP nh opt) = 8 + 16 * n \<and>
    unat (build_routing_header IP6_EXT_HDR_CAP nh opt ! 1) = 2 * n \<and>
    unat (build_routing_header IP6_EXT_HDR_CAP nh opt ! 3) = n"
proof -
  let ?h = "build_routing_header IP6_EXT_HDR_CAP nh opt"
  have m: "min (route_segments opt) IP6_ROUTE_SEG_MAX = route_segments opt"
    using assms(3,4) by (simp add: min_def word_le_nat_alt)
  obtain b4 :: bytes and t where b4: "length b4 = 4"
    and rb: "route_body IP6_EXT_HDR_CAP opt [0, 0, 0, 0] =
      (put_segments IP6_EXT_HDR_CAP n ([0, 0, 0, 0] @ b4), t, ucast (route_segments opt))"
    using assms(2,3) m
    by (auto simp: route_body_def put_within_def Let_def intro: that [of "replicate 4 0"] that [of "[_, 0, 0, 0]"])
  define body where "body = ([0, 0, 0, 0] @ b4) @ replicate (16 * n) (0 :: u8)"
  have len: "length body = 8 * (2 * n + 1)" using b4 by (simp add: body_def)
  then have al: "zero_align8 IP6_EXT_HDR_CAP body = body" by (intro zero_align8_done) simp
  have h: "?h = (finish_ext nh body)[2 := t, 3 := ucast (route_segments opt)]"
    using rb b4 assms(1,4) al put_segments_fit [of "[0, 0, 0, 0] @ b4" n IP6_EXT_HDR_CAP]
    by (simp add: build_routing_header_def body_def)
  have seg: "unat (ucast (route_segments opt) :: u8) = n"
    using assms(3,4) by (simp add: unsigned_ucast_eq take_bit_nat_eq_self)
  have "?h ! 1 = of_nat (2 * n)" and "length ?h = 8 * (2 * n + 1)" and "?h ! 3 = ucast (route_segments opt)"
    using len by (simp_all add: h finish_ext_def)
  moreover have "ext_header_ok IP6_EXT_HDR_CAP nh ?h"
    unfolding h using len assms(4) by (intro length_finish_route [of _ "2 * n + 1"]) simp_all
  moreover have "unat (of_nat (2 * n) :: u8) = 2 * n"
    using assms(4) by (simp add: unat_of_nat del: of_nat_mult)
  ultimately show ?thesis using seg by (simp del: of_nat_mult)
qed

theorem routing_header_segments_witness:
  "length (build_routing_header IP6_EXT_HDR_CAP 6
     (ext_default\<lparr>use_route_hdr := True, route_kind := ROUTE_SRH, route_segments := 3\<rparr>)) = 56"
  using routing_header_segments
    [of "ext_default\<lparr>use_route_hdr := True, route_kind := ROUTE_SRH, route_segments := 3\<rparr>" 3 6]
  by simp

end
