(* ===== verification/Ext_Chain.thy ===== *)
theory Ext_Chain
  imports Ext_Headers "HOL-Library.Multiset"
begin

text \<open>
  The assembly of the extension-header chain inside \<open>build_packet\<close> (src/scan.cpp, lines 966
  to 1099): collecting the headers, \<open>--chain\<close>, linking the next-header fields, \<open>--stop\<close>.
  A \<open>Chain\<close> entry points into its own buffer, so its model carries the bytes. Two things
  are parameters: \<open>std::shuffle\<close>, whose algorithm the C++ standard leaves open, and the
  byte of uninitialized stack memory that \<open>--chain unknown\<close> leaves in its header.
\<close>

record chain_entry =
  ce_buf :: bytes
  ce_proto :: u8

abbreviation (input) PROTO_TCP :: u8 where "PROTO_TCP \<equiv> 6"
abbreviation (input) NO_NEXT_HEADER :: u8 where "NO_NEXT_HEADER \<equiv> 59"
abbreviation (input) CHAIN_EXTRA_BUFS :: nat where "CHAIN_EXTRA_BUFS \<equiv> 8"

section \<open>Collecting the headers\<close>

definition add_entry :: "bytes \<Rightarrow> u8 \<Rightarrow> chain_entry list" where
  "add_entry b proto = (if length b = 0 then [] else [\<lparr>ce_buf = b, ce_proto = proto\<rparr>])"

definition initial_entries :: "ipv6_ext_options \<Rightarrow> rng \<Rightarrow> chain_entry list \<times> rng" where
  "initial_entries opt r =
     (let hop = build_hop_by_hop_header IP6_EXT_HDR_CAP PROTO_TCP opt;
          dest = build_dest_options_header IP6_EXT_HDR_CAP PROTO_TCP opt;
          route = build_routing_header IP6_EXT_HDR_CAP PROTO_TCP opt;
          (ah, r1) = build_ah_header IP6_EXT_HDR_CAP PROTO_TCP opt r;
          (esp, r2) = build_esp_header IP6_EXT_HDR_CAP opt r1
      in (add_entry hop PROTO_HOPOPTS @ add_entry dest PROTO_DSTOPTS @ add_entry route PROTO_ROUTING @
          add_entry ah PROTO_AH @ add_entry esp PROTO_ESP, r2))"

section \<open>--chain\<close>

text \<open>\<open>dup\<close>: copies of the first header of the target's kind, in slots of their own, right after it.\<close>

fun insert_dups :: "u8 \<Rightarrow> nat \<Rightarrow> chain_entry list \<Rightarrow> chain_entry list" where
  "insert_dups target k [] = []"
| "insert_dups target k (e # es) =
     (if ce_proto e = target then e # replicate k e @ es else e # insert_dups target k es)"

text \<open>
  \<open>custom\<close>: for each protocol of the order, the entries not placed yet that have it; then
  everything that was not placed. The second argument is what is not placed.
\<close>

fun place_custom :: "u8 list \<Rightarrow> chain_entry list \<Rightarrow> chain_entry list" where
  "place_custom [] es = es"
| "place_custom (p # ps) es =
     filter (\<lambda>e. ce_proto e = p) es @ place_custom ps (filter (\<lambda>e. ce_proto e \<noteq> p) es)"

definition chain_mutate ::
    "(chain_entry list \<Rightarrow> rng \<Rightarrow> chain_entry list \<times> rng) \<Rightarrow> u8 \<Rightarrow> ipv6_ext_options \<Rightarrow>
     chain_entry list \<Rightarrow> rng \<Rightarrow> chain_entry list \<times> rng" where
  "chain_mutate shuffle stack_byte opt es r =
     (case chain_mode_of opt of
        CHAIN_DUP \<Rightarrow>
          (insert_dups (chain_dup_target opt) (min (unat (chain_dup_count opt - 1)) CHAIN_EXTRA_BUFS) es, r)
      | CHAIN_UNKNOWN \<Rightarrow>
          (es @ [\<lparr>ce_buf = [stack_byte, 0, 0, 0, 0, 0, 0, 0], ce_proto = chain_unknown_value opt\<rparr>], r)
      | CHAIN_RAND \<Rightarrow> if length es > 1 then shuffle es r else (es, r)
      | CHAIN_REVERSE \<Rightarrow> (rev es, r)
      | CHAIN_CUSTOM \<Rightarrow> (place_custom (chain_custom_order opt) es, r)
      | _ \<Rightarrow> (es, r))"

section \<open>Linking and --stop\<close>

definition set_next :: "u8 \<Rightarrow> chain_entry \<Rightarrow> chain_entry" where
  "set_next p e = (if ce_proto e \<noteq> PROTO_ESP then e\<lparr>ce_buf := (ce_buf e)[0 := p]\<rparr> else e)"

fun link_chain :: "chain_entry list \<Rightarrow> chain_entry list" where
  "link_chain (e # e' # es) = set_next (ce_proto e') e # link_chain (e' # es)"
| "link_chain es = es"

text \<open>Apply \<open>mark_no_next\<close> to the \<open>n\<close>-th entry (from 1) that has the given protocol.\<close>

fun mark_nth :: "u8 \<Rightarrow> nat \<Rightarrow> chain_entry list \<Rightarrow> chain_entry list" where
  "mark_nth p n [] = []"
| "mark_nth p n (e # es) =
     (if ce_proto e \<noteq> p then e # mark_nth p n es
      else if n = 1 then set_next NO_NEXT_HEADER e # es
      else e # mark_nth p (n - 1) es)"

definition apply_stop :: "ipv6_ext_options \<Rightarrow> chain_entry list \<Rightarrow> chain_entry list" where
  "apply_stop opt es =
     (case stop_mode_of opt of
        STOP_FIRST \<Rightarrow> (case es of [] \<Rightarrow> [] | e # es' \<Rightarrow> set_next NO_NEXT_HEADER e # es')
      | STOP_HOP \<Rightarrow> mark_nth PROTO_HOPOPTS 1 es
      | STOP_ROUTE \<Rightarrow> mark_nth PROTO_ROUTING 1 es
      | STOP_DEST \<Rightarrow> mark_nth PROTO_DSTOPTS (unat (stop_dest_n opt)) es
      | STOP_ALL \<Rightarrow> map (set_next NO_NEXT_HEADER) es
      | STOP_NONE \<Rightarrow> es)"

text \<open>
  The whole assembly: the protocol the fixed header announces, the bytes of the chain and
  the random stream afterwards.
\<close>

definition build_ext_chain ::
    "(chain_entry list \<Rightarrow> rng \<Rightarrow> chain_entry list \<times> rng) \<Rightarrow> u8 \<Rightarrow> ipv6_ext_options \<Rightarrow> rng \<Rightarrow>
     u8 \<times> bytes \<times> rng" where
  "build_ext_chain shuffle stack_byte opt r =
     (let (es0, r1) = initial_entries opt r;
          (es1, r2) = chain_mutate shuffle stack_byte opt es0 r1;
          es = apply_stop opt (link_chain es1)
      in (case es of [] \<Rightarrow> PROTO_TCP | e # _ \<Rightarrow> ce_proto e, concat (map ce_buf es), r2))"

section \<open>The receiver's walk\<close>

text \<open>
  How a receiver finds the upper-layer header (RFC 8200, section 4; RFC 4302 for the
  Authentication Header): by the next-header and length fields, starting from the protocol
  of the fixed header. \<open>None\<close>: it does not reach TCP.
\<close>

function walk :: "u8 \<Rightarrow> bytes \<Rightarrow> bytes option" where
  "walk p bs =
     (if p = PROTO_TCP then Some bs
      else (case bs of
          nh # l # rest \<Rightarrow>
            if p = PROTO_HOPOPTS \<or> p = PROTO_ROUTING \<or> p = PROTO_DSTOPTS then
              (if 8 * (unat l + 1) \<le> length bs then walk nh (drop (8 * (unat l + 1)) bs) else None)
            else if p = PROTO_AH then
              (if 4 * (unat l + 2) \<le> length bs then walk nh (drop (4 * (unat l + 2)) bs) else None)
            else None
        | _ \<Rightarrow> None))"
  by pat_completeness auto
termination
  by (relation "measure (\<lambda>(p, bs). length bs)") auto

declare walk.simps [simp del]

text \<open>An entry a receiver can step over: its length field covers exactly its bytes.\<close>

definition entry_ok :: "chain_entry \<Rightarrow> bool" where
  "entry_ok e \<longleftrightarrow> 2 \<le> length (ce_buf e) \<and>
     (if ce_proto e = PROTO_AH then length (ce_buf e) = 4 * (unat (ce_buf e ! 1) + 2)
      else (ce_proto e = PROTO_HOPOPTS \<or> ce_proto e = PROTO_ROUTING \<or> ce_proto e = PROTO_DSTOPTS) \<and>
        length (ce_buf e) = 8 * (unat (ce_buf e ! 1) + 1))"

lemma walk_ext:
  assumes "p = PROTO_HOPOPTS \<or> p = PROTO_ROUTING \<or> p = PROTO_DSTOPTS"
    and "length b = 8 * (unat (b ! 1) + 1)"
  shows "walk p (b @ bs) = walk (b ! 0) bs"
proof -
  obtain nh l rest where b: "b = nh # l # rest"
    using assms(2) by (cases b rule: remdups_adj.cases) auto
  have len: "8 * (unat l + 1) = length b" using assms(2) by (simp add: b)
  have d: "drop (8 * (unat l + 1)) (b @ bs) = bs" and le: "8 * (unat l + 1) \<le> length (b @ bs)"
    unfolding len by simp_all
  have "walk p (nh # l # rest @ bs) = walk nh (drop (8 * (unat l + 1)) (nh # l # rest @ bs))"
    using assms(1) le unfolding b by (subst walk.simps) auto
  then show ?thesis using d unfolding b by simp
qed

lemma walk_auth:
  assumes "length b = 4 * (unat (b ! 1) + 2)"
  shows "walk PROTO_AH (b @ bs) = walk (b ! 0) bs"
proof -
  obtain nh l rest where b: "b = nh # l # rest"
    using assms by (cases b rule: remdups_adj.cases) auto
  have len: "4 * (unat l + 2) = length b" using assms by (simp add: b)
  have d: "drop (4 * (unat l + 2)) (b @ bs) = bs" and le: "4 * (unat l + 2) \<le> length (b @ bs)"
    unfolding len by simp_all
  have "walk PROTO_AH (nh # l # rest @ bs) = walk nh (drop (4 * (unat l + 2)) (nh # l # rest @ bs))"
    using le unfolding b by (subst walk.simps) auto
  then show ?thesis using d unfolding b by simp
qed

lemma walk_step:
  assumes "entry_ok e"
  shows "walk (ce_proto e) (ce_buf e @ bs) = walk (ce_buf e ! 0) bs"
  using assms walk_ext [of "ce_proto e" "ce_buf e" bs] walk_auth [of "ce_buf e" bs]
  by (auto simp: entry_ok_def split: if_splits)

text \<open>A chain of such entries, each naming the next, leads through to what follows it.\<close>

fun chained :: "u8 \<Rightarrow> chain_entry list \<Rightarrow> bool" where
  "chained last_nh [] = True"
| "chained last_nh (e # es) =
     (entry_ok e \<and> ce_buf e ! 0 = (case es of [] \<Rightarrow> last_nh | e' # _ \<Rightarrow> ce_proto e') \<and> chained last_nh es)"

lemma walk_chained:
  "chained PROTO_TCP es \<Longrightarrow>
   walk (case es of [] \<Rightarrow> PROTO_TCP | e # _ \<Rightarrow> ce_proto e) (concat (map ce_buf es) @ tcp) = Some tcp"
proof (induction es)
  case Nil
  then show ?case by (subst walk.simps) simp
next
  case (Cons e es)
  then show ?case by (cases es) (simp_all add: walk_step)
qed

lemma set_next_simps [simp]:
  "ce_proto (set_next p e) = ce_proto e" "length (ce_buf (set_next p e)) = length (ce_buf e)"
  by (simp_all add: set_next_def)

lemma entry_ok_set_next: "entry_ok e \<Longrightarrow> entry_ok (set_next p e) \<and> ce_buf (set_next p e) ! 0 = p"
  by (cases "ce_buf e") (auto simp: entry_ok_def set_next_def split: if_splits)

text \<open>Every entry was built in front of TCP, so any order of them links up.\<close>

definition fresh_entry :: "chain_entry \<Rightarrow> bool" where
  "fresh_entry e \<longleftrightarrow> entry_ok e \<and> ce_buf e ! 0 = PROTO_TCP"

lemma hd_link_chain: "(case link_chain (e # es) of [] \<Rightarrow> q | e' # _ \<Rightarrow> ce_proto e') = ce_proto e"
  by (cases es) simp_all

lemma chained_link: "\<forall>e \<in> set es. fresh_entry e \<Longrightarrow> chained PROTO_TCP (link_chain es)"
proof (induction es rule: link_chain.induct)
  case (1 e e' es)
  then show ?case
    using entry_ok_set_next [of e "ce_proto e'"] by (simp add: fresh_entry_def hd_link_chain)
qed (auto simp: fresh_entry_def)

lemma set_insert_dups: "set (insert_dups t k es) \<subseteq> set es"
  by (induction es) (auto split: if_splits)

lemma mset_place_custom: "mset (place_custom ps es) = mset es"
proof (induction ps arbitrary: es)
  case Nil
  then show ?case by simp
next
  case (Cons p ps)
  then show ?case using multiset_partition [of "mset es" "\<lambda>e. ce_proto e = p"] by simp
qed

lemma routing_header_ok:
  assumes "use_route_hdr opt"
  shows "ext_header_ok IP6_EXT_HDR_CAP nh (build_routing_header IP6_EXT_HDR_CAP nh opt)"
proof -
  define n where "n = unat (min (route_segments opt) IP6_ROUTE_SEG_MAX)"
  have n: "n \<le> 16" unfolding n_def by (rule segments_bound)
  obtain body t s where rb: "route_body IP6_EXT_HDR_CAP opt [0, 0, 0, 0] = (body, t, s)"
    by (cases "route_body IP6_EXT_HDR_CAP opt [0, 0, 0, 0]") auto
  have z: "zero_align8 IP6_EXT_HDR_CAP [0, 0, 0, 0] = [0, 0, 0, 0, 0, 0, 0, 0 :: u8]"
    by (simp add: zero_align8.simps)
  have "\<exists>k. length (zero_align8 IP6_EXT_HDR_CAP body) = 8 * k \<and> 1 \<le> k \<and> k \<le> 33"
  proof (cases "route_kind opt = ROUTE_INVALID \<or> route_kind opt = ROUTE_NONE")
    case True
    then have "body = [0, 0, 0, 0]" using rb by (auto simp: route_body_def)
    with z show ?thesis by (intro exI [of _ 1]) simp
  next
    case False
    have "length body = 8 * (2 * n + 1) \<or> length body = 24"
      using False rb n
      by (cases "route_kind opt")
        (auto simp: route_body_def put_within_def Let_def n_def [symmetric] put_segments_fit)
    then obtain k where "length body = 8 * k" "1 \<le> k" "k \<le> 33"
      using n by (elim disjE) (auto intro: that [of "2 * n + 1"] that [of 3])
    moreover from this have "zero_align8 IP6_EXT_HDR_CAP body = body" by (intro zero_align8_done) simp
    ultimately show ?thesis by auto
  qed
  then obtain k where "length (zero_align8 IP6_EXT_HDR_CAP body) = 8 * k" "1 \<le> k" "k \<le> 33" by auto
  then show ?thesis
    using assms rb by (auto simp: build_routing_header_def intro: length_finish_route)
qed

lemma fresh_ext_header:
  assumes "ext_header_ok cap PROTO_TCP b"
    and "p = PROTO_HOPOPTS \<or> p = PROTO_ROUTING \<or> p = PROTO_DSTOPTS"
  shows "fresh_entry \<lparr>ce_buf = b, ce_proto = p\<rparr>"
  using assms by (auto simp: fresh_entry_def entry_ok_def ext_header_ok_def)

lemma fresh_auth:
  assumes "ah_mode_of opt \<noteq> AH_BADLEN" and "build_ah_header IP6_EXT_HDR_CAP PROTO_TCP opt r = (b, r')"
    and "b \<noteq> []"
  shows "fresh_entry \<lparr>ce_buf = b, ce_proto = PROTO_AH\<rparr>"
  using assms
  by (auto simp: build_ah_header_def ah_total_def Let_def fresh_entry_def entry_ok_def split: if_splits)

lemma fresh_initial:
  assumes "length (dest_home_addr opt) = 16" and "\<not> use_esp opt" and "ah_mode_of opt \<noteq> AH_BADLEN"
  shows "\<forall>e \<in> set (fst (initial_entries opt r)). fresh_entry e"
proof -
  obtain ah r1 where ah: "build_ah_header IP6_EXT_HDR_CAP PROTO_TCP opt r = (ah, r1)" by (cases "build_ah_header IP6_EXT_HDR_CAP PROTO_TCP opt r")
  have esp: "build_esp_header IP6_EXT_HDR_CAP opt r1 = ([], r1)" using assms(2) by (simp add: build_esp_header_def)
  have "\<forall>e \<in> set (add_entry (build_hop_by_hop_header IP6_EXT_HDR_CAP PROTO_TCP opt) PROTO_HOPOPTS). fresh_entry e"
    using hop_filler.header_ok(1) [where opt = opt and cap = IP6_EXT_HDR_CAP and nh = PROTO_TCP]
    by (auto simp: add_entry_def build_hop_by_hop_header_def intro: fresh_ext_header)
  moreover have "\<forall>e \<in> set (add_entry (build_dest_options_header IP6_EXT_HDR_CAP PROTO_TCP opt) PROTO_DSTOPTS). fresh_entry e"
  proof (cases "dest_kind opt = DEST_MALFORMED \<and> use_dest_opts opt")
    case True
    then show ?thesis by (simp add: add_entry_def malformed_dest_header fresh_entry_def entry_ok_def)
  next
    case False
    with dest_filler.header_ok(1) [where opt = opt and cap = IP6_EXT_HDR_CAP and nh = PROTO_TCP] assms(1)
    show ?thesis by (auto simp: add_entry_def build_dest_options_header_def intro: fresh_ext_header)
  qed
  moreover have "\<forall>e \<in> set (add_entry (build_routing_header IP6_EXT_HDR_CAP PROTO_TCP opt) PROTO_ROUTING). fresh_entry e"
  proof (cases "use_route_hdr opt")
    case True
    then show ?thesis by (auto simp: add_entry_def intro: fresh_ext_header routing_header_ok)
  next
    case False
    then show ?thesis by (simp add: add_entry_def build_routing_header_def)
  qed
  moreover have "\<forall>e \<in> set (add_entry ah PROTO_AH). fresh_entry e"
    using fresh_auth [OF assms(3) ah] by (simp add: add_entry_def)
  ultimately show ?thesis by (auto simp: initial_entries_def ah esp Let_def add_entry_def split: if_splits)
qed

lemma fresh_mutate:
  assumes "\<forall>e \<in> set es. fresh_entry e" and "chain_mode_of opt \<noteq> CHAIN_UNKNOWN"
    and "\<forall>es r. mset (fst (shuffle es r)) = mset es"
  shows "\<forall>e \<in> set (fst (chain_mutate shuffle sb opt es r)). fresh_entry e"
proof -
  have "set (fst (shuffle es r)) = set es" using assms(3) by (metis set_mset_mset)
  moreover have "set (place_custom ps es) = set es" for ps using mset_place_custom by (metis set_mset_mset)
  ultimately show ?thesis
    using assms(1,2) by (auto simp: chain_mutate_def dest!: subsetD [OF set_insert_dups] split: chain_mode.split)
qed

text \<open>
  C14. Whatever headers are asked for, and whatever the chain does to them (copies of one
  header, a random order, the reverse or a custom order), the packet still parses: a receiver
  that follows the next-header and length fields from the protocol of the fixed header steps
  over every header and reaches the TCP segment, as long as no mode is asked for whose purpose
  is to break that (an encrypted ESP payload, \<open>--ah badlen\<close>, \<open>--chain unknown\<close>, \<open>--stop\<close>).
  The order \<open>std::shuffle\<close> chooses is any permutation.
\<close>

theorem chain_reaches_tcp:
  assumes "length (dest_home_addr opt) = 16" and "\<not> use_esp opt" and "ah_mode_of opt \<noteq> AH_BADLEN"
    and "chain_mode_of opt \<noteq> CHAIN_UNKNOWN" and "stop_mode_of opt = STOP_NONE"
    and "\<forall>es r. mset (fst (shuffle es r)) = mset es"
    and "build_ext_chain shuffle stack_byte opt r = (first, chain, r')"
  shows "walk first (chain @ tcp) = Some tcp"
proof -
  obtain es0 r1 where i: "initial_entries opt r = (es0, r1)" by (cases "initial_entries opt r")
  obtain es1 r2 where m: "chain_mutate shuffle stack_byte opt es0 r1 = (es1, r2)"
    by (cases "chain_mutate shuffle stack_byte opt es0 r1")
  have "\<forall>e \<in> set es0. fresh_entry e" using fresh_initial [OF assms(1-3), of r] i by simp
  then have "\<forall>e \<in> set es1. fresh_entry e" using fresh_mutate [OF _ assms(4,6), of es0 stack_byte r1] m by simp
  then have "chained PROTO_TCP (link_chain es1)" by (rule chained_link)
  from walk_chained [OF this] show ?thesis using assms(5,7) by (auto simp: build_ext_chain_def i m apply_stop_def Let_def)
qed

theorem chain_reaches_tcp_witness:
  "case build_ext_chain (\<lambda>es r. (rev es, r)) 0xAB
     (ext_default\<lparr>use_hop_opts := True, use_dest_opts := True, use_route_hdr := True, chain_mode_of := CHAIN_RAND\<rparr>)
     (\<lambda>_. 0) of (first, chain, _) \<Rightarrow> walk first (chain @ [1, 2, 3]) = Some [1, 2, 3]"
proof -
  let ?opt = "ext_default\<lparr>use_hop_opts := True, use_dest_opts := True, use_route_hdr := True, chain_mode_of := CHAIN_RAND\<rparr>"
  obtain first chain r' where "build_ext_chain (\<lambda>es r. (rev es, r)) 0xAB ?opt (\<lambda>_. 0) = (first, chain, r')"
    by (cases "build_ext_chain (\<lambda>es r. (rev es, r)) 0xAB ?opt (\<lambda>_. 0)") auto
  with chain_reaches_tcp [OF _ _ _ _ _ _ this] show ?thesis by (simp add: ext_default_def)
qed

text \<open>
  In front of \<open>--chain unknown\<close> nothing writes the first byte of the slot: what the packet
  carries there is the byte the stack happened to hold.
\<close>

lemma chain_unknown_uninitialized:
  assumes "chain_mode_of opt = CHAIN_UNKNOWN" and "stop_mode_of opt = STOP_NONE"
    and "build_ext_chain shuffle stack_byte opt r = (first, chain, r')"
  shows "\<exists>pre. chain = pre @ [stack_byte, 0, 0, 0, 0, 0, 0, 0]"
proof -
  have "\<exists>pre. concat (map ce_buf (link_chain (es @ [e]))) = pre @ ce_buf e" for es e
  proof (induction es)
    case (Cons e' es)
    then obtain pre where "concat (map ce_buf (link_chain (es @ [e]))) = pre @ ce_buf e" by blast
    then show ?case by (cases "es @ [e]") auto
  qed simp
  then obtain pre where pre: "concat (map ce_buf (link_chain (fst (initial_entries opt r) @
      [\<lparr>ce_buf = [stack_byte, 0, 0, 0, 0, 0, 0, 0], ce_proto = chain_unknown_value opt\<rparr>]))) =
    pre @ [stack_byte, 0, 0, 0, 0, 0, 0, 0]"
    by (metis chain_entry.select_convs(1))
  have "chain = concat (map ce_buf (link_chain (fst (initial_entries opt r) @
      [\<lparr>ce_buf = [stack_byte, 0, 0, 0, 0, 0, 0, 0], ce_proto = chain_unknown_value opt\<rparr>])))"
    using assms by (auto simp: build_ext_chain_def chain_mutate_def apply_stop_def Let_def split: prod.splits)
  with pre show ?thesis by blast
qed

end
