(* ===== verification/Tcp_Options.thy ===== *)
theory Tcp_Options
  imports Ext_Chain
begin

text \<open>
  The TCP options area \<open>build_packet\<close> writes (src/scan.cpp, lines 1158 to 1361), and the two
  records it reads: the build options of a scan and the packet task, without the members no line of
  \<open>build_packet\<close> uses (of \<open>TcpBuildOptions\<close> the time stamp, the NOP count and the cookie text,
  which it takes from the task). Addresses are their bytes in network order, ports their values.
  The area is the list of the
  bytes written, so its length is \<open>opt_len\<close>. Differences of \<open>size_t\<close> values wrap as in
  the code (\<open>MAX_TCP_OPTIONS_SIZE - opt_len - 3\<close> does when less than three bytes are left).
\<close>

section \<open>Build options and tasks\<close>

datatype scan_type = SYN | FIN | ACK | NULL_SCAN | XMAS | WINDOW | MAIMON | CWR | ECE | URG | PSH
  | HANUMAN | KAKABHUSUNDI | GANESH | RAM | GARUD | JATAYU

record tcp_build_options =
  use_ip_tos :: bool
  custom_ip_tos_byte :: u8
  use_manual_tcp_checksum :: bool
  manual_tcp_checksum :: u16
  window_scale :: u8
  mss_value :: u16
  timestamp_ecr_custom :: u32
  sack_permitted :: bool
  custom_data :: string
  data_length :: u16
  use_custom_data :: bool
  generate_random_data :: bool
  use_badsum :: bool
  custom_badsum_value :: u16
  badsum_value_set :: bool
  use_partial_badsum :: bool
  partial_badsum_type :: string
  use_tfo_cookie :: bool
  tfo_cookie_random :: bool
  tfo_cookie_length :: nat
  use_fragmentation :: bool
  frag_size :: u16
  mtu_size :: u16
  use_tcp_mptcp :: bool
  use_tcp_ao :: bool
  tcp_ao_keyid :: u8
  tcp_ao_rnextkeyid :: u8
  tcp_ao_mac_len :: u8
  use_ip_router_alert :: bool
  use_ip_security :: bool
  ip_security_classification :: u8
  packet_length_cfg :: packet_length_config
  ipv6_ext_opts :: ipv6_ext_options

record packet_task =
  task_dest :: bytes
  task_sin_port :: u16
  task_dest6 :: bytes
  task_sin6_port :: u16
  task_is_ipv6 :: bool
  task_src_port :: u16
  task_seq :: u32
  task_ack :: u32
  task_flags :: u8
  task_data :: string
  task_scan_type :: scan_type
  task_timestamp_val :: u32
  task_custom_timestamp :: u32
  task_nops_count :: u16
  task_use_tfo_cookie :: bool
  task_tfo_cookie_as_hex :: bool
  task_tfo_cookie_random :: bool
  task_tfo_cookie_str :: string
  task_tfo_cookie_num :: u64
  task_tfo_cookie_length :: nat

text \<open>The members' default initializers; \<open>generate_tcp_tsval()\<close> is the clock.\<close>

definition tcp_build_default :: tcp_build_options where
  "tcp_build_default = \<lparr>use_ip_tos = False, custom_ip_tos_byte = 0, use_manual_tcp_checksum = False,
     manual_tcp_checksum = 0, window_scale = 7, mss_value = 1460, timestamp_ecr_custom = 0,
     sack_permitted = True, custom_data = [], data_length = 0, use_custom_data = False,
     generate_random_data = False, use_badsum = False, custom_badsum_value = 0, badsum_value_set = False,
     use_partial_badsum = False, partial_badsum_type = [], use_tfo_cookie = False,
     tfo_cookie_random = False, tfo_cookie_length = 0, use_fragmentation = False, frag_size = 8,
     mtu_size = 0, use_tcp_mptcp = False, use_tcp_ao = False, tcp_ao_keyid = 1, tcp_ao_rnextkeyid = 1,
     tcp_ao_mac_len = 12, use_ip_router_alert = False, use_ip_security = False,
     ip_security_classification = 0x01, packet_length_cfg = \<lparr>pl_enabled = False, pl_target_len = 0\<rparr>,
     ipv6_ext_opts = ext_default\<rparr>"

definition packet_task_default :: "u32 \<Rightarrow> packet_task" where
  "packet_task_default tsval = \<lparr>task_dest = replicate 4 0, task_sin_port = 0,
     task_dest6 = replicate 16 0, task_sin6_port = 0, task_is_ipv6 = False,
     task_src_port = 0, task_seq = 0, task_ack = 0, task_flags = 0, task_data = [],
     task_scan_type = SYN, task_timestamp_val = 0, task_custom_timestamp = tsval, task_nops_count = 0,
     task_use_tfo_cookie = False, task_tfo_cookie_as_hex = False, task_tfo_cookie_random = False,
     task_tfo_cookie_str = [], task_tfo_cookie_num = 0, task_tfo_cookie_length = 0\<rparr>"

abbreviation (input) OPTIONS_STACK_CAP :: nat where "OPTIONS_STACK_CAP \<equiv> 1024"

text \<open>\<open>a - b\<close> on \<open>size_t\<close>.\<close>

definition size_sub :: "nat \<Rightarrow> nat \<Rightarrow> nat" where
  "size_sub a b = nat ((int a - int b) mod 2 ^ 64)"

definition intentional_malformed :: "tcp_build_options \<Rightarrow> bool" where
  "intentional_malformed opts \<longleftrightarrow> use_tfo_cookie opts \<and> tfo_cookie_random opts \<and> tfo_cookie_length opts > 100000"

definition max_tcp_options :: "tcp_build_options \<Rightarrow> nat \<Rightarrow> nat" where
  "max_tcp_options opts buffer_size =
     (if intentional_malformed opts then min 1024 (size_sub (size_sub buffer_size 20) 20) else 40)"

section \<open>The fixed options\<close>

definition null_or_xmas :: "packet_task \<Rightarrow> bool" where
  "null_or_xmas task \<longleftrightarrow> task_scan_type task = NULL_SCAN \<or> task_scan_type task = XMAS"

definition opt_mss :: "tcp_build_options \<Rightarrow> packet_task \<Rightarrow> nat \<Rightarrow> bytes \<Rightarrow> bytes" where
  "opt_mss opts task mx b =
     (if \<not> null_or_xmas task then put_within mx ([0x02, 0x04] @ be16 (mss_value opts)) b else b)"

definition opt_window_scale :: "tcp_build_options \<Rightarrow> nat \<Rightarrow> bytes \<Rightarrow> bytes" where
  "opt_window_scale opts mx b =
     (if window_scale opts > 0 then put_within mx [0x03, 0x03, window_scale opts] b else b)"

definition opt_sack :: "tcp_build_options \<Rightarrow> nat \<Rightarrow> bytes \<Rightarrow> bytes" where
  "opt_sack opts mx b = (if sack_permitted opts then put_within mx [0x04, 0x02] b else b)"

definition opt_timestamp :: "tcp_build_options \<Rightarrow> packet_task \<Rightarrow> nat \<Rightarrow> bytes \<Rightarrow> bytes" where
  "opt_timestamp opts task mx b =
     (if task_timestamp_val task \<noteq> 0
      then put_within mx ([0x08, 0x0A] @ be32 (task_timestamp_val task) @ be32 (timestamp_ecr_custom opts)) b
      else b)"

text \<open>The two calls of \<open>rng()\<close> in the key are evaluated in an unspecified order; here left to right.\<close>

definition opt_mptcp :: "tcp_build_options \<Rightarrow> nat \<Rightarrow> bytes \<times> rng \<Rightarrow> bytes \<times> rng" where
  "opt_mptcp opts mx br =
     (case br of (b, r) \<Rightarrow>
        if use_tcp_mptcp opts \<and> length b + 12 \<le> mx \<and> length b + 12 \<le> OPTIONS_STACK_CAP
        then (b @ [30, 12, 0x01, 0x00] @ be32 (r 0) @ be32 (r 1), rng_skip 2 r)
        else (b, r))"

definition opt_tcp_ao :: "tcp_build_options \<Rightarrow> nat \<Rightarrow> bytes \<times> rng \<Rightarrow> bytes \<times> rng" where
  "opt_tcp_ao opts mx br =
     (case br of (b, r) \<Rightarrow>
        let mac_len = unat (tcp_ao_mac_len opts); ao_total = 4 + mac_len in
        if use_tcp_ao opts \<and> length b + ao_total \<le> mx \<and> length b + ao_total \<le> OPTIONS_STACK_CAP
        then (b @ [29, of_nat ao_total, tcp_ao_keyid opts, tcp_ao_rnextkeyid opts] @ rng_bytes mac_len r,
              rng_skip mac_len r)
        else (b, r))"

section \<open>The Fast Open cookie\<close>

definition strip_0x :: "string \<Rightarrow> string" where
  "strip_0x s = (if take 2 s = ''0x'' \<or> take 2 s = ''0X'' then substr_from s 2 else s)"

definition even_hex :: "string \<Rightarrow> string" where
  "even_hex s = (if length s mod 2 \<noteq> 0 then CHR ''0'' # s else s)"

definition hex_byte :: "string \<Rightarrow> u8" where
  "hex_byte s = (case stoul 16 s of Inr (v, _) \<Rightarrow> of_nat v | Inl _ \<Rightarrow> 0)"

text \<open>The loop over the pairs of digits, at most \<open>n\<close> of them.\<close>

fun hex_bytes :: "nat \<Rightarrow> string \<Rightarrow> bytes" where
  "hex_bytes (Suc n) (a # s) = hex_byte (a # take 1 s) # hex_bytes n (drop 1 s)"
| "hex_bytes _ _ = []"

text \<open>\<open>while (temp > 0) { bytes_needed++; temp >>= 8; }\<close>, at most the 8 bytes of \<open>num\<close>.\<close>

fun bytes_needed :: "nat \<Rightarrow> nat" where
  "bytes_needed n = (if n = 0 then 0 else Suc (bytes_needed (n div 256)))"

declare bytes_needed.simps [simp del]

definition num_cookie :: "u64 \<Rightarrow> nat \<Rightarrow> bytes" where
  "num_cookie num max_bytes =
     map (\<lambda>k. ucast (drop_bit (8 * k) num)) [0..<min (min (bytes_needed (unat num)) 8) max_bytes]"

definition cookie_random :: "tcp_build_options \<Rightarrow> packet_task \<Rightarrow> nat \<Rightarrow> nat" where
  "cookie_random opts task space =
     (if intentional_malformed opts \<and> tfo_cookie_length opts > 100000
      then min (min (task_tfo_cookie_length task) 1000) space
      else (let n = task_tfo_cookie_length task;
                n = (if n = 0 then 8 else n);
                n = (if n > 253 \<and> \<not> intentional_malformed opts then 253 else n)
        in min n space))"

definition cookie_data :: "tcp_build_options \<Rightarrow> packet_task \<Rightarrow> nat \<Rightarrow> nat \<Rightarrow> rng \<Rightarrow> bytes \<times> rng" where
  "cookie_data opts task mx opt_len r =
     (let avail = size_sub (size_sub mx opt_len) 3; space = min avail OPTIONS_STACK_CAP;
          str = task_tfo_cookie_str task
      in if task_tfo_cookie_random task
         then (let n = cookie_random opts task space in (rng_bytes n r, rng_skip n r))
         else if task_tfo_cookie_as_hex task \<and> str \<noteq> []
         then (let s = even_hex (strip_0x str);
                   n = min (length s div 2) (min (avail div 2) OPTIONS_STACK_CAP)
           in (hex_bytes n s, r))
         else if str \<noteq> [] then (map of_char (take (min (length str) space) str), r)
         else if task_tfo_cookie_num task > 0 then (num_cookie (task_tfo_cookie_num task) space, r)
         else (rng_bytes (min 8 space) r, rng_skip (min 8 space) r))"

definition opt_tfo :: "tcp_build_options \<Rightarrow> packet_task \<Rightarrow> nat \<Rightarrow> bytes \<times> rng \<Rightarrow> bytes \<times> rng" where
  "opt_tfo opts task mx br =
     (case br of (b, r) \<Rightarrow>
        if use_tfo_cookie opts \<and> task_use_tfo_cookie task then
          (let (cookie, r') = cookie_data opts task mx (length b) r; n = length cookie in
           if n = 0 then (b, r')
           else if intentional_malformed opts \<and> task_tfo_cookie_random task \<and> tfo_cookie_length opts > 100000
           then (put_within mx [34, of_nat (tfo_cookie_length opts), 0xF9] b, r')
           else if length b + (3 + n) \<le> mx \<and> length b + (3 + n) \<le> OPTIONS_STACK_CAP
           then (b @ [34, of_nat (3 + n), 0xF9] @ cookie, r')
           else (b, r'))
        else (b, r))"

section \<open>Padding and the whole area\<close>

definition opt_nops :: "tcp_build_options \<Rightarrow> packet_task \<Rightarrow> nat \<Rightarrow> bytes \<Rightarrow> bytes" where
  "opt_nops opts task mx b =
     (let n = unat (task_nops_count task); room = size_sub mx (length b);
          n = (if \<not> intentional_malformed opts \<and> length b + n > mx then room else n);
          n = min n room;
          n = min n (size_sub OPTIONS_STACK_CAP (length b))
      in if task_nops_count task > 0 then b @ replicate n 0x01 else b)"

function nop_align :: "nat \<Rightarrow> bytes \<Rightarrow> bytes" where
  "nop_align mx b =
     (if length b mod 4 \<noteq> 0 \<and> length b < mx \<and> length b < OPTIONS_STACK_CAP
      then nop_align mx (b @ [0x01]) else b)"
  by pat_completeness auto
termination
  by (relation "measure (\<lambda>(mx, b). mx - length b)") auto

declare nop_align.simps [simp del]

definition opt_garbage :: "nat \<Rightarrow> bytes \<Rightarrow> bytes" where
  "opt_garbage mx b =
     (if length b \<le> 40
      then b @ replicate (min 100 (min (size_sub mx (length b)) (size_sub OPTIONS_STACK_CAP (length b)))) 0xFF
      else b)"

definition tcp_options :: "tcp_build_options \<Rightarrow> packet_task \<Rightarrow> nat \<Rightarrow> rng \<Rightarrow> bytes \<times> rng" where
  "tcp_options opts task buffer_size r =
     (let mx = max_tcp_options opts buffer_size;
          b = opt_timestamp opts task mx (opt_sack opts mx (opt_window_scale opts mx (opt_mss opts task mx [])));
          (b, r) = opt_tfo opts task mx (opt_tcp_ao opts mx (opt_mptcp opts mx (b, r)));
          b = opt_nops opts task mx b;
          b = (if null_or_xmas task \<and> \<not> task_use_tfo_cookie task then [] else b);
          b = (if \<not> intentional_malformed opts then nop_align mx b else opt_garbage mx b)
      in (b, r))"

section \<open>What a receiver reads\<close>

text \<open>
  The options area of RFC 9293, section 3.1: kind 0 ends the list, kind 1 is a single byte, and
  every other option is a kind, a length that counts the kind and itself, and the data.
\<close>

function tcp_tlvs :: "bytes \<Rightarrow> bool" where
  "tcp_tlvs [] = True"
| "tcp_tlvs (k # bs) =
     (if k = 0 then True
      else if k = 1 then tcp_tlvs bs
      else (case bs of [] \<Rightarrow> False
        | l # rest \<Rightarrow> 2 \<le> unat l \<and> unat l - 2 \<le> length rest \<and> tcp_tlvs (drop (unat l - 2) rest)))"
  by pat_completeness auto
termination
  by (relation "measure length") auto

text \<open>An area without an end-of-list option, which the code never writes unless it means to.\<close>

function plain_tlvs :: "bytes \<Rightarrow> bool" where
  "plain_tlvs [] = True"
| "plain_tlvs (k # bs) =
     (if k = 0 then False
      else if k = 1 then plain_tlvs bs
      else (case bs of [] \<Rightarrow> False
        | l # rest \<Rightarrow> 2 \<le> unat l \<and> unat l - 2 \<le> length rest \<and> plain_tlvs (drop (unat l - 2) rest)))"
  by pat_completeness auto
termination
  by (relation "measure length") auto

lemma plain_tlvs_append: "plain_tlvs a \<Longrightarrow> plain_tlvs b \<Longrightarrow> plain_tlvs (a @ b)"
proof (induction a rule: plain_tlvs.induct)
  case 1
  then show ?case by simp
next
  case (2 k bs)
  then show ?case
    by (cases bs) (auto split: if_splits)
qed

lemma plain_tlvs_imp: "plain_tlvs b \<Longrightarrow> tcp_tlvs b"
  by (induction b rule: plain_tlvs.induct) (auto split: if_splits list.splits)

lemma plain_tlvs_option:
  assumes "k \<noteq> 0" and "k \<noteq> 1" and "n < 256" and "length d + 2 = n"
  shows "plain_tlvs (k # of_nat n # d)"
proof -
  have "unat (of_nat n :: u8) = n" using assms(3) by (simp add: unat_of_nat)
  then show ?thesis using assms unfolding plain_tlvs.simps(2) [of k] by simp
qed

lemma plain_tlvs_nops: "plain_tlvs (replicate n 1)"
  by (induction n) auto

text \<open>One step of the area: it appends whole options and stays within the limit.\<close>

definition writes :: "nat \<Rightarrow> bytes \<Rightarrow> bytes \<Rightarrow> bool" where
  "writes mx b b' \<longleftrightarrow> length b' \<le> mx \<and> (\<exists>ts. b' = b @ ts \<and> plain_tlvs ts)"

lemma writes_refl: "length b \<le> mx \<Longrightarrow> writes mx b b"
  by (simp add: writes_def)

lemma writes_plain: "writes mx b b' \<Longrightarrow> plain_tlvs b \<Longrightarrow> plain_tlvs b' \<and> length b' \<le> mx"
  by (auto simp: writes_def plain_tlvs_append)

lemma writes_put: "length b \<le> mx \<Longrightarrow> plain_tlvs ts \<Longrightarrow> writes mx b (put_within mx ts b)"
  by (auto simp: writes_def put_within_def)

lemma size_sub_le: "b \<le> a \<Longrightarrow> a < 2 ^ 64 \<Longrightarrow> size_sub a b = a - b"
  by (simp add: size_sub_def nat_diff_distrib flip: of_nat_diff)

lemma max_tcp_options_le: "max_tcp_options opts n \<le> OPTIONS_STACK_CAP"
  by (simp add: max_tcp_options_def)

locale bounded_writer =
  fixes step :: "tcp_build_options \<Rightarrow> packet_task \<Rightarrow> nat \<Rightarrow> bytes \<times> rng \<Rightarrow> bytes \<times> rng"
  assumes bounded: "length b \<le> mx \<Longrightarrow> mx \<le> OPTIONS_STACK_CAP \<Longrightarrow> length (fst (step opts task mx (b, r))) \<le> mx"
begin

lemma within:
  "mx \<le> OPTIONS_STACK_CAP \<Longrightarrow> length (fst br) \<le> mx \<Longrightarrow> length (fst (step opts task mx br)) \<le> mx"
  using bounded by (cases br) simp

end

text \<open>Within the 40 bytes of a legal header a step also keeps the area readable, for the options it accepts.\<close>

locale option_writer = bounded_writer +
  fixes ok :: "tcp_build_options \<Rightarrow> bool"
  assumes step_writes: "ok opts \<Longrightarrow> length b \<le> mx \<Longrightarrow> mx \<le> 40 \<Longrightarrow> writes mx b (fst (step opts task mx (b, r)))"
begin

lemma keeps:
  assumes "ok opts" and "length (fst br) \<le> 40 \<and> plain_tlvs (fst br)"
  shows "length (fst (step opts task 40 br)) \<le> 40 \<and> plain_tlvs (fst (step opts task 40 br))"
proof -
  have "writes 40 (fst br) (fst (step opts task 40 (fst br, snd br)))"
    using assms by (intro step_writes) simp_all
  then show ?thesis using writes_plain [of 40 "fst br"] assms(2) by simp
qed

end

text \<open>The steps that do not use the random engine, in the shape of the interface.\<close>

definition base_options :: "tcp_build_options \<Rightarrow> packet_task \<Rightarrow> nat \<Rightarrow> bytes \<times> rng \<Rightarrow> bytes \<times> rng" where
  "base_options opts task mx br =
     (opt_timestamp opts task mx (opt_sack opts mx (opt_window_scale opts mx (opt_mss opts task mx (fst br)))), snd br)"

lemma put_within_length: "length b \<le> mx \<Longrightarrow> length (put_within mx ts b) \<le> mx"
  by (simp add: put_within_def)

lemma writes_trans: "writes mx a b \<Longrightarrow> writes mx b c \<Longrightarrow> writes mx a c"
  by (auto simp: writes_def plain_tlvs_append)

lemma writes_length: "writes mx a b \<Longrightarrow> length b \<le> mx"
  by (simp add: writes_def)

lemma writes_append: "length (b @ ts) \<le> mx \<Longrightarrow> plain_tlvs ts \<Longrightarrow> writes mx b (b @ ts)"
  by (auto simp: writes_def)

lemma base_writes:
  assumes len: "length b \<le> mx"
  shows "writes mx b (fst (base_options opts task mx (b, r)))"
proof -
  have mss: "plain_tlvs ([0x02, 0x04] @ be16 w)" for w
    using plain_tlvs_option [of 2 4 "be16 w"] by (simp del: plain_tlvs.simps)
  have ts: "plain_tlvs ([0x08, 0x0A] @ be32 v @ be32 w)" for v w
    using plain_tlvs_option [of 8 10 "be32 v @ be32 w"] by (simp del: plain_tlvs.simps)
  have m: "writes mx b (opt_mss opts task mx b)"
    using writes_put [OF len mss] writes_refl [OF len] by (simp add: opt_mss_def)
  have w: "writes mx c (opt_window_scale opts mx c)" if "length c \<le> mx" for c
    using that by (auto simp: opt_window_scale_def intro: writes_put writes_refl)
  have s: "writes mx c (opt_sack opts mx c)" if "length c \<le> mx" for c
    using that by (auto simp: opt_sack_def intro: writes_put writes_refl)
  have t: "writes mx c (opt_timestamp opts task mx c)" if "length c \<le> mx" for c
    using writes_put [OF that ts] writes_refl [OF that] by (simp add: opt_timestamp_def)
  have "writes mx b (opt_timestamp opts task mx (opt_sack opts mx (opt_window_scale opts mx (opt_mss opts task mx b))))"
    by (rule writes_trans [OF _ t], rule writes_trans [OF _ s], rule writes_trans [OF m w])
      (use m w s writes_length in blast)+
  then show ?thesis by (simp add: base_options_def)
qed

interpretation base: option_writer base_options "\<lambda>_. True"
  by unfold_locales (use base_writes writes_length in blast)+

interpretation mptcp: option_writer "\<lambda>opts _. opt_mptcp opts" "\<lambda>_. True"
proof
  fix opts mx r and b :: bytes
  assume len: "length b \<le> mx"
  have "plain_tlvs ([30, 12, 0x01, 0x00] @ be32 v @ be32 w)" for v w
    using plain_tlvs_option [of 30 12 "[0x01, 0x00] @ be32 v @ be32 w"] by (simp del: plain_tlvs.simps)
  then show "writes mx b (fst (opt_mptcp opts mx (b, r)))"
    using len by (auto simp: opt_mptcp_def simp del: plain_tlvs.simps append.simps intro: writes_refl writes_append)
qed (simp add: opt_mptcp_def)

interpretation tcp_ao: option_writer "\<lambda>opts _. opt_tcp_ao opts" "\<lambda>_. True"
proof
  fix opts :: tcp_build_options and mx r and b :: bytes
  assume len: "length b \<le> mx" "mx \<le> 40"
  let ?m = "unat (tcp_ao_mac_len opts)"
  let ?ao = "[29, of_nat (4 + ?m), tcp_ao_keyid opts, tcp_ao_rnextkeyid opts] @ rng_bytes ?m r"
  show "writes mx b (fst (opt_tcp_ao opts mx (b, r)))"
  proof (cases "use_tcp_ao opts \<and> length b + (4 + ?m) \<le> mx \<and> length b + (4 + ?m) \<le> OPTIONS_STACK_CAP")
    case True
    then have "plain_tlvs ?ao"
      using len plain_tlvs_option [of 29 "4 + ?m" "[tcp_ao_keyid opts, tcp_ao_rnextkeyid opts] @ rng_bytes ?m r"]
      by (simp del: plain_tlvs.simps of_nat_add)
    then have "writes mx b (b @ ?ao)" using True by (intro writes_append) (simp_all del: plain_tlvs.simps of_nat_add)
    then show ?thesis using True by (simp add: opt_tcp_ao_def Let_def del: of_nat_add)
  qed (use len in \<open>auto simp: opt_tcp_ao_def Let_def intro: writes_refl\<close>)
qed (simp add: opt_tcp_ao_def Let_def)

text \<open>The cookie never outgrows \<open>cookie_data[1024]\<close>, also when the available space has wrapped around.\<close>

lemma length_hex_bytes: "length (hex_bytes n s) \<le> n"
  by (induction n s rule: hex_bytes.induct) auto

lemma cookie_random_le: "cookie_random opts task space \<le> space"
  by (simp add: cookie_random_def Let_def)

lemma length_num_cookie: "length (num_cookie num n) \<le> n"
  by (simp add: num_cookie_def)

lemma cookie_bound: "length (fst (cookie_data opts task mx n r)) \<le> OPTIONS_STACK_CAP"
proof -
  define avail where "avail = size_sub (size_sub mx n) 3"
  define space where "space = min avail OPTIONS_STACK_CAP"
  have le: "space \<le> OPTIONS_STACK_CAP" by (simp add: space_def)
  have hex: "length (hex_bytes (min k (min (avail div 2) OPTIONS_STACK_CAP)) s) \<le> OPTIONS_STACK_CAP" for k s
    using length_hex_bytes [of "min k (min (avail div 2) OPTIONS_STACK_CAP)" s] by linarith
  show ?thesis
    unfolding cookie_data_def Let_def avail_def [symmetric] space_def [symmetric]
    using hex order_trans [OF cookie_random_le le] order_trans [OF length_num_cookie le] le by (simp add: min.coboundedI2)
qed

interpretation tfo: option_writer opt_tfo "\<lambda>opts. \<not> intentional_malformed opts"
proof
  fix opts task mx r and b :: bytes
  assume ok: "\<not> intentional_malformed opts" and len: "length b \<le> mx" "mx \<le> 40"
  obtain c r' where c: "cookie_data opts task mx (length b) r = (c, r')" by (cases "cookie_data opts task mx (length b) r")
  let ?o = "[34, of_nat (3 + length c), 0xF9] @ c"
  show "writes mx b (fst (opt_tfo opts task mx (b, r)))"
  proof (cases "length b + (3 + length c) \<le> mx")
    case True
    then have "plain_tlvs ?o"
      using len plain_tlvs_option [of 34 "3 + length c" "0xF9 # c"] by (simp del: plain_tlvs.simps of_nat_add)
    then have "writes mx b (b @ ?o)" using True by (intro writes_append) (simp_all del: plain_tlvs.simps of_nat_add)
    then show ?thesis using ok c len writes_refl [of b mx] by (simp add: opt_tfo_def Let_def del: of_nat_add)
  qed (use ok c len in \<open>auto simp: opt_tfo_def Let_def intro: writes_refl\<close>)
qed (auto simp: opt_tfo_def Let_def put_within_def split: prod.split)

lemma nops_room:
  assumes "length b \<le> mx" and "mx \<le> OPTIONS_STACK_CAP"
  shows "\<exists>n. n \<le> mx - length b \<and> opt_nops opts task mx b = b @ replicate n 1"
proof -
  define n where "n = (let n = unat (task_nops_count task); room = size_sub mx (length b);
      n = (if \<not> intentional_malformed opts \<and> length b + n > mx then room else n);
      n = min n room in min n (size_sub OPTIONS_STACK_CAP (length b)))"
  have "n \<le> mx - length b"
    using assms size_sub_le [of "length b" mx] by (simp add: n_def Let_def)
  moreover have "opt_nops opts task mx b = b @ replicate (if task_nops_count task > 0 then n else 0) 1"
    by (simp add: opt_nops_def n_def Let_def)
  ultimately show ?thesis by (metis zero_le)
qed

lemma nops_writes: "length b \<le> mx \<Longrightarrow> mx \<le> OPTIONS_STACK_CAP \<Longrightarrow> writes mx b (opt_nops opts task mx b)"
  using nops_room [of b mx opts task] by (auto simp: writes_def plain_tlvs_nops)

lemma nop_align_writes: "length b \<le> mx \<Longrightarrow> writes mx b (nop_align mx b)"
proof (induction mx b rule: nop_align.induct)
  case (1 mx b)
  show ?case
  proof (cases "length b mod 4 \<noteq> 0 \<and> length b < mx \<and> length b < OPTIONS_STACK_CAP")
    case True
    have "writes mx b (b @ [1])" using True by (intro writes_append) simp_all
    moreover have "writes mx (b @ [1]) (nop_align mx (b @ [1]))" using 1 True by simp
    ultimately show ?thesis using True by (subst nop_align.simps) (auto intro: writes_trans)
  next
    case False
    then show ?thesis using "1.prems" by (subst nop_align.simps) (auto intro: writes_refl)
  qed
qed

lemma nop_align_mod: "length b \<le> 40 \<Longrightarrow> length (nop_align 40 b) mod 4 = 0"
proof (induction "40 :: nat" b rule: nop_align.induct)
  case (1 b)
  show ?case
  proof (cases "length b mod 4 \<noteq> 0")
    case True
    then have "length b \<noteq> 40" by auto
    with 1 True show ?thesis by (subst nop_align.simps) simp
  next
    case False
    then show ?thesis by (subst nop_align.simps) simp
  qed
qed

lemma tcp_options_area:
  assumes "\<not> intentional_malformed opts"
  shows "length (fst (tcp_options opts task buffer_size r)) \<le> 40"
    and "length (fst (tcp_options opts task buffer_size r)) mod 4 = 0"
    and "plain_tlvs (fst (tcp_options opts task buffer_size r))"
proof -
  have mx: "max_tcp_options opts buffer_size = 40" using assms by (simp add: max_tcp_options_def)
  define s0 where "s0 = base_options opts task 40 ([], r)"
  define s where "s = opt_tfo opts task 40 (opt_tcp_ao opts 40 (opt_mptcp opts 40 s0))"
  define b where "b = (if null_or_xmas task \<and> \<not> task_use_tfo_cookie task then [] else opt_nops opts task 40 (fst s))"
  have o: "tcp_options opts task buffer_size r = (nop_align 40 b, snd s)"
    using assms by (simp add: tcp_options_def mx s_def s0_def b_def base_options_def Let_def split: prod.split)
  have "length (fst s0) \<le> 40 \<and> plain_tlvs (fst s0)"
    unfolding s0_def by (rule base.keeps) simp_all
  then have "length (fst s) \<le> 40 \<and> plain_tlvs (fst s)"
    unfolding s_def by (intro tfo.keeps tcp_ao.keeps mptcp.keeps) (use assms in simp_all)
  then have b: "length b \<le> 40 \<and> plain_tlvs b"
    using writes_plain [OF nops_writes [of "fst s" 40 opts task]] by (simp add: b_def)
  with writes_plain [OF nop_align_writes [of b 40]] nop_align_mod [of b]
  show "length (fst (tcp_options opts task buffer_size r)) \<le> 40"
    and "length (fst (tcp_options opts task buffer_size r)) mod 4 = 0"
    and "plain_tlvs (fst (tcp_options opts task buffer_size r))"
    by (simp_all add: o)
qed

text \<open>
  C35. Unless a malformed Fast Open cookie is asked for, the options area of every packet is
  legal: at most 40 bytes, a multiple of four, and a receiver reads it as a sequence of options
  to its very end, whatever combination of MSS, window scale, SACK, timestamps, MPTCP, TCP-AO,
  Fast Open cookie and NOPs is configured and whichever of them had to be left out for room.
\<close>

theorem tcp_options_legal:
  assumes "\<not> intentional_malformed opts"
  shows "length (fst (tcp_options opts task buffer_size r)) \<le> 40 \<and>
    length (fst (tcp_options opts task buffer_size r)) mod 4 = 0 \<and>
    tcp_tlvs (fst (tcp_options opts task buffer_size r))"
  using tcp_options_area [OF assms] by (simp add: plain_tlvs_imp)

theorem tcp_options_legal_witness:
  "tcp_tlvs (fst (tcp_options (tcp_build_default\<lparr>use_tcp_mptcp := True, use_tcp_ao := True\<rparr>)
     ((packet_task_default 7)\<lparr>task_timestamp_val := 9, task_nops_count := 3\<rparr>) 2048 (\<lambda>i. of_nat i)))"
  using tcp_options_legal [of "tcp_build_default\<lparr>use_tcp_mptcp := True, use_tcp_ao := True\<rparr>"
      "(packet_task_default 7)\<lparr>task_timestamp_val := 9, task_nops_count := 3\<rparr>" 2048 "\<lambda>i. of_nat i"]
  by (simp add: intentional_malformed_def tcp_build_default_def)

text \<open>
  Memory safety of the options area, malformed cookies included: whatever is configured, the
  bytes written stay within the limit the code computes, the limit within the 1024 bytes of
  \<open>options\<close>, and the cookie within the 1024 bytes of \<open>cookie_data\<close>.
\<close>

theorem tcp_options_fit:
  "length (fst (tcp_options opts task buffer_size r)) \<le> max_tcp_options opts buffer_size \<and>
   max_tcp_options opts buffer_size \<le> OPTIONS_STACK_CAP \<and>
   length (fst (cookie_data opts task mx n r)) \<le> OPTIONS_STACK_CAP"
proof -
  define mx where "mx = max_tcp_options opts buffer_size"
  have mx: "mx \<le> OPTIONS_STACK_CAP" unfolding mx_def by (rule max_tcp_options_le)
  define s0 where "s0 = base_options opts task mx ([], r)"
  define s where "s = opt_tfo opts task mx (opt_tcp_ao opts mx (opt_mptcp opts mx s0))"
  define b where "b = (if null_or_xmas task \<and> \<not> task_use_tfo_cookie task then [] else opt_nops opts task mx (fst s))"
  have o: "fst (tcp_options opts task buffer_size r) = (if \<not> intentional_malformed opts then nop_align mx b else opt_garbage mx b)"
    by (simp add: tcp_options_def mx_def s_def s0_def b_def base_options_def Let_def split: prod.split)
  have "length (fst s0) \<le> mx" unfolding s0_def by (rule base.within [OF mx]) simp
  then have "length (fst s) \<le> mx"
    unfolding s_def by (intro tfo.within tcp_ao.within mptcp.within mx)
  then have "length b \<le> mx"
    using nops_writes [of "fst s" mx opts task] mx by (simp add: b_def writes_length)
  moreover have "min 100 (min (mx - length b) k) \<le> mx - length b" for k by linarith
  ultimately have "length (opt_garbage mx b) \<le> mx" and "length b \<le> mx"
    using mx size_sub_le [of "length b" mx] by (auto simp: opt_garbage_def le_diff_conv2 add.commute)
  then have "length (fst (tcp_options opts task buffer_size r)) \<le> mx"
    using nop_align_writes [of b mx] by (simp add: o writes_length)
  with mx show ?thesis using cookie_bound unfolding mx_def by blast
qed

section \<open>Hexadecimal cookies\<close>

definition hex_char :: "nat \<Rightarrow> char" where
  "hex_char d = (if d < 10 then char_of (48 + d) else char_of (87 + d))"

definition print_hex :: "bytes \<Rightarrow> string" where
  "print_hex bs = concat (map (\<lambda>b. [hex_char (unat b div 16), hex_char (unat b mod 16)]) bs)"

lemma of_char_hex: "d < 16 \<Longrightarrow> (of_char (hex_char d) :: nat) = (if d < 10 then 48 + d else 87 + d)"
  by (simp add: hex_char_def)

lemma hex_char_facts:
  assumes "d < 16"
  shows "digit_value (hex_char d) = Some d" and "\<not> is_space (hex_char d)"
    and "hex_char d \<noteq> CHR ''-''" and "hex_char d \<noteq> CHR ''+''"
proof -
  show "digit_value (hex_char d) = Some d" and "\<not> is_space (hex_char d)"
    using of_char_hex [OF assms] assms by (auto simp: digit_value_def is_space_def Let_def)
  have "(of_char (hex_char d) :: nat) \<noteq> of_char (CHR ''-'')" and "(of_char (hex_char d) :: nat) \<noteq> of_char (CHR ''+'')"
    using of_char_hex [OF assms] assms by auto
  then show "hex_char d \<noteq> CHR ''-''" and "hex_char d \<noteq> CHR ''+''" by metis+
qed

lemma stoul_hex_pair: "a < 16 \<Longrightarrow> b < 16 \<Longrightarrow> stoul 16 [hex_char a, hex_char b] = Inr (16 * a + b, 2)"
  by (simp add: stoul_def strto_def sign_prefix_def base_prefix_def hex_prefix_def is_digit_in_def
    digits_value_def hex_char_facts)

lemma hex_bytes_print: "hex_bytes n (print_hex bs) = take n bs"
proof (induction bs arbitrary: n)
  case Nil
  then show ?case by (cases n) (simp_all add: print_hex_def)
next
  case (Cons b bs)
  have "unat b div 16 < 16" using unat_u8 [of b] by (simp add: less_mult_imp_div_less)
  moreover have "unat b mod 16 < 16" by simp
  ultimately have "hex_byte [hex_char (unat b div 16), hex_char (unat b mod 16)] = b"
    by (simp add: hex_byte_def stoul_hex_pair)
  with Cons show ?case by (cases n) (simp_all add: print_hex_def)
qed

lemma length_print_hex: "length (print_hex bs) = 2 * length bs"
  by (induction bs) (simp_all add: print_hex_def)

lemma take_min_length: "take (min (length bs) k) bs = take k bs"
  by (simp add: min_def)

text \<open>
  A cookie given as hexadecimal digits, with the \<open>0x\<close> prefix, is decoded byte by byte; but
  it is cut to half the room left behind the option's three bytes, as if a byte of the cookie took
  the space of its two digits.
\<close>

theorem hex_cookie_decoded:
  assumes "\<not> task_tfo_cookie_random task" and "task_tfo_cookie_as_hex task"
    and "task_tfo_cookie_str task = ''0x'' @ print_hex bs"
    and "n + 3 + room = mx" and "mx \<le> 1024"
  shows "fst (cookie_data opts task mx n r) = take (room div 2) bs"
proof -
  have room: "size_sub (size_sub mx n) 3 = room" using assms(4,5) size_sub_le [of n mx] size_sub_le [of 3 "mx - n"] by simp
  have s: "even_hex (strip_0x (''0x'' @ print_hex bs)) = print_hex bs"
    by (simp add: even_hex_def strip_0x_def substr_from_def length_print_hex)
  have "min (room div 2) 1024 = room div 2" using assms(4,5) by simp
  with assms(1,2) show ?thesis
    unfolding cookie_data_def Let_def assms(3) s room by (simp add: hex_bytes_print length_print_hex take_min_length)
qed

theorem hex_cookie_decoded_witness:
  "fst (cookie_data tcp_build_default
     ((packet_task_default 7)\<lparr>task_tfo_cookie_as_hex := True, task_tfo_cookie_str := ''0x'' @ print_hex [1, 2, 3, 4]\<rparr>)
     40 32 (\<lambda>_. 0)) = [1, 2]"
  using hex_cookie_decoded [of "(packet_task_default 7)\<lparr>task_tfo_cookie_as_hex := True,
      task_tfo_cookie_str := ''0x'' @ print_hex [1, 2, 3, 4]\<rparr>" "[1, 2, 3, 4]" 32 5 40 tcp_build_default "\<lambda>_. 0"]
  by (simp add: packet_task_default_def)

end
