(* ===== verification/Checksum.thy ===== *)
theory Checksum
  imports Prelude
begin

text \<open>
  The TCP checksum as \<open>build_packet\<close> computes it (src/scan.cpp, lines 1529 to 1584) and the
  IPv4 header checksum of \<open>send_tcp_packets\<close> (lines 1864 to 1871), against the Internet
  checksum of RFC 1071. The code reads the packet as little-endian 16-bit words, the machine's
  order. It is shown when the result verifies at the receiver.
\<close>

section \<open>The code\<close>

text \<open>
  \<open>for (j = 0; j < words; ++j) sum += ptr16[j];\<close> and, for an odd length, the last byte. The
  two routines differ in how they add it.
\<close>

fun tcp_word_sum :: "bytes \<Rightarrow> u32" where
  "tcp_word_sum (a # b # bs) = (ucast a + 256 * ucast b) + tcp_word_sum bs"
| "tcp_word_sum [a] = push_bit 8 (ucast a)"
| "tcp_word_sum [] = 0"

fun ip_word_sum :: "bytes \<Rightarrow> u32" where
  "ip_word_sum (a # b # bs) = (ucast a + 256 * ucast b) + ip_word_sum bs"
| "ip_word_sum [a] = ucast a"
| "ip_word_sum [] = 0"

text \<open>\<open>sum = (sum >> 16) + (sum & 0xFFFF); sum += (sum >> 16);\<close>\<close>

definition fold_twice :: "u32 \<Rightarrow> u32" where
  "fold_twice s = (let s1 = drop_bit 16 s + and s 0xFFFF in s1 + drop_bit 16 s1)"

text \<open>The sum over the pseudo-header and the segment, folded and complemented: \<open>th_sum\<close>.\<close>

definition tcp_checksum :: "bytes \<Rightarrow> bytes \<Rightarrow> u16" where
  "tcp_checksum psh seg = not (ucast (fold_twice (tcp_word_sum psh + tcp_word_sum seg)))"

lemma unat_drop16: "unat (drop_bit 16 (s :: u32)) = unat s div 65536"
  by (simp only: unat_drop_bit_eq) (simp add: drop_bit_eq_div)

lemma unat_and16: "unat (and (s :: u32) 0xFFFF) = unat s mod 65536"
proof -
  have "and s 0xFFFF = take_bit 16 s" by (simp add: take_bit_eq_mask mask_eq_exp_minus_1)
  then have "unat (and s 0xFFFF) = take_bit 16 (unat s)" by (simp add: unsigned_take_bit_eq)
  then show ?thesis by (simp add: take_bit_eq_mod)
qed

lemma unat_fold_step: "unat (drop_bit 16 s + and (s :: u32) 0xFFFF) = unat s div 65536 + unat s mod 65536"
proof -
  have "unat s div 65536 < 65536" using unat_u32 [of s] by (simp add: less_mult_imp_div_less)
  then have "unat s div 65536 + unat s mod 65536 < 2 ^ 32" by (simp add: add_less_le_mono)
  then show ?thesis by (simp add: unat_word_ariths unat_drop16 unat_and16)
qed

text \<open>\<open>while (sum >> 16) sum = (sum & 0xFFFF) + (sum >> 16);\<close>\<close>

function fold_all :: "u32 \<Rightarrow> u32" where
  "fold_all s = (if drop_bit 16 s \<noteq> 0 then fold_all (drop_bit 16 s + and s 0xFFFF) else s)"
  by pat_completeness auto
termination
proof (relation "measure unat", simp)
  fix s :: u32
  assume "drop_bit 16 s \<noteq> 0"
  then have "0 < unat s div 65536" by (metis unat_drop16 neq0_conv unat_eq_0)
  moreover have "unat s = 65536 * (unat s div 65536) + unat s mod 65536" by simp
  ultimately show "(drop_bit 16 s + and s 0xFFFF, s) \<in> measure unat"
    unfolding in_measure unat_fold_step by linarith
qed

declare fold_all.simps [simp del]

definition ip_checksum :: "bytes \<Rightarrow> u16" where
  "ip_checksum hdr = not (ucast (fold_all (ip_word_sum hdr)))"

text \<open>Storing a checksum at an even offset of a segment or header, in the machine's byte order.\<close>

definition le16 :: "u16 \<Rightarrow> bytes" where
  "le16 w = [ucast w, ucast (drop_bit 8 w)]"

definition put_le16 :: "nat \<Rightarrow> u16 \<Rightarrow> bytes \<Rightarrow> bytes" where
  "put_le16 i w b = b[i := ucast w, Suc i := ucast (drop_bit 8 w)]"

section \<open>RFC 1071\<close>

text \<open>
  The sum of the big-endian words, an odd last byte padded with a zero byte, with end-around
  carry; a receiver accepts when it is all ones.
\<close>

fun be_sum :: "bytes \<Rightarrow> nat" where
  "be_sum (a # b # bs) = 256 * unat a + unat b + be_sum bs"
| "be_sum [a] = 256 * unat a"
| "be_sum [] = 0"

function carry_fold :: "nat \<Rightarrow> nat" where
  "carry_fold n = (if n < 65536 then n else carry_fold (n div 65536 + n mod 65536))"
  by pat_completeness auto
termination
proof (relation "measure id", simp)
  fix n :: nat
  assume "\<not> n < 65536"
  then have "0 < n div 65536" by simp
  moreover have "n = 65536 * (n div 65536) + n mod 65536" by simp
  ultimately show "(n div 65536 + n mod 65536, n) \<in> measure id" unfolding in_measure id_apply by linarith
qed

declare carry_fold.simps [simp del]

definition verifies :: "bytes \<Rightarrow> bool" where
  "verifies bs \<longleftrightarrow> carry_fold (be_sum bs) = 65535"

lemma carry_fold_mod: "carry_fold n mod 65535 = n mod 65535 \<and> carry_fold n < 65536 \<and> (carry_fold n = 0 \<longleftrightarrow> n = 0)"
proof (induction n rule: carry_fold.induct)
  case (1 n)
  show ?case
  proof (cases "n < 65536")
    case True
    then show ?thesis by (simp add: carry_fold.simps [of n])
  next
    case False
    define q r where "q = n div 65536" and "r = n mod 65536"
    have n: "n = 65535 * q + (q + r)" by (simp add: q_def r_def)
    have "(65535 * q + (q + r)) mod 65535 = (q + r) mod 65535" by (rule mod_mult_self4)
    then have "n mod 65535 = (q + r) mod 65535" using n by simp
    moreover have "q + r \<noteq> 0" "n \<noteq> 0" using False n by auto
    ultimately show ?thesis using 1 [OF False] False by (simp add: carry_fold.simps [of n] q_def r_def)
  qed
qed

lemma verifies_iff: "verifies bs \<longleftrightarrow> be_sum bs \<noteq> 0 \<and> be_sum bs mod 65535 = 0"
proof -
  let ?c = "carry_fold (be_sum bs)"
  have "?c = 65535 \<longleftrightarrow> ?c \<noteq> 0 \<and> ?c mod 65535 = 0" if "?c < 65536"
  proof -
    have "?c \<noteq> 0 \<and> ?c mod 65535 = 0 \<Longrightarrow> ?c = 65535"
      using that by (cases "?c < 65535") auto
    then show ?thesis by auto
  qed
  then show ?thesis using carry_fold_mod [of "be_sum bs"] by (auto simp: verifies_def)
qed

section \<open>Little-endian sums\<close>

fun le_sum :: "bytes \<Rightarrow> nat" where
  "le_sum (a # b # bs) = unat a + 256 * unat b + le_sum bs"
| "le_sum [a] = unat a"
| "le_sum [] = 0"

text \<open>Swapping the bytes of every word multiplies the sum by 256, in arithmetic modulo 65535.\<close>

lemma le_be_sum: "(256 * be_sum bs) mod 65535 = le_sum bs mod 65535"
proof (induction bs rule: be_sum.induct)
  case (1 a b bs)
  have "256 * be_sum (a # b # bs) = 65535 * unat a + (unat a + 256 * unat b + 256 * be_sum bs)" by simp
  then have "(256 * be_sum (a # b # bs)) mod 65535 = (unat a + 256 * unat b + 256 * be_sum bs) mod 65535"
    by (metis mod_mult_self4)
  also have "\<dots> = (unat a + 256 * unat b + le_sum bs) mod 65535" using 1 by (metis mod_add_right_eq)
  finally show ?case by simp
next
  case (2 a)
  have "256 * be_sum [a] = 65535 * unat a + unat a" by simp
  then show ?case by (metis mod_mult_self4 le_sum.simps(2))
qed simp

lemma be_le_zero: "be_sum bs mod 65535 = 0 \<longleftrightarrow> le_sum bs mod 65535 = 0"
proof -
  have "256 * (256 * n) = 65535 * n + n" for n :: nat by simp
  then have "(256 * (256 * n)) mod 65535 = n mod 65535" for n :: nat by (metis mod_mult_self4)
  then have "(256 * n) mod 65535 = 0 \<Longrightarrow> n mod 65535 = 0" for n :: nat
    by (metis mod_mult_right_eq mult_0_right mod_0)
  then have "be_sum bs mod 65535 = 0 \<longleftrightarrow> (256 * be_sum bs) mod 65535 = 0"
    by (metis mod_mult_right_eq mult_0_right mod_0)
  then show ?thesis by (simp add: le_be_sum)
qed

lemma be_le_null: "be_sum bs = 0 \<longleftrightarrow> le_sum bs = 0"
  by (induction bs rule: be_sum.induct) auto

lemma verifies_le: "verifies bs \<longleftrightarrow> le_sum bs \<noteq> 0 \<and> le_sum bs mod 65535 = 0"
  by (simp add: verifies_iff be_le_zero be_le_null)

lemma le_sum_append: "even (length a) \<Longrightarrow> le_sum (a @ b) = le_sum a + le_sum b"
  by (induction a rule: le_sum.induct) auto

lemma unat_le16: "unat (ucast w :: u8) + 256 * unat (ucast (drop_bit 8 w) :: u8) = unat (w :: u16)"
proof -
  have "unat (drop_bit 8 w) = unat w div 256" by (simp only: unat_drop_bit_eq) (simp add: drop_bit_eq_div)
  moreover have "unat w div 256 < 256" using unat_u16 [of w] by (simp add: less_mult_imp_div_less)
  ultimately show ?thesis by (simp add: unsigned_ucast_eq take_bit_eq_mod)
qed

lemma split_at_field:
  assumes "i + 2 \<le> length b"
  shows "b = take i b @ [b ! i, b ! Suc i] @ drop (i + 2) b"
  using assms id_take_nth_drop [of i b] Cons_nth_drop_Suc [of "Suc i" b] by simp

lemma le_sum_put:
  assumes "even i" and "i + 2 \<le> length b" and "b ! i = 0" and "b ! Suc i = 0"
  shows "le_sum (put_le16 i w b) = le_sum b + unat w"
proof -
  have b: "b = take i b @ [0, 0] @ drop (i + 2) b" using split_at_field [OF assms(2)] assms(3,4) by simp
  have "put_le16 i w b = take i b @ [ucast w, ucast (drop_bit 8 w)] @ drop (i + 2) b"
    unfolding put_le16_def by (subst (1) b) (use assms(2) in \<open>simp add: list_update_append\<close>)
  moreover have "even (length (take i b))" using assms by simp
  moreover have "le_sum b = le_sum (take i b) + le_sum (drop (i + 2) b)"
    using calculation(2) by (subst b) (simp add: le_sum_append)
  ultimately show ?thesis by (simp add: le_sum_append unat_le16 [of w, symmetric])
qed

section \<open>The code's sums\<close>

abbreviation (input) odd_extra :: "bytes \<Rightarrow> nat" where
  "odd_extra bs \<equiv> (if odd (length bs) then 255 * unat (last bs) else 0)"

lemma sum_bound: "le_sum bs + odd_extra bs \<le> 65535 * ((length bs + 1) div 2)"
proof (induction bs rule: le_sum.induct)
  case (1 a b bs)
  have "unat a + 256 * unat b \<le> 65535" using unat_u8 [of a] unat_u8 [of b] by linarith
  with 1 show ?case by (cases bs) auto
next
  case (2 a)
  then show ?case using unat_u8 [of a] by simp
qed simp

lemma sum_small: "length bs \<le> 131070 \<Longrightarrow> le_sum bs + odd_extra bs < 2 ^ 32"
proof -
  assume "length bs \<le> 131070"
  then have "(length bs + 1) div 2 \<le> 65535" by simp
  then have "65535 * ((length bs + 1) div 2) \<le> 65535 * 65535" by (rule mult_le_mono2)
  with sum_bound [of bs] show ?thesis by simp
qed

lemma unat_word2: "unat (ucast (a :: u8) + 256 * ucast (b :: u8) :: u32) = unat a + 256 * unat b"
  using unat_u8 [of a] unat_u8 [of b]
  by (simp add: unat_word_ariths unsigned_ucast_eq take_bit_nat_eq_self)

lemma unat_tcp_word_sum:
  "length bs \<le> 131070 \<Longrightarrow> unat (tcp_word_sum bs) = le_sum bs + odd_extra bs"
proof (induction bs rule: tcp_word_sum.induct)
  case (1 a b bs)
  then have ih: "unat (tcp_word_sum bs) = le_sum bs + odd_extra bs" by simp
  have "odd_extra (a # b # bs) = odd_extra bs" by (cases bs) auto
  then have "unat a + 256 * unat b + (le_sum bs + odd_extra bs) < 2 ^ 32"
    using sum_small [OF "1.prems"] by simp
  then show ?case
    using ih by (cases bs) (simp_all add: unat_plus_simple [THEN iffD1, OF no_olen_add_nat [THEN iffD2]] unat_word2)
next
  case (2 a)
  then show ?case
    using unat_u8 [of a] by (simp add: push_bit_eq_mult unat_word_ariths unsigned_ucast_eq take_bit_nat_eq_self)
qed simp

lemma unat_ip_word_sum: "length bs \<le> 131070 \<Longrightarrow> unat (ip_word_sum bs) = le_sum bs"
proof (induction bs rule: ip_word_sum.induct)
  case (1 a b bs)
  then have ih: "unat (ip_word_sum bs) = le_sum bs" by simp
  have "unat a + 256 * unat b + le_sum bs < 2 ^ 32" using sum_small [OF "1.prems"] by simp
  then show ?case
    using ih by (simp add: unat_plus_simple [THEN iffD1, OF no_olen_add_nat [THEN iffD2]] unat_word2)
next
  case (2 a)
  then show ?case using unat_u8 [of a] by (simp add: unsigned_ucast_eq take_bit_nat_eq_self)
qed simp

lemma unat_fold_all: "unat (fold_all s) = carry_fold (unat s)"
proof (induction s rule: fold_all.induct)
  case (1 s)
  have "drop_bit 16 s = 0 \<longleftrightarrow> unat s < 65536"
    using unat_drop16 [of s] by (metis div_eq_0_iff unat_eq_0 zero_neq_numeral)
  with 1 show ?case
    using carry_fold.simps [of "unat s"] by (subst fold_all.simps) (auto simp: unat_fold_step)
qed

lemma unat_fold_twice: "unat (ucast (fold_twice s) :: u16) = carry_fold (unat s)"
proof -
  define s1 where "s1 = drop_bit 16 s + and s 0xFFFF"
  define n where "n = unat s div 65536 + unat s mod 65536"
  have s1: "unat s1 = n" unfolding s1_def n_def by (rule unat_fold_step)
  have "unat s div 65536 < 65536" using unat_u32 [of s] by (simp add: less_mult_imp_div_less)
  then have n: "n \<le> 131070" by (simp add: n_def)
  have "unat (fold_twice s) = n + n div 65536"
    using n s1 by (simp add: fold_twice_def s1_def [symmetric] unat_word_ariths unat_drop16)
  then have f: "unat (ucast (fold_twice s) :: u16) = (n + n div 65536) mod 65536"
    by (simp add: unsigned_ucast_eq take_bit_eq_mod)
  have "carry_fold (unat s) = carry_fold n"
    by (cases "unat s < 65536") (simp_all add: n_def carry_fold.simps [of "unat s"])
  also have "\<dots> = (n + n div 65536) mod 65536"
  proof (cases "n < 65536")
    case True
    then show ?thesis by (simp add: carry_fold.simps [of n])
  next
    case False
    then obtain m where m: "n = 65536 + m" by (metis le_add_diff_inverse not_less)
    have "(65536 + m) div 65536 = 1" using m n by (subst div_add_self1) simp_all
    moreover have "(65536 + (m + 1)) mod 65536 = m + 1" using m n by (subst mod_add_self1) simp
    ultimately show ?thesis
      using m n by (simp add: carry_fold.simps [of "65536 + m"] carry_fold.simps [of "Suc m"])
  qed
  finally show ?thesis using f by simp
qed

lemma unat_not16: "unat (not w :: u16) = 65535 - unat w"
proof -
  have "not w = -1 - w" by (simp add: not_eq_complement)
  then show ?thesis by (simp add: unat_sub [OF word_n1_ge] unsigned_minus_1_eq_mask mask_eq_exp_minus_1)
qed

section \<open>When the checksums verify\<close>

text \<open>The complement of the folded sum brings the sum to a multiple of 65535 that is not 0.\<close>

lemma complement_sum:
  "(n + (65535 - carry_fold n)) mod 65535 = 0 \<and> n + (65535 - carry_fold n) \<noteq> 0"
proof -
  have c: "carry_fold n mod 65535 = n mod 65535" "carry_fold n < 65536" "carry_fold n = 0 \<longleftrightarrow> n = 0"
    using carry_fold_mod [of n] by auto
  have "(n + (65535 - carry_fold n)) mod 65535 = (carry_fold n + (65535 - carry_fold n)) mod 65535"
    using c(1) by (metis mod_add_left_eq)
  then show ?thesis using c by auto
qed

lemma odd_byte_mod:
  assumes "unat (a :: u8) \<noteq> 0" and "(n + 255 * unat a) mod 65535 = 0"
  shows "n mod 65535 \<noteq> 0"
proof
  assume "n mod 65535 = 0"
  then have "(255 * unat a) mod 65535 = 0" using assms(2) by (metis add_0 mod_add_left_eq)
  moreover have "255 * unat a < 65535" using unat_u8 [of a] by simp
  ultimately show False using assms(1) by simp
qed

lemma tcp_sum_verifies:
  assumes "even (length psh)" and "18 \<le> length seg" and "length psh + length seg \<le> 65536"
    and "seg ! 16 = 0" and "seg ! 17 = 0"
  shows "verifies (psh @ put_le16 16 (tcp_checksum psh seg) seg) \<longleftrightarrow> even (length seg) \<or> last seg = 0"
proof -
  define c where "c = tcp_checksum psh seg"
  define n where "n = le_sum psh + le_sum seg + odd_extra seg"
  have "unat (tcp_word_sum psh) = le_sum psh" and "unat (tcp_word_sum seg) = le_sum seg + odd_extra seg"
    using assms by (simp_all add: unat_tcp_word_sum)
  moreover have "n < 2 ^ 32"
  proof -
    have "n \<le> 65535 * ((length psh + 1) div 2) + 65535 * ((length seg + 1) div 2)"
      using add_mono [OF sum_bound [of psh] sum_bound [of seg]] assms(1) by (simp add: n_def)
    also have "\<dots> = 65535 * ((length psh + 1) div 2 + (length seg + 1) div 2)" by simp
    also have "\<dots> \<le> 65535 * 32769" using assms(1,3) by (intro mult_le_mono2) presburger
    finally show ?thesis by simp
  qed
  ultimately have "unat (tcp_word_sum psh + tcp_word_sum seg) = n"
    by (simp add: unat_word_ariths n_def)
  then have c: "unat c = 65535 - carry_fold n"
    by (simp add: c_def tcp_checksum_def unat_not16 unat_fold_twice)
  have t: "le_sum (psh @ put_le16 16 c seg) = le_sum psh + le_sum seg + unat c"
    using assms by (simp add: le_sum_append le_sum_put)
  show ?thesis
  proof (cases "even (length seg) \<or> last seg = 0")
    case True
    then have "n = le_sum psh + le_sum seg" by (auto simp: n_def)
    then show ?thesis using complement_sum [of n] True by (simp add: verifies_le t c c_def [symmetric])
  next
    case False
    have "le_sum psh + le_sum seg + unat c + 255 * unat (last seg) = n + (65535 - carry_fold n)"
      using False c by (simp add: n_def)
    then have "(le_sum psh + le_sum seg + unat c) mod 65535 \<noteq> 0"
      using False odd_byte_mod [of "last seg" "le_sum psh + le_sum seg + unat c"] complement_sum [of n]
      by (simp add: unat_eq_0)
    then show ?thesis using False by (simp add: verifies_le t c_def [symmetric])
  qed
qed

text \<open>
  C36. The TCP checksum that \<open>build_packet\<close> writes is accepted by a receiver exactly when the
  segment has even length or ends in a zero byte. The pseudo-header has even length; the checksum
  field holds 0 while the sum is taken.
\<close>

theorem tcp_checksum_verifies:
  assumes "even (length psh)" and "18 \<le> length seg" and "length psh + length seg \<le> 65536"
    and "seg ! 16 = 0" and "seg ! 17 = 0"
  shows "verifies (psh @ put_le16 16 (tcp_checksum psh seg) seg) \<longleftrightarrow> even (length seg) \<or> last seg = 0"
  using assms by (rule tcp_sum_verifies)

theorem tcp_checksum_verifies_witness:
  "verifies ([10, 0, 0, 1] @ put_le16 16 (tcp_checksum [10, 0, 0, 1] (replicate 20 0)) (replicate 20 0)) \<and>
   \<not> verifies ([10, 0, 0, 1] @ put_le16 16 (tcp_checksum [10, 0, 0, 1] (replicate 20 0 @ [65])) (replicate 20 0 @ [65]))"
proof -
  have nth: "(replicate 20 0 @ [65 :: u8]) ! 16 = 0" "(replicate 20 0 @ [65 :: u8]) ! 17 = 0"
    by (simp_all add: nth_append)
  show ?thesis
    using tcp_checksum_verifies [of "[10, 0, 0, 1]" "replicate 20 0"]
      tcp_checksum_verifies [of "[10, 0, 0, 1]" "replicate 20 0 @ [65]"] nth by simp
qed

lemma ip_sum_verifies:
  assumes "12 \<le> length hdr" and "length hdr \<le> 65536" and "hdr ! 10 = 0" and "hdr ! 11 = 0"
  shows "verifies (put_le16 10 (ip_checksum hdr) hdr)"
proof -
  have "unat (ip_checksum hdr) = 65535 - carry_fold (le_sum hdr)"
  proof -
    have "carry_fold (le_sum hdr) < 65536" using carry_fold_mod by blast
    then show ?thesis
      using assms by (simp add: ip_checksum_def unat_not16 unsigned_ucast_eq unat_fold_all unat_ip_word_sum take_bit_nat_eq_self)
  qed
  then have "le_sum (put_le16 10 (ip_checksum hdr) hdr) = le_sum hdr + (65535 - carry_fold (le_sum hdr))"
    using assms by (simp add: le_sum_put)
  then show ?thesis using complement_sum [of "le_sum hdr"] by (simp add: verifies_le)
qed

text \<open>
  The IPv4 header checksum of a fragment always verifies, at any header length: that routine
  adds an odd last byte without shifting it.
\<close>

theorem ip_checksum_verifies:
  assumes "12 \<le> length hdr" and "length hdr \<le> 65536" and "hdr ! 10 = 0" and "hdr ! 11 = 0"
  shows "verifies (put_le16 10 (ip_checksum hdr) hdr)"
  using assms by (rule ip_sum_verifies)

theorem ip_checksum_verifies_witness:
  "verifies (put_le16 10 (ip_checksum (0x45 # replicate 19 0)) (0x45 # replicate 19 0))"
  using ip_checksum_verifies [of "0x45 # replicate 19 0"] by simp

section \<open>checksum() of src/utils.cpp\<close>

text \<open>
  The routine adds the leading blocks of 32 bytes (AVX2) or 16 bytes (SSE2) with \<open>sad_epu8\<close>,
  which sums single bytes, and only the rest as 16-bit words; \<open>blk\<close> is the block size of the
  build, 0 without vector instructions. The 64-bit accumulator cannot overflow for an \<open>int\<close>
  length, so the sums are natural numbers.
\<close>

definition byte_sum :: "bytes \<Rightarrow> nat" where
  "byte_sum bs = sum_list (map unat bs)"

fun process_scalar_remainder :: "bytes \<Rightarrow> nat" where
  "process_scalar_remainder (a # b # bs) = (unat a + 256 * unat b) + process_scalar_remainder bs"
| "process_scalar_remainder [a] = 256 * unat a"
| "process_scalar_remainder [] = 0"

definition simd_len :: "nat \<Rightarrow> nat \<Rightarrow> nat" where
  "simd_len blk n = (if 0 < blk \<and> blk \<le> n then n - n mod blk else 0)"

definition checksum :: "nat \<Rightarrow> bytes \<Rightarrow> u16" where
  "checksum blk data =
     (let k = simd_len blk (length data);
          sum = byte_sum (take k data) + process_scalar_remainder (drop k data)
      in not (of_nat (carry_fold sum)))"

text \<open>The high bytes of the words, the part that the byte sum weighs with 1 instead of 256.\<close>

fun high_bytes :: "bytes \<Rightarrow> nat" where
  "high_bytes (a # b # bs) = unat b + high_bytes bs"
| "high_bytes _ = 0"

lemma le_byte_sum: "le_sum bs = byte_sum bs + 255 * high_bytes bs"
  by (induction bs rule: high_bytes.induct) (auto simp: byte_sum_def)

lemma scalar_le_sum: "even (length bs) \<Longrightarrow> process_scalar_remainder bs = le_sum bs"
  by (induction bs rule: le_sum.induct) auto

lemma simd_len_facts:
  assumes "even blk"
  shows "even (simd_len blk n)" and "simd_len blk n \<le> n"
proof -
  have "blk dvd n - n mod blk" by (simp add: minus_mod_eq_mult_div)
  from dvd_trans [OF assms this] show "even (simd_len blk n)"
    by (cases "0 < blk \<and> blk \<le> n") (simp_all only: simd_len_def if_True if_False dvd_0_right simp_thms)
  show "simd_len blk n \<le> n" by (simp add: simd_len_def)
qed

text \<open>
  \<open>checksum()\<close> on data of even length, whose checksum field holds 0: the result verifies
  exactly when the high bytes of the words in the vectorised part add up to a multiple of 257. So
  it always verifies in a build without vector instructions and below one block, and in general
  not with them.
\<close>

theorem simd_checksum_verifies:
  assumes "even blk" and "even (length data)" and "even i" and "i + 2 \<le> length data"
    and "data ! i = 0" and "data ! Suc i = 0"
  shows "verifies (put_le16 i (checksum blk data) data) \<longleftrightarrow>
    257 dvd high_bytes (take (simd_len blk (length data)) data)"
proof -
  define k where "k = simd_len blk (length data)"
  define h where "h = high_bytes (take k data)"
  define n where "n = byte_sum (take k data) + process_scalar_remainder (drop k data)"
  have k: "even k" "k \<le> length data" unfolding k_def by (rule simd_len_facts [OF assms(1)])+
  have "le_sum data = le_sum (take k data) + le_sum (drop k data)"
    using le_sum_append [of "take k data" "drop k data"] k by simp
  then have l: "le_sum data = n + 255 * h"
    using k assms(2) by (simp add: n_def h_def le_byte_sum [of "take k data"] scalar_le_sum)
  have c: "carry_fold n < 65536" using carry_fold_mod by blast
  have "unat (checksum blk data) = 65535 - carry_fold n"
    using c by (simp add: checksum_def Let_def unat_not16 unat_of_nat k_def [symmetric] n_def [symmetric])
  then have t: "le_sum (put_le16 i (checksum blk data) data) = (n + (65535 - carry_fold n)) + 255 * h"
    using assms l by (simp add: le_sum_put)
  have "((n + (65535 - carry_fold n)) + 255 * h) mod 65535 = 0 \<longleftrightarrow> (255 * h) mod 65535 = 0"
    using complement_sum [of n] by (metis add_0 mod_add_left_eq)
  also have "\<dots> \<longleftrightarrow> 255 * 257 dvd 255 * h" by (simp add: dvd_eq_mod_eq_0)
  also have "\<dots> \<longleftrightarrow> 257 dvd h" by (simp only: nat_mult_dvd_cancel_disj) simp
  finally show ?thesis using complement_sum [of n] by (auto simp: verifies_le t h_def k_def)
qed

theorem simd_checksum_verifies_witness:
  "\<not> verifies (put_le16 2 (checksum 16 [8, 0, 0, 0, 0, 7, 0, 0, 0, 0, 0, 0, 0, 0, 0, 0]) [8, 0, 0, 0, 0, 7, 0, 0, 0, 0, 0, 0, 0, 0, 0, 0]) \<and>
   verifies (put_le16 2 (checksum 0 [8, 0, 0, 0, 0, 7, 0, 0, 0, 0, 0, 0, 0, 0, 0, 0]) [8, 0, 0, 0, 0, 7, 0, 0, 0, 0, 0, 0, 0, 0, 0, 0])"
  using simd_checksum_verifies [of 16 "[8, 0, 0, 0, 0, 7, 0, 0, 0, 0, 0, 0, 0, 0, 0, 0]" 2]
    simd_checksum_verifies [of 0 "[8, 0, 0, 0, 0, 7, 0, 0, 0, 0, 0, 0, 0, 0, 0, 0]" 2]
  by (simp add: simd_len_def)

end
