(* ===== verification/Packet.thy ===== *)
theory Packet
  imports Tcp_Options Checksum
begin

text \<open>
  \<open>build_packet\<close> (src/scan.cpp, lines 902 to 1806) around the extension-header chain and the
  TCP options: the IP headers, the payload, the fragmentation step, the TCP header and its
  checksum, the checksum mutations and \<open>--packet-length\<close>. The packet is the list of its
  bytes. What the C++ sources leave to the library or leave undefined is a field of
  \<open>build_env\<close>: \<open>std::shuffle\<close>, \<open>std::uniform_int_distribution\<close>, the uninitialized byte
  of \<open>--chain unknown\<close>, a shift by a negative count. The block that records the packet for
  \<open>--debug-send\<close> does not change it and is not modelled.
\<close>

record build_env =
  env_shuffle :: "chain_entry list \<Rightarrow> rng \<Rightarrow> chain_entry list \<times> rng"
  env_uniform :: "nat \<Rightarrow> nat \<Rightarrow> rng \<Rightarrow> nat \<times> rng"
  env_stack_byte :: u8
  env_ub_shift :: "int \<Rightarrow> u16"

text \<open>The engine handed in, and the variables of the function that live as long as the thread.\<close>

record build_state =
  bs_rng :: rng
  bs_rnd :: rng
  bs_flow_counter :: u32
  bs_pattern_idx :: u8
  bs_walking_bit :: u8

text \<open>\<open>Overrun\<close>: the code goes on although the packet does not fit its buffer.\<close>

datatype build_result = Rejected | Overrun | Built bytes u16

record ip_params =
  ip_src :: bytes
  ip_src6 :: "bytes option"
  ip_id_of :: u16
  ip_win_size :: u16
  ip_ttl :: u8
  ip_dscp :: u8
  ip_flags :: u16

section \<open>The network header\<close>

definition fragmenting :: "tcp_build_options \<Rightarrow> bool" where
  "fragmenting opts \<longleftrightarrow> use_fragmentation opts \<or> mtu_size opts > 0"

definition ip_options :: "tcp_build_options \<Rightarrow> bytes" where
  "ip_options opts =
     (let b = (if use_ip_router_alert opts then put_within 40 [0x94, 0x04, 0x00, 0x00] [] else []);
          b = (if use_ip_security opts
               then put_within 40 ([0x82, 0x0B, ip_security_classification opts] @ replicate 8 0) b else b)
      in nop_align 40 b)"

definition wants_ext :: "ipv6_ext_options \<Rightarrow> bool" where
  "wants_ext v6 \<longleftrightarrow> use_hop_opts v6 \<or> use_dest_opts v6 \<or> use_route_hdr v6 \<or> use_ah v6 \<or> use_esp v6"

text \<open>What is known of the network header before the packet's length is.\<close>

datatype front = V4 bytes | V6 u8 bytes

fun ip_hdr_len :: "tcp_build_options \<Rightarrow> front \<Rightarrow> nat" where
  "ip_hdr_len opts (V4 ops) = 20 + length ops"
| "ip_hdr_len opts (V6 first chain) = 40 + length chain + (if fragmenting opts then 8 else 0)"

definition build_front :: "build_env \<Rightarrow> tcp_build_options \<Rightarrow> bool \<Rightarrow> nat \<Rightarrow> rng \<Rightarrow> front option \<times> rng" where
  "build_front env opts is_ipv6 buffer_size r =
     (if is_ipv6 \<and> wants_ext (ipv6_ext_opts opts) \<and> fragmenting opts then (None, r)
      else (let (fr, r') = (if is_ipv6
                  then (case build_ext_chain (env_shuffle env) (env_stack_byte env) (ipv6_ext_opts opts) r of
                    (first, chain, r') \<Rightarrow> (V6 first chain, r'))
                  else (V4 (ip_options opts), r))
        in (if buffer_size < ip_hdr_len opts fr + 20 then None else Some fr, r')))"

text \<open>The step in bytes between fragments; \<open>mtu_size\<close> below the header sizes wraps around.\<close>

definition frag_step :: "tcp_build_options \<Rightarrow> bool \<Rightarrow> u16" where
  "frag_step opts is_ipv6 =
     (if \<not> fragmenting opts then 0
      else if mtu_size opts > 0 then
        (let s = (mtu_size opts - (if is_ipv6 then 48 else 20)) div 8 * 8 in if s < 8 then 8 else s)
      else if is_ipv6 then (let s = frag_size opts div 8 * 8 in if s < 8 then 8 else s)
      else (let s = frag_size opts div 2 * 2 in if s < 2 then 2 else s))"

definition tos_byte :: "tcp_build_options \<Rightarrow> ip_params \<Rightarrow> u8" where
  "tos_byte opts p = (if use_ip_tos opts then custom_ip_tos_byte opts else push_bit 2 (ip_dscp p))"

definition ipv4_header :: "tcp_build_options \<Rightarrow> packet_task \<Rightarrow> ip_params \<Rightarrow> bytes \<Rightarrow> nat \<Rightarrow> bytes" where
  "ipv4_header opts task p ops len =
     [or 0x40 (of_nat ((20 + length ops) div 4)), tos_byte opts p] @ be16 (of_nat len) @ be16 (ip_id_of p) @
     be16 (if fragmenting opts then 0x2000 else ip_flags p) @ [ip_ttl p, 6, 0, 0] @
     ip_src p @ task_dest task @ ops"

definition flow_label :: "ipv6_ext_options \<Rightarrow> build_state \<Rightarrow> u32 \<times> build_state" where
  "flow_label v6 st =
     (if \<not> use_flow_label v6 then (0, st)
      else (case flow_mode v6 of
          FLOW_FIXED \<Rightarrow> (and (flow_value v6) 0xFFFFF, st)
        | FLOW_RANDOM \<Rightarrow> (and (bs_rng st 0) 0xFFFFF, st\<lparr>bs_rng := rng_skip 1 (bs_rng st)\<rparr>)
        | FLOW_INCREMENT \<Rightarrow>
            (and (bs_flow_counter st + 1) 0xFFFFF, st\<lparr>bs_flow_counter := bs_flow_counter st + 1\<rparr>)
        | FLOW_NONE \<Rightarrow> (0, st)))"

text \<open>
  The IPv6 header, the extension headers and the fragment header. \<open>IP6F_MORE_FRAG\<close> of
  netinet/ip6.h is 0x0100 on a little-endian machine, where it is the flag as it lies in memory;
  the code passes it through \<open>htons\<close> once more.
\<close>

abbreviation (input) IP6F_MORE_FRAG :: u16 where "IP6F_MORE_FRAG \<equiv> 0x0100"

definition src6 :: "ip_params \<Rightarrow> bytes" where
  "src6 p = (case ip_src6 p of Some a \<Rightarrow> a | None \<Rightarrow> replicate 16 0)"

definition ipv6_header ::
    "tcp_build_options \<Rightarrow> packet_task \<Rightarrow> ip_params \<Rightarrow> u8 \<Rightarrow> bytes \<Rightarrow> nat \<Rightarrow> build_state \<Rightarrow> bytes \<times> build_state" where
  "ipv6_header opts task p first chain len st =
     (let (label, st) = flow_label (ipv6_ext_opts opts) st;
          (nxt, frag, st) = (if fragmenting opts
            then (44, [6, 0] @ be16 IP6F_MORE_FRAG @ be32 (bs_rng st 0), st\<lparr>bs_rng := rng_skip 1 (bs_rng st)\<rparr>)
            else (first, [], st))
      in (be32 (or (or (push_bit 28 6) (push_bit 20 (ucast (tos_byte opts p)))) label) @
          be16 (of_nat (len - 40)) @ [nxt, ip_ttl p] @ src6 p @ task_dest6 task @ chain @ frag, st))"

section \<open>Payload\<close>

text \<open>The literal of the code ends at its first NUL, in front of the control characters listed after it.\<close>

definition payload_chars :: bytes where
  "payload_chars = map of_char
     (''ABCDEFGHIJKLMNOPQRSTUVWXYZabcdefghijklmnopqrstuvwxyz0123456789'' @
      ''!@#$%^&*()_+-=[]{}|;:,.<>?/~`'') @ [34, 92, 10, 13, 9]"

definition build_payload :: "tcp_build_options \<Rightarrow> packet_task \<Rightarrow> nat \<Rightarrow> nat \<Rightarrow> rng \<Rightarrow> bytes \<times> rng" where
  "build_payload opts task buffer_size opt_len r =
     (if use_custom_data opts \<and> custom_data opts \<noteq> [] then (map of_char (custom_data opts), r)
      else if generate_random_data opts \<and> data_length opts > 0 then
        (let n = min (unat (data_length opts)) (size_sub (size_sub (size_sub buffer_size 20) 20) opt_len) in
         (map (\<lambda>i. payload_chars ! (unat (r i) mod length payload_chars)) [0..<n], rng_skip n r))
      else (map of_char (task_data task), r))"

section \<open>TCP header and checksum\<close>

definition window_of :: "packet_task \<Rightarrow> u16 \<Rightarrow> u16" where
  "window_of task win =
     (if win > 0 \<and> task_scan_type task \<noteq> WINDOW then win
      else if task_scan_type task = WINDOW then 1024 else 65535)"

definition off_byte :: "nat \<Rightarrow> u8" where
  "off_byte n = push_bit 4 (of_nat n)"

definition tcp_segment :: "packet_task \<Rightarrow> ip_params \<Rightarrow> bytes \<Rightarrow> bytes \<Rightarrow> bytes" where
  "tcp_segment task p options payload =
     (let words = (20 + length options) div 4 in
      be16 (task_src_port task) @
      be16 (if task_is_ipv6 task then task_sin6_port task else task_sin_port task) @
      be32 (task_seq task) @ be32 (task_ack task) @
      [off_byte (if words > 15 then 15 else words), task_flags task] @
      be16 (window_of task (ip_win_size p)) @ [0, 0, 0, 0] @ options @ payload)"

definition pseudo_header :: "packet_task \<Rightarrow> ip_params \<Rightarrow> nat \<Rightarrow> bytes" where
  "pseudo_header task p len =
     (if task_is_ipv6 task then src6 p @ task_dest6 task @ be32 (of_nat len) @ [0, 0, 0, 6]
      else ip_src p @ task_dest task @ [0, 6] @ be16 (of_nat len))"

definition put_sum :: "u16 \<Rightarrow> bytes \<Rightarrow> bytes" where
  "put_sum w seg = put_le16 16 w seg"

definition normal_sum :: "packet_task \<Rightarrow> ip_params \<Rightarrow> bytes \<Rightarrow> u16" where
  "normal_sum task p seg = tcp_checksum (pseudo_header task p (length seg)) seg"

text \<open>\<open>htons\<close> and \<open>ntohs\<close>.\<close>

definition bswap16 :: "u16 \<Rightarrow> u16" where
  "bswap16 w = or (push_bit 8 w) (drop_bit 8 w)"

section \<open>--badsum and --partial-badsum\<close>

text \<open>\<open>uint16_t(1u << (n % 16))\<close> on an \<open>int\<close>; the remainder has the sign of \<open>n\<close>.\<close>

definition bit_of :: "build_env \<Rightarrow> int \<Rightarrow> u16" where
  "bit_of env n = (if 0 \<le> n then push_bit (nat (n mod 16)) 1
     else if (- n) mod 16 = 0 then 1 else env_ub_shift env (- ((- n) mod 16)))"

definition bad_patterns :: "u16 list" where
  "bad_patterns = [0x0000, 0xFFFF, 0x1234, 0x5678, 0x9ABC, 0xDEF0, 0xBEEF, 0xDEAD]"

definition sum_patterns :: "u16 list" where
  "sum_patterns = [0xC3C3, 0x9696, 0x5A5A, 0xA5A5, 0x3C3C, 0x6969]"

definition rnd_draw :: "build_state \<Rightarrow> u32 \<times> build_state" where
  "rnd_draw st = (bs_rnd st 0, st\<lparr>bs_rnd := rng_skip 1 (bs_rnd st)\<rparr>)"

definition bit_flip :: "build_env \<Rightarrow> u16 \<Rightarrow> build_state \<Rightarrow> u16 \<times> build_state" where
  "bit_flip env correct st = (let (v, st') = rnd_draw st in (xor correct (bit_of env (sint v)), st'))"

definition partial_badsum :: "build_env \<Rightarrow> string \<Rightarrow> packet_task \<Rightarrow> u16 \<Rightarrow> build_state \<Rightarrow> u16 \<times> build_state" where
  "partial_badsum env kind task correct st =
     (if kind = ''lower'' then (or (and correct 0xFF00) (and (xor correct 0x00FF) 0x00FF), st)
      else if kind = ''upper'' then (or (and correct 0x00FF) (and (xor correct 0xFF00) 0xFF00), st)
      else if kind = ''bitflip'' then bit_flip env correct st
      else if kind = ''middle'' then (xor correct 0x0FF0, st)
      else if kind = ''swap'' then (or (push_bit 8 correct) (drop_bit 8 correct), st)
      else if kind = ''incremental'' then (correct - 0x0100, st)
      else if kind = ''pattern'' then
        (xor correct (sum_patterns ! (unat (bs_pattern_idx st) mod length sum_patterns)),
         st\<lparr>bs_pattern_idx := bs_pattern_idx st + 1\<rparr>)
      else if kind = ''null'' then (0x0000, st)
      else if kind = ''msb'' then (xor correct 0x8000, st)
      else if kind = ''lsb3'' then (let (v, st') = rnd_draw st in (xor correct (ucast (and v 0x0007)), st'))
      else if kind = ''rfc1141'' then (xor correct 0x1000, st)
      else if kind = ''seq-tied'' then (xor correct (ucast (drop_bit 16 (task_seq task))), st)
      else if kind = ''port-tied'' then (xor correct (xor (task_src_port task) (task_sin_port task)), st)
      else if kind = ''timestamp-lie'' then
        (xor correct (ucast (and (drop_bit 16 (task_custom_timestamp task)) 0xFF)), st)
      else if kind = ''ones-complement'' then (not correct, st)
      else if kind = ''walking-bit'' then
        (xor correct (bit_of env (uint (bs_walking_bit st))), st\<lparr>bs_walking_bit := bs_walking_bit st + 1\<rparr>)
      else if kind = ''entropy'' then
        (let (v, r) = env_uniform env 0 0xFFFF (bs_rnd st) in (of_nat v, st\<lparr>bs_rnd := r\<rparr>))
      else if kind = ''valid-ish'' then (correct + 1, st)
      else if kind = ''carry-break'' then
        (let s = ucast correct + 0xFFFF :: u32; s = and s 0xFFFF + drop_bit 16 s in (ucast (and s 0xFFFF), st))
      else if kind = ''goodbye'' then (xor correct 0xFFFF, st)
      else bit_flip env correct st)"

text \<open>\<open>th_sum\<close> as it lies in the field, in the machine's byte order: what was computed, then the mutations.\<close>

definition mutate_sum :: "build_env \<Rightarrow> tcp_build_options \<Rightarrow> packet_task \<Rightarrow> u16 \<Rightarrow> build_state \<Rightarrow> u16 \<times> build_state" where
  "mutate_sum env opts task th_sum st =
     (if use_badsum opts then
        (if badsum_value_set opts then (bswap16 (custom_badsum_value opts), st)
         else (let (k, r) = env_uniform env 0 (length bad_patterns - 1) (bs_rng st)
           in (bswap16 (bad_patterns ! k), st\<lparr>bs_rng := r\<rparr>)))
      else if use_partial_badsum opts then
        (let (v, st') = partial_badsum env (partial_badsum_type opts) task (bswap16 th_sum) st in (bswap16 v, st'))
      else (th_sum, st))"

section \<open>--packet-length\<close>

text \<open>
  Padding with zeros up to the buffer or cutting payload and then options, on IPv4 only. The
  checksum is computed anew whatever it was before. \<open>hdr\<close> is the length of the IP header.
\<close>

definition adjust_length ::
    "tcp_build_options \<Rightarrow> packet_task \<Rightarrow> ip_params \<Rightarrow> nat \<Rightarrow> nat \<Rightarrow> nat \<Rightarrow> bytes \<Rightarrow> bytes" where
  "adjust_length opts task p buffer_size hdr options_len seg =
     (let tot = hdr + length seg; target = unat (pl_target_len (packet_length_cfg opts));
          resum = (\<lambda>seg. let seg0 = put_sum 0 seg in put_sum (normal_sum task p seg0) seg0)
      in if \<not> pl_enabled (packet_length_cfg opts) \<or> task_is_ipv6 task then seg
         else if target > tot then
           (let pad = min target buffer_size - tot in
            if pad > 0 \<and> tot + pad \<le> buffer_size then resum (seg @ replicate pad 0) else seg)
         else if target < tot \<and> target \<ge> hdr + 20 then
           (if target < hdr + 20 + options_len
            then (let n = max ((target - hdr) div 4 * 4) 20 in resum (take n (seg[12 := off_byte (n div 4)])))
            else resum (take (target - hdr) seg))
         else seg)"

section \<open>The whole function\<close>

text \<open>The options that fit: all of them, or what a malformed packet's buffer leaves.\<close>

definition fit_options :: "tcp_build_options \<Rightarrow> nat \<Rightarrow> nat \<Rightarrow> nat \<Rightarrow> nat \<Rightarrow> nat option" where
  "fit_options opts buffer_size hdr options_len data_len =
     (if hdr + 20 + options_len + data_len > buffer_size then
        (if intentional_malformed opts then
           (let max_options = size_sub buffer_size (hdr + 20 + data_len) in
            if max_options > 0 then Some (min options_len max_options) else None)
         else None)
      else Some options_len)"

definition network_header ::
    "tcp_build_options \<Rightarrow> packet_task \<Rightarrow> ip_params \<Rightarrow> front \<Rightarrow> nat \<Rightarrow> build_state \<Rightarrow> (nat \<Rightarrow> bytes) \<times> build_state" where
  "network_header opts task p fr len st =
     (case fr of
        V4 ops \<Rightarrow> (\<lambda>n. ipv4_header opts task p ops n, st)
      | V6 first chain \<Rightarrow> (let (h, st') = ipv6_header opts task p first chain len st in (\<lambda>_. h, st')))"

definition build_packet ::
    "build_env \<Rightarrow> packet_task \<Rightarrow> nat \<Rightarrow> ip_params \<Rightarrow> tcp_build_options \<Rightarrow> build_state \<Rightarrow> build_result \<times> build_state" where
  "build_packet env task buffer_size p opts st =
     (if buffer_size < 40 then (Rejected, st)
      else case build_front env opts (task_is_ipv6 task) buffer_size (bs_rng st) of
        (None, r) \<Rightarrow> (Rejected, st\<lparr>bs_rng := r\<rparr>)
      | (Some fr, r) \<Rightarrow>
        let (options, r) = tcp_options opts task buffer_size r;
            (payload, r) = build_payload opts task buffer_size (length options) r;
            st = st\<lparr>bs_rng := r\<rparr>; hdr = ip_hdr_len opts fr
        in case fit_options opts buffer_size hdr (length options) (length payload) of
             None \<Rightarrow> (Rejected, st)
           | Some options_len \<Rightarrow>
             let tot = hdr + 20 + options_len + length payload;
                 (header, st) = network_header opts task p fr tot st;
                 seg = tcp_segment task p (take options_len options) payload;
                 th_sum = (if use_manual_tcp_checksum opts then manual_tcp_checksum opts else normal_sum task p seg)
             in if tot > buffer_size then (Overrun, st)
                else (let (th_sum, st) = mutate_sum env opts task th_sum st;
                          seg = adjust_length opts task p buffer_size hdr options_len (put_sum th_sum seg)
                  in (Built (header (hdr + length seg) @ seg) (frag_step opts (task_is_ipv6 task)), st)))"

section \<open>Memory safety\<close>

lemma length_tcp_segment: "length (tcp_segment task p ops pl) = 20 + length ops + length pl"
  by (simp add: tcp_segment_def Let_def)

lemma length_put_sum [simp]: "length (put_sum w seg) = length seg"
  by (simp add: put_sum_def put_le16_def)

lemma size_sub_le_diff: "b \<le> a \<Longrightarrow> size_sub a b \<le> a - b"
  unfolding size_sub_def by (simp add: nat_le_iff of_nat_diff zmod_le_nonneg_dividend)

lemma fit_options_Some:
  assumes "fit_options opts buffer_size hdr n d = Some k"
  shows "k \<le> n" and "hdr + 20 + n + d \<le> buffer_size \<Longrightarrow> k = n"
    and "hdr + 20 + d \<le> buffer_size \<Longrightarrow> hdr + 20 + k + d \<le> buffer_size"
    and "hdr + 20 + k + d > buffer_size \<Longrightarrow> intentional_malformed opts"
proof -
  show "k \<le> n" and "hdr + 20 + n + d \<le> buffer_size \<Longrightarrow> k = n"
    and "hdr + 20 + k + d > buffer_size \<Longrightarrow> intentional_malformed opts"
    using assms by (auto simp: fit_options_def Let_def split: if_splits)
  assume "hdr + 20 + d \<le> buffer_size"
  then show "hdr + 20 + k + d \<le> buffer_size"
    using assms size_sub_le_diff [of "hdr + 20 + d" buffer_size]
    by (auto simp: fit_options_def Let_def split: if_splits)
qed

text \<open>The pieces of a built packet.\<close>

lemma build_packet_pieces:
  assumes "fst (build_packet env task n p opts st) = Built pkt step"
  obtains fr r options r' payload st0 options_len header st1 seg th_sum st2 where
    "build_front env opts (task_is_ipv6 task) n (bs_rng st) = (Some fr, r)"
    and "tcp_options opts task n r = (options, r')"
    and "payload = fst (build_payload opts task n (length options) r')"
    and "fit_options opts n (ip_hdr_len opts fr) (length options) (length payload) = Some options_len"
    and "ip_hdr_len opts fr + 20 + options_len + length payload \<le> n"
    and "network_header opts task p fr (ip_hdr_len opts fr + 20 + options_len + length payload) st0 = (header, st1)"
    and "seg = tcp_segment task p (take options_len options) payload"
    and "mutate_sum env opts task
      (if use_manual_tcp_checksum opts then manual_tcp_checksum opts else normal_sum task p seg) st1 = (th_sum, st2)"
    and "pkt = header (ip_hdr_len opts fr + length (adjust_length opts task p n (ip_hdr_len opts fr) options_len (put_sum th_sum seg)))
      @ adjust_length opts task p n (ip_hdr_len opts fr) options_len (put_sum th_sum seg)"
    and "step = frag_step opts (task_is_ipv6 task)"
  using assms that
  unfolding build_packet_def Let_def
  by (force split: if_splits option.splits prod.splits simp: not_less)

lemma build_packet_Overrun:
  assumes "fst (build_packet env task n p opts st) = Overrun"
  obtains fr r options r' payload options_len where
    "build_front env opts (task_is_ipv6 task) n (bs_rng st) = (Some fr, r)"
    and "tcp_options opts task n r = (options, r')"
    and "payload = fst (build_payload opts task n (length options) r')"
    and "fit_options opts n (ip_hdr_len opts fr) (length options) (length payload) = Some options_len"
    and "n < ip_hdr_len opts fr + 20 + options_len + length payload"
  using assms that
  unfolding build_packet_def Let_def
  by (force split: if_splits option.splits prod.splits)

lemma length_adjust:
  assumes "hdr + length seg \<le> n" and "20 + options_len \<le> length seg"
  shows "hdr + length (adjust_length opts task p n hdr options_len seg) \<le> n"
  using assms by (auto simp: adjust_length_def Let_def)

lemma length_network_header:
  assumes "network_header opts task p fr k st = (header, st')"
    and "length (ip_src p) = 4" and "length (task_dest task) = 4" and "length (task_dest6 task) = 16"
    and "\<forall>a. ip_src6 p = Some a \<longrightarrow> length a = 16"
  shows "length (header m) = ip_hdr_len opts fr"
  using assms
  by (cases fr) (auto simp: network_header_def ipv4_header_def ipv6_header_def src6_def Let_def
      split: prod.splits option.splits if_splits)

text \<open>
  C34. Memory safety of the packet builder: a packet it hands out lies within the buffer, its
  options, payload and padding included. It runs past the buffer only when a malformed cookie is
  asked for and the headers and the payload alone exceed it.
\<close>

theorem build_packet_fits:
  assumes "length (ip_src p) = 4" and "length (task_dest task) = 4" and "length (task_dest6 task) = 16"
    and "\<forall>a. ip_src6 p = Some a \<longrightarrow> length a = 16"
    and "fst (build_packet env task n p opts st) = res"
  shows "case res of Rejected \<Rightarrow> True
    | Overrun \<Rightarrow> intentional_malformed opts \<and>
        (\<exists>fr r options r'. build_front env opts (task_is_ipv6 task) n (bs_rng st) = (Some fr, r) \<and>
           tcp_options opts task n r = (options, r') \<and>
           n < ip_hdr_len opts fr + 20 + length (fst (build_payload opts task n (length options) r')))
    | Built pkt step \<Rightarrow> length pkt \<le> n"
proof (cases res)
  case Overrun
  with assms(5) obtain fr r options r' options_len where f: "build_front env opts (task_is_ipv6 task) n (bs_rng st) = (Some fr, r)"
    "tcp_options opts task n r = (options, r')"
    and fit: "fit_options opts n (ip_hdr_len opts fr) (length options)
      (length (fst (build_payload opts task n (length options) r'))) = Some options_len"
    and over: "n < ip_hdr_len opts fr + 20 + options_len + length (fst (build_payload opts task n (length options) r'))"
    by (auto elim: build_packet_Overrun)
  have "intentional_malformed opts" using fit_options_Some(4) [OF fit] over by simp
  moreover have "n < ip_hdr_len opts fr + 20 + length (fst (build_payload opts task n (length options) r'))"
    using fit_options_Some(3) [OF fit] over by linarith
  ultimately show ?thesis using f Overrun by auto
next
  case (Built pkt step)
  with assms(5) have "fst (build_packet env task n p opts st) = Built pkt step" by simp
  then show ?thesis
  proof (rule build_packet_pieces)
    fix fr r options r' payload st0 options_len header st1 seg th_sum st2
    assume fit: "fit_options opts n (ip_hdr_len opts fr) (length options) (length payload) = Some options_len"
      and le: "ip_hdr_len opts fr + 20 + options_len + length payload \<le> n"
      and h: "network_header opts task p fr (ip_hdr_len opts fr + 20 + options_len + length payload) st0 = (header, st1)"
      and seg: "seg = tcp_segment task p (take options_len options) payload"
      and pkt: "pkt = header (ip_hdr_len opts fr + length (adjust_length opts task p n (ip_hdr_len opts fr) options_len (put_sum th_sum seg)))
        @ adjust_length opts task p n (ip_hdr_len opts fr) options_len (put_sum th_sum seg)"
    have "length seg = 20 + options_len + length payload"
      using fit_options_Some(1) [OF fit] by (simp add: seg length_tcp_segment)
    then have "ip_hdr_len opts fr + length (adjust_length opts task p n (ip_hdr_len opts fr) options_len (put_sum th_sum seg)) \<le> n"
      using le by (intro length_adjust) simp_all
    then show ?thesis using Built length_network_header [OF h assms(1-4)] by (simp add: pkt)
  qed
qed simp

definition env_example :: build_env where
  "env_example = \<lparr>env_shuffle = (\<lambda>es r. (rev es, r)), env_uniform = (\<lambda>lo hi r. (lo, rng_skip 1 r)),
     env_stack_byte = 0, env_ub_shift = (\<lambda>_. 0)\<rparr>"

definition state_example :: build_state where
  "state_example = \<lparr>bs_rng = (\<lambda>_. 0), bs_rnd = (\<lambda>_. 0), bs_flow_counter = 0, bs_pattern_idx = 0, bs_walking_bit = 0\<rparr>"

definition params_example :: ip_params where
  "params_example = \<lparr>ip_src = [10, 0, 0, 1], ip_src6 = None, ip_id_of = 7, ip_win_size = 0, ip_ttl = 64,
     ip_dscp = 0, ip_flags = 0x4000\<rparr>"

theorem build_packet_fits_witness:
  "case fst (build_packet env_example (packet_task_default 7) 4096 params_example tcp_build_default state_example) of
     Rejected \<Rightarrow> True | Overrun \<Rightarrow> False | Built pkt step \<Rightarrow> length pkt \<le> 4096"
  using build_packet_fits [where p = params_example and task = "packet_task_default 7" and env = env_example
      and n = 4096 and opts = tcp_build_default and st = state_example, OF _ _ _ _ refl]
  by (simp add: params_example_def packet_task_default_def intentional_malformed_def tcp_build_default_def
      split: build_result.splits)

section \<open>What the receiver parses\<close>

record tcp_view =
  v_src :: bytes
  v_dst :: bytes
  v_sport :: u16
  v_dport :: u16
  v_seq :: u32
  v_ack :: u32
  v_flags :: u8
  v_window :: u16
  v_options :: bytes
  v_payload :: bytes

text \<open>An IPv4 packet with a TCP segment, by RFC 791 and RFC 9293; the checksum is looked at apart.\<close>

definition parse_ipv4_tcp :: "bytes \<Rightarrow> tcp_view option" where
  "parse_ipv4_tcp pkt =
     (let ihl = 4 * unat (and (pkt ! 0) 15); seg = drop ihl pkt; off = 4 * unat (drop_bit 4 (seg ! 12)) in
      if 20 \<le> length pkt \<and> drop_bit 4 (pkt ! 0) = 4 \<and> 20 \<le> ihl \<and> ihl + 20 \<le> length pkt \<and>
         unat (get_be16 (pkt ! 2) (pkt ! 3)) = length pkt \<and> pkt ! 9 = 6 \<and> 20 \<le> off \<and> off \<le> length seg
      then Some \<lparr>v_src = take 4 (drop 12 pkt), v_dst = take 4 (drop 16 pkt),
        v_sport = get_be16 (seg ! 0) (seg ! 1), v_dport = get_be16 (seg ! 2) (seg ! 3),
        v_seq = get_be32 (seg ! 4) (seg ! 5) (seg ! 6) (seg ! 7),
        v_ack = get_be32 (seg ! 8) (seg ! 9) (seg ! 10) (seg ! 11),
        v_flags = seg ! 13, v_window = get_be16 (seg ! 14) (seg ! 15),
        v_options = take (off - 20) (drop 20 seg), v_payload = drop off seg\<rparr>
      else None)"

lemmas get_be16_split = get_be16_be16 [unfolded be16_def, simplified]
lemmas get_be32_split = get_be32_be32 [unfolded be32_def, simplified]

lemma ip_options_length: "length (ip_options opts) \<le> 40 \<and> length (ip_options opts) mod 4 = 0"
proof -
  obtain b where b: "length b \<le> 40" and o: "ip_options opts = nop_align 40 b"
  proof
    let ?b = "if use_ip_router_alert opts then put_within 40 [0x94, 0x04, 0x00, 0x00] [] else []"
    let ?c = "if use_ip_security opts
      then put_within 40 ([0x82, 0x0B, ip_security_classification opts] @ replicate 8 0) ?b else ?b"
    show "ip_options opts = nop_align 40 ?c" by (simp only: ip_options_def Let_def)
    show "length ?c \<le> 40" by (simp add: put_within_def)
  qed
  show ?thesis using writes_length [OF nop_align_writes [OF b]] nop_align_mod [OF b] by (simp add: o)
qed

lemma version_byte:
  assumes "m < 16"
  shows "drop_bit 4 (or 0x40 (of_nat m) :: u8) = 4" and "unat (and (or 0x40 (of_nat m) :: u8) 15) = m"
proof -
  have "m = 0 \<or> m = 1 \<or> m = 2 \<or> m = 3 \<or> m = 4 \<or> m = 5 \<or> m = 6 \<or> m = 7 \<or> m = 8 \<or> m = 9 \<or>
    m = 10 \<or> m = 11 \<or> m = 12 \<or> m = 13 \<or> m = 14 \<or> m = 15" using assms by presburger
  then show "drop_bit 4 (or 0x40 (of_nat m) :: u8) = 4" and "unat (and (or 0x40 (of_nat m) :: u8) 15) = m"
    by (elim disjE; simp)+
qed

lemma unat_off_byte: "m < 16 \<Longrightarrow> unat (drop_bit 4 (off_byte m)) = m"
proof -
  assume m: "m < 16"
  have "unat (off_byte m) = 16 * m"
    using m by (simp add: off_byte_def push_bit_eq_mult unat_word_ariths unat_of_nat)
  then show ?thesis by (simp only: unat_drop_bit_eq) (simp add: drop_bit_eq_div)
qed

lemma put_le16_at: "length A = i \<Longrightarrow> put_le16 i w (A @ a # b # R) = A @ ucast w # ucast (drop_bit 8 w) # R"
  by (simp add: put_le16_def list_update_append)

definition tcp_prefix :: "packet_task \<Rightarrow> ip_params \<Rightarrow> nat \<Rightarrow> bytes" where
  "tcp_prefix task p words =
     be16 (task_src_port task) @
     be16 (if task_is_ipv6 task then task_sin6_port task else task_sin_port task) @
     be32 (task_seq task) @ be32 (task_ack task) @
     [off_byte (if words > 15 then 15 else words), task_flags task] @ be16 (window_of task (ip_win_size p))"

lemma length_tcp_prefix: "length (tcp_prefix task p words) = 16"
  by (simp add: tcp_prefix_def)

lemma tcp_segment_split:
  "tcp_segment task p ops pl = tcp_prefix task p ((20 + length ops) div 4) @ 0 # 0 # [0, 0] @ ops @ pl"
  by (simp add: tcp_segment_def tcp_prefix_def Let_def)

lemma put_sum_segment:
  "put_sum w (tcp_segment task p ops pl) =
     tcp_prefix task p ((20 + length ops) div 4) @ ucast w # ucast (drop_bit 8 w) # [0, 0] @ ops @ pl"
  unfolding tcp_segment_split put_sum_def by (rule put_le16_at [OF length_tcp_prefix])

lemma tcp_prefix_fields:
  "get_be16 (tcp_prefix task p k ! 0) (tcp_prefix task p k ! 1) = task_src_port task"
  "get_be16 (tcp_prefix task p k ! 2) (tcp_prefix task p k ! 3) =
     (if task_is_ipv6 task then task_sin6_port task else task_sin_port task)"
  "get_be32 (tcp_prefix task p k ! 4) (tcp_prefix task p k ! 5) (tcp_prefix task p k ! 6) (tcp_prefix task p k ! 7) = task_seq task"
  "get_be32 (tcp_prefix task p k ! 8) (tcp_prefix task p k ! 9) (tcp_prefix task p k ! 10) (tcp_prefix task p k ! 11) = task_ack task"
  "tcp_prefix task p k ! 12 = off_byte (if k > 15 then 15 else k)"
  "tcp_prefix task p k ! 13 = task_flags task"
  "get_be16 (tcp_prefix task p k ! 14) (tcp_prefix task p k ! 15) = window_of task (ip_win_size p)"
  unfolding tcp_prefix_def be16_def be32_def
  by (simp_all add: get_be16_split get_be32_split)

lemma ipv4_fields:
  assumes "length (ip_src p) = 4" and "length (task_dest task) = 4"
  shows "(ipv4_header opts task p ops len @ seg) ! 0 = or 0x40 (of_nat ((20 + length ops) div 4))"
    and "get_be16 ((ipv4_header opts task p ops len @ seg) ! 2) ((ipv4_header opts task p ops len @ seg) ! 3) = of_nat len"
    and "(ipv4_header opts task p ops len @ seg) ! 9 = 6"
    and "take 4 (drop 12 (ipv4_header opts task p ops len @ seg)) = ip_src p"
    and "take 4 (drop 16 (ipv4_header opts task p ops len @ seg)) = task_dest task"
    and "length (ipv4_header opts task p ops len) = 20 + length ops"
  using assms unfolding ipv4_header_def be16_def
  by (simp_all add: get_be16_split)

lemma quarterE:
  fixes n :: nat
  assumes "n \<le> 40" and "n mod 4 = 0"
  obtains j where "n = 4 * j" and "j \<le> 10"
proof
  show "n = 4 * (n div 4)" using assms(2) by presburger
  show "n div 4 \<le> 10" using div_le_mono [OF assms(1), of 4] by simp
qed

lemma build_front_v4:
  assumes "build_front env opts False n r = (Some fr, r')"
  shows "fr = V4 (ip_options opts)" and "r' = r"
  using assms by (auto simp: build_front_def split: if_splits)

lemma adjust_disabled:
  "\<not> pl_enabled (packet_length_cfg opts) \<Longrightarrow> adjust_length opts task p n hdr k seg = seg"
  by (simp add: adjust_length_def Let_def)

lemma fit_normal:
  assumes "fit_options opts n hdr k d = Some k'" and "\<not> intentional_malformed opts"
  shows "k' = k"
  using assms by (auto simp: fit_options_def split: if_splits)

text \<open>
  C13. What is built is what is parsed: for an IPv4 packet, whatever its options, flags, payload
  and checksum mode, a receiver reads back the addresses, ports, sequence numbers, flags, window,
  exactly the options area and exactly the payload, from the length and offset fields of the
  packet (with neither a malformed cookie nor \<open>--packet-length\<close>).
\<close>

theorem build_packet_parses:
  assumes "length (ip_src p) = 4" and "length (task_dest task) = 4"
    and "\<not> task_is_ipv6 task" and "\<not> intentional_malformed opts"
    and "\<not> pl_enabled (packet_length_cfg opts)" and "n \<le> 65535"
    and "fst (build_packet env task n p opts st) = Built pkt step"
    and "tcp_options opts task n (bs_rng st) = (options, r)"
  shows "parse_ipv4_tcp pkt = Some \<lparr>v_src = ip_src p, v_dst = task_dest task,
    v_sport = task_src_port task, v_dport = task_sin_port task, v_seq = task_seq task,
    v_ack = task_ack task, v_flags = task_flags task, v_window = window_of task (ip_win_size p),
    v_options = options, v_payload = fst (build_payload opts task n (length options) r)\<rparr>"
  using assms(7)
proof (rule build_packet_pieces)
  fix fr r1 options1 r' payload st0 options_len header st1 seg th_sum st2
  assume front: "build_front env opts (task_is_ipv6 task) n (bs_rng st) = (Some fr, r1)"
    and opt: "tcp_options opts task n r1 = (options1, r')"
    and pl: "payload = fst (build_payload opts task n (length options1) r')"
    and fit: "fit_options opts n (ip_hdr_len opts fr) (length options1) (length payload) = Some options_len"
    and le: "ip_hdr_len opts fr + 20 + options_len + length payload \<le> n"
    and h: "network_header opts task p fr (ip_hdr_len opts fr + 20 + options_len + length payload) st0 = (header, st1)"
    and seg: "seg = tcp_segment task p (take options_len options1) payload"
    and pkt: "pkt = header (ip_hdr_len opts fr + length (adjust_length opts task p n (ip_hdr_len opts fr) options_len (put_sum th_sum seg)))
      @ adjust_length opts task p n (ip_hdr_len opts fr) options_len (put_sum th_sum seg)"
  have fr: "fr = V4 (ip_options opts)" and r1: "r1 = bs_rng st"
    using build_front_v4 [of env opts n "bs_rng st" fr r1] front assms(3) by auto
  have o: "options1 = options" "r' = r" using opt assms(8) r1 by auto
  have k: "options_len = length options" using fit_normal [OF fit assms(4)] o by simp
  define ops where "ops = ip_options opts"
  define m where "m = (20 + length options) div 4"
  define s where "s = put_sum th_sum seg"
  have s: "s = tcp_prefix task p m @ ucast th_sum # ucast (drop_bit 8 th_sum) # [0, 0] @ options @ payload"
    by (simp add: s_def seg k o put_sum_segment m_def)
  have ls: "length s = 20 + length options + length payload" by (simp add: s length_tcp_prefix)
  define len where "len = 20 + length ops + length s"
  have p: "pkt = ipv4_header opts task p ops len @ s"
    using h by (simp add: pkt fr network_header_def adjust_disabled [OF assms(5)] s_def [symmetric] ops_def len_def)
  have len: "len \<le> 65535" using le assms(6) by (simp add: len_def ls fr k ops_def)
  have "length options \<le> 40" and "length options mod 4 = 0"
    using tcp_options_area(1,2) [OF assms(4), of task n "bs_rng st"] assms(8) by simp_all
  then obtain j where j: "length options = 4 * j" "j \<le> 10" by (rule quarterE)
  have m: "m = 5 + j" by (simp add: m_def j)
  obtain i where i: "length ops = 4 * i" "i \<le> 10"
    using ip_options_length [of opts] unfolding ops_def [symmetric] by (auto elim: quarterE)
  have vb: "(20 + length ops) div 4 = 5 + i" by (simp add: i)
  have ihl: "4 * unat (and (pkt ! 0) 15) = 20 + length ops" "drop_bit 4 (pkt ! 0) = 4"
    using ipv4_fields(1) [OF assms(1,2), of opts ops len s] version_byte [of "5 + i"] i
    by (simp_all only: p vb) simp_all
  have d: "drop (20 + length ops) pkt = s"
    unfolding p ipv4_fields(6) [OF assms(1,2), of opts ops len, symmetric] by simp
  have lp: "length pkt = len" using ipv4_fields(6) [OF assms(1,2), of opts ops len] by (simp add: p len_def)
  have nth: "s ! x = tcp_prefix task p m ! x" if "x < 16" for x
    using that by (simp add: s nth_append length_tcp_prefix)
  have off: "4 * unat (drop_bit 4 (s ! 12)) = 20 + length options"
    using tcp_prefix_fields(5) [of task p m] unat_off_byte [of m] m j by (simp add: nth)
  have lenf: "unat (get_be16 (pkt ! 2) (pkt ! 3)) = length pkt"
    using ipv4_fields(2) [OF assms(1,2), of opts ops len s] len
    by (simp only: lp) (simp add: p unat_of_nat)
  have "20 \<le> length pkt" using lp by (simp add: len_def)
  moreover define a where "a = tcp_prefix task p m @ [ucast th_sum, ucast (drop_bit 8 th_sum), 0, 0] @ options"
  have a: "s = a @ payload" "length a = 20 + length options" by (simp_all add: s a_def length_tcp_prefix)
  have s1: "take (length options) (drop 20 s) = options" by (simp add: s length_tcp_prefix)
  have s2: "drop (20 + length options) s = payload" unfolding a(2) [symmetric] a(1) by simp
  have s3: "get_be16 (s ! 0) (s ! 1) = task_src_port task" "get_be16 (s ! 2) (s ! 3) = task_sin_port task"
    "get_be32 (s ! 4) (s ! 5) (s ! 6) (s ! 7) = task_seq task"
    "get_be32 (s ! 8) (s ! 9) (s ! 10) (s ! 11) = task_ack task" "s ! 13 = task_flags task"
    "get_be16 (s ! 14) (s ! 15) = window_of task (ip_win_size p)"
    using tcp_prefix_fields [of task p m] assms(3) by (simp_all add: nth)
  have f: "pkt ! 9 = 6" "take 4 (drop 12 pkt) = ip_src p" "take 4 (drop 16 pkt) = task_dest task"
    unfolding p by (rule ipv4_fields(3-5) [OF assms(1,2)])+
  have l: "20 \<le> length pkt" "20 + length ops + 20 \<le> length pkt" "20 + length options \<le> length s"
    using ls lp by (simp_all add: len_def)
  have n: "20 + length options - 20 = length options" by simp
  show ?thesis
    unfolding parse_ipv4_tcp_def Let_def ihl d off n s1 s2 s3 f
    using l lenf by (simp add: pl o)
qed

lemma build_packet_accepts:
  assumes "\<not> task_is_ipv6 task" and "\<not> intentional_malformed opts"
    and "tcp_options opts task n (bs_rng st) = (options, r)"
    and "40 + length (ip_options opts) + length options + length (fst (build_payload opts task n (length options) r)) \<le> n"
  shows "\<exists>pkt. fst (build_packet env task n p opts st) = Built pkt (frag_step opts False)"
proof -
  have "build_front env opts (task_is_ipv6 task) n (bs_rng st) = (Some (V4 (ip_options opts)), bs_rng st)"
    using assms by (simp add: build_front_def)
  moreover obtain payload r' where pl: "build_payload opts task n (length options) r = (payload, r')"
    by (cases "build_payload opts task n (length options) r")
  moreover have "fit_options opts n (20 + length (ip_options opts)) (length options) (length payload) = Some (length options)"
    using assms(4) pl by (simp add: fit_options_def)
  ultimately show ?thesis
    using assms by (auto simp: build_packet_def network_header_def Let_def split: prod.splits)
qed

lemma example_built:
  "\<exists>pkt. fst (build_packet env_example (packet_task_default 7) 4096 params_example tcp_build_default state_example) = Built pkt 0"
proof -
  obtain options r where o: "tcp_options tcp_build_default (packet_task_default 7) 4096 (bs_rng state_example) = (options, r)"
    by (cases "tcp_options tcp_build_default (packet_task_default 7) 4096 (bs_rng state_example)")
  have m: "\<not> intentional_malformed tcp_build_default" by (simp add: intentional_malformed_def tcp_build_default_def)
  have "length options \<le> 40" using tcp_options_area(1) [OF m, of "packet_task_default 7" 4096 "bs_rng state_example"] o by simp
  moreover have "fst (build_payload tcp_build_default (packet_task_default 7) 4096 (length options) r) = []"
    by (simp add: build_payload_def tcp_build_default_def packet_task_default_def)
  moreover have "frag_step tcp_build_default False = 0"
    by (simp add: frag_step_def fragmenting_def tcp_build_default_def)
  ultimately show ?thesis
    using build_packet_accepts [OF _ m o, of env_example params_example] ip_options_length [of tcp_build_default]
    by (simp add: packet_task_default_def)
qed

theorem build_packet_parses_witness:
  "\<exists>pkt. fst (build_packet env_example (packet_task_default 7) 4096 params_example tcp_build_default state_example) = Built pkt 0 \<and>
     map_option v_payload (parse_ipv4_tcp pkt) = Some []"
proof -
  obtain pkt where b: "fst (build_packet env_example (packet_task_default 7) 4096 params_example tcp_build_default state_example) = Built pkt 0"
    using example_built by blast
  obtain options r where "tcp_options tcp_build_default (packet_task_default 7) 4096 (bs_rng state_example) = (options, r)"
    by (cases "tcp_options tcp_build_default (packet_task_default 7) 4096 (bs_rng state_example)")
  from build_packet_parses [OF _ _ _ _ _ _ b this] b show ?thesis
    by (simp add: params_example_def packet_task_default_def intentional_malformed_def tcp_build_default_def
        build_payload_def)
qed

section \<open>Checksums of whole packets\<close>

lemma length_pseudo_header:
  assumes "length (ip_src p) = 4" and "length (task_dest task) = 4" and "length (task_dest6 task) = 16"
    and "\<forall>a. ip_src6 p = Some a \<longrightarrow> length a = 16"
  shows "even (length (pseudo_header task p k))" and "length (pseudo_header task p k) \<le> 40"
  using assms by (auto simp: pseudo_header_def src6_def split: option.splits)

lemma normal_sum_verifies:
  assumes "length (ip_src p) = 4" and "length (task_dest task) = 4" and "length (task_dest6 task) = 16"
    and "\<forall>a. ip_src6 p = Some a \<longrightarrow> length a = 16"
    and "20 \<le> length seg" and "length seg \<le> 65496" and "seg ! 16 = 0" and "seg ! 17 = 0"
  shows "verifies (pseudo_header task p (length seg) @ put_sum (normal_sum task p seg) seg) \<longleftrightarrow>
    even (length seg) \<or> last seg = 0"
  unfolding put_sum_def normal_sum_def
  using assms(5-8) length_pseudo_header [OF assms(1-4), of "length seg"]
  by (intro tcp_sum_verifies) simp_all

lemma segment_sum_zero:
  "tcp_segment task p ops pl ! 16 = 0 \<and> tcp_segment task p ops pl ! 17 = 0"
  by (simp add: tcp_segment_split nth_append length_tcp_prefix)

text \<open>
  C38. In a packet built without a checksum mode (IPv4 or IPv6, \<open>--packet-length\<close> off) the
  segment verifies against its pseudo-header exactly when its length is even or its last byte is
  0: a payload of odd length goes out with a wrong checksum.
\<close>

theorem built_checksum:
  assumes "length (ip_src p) = 4" and "length (task_dest task) = 4" and "length (task_dest6 task) = 16"
    and "\<forall>a. ip_src6 p = Some a \<longrightarrow> length a = 16"
    and "\<not> use_manual_tcp_checksum opts" and "\<not> use_badsum opts" and "\<not> use_partial_badsum opts"
    and "\<not> pl_enabled (packet_length_cfg opts)" and "n \<le> 65496"
    and "fst (build_packet env task n p opts st) = Built pkt step"
  shows "\<exists>hdr seg. pkt = hdr @ seg \<and> 20 \<le> length seg \<and>
    (\<exists>fr r. build_front env opts (task_is_ipv6 task) n (bs_rng st) = (Some fr, r) \<and> length hdr = ip_hdr_len opts fr) \<and>
    (verifies (pseudo_header task p (length seg) @ seg) \<longleftrightarrow> even (length seg) \<or> last seg = 0)"
  using assms(10)
proof (rule build_packet_pieces)
  fix fr r options r' payload st0 options_len header st1 seg th_sum st2
  assume front: "build_front env opts (task_is_ipv6 task) n (bs_rng st) = (Some fr, r)"
    and fit: "fit_options opts n (ip_hdr_len opts fr) (length options) (length payload) = Some options_len"
    and le: "ip_hdr_len opts fr + 20 + options_len + length payload \<le> n"
    and h: "network_header opts task p fr (ip_hdr_len opts fr + 20 + options_len + length payload) st0 = (header, st1)"
    and seg: "seg = tcp_segment task p (take options_len options) payload"
    and th: "mutate_sum env opts task
      (if use_manual_tcp_checksum opts then manual_tcp_checksum opts else normal_sum task p seg) st1 = (th_sum, st2)"
    and pkt: "pkt = header (ip_hdr_len opts fr + length (adjust_length opts task p n (ip_hdr_len opts fr) options_len (put_sum th_sum seg)))
      @ adjust_length opts task p n (ip_hdr_len opts fr) options_len (put_sum th_sum seg)"
  have s: "length seg = 20 + options_len + length payload"
    using fit_options_Some(1) [OF fit] by (simp add: seg length_tcp_segment)
  have t: "th_sum = normal_sum task p seg" using th assms(5-7) by (simp add: mutate_sum_def)
  let ?s = "put_sum th_sum seg"
  have last: "odd (length seg) \<Longrightarrow> last ?s = last seg"
    using s by (cases "seg = []") (auto simp: put_sum_def put_le16_def last_list_update)
  have "verifies (pseudo_header task p (length seg) @ ?s) \<longleftrightarrow> even (length seg) \<or> last seg = 0"
    unfolding t using segment_sum_zero [of task p "take options_len options" payload] s le assms(9)
    by (intro normal_sum_verifies [OF assms(1-4)]) (simp_all add: seg [symmetric])
  with last have "verifies (pseudo_header task p (length ?s) @ ?s) \<longleftrightarrow> even (length ?s) \<or> last ?s = 0"
    by (cases "even (length seg)") simp_all
  moreover have "pkt = header (ip_hdr_len opts fr + length ?s) @ ?s"
    by (simp add: pkt adjust_disabled [OF assms(8)])
  moreover have "length (header (ip_hdr_len opts fr + length ?s)) = ip_hdr_len opts fr"
    by (rule length_network_header [OF h assms(1-4)])
  ultimately show ?thesis using front s by (intro exI [of _ "header (ip_hdr_len opts fr + length ?s)"] exI [of _ ?s]) auto
qed

theorem built_checksum_witness:
  "\<exists>pkt hdr seg. fst (build_packet env_example (packet_task_default 7) 4096 params_example tcp_build_default state_example) = Built pkt 0 \<and>
     pkt = hdr @ seg \<and> (verifies (pseudo_header (packet_task_default 7) params_example (length seg) @ seg) \<longleftrightarrow>
       even (length seg) \<or> last seg = 0)"
proof -
  obtain pkt where b: "fst (build_packet env_example (packet_task_default 7) 4096 params_example tcp_build_default state_example) = Built pkt 0"
    using example_built by blast
  have "length (ip_src params_example) = 4" "ip_src6 params_example = None"
    "length (task_dest (packet_task_default 7)) = 4" "length (task_dest6 (packet_task_default 7)) = 16"
    by (simp_all add: params_example_def packet_task_default_def)
  with built_checksum [OF _ _ _ _ _ _ _ _ _ b] b show ?thesis
    by (auto simp: tcp_build_default_def)
qed

definition resum :: "packet_task \<Rightarrow> ip_params \<Rightarrow> bytes \<Rightarrow> bytes" where
  "resum task p seg = (let seg0 = put_sum 0 seg in put_sum (normal_sum task p seg0) seg0)"

lemma length_resum [simp]: "length (resum task p seg) = length seg"
  by (simp add: resum_def Let_def)

lemma last_put_sum: "18 < length seg \<Longrightarrow> last (put_sum w seg) = last seg"
  by (cases "seg = []") (auto simp: put_sum_def put_le16_def last_list_update)

lemma resum_verifies:
  assumes "length (ip_src p) = 4" and "length (task_dest task) = 4" and "length (task_dest6 task) = 16"
    and "\<forall>a. ip_src6 p = Some a \<longrightarrow> length a = 16" and "20 \<le> length seg" and "length seg \<le> 65496"
  shows "verifies (pseudo_header task p (length (resum task p seg)) @ resum task p seg) \<longleftrightarrow>
    even (length (resum task p seg)) \<or> last (resum task p seg) = 0"
proof -
  have z: "put_sum 0 seg ! 16 = 0" "put_sum 0 seg ! 17 = 0"
    using assms(5) by (simp_all add: put_sum_def put_le16_def nth_list_update)
  show ?thesis
    using normal_sum_verifies [OF assms(1-4) _ _ z] assms(5,6)
    by (simp add: resum_def Let_def last_put_sum)
qed

text \<open>
  \<open>--packet-length\<close> on IPv4, whenever it changes the length: the segment gets the length
  asked for (options are cut in whole words, so down to three bytes less), its header is never cut,
  and its checksum is computed anew, so that it verifies as in a normal packet whatever
  \<open>--badsum\<close>, \<open>--partial-badsum\<close> or a manual checksum had put there.
\<close>

theorem packet_length_resums:
  assumes "length (ip_src p) = 4" and "length (task_dest task) = 4" and "length (task_dest6 task) = 16"
    and "\<forall>a. ip_src6 p = Some a \<longrightarrow> length a = 16"
    and "pl_enabled (packet_length_cfg opts)" and "\<not> task_is_ipv6 task"
    and "unat (pl_target_len (packet_length_cfg opts)) = target"
    and "hdr + 20 \<le> target" and "target \<le> n" and "n \<le> 65496"
    and "20 + options_len \<le> length seg" and "target \<noteq> hdr + length seg"
    and "adjust_length opts task p n hdr options_len seg = seg'"
  shows "hdr + length seg' \<le> target \<and> target < hdr + length seg' + 4 \<and>
    (hdr + 20 + options_len \<le> target \<longrightarrow> hdr + length seg' = target) \<and>
    (verifies (pseudo_header task p (length seg') @ seg') \<longleftrightarrow> even (length seg') \<or> last seg' = 0)"
proof -
  obtain s where s: "seg' = resum task p s" and l: "20 \<le> length s" "length s \<le> 65496"
    and "hdr + length s \<le> target" "target < hdr + length s + 4"
    "hdr + 20 + options_len \<le> target \<Longrightarrow> hdr + length s = target"
  proof (cases "target > hdr + length seg")
    case True
    then have "seg' = resum task p (seg @ replicate (target - (hdr + length seg)) 0)"
      using assms by (auto simp: adjust_length_def resum_def Let_def)
    then show ?thesis using that assms True by simp
  next
    case False
    show ?thesis
    proof (cases "target < hdr + 20 + options_len")
      case True
      define k where "k = (target - hdr) div 4 * 4"
      have k: "k \<le> target - hdr" "target - hdr < k + 4" "20 \<le> k" "max k 20 = k"
        using assms(8) unfolding k_def by presburger+
      have "seg' = resum task p (take k (seg[12 := off_byte (k div 4)]))"
        using assms False True k(4) by (auto simp: adjust_length_def resum_def Let_def k_def)
      moreover have "length (take k (seg[12 := off_byte (k div 4)])) = k"
        using k assms(11) True by simp
      ultimately show ?thesis using that k assms(9,10) True by auto
    next
      case False2: False
      have "seg' = resum task p (take (target - hdr) seg)"
        using assms False False2 by (auto simp: adjust_length_def resum_def Let_def)
      moreover have "length (take (target - hdr) seg) = target - hdr" using False by simp
      ultimately show ?thesis using that assms(8-10) by auto
    qed
  qed
  then show ?thesis using resum_verifies [OF assms(1-4) l] by (simp add: s)
qed

theorem packet_length_resums_witness:
  "let opts = tcp_build_default\<lparr>use_badsum := True, packet_length_cfg := \<lparr>pl_enabled = True, pl_target_len = 64\<rparr>\<rparr>;
       seg = put_sum 0xBEEF (tcp_segment (packet_task_default 7) params_example [] []);
       seg' = adjust_length opts (packet_task_default 7) params_example 4096 20 0 seg
   in 20 + length seg' = 64 \<and> verifies (pseudo_header (packet_task_default 7) params_example (length seg') @ seg')"
proof -
  let ?opts = "tcp_build_default\<lparr>use_badsum := True, packet_length_cfg := \<lparr>pl_enabled = True, pl_target_len = 64\<rparr>\<rparr>"
  let ?seg = "put_sum 0xBEEF (tcp_segment (packet_task_default 7) params_example [] [])"
  have a: "length (ip_src params_example) = 4" "ip_src6 params_example = None"
    "length (task_dest (packet_task_default 7)) = 4" "length (task_dest6 (packet_task_default 7)) = 16"
    "\<not> task_is_ipv6 (packet_task_default 7)"
    by (simp_all add: params_example_def packet_task_default_def)
  then show ?thesis
    using packet_length_resums [where p = params_example and task = "packet_task_default 7" and opts = ?opts
        and target = 64 and hdr = 20 and n = 4096 and options_len = 0 and seg = ?seg, OF _ _ _ _ _ _ _ _ _ _ _ _ refl]
    by (auto simp: Let_def length_tcp_segment)
qed

section \<open>--partial-badsum\<close>

lemma xor_changes: "k \<noteq> 0 \<Longrightarrow> xor c k \<noteq> c" for c k :: u16
  by (metis xor_self_eq xor.left_neutral xor.assoc)

lemma bit_of_nonneg: "0 \<le> n \<Longrightarrow> bit_of env n \<noteq> 0"
proof -
  assume "0 \<le> n"
  then have "bit (bit_of env n) (nat (n mod 16))" by (simp add: bit_of_def bit_simps nat_less_iff)
  then show ?thesis by auto
qed

lemma sum_patterns_nonzero: "sum_patterns ! (k mod length sum_patterns) \<noteq> 0"
proof -
  have "sum_patterns ! (k mod length sum_patterns) \<in> set sum_patterns"
    by (rule nth_mem) (simp add: sum_patterns_def)
  then show ?thesis by (auto simp: sum_patterns_def)
qed

lemma lower_upper_change:
  "or (and c 0xFF00) (and (xor c 0x00FF) 0x00FF) \<noteq> c" "or (and c 0x00FF) (and (xor c 0xFF00) 0xFF00) \<noteq> c" for c :: u16
proof -
  have "bit (or (and c 0xFF00) (and (xor c 0x00FF) 0x00FF)) 0 \<longleftrightarrow> \<not> bit c 0" by (simp add: bit_simps)
  then show "or (and c 0xFF00) (and (xor c 0x00FF) 0x00FF) \<noteq> c" by auto
  have "bit (or (and c 0x00FF) (and (xor c 0xFF00) 0xFF00)) 15 \<longleftrightarrow> \<not> bit c 15" by (simp add: bit_simps)
  then show "or (and c 0x00FF) (and (xor c 0xFF00) 0xFF00) \<noteq> c" by auto
qed

lemma carry_break_value:
  "(let s = ucast c + 0xFFFF :: u32; s = and s 0xFFFF + drop_bit 16 s in ucast (and s 0xFFFF)) = (if c = 0 then 0xFFFF else c)"
  for c :: u16
proof (cases "c = 0")
  case True
  then show ?thesis by simp
next
  case False
  define s where "s = (ucast c + 0xFFFF :: u32)"
  have c: "0 < unat c" "unat c < 65536" using False unat_u16 [of c] by (simp_all add: unat_gt_0)
  have "unat s = unat c + 65535"
    using c by (simp add: s_def unat_word_ariths unsigned_ucast_eq take_bit_nat_eq_self)
  then have "unat (and s 0xFFFF) = unat c - 1" "unat (drop_bit 16 s) = 1"
    using c by (simp_all add: unat_and16 unat_drop16 mod_if div_if)
  then have t: "unat (and s 0xFFFF + drop_bit 16 s) = unat c" using c by (simp add: unat_word_ariths)
  have "unat (and (and s 0xFFFF + drop_bit 16 s) 0xFFFF) = unat c"
    using c by (simp only: unat_and16 t) simp
  then have "unat (ucast (and (and s 0xFFFF + drop_bit 16 s) 0xFFFF) :: u16) = unat c"
    using c by (simp only: unsigned_ucast_eq) (simp add: take_bit_nat_eq_self)
  then show ?thesis using False by (simp add: Let_def s_def [symmetric] word_unat_eq_iff)
qed

definition sure_kinds :: "string list" where
  "sure_kinds = [''lower'', ''upper'', ''middle'', ''incremental'', ''pattern'', ''msb'', ''rfc1141'',
     ''ones-complement'', ''walking-bit'', ''valid-ish'', ''goodbye'']"

lemma sure_kinds_change:
  assumes "kind \<in> set sure_kinds"
  shows "fst (partial_badsum env kind task c st) \<noteq> c"
proof -
  have "bit (not c) 0 \<longleftrightarrow> \<not> bit c 0" by (simp add: bit_simps)
  then have nn: "not c \<noteq> c" by auto
  have i: "c - 0x0100 \<noteq> c" "c + 1 \<noteq> c" by simp_all
  from assms show ?thesis
    unfolding sure_kinds_def set_simps
    by (elim insertE emptyE)
      (simp_all add: partial_badsum_def nn i lower_upper_change xor_changes sum_patterns_nonzero bit_of_nonneg)
qed

text \<open>
  Which of the \<open>--partial-badsum\<close> kinds do what they are for: eleven of them change every
  checksum they are given, whatever the engine and the counters hold; \<open>carry-break\<close>, whose two
  steps cancel, leaves every checksum but 0 as it is.
\<close>

theorem partial_badsum_effect:
  "(\<forall>kind \<in> set sure_kinds. fst (partial_badsum env kind task c st) \<noteq> c) \<and>
   fst (partial_badsum env ''carry-break'' task c st) = (if c = 0 then 0xFFFF else c)"
  using sure_kinds_change carry_break_value [of c] by (simp add: partial_badsum_def Let_def)

theorem partial_badsum_effect_witness:
  "fst (partial_badsum env_example ''goodbye'' (packet_task_default 7) 0x1234 state_example) \<noteq> 0x1234 \<and>
   fst (partial_badsum env_example ''carry-break'' (packet_task_default 7) 0x1234 state_example) = 0x1234"
  using partial_badsum_effect [where env = env_example and task = "packet_task_default 7" and c = "0x1234" and st = state_example]
  by (auto simp: sure_kinds_def)

end
