(* ===== verification/Fragment.thy ===== *)
theory Fragment
  imports Packet "HOL-Library.Multiset"
begin

text \<open>
  Fragmentation in \<open>send_tcp_packets\<close> (src/scan.cpp, lines 2039 to 2223): cutting every built
  packet with a fragmentation step into fragments, one buffer of the pool each, \<open>--frag-overlap\<close>,
  and the orders of \<open>--frag-zof\<close> and \<open>--frag-ooo\<close>. Against it stands the reassembly a
  receiver performs. The global \<open>terminate_flag\<close> is taken to stay clear; the pool is the
  number of buffers it can still hand out.
\<close>

section \<open>The fragmentation loop\<close>

text \<open>One round: source offset, length, the offset field in 8-byte units, and whether it is the last.\<close>

record frag_piece =
  fp_src :: nat
  fp_chunk :: nat
  fp_units :: u16
  fp_last :: bool

definition frag_round :: "nat \<Rightarrow> bool \<Rightarrow> nat \<Rightarrow> nat \<Rightarrow> nat \<Rightarrow> bool \<Rightarrow> frag_piece \<times> nat" where
  "frag_round step overlap overlap_bytes data_total data_off first =
     (let back = (overlap \<and> \<not> first \<and> overlap_bytes > 0 \<and> data_off \<ge> overlap_bytes);
          src_off = (if back then data_off - overlap_bytes else data_off);
          off_units = of_nat (src_off div 8);
          chunk = min step (data_total - src_off);
          chunk = (if src_off + chunk > data_total then data_total - src_off else chunk);
          advance = min step (data_total - data_off)
      in (\<lparr>fp_src = src_off, fp_chunk = chunk, fp_units = off_units,
           fp_last = (data_off + advance \<ge> data_total)\<rparr>, advance))"

text \<open>The loop; \<open>None\<close> when the pool runs dry. A step of 0 never gets here.\<close>

function frag_pieces :: "nat \<Rightarrow> bool \<Rightarrow> nat \<Rightarrow> nat \<Rightarrow> nat \<Rightarrow> bool \<Rightarrow> nat \<Rightarrow> frag_piece list option" where
  "frag_pieces step overlap overlap_bytes data_total data_off first pool =
     (if data_off < data_total \<and> 0 < step then
        (let (piece, advance) = frag_round step overlap overlap_bytes data_total data_off first in
         if pool = 0 then None
         else map_option (Cons piece)
           (frag_pieces step overlap overlap_bytes data_total (data_off + advance) False (pool - 1)))
      else Some [])"
  by pat_completeness auto
termination
  by (relation "measure (\<lambda>(step, ov, ob, tot, off, first, pool). tot - off)")
    (auto simp: frag_round_def Let_def)

declare frag_pieces.simps [simp del]

section \<open>Writing a fragment\<close>

definition put_be16 :: "nat \<Rightarrow> u16 \<Rightarrow> bytes \<Rightarrow> bytes" where
  "put_be16 i w b = b[i := ucast (drop_bit 8 w), Suc i := ucast w]"

definition emit4 :: "bytes \<Rightarrow> nat \<Rightarrow> frag_piece \<Rightarrow> bytes" where
  "emit4 pkt ip_hlen f =
     (let off_field = (if fp_last f then fp_units f else or (fp_units f) 0x2000);
          hdr = put_le16 10 0 (put_be16 6 off_field (put_be16 2 (of_nat (ip_hlen + fp_chunk f)) (take ip_hlen pkt)))
      in put_le16 10 (ip_checksum hdr) hdr @ take (fp_chunk f) (drop (ip_hlen + fp_src f) pkt))"

definition emit6 :: "bytes \<Rightarrow> frag_piece \<Rightarrow> bytes" where
  "emit6 pkt f =
     (let off_mf = push_bit 3 (fp_units f);
          off_mf = (if fp_last f then off_mf else or off_mf IP6F_MORE_FRAG)
      in put_be16 4 (of_nat (8 + fp_chunk f)) (take 40 pkt) @
         [pkt ! 40, 0] @ be16 off_mf @ take 4 (drop 44 pkt) @ take (fp_chunk f) (drop (48 + fp_src f) pkt))"

definition fragments ::
    "nat \<Rightarrow> bool \<Rightarrow> nat \<Rightarrow> bool \<Rightarrow> bytes \<Rightarrow> nat \<Rightarrow> bytes list option" where
  "fragments step overlap overlap_bytes is_ipv6 pkt pool =
     (if is_ipv6
      then map_option (map (emit6 pkt))
        (frag_pieces step overlap overlap_bytes (length pkt - 40 - 8) 0 True pool)
      else (let ip_hlen = 4 * unat (and (pkt ! 0) 15) in
        map_option (map (emit4 pkt ip_hlen))
          (frag_pieces step overlap overlap_bytes (length pkt - ip_hlen) 0 True pool)))"

section \<open>The batch\<close>

definition reorder ::
    "(bytes list \<Rightarrow> rng \<Rightarrow> bytes list \<times> rng) \<Rightarrow> bool \<Rightarrow> bool \<Rightarrow> bytes list \<Rightarrow> rng \<Rightarrow> bytes list \<times> rng" where
  "reorder shuffle zof out_of_order fs r =
     (if length fs > 1 then
        (let fs = (if zof then rotate1 fs else fs) in if out_of_order then shuffle fs r else (fs, r))
      else (fs, r))"

text \<open>
  All packets of the batch, each with its step and family: the fragments per packet, the number
  of packets dropped for want of buffers, the pool and the engine afterwards. The packet's own
  buffer goes back to the pool in either case.
\<close>

fun fragment_batch ::
    "(bytes list \<Rightarrow> rng \<Rightarrow> bytes list \<times> rng) \<Rightarrow> bool \<Rightarrow> nat \<Rightarrow> bool \<Rightarrow> bool \<Rightarrow>
     (bytes \<times> u16 \<times> bool) list \<Rightarrow> nat \<Rightarrow> rng \<Rightarrow> bytes list list \<times> nat \<times> nat \<times> rng" where
  "fragment_batch shuffle overlap ob zof ooo [] pool r = ([], 0, pool, r)"
| "fragment_batch shuffle overlap ob zof ooo ((pkt, step, is_ipv6) # pkts) pool r =
     (if step = 0 then fragment_batch shuffle overlap ob zof ooo pkts pool r
      else (case fragments (unat step) overlap ob is_ipv6 pkt pool of
          None \<Rightarrow> (let (fss, lost, pool', r') = fragment_batch shuffle overlap ob zof ooo pkts (pool + 1) r
                   in (fss, lost + 1, pool', r'))
        | Some fs \<Rightarrow>
            (let (fs', r') = reorder shuffle zof ooo fs r;
                 (fss, lost, pool', r'') = fragment_batch shuffle overlap ob zof ooo pkts (pool - length fs + 1) r'
             in (fs' # fss, lost, pool', r''))))"

section \<open>Reassembly\<close>

text \<open>
  A fragment as a receiver sees it: the offset of its data, the more-fragments flag, the data.
  It sorts what it got by offset and accepts when the data is contiguous from 0 and exactly the
  last fragment has the flag clear.
\<close>

definition decode4 :: "bytes \<Rightarrow> nat \<times> bool \<times> bytes" where
  "decode4 f = (let fl = get_be16 (f ! 6) (f ! 7); ihl = 4 * unat (and (f ! 0) 15) in
     (8 * unat (and fl 0x1FFF), bit fl 13, drop ihl f))"

definition decode6 :: "bytes \<Rightarrow> nat \<times> bool \<times> bytes" where
  "decode6 f = (let fl = get_be16 (f ! 42) (f ! 43) in
     (8 * unat (drop_bit 3 fl), bit fl 0, drop 48 f))"

fun glue :: "nat \<Rightarrow> (nat \<times> bool \<times> bytes) list \<Rightarrow> bytes option" where
  "glue off [] = None"
| "glue off [(o', mf, d)] = (if o' = off \<and> \<not> mf then Some d else None)"
| "glue off ((o', mf, d) # fs) =
     (if o' = off \<and> mf then map_option (\<lambda>rest. d @ rest) (glue (off + length d) fs) else None)"

definition reassemble :: "(nat \<times> bool \<times> bytes) list \<Rightarrow> bytes option" where
  "reassemble fs = glue 0 (sort_key fst fs)"

section \<open>The pieces of the loop\<close>

fun pieces_ok :: "nat \<Rightarrow> nat \<Rightarrow> nat \<Rightarrow> frag_piece list \<Rightarrow> bool" where
  "pieces_ok step tot off [] \<longleftrightarrow> tot \<le> off"
| "pieces_ok step tot off (f # fs) \<longleftrightarrow> off < tot \<and> fp_src f = off \<and> fp_chunk f = min step (tot - off) \<and>
     fp_units f = of_nat (off div 8) \<and> fp_last f = (tot \<le> off + step) \<and>
     pieces_ok step tot (off + min step (tot - off)) fs"

lemma frag_pieces_ok:
  "0 < step \<Longrightarrow> frag_pieces step False ob tot off first pool = Some fs \<Longrightarrow> pieces_ok step tot off fs"
proof (induction step "False" ob tot off first pool arbitrary: fs rule: frag_pieces.induct)
  case (1 step ob tot off first pool)
  show ?case
  proof (cases "off < tot")
    case True
    have r: "frag_round step False ob tot off first =
      (\<lparr>fp_src = off, fp_chunk = min step (tot - off), fp_units = of_nat (off div 8), fp_last = (tot \<le> off + step)\<rparr>,
       min step (tot - off))"
      using True "1.prems"(1) by (auto simp: frag_round_def Let_def min_def)
    from "1.prems" True r obtain fs' where
      fs: "fs = \<lparr>fp_src = off, fp_chunk = min step (tot - off), fp_units = of_nat (off div 8), fp_last = (tot \<le> off + step)\<rparr> # fs'"
      and rec: "frag_pieces step False ob tot (off + min step (tot - off)) False (pool - 1) = Some fs'" and pool: "pool \<noteq> 0"
      by (subst (asm) frag_pieces.simps) (auto split: if_splits)
    have "pieces_ok step tot (off + min step (tot - off)) fs'"
      using "1.hyps" [OF _ r [symmetric] refl pool _ rec] True "1.prems"(1) by simp
    then show ?thesis using True by (simp add: fs)
  next
    case False
    then show ?thesis using "1.prems" by (subst (asm) frag_pieces.simps) auto
  qed
qed

lemma pieces_offsets:
  "pieces_ok step tot off fs \<Longrightarrow> 0 < step \<Longrightarrow> f \<in> set fs \<Longrightarrow>
   off \<le> fp_src f \<and> fp_src f < tot \<and> fp_src f + fp_chunk f \<le> tot \<and> fp_units f = of_nat (fp_src f div 8)"
  by (induction fs arbitrary: off) (fastforce simp: min_def)+

lemma pieces_sorted:
  "pieces_ok step tot off fs \<Longrightarrow> 0 < step \<Longrightarrow> sorted (map fp_src fs) \<and> distinct (map fp_src fs)"
proof (induction fs arbitrary: off)
  case Nil
  then show ?case by simp
next
  case (Cons f fs)
  have "off + min step (tot - off) \<le> fp_src g" if "g \<in> set fs" for g
    using pieces_offsets that Cons.prems by auto
  then have "\<forall>g \<in> set fs. fp_src f < fp_src g" using Cons.prems by force
  then show ?case using Cons by auto
qed

lemma pieces_mod8:
  "pieces_ok step tot off fs \<Longrightarrow> 0 < step \<Longrightarrow> step mod 8 = 0 \<Longrightarrow> off mod 8 = 0 \<Longrightarrow> f \<in> set fs \<Longrightarrow> fp_src f mod 8 = 0"
proof (induction fs arbitrary: off)
  case Nil
  then show ?case by simp
next
  case (Cons g fs)
  show ?case
  proof (cases "tot \<le> off + step")
    case True
    then have "fs = []" using Cons.prems(1) by (cases fs) auto
    then show ?thesis using Cons.prems by auto
  next
    case False
    then have "(off + min step (tot - off)) mod 8 = 0" 
      using Cons.prems(3,4) by (auto simp: min_def mod_eq_0_iff_dvd)
    then show ?thesis using Cons False by (auto simp: min_def)
  qed
qed

text \<open>Glued in order, the pieces are the data.\<close>

lemma glue_pieces:
  assumes "pieces_ok step (length data) off fs" and "0 < step" and "fs \<noteq> []"
  shows "glue off (map (\<lambda>f. (fp_src f, \<not> fp_last f, take (fp_chunk f) (drop (fp_src f) data))) fs) = Some (drop off data)"
  using assms
proof (induction fs arbitrary: off)
  case Nil
  then show ?case by simp
next
  case (Cons f fs)
  show ?case
  proof (cases fs)
    case Nil
    then show ?thesis using Cons.prems by (auto simp: min_def split: if_splits)
  next
    case (Cons g gs)
    then have "\<not> length data \<le> off + step" and m: "min step (length data - off) = step"
      using Cons.prems(1) by (auto simp: min_def split: if_splits)
    moreover have "glue (off + step) (map (\<lambda>f. (fp_src f, \<not> fp_last f, take (fp_chunk f) (drop (fp_src f) data))) fs) =
      Some (drop (off + step) data)"
      using Cons.IH [of "off + step"] Cons.prems Cons m by simp
    moreover have "take step (drop off data) @ drop (off + step) data = drop off data"
      by (metis add.commute append_take_drop_id drop_drop)
    ultimately show ?thesis using Cons.prems Cons by simp
  qed
qed

lemma sort_key_unique:
  assumes "mset xs = mset ys" and "sorted (map k ys)" and "distinct (map k ys)"
  shows "sort_key k xs = ys"
proof (rule properties_for_sort_key)
  show "mset ys = mset xs" using assms(1) by simp
  show "sorted (map k ys)" by (rule assms(2))
  fix x assume "x \<in> set ys"
  have f: "filter (\<lambda>y. k x = k y) ys = [x]"
    using assms(3) \<open>x \<in> set ys\<close> by (induction ys) (auto simp: filter_empty_conv image_iff)
  have "mset (filter (\<lambda>y. k x = k y) xs) = mset (filter (\<lambda>y. k x = k y) ys)"
    by (simp add: assms(1))
  then have "filter (\<lambda>y. k x = k y) xs = [x]" unfolding f by (simp only: mset.simps add_mset_add_single [symmetric] mset_single_iff) 
  then show "filter (\<lambda>y. k x = k y) ys = filter (\<lambda>y. k x = k y) xs" by (simp only: f)
qed

section \<open>What a fragment decodes to\<close>

lemma put_be16_simps [simp]:
  "length (put_be16 i w b) = length b"
  "i + 2 \<le> length b \<Longrightarrow> get_be16 (put_be16 i w b ! i) (put_be16 i w b ! Suc i) = w"
  "j \<noteq> i \<Longrightarrow> j \<noteq> Suc i \<Longrightarrow> put_be16 i w b ! j = b ! j"
  using get_be16_be16 [of w] by (auto simp: put_be16_def be16_def nth_list_update)

lemma put_le16_simps [simp]:
  "length (put_le16 i w b) = length b"
  "j \<noteq> i \<Longrightarrow> j \<noteq> Suc i \<Longrightarrow> put_le16 i w b ! j = b ! j"
  by (auto simp: put_le16_def nth_list_update)

text \<open>The header of a fragment: the fields that were written, and the rest as in the packet.\<close>

definition hdr4 :: "bytes \<Rightarrow> nat \<Rightarrow> frag_piece \<Rightarrow> bytes" where
  "hdr4 pkt ip_hlen f = put_le16 10 0 (put_be16 6 (if fp_last f then fp_units f else or (fp_units f) 0x2000)
     (put_be16 2 (of_nat (ip_hlen + fp_chunk f)) (take ip_hlen pkt)))"

lemma emit4_hdr:
  "emit4 pkt ip_hlen f = put_le16 10 (ip_checksum (hdr4 pkt ip_hlen f)) (hdr4 pkt ip_hlen f) @
     take (fp_chunk f) (drop (ip_hlen + fp_src f) pkt)"
  by (simp add: emit4_def hdr4_def Let_def)

lemma hdr4_fields:
  assumes "20 \<le> ip_hlen" and "ip_hlen \<le> length pkt"
  shows "length (hdr4 pkt ip_hlen f) = ip_hlen" and "hdr4 pkt ip_hlen f ! 0 = pkt ! 0"
    and "get_be16 (hdr4 pkt ip_hlen f ! 6) (hdr4 pkt ip_hlen f ! 7) = (if fp_last f then fp_units f else or (fp_units f) 0x2000)"
    and "get_be16 (hdr4 pkt ip_hlen f ! 2) (hdr4 pkt ip_hlen f ! 3) = of_nat (ip_hlen + fp_chunk f)"
    and "hdr4 pkt ip_hlen f ! 10 = 0" and "hdr4 pkt ip_hlen f ! 11 = 0"
proof -
  define b where "b = put_be16 2 (of_nat (ip_hlen + fp_chunk f)) (take ip_hlen pkt)"
  define c where "c = put_be16 6 (if fp_last f then fp_units f else or (fp_units f) 0x2000) b"
  have h: "hdr4 pkt ip_hlen f = put_le16 10 0 c" by (simp add: hdr4_def c_def b_def)
  have l: "length b = ip_hlen" "length c = ip_hlen" using assms by (simp_all add: b_def c_def)
  show "length (hdr4 pkt ip_hlen f) = ip_hlen" by (simp add: h l)
  have "c ! 0 = b ! 0" "b ! 0 = pkt ! 0" using assms by (simp_all add: c_def b_def)
  then show "hdr4 pkt ip_hlen f ! 0 = pkt ! 0" by (simp add: h)
  show "get_be16 (hdr4 pkt ip_hlen f ! 6) (hdr4 pkt ip_hlen f ! 7) = (if fp_last f then fp_units f else or (fp_units f) 0x2000)"
    using put_be16_simps(2) [of 6 b] l assms(1) by (simp add: h c_def)
  have "get_be16 (b ! 2) (b ! 3) = of_nat (ip_hlen + fp_chunk f)"
    using put_be16_simps(2) [of 2 "take ip_hlen pkt"] assms by (simp add: b_def)
  then show "get_be16 (hdr4 pkt ip_hlen f ! 2) (hdr4 pkt ip_hlen f ! 3) = of_nat (ip_hlen + fp_chunk f)"
    by (simp add: h c_def)
  show "hdr4 pkt ip_hlen f ! 10 = 0" and "hdr4 pkt ip_hlen f ! 11 = 0"
    using assms l by (simp_all add: h put_le16_def nth_list_update)
qed

lemma offset_field:
  assumes "n < 8192"
  shows "and (of_nat n :: u16) 0x1FFF = of_nat n" and "and (or (of_nat n :: u16) 0x2000) 0x1FFF = of_nat n"
    and "\<not> bit (of_nat n :: u16) 13" and "bit (or (of_nat n :: u16) 0x2000) 13"
proof -
  have u: "unat (of_nat n :: u16) = n" using assms by (simp add: unat_of_nat)
  have b: "\<not> bit (of_nat n :: u16) k" if "13 \<le> k" for k
  proof
    assume "bit (of_nat n :: u16) k"
    then have "bit (unat (of_nat n :: u16)) k" by (simp add: bit_unsigned_iff bit_imp_le_length)
    then have "odd (n div 2 ^ k)" unfolding u by (simp add: bit_iff_odd)
    moreover have "n < 2 ^ k"
      using assms power_increasing [of 13 k "2 :: nat"] that by simp
    ultimately show False by simp
  qed
  define w where "w = (of_nat n :: u16)"
  have lt: "bit w k \<Longrightarrow> k < 13" for k using b [of k] unfolding w_def [symmetric] by (meson not_less)
  have m: "(0x1FFF :: u16) = mask 13" by (simp add: mask_eq_exp_minus_1)
  have "(0x2000 :: u16) = push_bit 13 1" by (simp add: push_bit_eq_mult)
  then have b13: "bit (0x2000 :: u16) k \<longleftrightarrow> k = 13" for k
    by (simp only: bit_push_bit_iff bit_1_iff) auto
  show "and (of_nat n :: u16) 0x1FFF = of_nat n"
    unfolding m w_def [symmetric] by (intro bit_word_eqI) (auto simp: bit_simps dest: lt)
  show "\<not> bit (of_nat n :: u16) 13" by (rule b) simp
  show "and (or (of_nat n :: u16) 0x2000) 0x1FFF = of_nat n"
    unfolding m w_def [symmetric] by (intro bit_word_eqI) (auto simp: bit_and_iff bit_or_iff bit_mask_iff b13 simp del: bit_numeral_word_iff dest: lt)
  show "bit (or (of_nat n :: u16) 0x2000) 13" by (simp add: bit_or_iff b13)
qed

lemma decode_emit4:
  assumes "20 \<le> ip_hlen" and "ip_hlen \<le> length pkt" and "4 * unat (and (pkt ! 0) 15) = ip_hlen"
    and "fp_units f = of_nat (fp_src f div 8)" and "fp_src f mod 8 = 0" and "fp_src f \<le> 65535"
  shows "decode4 (emit4 pkt ip_hlen f) =
    (fp_src f, \<not> fp_last f, take (fp_chunk f) (drop (fp_src f) (drop ip_hlen pkt)))"
proof -
  define h where "h = put_le16 10 (ip_checksum (hdr4 pkt ip_hlen f)) (hdr4 pkt ip_hlen f)"
  have l: "length h = ip_hlen" using hdr4_fields(1) [OF assms(1,2)] by (simp add: h_def)
  have e: "emit4 pkt ip_hlen f = h @ take (fp_chunk f) (drop (fp_src f) (drop ip_hlen pkt))"
    by (simp add: emit4_hdr h_def add.commute)
  have n: "(emit4 pkt ip_hlen f) ! i = h ! i" if "i < 20" for i
    using that l assms(1) by (simp add: e nth_append)
  have h: "h ! 0 = pkt ! 0" "h ! 6 = hdr4 pkt ip_hlen f ! 6" "h ! 7 = hdr4 pkt ip_hlen f ! 7"
    using hdr4_fields(2) [OF assms(1,2)] by (simp_all add: h_def)
  define k where "k = fp_src f div 8"
  have k: "k < 8192" "8 * k = fp_src f" using assms(5,6) by (auto simp: k_def)
  have uk: "unat (of_nat k :: u16) = k" using k(1) by (simp add: unat_of_nat)
  have fl: "get_be16 (emit4 pkt ip_hlen f ! 6) (emit4 pkt ip_hlen f ! 7) = (if fp_last f then of_nat k else or (of_nat k) 0x2000)"
    using hdr4_fields(3) [OF assms(1,2), of f] by (simp add: n h assms(4) k_def)
  have "drop ip_hlen (emit4 pkt ip_hlen f) = take (fp_chunk f) (drop (fp_src f) (drop ip_hlen pkt))"
    by (simp add: e l)
  then show ?thesis
    unfolding decode4_def Let_def fl using offset_field [OF k(1)] k(2) uk by (simp add: n h assms(3))
qed

text \<open>
  C15. IPv4 fragmentation at a step that is a multiple of 8, without \<open>--frag-overlap\<close>: in
  whatever order the fragments arrive (\<open>--frag-zof\<close>, \<open>--frag-ooo\<close>), the receiver
  reassembles exactly the data of the packet; every fragment has a header checksum that verifies
  and a total-length field that is its length.
\<close>

theorem fragments_reassemble:
  assumes "4 * unat (and (pkt ! 0) 15) = ip_hlen" and "20 \<le> ip_hlen" and "ip_hlen < length pkt"
    and "length pkt \<le> 65535" and "0 < step" and "step mod 8 = 0"
    and "fragments step False ob False pkt pool = Some fs" and "mset fs' = mset fs"
  shows "reassemble (map decode4 fs') = Some (drop ip_hlen pkt) \<and>
    (\<forall>f \<in> set fs. verifies (take ip_hlen f) \<and> unat (get_be16 (f ! 2) (f ! 3)) = length f)"
proof -
  define data where "data = drop ip_hlen pkt"
  obtain ps where ps: "frag_pieces step False ob (length data) 0 True pool = Some ps"
    and fs: "fs = map (emit4 pkt ip_hlen) ps"
    using assms(1,7) by (auto simp: fragments_def Let_def data_def)
  have ok: "pieces_ok step (length data) 0 ps" by (rule frag_pieces_ok [OF assms(5) ps])
  have "data \<noteq> []" using assms(3) by (simp add: data_def)
  then have "ps \<noteq> []" using ok by auto
  have off: "fp_src f < length data \<and> fp_src f + fp_chunk f \<le> length data \<and> fp_units f = of_nat (fp_src f div 8) \<and> fp_src f mod 8 = 0"
    if "f \<in> set ps" for f
    using pieces_offsets [OF ok assms(5) that] pieces_mod8 [OF ok assms(5,6) _ that] by simp
  have dec: "map decode4 fs = map (\<lambda>f. (fp_src f, \<not> fp_last f, take (fp_chunk f) (drop (fp_src f) data))) ps"
    unfolding fs map_map
  proof (rule map_cong [OF refl])
    fix f assume "f \<in> set ps"
    note o = off [OF this]
    have "fp_src f \<le> 65535" using o assms(3,4) unfolding data_def length_drop by linarith
    with o show "(decode4 \<circ> emit4 pkt ip_hlen) f = (fp_src f, \<not> fp_last f, take (fp_chunk f) (drop (fp_src f) data))"
      using decode_emit4 [OF assms(2) _ assms(1)] assms(3,4) by (simp add: data_def)
  qed
  have "map fst (map decode4 fs) = map fp_src ps" by (simp add: dec comp_def)
  moreover have "mset (map decode4 fs') = mset (map decode4 fs)" using assms(8) by simp
  ultimately have "sort_key fst (map decode4 fs') = map decode4 fs"
    using pieces_sorted [OF ok assms(5)] by (intro sort_key_unique) (simp_all only:)
  then have "reassemble (map decode4 fs') = Some data"
    using glue_pieces [OF ok assms(5) \<open>ps \<noteq> []\<close>] by (simp add: reassemble_def dec)
  moreover have "verifies (take ip_hlen f) \<and> unat (get_be16 (f ! 2) (f ! 3)) = length f" if f_in: "f \<in> set fs" for f
  proof -
    from f_in obtain q where q: "q \<in> set ps" "f = emit4 pkt ip_hlen q" by (auto simp: fs)
    define h where "h = hdr4 pkt ip_hlen q"
    note hf = hdr4_fields [OF assms(2) less_imp_le [OF assms(3)], of q, folded h_def]
    have f: "f = put_le16 10 (ip_checksum h) h @ take (fp_chunk q) (drop (ip_hlen + fp_src q) pkt)"
      by (simp add: q emit4_hdr h_def)
    have "verifies (put_le16 10 (ip_checksum h) h)"
      using hf assms(2-4) by (intro ip_sum_verifies) simp_all
    moreover have "fp_chunk q \<le> length pkt - (ip_hlen + fp_src q)"
      using off [OF q(1)] unfolding data_def length_drop by linarith
    then have "length f = ip_hlen + fp_chunk q" using hf(1) by (simp add: f)
    moreover have "f ! 2 = h ! 2" "f ! 3 = h ! 3" using hf(1) assms(2) by (simp_all add: f nth_append)
    moreover have "ip_hlen + fp_chunk q \<le> 65535"
      using off [OF q(1)] assms(3,4) unfolding data_def length_drop by linarith
    then have "unat (of_nat (ip_hlen + fp_chunk q) :: u16) = ip_hlen + fp_chunk q" by (simp add: unat_of_nat del: of_nat_add)
    ultimately show ?thesis using hf(1,4) by (simp add: f)
  qed
  ultimately show ?thesis by (simp add: data_def)
qed

theorem fragments_reassemble_witness:
  "\<exists>fs. fragments 8 False 0 False (0x45 # replicate 19 0 @ [1, 2, 3, 4, 5, 6, 7, 8, 9]) 4 = Some fs \<and>
     reassemble (map decode4 (rev fs)) = Some [1, 2, 3, 4, 5, 6, 7, 8, 9]"
proof -
  let ?p = "0x45 # replicate 19 0 @ [1, 2, 3, 4, 5, 6, 7, 8, 9 :: u8]"
  have i: "4 * unat (and (?p ! 0) 15) = 20" by simp
  have "\<exists>fs. frag_pieces 8 False 0 9 0 True 4 = Some fs"
    by (simp add: frag_pieces.simps frag_round_def)
  then obtain fs where fs: "fragments 8 False 0 False ?p 4 = Some fs"
    by (auto simp: fragments_def Let_def)
  from fragments_reassemble [OF i _ _ _ _ _ this, of "rev fs"] fs show ?thesis by simp
qed

section \<open>IPv6\<close>

lemma decode_emit6:
  assumes "48 \<le> length pkt"
  shows "fst (snd (decode6 (emit6 pkt f))) = False"
proof -
  define off_mf where "off_mf = (if fp_last f then push_bit 3 (fp_units f) else or (push_bit 3 (fp_units f)) IP6F_MORE_FRAG)"
  define h where "h = put_be16 4 (of_nat (8 + fp_chunk f)) (take 40 pkt)"
  have h: "length h = 40" using assms by (simp add: h_def)
  have "emit6 pkt f = (h @ [pkt ! 40, 0]) @ be16 off_mf @ take 4 (drop 44 pkt) @ take (fp_chunk f) (drop (48 + fp_src f) pkt)"
    by (simp add: emit6_def h_def off_mf_def Let_def)
  then have "get_be16 (emit6 pkt f ! 42) (emit6 pkt f ! 43) = off_mf"
    using h get_be16_be16 [of off_mf] by (simp add: nth_append be16_def)
  moreover have "\<not> bit off_mf 0" by (simp add: off_mf_def bit_simps)
  ultimately show ?thesis by (simp add: decode6_def)
qed

lemma glue_no_flag: "2 \<le> length fs \<Longrightarrow> \<forall>f \<in> set fs. \<not> fst (snd f) \<Longrightarrow> glue off fs = None"
  by (cases fs rule: remdups_adj.cases) auto

lemma frag_pieces_two:
  assumes "0 < step" and "step < tot" and "frag_pieces step ov ob tot 0 True pool = Some fs"
  shows "2 \<le> length fs"
proof -
  obtain p a where r: "frag_round step ov ob tot 0 True = (p, a)" by (cases "frag_round step ov ob tot 0 True")
  then have a: "a = step" using assms(2) by (auto simp: frag_round_def Let_def)
  from assms r obtain fs' where fs: "fs = p # fs'"
    and rec: "frag_pieces step ov ob tot step False (pool - 1) = Some fs'"
    by (subst (asm) frag_pieces.simps) (auto simp: a split: if_splits)
  from rec assms(1,2) have "fs' \<noteq> []"
    by (subst (asm) frag_pieces.simps) (auto split: if_splits prod.splits)
  then show ?thesis by (cases fs') (simp_all add: fs)
qed

text \<open>
  C39. IPv6 fragmentation does not work: whenever a packet needs more than one fragment, no order
  of arrival lets a receiver reassemble it. The more-fragments flag, byte-swapped twice, ends up
  in the offset field, and every fragment claims to be the last.
\<close>

theorem ipv6_fragments_unusable:
  assumes "0 < step" and "48 + step < length pkt"
    and "fragments step overlap ob True pkt pool = Some fs" and "mset fs' = mset fs"
  shows "reassemble (map decode6 fs') = None"
proof -
  obtain ps where ps: "frag_pieces step overlap ob (length pkt - 48) 0 True pool = Some ps"
    and fs: "fs = map (emit6 pkt) ps"
    using assms(3) by (auto simp: fragments_def)
  have "2 \<le> length fs'"
    using frag_pieces_two [OF assms(1) _ ps] assms(2) mset_eq_length [OF assms(4)] by (simp add: fs)
  moreover have "\<forall>f \<in> set fs'. \<not> fst (snd (decode6 f))"
    using mset_eq_setD [OF assms(4)] decode_emit6 [of pkt] assms(2) by (auto simp: fs)
  ultimately show ?thesis unfolding reassemble_def by (intro glue_no_flag) simp_all
qed

theorem ipv6_fragments_unusable_witness:
  "\<exists>fs. fragments 8 False 0 True (replicate 60 0) 4 = Some fs \<and> reassemble (map decode6 fs) = None"
proof -
  have "\<exists>fs. frag_pieces 8 False 0 12 0 True 4 = Some fs"
    by (simp add: frag_pieces.simps frag_round_def)
  then obtain fs where "fragments 8 False 0 True (replicate 60 0) 4 = Some fs"
    by (auto simp: fragments_def)
  with ipv6_fragments_unusable [OF _ _ this refl] show ?thesis by simp
qed

section \<open>Buffers and sizes\<close>

lemma frag_pieces_pool: "frag_pieces step ov ob tot off first pool = Some fs \<Longrightarrow> length fs \<le> pool"
proof (induction step ov ob tot off first pool arbitrary: fs rule: frag_pieces.induct)
  case (1 step ov ob tot off first pool)
  obtain p a where r: "frag_round step ov ob tot off first = (p, a)" by (cases "frag_round step ov ob tot off first")
  show ?case
  proof (cases "off < tot \<and> 0 < step")
    case True
    then obtain fs' where fs: "fs = p # fs'" "pool \<noteq> 0"
      and rec: "frag_pieces step ov ob tot (off + a) False (pool - 1) = Some fs'"
      using "1.prems" r by (subst (asm) frag_pieces.simps) (auto split: if_splits)
    then show ?thesis using "1.IH" [OF True r [symmetric] refl fs(2) rec] by simp
  next
    case False
    then show ?thesis using "1.prems" by (subst (asm) frag_pieces.simps) auto
  qed
qed

lemma fragments_pool: "fragments step ov ob v6 pkt pool = Some fs \<Longrightarrow> length fs \<le> pool"
  by (auto simp: fragments_def Let_def split: if_splits dest: frag_pieces_pool)

lemma length_reorder:
  assumes "\<forall>fs r. mset (fst (shuffle fs r)) = mset fs" and "reorder shuffle zof ooo fs r = (fs', r')"
  shows "length fs' = length fs"
proof -
  have "length (fst (shuffle gs r)) = length gs" for gs
    using assms(1) by (metis mset_eq_length)
  then have "length (fst (reorder shuffle zof ooo fs r)) = length fs"
    by (simp add: reorder_def Let_def)
  with assms(2) show ?thesis by simp
qed

text \<open>
  The batch accounts for every buffer and every packet: what the pool can hand out
  afterwards, plus the fragments kept, is what it could before plus the buffers of the fragmented
  packets; and each fragmented packet is either kept as its fragments or counted as lost.
\<close>

theorem fragment_batch_conserves:
  assumes "\<forall>fs r. mset (fst (shuffle fs r)) = mset fs"
    and "fragment_batch shuffle overlap ob zof ooo pkts pool r = (fss, lost, pool', r')"
  shows "pool' + sum_list (map length fss) = pool + length (filter (\<lambda>(pkt, step, v6). step \<noteq> 0) pkts) \<and>
    lost + length fss = length (filter (\<lambda>(pkt, step, v6). step \<noteq> 0) pkts)"
  using assms(2)
proof (induction pkts arbitrary: pool r fss lost pool' r')
  case Nil
  then show ?case by simp
next
  case (Cons q pkts)
  obtain pkt step v6 where q: "q = (pkt, step, v6)" by (cases q) auto
  show ?case
  proof (cases "step = 0")
    case True
    then show ?thesis using Cons by (simp add: q)
  next
    case step: False
    show ?thesis
    proof (cases "fragments (unat step) overlap ob v6 pkt pool")
      case None
      obtain fss1 lost1 pool1 r1 where rec: "fragment_batch shuffle overlap ob zof ooo pkts (pool + 1) r = (fss1, lost1, pool1, r1)"
        by (metis prod_cases4)
      then show ?thesis using Cons.prems Cons.IH [OF rec] step None by (auto simp: q)
    next
      case (Some fs)
      obtain fs2 r2 where re: "reorder shuffle zof ooo fs r = (fs2, r2)" by (cases "reorder shuffle zof ooo fs r")
      obtain fss1 lost1 pool1 r1 where rec: "fragment_batch shuffle overlap ob zof ooo pkts (pool - length fs + 1) r2 = (fss1, lost1, pool1, r1)"
        by (metis prod_cases4)
      have "length fs \<le> pool" by (rule fragments_pool [OF Some])
      then show ?thesis
        using Cons.prems Cons.IH [OF rec] step Some re rec length_reorder [OF assms(1) re] by (auto simp: q)
    qed
  qed
qed

theorem fragment_batch_conserves_witness:
  "case fragment_batch (\<lambda>fs r. (rev fs, r)) False 0 True False [([], 8, False), ([], 0, True)] 4 (\<lambda>_. 0) of
     (fss, lost, pool', _) \<Rightarrow> pool' + sum_list (map length fss) = 5 \<and> lost + length fss = 1"
proof -
  obtain fss lost pool' r' where b: "fragment_batch (\<lambda>fs r. (rev fs, r)) False 0 True False [([], 8, False), ([], 0, True)] 4 (\<lambda>_. 0) =
    (fss, lost, pool', r')" by (metis prod_cases4)
  from fragment_batch_conserves [OF _ b] show ?thesis unfolding b by simp
qed

lemma piece_lengths:
  assumes "0 < step" and "pieces_ok step tot off ps"
  shows "\<forall>f \<in> set ps. fp_chunk f \<le> step" and "off + step \<le> tot \<Longrightarrow> fp_chunk (hd ps) = step"
  using assms by (induction ps arbitrary: off) (auto simp: min_def)

lemma mtu_step:
  assumes "28 \<le> unat (mtu_size opts)"
  shows "unat (frag_step opts False) = (unat (mtu_size opts) - 20) div 8 * 8"
proof -
  define m where "m = unat (mtu_size opts)"
  have m: "28 \<le> m" "m < 65536" using assms unat_u16 [of "mtu_size opts"] by (simp_all add: m_def)
  have "20 \<le> mtu_size opts" using m by (simp add: word_le_nat_alt m_def [symmetric])
  then have "unat (mtu_size opts - 20) = m - 20" by (simp add: unat_sub m_def)
  then have d: "unat ((mtu_size opts - 20) div 8 * 8) = (m - 20) div 8 * 8"
    using m by (simp add: unat_word_ariths unat_div)
  have "8 \<le> (m - 20) div 8 * 8" using div_le_mono [of 8 "m - 20" 8] m(1) by simp
  then have "\<not> (mtu_size opts - 20) div 8 * 8 < 8" by (simp add: word_less_nat_alt d)
  moreover have "mtu_size opts > 0" using m by (simp add: word_less_nat_alt m_def [symmetric])
  ultimately show ?thesis by (simp add: frag_step_def fragmenting_def d m_def)
qed

text \<open>
  \<open>--mtu\<close>: every fragment of an IPv4 packet has at most the MTU's length when the header
  has no options; with options the header is not taken off the step, and a first full fragment is
  longer than the MTU as soon as the rounding to 8 bytes leaves no slack.
\<close>

theorem mtu_respected:
  assumes "28 \<le> unat (mtu_size opts)" and "4 * unat (and (pkt ! 0) 15) = ip_hlen"
    and "20 \<le> ip_hlen" and "ip_hlen < length pkt"
    and "fragments (unat (frag_step opts False)) False ob False pkt pool = Some fs"
  shows "(ip_hlen = 20 \<longrightarrow> (\<forall>f \<in> set fs. length f \<le> unat (mtu_size opts))) \<and>
    (ip_hlen + unat (frag_step opts False) \<le> length pkt \<longrightarrow>
      length (hd fs) = ip_hlen + (unat (mtu_size opts) - 20) div 8 * 8)"
proof -
  define s where "s = unat (frag_step opts False)"
  have s: "s = (unat (mtu_size opts) - 20) div 8 * 8" unfolding s_def by (rule mtu_step [OF assms(1)])
  have pos: "0 < s" using div_le_mono [of 8 "unat (mtu_size opts) - 20" 8] assms(1) by (simp add: s)
  have le: "s + 20 \<le> unat (mtu_size opts)" using assms(1) unfolding s by presburger
  obtain ps where ps: "frag_pieces s False ob (length pkt - ip_hlen) 0 True pool = Some ps"
    and fs: "fs = map (emit4 pkt ip_hlen) ps"
    using assms(2,5) by (auto simp: fragments_def Let_def s_def)
  have ok: "pieces_ok s (length pkt - ip_hlen) 0 ps" by (rule frag_pieces_ok [OF pos ps])
  have len: "length (emit4 pkt ip_hlen f) = ip_hlen + min (fp_chunk f) (length pkt - (ip_hlen + fp_src f))" for f
    using hdr4_fields(1) [OF assms(3) less_imp_le [OF assms(4)]] by (simp add: emit4_hdr min.commute)
  have "length f \<le> ip_hlen + s" if "f \<in> set fs" for f
    using that piece_lengths(1) [OF pos ok] by (auto simp: fs len intro: le_trans [OF min.cobounded1])
  then have "ip_hlen = 20 \<Longrightarrow> \<forall>f \<in> set fs. length f \<le> unat (mtu_size opts)" using le by force
  moreover have "length (hd fs) = ip_hlen + s" if "ip_hlen + s \<le> length pkt"
  proof -
    have "ps \<noteq> []" using ok assms(4) by auto
    moreover have "fp_src (hd ps) = 0" using ok \<open>ps \<noteq> []\<close> by (cases ps) auto
    ultimately show ?thesis using piece_lengths(2) [OF pos ok] that by (simp add: fs hd_map len)
  qed
  ultimately show ?thesis using s by (simp add: s_def [symmetric])
qed

theorem mtu_respected_witness:
  "\<exists>fs. fragments 8 False 0 False (0x46 # replicate 40 0) 9 = Some fs \<and> length (hd fs) = 32"
proof -
  let ?o = "tcp_build_default\<lparr>mtu_size := 30\<rparr>"
  have m: "unat (mtu_size ?o) = 30" by simp
  have f: "unat (frag_step ?o False) = 8" using mtu_step [of ?o] by simp
  have "\<exists>fs. frag_pieces 8 False 0 17 0 True 9 = Some fs"
    by (simp add: frag_pieces.simps frag_round_def)
  then obtain fs where fs: "fragments 8 False 0 False (0x46 # replicate 40 0) 9 = Some fs"
    by (auto simp: fragments_def Let_def)
  with mtu_respected [of ?o "0x46 # replicate 40 0" 24 0 9 fs] f m show ?thesis by simp
qed

end
