(* ===== verification/Dns.thy ===== *)
theory Dns
  imports Cxx_Num "HOL-Library.Monad_Syntax"
begin

text \<open>
  The DNS wire format of src/dns_enum.cpp, lines 51 to 369: names, queries and the parser of
  answers. A read of the message is \<open>rd\<close>: \<open>None\<close> is a read past its end, which C++ leaves
  undefined, so that a function that returns \<open>Some\<close> has read inside the message only.
\<close>

text \<open>\<open>inet_ntop\<close> for the two families.\<close>

record ntop_env =
  ntop4 :: "bytes \<Rightarrow> string"
  ntop6 :: "bytes \<Rightarrow> string"

record dns_record =
  rec_type :: u16
  rec_name :: string
  rec_value :: string
  rec_ttl :: u32
  rec_source :: string

declare Option.bind_cong [fundef_cong]

section \<open>Names and queries\<close>

abbreviation (input) DOT :: char where "DOT \<equiv> CHR ''.''"

text \<open>The loop of \<open>encode_name\<close> from \<open>start\<close> on; a label longer than 63 is cut.\<close>

function encode_labels :: "string \<Rightarrow> nat \<Rightarrow> bytes" where
  "encode_labels h start =
     (if start < length h then
        (let dot = str_find h DOT start;
             len = (case dot of None \<Rightarrow> length h - start | Some d \<Rightarrow> d - start);
             len = (if len > 63 then 63 else len)
         in of_nat len # map of_char (substr h start len) @
            (case dot of None \<Rightarrow> [] | Some d \<Rightarrow> encode_labels h (d + 1)))
      else [])"
  by pat_completeness auto
termination
  by (relation "measure (\<lambda>(h, start). length h - start)")
    (auto dest!: str_find_Some(1) [OF sym] simp: diff_less_mono2)

declare encode_labels.simps [simp del]

definition encode_name :: "string \<Rightarrow> bytes" where
  "encode_name host =
     (let h = (if host \<noteq> [] \<and> last host = DOT then butlast host else host) in encode_labels h 0 @ [0])"

definition build_query :: "u16 \<Rightarrow> string \<Rightarrow> u16 \<Rightarrow> bool \<Rightarrow> bytes" where
  "build_query txn_id host qtype edns0 =
     be16 txn_id @ be16 0x0100 @ be16 1 @ be16 0 @ be16 0 @ be16 (if edns0 then 1 else 0) @
     encode_name host @ be16 qtype @ be16 1 @
     (if edns0 then [0] @ be16 41 @ be16 4096 @ [0, 0, 0, 0] @ be16 0 else [])"

section \<open>Reading the message\<close>

definition rd :: "bytes \<Rightarrow> nat \<Rightarrow> u8 option" where
  "rd buf i = (if i < length buf then Some (buf ! i) else None)"

definition rd_bytes :: "bytes \<Rightarrow> nat \<Rightarrow> nat \<Rightarrow> bytes option" where
  "rd_bytes buf i n = (if i + n \<le> length buf then Some (take n (drop i buf)) else None)"

text \<open>\<open>memcpy\<close> of two or four bytes and \<open>ntohs\<close> or \<open>ntohl\<close>.\<close>

definition rd16 :: "bytes \<Rightarrow> nat \<Rightarrow> u16 option" where
  "rd16 buf i = do { b \<leftarrow> rd_bytes buf i 2; Some (get_be16 (b ! 0) (b ! 1)) }"

definition rd32 :: "bytes \<Rightarrow> nat \<Rightarrow> u32 option" where
  "rd32 buf i = do { b \<leftarrow> rd_bytes buf i 4; Some (get_be32 (b ! 0) (b ! 1) (b ! 2) (b ! 3)) }"

abbreviation (input) chars :: "bytes \<Rightarrow> string" where "chars bs \<equiv> map (\<lambda>b. char_of (unat b)) bs"

function skip_name :: "bytes \<Rightarrow> nat \<Rightarrow> nat option" where
  "skip_name buf pos =
     (if pos < length buf then do {
        b \<leftarrow> rd buf pos;
        if b = 0 then Some (pos + 1)
        else if and b 0xC0 = 0xC0 then Some (pos + 2)
        else skip_name buf (pos + 1 + unat b)
      } else Some pos)"
  by pat_completeness auto
termination
  by (relation "measure (\<lambda>(buf, pos). length buf - pos)") auto

declare skip_name.simps [simp del]

text \<open>
  The loop of \<open>decode_name\<close>: \<open>orig\<close> is \<open>original_pos\<close>, \<open>out\<close> the text so far. The result is
  the text and the position the function returns, on every exit. Each pointer counts a hop and
  each label moves forward, so the loop ends for every message.
\<close>

function decode_loop :: "bytes \<Rightarrow> nat \<Rightarrow> nat \<Rightarrow> bool \<Rightarrow> nat \<Rightarrow> string \<Rightarrow> (string \<times> nat) option" where
  "decode_loop buf pos orig jumped hops out =
     (if pos < length buf then do {
        b \<leftarrow> rd buf pos;
        if b = 0 then Some (out, if jumped then orig else pos + 1)
        else if and b 0xC0 = 0xC0 then
          (if pos + 1 \<ge> length buf then Some (out, orig)
           else do {
             c \<leftarrow> rd buf (pos + 1);
             let target = or (push_bit 8 (unat (and b 0x3F))) (unat c);
                 orig' = (if \<not> jumped then pos + 2 else orig);
                 hops' = hops + 1
             in if hops' > 128 then Some (out, orig') else decode_loop buf target orig' True hops' out
           })
        else if pos + 1 + unat b > length buf then Some (out, orig)
        else do {
          label \<leftarrow> rd_bytes buf (pos + 1) (unat b);
          decode_loop buf (pos + 1 + unat b) orig jumped hops
            ((if out \<noteq> [] then out @ [DOT] else out) @ chars label)
        }
      } else Some (out, if jumped then orig else pos))"
  by pat_completeness auto
termination
  by (relation "measures [\<lambda>(buf, pos, orig, jumped, hops, out). 129 - hops,
                          \<lambda>(buf, pos, orig, jumped, hops, out). length buf - pos]") auto

declare decode_loop.simps [simp del]

definition decode_name :: "bytes \<Rightarrow> nat \<Rightarrow> (string \<times> nat) option" where
  "decode_name buf pos = decode_loop buf pos pos False 0 []"

section \<open>Rendering resource data\<close>

definition show_u16 :: "u16 \<Rightarrow> string" where "show_u16 w = show_nat (unat w)"

definition show_u8 :: "u8 \<Rightarrow> string" where "show_u8 w = show_nat (unat w)"

definition to_hex :: "bytes \<Rightarrow> string" where
  "to_hex bs = concat (map (\<lambda>b. [''0123456789abcdef'' ! (unat b div 16), ''0123456789abcdef'' ! (unat b mod 16)]) bs)"

text \<open>A name alone, as of NS, CNAME, PTR and DNAME records.\<close>

definition name_at :: "bytes \<Rightarrow> nat \<Rightarrow> string option" where
  "name_at buf pos = do { (name, _) \<leftarrow> decode_name buf pos; Some name }"

text \<open>TXT: strings with a length byte each; only the position of a length byte is held against the end of the data.\<close>

function txt_loop :: "bytes \<Rightarrow> nat \<Rightarrow> nat \<Rightarrow> string \<Rightarrow> string option" where
  "txt_loop buf p stop out =
     (if p < stop \<and> p < length buf then do {
        slen \<leftarrow> rd buf p;
        if p + 1 + unat slen > length buf then Some out
        else do {
          s \<leftarrow> rd_bytes buf (p + 1) (unat slen);
          txt_loop buf (p + 1 + unat slen) stop (out @ chars s)
        }
      } else Some out)"
  by pat_completeness auto
termination
  by (relation "measure (\<lambda>(buf, p, stop, out). length buf - p)") auto

declare txt_loop.simps [simp del]

definition hinfo_string :: "bytes \<Rightarrow> nat \<Rightarrow> nat \<Rightarrow> (string \<times> nat) option" where
  "hinfo_string buf p stop =
     (if p < stop then do {
        l \<leftarrow> rd buf p;
        if p + 1 + unat l \<le> length buf then do {
          s \<leftarrow> rd_bytes buf (p + 1) (unat l);
          Some (chars s, p + 1 + unat l)
        } else Some ([], p + 1)
      } else Some ([], p))"

abbreviation (input) QUOTE :: char where "QUOTE \<equiv> CHR 0x22"

definition render_soa :: "bytes \<Rightarrow> nat \<Rightarrow> string option" where
  "render_soa buf rpos = do {
     (mname, p) \<leftarrow> decode_name buf rpos;
     (rname, p) \<leftarrow> decode_name buf p;
     if p + 20 > length buf then Some (mname @ '' '' @ rname)
     else do {
       serial \<leftarrow> rd32 buf p;
       refresh \<leftarrow> rd32 buf (p + 4);
       retry \<leftarrow> rd32 buf (p + 8);
       expire \<leftarrow> rd32 buf (p + 12);
       minimum \<leftarrow> rd32 buf (p + 16);
       Some (mname @ '' '' @ rname @ concat (map (\<lambda>w. '' '' @ show_nat (unat w)) [serial, refresh, retry, expire, minimum]))
     }
   }"

definition render_mx :: "bytes \<Rightarrow> nat \<Rightarrow> string option" where
  "render_mx buf rpos = do {
     pref \<leftarrow> rd16 buf rpos;
     name \<leftarrow> name_at buf (rpos + 2);
     Some (show_u16 pref @ '' '' @ name)
   }"

definition render_srv :: "bytes \<Rightarrow> nat \<Rightarrow> string option" where
  "render_srv buf rpos = do {
     prio \<leftarrow> rd16 buf rpos;
     weight \<leftarrow> rd16 buf (rpos + 2);
     port \<leftarrow> rd16 buf (rpos + 4);
     target \<leftarrow> name_at buf (rpos + 6);
     Some (show_u16 prio @ '' '' @ show_u16 weight @ '' '' @ show_u16 port @ '' '' @ target)
   }"

definition render_caa :: "bytes \<Rightarrow> nat \<Rightarrow> nat \<Rightarrow> string option" where
  "render_caa buf rpos rdlen = do {
     flags \<leftarrow> rd buf rpos;
     tag_len \<leftarrow> rd buf (rpos + 1);
     if 2 + unat tag_len > rdlen then Some []
     else do {
       tag \<leftarrow> rd_bytes buf (rpos + 2) (unat tag_len);
       value \<leftarrow> rd_bytes buf (rpos + 2 + unat tag_len) (rdlen - 2 - unat tag_len);
       Some (show_u8 flags @ '' '' @ chars tag @ '' '' @ [QUOTE] @ chars value @ [QUOTE])
     }
   }"

definition render_tlsa :: "bytes \<Rightarrow> nat \<Rightarrow> nat \<Rightarrow> string option" where
  "render_tlsa buf rpos rdlen = do {
     usage \<leftarrow> rd buf rpos;
     sel \<leftarrow> rd buf (rpos + 1);
     mtype \<leftarrow> rd buf (rpos + 2);
     data \<leftarrow> rd_bytes buf (rpos + 3) (rdlen - 3);
     Some (show_u8 usage @ '' '' @ show_u8 sel @ '' '' @ show_u8 mtype @ '' '' @ to_hex data)
   }"

definition render_sshfp :: "bytes \<Rightarrow> nat \<Rightarrow> nat \<Rightarrow> string option" where
  "render_sshfp buf rpos rdlen = do {
     algo \<leftarrow> rd buf rpos;
     fptype \<leftarrow> rd buf (rpos + 1);
     fp \<leftarrow> rd_bytes buf (rpos + 2) (rdlen - 2);
     Some (show_u8 algo @ '' '' @ show_u8 fptype @ '' '' @ to_hex fp)
   }"

definition render_svcb :: "bytes \<Rightarrow> nat \<Rightarrow> nat \<Rightarrow> string option" where
  "render_svcb buf rpos rdlen = do {
     prio \<leftarrow> rd16 buf rpos;
     (target, p) \<leftarrow> decode_name buf (rpos + 2);
     let param_len = (if p < rpos + rdlen then rpos + rdlen - p else 0)
     in Some (show_u16 prio @ '' '' @ (if target = [] then [DOT] else target) @
              ''  <params '' @ show_nat param_len @ ''B>'')
   }"

definition render_nsec :: "bytes \<Rightarrow> nat \<Rightarrow> nat \<Rightarrow> string option" where
  "render_nsec buf rpos rdlen = do {
     (next, p) \<leftarrow> decode_name buf rpos;
     let bitmap_len = (if p < rpos + rdlen then rpos + rdlen - p else 0)
     in Some (next @ ''  <bitmap '' @ show_nat bitmap_len @ ''B>'')
   }"

definition render_hinfo :: "bytes \<Rightarrow> nat \<Rightarrow> nat \<Rightarrow> string option" where
  "render_hinfo buf rpos rdlen = do {
     (cpu, p) \<leftarrow> hinfo_string buf rpos (rpos + rdlen);
     (os, p) \<leftarrow> hinfo_string buf p (rpos + rdlen);
     Some ([QUOTE] @ cpu @ [QUOTE] @ '' '' @ [QUOTE] @ os @ [QUOTE])
   }"

definition present :: "string \<Rightarrow> nat \<Rightarrow> string option" where
  "present what rdlen = Some (''<'' @ what @ '' present, '' @ show_nat rdlen @ ''B>'')"

definition render_rdata :: "ntop_env \<Rightarrow> bytes \<Rightarrow> nat \<Rightarrow> u16 \<Rightarrow> nat \<Rightarrow> string option" where
  "render_rdata env buf rpos rtype rdlen =
     (if rtype = 1 then (if rdlen \<noteq> 4 then Some [] else map_option (ntop4 env) (rd_bytes buf rpos 4))
      else if rtype = 28 then (if rdlen \<noteq> 16 then Some [] else map_option (ntop6 env) (rd_bytes buf rpos 16))
      else if rtype = 2 \<or> rtype = 5 \<or> rtype = 12 then name_at buf rpos
      else if rtype = 15 then (if rdlen < 3 then Some [] else render_mx buf rpos)
      else if rtype = 16 then txt_loop buf rpos (rpos + rdlen) []
      else if rtype = 6 then render_soa buf rpos
      else if rtype = 33 then (if rdlen < 7 then Some [] else render_srv buf rpos)
      else if rtype = 257 then (if rdlen < 2 then Some [] else render_caa buf rpos rdlen)
      else if rtype = 52 then (if rdlen < 3 then Some [] else render_tlsa buf rpos rdlen)
      else if rtype = 47 then render_nsec buf rpos rdlen
      else if rtype = 48 then present ''dnskey'' rdlen
      else if rtype = 43 then present ''ds'' rdlen
      else if rtype = 46 then Some ''<rrsig present>''
      else if rtype = 13 then render_hinfo buf rpos rdlen
      else if rtype = 39 then name_at buf rpos
      else if rtype = 44 then (if rdlen < 2 then Some [] else render_sshfp buf rpos rdlen)
      else if rtype = 51 then present ''nsec3param'' rdlen
      else if rtype = 59 then present ''cds'' rdlen
      else if rtype = 60 then present ''cdnskey'' rdlen
      else if rtype = 61 then present ''openpgpkey'' rdlen
      else if rtype = 53 then present ''smimea'' rdlen
      else if rtype = 64 \<or> rtype = 65 then (if rdlen < 2 then Some [] else render_svcb buf rpos rdlen)
      else Some (''<type '' @ show_u16 rtype @ '', '' @ show_nat rdlen @ ''B>''))"

section \<open>Parsing an answer\<close>

text \<open>One round of the record loop: \<open>Stop\<close> is a return, \<open>Rr\<close> a record of class IN or none, and the next position.\<close>

datatype rr_result = Stop | Rr "dns_record option" nat

definition parse_rr :: "ntop_env \<Rightarrow> bytes \<Rightarrow> string \<Rightarrow> nat \<Rightarrow> rr_result option" where
  "parse_rr env buf tag pos = do {
     (owner, pos) \<leftarrow> decode_name buf pos;
     if pos + 10 > length buf then Some Stop
     else do {
       rtype \<leftarrow> rd16 buf pos;
       rclass \<leftarrow> rd16 buf (pos + 2);
       ttl \<leftarrow> rd32 buf (pos + 4);
       rdlen \<leftarrow> rd16 buf (pos + 8);
       let pos = pos + 10 in
       if pos + unat rdlen > length buf then Some Stop
       else if rclass = 1 then do {
         value \<leftarrow> render_rdata env buf pos rtype (unat rdlen);
         Some (Rr (Some \<lparr>rec_type = rtype, rec_name = owner, rec_value = value, rec_ttl = ttl, rec_source = tag\<rparr>)
                  (pos + unat rdlen))
       } else Some (Rr None (pos + unat rdlen))
     }
   }"

text \<open>The loop over the questions; \<open>Some None\<close> is the return of the function.\<close>

fun skip_questions :: "bytes \<Rightarrow> nat \<Rightarrow> nat \<Rightarrow> nat option option" where
  "skip_questions buf 0 pos = Some (Some pos)"
| "skip_questions buf (Suc n) pos = do {
     p \<leftarrow> skip_name buf pos;
     if p + 4 > length buf then Some None else skip_questions buf n (p + 4)
   }"

section \<open>Every read stays inside\<close>

lemma rd_Some [simp]: "i < length buf \<Longrightarrow> rd buf i = Some (buf ! i)"
  by (simp add: rd_def)

lemma rd_bytes_Some [simp]: "i + n \<le> length buf \<Longrightarrow> rd_bytes buf i n = Some (take n (drop i buf))"
  by (simp add: rd_bytes_def)

lemma rd16_Some [simp]: "i + 2 \<le> length buf \<Longrightarrow> rd16 buf i = Some (get_be16 (buf ! i) (buf ! Suc i))"
  by (simp add: rd16_def)

lemma rd32_Some [simp]:
  "i + 4 \<le> length buf \<Longrightarrow> rd32 buf i = Some (get_be32 (buf ! i) (buf ! Suc i) (buf ! (i + 2)) (buf ! (i + 3)))"
  by (simp add: rd32_def)

lemma skip_name_total: "\<exists>q. skip_name buf pos = Some q \<and> pos \<le> q"
proof (induction buf pos rule: skip_name.induct)
  case (1 buf pos)
  show ?case
  proof (cases "pos < length buf \<and> buf ! pos \<noteq> 0 \<and> and (buf ! pos) 0xC0 \<noteq> 0xC0")
    case True
    then have "\<exists>q. skip_name buf (pos + 1 + unat (buf ! pos)) = Some q \<and> pos + 1 + unat (buf ! pos) \<le> q"
      using "1.IH" [of "buf ! pos"] by simp
    then show ?thesis using True by (subst skip_name.simps) fastforce
  next
    case False
    then show ?thesis by (subst skip_name.simps) auto
  qed
qed

lemma decode_loop_jumped: "\<exists>out'. decode_loop buf pos orig True hops out = Some (out', orig)"
proof (induction "(129 - hops, length buf - pos)" arbitrary: pos hops out
    rule: wf_induct_rule [OF wf_lex_prod [OF wf_less_than wf_less_than]])
  case 1
  have "\<exists>out'. decode_loop buf t orig True (Suc hops) out = Some (out', orig)" if "hops < 128" for t
    by (rule 1) (use that in \<open>simp, arith\<close>)
  moreover have "\<exists>out'. decode_loop buf (pos + 1 + n) orig True hops o' = Some (out', orig)"
    if "pos < length buf" for n o'
    using 1 [of hops "pos + 1 + n" o'] that by simp
  ultimately show ?case by (subst decode_loop.simps) (simp add: Let_def)
qed

lemma decode_loop_position:
  "pos \<le> length buf \<Longrightarrow> skip_name buf pos = Some q \<Longrightarrow>
   \<exists>out'. decode_loop buf pos orig False hops out = Some (out', if q \<le> length buf then q else orig)"
proof (induction "length buf - pos" arbitrary: pos out rule: less_induct)
  case less
  show ?case
  proof (cases "pos < length buf \<and> buf ! pos \<noteq> 0 \<and> and (buf ! pos) 0xC0 \<noteq> 0xC0")
    case True
    then have skip: "skip_name buf (pos + 1 + unat (buf ! pos)) = Some q"
      using less.prems(2) by (subst (asm) skip_name.simps) simp
    show ?thesis
    proof (cases "pos + 1 + unat (buf ! pos) > length buf")
      case beyond: True
      then have "q > length buf" using skip_name_total [of buf "pos + 1 + unat (buf ! pos)"] skip by auto
      then show ?thesis using True beyond by (subst decode_loop.simps) simp
    next
      case False
      then show ?thesis
        using True less.hyps [OF _ _ skip] by (subst decode_loop.simps) simp
    qed
  next
    case False
    then show ?thesis
      using less.prems decode_loop_jumped [of buf _ "pos + 2" "Suc hops" out]
      by (subst decode_loop.simps, subst (asm) skip_name.simps) (auto simp: Let_def)
  qed
qed

lemma decode_name_skip:
  assumes "skip_name buf pos = Some q"
  obtains out where "decode_name buf pos = Some (out, if q \<le> length buf then q else pos)"
proof (cases "pos \<le> length buf")
  case True
  then show ?thesis using decode_loop_position [OF True assms] that by (auto simp: decode_name_def)
next
  case False
  then have "q = pos" and "decode_name buf pos = Some ([], pos)"
    using assms by (auto simp: decode_name_def skip_name.simps decode_loop.simps)
  then show ?thesis using that by simp
qed

lemma decode_name_total:
  obtains out p where "decode_name buf pos = Some (out, p)" and "pos \<le> p"
    and "pos \<le> length buf \<Longrightarrow> p \<le> length buf"
proof -
  obtain q where q: "skip_name buf pos = Some q" "pos \<le> q" using skip_name_total by blast
  obtain out where "decode_name buf pos = Some (out, if q \<le> length buf then q else pos)"
    using q(1) by (rule decode_name_skip)
  then show ?thesis using q(2) by (intro that [of out "if q \<le> length buf then q else pos"]) simp_all
qed

lemma name_at_total: "\<exists>s. name_at buf pos = Some s"
  by (rule decode_name_total [of buf pos]) (auto simp: name_at_def)

lemma txt_loop_total: "\<exists>s. txt_loop buf p stop out = Some s"
proof (induction buf p stop out rule: txt_loop.induct)
  case (1 buf p stop out)
  show ?case
  proof (cases "p < stop \<and> p < length buf \<and> p + 1 + unat (buf ! p) \<le> length buf")
    case True
    then show ?thesis using "1.IH" [of "buf ! p"] by (subst txt_loop.simps) simp
  next
    case False
    then show ?thesis by (subst txt_loop.simps) auto
  qed
qed

lemma hinfo_string_total:
  assumes "stop \<le> length buf"
  obtains s q where "hinfo_string buf p stop = Some (s, q)"
  using assms by (cases "p < stop"; cases "p + 1 + unat (buf ! p) \<le> length buf") (auto simp: hinfo_string_def)

lemma render_soa_total: "\<exists>s. render_soa buf rpos = Some s"
proof -
  obtain mname p where m: "decode_name buf rpos = Some (mname, p)" by (rule decode_name_total)
  obtain rname q where r: "decode_name buf p = Some (rname, q)" by (rule decode_name_total)
  show ?thesis by (cases "q + 20 > length buf") (simp_all add: render_soa_def m r)
qed

lemma render_svcb_total:
  assumes "rpos + 2 \<le> length buf"
  shows "\<exists>s. render_svcb buf rpos rdlen = Some s"
  using assms by (rule_tac decode_name_total [of buf "rpos + 2"]) (simp add: render_svcb_def Let_def)

lemma render_nsec_total: "\<exists>s. render_nsec buf rpos rdlen = Some s"
  by (rule decode_name_total [of buf rpos]) (simp add: render_nsec_def Let_def)

lemma render_mx_total: "rpos + 2 \<le> length buf \<Longrightarrow> \<exists>s. render_mx buf rpos = Some s"
  using name_at_total [of buf "rpos + 2"] by (auto simp: render_mx_def)

lemma render_srv_total: "rpos + 6 \<le> length buf \<Longrightarrow> \<exists>s. render_srv buf rpos = Some s"
  using name_at_total [of buf "rpos + 6"] by (auto simp: render_srv_def)

lemma render_caa_total:
  assumes "rpos + rdlen \<le> length buf" and "2 \<le> rdlen"
  shows "\<exists>s. render_caa buf rpos rdlen = Some s"
  using assms by (cases "2 + unat (buf ! Suc rpos) > rdlen") (simp_all add: render_caa_def)

lemma render_hinfo_total:
  assumes "rpos + rdlen \<le> length buf"
  shows "\<exists>s. render_hinfo buf rpos rdlen = Some s"
proof -
  obtain s p where s: "hinfo_string buf rpos (rpos + rdlen) = Some (s, p)"
    using assms by (rule hinfo_string_total)
  obtain t q where "hinfo_string buf p (rpos + rdlen) = Some (t, q)"
    using assms by (rule hinfo_string_total)
  then show ?thesis by (simp add: render_hinfo_def s)
qed

lemmas render_total = name_at_total txt_loop_total render_soa_total render_svcb_total render_nsec_total
  render_mx_total render_srv_total render_caa_total render_hinfo_total

lemma if_total:
  "(c \<Longrightarrow> \<exists>s. a = Some s) \<Longrightarrow> (\<not> c \<Longrightarrow> \<exists>s. b = Some s) \<Longrightarrow> \<exists>s. (if c then a else b) = Some s"
  by simp

lemma render_rdata_total:
  assumes "rpos + rdlen \<le> length buf"
  shows "\<exists>s. render_rdata env buf rpos rtype rdlen = Some s"
  unfolding render_rdata_def present_def
  apply (intro if_total)
  using assms by (simp_all only: not_less render_total exI) (simp_all add: render_total render_tlsa_def render_sshfp_def)

lemma parse_rr_total:
  obtains res where "parse_rr env buf tag pos = Some res"
    and "\<And>rec q. res = Rr rec q \<Longrightarrow> pos + 10 \<le> q \<and> q \<le> length buf"
proof -
  obtain owner p where d: "decode_name buf pos = Some (owner, p)" and p: "pos \<le> p"
    by (rule decode_name_total)
  show ?thesis
  proof (cases "p + 10 > length buf")
    case True
    then show ?thesis using that [of Stop] by (simp add: parse_rr_def d)
  next
    case False
    define rdlen where "rdlen = unat (get_be16 (buf ! (p + 8)) (buf ! Suc (p + 8)))"
    obtain v where "p + 10 + rdlen \<le> length buf \<Longrightarrow>
        render_rdata env buf (p + 10) (get_be16 (buf ! p) (buf ! Suc p)) rdlen = Some v"
      using render_rdata_total by blast
    then show ?thesis
      using False p that by (cases "p + 10 + rdlen > length buf"; cases "rd16 buf (p + 2) = Some 1")
        (simp_all add: parse_rr_def d rdlen_def Let_def)
  qed
qed

section \<open>The whole message\<close>

text \<open>
  The loop over the records. The counter is a \<open>uint16_t\<close> held against an \<open>int\<close>: when the two counts
  of the header add up to more than it can reach, only the end of the message ends the loop.
\<close>

function parse_records ::
    "ntop_env \<Rightarrow> bytes \<Rightarrow> string \<Rightarrow> bool \<Rightarrow> nat \<Rightarrow> nat \<Rightarrow> u16 \<Rightarrow> nat \<Rightarrow> dns_record list option" where
  "parse_records env buf tag authority an ns i pos =
     (if unat i < an + ns \<and> \<not> (unat i \<ge> an \<and> \<not> authority) then do {
        res \<leftarrow> parse_rr env buf tag pos;
        case res of
          Stop \<Rightarrow> Some []
        | Rr rec q \<Rightarrow> do {
            rest \<leftarrow> parse_records env buf tag authority an ns (i + 1) q;
            Some (case rec of None \<Rightarrow> rest | Some r \<Rightarrow> r # rest)
          }
      } else Some [])"
  by pat_completeness auto
termination
proof (relation "measure (\<lambda>(env, buf, tag, authority, an, ns, i, pos). length buf - pos)", goal_cases)
  case 1
  then show ?case by simp
next
  case (2 env buf tag authority an ns i pos res rec q)
  obtain r where "parse_rr env buf tag pos = Some r" and "\<And>rec q. r = Rr rec q \<Longrightarrow> pos + 10 \<le> q \<and> q \<le> length buf"
    by (rule parse_rr_total [where env = env and tag = tag and pos = pos and buf = buf]) blast
  then show ?case using 2 by fastforce
qed

declare parse_records.simps [simp del]

definition parse_message :: "ntop_env \<Rightarrow> bytes \<Rightarrow> string \<Rightarrow> bool \<Rightarrow> dns_record list option" where
  "parse_message env buf tag authority =
     (if length buf < 12 then Some []
      else do {
        qd \<leftarrow> rd16 buf 4;
        an \<leftarrow> rd16 buf 6;
        ns \<leftarrow> rd16 buf 8;
        after \<leftarrow> skip_questions buf (unat qd) 12;
        case after of
          None \<Rightarrow> Some []
        | Some pos \<Rightarrow> parse_records env buf tag authority (unat an) (unat ns) 0 pos
      })"

lemma skip_questions_total:
  "\<exists>r. skip_questions buf n pos = Some r \<and>
     (\<forall>p. r = Some p \<longrightarrow> pos \<le> p \<and> (pos \<le> length buf \<longrightarrow> p \<le> length buf))"
proof (induction n arbitrary: pos)
  case 0
  then show ?case by simp
next
  case (Suc n)
  obtain q where q: "skip_name buf pos = Some q" "pos \<le> q" using skip_name_total by blast
  show ?case
  proof (cases "q + 4 > length buf")
    case True
    then show ?thesis using q by simp
  next
    case False
    then show ?thesis using q Suc.IH [of "q + 4"] by fastforce
  qed
qed

lemma parse_records_total:
  "\<exists>rs. parse_records env buf tag authority an ns i pos = Some rs \<and>
     10 * length rs \<le> length buf - pos \<and> (\<forall>r \<in> set rs. rec_source r = tag)"
proof (induction env buf tag authority an ns i pos rule: parse_records.induct)
  case (1 env buf tag authority an ns i pos)
  obtain res where res: "parse_rr env buf tag pos = Some res"
    and adv: "\<And>rec q. res = Rr rec q \<Longrightarrow> pos + 10 \<le> q \<and> q \<le> length buf"
    by (rule parse_rr_total [where env = env and tag = tag and pos = pos and buf = buf]) blast
  have src: "rec_source r = tag" if "res = Rr (Some r) q" for r q
    using res that by (auto simp: parse_rr_def Let_def split: Option.bind_splits if_splits)
  show ?case
  proof (cases "unat i < an + ns \<and> \<not> (unat i \<ge> an \<and> \<not> authority)")
    case True
    show ?thesis
    proof (cases res)
      case Stop
      then show ?thesis using True res by (subst parse_records.simps) simp
    next
      case (Rr rec q)
      from "1.IH" [OF True res Rr] obtain rs where
        "parse_records env buf tag authority an ns (i + 1) q = Some rs"
        "10 * length rs \<le> length buf - q" "\<forall>r \<in> set rs. rec_source r = tag" by blast
      then show ?thesis
        using True res Rr adv [OF Rr] src by (subst parse_records.simps) (auto split: option.splits)
    qed
  next
    case False
    then show ?thesis by (subst parse_records.simps) auto
  qed
qed

text \<open>
  C20. The parser ends on every message and never reads outside it, whatever its counts, names,
  pointers and lengths say; it yields at most one record for ten bytes behind the header.
\<close>

theorem dns_parse_safe:
  "\<exists>rs. parse_message env buf tag authority = Some rs \<and> 10 * length rs \<le> length buf - 12 \<and>
     rec_source ` set rs \<subseteq> {tag}"
proof (cases "length buf < 12")
  case True
  then show ?thesis by (simp add: parse_message_def)
next
  case False
  obtain after where after: "skip_questions buf (unat (get_be16 (buf ! 4) (buf ! Suc 4))) 12 = Some after"
    and adv: "\<And>p. after = Some p \<Longrightarrow> 12 \<le> p"
    using skip_questions_total by blast
  show ?thesis
  proof (cases after)
    case None
    then show ?thesis using False after by (simp add: parse_message_def)
  next
    case (Some pos)
    obtain rs where "parse_records env buf tag authority (unat (get_be16 (buf ! 6) (buf ! Suc 6)))
        (unat (get_be16 (buf ! 8) (buf ! Suc 8))) 0 pos = Some rs"
      "10 * length rs \<le> length buf - pos" "\<forall>r \<in> set rs. rec_source r = tag"
      using parse_records_total by blast
    then show ?thesis using False after Some adv [OF Some] by (fastforce simp: parse_message_def)
  qed
qed

section \<open>Skipping and decoding agree\<close>

lemma decode_loop_length:
  "decode_loop buf pos orig jumped hops out = Some (out', p) \<Longrightarrow> hops \<le> 128 \<Longrightarrow>
   length out' \<le> length out + (128 - hops) * length buf + (length buf - pos)"
proof (induction "(129 - hops, length buf - pos)" arbitrary: pos orig jumped hops out
    rule: wf_induct_rule [OF wf_lex_prod [OF wf_less_than wf_less_than]])
  case 1
  have jump: "length out' \<le> length out + (128 - hops) * length buf"
    if "decode_loop buf t orig' True (Suc hops) out = Some (out', p)" "hops < 128" for t orig'
  proof -
    have k: "128 - hops = Suc (128 - Suc hops)" using that(2) by arith
    have e: "(128 - Suc hops) * length buf + length buf = (128 - hops) * length buf"
      by (simp only: k mult_Suc add.commute)
    have "length out' \<le> length out + (128 - Suc hops) * length buf + (length buf - t)"
      by (rule 1(1) [OF _ that(1)]) (use that(2) in \<open>simp, arith\<close>, use that(2) in simp)
    then show ?thesis unfolding e [symmetric] by linarith
  qed
  have label: "length out' \<le> length o' + (128 - hops) * length buf + (length buf - (pos + 1 + n))"
    if "decode_loop buf (pos + 1 + n) orig jumped hops o' = Some (out', p)" "pos < length buf" for n o'
    by (rule 1(1) [OF _ that(1) 1(3)]) (use that(2) in simp)
  show ?case
  proof (cases "pos < length buf \<and> buf ! pos \<noteq> 0")
    case False
    then show ?thesis using 1(2) by (subst (asm) decode_loop.simps) (auto split: if_splits)
  next
    case True
    show ?thesis
    proof (cases "and (buf ! pos) 0xC0 = 0xC0")
      case ptr: True
      then have "length out' \<le> length out + (128 - hops) * length buf"
        using 1(2,3) True by (subst (asm) decode_loop.simps) (auto simp: Let_def split: if_splits dest: jump)
      then show ?thesis by simp
    next
      case False
      let ?o = "(if out \<noteq> [] then out @ [DOT] else out) @ chars (take (unat (buf ! pos)) (drop (pos + 1) buf))"
      from False consider "out' = out" | "pos + 1 + unat (buf ! pos) \<le> length buf"
          "decode_loop buf (pos + 1 + unat (buf ! pos)) orig jumped hops ?o = Some (out', p)"
        using 1(2) [unfolded decode_loop.simps [of buf pos]] True by (auto split: if_splits)
      then show ?thesis
      proof cases
        case 2
        then show ?thesis using label [OF 2(2)] True by (auto split: if_splits)
      qed simp
    qed
  qed
qed

text \<open>
  For any bytes at all, decoding a name leaves the position where skipping it does, as far as
  that is inside the message, and at the name's start otherwise; so the two walks never drift
  apart. The text is at most 129 times as long as the message, whatever the pointers do.
\<close>

theorem dns_names_agree:
  assumes "skip_name buf pos = Some q"
  shows "\<exists>text. decode_name buf pos = Some (text, if q \<le> length buf then q else pos) \<and>
    length text \<le> 129 * length buf"
proof -
  obtain out where d: "decode_name buf pos = Some (out, if q \<le> length buf then q else pos)"
    using assms by (rule decode_name_skip)
  then have "length out \<le> 128 * length buf + (length buf - pos)"
    using decode_loop_length [of buf pos pos False 0 "[]" out] by (auto simp: decode_name_def)
  then show ?thesis using d by auto
qed

theorem dns_names_agree_witness:
  "\<exists>text. decode_name [3, 119, 119, 119, 0xC0, 0] 0 = Some (text, 6) \<and> length text \<le> 129 * 6"
proof -
  have "skip_name [3, 119, 119, 119, 0xC0, 0] 0 = Some 6"
    by (simp add: skip_name.simps)
  from dns_names_agree [OF this] show ?thesis by simp
qed

end
