(* ===== verification/Dns_Reply.thy ===== *)
theory Dns_Reply
  imports Dns
begin

text \<open>
  Names and replies from the sender's side: the wire form of a name as RFC 1035 gives it, compressed or not, of
  typed resource data and of a whole reply to a query of \<open>build_query\<close>, and what the functions of Dns make of them.
\<close>

section \<open>Names on the wire\<close>

definition label_ok :: "string \<Rightarrow> bool" where
  "label_ok l \<longleftrightarrow> l \<noteq> [] \<and> length l \<le> 63 \<and> DOT \<notin> set l"

definition wire_label :: "string \<Rightarrow> bytes" where
  "wire_label l = of_nat (length l) # map of_char l"

definition wire_name :: "string list \<Rightarrow> bytes" where
  "wire_name ls = concat (map wire_label ls) @ [0]"

lemma char_of_char_u8 [simp]: "char_of (unat (of_char c :: u8)) = (c :: char)"
proof -
  have "unat (of_char c :: u8) = (of_char c :: nat)"
    unfolding of_nat_of_char [symmetric, where 'a = "8 word"]
    by (simp add: unsigned_of_nat take_bit_nat_eq_self del: of_nat_of_char)
  then show ?thesis by simp
qed

lemma small_byte:
  fixes b :: u8
  assumes "unat b < 64"
  shows "and b 0xC0 = 0"
proof -
  have "b = take_bit 6 b"
    using assms by (intro unsigned_word_eqI [where 'a = nat]) (simp add: unsigned_take_bit_eq take_bit_nat_eq_self)
  then have "and b 0xC0 = and (take_bit 6 b) 0xC0" by simp
  also have "\<dots> = and b (take_bit 6 0xC0)" by (simp add: take_bit_eq_mask ac_simps)
  finally show ?thesis by simp
qed

lemma length_byte:
  assumes "label_ok l"
  shows "unat (of_nat (length l) :: u8) = length l" and "(of_nat (length l) :: u8) \<noteq> 0"
    and "and (of_nat (length l) :: u8) 0xC0 \<noteq> 0xC0"
proof -
  show u: "unat (of_nat (length l) :: u8) = length l"
    using assms by (simp add: label_ok_def unsigned_of_nat take_bit_nat_eq_self)
  then show "(of_nat (length l) :: u8) \<noteq> 0"
    using assms by (auto simp: label_ok_def)
  show "and (of_nat (length l) :: u8) 0xC0 \<noteq> 0xC0"
    using small_byte [of "of_nat (length l)"] u assms by (simp add: label_ok_def)
qed

lemma encode_labels_wire:
  "ls \<noteq> [] \<Longrightarrow> \<forall>l \<in> set ls. label_ok l \<Longrightarrow> drop start h = join_with DOT ls \<Longrightarrow>
   encode_labels h start = concat (map wire_label ls)"
proof (induction ls arbitrary: start rule: induct_list012)
  case 1
  then show ?case by simp
next
  case (2 l)
  then have l: "label_ok l" "drop start h = l" by simp_all
  then have "start < length h" and "length h - start = length l" and "str_find h DOT start = None"
    by (auto simp: label_ok_def str_find_def str_simps)
  then show ?case
    using l by (subst encode_labels.simps) (simp add: label_ok_def wire_label_def substr_def)
next
  case (3 l l2 ls)
  then have l: "label_ok l" and d: "drop start h = l @ DOT # join_with DOT (l2 # ls)" by simp_all
  have f: "str_find h DOT start = Some (start + length l)"
    using l by (simp add: str_find_def d label_ok_def str_simps)
  have "drop (start + length l + 1) h = drop (Suc (length l)) (drop start h)"
    by (simp add: add.commute)
  then have rest: "drop (start + length l + 1) h = join_with DOT (l2 # ls)" by (simp add: d)
  have "start < length h" using d by (metis append_is_Nil_conv drop_eq_Nil list.distinct(1) not_less)
  then show ?case
    using l f "3.IH"(2) [OF _ _ rest] "3.prems"(2)
    by (subst encode_labels.simps) (simp add: label_ok_def wire_label_def [of l] substr_def d)
qed

lemma last_join:
  "ls \<noteq> [] \<Longrightarrow> \<forall>l \<in> set ls. label_ok l \<Longrightarrow> join_with DOT ls \<noteq> [] \<and> last (join_with DOT ls) \<noteq> DOT"
  by (induction DOT ls rule: join_with.induct) (auto simp: label_ok_def dest: last_in_set)

lemma encode_name_wire:
  assumes "\<forall>l \<in> set ls. label_ok l"
  shows "encode_name (join_with DOT ls) = wire_name ls"
proof (cases "ls = []")
  case True
  then show ?thesis by (simp add: encode_name_def wire_name_def encode_labels.simps)
next
  case False
  then show ?thesis
    using encode_labels_wire [OF False assms, of 0] last_join [OF False assms]
    by (simp add: encode_name_def wire_name_def)
qed

text \<open>The text a reader puts together, label by label.\<close>

definition dotted :: "string \<Rightarrow> string list \<Rightarrow> string" where
  "dotted out ls = foldl (\<lambda>out l. (if out \<noteq> [] then out @ [DOT] else out) @ l) out ls"

lemma dotted_join:
  assumes "\<forall>l \<in> set ls. label_ok l"
  shows "dotted [] ls = join_with DOT ls"
proof -
  have d: "dotted out ls = out @ concat (map ((#) DOT) ls)" if "out \<noteq> []" for out ls
    using that by (induction ls arbitrary: out) (simp_all add: dotted_def)
  have j: "join_with DOT (l # ls) = l @ concat (map ((#) DOT) ls)" for l ls
    by (induction ls arbitrary: l) simp_all
  show ?thesis
  proof (cases ls)
    case (Cons l ls')
    then have "dotted [] ls = dotted l ls'" by (simp add: dotted_def)
    then show ?thesis using Cons assms d [of l ls'] j [of l ls'] by (simp add: label_ok_def)
  qed (simp add: dotted_def)
qed

lemma decode_loop_wire:
  "drop pos buf = wire_name ls @ post \<Longrightarrow> \<forall>l \<in> set ls. label_ok l \<Longrightarrow>
   decode_loop buf pos orig False hops out = Some (dotted out ls, pos + length (wire_name ls))"
proof (induction ls arbitrary: pos out)
  case Nil
  then have "pos < length buf" and "buf ! pos = 0"
    by (auto simp: wire_name_def not_le [symmetric] nth_via_drop)
  then show ?case by (subst decode_loop.simps) (simp add: dotted_def wire_name_def)
next
  case (Cons l ls)
  let ?n = "length l"
  have l: "label_ok l" using Cons.prems(2) by simp
  have d: "drop pos buf = of_nat ?n # map of_char l @ wire_name ls @ post"
    using Cons.prems(1) by (simp add: wire_name_def wire_label_def)
  then have pos: "pos < length buf" and b: "buf ! pos = of_nat ?n"
    by (metis drop_eq_Nil list.distinct(1) not_less, simp add: nth_via_drop)
  have d1: "drop (Suc pos) buf = map of_char l @ wire_name ls @ post"
    using d by (metis drop_Suc list.sel(3) tl_drop)
  then have "length buf - Suc pos = ?n + length (wire_name ls @ post)"
    by (metis length_append length_drop length_map)
  then have room: "pos + 1 + ?n \<le> length buf" using pos by linarith
  have "drop (pos + 1 + ?n) buf = drop ?n (drop (Suc pos) buf)" by (simp add: add.commute)
  then have rest: "drop (pos + 1 + ?n) buf = wire_name ls @ post" by (simp add: d1)
  have "decode_loop buf (pos + 1 + ?n) orig False hops o' =
      Some (dotted o' ls, pos + 1 + ?n + length (wire_name ls))" for o'
    using Cons.IH [OF rest] Cons.prems(2) by simp
  then show ?case
    using pos b length_byte [OF l] room d1
    by (subst decode_loop.simps) (simp add: dotted_def wire_name_def wire_label_def comp_def)
qed

lemma decode_name_wire:
  assumes "drop pos buf = wire_name ls @ post" and "\<forall>l \<in> set ls. label_ok l"
  shows "decode_name buf pos = Some (join_with DOT ls, pos + length (wire_name ls))"
  using decode_loop_wire [OF assms] dotted_join [OF assms(2)] by (simp add: decode_name_def)

text \<open>
  A host name of labels of 1 to 63 characters, written into a query and read back out of any
  message that holds it, is the same name, and reading ends right behind it; a trailing dot
  makes no difference.
\<close>

theorem dns_name_roundtrip:
  assumes "\<forall>l \<in> set ls. label_ok l" and "host = join_with DOT ls"
  shows "decode_name (pre @ encode_name host @ post) (length pre) =
      Some (host, length pre + length (encode_name host)) \<and>
    (ls \<noteq> [] \<longrightarrow> encode_name (host @ [DOT]) = encode_name host)"
proof -
  have "drop (length pre) (pre @ encode_name host @ post) = wire_name ls @ post"
    using assms encode_name_wire by simp
  from decode_name_wire [OF this assms(1)] have "decode_name (pre @ encode_name host @ post) (length pre) =
      Some (host, length pre + length (encode_name host))"
    using assms encode_name_wire by simp
  moreover have "encode_name (host @ [DOT]) = encode_name host" if "ls \<noteq> []"
    using last_join [OF that assms(1)] assms(2) by (simp add: encode_name_def)
  ultimately show ?thesis by blast
qed

theorem dns_name_roundtrip_witness:
  "decode_name (encode_name ''www.org'') 0 = Some (''www.org'', 9)"
  using dns_name_roundtrip [of "[''www'', ''org'']" "''www.org''" "[]" "[]"]
    encode_name_wire [of "[''www'', ''org'']"]
  by (simp add: label_ok_def wire_name_def wire_label_def)

section \<open>Reading what was written\<close>

definition labels_ok :: "string list \<Rightarrow> bool" where
  "labels_ok ls \<longleftrightarrow> (\<forall>l \<in> set ls. label_ok l)"

lemma drop_room:
  assumes "drop p buf = a @ post" and "a \<noteq> []"
  shows "p + length a \<le> length buf"
proof -
  have "length buf - p = length a + length post"
    using arg_cong [OF assms(1), of length] by simp
  moreover have "0 < length a" using assms(2) by simp
  ultimately show ?thesis by arith
qed

lemma rd_bytes_wire:
  assumes "drop p buf = a @ post" and "length a = n" and "0 < n"
  shows "rd_bytes buf p n = Some a"
  using drop_room [OF assms(1)] assms by (auto simp: rd_bytes_def)

lemma rd16_wire: "drop p buf = be16 w @ post \<Longrightarrow> rd16 buf p = Some w"
  by (simp add: rd16_def rd_bytes_wire get_be16_be16)

lemma rd32_wire: "drop p buf = be32 w @ post \<Longrightarrow> rd32 buf p = Some w"
  by (simp add: rd32_def rd_bytes_wire get_be32_be32)

lemma drop_past: "drop p buf = a @ post \<Longrightarrow> length a = n \<Longrightarrow> drop (p + n) buf = post"
  by (metis add.commute append_eq_conv_conj drop_drop)

lemma after_be16: "drop p buf = be16 w @ rest \<Longrightarrow> q = p + 2 \<Longrightarrow> drop q buf = rest"
  by (simp only:, erule drop_past) simp

section \<open>Compressed names\<close>

text \<open>
  RFC 1035, 4.1.4: a name ends in the root, a byte 0, or in a pointer to where the rest of it stands in the message. As with
  the lists on a heap of Hoare logic, a relation says which labels a position stands for: \<open>spells msg n p ls\<close> reads \<open>ls\<close> from
  \<open>p\<close> on along \<open>n\<close> pointers.
\<close>

definition wire_pointer :: "nat \<Rightarrow> bytes" where
  "wire_pointer t = [0xC0 + of_nat (t div 256), of_nat (t mod 256)]"

inductive spells :: "bytes \<Rightarrow> nat \<Rightarrow> nat \<Rightarrow> string list \<Rightarrow> bool" for msg where
  root: "drop p msg = 0 # post \<Longrightarrow> spells msg 0 p []"
| label: "drop p msg = wire_label l @ post \<Longrightarrow> label_ok l \<Longrightarrow> spells msg n (p + length (wire_label l)) ls \<Longrightarrow>
    spells msg n p (l # ls)"
| pointer: "drop p msg = wire_pointer t @ post \<Longrightarrow> t < 2 ^ 14 \<Longrightarrow> spells msg n t ls \<Longrightarrow> spells msg (Suc n) p ls"

lemma spells_labels: "spells msg n p ls \<Longrightarrow> \<forall>l \<in> set ls. label_ok l"
  by (induction rule: spells.induct) auto

lemma length_wire_label [simp]: "length (wire_label l) = Suc (length l)"
  by (simp add: wire_label_def)

lemma pointer_bytes:
  fixes t :: nat
  assumes "t < 2 ^ 14"
  defines "b \<equiv> 0xC0 + of_nat (t div 256) :: u8" and "c \<equiv> of_nat (t mod 256) :: u8"
  shows "b \<noteq> 0" and "and b 0xC0 = 0xC0" and "or (push_bit 8 (unat (and b 0x3F))) (unat c) = t"
proof -
  have all: "\<forall>k \<in> set [0..<64]. (0xC0 + of_nat k :: u8) \<noteq> 0 \<and> and (0xC0 + of_nat k :: u8) 0xC0 = 0xC0 \<and>
      unat (and (0xC0 + of_nat k :: u8) 0x3F) = k" by code_simp
  have k: "t div 256 < 64" using assms(1) by (simp add: less_mult_imp_div_less)
  then have bits: "b \<noteq> 0" "and b 0xC0 = 0xC0" "unat (and b 0x3F) = t div 256"
    using all by (simp_all add: b_def)
  show "b \<noteq> 0" and "and b 0xC0 = 0xC0" by (rule bits(1), rule bits(2))
  have c: "unat c = t mod 256" by (simp add: c_def unsigned_of_nat take_bit_nat_def)
  have "or (push_bit 8 (t div 256)) (t mod 256) = push_bit 8 (t div 256) + t mod 256"
  proof (rule disjunctive_add [symmetric])
    fix n
    have "\<not> bit (t mod 256) n" if "8 \<le> n"
      using that bit_take_bit_iff [of 8 t n] by (simp add: take_bit_eq_mod)
    then show "\<not> bit (push_bit 8 (t div 256)) n \<or> \<not> bit (t mod 256) n"
      by (cases "8 \<le> n") (simp_all add: bit_push_bit_iff)
  qed
  also have "\<dots> = t" by (simp add: push_bit_eq_mult)
  finally show "or (push_bit 8 (unat (and b 0x3F))) (unat c) = t" by (simp add: bits(3) c)
qed

lemma decode_loop_spells:
  "spells buf n pos ls \<Longrightarrow> hops + n \<le> 128 \<Longrightarrow>
   \<exists>q. decode_loop buf pos orig jumped hops out = Some (dotted out ls, q)"
proof (induction arbitrary: orig jumped hops out rule: spells.induct)
  case (root p post)
  then have "p < length buf" and "buf ! p = 0" by (auto simp: not_le [symmetric] nth_via_drop)
  then show ?case by (subst decode_loop.simps) (simp add: dotted_def)
next
  case (label p l post n ls)
  have d: "drop p buf = of_nat (length l) # map of_char l @ post" using label.hyps(1) by (simp add: wire_label_def)
  then have pos: "p < length buf" and b: "buf ! p = of_nat (length l)"
    by (metis drop_eq_Nil list.distinct(1) not_less, simp add: nth_via_drop)
  have d1: "drop (Suc p) buf = map of_char l @ post" using d by (metis drop_Suc list.sel(3) tl_drop)
  have "length buf - Suc p = length l + length post" using arg_cong [OF d1, of length] by simp
  then have room: "p + 1 + length l \<le> length buf" using pos by linarith
  obtain q where "decode_loop buf (p + 1 + length l) orig jumped hops
      ((if out \<noteq> [] then out @ [DOT] else out) @ l) = Some (dotted ((if out \<noteq> [] then out @ [DOT] else out) @ l) ls, q)"
    using label.IH [OF label.prems, of orig jumped] by fastforce
  then show ?case
    using pos b length_byte [OF label.hyps(2)] room d1
    by (subst decode_loop.simps) (simp add: dotted_def comp_def)
next
  case (pointer p t post n ls)
  have d: "drop p buf = (0xC0 + of_nat (t div 256)) # of_nat (t mod 256) # post"
    using pointer.hyps(1) by (simp add: wire_pointer_def)
  have "length buf - p = 2 + length post" using arg_cong [OF d, of length] by simp
  then have pos: "p + 1 < length buf" by linarith
  have at: "buf ! p = 0xC0 + of_nat (t div 256)" "buf ! (p + 1) = of_nat (t mod 256)"
    using d by (simp add: nth_via_drop, metis Suc_eq_plus1 d drop_Suc list.sel(3) nth_via_drop tl_drop)
  obtain q where "decode_loop buf t (if \<not> jumped then p + 2 else orig) True (hops + 1) out = Some (dotted out ls, q)"
    using pointer.IH [of "hops + 1"] pointer.prems by fastforce
  then show ?case
    using pos at pointer_bytes [OF pointer.hyps(2)] pointer.prems
    by (subst decode_loop.simps) (simp add: Let_def)
qed

text \<open>
  A name as it is written in a message: labels, and a pointer or the root behind them. What it stands for is
  \<open>nm_labels\<close>; at most 128 pointers may be on the way, the limit of the code.
\<close>

record dns_name =
  nm_labels :: "string list"
  nm_written :: "string list"
  nm_pointer :: "nat option"

definition name_wire :: "dns_name \<Rightarrow> bytes" where
  "name_wire nm = concat (map wire_label (nm_written nm)) @
     (case nm_pointer nm of None \<Rightarrow> [0] | Some t \<Rightarrow> wire_pointer t)"

definition name_ok :: "bytes \<Rightarrow> dns_name \<Rightarrow> bool" where
  "name_ok msg nm \<longleftrightarrow> labels_ok (nm_written nm) \<and>
     (case nm_pointer nm of
        None \<Rightarrow> nm_labels nm = nm_written nm
      | Some t \<Rightarrow> t < 2 ^ 14 \<and> (\<exists>n < 128. \<exists>ls. spells msg n t ls \<and> nm_labels nm = nm_written nm @ ls))"

definition name_text :: "dns_name \<Rightarrow> string" where
  "name_text nm = join_with DOT (nm_labels nm)"

lemma spells_append:
  "drop p msg = concat (map wire_label ls) @ post \<Longrightarrow> labels_ok ls \<Longrightarrow>
   spells msg n (p + length (concat (map wire_label ls))) ms \<Longrightarrow> spells msg n p (ls @ ms)"
proof (induction ls arbitrary: p)
  case (Cons l ls)
  have d: "drop p msg = wire_label l @ concat (map wire_label ls) @ post" using Cons.prems(1) by simp
  have "spells msg n (p + length (wire_label l)) (ls @ ms)"
    by (rule Cons.IH [OF drop_past [OF d refl]]) (use Cons.prems(2,3) in \<open>simp_all add: labels_ok_def add.assoc\<close>)
  then have "spells msg n p (l # ls @ ms)"
    using d Cons.prems(2) by (intro spells.label) (simp_all add: labels_ok_def)
  then show ?case by simp
qed simp

lemma name_spells:
  assumes "drop p msg = name_wire nm @ post" and "name_ok msg nm"
  shows "\<exists>n \<le> 128. spells msg n p (nm_labels nm)"
proof -
  let ?w = "concat (map wire_label (nm_written nm))"
  have ok: "labels_ok (nm_written nm)" using assms(2) by (simp add: name_ok_def)
  show ?thesis
  proof (cases "nm_pointer nm")
    case None
    then have d: "drop p msg = ?w @ 0 # post" using assms(1) by (simp add: name_wire_def)
    have "spells msg 0 (p + length ?w) []" by (rule spells.root [OF drop_past [OF d refl]])
    then have "spells msg 0 p (nm_written nm @ [])" by (rule spells_append [OF d ok])
    then show ?thesis using None assms(2) by (intro exI [of _ 0]) (simp add: name_ok_def)
  next
    case (Some t)
    then have d: "drop p msg = ?w @ wire_pointer t @ post" using assms(1) by (simp add: name_wire_def)
    obtain n ls where n: "n < 128" "t < 2 ^ 14" "spells msg n t ls" "nm_labels nm = nm_written nm @ ls"
      using Some assms(2) by (auto simp: name_ok_def)
    have "spells msg (Suc n) (p + length ?w) ls" by (rule spells.pointer [OF drop_past [OF d refl] n(2,3)])
    then have "spells msg (Suc n) p (nm_written nm @ ls)" by (rule spells_append [OF d ok])
    then show ?thesis using n(1,4) by (intro exI [of _ "Suc n"]) simp
  qed
qed

lemma skip_name_written:
  "drop p buf = name_wire nm @ post \<Longrightarrow> name_ok buf nm \<Longrightarrow> skip_name buf p = Some (p + length (name_wire nm))"
proof -
  have ends: "skip_name buf p = Some (p + length e)"
    if "drop p buf = e @ post" "e = [0] \<or> (\<exists>t < 2 ^ 14. e = wire_pointer t)" for p e
  proof -
    have "p < length buf" using that by (metis append_Cons append_self_conv2 drop_eq_Nil list.distinct(1) not_less wire_pointer_def)
    moreover have "buf ! p = hd e" using that by (auto simp: wire_pointer_def nth_via_drop)
    ultimately show ?thesis using that(2) pointer_bytes by (subst skip_name.simps) (auto simp: wire_pointer_def)
  qed
  have walk: "skip_name buf p = Some (p + length (concat (map wire_label ls)) + length e)"
    if "drop p buf = concat (map wire_label ls) @ e @ post" "labels_ok ls" "e = [0] \<or> (\<exists>t < 2 ^ 14. e = wire_pointer t)" for p ls e
    using that
  proof (induction ls arbitrary: p)
    case Nil
    then show ?case using ends by simp
  next
    case (Cons l ls)
    have d: "drop p buf = wire_label l @ concat (map wire_label ls) @ e @ post" using Cons.prems(1) by simp
    then have "p < length buf" and b: "buf ! p = of_nat (length l)"
      by (metis append_is_Nil_conv drop_eq_Nil list.distinct(1) not_less wire_label_def, simp add: wire_label_def nth_via_drop)
    moreover have "skip_name buf (p + length (wire_label l)) =
        Some (p + length (wire_label l) + length (concat (map wire_label ls)) + length e)"
      by (rule Cons.IH [OF drop_past [OF d refl]]) (use Cons.prems in \<open>simp_all add: labels_ok_def\<close>)
    ultimately show ?case using length_byte [of l] Cons.prems(2)
      by (subst skip_name.simps) (simp add: labels_ok_def)
  qed
  define e where "e = (case nm_pointer nm of None \<Rightarrow> [0] | Some t \<Rightarrow> wire_pointer t)"
  assume "drop p buf = name_wire nm @ post" and ok: "name_ok buf nm"
  then have "drop p buf = concat (map wire_label (nm_written nm)) @ e @ post" by (simp add: name_wire_def e_def)
  moreover have "labels_ok (nm_written nm)" using ok by (simp add: name_ok_def)
  moreover have "e = [0] \<or> (\<exists>t < 2 ^ 14. e = wire_pointer t)" using ok by (auto simp: e_def name_ok_def split: option.splits)
  ultimately have "skip_name buf p = Some (p + length (concat (map wire_label (nm_written nm))) + length e)" by (rule walk)
  then show ?thesis by (simp add: name_wire_def e_def [symmetric] add.assoc)
qed

lemma decode_name_written:
  assumes "drop p buf = name_wire nm @ post" and "name_ok buf nm"
  shows "decode_name buf p = Some (name_text nm, p + length (name_wire nm))"
proof -
  obtain n where n: "n \<le> 128" "spells buf n p (nm_labels nm)" using name_spells [OF assms] by blast
  obtain q where "decode_name buf p = Some (dotted [] (nm_labels nm), q)"
    using decode_loop_spells [OF n(2), of 0 p False "[]"] n(1) by (auto simp: decode_name_def)
  moreover obtain out where "decode_name buf p = Some (out, if p + length (name_wire nm) \<le> length buf then p + length (name_wire nm) else p)"
    using skip_name_written [OF assms] by (rule decode_name_skip)
  moreover have "p + length (name_wire nm) \<le> length buf"
    by (rule drop_room [OF assms(1)]) (simp add: name_wire_def wire_pointer_def split: option.split)
  ultimately show ?thesis using dotted_join [OF spells_labels [OF n(2)]] by (simp add: name_text_def)
qed

lemma name_at_written: "drop p buf = name_wire nm @ post \<Longrightarrow> name_ok buf nm \<Longrightarrow> name_at buf p = Some (name_text nm)"
  using decode_name_written by (simp add: name_at_def)

section \<open>Resource data and records\<close>

text \<open>
  Resource data by kind. A name record carries its type (NS, CNAME, PTR, DNAME), a service binding too (SVCB, HTTPS);
  \<open>Other_data\<close> stands for every type the code only describes by its length.
\<close>

datatype dns_data =
    A_data bytes
  | AAAA_data bytes
  | Name_data u16 dns_name
  | Mx_data u16 dns_name
  | Srv_data u16 u16 u16 dns_name
  | Txt_data "string list"
  | Soa_data dns_name dns_name u32 u32 u32 u32 u32
  | Caa_data u8 string string
  | Tlsa_data u8 u8 u8 bytes
  | Sshfp_data u8 u8 bytes
  | Hinfo_data string string
  | Nsec_data dns_name bytes
  | Svcb_data u16 u16 dns_name bytes
  | Other_data u16 bytes

fun data_type :: "dns_data \<Rightarrow> u16" where
  "data_type (A_data a) = 1"
| "data_type (AAAA_data a) = 28"
| "data_type (Name_data t nm) = t"
| "data_type (Mx_data p nm) = 15"
| "data_type (Srv_data p w q nm) = 33"
| "data_type (Txt_data ss) = 16"
| "data_type (Soa_data m r a b c d e) = 6"
| "data_type (Caa_data f tag v) = 257"
| "data_type (Tlsa_data u s m d) = 52"
| "data_type (Sshfp_data a t fp) = 44"
| "data_type (Hinfo_data cpu os) = 13"
| "data_type (Nsec_data nm bm) = 47"
| "data_type (Svcb_data t p nm ps) = t"
| "data_type (Other_data t bs) = t"

fun data_wire :: "dns_data \<Rightarrow> bytes" where
  "data_wire (A_data a) = a"
| "data_wire (AAAA_data a) = a"
| "data_wire (Name_data t nm) = name_wire nm"
| "data_wire (Mx_data p nm) = be16 p @ name_wire nm"
| "data_wire (Srv_data p w q nm) = be16 p @ be16 w @ be16 q @ name_wire nm"
| "data_wire (Txt_data ss) = concat (map wire_label ss)"
| "data_wire (Soa_data m r a b c d e) = name_wire m @ name_wire r @ be32 a @ be32 b @ be32 c @ be32 d @ be32 e"
| "data_wire (Caa_data f tag v) = [f, of_nat (length tag)] @ map of_char tag @ map of_char v"
| "data_wire (Tlsa_data u s m d) = [u, s, m] @ d"
| "data_wire (Sshfp_data a t fp) = [a, t] @ fp"
| "data_wire (Hinfo_data cpu os) = wire_label cpu @ wire_label os"
| "data_wire (Nsec_data nm bm) = name_wire nm @ bm"
| "data_wire (Svcb_data t p nm ps) = be16 p @ name_wire nm @ ps"
| "data_wire (Other_data t bs) = bs"

text \<open>The types described by a word, and what is written for a type that is only described.\<close>

definition described :: "(u16 \<times> string) list" where
  "described = [(48, ''dnskey''), (43, ''ds''), (51, ''nsec3param''), (59, ''cds''), (60, ''cdnskey''), (61, ''openpgpkey''),
     (53, ''smimea'')]"

definition other_text :: "u16 \<Rightarrow> nat \<Rightarrow> string" where
  "other_text t n =
     (if t = 46 then ''<rrsig present>''
      else case map_of described t of
        Some what \<Rightarrow> ''<'' @ what @ '' present, '' @ show_nat n @ ''B>''
      | None \<Rightarrow> ''<type '' @ show_nat (unat t) @ '', '' @ show_nat n @ ''B>'')"

fun data_text :: "ntop_env \<Rightarrow> dns_data \<Rightarrow> string" where
  "data_text env (A_data a) = ntop4 env a"
| "data_text env (AAAA_data a) = ntop6 env a"
| "data_text env (Name_data t nm) = name_text nm"
| "data_text env (Mx_data p nm) = show_nat (unat p) @ '' '' @ name_text nm"
| "data_text env (Srv_data p w q nm) =
     show_nat (unat p) @ '' '' @ show_nat (unat w) @ '' '' @ show_nat (unat q) @ '' '' @ name_text nm"
| "data_text env (Txt_data ss) = concat ss"
| "data_text env (Soa_data m r a b c d e) =
     name_text m @ '' '' @ name_text r @ concat (map (\<lambda>w. '' '' @ show_nat (unat w)) [a, b, c, d, e])"
| "data_text env (Caa_data f tag v) = show_nat (unat f) @ '' '' @ tag @ '' '' @ [CHR 0x22] @ v @ [CHR 0x22]"
| "data_text env (Tlsa_data u s m d) =
     show_nat (unat u) @ '' '' @ show_nat (unat s) @ '' '' @ show_nat (unat m) @ '' '' @ to_hex d"
| "data_text env (Sshfp_data a t fp) = show_nat (unat a) @ '' '' @ show_nat (unat t) @ '' '' @ to_hex fp"
| "data_text env (Hinfo_data cpu os) = [CHR 0x22] @ cpu @ [CHR 0x22, CHR '' '', CHR 0x22] @ os @ [CHR 0x22]"
| "data_text env (Nsec_data nm bm) = name_text nm @ ''  <bitmap '' @ show_nat (length bm) @ ''B>''"
| "data_text env (Svcb_data t p nm ps) =
     show_nat (unat p) @ '' '' @ (if name_text nm = [] then [DOT] else name_text nm) @
       ''  <params '' @ show_nat (length ps) @ ''B>''"
| "data_text env (Other_data t bs) = other_text t (length bs)"

definition read_types :: "u16 set" where
  "read_types = {1, 2, 5, 6, 12, 13, 15, 16, 28, 33, 39, 44, 47, 52, 64, 65, 257}"

fun data_ok :: "bytes \<Rightarrow> dns_data \<Rightarrow> bool" where
  "data_ok msg (A_data a) \<longleftrightarrow> length a = 4"
| "data_ok msg (AAAA_data a) \<longleftrightarrow> length a = 16"
| "data_ok msg (Name_data t nm) \<longleftrightarrow> t \<in> {2, 5, 12, 39} \<and> name_ok msg nm"
| "data_ok msg (Mx_data p nm) \<longleftrightarrow> name_ok msg nm"
| "data_ok msg (Srv_data p w q nm) \<longleftrightarrow> name_ok msg nm"
| "data_ok msg (Txt_data ss) \<longleftrightarrow> (\<forall>s \<in> set ss. length s \<le> 255)"
| "data_ok msg (Soa_data m r a b c d e) \<longleftrightarrow> name_ok msg m \<and> name_ok msg r"
| "data_ok msg (Caa_data f tag v) \<longleftrightarrow> length tag \<le> 255"
| "data_ok msg (Tlsa_data u s m d) \<longleftrightarrow> True"
| "data_ok msg (Sshfp_data a t fp) \<longleftrightarrow> True"
| "data_ok msg (Hinfo_data cpu os) \<longleftrightarrow> length cpu \<le> 255 \<and> length os \<le> 255"
| "data_ok msg (Nsec_data nm bm) \<longleftrightarrow> name_ok msg nm"
| "data_ok msg (Svcb_data t p nm ps) \<longleftrightarrow> t \<in> {64, 65} \<and> name_ok msg nm"
| "data_ok msg (Other_data t bs) \<longleftrightarrow> t \<notin> read_types"

lemma txt_loop_wire:
  "drop p buf = concat (map wire_label ss) @ post \<Longrightarrow> \<forall>s \<in> set ss. length s \<le> 255 \<Longrightarrow>
   txt_loop buf p (p + length (concat (map wire_label ss))) out = Some (out @ concat ss)"
proof (induction ss arbitrary: p out)
  case Nil
  then show ?case by (subst txt_loop.simps) simp
next
  case (Cons s ss)
  let ?n = "length s"
  have u: "unat (of_nat ?n :: u8) = ?n" using Cons.prems(2) by (simp add: unsigned_of_nat take_bit_nat_eq_self)
  have d: "drop p buf = [of_nat ?n] @ map of_char s @ concat (map wire_label ss) @ post"
    using Cons.prems(1) by (simp add: wire_label_def [of s])
  then have p: "p < length buf" and b: "buf ! p = of_nat ?n"
    by (metis append_Cons drop_eq_Nil list.distinct(1) not_less, simp add: nth_via_drop)
  have d1: "drop (Suc p) buf = map of_char s @ concat (map wire_label ss) @ post"
    using drop_past [OF d, of 1] by simp
  have rest: "drop (Suc p + ?n) buf = concat (map wire_label ss) @ post"
    by (rule drop_past [OF d1]) simp
  have room: "Suc p + ?n \<le> length buf"
    using drop_room [of p buf "of_nat ?n # map of_char s"] d by fastforce
  show ?case
    using p b u d1 room Cons.IH [OF rest] Cons.prems(2)
    by (subst txt_loop.simps) (simp add: wire_label_def [of s] comp_def add.assoc)
qed

lemma render_name: "t \<in> {2, 5, 12, 39} \<Longrightarrow> render_rdata env buf p t n = name_at buf p"
  by (elim insertE emptyE) (simp_all add: render_rdata_def)

lemma rd_wire: "drop p buf = b # post \<Longrightarrow> rd buf p = Some b"
  by (auto simp: rd_def nth_via_drop not_le [symmetric])

lemma after_byte: "drop p buf = b # post \<Longrightarrow> q = p + 1 \<Longrightarrow> drop q buf = post"
  using drop_past [of p buf "[b]" post 1] by simp

lemma rd_bytes_exact:
  assumes "drop p buf = a @ post" and "p \<le> length buf" and "length a = n"
  shows "rd_bytes buf p n = Some a"
proof -
  have "length buf - p = n + length post" using arg_cong [OF assms(1), of length] assms(3) by simp
  then have "p + n \<le> length buf" using assms(2) by linarith
  then show ?thesis using assms(1,3) by (simp add: rd_bytes_def)
qed

lemma name_wire_length: "0 < length (name_wire nm)"
  by (simp add: name_wire_def wire_pointer_def split: option.split)

lemma render_soa_wire:
  assumes "drop p buf = data_wire (Soa_data m r a b c d e) @ post" and "data_ok buf (Soa_data m r a b c d e)"
  shows "render_soa buf p = Some (data_text env (Soa_data m r a b c d e))"
proof -
  have d0: "drop p buf = name_wire m @ name_wire r @ be32 a @ be32 b @ be32 c @ be32 d @ be32 e @ post"
    and ok: "name_ok buf m" "name_ok buf r" using assms by simp_all
  let ?q = "p + length (name_wire m) + length (name_wire r)"
  note d1 = drop_past [OF d0 refl]
  note q0 = drop_past [OF d1 refl]
  have q4: "drop (?q + 4) buf = be32 b @ be32 c @ be32 d @ be32 e @ post" by (rule drop_past [OF q0]) simp
  have "drop (?q + 4 + 4) buf = be32 c @ be32 d @ be32 e @ post" by (rule drop_past [OF q4]) simp
  then have q8: "drop (?q + 8) buf = be32 c @ be32 d @ be32 e @ post" by (simp add: ac_simps)
  have "drop (?q + 8 + 4) buf = be32 d @ be32 e @ post" by (rule drop_past [OF q8]) simp
  then have q12: "drop (?q + 12) buf = be32 d @ be32 e @ post" by (simp add: ac_simps)
  have "drop (?q + 12 + 4) buf = be32 e @ post" by (rule drop_past [OF q12]) simp
  then have q16: "drop (?q + 16) buf = be32 e @ post" by (simp add: ac_simps)
  have "?q + 20 \<le> length buf" using drop_room [OF q16] by (simp add: be32_def)
  then show ?thesis
    using decode_name_written [OF d0 ok(1)] decode_name_written [OF d1 ok(2)]
      rd32_wire [OF q0] rd32_wire [OF q4] rd32_wire [OF q8] rd32_wire [OF q12] rd32_wire [OF q16]
    by (simp add: render_soa_def del: rd32_Some)
qed

lemma render_caa_wire:
  assumes "drop p buf = data_wire (Caa_data f tag v) @ post" and "data_ok buf (Caa_data f tag v)"
  shows "render_caa buf p (length (data_wire (Caa_data f tag v))) = Some (data_text env (Caa_data f tag v))"
proof -
  have d0: "drop p buf = f # of_nat (length tag) # map of_char tag @ map of_char v @ post" using assms by simp
  have u: "unat (of_nat (length tag) :: u8) = length tag" using assms(2) by (simp add: unsigned_of_nat take_bit_nat_eq_self)
  note d1 = after_byte [OF d0 refl]
  have d2: "drop (p + 2) buf = map of_char tag @ map of_char v @ post" by (rule after_byte [OF d1]) simp
  have d3: "drop (p + 2 + length tag) buf = map of_char v @ post" by (rule drop_past [OF d2]) simp
  have room: "p + 2 + length tag \<le> length buf" using drop_room [of p buf "f # of_nat (length tag) # map of_char tag"] d0 by simp
  have "rd_bytes buf (p + 2) (length tag) = Some (map of_char tag)" by (rule rd_bytes_exact [OF d2]) (use room in simp_all)
  moreover have "rd_bytes buf (p + 2 + length tag) (length v) = Some (map of_char v)"
    by (rule rd_bytes_exact [OF d3]) (use room in simp_all)
  ultimately show ?thesis
    using rd_wire [OF d0] rd_wire [OF d1] u
    by (simp add: render_caa_def show_u8_def comp_def del: rd_Some rd_bytes_Some)
qed

lemma hinfo_string_wire:
  assumes "drop p buf = wire_label s @ post" and "length s \<le> 255" and "p + length (wire_label s) \<le> stop"
  shows "hinfo_string buf p stop = Some (s, p + length (wire_label s))"
proof -
  have d: "drop p buf = of_nat (length s) # map of_char s @ post" using assms(1) by (simp add: wire_label_def)
  have u: "unat (of_nat (length s) :: u8) = length s" using assms(2) by (simp add: unsigned_of_nat take_bit_nat_eq_self)
  have room: "p + 1 + length s \<le> length buf" using drop_room [OF assms(1)] by (simp add: wire_label_def)
  have "rd_bytes buf (p + 1) (length s) = Some (map of_char s)"
    by (rule rd_bytes_exact [OF after_byte [OF d refl]]) (use room in simp_all)
  then show ?thesis
    using rd_wire [OF d] u room assms(3) by (simp add: hinfo_string_def comp_def del: rd_Some rd_bytes_Some)
qed

lemma render_wire:
  assumes "drop p buf = data_wire d @ post" and "data_ok buf d"
  shows "render_rdata env buf p (data_type d) (length (data_wire d)) = Some (data_text env d)"
proof (cases d)
  case (A_data a)
  then show ?thesis using assms rd_bytes_wire [of p buf a post 4] by (simp add: render_rdata_def)
next
  case (AAAA_data a)
  then show ?thesis using assms rd_bytes_wire [of p buf a post 16] by (simp add: render_rdata_def)
next
  case (Name_data t nm)
  then show ?thesis using assms name_at_written [of p buf nm post] by (simp add: render_name)
next
  case (Mx_data pref nm)
  then have d: "drop p buf = be16 pref @ name_wire nm @ post" and ok: "name_ok buf nm" using assms by simp_all
  show ?thesis
    using rd16_wire [OF d] name_at_written [OF after_be16 [OF d refl] ok] Mx_data name_wire_length [of nm]
    by (simp add: render_rdata_def render_mx_def show_u16_def)
next
  case (Srv_data prio weight port nm)
  then have d: "drop p buf = be16 prio @ be16 weight @ be16 port @ name_wire nm @ post" and ok: "name_ok buf nm"
    using assms by simp_all
  note d2 = after_be16 [OF d refl]
  have d4: "drop (p + 4) buf = be16 port @ name_wire nm @ post" by (rule after_be16 [OF d2]) simp
  have d6: "drop (p + 6) buf = name_wire nm @ post" by (rule after_be16 [OF d4]) simp
  show ?thesis
    using rd16_wire [OF d] rd16_wire [OF d2] rd16_wire [OF d4] name_at_written [OF d6 ok] Srv_data name_wire_length [of nm]
    by (simp add: render_rdata_def render_srv_def show_u16_def)
next
  case (Txt_data ss)
  then show ?thesis using assms txt_loop_wire [of p buf ss post "[]"] by (simp add: render_rdata_def)
next
  case (Soa_data m r a b c d e)
  then show ?thesis using assms render_soa_wire [of p buf m r a b c d e post env] by (simp add: render_rdata_def)
next
  case (Caa_data f tag v)
  then show ?thesis using assms render_caa_wire [of p buf f tag v post env] by (simp add: render_rdata_def)
next
  case (Tlsa_data u s m bs)
  then have d: "drop p buf = u # s # m # bs @ post" using assms by simp
  note d1 = after_byte [OF d refl]
  have d2: "drop (p + 2) buf = m # bs @ post" by (rule after_byte [OF d1]) simp
  have d3: "drop (p + 3) buf = bs @ post" by (rule after_byte [OF d2]) simp
  have "p + 3 \<le> length buf" using drop_room [of p buf "[u, s, m]"] d by simp
  then have "rd_bytes buf (p + 3) (length bs) = Some bs" by (rule rd_bytes_exact [OF d3]) simp
  then show ?thesis using rd_wire [OF d] rd_wire [OF d1] rd_wire [OF d2] Tlsa_data
    by (simp add: render_rdata_def render_tlsa_def show_u8_def del: rd_Some rd_bytes_Some)
next
  case (Sshfp_data a t fp)
  then have d: "drop p buf = a # t # fp @ post" using assms by simp
  note d1 = after_byte [OF d refl]
  have d2: "drop (p + 2) buf = fp @ post" by (rule after_byte [OF d1]) simp
  have "p + 2 \<le> length buf" using drop_room [of p buf "[a, t]"] d by simp
  then have "rd_bytes buf (p + 2) (length fp) = Some fp" by (rule rd_bytes_exact [OF d2]) simp
  then show ?thesis using rd_wire [OF d] rd_wire [OF d1] Sshfp_data
    by (simp add: render_rdata_def render_sshfp_def show_u8_def del: rd_Some rd_bytes_Some)
next
  case (Hinfo_data cpu os)
  then have d: "drop p buf = wire_label cpu @ wire_label os @ post" using assms by simp
  let ?stop = "p + length (wire_label cpu @ wire_label os)"
  have "hinfo_string buf p ?stop = Some (cpu, p + length (wire_label cpu))"
    by (rule hinfo_string_wire [OF d]) (use Hinfo_data assms(2) in simp_all)
  moreover have "hinfo_string buf (p + length (wire_label cpu)) ?stop = Some (os, p + length (wire_label cpu) + length (wire_label os))"
    by (rule hinfo_string_wire [OF drop_past [OF d refl]]) (use Hinfo_data assms(2) in simp_all)
  ultimately show ?thesis using Hinfo_data by (simp add: render_rdata_def render_hinfo_def)
next
  case (Nsec_data nm bm)
  then have "drop p buf = name_wire nm @ bm @ post" and "name_ok buf nm" using assms by simp_all
  then show ?thesis using decode_name_written [of p buf nm] Nsec_data by (simp add: render_rdata_def render_nsec_def)
next
  case (Svcb_data t prio nm ps)
  then have d: "drop p buf = be16 prio @ name_wire nm @ ps @ post" and ok: "name_ok buf nm" using assms by simp_all
  have t: "t = 64 \<or> t = 65" using Svcb_data assms(2) by simp
  have "render_svcb buf p (length (data_wire d)) = Some (data_text env d)"
    using rd16_wire [OF d] decode_name_written [OF after_be16 [OF d refl] ok] Svcb_data
    by (simp add: render_svcb_def show_u16_def)
  moreover have "2 \<le> length (data_wire d)" using Svcb_data by simp
  ultimately show ?thesis using t Svcb_data by (elim disjE) (simp_all add: render_rdata_def)
next
  case (Other_data t bs)
  then have "t \<notin> read_types" using assms(2) by simp
  then show ?thesis using Other_data
    by (simp add: render_rdata_def read_types_def other_text_def described_def present_def show_u16_def)
qed

section \<open>Answers\<close>

record dns_rr =
  rr_owner :: dns_name
  rr_class :: u16
  rr_ttl :: u32
  rr_data :: dns_data

definition rr_ok :: "bytes \<Rightarrow> dns_rr \<Rightarrow> bool" where
  "rr_ok msg r \<longleftrightarrow> name_ok msg (rr_owner r) \<and> (rr_class r = 1 \<longrightarrow> data_ok msg (rr_data r)) \<and> length (data_wire (rr_data r)) < 65536"

definition rr_wire :: "dns_rr \<Rightarrow> bytes" where
  "rr_wire r = name_wire (rr_owner r) @ be16 (data_type (rr_data r)) @ be16 (rr_class r) @ be32 (rr_ttl r) @
     be16 (of_nat (length (data_wire (rr_data r)))) @ data_wire (rr_data r)"

text \<open>A record of the class IN is reported, one of another class is passed over.\<close>

definition rr_record :: "ntop_env \<Rightarrow> string \<Rightarrow> dns_rr \<Rightarrow> dns_record option" where
  "rr_record env tag r =
     (if rr_class r = 1
      then Some \<lparr>rec_type = data_type (rr_data r), rec_name = name_text (rr_owner r),
        rec_value = data_text env (rr_data r), rec_ttl = rr_ttl r, rec_source = tag\<rparr>
      else None)"

lemma parse_rr_wire:
  assumes "drop pos buf = rr_wire r @ post" and "rr_ok buf r"
  shows "parse_rr env buf tag pos = Some (Rr (rr_record env tag r) (pos + length (rr_wire r)))"
proof -
  let ?d = "data_wire (rr_data r)"
  let ?p = "pos + length (name_wire (rr_owner r))"
  have u: "unat (of_nat (length ?d) :: u16) = length ?d"
    using assms(2) by (simp add: rr_ok_def unsigned_of_nat take_bit_nat_eq_self)
  have name: "decode_name buf pos = Some (name_text (rr_owner r), ?p)"
    using assms by (intro decode_name_written) (auto simp: rr_wire_def rr_ok_def)
  have p0: "drop ?p buf = be16 (data_type (rr_data r)) @ be16 (rr_class r) @ be32 (rr_ttl r) @ be16 (of_nat (length ?d)) @ ?d @ post"
    using assms(1) by (intro drop_past [of pos buf "name_wire (rr_owner r)"]) (simp_all add: rr_wire_def)
  have p2: "drop (?p + 2) buf = be16 (rr_class r) @ be32 (rr_ttl r) @ be16 (of_nat (length ?d)) @ ?d @ post"
    by (rule after_be16 [OF p0 refl])
  have p4: "drop (?p + 4) buf = be32 (rr_ttl r) @ be16 (of_nat (length ?d)) @ ?d @ post"
    by (rule after_be16 [OF p2]) simp
  have "drop (?p + 4 + 4) buf = be16 (of_nat (length ?d)) @ ?d @ post"
    by (rule drop_past [OF p4]) simp
  then have p8: "drop (?p + 8) buf = be16 (of_nat (length ?d)) @ ?d @ post" by (simp add: ac_simps)
  have p10: "drop (?p + 10) buf = ?d @ post" by (rule after_be16 [OF p8]) simp
  have room: "?p + 10 + length ?d \<le> length buf"
    using drop_room [of ?p buf "be16 (data_type (rr_data r)) @ be16 (rr_class r) @ be32 (rr_ttl r) @ be16 (of_nat (length ?d)) @ ?d" post] p0
    by (simp add: be16_def)
  have "render_rdata env buf (?p + 10) (data_type (rr_data r)) (length ?d) = Some (data_text env (rr_data r))" if "rr_class r = 1"
    using that render_wire [OF p10] assms(2) by (simp add: rr_ok_def)
  then show ?thesis
    using room by (simp add: parse_rr_def name rd16_wire [OF p0] rd16_wire [OF p2] rd32_wire [OF p4]
      rd16_wire [OF p8] u rr_record_def rr_wire_def Let_def del: rd16_Some rd32_Some add_2_eq_Suc')
qed

lemma parse_records_wire:
  "drop pos buf = concat (map rr_wire rs) @ post \<Longrightarrow> \<forall>r \<in> set rs. rr_ok buf r \<Longrightarrow>
   unat i + length rs = an + (if authority then ns else 0) \<Longrightarrow> an + ns < 65536 \<Longrightarrow>
   parse_records env buf tag authority an ns i pos = Some (List.map_filter (rr_record env tag) rs)"
proof (induction rs arbitrary: pos i)
  case Nil
  then show ?case by (subst parse_records.simps) (auto simp: List.map_filter_simps split: if_splits)
next
  case (Cons r rs)
  have d: "drop pos buf = rr_wire r @ concat (map rr_wire rs) @ post" using Cons.prems(1) by simp
  have le: "unat i + 1 \<le> an + (if authority then ns else 0)" using Cons.prems(3) by simp
  then have i: "unat (i + 1) = Suc (unat i)"
    using Cons.prems(4) by (auto simp: unat_word_ariths take_bit_nat_eq_self split: if_splits)
  have rest: "parse_records env buf tag authority an ns (i + 1) (pos + length (rr_wire r)) =
      Some (List.map_filter (rr_record env tag) rs)"
    using Cons.prems i by (intro Cons.IH drop_past [OF d]) simp_all
  have "unat i < an + ns \<and> \<not> (an \<le> unat i \<and> \<not> authority)" using le by (cases authority) simp_all
  then show ?case
    using rest parse_rr_wire [OF d] Cons.prems(2)
    by (subst parse_records.simps) (simp add: List.map_filter_simps split: option.split)
qed

text \<open>
  The message of a server: the question repeated, the records of the answer, those of the authority section, and
  behind them an additional section of any bytes. Pointers in it may lead to any name of it, before or behind.
\<close>

definition answer_message :: "u16 \<Rightarrow> u16 \<Rightarrow> string \<Rightarrow> u16 \<Rightarrow> dns_rr list \<Rightarrow> dns_rr list \<Rightarrow> u16 \<Rightarrow> bytes \<Rightarrow> bytes" where
  "answer_message txn flags host qtype ans auth ar extra =
     be16 txn @ be16 flags @ be16 1 @ be16 (of_nat (length ans)) @ be16 (of_nat (length auth)) @ be16 ar @
     drop 12 (build_query txn host qtype False) @ concat (map rr_wire ans) @ concat (map rr_wire auth) @ extra"

lemma skip_name_wire:
  assumes "drop pos buf = wire_name ls @ post" and "labels_ok ls"
  shows "skip_name buf pos = Some (pos + length (wire_name ls))"
proof -
  obtain q where q: "skip_name buf pos = Some q" using skip_name_total by blast
  have "decode_name buf pos = Some (join_with DOT ls, pos + length (wire_name ls))"
    using assms by (intro decode_name_wire) (auto simp: labels_ok_def)
  moreover obtain out where "decode_name buf pos = Some (out, if q \<le> length buf then q else pos)"
    using q by (rule decode_name_skip)
  ultimately show ?thesis using q by (auto simp: wire_name_def split: if_splits)
qed

text \<open>
  C19. The reply to a query the program built is read as what its records say. The reply repeats the question and has
  records in its answer and authority sections and any bytes behind. A record has any class and, in class IN, any type,
  with data of the form of its type; every name in it may be compressed, with pointers to any place of the message that spells a
  name along at most 128 pointers in all. The records of class IN are reported in order, with their names, types,
  times to live and values, those of other classes are passed over; those of the authority section count only when they are asked for.
\<close>

theorem dns_reply_parsed:
  assumes "labels_ok ls" and msg: "msg = answer_message txn flags (join_with DOT ls) qtype ans auth ar extra"
    and "\<forall>r \<in> set (ans @ auth). rr_ok msg r" and "length ans + length auth < 65536"
  shows "parse_message env msg tag authority =
    Some (List.map_filter (rr_record env tag) (ans @ (if authority then auth else [])))"
proof -
  let ?host = "join_with DOT ls"
  let ?rs = "ans @ (if authority then auth else [])"
  let ?post = "(if authority then [] else concat (map rr_wire auth)) @ extra"
  have name: "encode_name ?host = wire_name ls" using assms(1) encode_name_wire by (simp add: labels_ok_def)
  have buf: "msg = be16 txn @ be16 flags @ be16 1 @ be16 (of_nat (length ans)) @ be16 (of_nat (length auth)) @ be16 ar @
      wire_name ls @ be16 qtype @ be16 1 @ concat (map rr_wire ?rs) @ ?post"
    by (simp add: msg answer_message_def build_query_def name)
  have n: "unat (of_nat (length ans) :: u16) = length ans" "unat (of_nat (length auth) :: u16) = length auth"
    using assms(4) by (simp_all add: unsigned_of_nat take_bit_nat_eq_self)
  have counts: "rd16 msg 4 = Some 1" "rd16 msg 6 = Some (of_nat (length ans))" "rd16 msg 8 = Some (of_nat (length auth))"
    by (rule rd16_wire, simp add: buf)+
  have d12: "drop 12 msg = wire_name ls @ be16 qtype @ be16 1 @ concat (map rr_wire ?rs) @ ?post" by (simp add: buf)
  let ?q = "12 + length (wire_name ls)"
  have skip: "skip_name msg 12 = Some ?q" by (rule skip_name_wire [OF d12 assms(1)])
  have q: "drop (?q + 4) msg = concat (map rr_wire ?rs) @ ?post" by (simp add: buf)
  have room: "?q + 4 \<le> length msg" by (simp add: buf)
  have "parse_records env msg tag authority (length ans) (length auth) 0 (?q + 4) = Some (List.map_filter (rr_record env tag) ?rs)"
    by (rule parse_records_wire [OF q]) (use assms(3,4) in auto)
  moreover have "skip_questions msg 1 12 = Some (Some (?q + 4))"
    using skip room by (simp add: One_nat_def del: One_nat_def [symmetric])
  ultimately show ?thesis
    using room by (simp add: parse_message_def counts n)
qed

text \<open>
  A reply to the query for the mail server of a.org, as servers write it: both names of the MX record and that of the authority end in
  pointers to the question, at 12, and the owner of the address record is a pointer to the name in the first record, at 37.
\<close>

definition at_question :: "string list \<Rightarrow> dns_name" where
  "at_question ls = \<lparr>nm_labels = ls @ [''a'', ''org''], nm_written = ls, nm_pointer = Some 12\<rparr>"

definition at_mail :: dns_name where
  "at_mail = \<lparr>nm_labels = [''mx'', ''a'', ''org''], nm_written = [], nm_pointer = Some 37\<rparr>"

definition answer_example :: "dns_rr list" where
  "answer_example =
     [\<lparr>rr_owner = at_question [], rr_class = 1, rr_ttl = 60, rr_data = Mx_data 5 (at_question [''mx''])\<rparr>,
      \<lparr>rr_owner = at_mail, rr_class = 1, rr_ttl = 60, rr_data = A_data [10, 0, 0, 1]\<rparr>,
      \<lparr>rr_owner = at_question [], rr_class = 3, rr_ttl = 0, rr_data = Txt_data [''chaos'']\<rparr>]"

definition authority_example :: "dns_rr list" where
  "authority_example = [\<lparr>rr_owner = at_question [], rr_class = 1, rr_ttl = 9, rr_data = Name_data 2 (at_question [''ns''])\<rparr>]"

definition reply_example :: bytes where
  "reply_example = answer_message 7 0x8180 ''a.org'' 15 answer_example authority_example 0 []"

lemma reply_example_bytes:
  "drop 12 reply_example = wire_label ''a'' @ wire_label ''org'' @ 0 # drop 19 reply_example"
  "drop 37 reply_example = wire_label ''mx'' @ wire_pointer 12 @ drop 42 reply_example"
  by code_simp+

lemma reply_example_names: "name_ok reply_example (at_question [])" "name_ok reply_example (at_question [''mx''])"
    "name_ok reply_example (at_question [''ns''])" "name_ok reply_example at_mail"
proof -
  have ok: "label_ok ''a''" "label_ok ''org''" "label_ok ''mx''" "label_ok ''ns''" by (simp_all add: label_ok_def)
  have q: "spells reply_example 0 12 [''a'', ''org'']"
    using spells_append [of 12 reply_example "[''a'', ''org'']" "0 # drop 19 reply_example" 0 "[]"]
      spells.root [of 18 reply_example "drop 19 reply_example"] reply_example_bytes(1) ok
      drop_past [of 12 reply_example "wire_label ''a'' @ wire_label ''org''" "0 # drop 19 reply_example" 6]
    by (simp add: labels_ok_def)
  have "drop 40 reply_example = wire_pointer 12 @ drop 42 reply_example"
    using drop_past [OF reply_example_bytes(2), of 3] by simp
  then have "spells reply_example 1 40 [''a'', ''org'']" using spells.pointer [OF _ _ q] by simp
  then have m: "spells reply_example 1 37 [''mx'', ''a'', ''org'']"
    using spells.label [OF reply_example_bytes(2), of 1] ok by simp
  show "name_ok reply_example (at_question [])" "name_ok reply_example (at_question [''mx''])"
    "name_ok reply_example (at_question [''ns''])"
    using q ok by (auto simp: name_ok_def at_question_def labels_ok_def intro!: exI [of _ 0])
  show "name_ok reply_example at_mail"
    using m by (auto simp: name_ok_def at_mail_def labels_ok_def intro!: exI [of _ 1])
qed

theorem dns_reply_parsed_witness:
  "map_option (map (\<lambda>r. (rec_type r, rec_name r, rec_value r)))
     (parse_message \<lparr>ntop4 = (\<lambda>_. ''10.0.0.1''), ntop6 = (\<lambda>_. [])\<rparr> reply_example ''x'' True) =
   Some [(15, ''a.org'', ''5 mx.a.org''), (1, ''mx.a.org'', ''10.0.0.1''), (2, ''a.org'', ''ns.a.org'')]"
proof -
  have "\<forall>r \<in> set (answer_example @ authority_example). rr_ok reply_example r"
    using reply_example_names
    by (simp add: answer_example_def authority_example_def rr_ok_def name_wire_def at_question_def wire_pointer_def wire_label_def)
  moreover have "labels_ok [''a'', ''org'']" by (simp add: labels_ok_def label_ok_def)
  moreover have "reply_example = answer_message 7 0x8180 (join_with DOT [''a'', ''org'']) 15 answer_example authority_example 0 []"
    by (simp add: reply_example_def)
  moreover have "length answer_example + length authority_example < 65536"
    by (simp add: answer_example_def authority_example_def)
  ultimately show ?thesis
    using dns_reply_parsed [of "[''a'', ''org'']" reply_example 7 "0x8180" 15 answer_example authority_example 0 "[]"
        "\<lparr>ntop4 = (\<lambda>_. ''10.0.0.1''), ntop6 = (\<lambda>_. [])\<rparr>" "''x''" True]
    by (simp add: rr_record_def answer_example_def authority_example_def List.map_filter_simps name_text_def at_question_def
        at_mail_def show_nat.simps char_of_def bit_0)
qed

end
