(* ===== verification/Net_Capture.thy ===== *)
theory Net_Capture
  imports Dns
begin

text \<open>
  The passive capture of src/net_capture.cpp: every frame that arrives is taken apart, SYN and
  SYN-ACK, QUIC and DNS requests and answers are matched against lists of pending requests,
  repeated findings are suppressed, and a sweep drops what is too old. Bytes are read with the
  checked reads of Dns. Points in time are nanoseconds of \<open>steady_clock\<close>; a reading of the clock
  is an argument. The counters, 64 bits wide in the code, are natural numbers.
\<close>

section \<open>Data\<close>

datatype port_state = PORT_OPEN | PORT_CLOSED

datatype proto = P_TCP | P_QUIC | P_DNS

datatype ip_version = IP_V4 | IP_V6

text \<open>The five fields that identify a connection in every structure of the capture.\<close>

record flow =
  fl_version :: ip_version
  fl_initiator_ip :: string
  fl_initiator_port :: u16
  fl_responder_ip :: string
  fl_responder_port :: u16

record finding =
  fi_proto :: proto
  fi_flow :: flow
  fi_state :: port_state
  fi_observed_at :: int

record pending_syn =
  ps_flow :: flow
  ps_seq :: u32
  ps_sent_at :: int

text \<open>\<open>PendingQuic\<close> and \<open>PendingDns\<close> have the same fields.\<close>

record pending_req =
  pr_flow :: flow
  pr_sent_at :: int

record reported_key =
  rk_proto :: proto
  rk_flow :: flow
  rk_state :: port_state
  rk_last :: int

text \<open>The options the capture reads after its socket is open.\<close>

record capture_opts =
  co_pending_timeout_ms :: int
  co_sweep_interval_ms :: int
  co_report_closed :: bool
  co_quic_port :: u16
  co_detect_quic :: bool
  co_dns_port :: u16
  co_detect_dns :: bool
  co_detect_established :: bool
  co_dedup_window_ms :: int
  co_duration_ms :: int

definition default_opts :: capture_opts where
  "default_opts = \<lparr>co_pending_timeout_ms = 4000, co_sweep_interval_ms = 1000, co_report_closed = False,
     co_quic_port = 443, co_detect_quic = True, co_dns_port = 53, co_detect_dns = True,
     co_detect_established = True, co_dedup_window_ms = 5000, co_duration_ms = 0\<rparr>"

record capture_stats =
  packets_seen :: nat
  syn_seen :: nat
  synack_seen :: nat
  rst_seen :: nat
  matched_open :: nat
  matched_closed :: nat
  pending_expired :: nat
  ack_seen :: nat
  finack_seen :: nat
  pshack_seen :: nat
  psh_seen :: nat
  matched_established :: nat
  quic_initial_seen :: nat
  quic_matched_open :: nat
  quic_pending_expired :: nat
  dns_query_seen :: nat
  dns_matched_open :: nat
  dns_pending_expired :: nat
  duplicates_suppressed :: nat

record capture =
  cap_stats :: capture_stats
  cap_pending :: "pending_syn list"
  cap_quic :: "pending_req list"
  cap_dns :: "pending_req list"
  cap_reported :: "reported_key list"

definition no_stats :: capture_stats where
  "no_stats = \<lparr>packets_seen = 0, syn_seen = 0, synack_seen = 0, rst_seen = 0, matched_open = 0,
     matched_closed = 0, pending_expired = 0, ack_seen = 0, finack_seen = 0, pshack_seen = 0,
     psh_seen = 0, matched_established = 0, quic_initial_seen = 0, quic_matched_open = 0,
     quic_pending_expired = 0, dns_query_seen = 0, dns_matched_open = 0, dns_pending_expired = 0,
     duplicates_suppressed = 0\<rparr>"

definition new_capture :: capture where
  "new_capture = \<lparr>cap_stats = no_stats, cap_pending = [], cap_quic = [], cap_dns = [], cap_reported = []\<rparr>"

definition count :: "(capture_stats \<Rightarrow> capture_stats) \<Rightarrow> capture \<Rightarrow> capture" where
  "count f cap = cap\<lparr>cap_stats := f (cap_stats cap)\<rparr>"

abbreviation (input) ms :: "int \<Rightarrow> int" where "ms t \<equiv> t * 1000000"

section \<open>Suppressing repeated findings\<close>

definition same_key :: "reported_key \<Rightarrow> finding \<Rightarrow> bool" where
  "same_key r f \<longleftrightarrow> rk_proto r = fi_proto f \<and> rk_flow r = fi_flow f \<and> rk_state r = fi_state f"

text \<open>The loop over \<open>reported_\<close>: when the key was last seen, and the list with the new time.\<close>

fun remark :: "finding \<Rightarrow> int \<Rightarrow> reported_key list \<Rightarrow> int option \<times> reported_key list" where
  "remark f now [] = (None, [\<lparr>rk_proto = fi_proto f, rk_flow = fi_flow f, rk_state = fi_state f, rk_last = now\<rparr>])"
| "remark f now (r # rs) =
     (if same_key r f then (Some (rk_last r), r\<lparr>rk_last := now\<rparr> # rs)
      else (let (last, rs') = remark f now rs in (last, r # rs')))"

definition dedupe_and_mark :: "capture_opts \<Rightarrow> finding \<Rightarrow> int \<Rightarrow> capture \<Rightarrow> bool \<times> capture" where
  "dedupe_and_mark opts f now cap =
     (if co_dedup_window_ms opts \<le> 0 then (False, cap)
      else (let (last, rs) = remark f now (cap_reported cap); cap = cap\<lparr>cap_reported := rs\<rparr> in
        case last of
          None \<Rightarrow> (False, cap)
        | Some l \<Rightarrow>
            if now - l \<le> ms (co_dedup_window_ms opts) then (True, count (duplicates_suppressed_update Suc) cap)
            else (False, cap)))"

text \<open>\<open>if (!dedupe_and_mark(f)) on_finding(f)\<close>: the finding handed on, if any.\<close>

definition report :: "capture_opts \<Rightarrow> finding \<Rightarrow> int \<Rightarrow> capture \<Rightarrow> finding list \<times> capture" where
  "report opts f now cap = (let (dup, cap) = dedupe_and_mark opts f now cap in (if dup then [] else [f], cap))"

section \<open>Pending requests\<close>

text \<open>A repeated request refreshes its entry, a new one goes to the end.\<close>

fun note_syn :: "flow \<Rightarrow> u32 \<Rightarrow> int \<Rightarrow> pending_syn list \<Rightarrow> pending_syn list" where
  "note_syn fl seq now [] = [\<lparr>ps_flow = fl, ps_seq = seq, ps_sent_at = now\<rparr>]"
| "note_syn fl seq now (p # ps) =
     (if ps_flow p = fl then p\<lparr>ps_seq := seq, ps_sent_at := now\<rparr> # ps else p # note_syn fl seq now ps)"

fun note_req :: "flow \<Rightarrow> int \<Rightarrow> pending_req list \<Rightarrow> pending_req list" where
  "note_req fl now [] = [\<lparr>pr_flow = fl, pr_sent_at = now\<rparr>]"
| "note_req fl now (p # ps) =
     (if pr_flow p = fl then p\<lparr>pr_sent_at := now\<rparr> # ps else p # note_req fl now ps)"

text \<open>The first entry that matches, taken out of the list.\<close>

fun take_first :: "('a \<Rightarrow> bool) \<Rightarrow> 'a list \<Rightarrow> ('a \<times> 'a list) option" where
  "take_first P [] = None"
| "take_first P (x # xs) =
     (if P x then Some (x, xs) else map_option (\<lambda>(y, ys). (y, x # ys)) (take_first P xs))"

section \<open>TCP\<close>

definition looks_like_responder_port :: "u16 \<Rightarrow> u16 \<Rightarrow> bool" where
  "looks_like_responder_port candidate other =
     (let candidate_wk = candidate < 1024; other_wk = other < 1024
      in if candidate_wk \<noteq> other_wk then candidate_wk else candidate < other)"

text \<open>The fields of a TCP header the capture reads.\<close>

record tcp_fields =
  tf_source :: u16
  tf_dest :: u16
  tf_seq :: u32
  tf_ack_seq :: u32
  tf_flags :: u8

definition read_tcp :: "bytes \<Rightarrow> tcp_fields option" where
  "read_tcp seg = do {
     source \<leftarrow> rd16 seg 0;
     dest \<leftarrow> rd16 seg 2;
     seq \<leftarrow> rd32 seg 4;
     ack_seq \<leftarrow> rd32 seg 8;
     flags \<leftarrow> rd seg 13;
     Some \<lparr>tf_source = source, tf_dest = dest, tf_seq = seq, tf_ack_seq = ack_seq, tf_flags = flags\<rparr>
   }"

definition make_flow :: "ip_version \<Rightarrow> string \<Rightarrow> u16 \<Rightarrow> string \<Rightarrow> u16 \<Rightarrow> flow" where
  "make_flow ver iip iport rip rport =
     \<lparr>fl_version = ver, fl_initiator_ip = iip, fl_initiator_port = iport,
      fl_responder_ip = rip, fl_responder_port = rport\<rparr>"

definition finding_of :: "proto \<Rightarrow> flow \<Rightarrow> port_state \<Rightarrow> int \<Rightarrow> finding" where
  "finding_of p fl st now = \<lparr>fi_proto = p, fi_flow = fl, fi_state = st, fi_observed_at = now\<rparr>"

text \<open>
  \<open>now\<close> is the reading that stamps entries and findings, \<open>later\<close> the one of \<open>dedupe_and_mark\<close>. A
  segment of an established connection belongs to no pending request; the lower or well-known
  port is taken for the responder's.
\<close>

definition handle_established ::
    "capture_opts \<Rightarrow> ip_version \<Rightarrow> string \<Rightarrow> string \<Rightarrow> tcp_fields \<Rightarrow> int \<Rightarrow> int \<Rightarrow> capture \<Rightarrow> finding list \<times> capture" where
  "handle_established opts ver src_ip dst_ip h now later cap =
     (let ack = bit (tf_flags h) 4; psh = bit (tf_flags h) 3; fin = bit (tf_flags h) 0;
          bare_ack = (ack \<and> \<not> psh \<and> \<not> fin); fin_ack = (fin \<and> ack);
          psh_ack = (psh \<and> ack); bare_psh = (psh \<and> \<not> ack)
      in if \<not> (bare_ack \<or> fin_ack \<or> psh_ack \<or> bare_psh) then ([], cap)
         else
           (let cap = (if bare_ack then count (ack_seen_update Suc) cap else cap);
                cap = (if fin_ack then count (finack_seen_update Suc) cap else cap);
                cap = (if psh_ack then count (pshack_seen_update Suc) cap else cap);
                cap = (if bare_psh then count (psh_seen_update Suc) cap else cap);
                fl = (if looks_like_responder_port (tf_source h) (tf_dest h)
                      then make_flow ver dst_ip (tf_dest h) src_ip (tf_source h)
                      else make_flow ver src_ip (tf_source h) dst_ip (tf_dest h));
                cap = count (matched_established_update Suc) cap
            in report opts (finding_of P_TCP fl PORT_OPEN now) later cap))"

definition handle_tcp_fields ::
    "capture_opts \<Rightarrow> ip_version \<Rightarrow> string \<Rightarrow> string \<Rightarrow> tcp_fields \<Rightarrow> int \<Rightarrow> int \<Rightarrow> capture \<Rightarrow> finding list \<times> capture" where
  "handle_tcp_fields opts ver src_ip dst_ip h now later cap =
     (let syn = bit (tf_flags h) 1; ack = bit (tf_flags h) 4; rst = bit (tf_flags h) 2;
          forth = make_flow ver src_ip (tf_source h) dst_ip (tf_dest h);
          back = make_flow ver dst_ip (tf_dest h) src_ip (tf_source h)
      in if syn \<and> \<not> ack then
           (let cap = count (syn_seen_update Suc) cap
            in ([], cap\<lparr>cap_pending := note_syn forth (tf_seq h) now (cap_pending cap)\<rparr>))
         else if syn \<and> ack then
           (let cap = count (synack_seen_update Suc) cap in
            case take_first (\<lambda>p. ps_flow p = back \<and> tf_ack_seq h = ps_seq p + 1) (cap_pending cap) of
              None \<Rightarrow> ([], cap)
            | Some (p, ps) \<Rightarrow>
                (let cap = count (matched_open_update Suc) cap; cap = cap\<lparr>cap_pending := ps\<rparr>
                 in report opts (finding_of P_TCP (ps_flow p) PORT_OPEN now) later cap))
         else if rst then
           (let cap = count (rst_seen_update Suc) cap in
            if \<not> co_report_closed opts then ([], cap)
            else (case take_first (\<lambda>p. ps_flow p = back) (cap_pending cap) of
                None \<Rightarrow> ([], cap)
              | Some (p, ps) \<Rightarrow>
                  (let cap = count (matched_closed_update Suc) cap; cap = cap\<lparr>cap_pending := ps\<rparr>
                   in report opts (finding_of P_TCP (ps_flow p) PORT_CLOSED now) later cap)))
         else if \<not> co_detect_established opts then ([], cap)
         else handle_established opts ver src_ip dst_ip h now later cap)"

definition handle_tcp ::
    "capture_opts \<Rightarrow> ip_version \<Rightarrow> string \<Rightarrow> string \<Rightarrow> bytes \<Rightarrow> int \<Rightarrow> int \<Rightarrow> capture \<Rightarrow> (finding list \<times> capture) option" where
  "handle_tcp opts ver src_ip dst_ip seg now later cap =
     (if length seg < 20 then Some ([], cap)
      else do { h \<leftarrow> read_tcp seg; Some (handle_tcp_fields opts ver src_ip dst_ip h now later cap) })"

section \<open>UDP\<close>

definition handle_quic ::
    "capture_opts \<Rightarrow> ip_version \<Rightarrow> string \<Rightarrow> u16 \<Rightarrow> string \<Rightarrow> u16 \<Rightarrow> bytes \<Rightarrow> int \<Rightarrow> int \<Rightarrow> capture \<Rightarrow>
     (finding list \<times> capture) option" where
  "handle_quic opts ver src_ip src_port dst_ip dst_port payload now later cap =
     (if dst_port = co_quic_port opts then
        (if length payload < 1 then Some ([], cap)
         else do {
           b \<leftarrow> rd payload 0;
           if and b 0x80 = 0 then Some ([], cap)
           else (let cap = count (quic_initial_seen_update Suc) cap;
                     fl = make_flow ver src_ip src_port dst_ip dst_port
             in Some ([], cap\<lparr>cap_quic := note_req fl now (cap_quic cap)\<rparr>))
         })
      else (case take_first (\<lambda>p. pr_flow p = make_flow ver dst_ip dst_port src_ip src_port) (cap_quic cap) of
          None \<Rightarrow> Some ([], cap)
        | Some (p, ps) \<Rightarrow>
            (let cap = count (quic_matched_open_update Suc) cap; cap = cap\<lparr>cap_quic := ps\<rparr>
             in Some (report opts (finding_of P_QUIC (pr_flow p) PORT_OPEN now) later cap))))"

definition handle_dns ::
    "capture_opts \<Rightarrow> ip_version \<Rightarrow> string \<Rightarrow> u16 \<Rightarrow> string \<Rightarrow> u16 \<Rightarrow> bytes \<Rightarrow> int \<Rightarrow> int \<Rightarrow> capture \<Rightarrow>
     (finding list \<times> capture) option" where
  "handle_dns opts ver src_ip src_port dst_ip dst_port payload now later cap =
     (if dst_port = co_dns_port opts then
        (if length payload < 12 then Some ([], cap)
         else do {
           b \<leftarrow> rd payload 2;
           if and b 0x80 \<noteq> 0 then Some ([], cap)
           else (let cap = count (dns_query_seen_update Suc) cap;
                     fl = make_flow ver src_ip src_port dst_ip dst_port
             in Some ([], cap\<lparr>cap_dns := note_req fl now (cap_dns cap)\<rparr>))
         })
      else if length payload < 12 then Some ([], cap)
      else do {
        b \<leftarrow> rd payload 2;
        if and b 0x80 = 0 then Some ([], cap)
        else (case take_first (\<lambda>p. pr_flow p = make_flow ver dst_ip dst_port src_ip src_port) (cap_dns cap) of
            None \<Rightarrow> Some ([], cap)
          | Some (p, ps) \<Rightarrow>
              (let cap = count (dns_matched_open_update Suc) cap; cap = cap\<lparr>cap_dns := ps\<rparr>
               in Some (report opts (finding_of P_DNS (pr_flow p) PORT_OPEN now) later cap)))
      })"

definition handle_udp ::
    "capture_opts \<Rightarrow> ip_version \<Rightarrow> string \<Rightarrow> string \<Rightarrow> bytes \<Rightarrow> int \<Rightarrow> int \<Rightarrow> capture \<Rightarrow> (finding list \<times> capture) option" where
  "handle_udp opts ver src_ip dst_ip seg now later cap =
     (if length seg < 8 then Some ([], cap)
      else do {
        src_port \<leftarrow> rd16 seg 0;
        dst_port \<leftarrow> rd16 seg 2;
        let payload = drop 8 seg in
        if co_detect_quic opts \<and> (src_port = co_quic_port opts \<or> dst_port = co_quic_port opts)
        then handle_quic opts ver src_ip src_port dst_ip dst_port payload now later cap
        else if co_detect_dns opts \<and> (src_port = co_dns_port opts \<or> dst_port = co_dns_port opts)
        then handle_dns opts ver src_ip src_port dst_ip dst_port payload now later cap
        else Some ([], cap)
      })"

section \<open>Frames\<close>

definition handle_l4 ::
    "capture_opts \<Rightarrow> ip_version \<Rightarrow> string \<Rightarrow> string \<Rightarrow> u8 \<Rightarrow> bytes \<Rightarrow> int \<Rightarrow> int \<Rightarrow> capture \<Rightarrow>
     (finding list \<times> capture) option" where
  "handle_l4 opts ver src_ip dst_ip protocol l4 now later cap =
     (let cap = count (packets_seen_update Suc) cap in
      if protocol = 6 then handle_tcp opts ver src_ip dst_ip l4 now later cap
      else if (co_detect_quic opts \<or> co_detect_dns opts) \<and> protocol = 17
      then handle_udp opts ver src_ip dst_ip l4 now later cap
      else Some ([], cap))"

definition handle_ipv4 ::
    "ntop_env \<Rightarrow> capture_opts \<Rightarrow> bytes \<Rightarrow> int \<Rightarrow> int \<Rightarrow> capture \<Rightarrow> (finding list \<times> capture) option" where
  "handle_ipv4 env opts ip now later cap =
     (if length ip < 20 then Some ([], cap)
      else do {
        b \<leftarrow> rd ip 0;
        let hlen = unat (and b 15) * 4 in
        if hlen < 20 \<or> length ip < hlen then Some ([], cap)
        else do {
          src \<leftarrow> rd_bytes ip 12 4;
          dst \<leftarrow> rd_bytes ip 16 4;
          p \<leftarrow> rd ip 9;
          handle_l4 opts IP_V4 (ntop4 env src) (ntop4 env dst) p (drop hlen ip) now later cap
        }
      })"

definition handle_ipv6 ::
    "ntop_env \<Rightarrow> capture_opts \<Rightarrow> bytes \<Rightarrow> int \<Rightarrow> int \<Rightarrow> capture \<Rightarrow> (finding list \<times> capture) option" where
  "handle_ipv6 env opts ip now later cap =
     (if length ip < 40 then Some ([], cap)
      else do {
        next_header \<leftarrow> rd ip 6;
        if next_header \<noteq> 6 \<and> next_header \<noteq> 17 then Some ([], cap)
        else do {
          src \<leftarrow> rd_bytes ip 8 16;
          dst \<leftarrow> rd_bytes ip 24 16;
          handle_l4 opts IP_V6 (ntop6 env src) (ntop6 env dst) next_header (drop 40 ip) now later cap
        }
      })"

definition handle_packet ::
    "ntop_env \<Rightarrow> capture_opts \<Rightarrow> bytes \<Rightarrow> int \<Rightarrow> int \<Rightarrow> capture \<Rightarrow> (finding list \<times> capture) option" where
  "handle_packet env opts buf now later cap =
     (if length buf < 14 then Some ([], cap)
      else do {
        ethertype \<leftarrow> rd16 buf 12;
        if ethertype = 0x0800 then handle_ipv4 env opts (drop 14 buf) now later cap
        else if ethertype = 0x86DD then handle_ipv6 env opts (drop 14 buf) now later cap
        else Some ([], cap)
      })"

section \<open>The sweep and the capture loop\<close>

definition sweep_expired :: "capture_opts \<Rightarrow> int \<Rightarrow> capture \<Rightarrow> capture" where
  "sweep_expired opts now cap =
     (let timeout = ms (co_pending_timeout_ms opts);
          ps = filter (\<lambda>p. \<not> now - ps_sent_at p > timeout) (cap_pending cap);
          qs = filter (\<lambda>p. \<not> now - pr_sent_at p > timeout) (cap_quic cap);
          ds = filter (\<lambda>p. \<not> now - pr_sent_at p > timeout) (cap_dns cap);
          rs = (if co_dedup_window_ms opts > 0
                then filter (\<lambda>r. \<not> now - rk_last r > ms (co_dedup_window_ms opts) * 2) (cap_reported cap)
                else cap_reported cap);
          st = cap_stats cap
      in \<lparr>cap_stats = st\<lparr>pending_expired := pending_expired st + (length (cap_pending cap) - length ps),
            quic_pending_expired := quic_pending_expired st + (length (cap_quic cap) - length qs),
            dns_pending_expired := dns_pending_expired st + (length (cap_dns cap) - length ds)\<rparr>,
          cap_pending = ps, cap_quic = qs, cap_dns = ds, cap_reported = rs\<rparr>)"

text \<open>
  What one round of \<open>Capture::run\<close> gets from outside: the two flags, what \<open>recv\<close> delivered
  (\<open>None\<close> for an error, a timeout or no bytes) and the readings of the clock, in their order: the
  deadline check, the two of the handlers, the one behind them and the one of the sweep.
\<close>

record iteration =
  it_stop :: bool
  it_top :: int
  it_frame :: "bytes option"
  it_now :: int
  it_later :: int
  it_after :: int
  it_sweep :: int

definition receive ::
    "ntop_env \<Rightarrow> capture_opts \<Rightarrow> iteration \<Rightarrow> capture \<Rightarrow> (finding list \<times> capture) option" where
  "receive env opts i cap =
     (case it_frame i of
        None \<Rightarrow> Some ([], cap)
      | Some buf \<Rightarrow> handle_packet env opts buf (it_now i) (it_later i) cap)"

text \<open>The loop; every finding handed on comes with the time of the round's \<open>dedupe_and_mark\<close>.\<close>

fun capture_loop ::
    "ntop_env \<Rightarrow> capture_opts \<Rightarrow> int \<Rightarrow> int \<Rightarrow> iteration list \<Rightarrow> capture \<Rightarrow> ((int \<times> finding) list \<times> capture) option" where
  "capture_loop env opts deadline last_sweep [] cap = Some ([], cap)"
| "capture_loop env opts deadline last_sweep (i # is) cap =
     (if it_stop i then Some ([], cap)
      else if co_duration_ms opts > 0 \<and> it_top i \<ge> deadline then Some ([], cap)
      else do {
        (fs, cap) \<leftarrow> receive env opts i cap;
        let sweep = (it_after i - last_sweep \<ge> ms (co_sweep_interval_ms opts));
            cap = (if sweep then sweep_expired opts (it_sweep i) cap else cap);
            last_sweep = (if sweep then it_after i else last_sweep)
        in do {
          (fs', cap) \<leftarrow> capture_loop env opts deadline last_sweep is cap;
          Some (map (Pair (it_later i)) fs @ fs', cap)
        }
      })"

text \<open>\<open>Capture::run\<close> from a fresh object; \<open>start\<close> and \<open>start'\<close> are the readings before the loop.\<close>

definition run_capture ::
    "ntop_env \<Rightarrow> capture_opts \<Rightarrow> int \<Rightarrow> int \<Rightarrow> iteration list \<Rightarrow> ((int \<times> finding) list \<times> capture) option" where
  "run_capture env opts start start' is =
     capture_loop env opts (start' + ms (co_duration_ms opts)) start is new_capture"

section \<open>The lists of pending requests as an interface\<close>

text \<open>What the handlers rely on when they note a request \<open>x\<close> of a connection in a list of entries.\<close>

locale request_list =
  fixes key :: "'p \<Rightarrow> flow"
    and note_entry :: "flow \<Rightarrow> 'x \<Rightarrow> 'p list \<Rightarrow> 'p list"
    and entry :: "flow \<Rightarrow> 'x \<Rightarrow> 'p"
  assumes key_entry: "key (entry fl x) = fl"
    and keys_note: "map key (note_entry fl x ps) =
      (if fl \<in> set (map key ps) then map key ps else map key ps @ [fl])"
    and set_note: "set (note_entry fl x ps) \<subseteq> insert (entry fl x) (set ps)"
begin

lemma distinct_note: "distinct (map key ps) \<Longrightarrow> distinct (map key (note_entry fl x ps))"
  by (simp add: keys_note)

lemma length_note: "length (note_entry fl x ps) \<le> Suc (length ps)"
  using arg_cong [OF keys_note [of fl x ps], of length] by (simp split: if_splits)

lemma all_note: "\<forall>p \<in> set ps. Q p \<Longrightarrow> Q (entry fl x) \<Longrightarrow> \<forall>p \<in> set (note_entry fl x ps). Q p"
  using set_note [of fl x ps] by blast

end

lemma take_first_Some:
  "take_first P xs = Some (x, ys) \<Longrightarrow> \<exists>as bs. xs = as @ x # bs \<and> ys = as @ bs \<and> P x"
proof (induction xs arbitrary: ys)
  case Nil
  then show ?case by simp
next
  case (Cons z zs)
  show ?case
  proof (cases "P z")
    case True
    then show ?thesis using Cons.prems by (intro exI [of _ "[]"] exI [of _ zs]) auto
  next
    case False
    then obtain ys' where "take_first P zs = Some (x, ys')" and y: "ys = z # ys'"
      using Cons.prems by auto
    then obtain as bs where "zs = as @ x # bs \<and> ys' = as @ bs \<and> P x" using Cons.IH by blast
    then show ?thesis using y by (intro exI [of _ "z # as"] exI [of _ bs]) simp
  qed
qed

text \<open>The four uses of an entry that was taken out.\<close>

lemma take_first_facts:
  assumes "take_first P xs = Some (x, ys)"
  shows "x \<in> set xs" and "P x" and "set ys \<subseteq> set xs" and "length xs = Suc (length ys)"
    and "distinct (map key xs) \<Longrightarrow> distinct (map key ys)"
  using take_first_Some [OF assms] by auto

lemma keys_note_syn:
  "map ps_flow (note_syn fl seq now ps) =
    (if fl \<in> set (map ps_flow ps) then map ps_flow ps else map ps_flow ps @ [fl])"
  by (induction ps) auto

lemma keys_note_req:
  "map pr_flow (note_req fl now ps) =
    (if fl \<in> set (map pr_flow ps) then map pr_flow ps else map pr_flow ps @ [fl])"
  by (induction ps) auto

lemma set_note_syn:
  "set (note_syn fl seq now ps) \<subseteq> insert \<lparr>ps_flow = fl, ps_seq = seq, ps_sent_at = now\<rparr> (set ps)"
  by (induction ps) auto

lemma set_note_req: "set (note_req fl now ps) \<subseteq> insert \<lparr>pr_flow = fl, pr_sent_at = now\<rparr> (set ps)"
  by (induction ps) auto

interpretation syns: request_list ps_flow "\<lambda>fl (seq, now). note_syn fl seq now"
    "\<lambda>fl (seq, now). \<lparr>ps_flow = fl, ps_seq = seq, ps_sent_at = now\<rparr>"
  using keys_note_syn set_note_syn by unfold_locales (auto split: prod.splits)

interpretation reqs: request_list pr_flow note_req "\<lambda>fl now. \<lparr>pr_flow = fl, pr_sent_at = now\<rparr>"
  using keys_note_req set_note_req by unfold_locales auto

lemmas note_syn_facts =
  syns.distinct_note [of _ _ "(seq, now)" for seq now, simplified]
  syns.length_note [of _ "(seq, now)" for seq now, simplified]
lemmas note_req_facts = reqs.distinct_note reqs.length_note

section \<open>What a report changes\<close>

abbreviation report_key :: "reported_key \<Rightarrow> proto \<times> flow \<times> port_state" where
  "report_key r \<equiv> (rk_proto r, rk_flow r, rk_state r)"

abbreviation finding_key :: "finding \<Rightarrow> proto \<times> flow \<times> port_state" where
  "finding_key f \<equiv> (fi_proto f, fi_flow f, fi_state f)"

lemma remark_keys:
  "map report_key (snd (remark f now rs)) =
    (if finding_key f \<in> set (map report_key rs) then map report_key rs else map report_key rs @ [finding_key f])"
  by (induction rs) (auto simp: same_key_def split: prod.splits)

lemma remark_distinct: "distinct (map report_key rs) \<Longrightarrow> distinct (map report_key (snd (remark f now rs)))"
  unfolding remark_keys by auto

text \<open>A report leaves the pending lists alone and the counters but for one; it hands on one finding or counts one duplicate.\<close>

lemma report_cases:
  obtains rs where "report opts f now cap = ([f], cap\<lparr>cap_reported := rs\<rparr>)"
      and "distinct (map report_key (cap_reported cap)) \<Longrightarrow> distinct (map report_key rs)"
  | rs where "report opts f now cap = ([], count (duplicates_suppressed_update Suc) (cap\<lparr>cap_reported := rs\<rparr>))"
      and "distinct (map report_key (cap_reported cap)) \<Longrightarrow> distinct (map report_key rs)"
proof (cases "co_dedup_window_ms opts \<le> 0")
  case True
  then have "report opts f now cap = ([f], cap\<lparr>cap_reported := cap_reported cap\<rparr>)"
    by (simp add: report_def dedupe_and_mark_def)
  then show ?thesis using that(1) by blast
next
  case False
  obtain l rs where r: "remark f now (cap_reported cap) = (l, rs)" by fastforce
  then have d: "distinct (map report_key (cap_reported cap)) \<Longrightarrow> distinct (map report_key rs)"
    using remark_distinct [of "cap_reported cap" f now] by simp
  show ?thesis
  proof (cases "\<exists>t. l = Some t \<and> now - t \<le> ms (co_dedup_window_ms opts)")
    case True
    then have "report opts f now cap = ([], count (duplicates_suppressed_update Suc) (cap\<lparr>cap_reported := rs\<rparr>))"
      using False r by (auto simp: report_def dedupe_and_mark_def)
    then show ?thesis using that(2) d by blast
  next
    case no: False
    then have "report opts f now cap = ([f], cap\<lparr>cap_reported := rs\<rparr>)"
      using False r by (cases l) (auto simp: report_def dedupe_and_mark_def Let_def)
    then show ?thesis using that(1) d by blast
  qed
qed

end
