(* ===== verification/Capture_Spec.thy ===== *)
theory Capture_Spec
  imports Net_Capture
begin

text \<open>
  What the capture promises, over an abstract machine: a frame is an event (\<open>observe\<close>) and each
  event a step on the state (\<open>step\<close>). The handlers of Net_Capture implement that machine; the
  promises are invariants of its steps and of the sweep, lifted to the runs of the capture loop.
\<close>

section \<open>Events\<close>

datatype event =
    Ignored
  | Other
  | Syn flow u32
  | Syn_ack flow u32
  | Rst flow
  | Segment flow u8
  | Request proto flow
  | Answer proto flow

definition session_flags :: "u8 \<Rightarrow> bool" where
  "session_flags b \<longleftrightarrow> bit b 4 \<or> bit b 3"

fun observe_tcp :: "capture_opts \<Rightarrow> ip_version \<Rightarrow> string \<Rightarrow> string \<Rightarrow> tcp_fields \<Rightarrow> event" where
  "observe_tcp opts ver src dst h =
     (let forth = make_flow ver src (tf_source h) dst (tf_dest h);
          back = make_flow ver dst (tf_dest h) src (tf_source h); flags = tf_flags h
      in if bit flags 1 \<and> \<not> bit flags 4 then Syn forth (tf_seq h)
         else if bit flags 1 then Syn_ack back (tf_ack_seq h)
         else if bit flags 2 then Rst back
         else if co_detect_established opts \<and> session_flags flags
         then Segment (if looks_like_responder_port (tf_source h) (tf_dest h) then back else forth) flags
         else Other)"

definition tcp_header :: "bytes \<Rightarrow> tcp_fields" where
  "tcp_header seg =
     \<lparr>tf_source = get_be16 (seg ! 0) (seg ! 1), tf_dest = get_be16 (seg ! 2) (seg ! 3),
      tf_seq = get_be32 (seg ! 4) (seg ! 5) (seg ! 6) (seg ! 7),
      tf_ack_seq = get_be32 (seg ! 8) (seg ! 9) (seg ! 10) (seg ! 11), tf_flags = seg ! 13\<rparr>"

definition udp_event :: "capture_opts \<Rightarrow> flow \<Rightarrow> flow \<Rightarrow> u16 \<Rightarrow> u16 \<Rightarrow> bytes \<Rightarrow> event" where
  "udp_event opts forth back sp dp payload =
     (if co_detect_quic opts \<and> (sp = co_quic_port opts \<or> dp = co_quic_port opts) then
        (if dp = co_quic_port opts
         then (if payload \<noteq> [] \<and> bit (payload ! 0) 7 then Request P_QUIC forth else Other)
         else Answer P_QUIC back)
      else if co_detect_dns opts \<and> (sp = co_dns_port opts \<or> dp = co_dns_port opts) then
        (if length payload < 12 then Other
         else if dp = co_dns_port opts
         then (if bit (payload ! 2) 7 then Other else Request P_DNS forth)
         else if bit (payload ! 2) 7 then Answer P_DNS back else Other)
      else Other)"

definition observe_udp :: "capture_opts \<Rightarrow> ip_version \<Rightarrow> string \<Rightarrow> string \<Rightarrow> bytes \<Rightarrow> event" where
  "observe_udp opts ver src dst seg =
     (let sp = get_be16 (seg ! 0) (seg ! 1); dp = get_be16 (seg ! 2) (seg ! 3)
      in udp_event opts (make_flow ver src sp dst dp) (make_flow ver dst dp src sp) sp dp (drop 8 seg))"

definition observe_l4 :: "capture_opts \<Rightarrow> ip_version \<Rightarrow> string \<Rightarrow> string \<Rightarrow> u8 \<Rightarrow> bytes \<Rightarrow> event" where
  "observe_l4 opts ver src dst p l4 =
     (if p = 6 \<and> 20 \<le> length l4 then observe_tcp opts ver src dst (tcp_header l4)
      else if p = 17 \<and> 8 \<le> length l4 then observe_udp opts ver src dst l4
      else Other)"

definition observe :: "ntop_env \<Rightarrow> capture_opts \<Rightarrow> bytes \<Rightarrow> event" where
  "observe env opts frame =
     (let ip = drop 14 frame; hlen = unat (and (ip ! 0) 15) * 4 in
      if length frame < 14 then Ignored
      else if get_be16 (frame ! 12) (frame ! 13) = 0x0800 \<and> 20 \<le> length ip \<and> 20 \<le> hlen \<and> hlen \<le> length ip
      then observe_l4 opts IP_V4 (ntop4 env (take 4 (drop 12 ip))) (ntop4 env (take 4 (drop 16 ip))) (ip ! 9) (drop hlen ip)
      else if get_be16 (frame ! 12) (frame ! 13) = 0x86DD \<and> 40 \<le> length ip \<and> ip ! 6 \<in> {6, 17}
      then observe_l4 opts IP_V6 (ntop6 env (take 16 (drop 8 ip))) (ntop6 env (take 16 (drop 24 ip))) (ip ! 6) (drop 40 ip)
      else Ignored)"

section \<open>Steps\<close>

definition session_counts :: "u8 \<Rightarrow> capture_stats \<Rightarrow> capture_stats" where
  "session_counts b =
     (let ack = bit b 4; psh = bit b 3; fin = bit b 0 in
      (if psh \<and> \<not> ack then psh_seen_update Suc else id) \<circ> (if psh \<and> ack then pshack_seen_update Suc else id) \<circ>
      (if fin \<and> ack then finack_seen_update Suc else id) \<circ> (if ack \<and> \<not> psh \<and> \<not> fin then ack_seen_update Suc else id))"

text \<open>What every event but \<open>Ignored\<close> does after the packet is counted.\<close>

fun act :: "capture_opts \<Rightarrow> event \<Rightarrow> int \<Rightarrow> int \<Rightarrow> capture \<Rightarrow> finding list \<times> capture" where
  "act opts (Syn fl seq) now later cap =
     ([], (count (syn_seen_update Suc) cap)\<lparr>cap_pending := note_syn fl seq now (cap_pending cap)\<rparr>)"
| "act opts (Syn_ack fl a) now later cap =
     (let cap = count (synack_seen_update Suc) cap in
      case take_first (\<lambda>p. ps_flow p = fl \<and> a = ps_seq p + 1) (cap_pending cap) of
        None \<Rightarrow> ([], cap)
      | Some (p, ps) \<Rightarrow> report opts (finding_of P_TCP (ps_flow p) PORT_OPEN now) later
          ((count (matched_open_update Suc) cap)\<lparr>cap_pending := ps\<rparr>))"
| "act opts (Rst fl) now later cap =
     (let cap = count (rst_seen_update Suc) cap in
      if \<not> co_report_closed opts then ([], cap)
      else case take_first (\<lambda>p. ps_flow p = fl) (cap_pending cap) of
        None \<Rightarrow> ([], cap)
      | Some (p, ps) \<Rightarrow> report opts (finding_of P_TCP (ps_flow p) PORT_CLOSED now) later
          ((count (matched_closed_update Suc) cap)\<lparr>cap_pending := ps\<rparr>))"
| "act opts (Segment fl b) now later cap =
     report opts (finding_of P_TCP fl PORT_OPEN now) later (count (matched_established_update Suc \<circ> session_counts b) cap)"
| "act opts (Request P_QUIC fl) now later cap =
     ([], (count (quic_initial_seen_update Suc) cap)\<lparr>cap_quic := note_req fl now (cap_quic cap)\<rparr>)"
| "act opts (Request P_DNS fl) now later cap =
     ([], (count (dns_query_seen_update Suc) cap)\<lparr>cap_dns := note_req fl now (cap_dns cap)\<rparr>)"
| "act opts (Answer P_QUIC fl) now later cap =
     (case take_first (\<lambda>p. pr_flow p = fl) (cap_quic cap) of
        None \<Rightarrow> ([], cap)
      | Some (p, ps) \<Rightarrow> report opts (finding_of P_QUIC (pr_flow p) PORT_OPEN now) later
          ((count (quic_matched_open_update Suc) cap)\<lparr>cap_quic := ps\<rparr>))"
| "act opts (Answer P_DNS fl) now later cap =
     (case take_first (\<lambda>p. pr_flow p = fl) (cap_dns cap) of
        None \<Rightarrow> ([], cap)
      | Some (p, ps) \<Rightarrow> report opts (finding_of P_DNS (pr_flow p) PORT_OPEN now) later
          ((count (dns_matched_open_update Suc) cap)\<lparr>cap_dns := ps\<rparr>))"
| "act opts _ now later cap = ([], cap)"

definition step :: "capture_opts \<Rightarrow> event \<Rightarrow> int \<Rightarrow> int \<Rightarrow> capture \<Rightarrow> finding list \<times> capture" where
  "step opts ev now later cap =
     (if ev = Ignored then ([], cap) else act opts ev now later (count (packets_seen_update Suc) cap))"

section \<open>The handlers implement the machine\<close>

lemma bit7: "(and b 0x80 = 0) \<longleftrightarrow> \<not> bit b 7" for b :: u8
  by (simp add: bit_iff_and_push_bit_not_eq_0 [of b 7])

lemma count_id [simp]: "count id cap = cap"
  by (simp add: count_def)

lemma count_count: "count f (count g cap) = count (f \<circ> g) cap"
  by (simp add: count_def)

lemma count_fields [simp]:
  "cap_pending (count f cap) = cap_pending cap" "cap_quic (count f cap) = cap_quic cap"
  "cap_dns (count f cap) = cap_dns cap" "cap_reported (count f cap) = cap_reported cap"
  "cap_stats (count f cap) = f (cap_stats cap)"
  by (simp_all add: count_def)

lemma read_tcp_header: "20 \<le> length seg \<Longrightarrow> read_tcp seg = Some (tcp_header seg)"
  by (simp add: read_tcp_def tcp_header_def numeral_2_eq_2 numeral_3_eq_3 eval_nat_numeral)

lemma established_act:
  assumes "session_flags (tf_flags h)"
  shows "handle_established opts ver src dst h now later cap =
    act opts (Segment (if looks_like_responder_port (tf_source h) (tf_dest h)
      then make_flow ver dst (tf_dest h) src (tf_source h) else make_flow ver src (tf_source h) dst (tf_dest h))
      (tf_flags h)) now later cap"
  using assms
  by (cases "bit (tf_flags h) 4"; cases "bit (tf_flags h) 3"; cases "bit (tf_flags h) 0")
    (simp_all add: handle_established_def session_counts_def session_flags_def count_count Let_def comp_def)

lemma established_other:
  "\<not> session_flags (tf_flags h) \<Longrightarrow> handle_established opts ver src dst h now later cap = ([], cap)"
  by (simp add: handle_established_def session_flags_def Let_def)

lemma tcp_act:
  "handle_tcp_fields opts ver src dst h now later cap = act opts (observe_tcp opts ver src dst h) now later cap"
  unfolding handle_tcp_fields_def observe_tcp.simps Let_def
  by (cases "session_flags (tf_flags h)") (simp_all add: established_act established_other Let_def)

lemma quic_act:
  "handle_quic opts ver src sp dst dp payload now later cap =
   Some (act opts (if dp = co_quic_port opts
      then (if payload \<noteq> [] \<and> bit (payload ! 0) 7 then Request P_QUIC (make_flow ver src sp dst dp) else Other)
      else Answer P_QUIC (make_flow ver dst dp src sp)) now later cap)"
  unfolding handle_quic_def Let_def
  by (cases payload) (auto simp: bit7 split: option.split)

lemma dns_act:
  "handle_dns opts ver src sp dst dp payload now later cap =
   Some (act opts (if length payload < 12 then Other
      else if dp = co_dns_port opts
      then (if bit (payload ! 2) 7 then Other else Request P_DNS (make_flow ver src sp dst dp))
      else if bit (payload ! 2) 7 then Answer P_DNS (make_flow ver dst dp src sp) else Other) now later cap)"
  unfolding handle_dns_def Let_def
  by (auto simp: bit7 split: option.split)

lemma udp_act:
  assumes "8 \<le> length seg"
  shows "handle_udp opts ver src dst seg now later cap = Some (act opts (observe_udp opts ver src dst seg) now later cap)"
proof -
  define sp where "sp = get_be16 (seg ! 0) (seg ! 1)"
  define dp where "dp = get_be16 (seg ! 2) (seg ! 3)"
  have ports: "rd16 seg 0 = Some sp" "rd16 seg 2 = Some dp"
    using assms by (simp_all add: sp_def dp_def numeral_3_eq_3)
  have l: "\<not> length seg < 8" using assms by simp
  have e: "(if co_detect_quic opts \<and> (sp = co_quic_port opts \<or> dp = co_quic_port opts)
      then handle_quic opts ver src sp dst dp payload now later cap
      else if co_detect_dns opts \<and> (sp = co_dns_port opts \<or> dp = co_dns_port opts)
      then handle_dns opts ver src sp dst dp payload now later cap else Some ([], cap)) =
    Some (act opts (udp_event opts (make_flow ver src sp dst dp) (make_flow ver dst dp src sp) sp dp payload)
      now later cap)" for payload
    unfolding udp_event_def quic_act dns_act
    by (cases "co_detect_quic opts \<and> (sp = co_quic_port opts \<or> dp = co_quic_port opts)";
      cases "co_detect_dns opts \<and> (sp = co_dns_port opts \<or> dp = co_dns_port opts)";
      simp only: if_True if_False simp_thms act.simps)
  show ?thesis
    unfolding handle_udp_def observe_udp_def Let_def sp_def [symmetric] dp_def [symmetric] if_not_P [OF l] ports
      bind.bind_lunit e by (rule refl)
qed

lemma l4_act:
  "handle_l4 opts ver src dst p l4 now later cap =
   Some (act opts (observe_l4 opts ver src dst p l4) now later (count (packets_seen_update Suc) cap))"
proof -
  have "handle_udp opts ver src dst l4 now later c = Some ([], c)" if "length l4 < 8" for c
    using that by (simp add: handle_udp_def)
  moreover have "observe_udp opts ver src dst l4 = Other" if "\<not> co_detect_quic opts" "\<not> co_detect_dns opts"
    using that by (simp add: observe_udp_def udp_event_def Let_def)
  ultimately show ?thesis
    by (auto simp: handle_l4_def observe_l4_def handle_tcp_def read_tcp_header tcp_act udp_act Let_def
        simp del: observe_tcp.simps)
qed

lemma handle_packet_implements:
  "handle_packet env opts frame now later cap = Some (step opts (observe env opts frame) now later cap)"
proof (cases "length frame < 14")
  case True
  then show ?thesis by (simp add: handle_packet_def observe_def step_def)
next
  case False
  let ?ip = "drop 14 frame"
  let ?et = "get_be16 (frame ! 12) (frame ! 13)"
  have et: "rd16 frame 12 = Some ?et" using False by simp
  have not_ignored: "observe_l4 opts ver src dst p l4 \<noteq> Ignored" for ver src dst p l4
    by (simp add: observe_l4_def observe_udp_def udp_event_def Let_def)
  have v4: "handle_ipv4 env opts ?ip now later cap = Some (step opts (observe env opts frame) now later cap)"
    if "?et = 0x0800"
    using that False not_ignored
    by (auto simp: handle_ipv4_def observe_def l4_act step_def Let_def)
  have v6: "handle_ipv6 env opts ?ip now later cap = Some (step opts (observe env opts frame) now later cap)"
    if "?et = 0x86DD"
    using that False not_ignored
    by (auto simp: handle_ipv6_def observe_def l4_act step_def Let_def)
  have "observe env opts frame = Ignored" if "?et \<noteq> 0x0800" "?et \<noteq> 0x86DD"
    using that by (simp add: observe_def Let_def)
  then show ?thesis
    using False et v4 v6 by (auto simp: handle_packet_def step_def)
qed

text \<open>
  C16. Whatever the bytes of a frame are, its handlers read inside it and do to the state exactly
  what the step of the event it stands for does.
\<close>

theorem handlers_implement_steps:
  "handle_packet env opts frame now later cap = Some (step opts (observe env opts frame) now later cap)"
  by (rule handle_packet_implements)

section \<open>The accounts\<close>

text \<open>
  \<open>n\<close> is the number of findings handed on. Every entry of a pending list is a request seen and is
  matched, expired or still pending; every match is a finding or a duplicate; no list holds a
  connection, or a finding, twice.
\<close>

definition accounts :: "nat \<Rightarrow> capture \<Rightarrow> bool" where
  "accounts n cap \<longleftrightarrow> (let s = cap_stats cap in
     length (cap_pending cap) + matched_open s + matched_closed s + pending_expired s \<le> syn_seen s \<and>
     length (cap_quic cap) + quic_matched_open s + quic_pending_expired s \<le> quic_initial_seen s \<and>
     length (cap_dns cap) + dns_matched_open s + dns_pending_expired s \<le> dns_query_seen s \<and>
     matched_open s \<le> synack_seen s \<and> matched_closed s \<le> rst_seen s \<and>
     matched_established s \<le> ack_seen s + finack_seen s + pshack_seen s + psh_seen s \<and>
     n + duplicates_suppressed s =
       matched_open s + matched_closed s + matched_established s + quic_matched_open s + dns_matched_open s \<and>
     distinct (map ps_flow (cap_pending cap)) \<and> distinct (map pr_flow (cap_quic cap)) \<and>
     distinct (map pr_flow (cap_dns cap)) \<and> distinct (map report_key (cap_reported cap)))"

lemma accounts_new: "accounts 0 new_capture"
  by (simp add: accounts_def new_capture_def no_stats_def)

lemma report_accounts:
  assumes "accounts (Suc n) cap" and "report opts f now cap = (fs, cap')"
  shows "accounts (n + length fs) cap'"
proof (cases rule: report_cases [of opts f now cap])
  case (1 rs)
  with assms(2) have r: "fs = [f]" "cap' = cap\<lparr>cap_reported := rs\<rparr>" by simp_all
  show ?thesis using assms(1) 1(2) by (simp add: r accounts_def Let_def)
next
  case (2 rs)
  with assms(2) have r: "fs = []" "cap' = count (duplicates_suppressed_update Suc) (cap\<lparr>cap_reported := rs\<rparr>)"
    by simp_all
  show ?thesis using assms(1) 2(2) by (simp add: r accounts_def Let_def)
qed

lemma note_syn_accounts:
  assumes "accounts n cap"
  shows "accounts n ((count (syn_seen_update Suc) cap)\<lparr>cap_pending := note_syn fl seq now (cap_pending cap)\<rparr>)"
  using assms syns.distinct_note [of "cap_pending cap" fl "(seq, now)"] syns.length_note [of fl "(seq, now)" "cap_pending cap"]
  by (simp add: accounts_def Let_def)

lemma note_quic_accounts:
  assumes "accounts n cap"
  shows "accounts n ((count (quic_initial_seen_update Suc) cap)\<lparr>cap_quic := note_req fl now (cap_quic cap)\<rparr>)"
  using assms reqs.distinct_note [of "cap_quic cap" fl now] reqs.length_note [of fl now "cap_quic cap"]
  by (simp add: accounts_def Let_def)

lemma note_dns_accounts:
  assumes "accounts n cap"
  shows "accounts n ((count (dns_query_seen_update Suc) cap)\<lparr>cap_dns := note_req fl now (cap_dns cap)\<rparr>)"
  using assms reqs.distinct_note [of "cap_dns cap" fl now] reqs.length_note [of fl now "cap_dns cap"]
  by (simp add: accounts_def Let_def)

lemma session_accounts:
  assumes "accounts n cap" and "session_flags b"
  shows "accounts (Suc n) (count (matched_established_update Suc \<circ> session_counts b) cap)"
  using assms by (cases "bit b 4"; cases "bit b 3"; cases "bit b 0")
    (simp_all add: accounts_def session_flags_def session_counts_def Let_def)

text \<open>Segments are observed with session flags only.\<close>

definition event_ok :: "event \<Rightarrow> bool" where
  "event_ok ev \<longleftrightarrow> (\<forall>fl b. ev = Segment fl b \<longrightarrow> session_flags b)"

lemma observe_l4_ok: "event_ok (observe_l4 opts ver src dst p l4)"
proof -
  have "event_ok (observe_tcp opts ver src dst h)" for h by (simp add: event_ok_def Let_def)
  moreover have "event_ok (udp_event opts fl fl2 sp dp payload)" for fl fl2 sp dp payload
    by (simp add: event_ok_def udp_event_def)
  ultimately show ?thesis
    by (simp add: observe_l4_def observe_udp_def event_ok_def Let_def del: observe_tcp.simps)
qed

lemma observe_ok: "event_ok (observe env opts frame)"
  using observe_l4_ok [of opts] by (simp add: observe_def event_ok_def Let_def)

text \<open>An entry taken out and matched is owed as a finding.\<close>

lemma match_open_accounts:
  assumes "accounts n cap" and "take_first P (cap_pending cap) = Some (p, ps)"
  shows "accounts (Suc n) ((count (matched_open_update Suc) (count (synack_seen_update Suc) cap))\<lparr>cap_pending := ps\<rparr>)"
  using assms(1) take_first_facts(4) [OF assms(2)] take_first_facts(5) [OF assms(2), of ps_flow] by (simp add: accounts_def Let_def)

lemma match_closed_accounts:
  assumes "accounts n cap" and "take_first P (cap_pending cap) = Some (p, ps)"
  shows "accounts (Suc n) ((count (matched_closed_update Suc) (count (rst_seen_update Suc) cap))\<lparr>cap_pending := ps\<rparr>)"
  using assms(1) take_first_facts(4) [OF assms(2)] take_first_facts(5) [OF assms(2), of ps_flow] by (simp add: accounts_def Let_def)

lemma match_quic_accounts:
  assumes "accounts n cap" and "take_first P (cap_quic cap) = Some (p, ps)"
  shows "accounts (Suc n) ((count (quic_matched_open_update Suc) cap)\<lparr>cap_quic := ps\<rparr>)"
  using assms(1) take_first_facts(4) [OF assms(2)] take_first_facts(5) [OF assms(2), of pr_flow] by (simp add: accounts_def Let_def)

lemma match_dns_accounts:
  assumes "accounts n cap" and "take_first P (cap_dns cap) = Some (p, ps)"
  shows "accounts (Suc n) ((count (dns_matched_open_update Suc) cap)\<lparr>cap_dns := ps\<rparr>)"
  using assms(1) take_first_facts(4) [OF assms(2)] take_first_facts(5) [OF assms(2), of pr_flow] by (simp add: accounts_def Let_def)

lemma count_accounts:
  assumes "accounts n cap"
  shows "accounts n (count (synack_seen_update Suc) cap)" and "accounts n (count (rst_seen_update Suc) cap)"
    and "accounts n (count (packets_seen_update Suc) cap)"
  using assms by (simp_all add: accounts_def Let_def)

lemmas match_accounts = match_open_accounts match_closed_accounts match_quic_accounts match_dns_accounts
lemmas note_accounts = note_syn_accounts note_quic_accounts note_dns_accounts

lemma act_accounts:
  assumes "accounts n cap" and "event_ok ev" and "act opts ev now later cap = (fs, cap')"
  shows "accounts (n + length fs) cap'"
proof (cases ev)
  case (Request pr fl)
  then show ?thesis using assms note_accounts [of n cap] by (cases pr) auto
next
  case (Answer pr fl)
  then show ?thesis
    using assms by (cases pr) (auto split: option.splits prod.splits intro: report_accounts match_accounts)
next
  case (Segment fl b)
  then show ?thesis
    using assms session_accounts [of n cap b] by (auto simp: event_ok_def intro: report_accounts)
qed (use assms note_accounts [of n cap] count_accounts [of n cap] in
    \<open>auto simp: Let_def split: option.splits prod.splits if_splits intro: report_accounts match_accounts\<close>)

lemma step_accounts:
  assumes "accounts n cap" and "event_ok ev" and "step opts ev now later cap = (fs, cap')"
  shows "accounts (n + length fs) cap'"
  using assms act_accounts [OF count_accounts(3) [OF assms(1)] assms(2)]
  by (auto simp: step_def split: if_splits)

lemma expired_sum:
  fixes a b e :: nat
  shows "length (filter P xs) + a + (e + length xs - length (filter P xs)) = length xs + a + e"
    and "length (filter P xs) + a + b + (e + length xs - length (filter P xs)) = length xs + a + b + e"
  using length_filter_le [of P xs] by linarith+

lemma sweep_accounts: "accounts n cap \<Longrightarrow> accounts n (sweep_expired opts now cap)"
  by (simp add: accounts_def sweep_expired_def Let_def distinct_map_filter expired_sum)

end
