(* ===== verification/Capture_Runs.thy ===== *)
theory Capture_Runs
  imports Capture_Spec
begin

text \<open>
  The promises of the capture over whole runs of its loop: the counters and lists stay in balance,
  every finding has its evidence among the frames received before it, and no finding is
  repeated within the window of \<open>dedup_window_ms\<close>.
\<close>

section \<open>Rounds of the loop\<close>

definition round_of :: "ntop_env \<Rightarrow> capture_opts \<Rightarrow> iteration \<Rightarrow> capture \<Rightarrow> finding list \<times> capture" where
  "round_of env opts i cap =
     (case it_frame i of
        None \<Rightarrow> ([], cap)
      | Some b \<Rightarrow> step opts (observe env opts b) (it_now i) (it_later i) cap)"

lemma receive_round: "receive env opts i cap = Some (round_of env opts i cap)"
  by (simp add: receive_def round_of_def handle_packet_implements split: option.split)

text \<open>The state behind the sweep of a round, and the time of the last sweep.\<close>

definition swept :: "capture_opts \<Rightarrow> int \<Rightarrow> iteration \<Rightarrow> capture \<Rightarrow> capture \<times> int" where
  "swept opts last_sweep i cap =
     (if it_after i - last_sweep \<ge> ms (co_sweep_interval_ms opts)
      then (sweep_expired opts (it_sweep i) cap, it_after i) else (cap, last_sweep))"

lemma capture_loop_Cons:
  assumes "round_of env opts i cap = (fs, cap1)" and "swept opts last_sweep i cap1 = (cap2, last2)"
  shows "capture_loop env opts deadline last_sweep (i # is) cap =
    (if it_stop i \<or> (co_duration_ms opts > 0 \<and> it_top i \<ge> deadline) then Some ([], cap)
     else map_option (apfst ((@) (map (Pair (it_later i)) fs))) (capture_loop env opts deadline last2 is cap2))"
  using assms by (cases "capture_loop env opts deadline last2 is cap2")
    (auto simp: receive_round swept_def Let_def split: if_splits)

declare capture_loop.simps(2) [simp del]

section \<open>Balance\<close>

lemma round_accounts:
  assumes "accounts n cap" and "round_of env opts i cap = (fs, cap')"
  shows "accounts (n + length fs) cap'"
  using assms step_accounts [OF assms(1) observe_ok]
  by (auto simp: round_of_def split: option.splits)

lemma loop_accounts:
  "accounts n cap \<Longrightarrow> \<exists>out cap'. capture_loop env opts deadline last_sweep is cap = Some (out, cap') \<and>
     accounts (n + length out) cap'"
proof (induction "is" arbitrary: n cap last_sweep)
  case Nil
  then show ?case by simp
next
  case (Cons i "is")
  obtain fs cap1 where r: "round_of env opts i cap = (fs, cap1)" by fastforce
  obtain cap2 last2 where s: "swept opts last_sweep i cap1 = (cap2, last2)" by fastforce
  have "accounts (n + length fs) cap1" using Cons.prems r by (rule round_accounts)
  then have "accounts (n + length fs) cap2"
    using s by (auto simp: swept_def sweep_accounts split: if_splits)
  then obtain out cap' where "capture_loop env opts deadline last2 is cap2 = Some (out, cap')"
    "accounts (n + length fs + length out) cap'" using Cons.IH by blast
  then show ?case using Cons.prems by (auto simp: capture_loop_Cons [OF r s] add.assoc)
qed

text \<open>
  C17. A capture never reads outside a frame, and after any number of rounds its books are in
  order: every SYN, QUIC and DNS request noted is pending, matched or expired at most once, every
  match became a finding or a suppressed duplicate, and no list holds an entry twice.
\<close>

theorem capture_accounts:
  "\<exists>out cap. run_capture env opts start start' is = Some (out, cap) \<and> accounts (length out) cap"
  using loop_accounts [OF accounts_new] by (simp add: run_capture_def)

section \<open>Evidence\<close>

text \<open>\<open>hist\<close> are the events before; \<open>ev\<close> is the one at which \<open>f\<close> is handed on.\<close>

definition backed :: "finding \<Rightarrow> event \<Rightarrow> event list \<Rightarrow> bool" where
  "backed f ev hist \<longleftrightarrow>
     (case (fi_proto f, fi_state f) of
        (P_TCP, PORT_OPEN) \<Rightarrow> (\<exists>a. ev = Syn_ack (fi_flow f) a \<and> Syn (fi_flow f) (a - 1) \<in> set hist) \<or>
          (\<exists>b. ev = Segment (fi_flow f) b)
      | (P_TCP, PORT_CLOSED) \<Rightarrow> ev = Rst (fi_flow f) \<and> (\<exists>s. Syn (fi_flow f) s \<in> set hist)
      | (p, PORT_OPEN) \<Rightarrow> ev = Answer p (fi_flow f) \<and> Request p (fi_flow f) \<in> set hist
      | (p, PORT_CLOSED) \<Rightarrow> False)"

text \<open>Every pending entry stems from a request seen.\<close>

definition traced :: "event list \<Rightarrow> capture \<Rightarrow> bool" where
  "traced hist cap \<longleftrightarrow>
     (\<forall>p \<in> set (cap_pending cap). Syn (ps_flow p) (ps_seq p) \<in> set hist) \<and>
     (\<forall>p \<in> set (cap_quic cap). Request P_QUIC (pr_flow p) \<in> set hist) \<and>
     (\<forall>p \<in> set (cap_dns cap). Request P_DNS (pr_flow p) \<in> set hist)"

lemma traced_mono: "traced hist cap \<Longrightarrow> traced (hist @ hist2) cap"
  by (auto simp: traced_def)

lemma traced_count [simp]: "traced hist (count f cap) = traced hist cap"
  by (simp add: traced_def)

lemma traced_sweep: "traced hist cap \<Longrightarrow> traced hist (sweep_expired opts now cap)"
  by (auto simp: traced_def sweep_expired_def Let_def)

lemma report_traced:
  assumes "report opts f now cap = (fs, cap')"
  shows "traced hist cap' = traced hist cap" and "set fs \<subseteq> {f}"
  using assms by (cases rule: report_cases [of opts f now cap]; auto simp: traced_def)+

lemma report_backed:
  assumes "report opts f now cap = (fs, cap')" and "traced hist cap" and "backed f ev hist"
  shows "traced (hist @ [ev]) cap' \<and> (\<forall>g \<in> set fs. backed g ev hist)"
  using report_traced(1) [OF assms(1), of hist] report_traced(2) [OF assms(1)] assms(2,3)
  by (auto intro: traced_mono)

text \<open>An entry that is taken out and matched: the rest stays traced, the finding is backed.\<close>

lemma take_syn:
  assumes "traced hist cap" and "take_first P (cap_pending cap) = Some (p, ps)"
  shows "traced hist ((count f cap)\<lparr>cap_pending := ps\<rparr>)" and "Syn (ps_flow p) (ps_seq p) \<in> set hist" and "P p"
  using assms take_first_facts(1-3) [OF assms(2)] by (auto simp: traced_def)

lemma take_quic:
  assumes "traced hist cap" and "take_first P (cap_quic cap) = Some (p, ps)"
  shows "traced hist ((count f cap)\<lparr>cap_quic := ps\<rparr>)" and "Request P_QUIC (pr_flow p) \<in> set hist" and "P p"
  using assms take_first_facts(1-3) [OF assms(2)] by (auto simp: traced_def)

lemma take_dns:
  assumes "traced hist cap" and "take_first P (cap_dns cap) = Some (p, ps)"
  shows "traced hist ((count f cap)\<lparr>cap_dns := ps\<rparr>)" and "Request P_DNS (pr_flow p) \<in> set hist" and "P p"
  using assms take_first_facts(1-3) [OF assms(2)] by (auto simp: traced_def)

lemmas takes = take_syn take_quic take_dns

lemma syn_ack_backed:
  assumes "traced hist cap" and "act opts (Syn_ack fl a) now later cap = (fs, cap')"
  shows "traced (hist @ [Syn_ack fl a]) cap' \<and> (\<forall>f \<in> set fs. backed f (Syn_ack fl a) hist)"
proof (cases "take_first (\<lambda>p. ps_flow p = fl \<and> a = ps_seq p + 1) (cap_pending cap)")
  case None
  then show ?thesis using assms by (auto simp: traced_mono Let_def split: if_splits)
next
  case (Some r)
  then obtain p ps where t: "take_first (\<lambda>p. ps_flow p = fl \<and> a = ps_seq p + 1) (cap_pending cap) = Some (p, ps)" by (cases r) auto
  note facts = take_syn(1) [OF assms(1) t, where f = "matched_open_update Suc \<circ> synack_seen_update Suc"]
    take_syn(2,3) [OF assms(1) t]
  have "backed (finding_of P_TCP (ps_flow p) PORT_OPEN now) (Syn_ack fl a) hist"
    using facts(2,3) by (auto simp: backed_def finding_of_def)
  then show ?thesis
    using assms t facts(1) by (auto simp: traced_mono count_count Let_def split: if_splits dest!: report_backed)
qed

lemma rst_backed:
  assumes "traced hist cap" and "act opts (Rst fl) now later cap = (fs, cap')"
  shows "traced (hist @ [Rst fl]) cap' \<and> (\<forall>f \<in> set fs. backed f (Rst fl) hist)"
proof (cases "take_first (\<lambda>p. ps_flow p = fl) (cap_pending cap)")
  case None
  then show ?thesis using assms by (auto simp: traced_mono Let_def split: if_splits)
next
  case (Some r)
  then obtain p ps where t: "take_first (\<lambda>p. ps_flow p = fl) (cap_pending cap) = Some (p, ps)" by (cases r) auto
  note facts = take_syn(1) [OF assms(1) t, where f = "matched_closed_update Suc \<circ> rst_seen_update Suc"]
    take_syn(2,3) [OF assms(1) t]
  have "backed (finding_of P_TCP (ps_flow p) PORT_CLOSED now) (Rst fl) hist"
    using facts(2,3) by (auto simp: backed_def finding_of_def)
  then show ?thesis
    using assms t facts(1) by (auto simp: traced_mono count_count Let_def split: if_splits dest!: report_backed)
qed

lemma quic_backed:
  assumes "traced hist cap" and "act opts (Answer P_QUIC fl) now later cap = (fs, cap')"
  shows "traced (hist @ [Answer P_QUIC fl]) cap' \<and> (\<forall>f \<in> set fs. backed f (Answer P_QUIC fl) hist)"
proof (cases "take_first (\<lambda>p. pr_flow p = fl) (cap_quic cap)")
  case None
  then show ?thesis using assms by (auto simp: traced_mono Let_def split: if_splits)
next
  case (Some r)
  then obtain p ps where t: "take_first (\<lambda>p. pr_flow p = fl) (cap_quic cap) = Some (p, ps)" by (cases r) auto
  note facts = take_quic(1) [OF assms(1) t, where f = "quic_matched_open_update Suc"]
    take_quic(2,3) [OF assms(1) t]
  have "backed (finding_of P_QUIC (pr_flow p) PORT_OPEN now) (Answer P_QUIC fl) hist"
    using facts(2,3) by (auto simp: backed_def finding_of_def)
  then show ?thesis
    using assms t facts(1) by (auto simp: traced_mono count_count Let_def split: if_splits dest!: report_backed)
qed

lemma dns_backed:
  assumes "traced hist cap" and "act opts (Answer P_DNS fl) now later cap = (fs, cap')"
  shows "traced (hist @ [Answer P_DNS fl]) cap' \<and> (\<forall>f \<in> set fs. backed f (Answer P_DNS fl) hist)"
proof (cases "take_first (\<lambda>p. pr_flow p = fl) (cap_dns cap)")
  case None
  then show ?thesis using assms by (auto simp: traced_mono Let_def split: if_splits)
next
  case (Some r)
  then obtain p ps where t: "take_first (\<lambda>p. pr_flow p = fl) (cap_dns cap) = Some (p, ps)" by (cases r) auto
  note facts = take_dns(1) [OF assms(1) t, where f = "dns_matched_open_update Suc"]
    take_dns(2,3) [OF assms(1) t]
  have "backed (finding_of P_DNS (pr_flow p) PORT_OPEN now) (Answer P_DNS fl) hist"
    using facts(2,3) by (auto simp: backed_def finding_of_def)
  then show ?thesis
    using assms t facts(1) by (auto simp: traced_mono count_count Let_def split: if_splits dest!: report_backed)
qed

lemma act_backed:
  assumes "traced hist cap" and "act opts ev now later cap = (fs, cap')"
  shows "traced (hist @ [ev]) cap' \<and> (\<forall>f \<in> set fs. backed f ev hist)"
proof (cases ev)
  case (Syn fl s)
  then show ?thesis
    using assms set_note_syn [of fl s now "cap_pending cap"] by (fastforce simp: traced_def)
next
  case (Request p fl)
  then show ?thesis
    using assms set_note_req [of fl now "cap_quic cap"] set_note_req [of fl now "cap_dns cap"]
    by (cases p) (fastforce simp: traced_def)+
next
  case (Segment fl b)
  have "backed (finding_of P_TCP fl PORT_OPEN now) ev hist"
    using Segment by (simp add: backed_def finding_of_def)
  then show ?thesis
    using assms Segment report_backed [where hist = hist and ev = ev] by simp
next
  case (Answer p fl)
  then show ?thesis
    using assms quic_backed [of hist cap] dns_backed [of hist cap] by (cases p) (auto simp: traced_mono)
qed (use assms syn_ack_backed [of hist cap] rst_backed [of hist cap] in \<open>auto simp: traced_mono\<close>)

lemma step_backed:
  assumes "traced hist cap" and "step opts ev now later cap = (fs, cap')"
  shows "traced (hist @ [ev]) cap' \<and> (\<forall>f \<in> set fs. backed f ev hist)"
  using assms act_backed [of hist "count (packets_seen_update Suc) cap"]
  by (auto simp: step_def traced_mono split: if_splits)

text \<open>The events of the frames received in a list of rounds.\<close>

definition events :: "ntop_env \<Rightarrow> capture_opts \<Rightarrow> iteration list \<Rightarrow> event list" where
  "events env opts is = map (observe env opts) (List.map_filter it_frame is)"

lemma events_simps [simp]:
  "events env opts [] = []"
  "events env opts (i # is) = (case it_frame i of None \<Rightarrow> [] | Some b \<Rightarrow> [observe env opts b]) @ events env opts is"
  by (simp_all add: events_def split: option.split)

lemma round_backed:
  assumes "traced hist cap" and "round_of env opts i cap = (fs, cap')"
  shows "traced (hist @ events env opts [i]) cap'"
    and "f \<in> set fs \<Longrightarrow> \<exists>b. it_frame i = Some b \<and> backed f (observe env opts b) hist"
  using assms step_backed [OF assms(1)] by (fastforce simp: round_of_def split: option.splits)+

lemma loop_backed:
  "traced hist cap \<Longrightarrow> capture_loop env opts deadline last_sweep is cap = Some (out, cap') \<Longrightarrow> (u, f) \<in> set out \<Longrightarrow>
   \<exists>pre i post b. is = pre @ i # post \<and> it_frame i = Some b \<and> u = it_later i \<and>
     backed f (observe env opts b) (hist @ events env opts pre)"
proof (induction "is" arbitrary: hist cap last_sweep out)
  case Nil
  then show ?case by simp
next
  case (Cons i "is")
  obtain fs cap1 where r: "round_of env opts i cap = (fs, cap1)" by fastforce
  obtain cap2 last2 where s: "swept opts last_sweep i cap1 = (cap2, last2)" by fastforce
  have t: "traced (hist @ events env opts [i]) cap2"
    using round_backed(1) [OF Cons.prems(1) r] s by (auto simp: swept_def traced_sweep split: if_splits)
  from Cons.prems(2,3) consider "u = it_later i" "f \<in> set fs"
    | out' where "capture_loop env opts deadline last2 is cap2 = Some (out', cap')" "(u, f) \<in> set out'"
    by (auto simp: capture_loop_Cons [OF r s] split: if_splits)
  then show ?case
  proof cases
    case 1
    then show ?thesis using round_backed(2) [OF Cons.prems(1) r] by (intro exI [of _ "[]"]) auto
  next
    case 2
    then obtain pre j post b where "is = pre @ j # post" "it_frame j = Some b" "u = it_later j"
      "backed f (observe env opts b) ((hist @ events env opts [i]) @ events env opts pre)"
      using Cons.IH [OF t] by blast
    then show ?thesis by (intro exI [of _ "i # pre"] exI [of _ j] exI [of _ post] exI [of _ b]) auto
  qed
qed

text \<open>What a frame of an established connection is: the inference is on, and the flags are ACK or PSH without SYN and RST.\<close>

definition session_segment :: "capture_opts \<Rightarrow> u8 \<Rightarrow> bool" where
  "session_segment opts flags \<longleftrightarrow> co_detect_established opts \<and> session_flags flags \<and> \<not> bit flags 1 \<and> \<not> bit flags 2"

lemma segment_observed:
  assumes "observe env opts b = Segment fl flags"
  shows "session_segment opts flags"
proof -
  have "observe_tcp opts ver src dst h = Segment fl flags \<Longrightarrow> session_segment opts flags" for ver src dst h
    by (auto simp: Let_def session_segment_def split: if_splits)
  moreover have "udp_event opts forth fl2 sp dp payload \<noteq> Segment fl flags" for forth fl2 sp dp payload
    by (simp add: udp_event_def)
  ultimately have "observe_l4 opts ver src dst p l4 = Segment fl flags \<Longrightarrow> session_segment opts flags" for ver src dst p l4
    by (simp add: observe_l4_def observe_udp_def Let_def del: observe_tcp.simps split: if_splits)
  then show ?thesis using assms by (simp add: observe_def Let_def split: if_splits)
qed

text \<open>
  C18. Every finding that is handed on rests on frames that were received. A closed TCP port rests on a RST with an earlier
  SYN of the same connection, an open QUIC or DNS port on an answer with an earlier request of the same addresses and ports.
  An open TCP port rests either on a SYN-ACK that acknowledges the sequence number of an earlier SYN of the same connection,
  or, while the established-traffic inference is on (as it is by default), on one segment alone, with no frame
  before it: a segment with ACK or PSH and neither SYN nor RST. With the inference off only the SYN-ACK is left.
\<close>

theorem findings_backed:
  assumes "run_capture env opts start start' is = Some (out, cap)" and "(u, f) \<in> set out"
  shows "\<exists>pre i post b. is = pre @ i # post \<and> it_frame i = Some b \<and> u = it_later i \<and>
    backed f (observe env opts b) (events env opts pre) \<and>
    (\<forall>fl flags. observe env opts b = Segment fl flags \<longrightarrow> session_segment opts flags)"
proof -
  have "traced [] new_capture" by (simp add: traced_def new_capture_def)
  then obtain pre i post b where "is = pre @ i # post" "it_frame i = Some b" "u = it_later i"
      "backed f (observe env opts b) ([] @ events env opts pre)"
    using assms loop_backed unfolding run_capture_def by blast
  then show ?thesis
    using segment_observed [of env opts b] by (intro exI [of _ pre] exI [of _ i] exI [of _ post] exI [of _ b]) simp
qed

text \<open>A handshake between two hosts, as two frames.\<close>

definition frame_example :: "u8 \<Rightarrow> u8 \<Rightarrow> u16 \<Rightarrow> u16 \<Rightarrow> u32 \<Rightarrow> u32 \<Rightarrow> u8 \<Rightarrow> bytes" where
  "frame_example a b sp dp seq ack flags =
     replicate 12 0 @ be16 0x0800 @
     [0x45, 0, 0, 40, 0, 0, 0, 0, 64, 6, 0, 0, 10, 0, 0, a, 10, 0, 0, b] @
     be16 sp @ be16 dp @ be32 seq @ be32 ack @ [0x50, flags] @ be16 1024 @ [0, 0, 0, 0]"

definition handshake_env :: ntop_env where
  "handshake_env = \<lparr>ntop4 = (\<lambda>a. if last a = 1 then ''10.0.0.1'' else ''10.0.0.2''), ntop6 = (\<lambda>_. [])\<rparr>"

definition round_example :: "bytes \<Rightarrow> int \<Rightarrow> iteration" where
  "round_example b t = \<lparr>it_stop = False, it_top = t, it_frame = Some b, it_now = t, it_later = t,
     it_after = t, it_sweep = t\<rparr>"

definition handshake_example :: "iteration list" where
  "handshake_example =
     [round_example (frame_example 1 2 40000 80 5 0 0x02) 10, round_example (frame_example 2 1 80 40000 9 6 0x12) 20]"

lemma handshake_run:
  "map_option (map (\<lambda>(u, f). (u, fl_responder_port (fi_flow f), fi_state f)) \<circ> fst)
     (run_capture handshake_env default_opts 0 0 handshake_example) = Some [(20, 80, PORT_OPEN)]"
  by code_simp

lemma handshake_finding:
  obtains out cap f where "run_capture handshake_env default_opts 0 0 handshake_example = Some (out, cap)"
    and "(20, f) \<in> set out" and "fl_responder_port (fi_flow f) = 80"
proof -
  obtain out cap where r: "run_capture handshake_env default_opts 0 0 handshake_example = Some (out, cap)"
    and m: "map (\<lambda>(u, f). (u, fl_responder_port (fi_flow f), fi_state f)) out = [(20, 80, PORT_OPEN)]"
    using handshake_run by auto
  from m obtain f where "out = [(20, f)]" "fl_responder_port (fi_flow f) = 80" by auto
  then show ?thesis using r that by simp
qed

theorem findings_backed_witness:
  "\<exists>f pre i post b. handshake_example = pre @ i # post \<and> it_frame i = Some b \<and> it_later i = 20 \<and>
    fl_responder_port (fi_flow f) = 80 \<and>
    backed f (observe handshake_env default_opts b) (events handshake_env default_opts pre)"
proof -
  obtain out cap f where r: "run_capture handshake_env default_opts 0 0 handshake_example = Some (out, cap)"
    and f: "(20, f) \<in> set out" "fl_responder_port (fi_flow f) = 80" by (rule handshake_finding)
  obtain pre i post b where "handshake_example = pre @ i # post" "it_frame i = Some b" "it_later i = 20"
      "backed f (observe handshake_env default_opts b) (events handshake_env default_opts pre)"
    using findings_backed [OF r f(1)] by metis
  then show ?thesis using f(2) by blast
qed

section \<open>Repeated findings\<close>

text \<open>
  The clock does not run backwards from one reading of \<open>dedupe_and_mark\<close> to the sweep of the round
  and on to the next round, from the time \<open>t\<close> on.
\<close>

fun monotone_clock :: "int \<Rightarrow> iteration list \<Rightarrow> bool" where
  "monotone_clock t [] \<longleftrightarrow> True"
| "monotone_clock t (i # is) \<longleftrightarrow> t \<le> it_later i \<and> it_later i \<le> it_sweep i \<and> monotone_clock (it_sweep i) is"

text \<open>Findings of the same key are more than \<open>w\<close> apart.\<close>

definition spaced :: "int \<Rightarrow> (int \<times> finding) list \<Rightarrow> bool" where
  "spaced w out \<longleftrightarrow>
     sorted_wrt (\<lambda>(u, f) (v, g). finding_key f = finding_key g \<longrightarrow> v - u > w) out"

text \<open>
  What the list \<open>reported_\<close> knows of the findings \<open>out\<close> handed on before the time \<open>t\<close>: it holds their
  key with a time not before, or they are older than the window.
\<close>

definition remembered :: "int \<Rightarrow> int \<Rightarrow> (int \<times> finding) list \<Rightarrow> capture \<Rightarrow> bool" where
  "remembered w t out cap \<longleftrightarrow>
     distinct (map report_key (cap_reported cap)) \<and>
     (\<forall>(u, f) \<in> set out. u \<le> t \<and> (t - u > w \<or>
        (\<exists>r \<in> set (cap_reported cap). report_key r = finding_key f \<and> u \<le> rk_last r)))"

lemma remembered_later:
  "remembered w t out cap \<Longrightarrow> t \<le> t' \<Longrightarrow> remembered w t' out cap"
  by (fastforce simp: remembered_def)

lemma remembered_sweep:
  assumes "remembered w t out cap" and "w = ms (co_dedup_window_ms opts)" and "0 < w" and "t \<le> t'"
  shows "remembered w t' out (sweep_expired opts t' cap)"
proof -
  have kept: "t' - u > w \<or> (\<exists>r \<in> set (cap_reported (sweep_expired opts t' cap)). report_key r = finding_key f \<and> u \<le> rk_last r)"
    if uf: "(u, f) \<in> set out" for u f
  proof (cases "t - u > w")
    case True
    then show ?thesis using assms(4) by simp
  next
    case False
    then obtain r where r: "r \<in> set (cap_reported cap)" "report_key r = finding_key f" "u \<le> rk_last r"
      using assms(1) uf by (force simp: remembered_def)
    show ?thesis
    proof (cases "t' - rk_last r > w * 2")
      case True
      then show ?thesis using r(3) assms(3) by simp
    next
      case False
      then have "r \<in> set (cap_reported (sweep_expired opts t' cap))"
        using r(1) assms(2) by (simp add: sweep_expired_def Let_def)
      then show ?thesis using r by blast
    qed
  qed
  have "distinct (map report_key (cap_reported (sweep_expired opts t' cap)))"
    using assms(1) by (simp add: remembered_def sweep_expired_def Let_def distinct_map_filter)
  then show ?thesis
    using assms(1,4) kept by (fastforce simp: remembered_def)
qed

text \<open>The entry of a key after \<open>remark\<close>, and what was there before.\<close>

lemma remark_found:
  assumes "distinct (map report_key rs)"
  shows "fst (remark f now rs) = None \<Longrightarrow> finding_key f \<notin> report_key ` set rs"
    and "fst (remark f now rs) = Some l \<Longrightarrow> r \<in> set rs \<Longrightarrow> report_key r = finding_key f \<Longrightarrow> rk_last r = l"
  using assms by (induction rs) (auto simp: same_key_def image_iff split: prod.splits if_splits)

lemma remark_entries:
  "r \<in> set rs \<Longrightarrow> report_key r \<noteq> finding_key f \<Longrightarrow> r \<in> set (snd (remark f now rs))"
  "\<exists>r \<in> set (snd (remark f now rs)). report_key r = finding_key f \<and> rk_last r = now"
  by (induction rs) (auto simp: same_key_def split: prod.splits)

lemma remark_remembered:
  assumes "remembered w t out cap" and "t \<le> now" and "0 \<le> w"
  shows "remembered w now out (cap\<lparr>cap_reported := snd (remark f now (cap_reported cap))\<rparr>)"
    and "remembered w now (out @ [(now, f)]) (cap\<lparr>cap_reported := snd (remark f now (cap_reported cap))\<rparr>)"
proof -
  let ?rs = "snd (remark f now (cap_reported cap))"
  have d: "distinct (map report_key ?rs)" using assms(1) remark_distinct by (simp add: remembered_def)
  have old: "u \<le> now \<and> (now - u > w \<or> (\<exists>r \<in> set ?rs. report_key r = finding_key g \<and> u \<le> rk_last r))"
    if ug: "(u, g) \<in> set out" for u g
  proof (cases "finding_key g = finding_key f")
    case True
    then show ?thesis using remark_entries(2) [of f now "cap_reported cap"] assms(1,2) ug
      by (fastforce simp: remembered_def)
  next
    case False
    then show ?thesis using remark_entries(1) [of _ "cap_reported cap" f now] assms(1,2) ug
      by (fastforce simp: remembered_def)
  qed
  show "remembered w now out (cap\<lparr>cap_reported := ?rs\<rparr>)" using d old by (auto simp: remembered_def)
  show "remembered w now (out @ [(now, f)]) (cap\<lparr>cap_reported := ?rs\<rparr>)"
    using d old remark_entries(2) [of f now "cap_reported cap"] by (auto simp: remembered_def)
qed

lemma report_spaced:
  assumes "report opts f now cap = (fs, cap')" and "remembered w t out cap" and "spaced w out"
    and "t \<le> now" and "w = ms (co_dedup_window_ms opts)" and "0 < w"
  shows "remembered w now (out @ map (Pair now) fs) cap' \<and> spaced w (out @ map (Pair now) fs)"
proof -
  obtain l rs where r: "remark f now (cap_reported cap) = (l, rs)" by fastforce
  have on: "\<not> co_dedup_window_ms opts \<le> 0" using assms(5,6) by simp
  note mem = remark_remembered [OF assms(2,4), of f, unfolded r, simplified]
  have d: "distinct (map report_key (cap_reported cap))" using assms(2) by (simp add: remembered_def)
  show ?thesis
  proof (cases "\<exists>x. l = Some x \<and> now - x \<le> w")
    case True
    then have "fs = []" "cap' = count (duplicates_suppressed_update Suc) (cap\<lparr>cap_reported := rs\<rparr>)"
      using assms(1,5) on r by (auto simp: report_def dedupe_and_mark_def Let_def)
    then show ?thesis using mem(1) assms(3,6) by (simp add: remembered_def)
  next
    case False
    then have fs: "fs = [f]" "cap' = cap\<lparr>cap_reported := rs\<rparr>"
      using assms(1,5) on r by (cases l; auto simp: report_def dedupe_and_mark_def Let_def)+
    have "now - u > w" if ug: "(u, g) \<in> set out" and k: "finding_key g = finding_key f" for u g
    proof (rule ccontr)
      assume n: "\<not> now - u > w"
      then obtain e where e: "e \<in> set (cap_reported cap)" "report_key e = finding_key f" "u \<le> rk_last e"
        using assms(2,4) ug k by (fastforce simp: remembered_def)
      then obtain x where "l = Some x" "rk_last e = x"
        using remark_found [OF d, of f now] r by (cases l) (auto simp: image_iff)
      then show False using False e(3) n by simp
    qed
    then show ?thesis
      using mem(2) assms(3,6) fs by (auto simp: spaced_def sorted_wrt_append)
  qed
qed

text \<open>Every step that hands a finding on does so by a report, and no other touches the list.\<close>

definition reports :: "capture_opts \<Rightarrow> int \<Rightarrow> capture \<Rightarrow> finding list \<Rightarrow> capture \<Rightarrow> bool" where
  "reports opts later cap fs cap' \<longleftrightarrow> (fs = [] \<and> cap_reported cap' = cap_reported cap) \<or>
    (\<exists>f cap1. cap_reported cap1 = cap_reported cap \<and> report opts f later cap1 = (fs, cap'))"

lemma reportsI:
  "cap_reported cap' = cap_reported cap \<Longrightarrow> reports opts later cap [] cap'"
  "report opts f later cap1 = (fs, cap') \<Longrightarrow> cap_reported cap1 = cap_reported cap \<Longrightarrow> reports opts later cap fs cap'"
  by (auto simp: reports_def)

lemma act_reports:
  assumes "act opts ev now later cap = (fs, cap')"
  shows "reports opts later cap fs cap'"
proof (cases ev)
  case (Request p fl)
  then show ?thesis using assms by (cases p) (auto intro: reportsI)
next
  case (Answer p fl)
  then show ?thesis using assms by (cases p) (auto split: option.splits prod.splits intro: reportsI)
qed (use assms in \<open>auto simp: Let_def split: option.splits prod.splits if_splits intro: reportsI\<close>)

lemma round_reports:
  assumes "round_of env opts i cap = (fs, cap')"
  shows "reports opts (it_later i) cap fs cap'"
proof (cases "it_frame i = None \<or> (\<exists>b. it_frame i = Some b \<and> observe env opts b = Ignored)")
  case True
  then show ?thesis using assms by (auto simp: round_of_def step_def intro: reportsI)
next
  case False
  then obtain b where "act opts (observe env opts b) (it_now i) (it_later i) (count (packets_seen_update Suc) cap) = (fs, cap')"
    using assms by (auto simp: round_of_def step_def)
  from act_reports [OF this] show ?thesis by (simp add: reports_def)
qed

lemma remembered_cong: "cap_reported cap' = cap_reported cap \<Longrightarrow> remembered w t out cap' = remembered w t out cap"
  by (simp add: remembered_def)

lemma round_spaced:
  assumes "round_of env opts i cap = (fs, cap')" and "remembered w t out cap" and "spaced w out"
    and "t \<le> it_later i" and "w = ms (co_dedup_window_ms opts)" and "0 < w"
  shows "remembered w (it_later i) (out @ map (Pair (it_later i)) fs) cap' \<and>
    spaced w (out @ map (Pair (it_later i)) fs)"
proof -
  from round_reports [OF assms(1)] have "(fs = [] \<and> cap_reported cap' = cap_reported cap) \<or>
      (\<exists>f cap1. cap_reported cap1 = cap_reported cap \<and> report opts f (it_later i) cap1 = (fs, cap'))"
    by (simp only: reports_def)
  then show ?thesis
  proof
    assume a: "fs = [] \<and> cap_reported cap' = cap_reported cap"
    then have "remembered w (it_later i) out cap'"
      using remembered_later [OF assms(2,4)] remembered_cong [of cap' cap] by simp
    then show ?thesis using a assms(3) by simp
  next
    assume "\<exists>f cap1. cap_reported cap1 = cap_reported cap \<and> report opts f (it_later i) cap1 = (fs, cap')"
    then obtain f cap1 where "cap_reported cap1 = cap_reported cap" "report opts f (it_later i) cap1 = (fs, cap')"
      by blast
    then show ?thesis using report_spaced assms(2-6) remembered_cong by blast
  qed
qed

lemma loop_spaced:
  "capture_loop env opts deadline last_sweep is cap = Some (out', cap') \<Longrightarrow> remembered w t out cap \<Longrightarrow>
   spaced w out \<Longrightarrow> monotone_clock t is \<Longrightarrow> w = ms (co_dedup_window_ms opts) \<Longrightarrow> 0 < w \<Longrightarrow>
   spaced w (out @ out')"
proof (induction "is" arbitrary: cap last_sweep out out' t)
  case Nil
  then show ?case by simp
next
  case (Cons i "is")
  obtain fs cap1 where r: "round_of env opts i cap = (fs, cap1)" by fastforce
  obtain cap2 last2 where s: "swept opts last_sweep i cap1 = (cap2, last2)" by fastforce
  let ?out = "out @ map (Pair (it_later i)) fs"
  have 1: "remembered w (it_later i) ?out cap1" "spaced w ?out"
    using round_spaced [OF r Cons.prems(2,3)] Cons.prems(4-6) by simp_all
  have le: "it_later i \<le> it_sweep i" and mono: "monotone_clock (it_sweep i) is" using Cons.prems(4) by simp_all
  have 2: "remembered w (it_sweep i) ?out cap2"
    using s remembered_sweep [OF 1(1) Cons.prems(5,6) le] remembered_later [OF 1(1) le]
    by (auto simp: swept_def split: if_splits)
  from Cons.prems(1) consider "out' = []"
    | rest where "out' = map (Pair (it_later i)) fs @ rest"
        "capture_loop env opts deadline last2 is cap2 = Some (rest, cap')"
    by (auto simp: capture_loop_Cons [OF r s] split: if_splits)
  then show ?case
  proof cases
    case 1
    then show ?thesis using Cons.prems(3) by simp
  next
    case (2 rest)
    then show ?thesis using Cons.IH [OF 2(2) \<open>remembered w (it_sweep i) ?out cap2\<close> 1(2) mono] Cons.prems(5,6) by simp
  qed
qed

text \<open>
  With a positive window, two findings of the same kind, connection and state are handed on
  more than the window apart, in every run, whatever the sweeps drop in between.
\<close>

theorem findings_spaced:
  assumes "run_capture env opts start start' is = Some (out, cap)" and "0 < co_dedup_window_ms opts"
    and "monotone_clock t is" and "i < j" and "j < length out"
    and "finding_key (snd (out ! i)) = finding_key (snd (out ! j))"
  shows "fst (out ! j) - fst (out ! i) > ms (co_dedup_window_ms opts)"
proof -
  have "remembered (ms (co_dedup_window_ms opts)) t [] new_capture" and "spaced (ms (co_dedup_window_ms opts)) []"
    by (simp_all add: remembered_def spaced_def new_capture_def)
  then have "spaced (ms (co_dedup_window_ms opts)) out"
    using loop_spaced [OF assms(1) [unfolded run_capture_def] _ _ assms(3) refl, of "[]"] assms(2) by simp
  then show ?thesis
    using assms(4-6) sorted_wrt_nth_less [of _ out i j] by (fastforce simp: spaced_def split_beta)
qed

text \<open>The handshake once more after six seconds: reported again; after two: not.\<close>

definition again_example :: "int \<Rightarrow> iteration list" where
  "again_example d = handshake_example @
     [round_example (frame_example 1 2 40000 80 7 0 0x02) (d + 10), round_example (frame_example 2 1 80 40000 9 8 0x12) (d + 20)]"

lemma again_run:
  "map_option (map (\<lambda>(u, f). (u, finding_key f)) \<circ> fst)
     (run_capture handshake_env default_opts 0 0 (again_example (ms 6000))) =
   Some [(20, P_TCP, make_flow IP_V4 ''10.0.0.1'' 40000 ''10.0.0.2'' 80, PORT_OPEN),
         (6000000020, P_TCP, make_flow IP_V4 ''10.0.0.1'' 40000 ''10.0.0.2'' 80, PORT_OPEN)]"
  by code_simp

lemma again_soon_run:
  "map_option (map fst \<circ> fst) (run_capture handshake_env default_opts 0 0 (again_example (ms 2000))) = Some [20]"
  by code_simp

theorem findings_spaced_witness:
  "\<exists>out cap. run_capture handshake_env default_opts 0 0 (again_example (ms 6000)) = Some (out, cap) \<and>
     fst (out ! 1) - fst (out ! 0) > ms 5000"
proof -
  obtain out cap where r: "run_capture handshake_env default_opts 0 0 (again_example (ms 6000)) = Some (out, cap)"
    and m: "map (\<lambda>(u, f). (u, finding_key f)) out =
      [(20, P_TCP, make_flow IP_V4 ''10.0.0.1'' 40000 ''10.0.0.2'' 80, PORT_OPEN),
       (6000000020, P_TCP, make_flow IP_V4 ''10.0.0.1'' 40000 ''10.0.0.2'' 80, PORT_OPEN)]"
    using again_run by auto
  have "monotone_clock 0 (again_example (ms 6000))"
    by (simp add: again_example_def handshake_example_def round_example_def)
  then show ?thesis
    using findings_spaced [OF r _ _, of 0 0 1] m r by (auto simp: default_opts_def)
qed

end
