(* ===== verification/Capture_Report.thy ===== *)
theory Capture_Report
  imports Net_Capture
begin

text \<open>
  The report of \<open>run_netradar\<close> in src/net_capture.cpp: findings grouped into rows through an index
  from keys to row numbers, the text of a row's ports, and the \<open>--duration\<close> argument.
\<close>

section \<open>Rows\<close>

record agg_row =
  ar_proto :: proto
  ar_version :: ip_version
  ar_ip :: string
  ar_state :: port_state
  ar_ports :: "u16 list"

fun proto_label :: "proto \<Rightarrow> ip_version \<Rightarrow> string" where
  "proto_label P_TCP ver = ''tcp'' @ (if ver = IP_V6 then ''6'' else ''4'')"
| "proto_label P_QUIC ver = ''quic'' @ (if ver = IP_V6 then ''6'' else ''4'')"
| "proto_label P_DNS ver = ''dns'' @ (if ver = IP_V6 then ''6'' else ''4'')"

definition agg_key :: "proto \<Rightarrow> ip_version \<Rightarrow> string \<Rightarrow> port_state \<Rightarrow> string" where
  "agg_key p ver ip st =
     proto_label p ver @ ''|'' @ ip @ ''|'' @ (if st = PORT_OPEN then ''O'' else ''C'')"

text \<open>The callback that \<open>run_netradar\<close> hands to the capture, on its rows and its index.\<close>

definition agg_step :: "finding \<Rightarrow> agg_row list \<times> (string \<rightharpoonup> nat) \<Rightarrow> agg_row list \<times> (string \<rightharpoonup> nat)" where
  "agg_step f st =
     (case st of (rows, index) \<Rightarrow>
        let fl = fi_flow f; port = fl_responder_port fl;
            key = agg_key (fi_proto f) (fl_version fl) (fl_responder_ip fl) (fi_state f)
        in case index key of
             None \<Rightarrow> (rows @ [\<lparr>ar_proto = fi_proto f, ar_version = fl_version fl, ar_ip = fl_responder_ip fl,
                       ar_state = fi_state f, ar_ports = [port]\<rparr>], index(key \<mapsto> length rows))
           | Some k \<Rightarrow>
               (if port \<in> set (ar_ports (rows ! k)) then rows
                else rows[k := (rows ! k)\<lparr>ar_ports := ar_ports (rows ! k) @ [port]\<rparr>], index))"

definition aggregate :: "finding list \<Rightarrow> agg_row list" where
  "aggregate fs = fst (fold agg_step fs ([], \<lambda>_. None))"

text \<open>The cells of the report: padding, the ports of a row, the domain name.\<close>

definition pad_cell :: "string \<Rightarrow> nat \<Rightarrow> string" where
  "pad_cell s width =
     (if length s + 2 \<ge> width then s @ replicate 2 CHR '' '' else s @ replicate (width - length s) CHR '' '')"

definition port_cell :: "u16 list \<Rightarrow> string" where
  "port_cell ports = join_with CHR '','' (map (\<lambda>p. show_nat (unat p)) ports)"

definition domain_cell :: "string option \<Rightarrow> string" where
  "domain_cell name =
     (let d = (case name of Some d \<Rightarrow> d | None \<Rightarrow> []);
          d = (if d \<noteq> [] \<and> last d = DOT then butlast d else d)
      in if d = [] then ''-'' else d)"

section \<open>--duration\<close>

text \<open>\<open>Overflows\<close>: the product does not fit a \<open>long long\<close>, which C++ leaves undefined.\<close>

datatype duration_ms = Refused | Accepted int | Overflows

definition parse_duration_ms :: "string \<Rightarrow> duration_ms" where
  "parse_duration_ms s =
     (if s = [] then Refused
      else (let u = last s; short = butlast s;
                (multiplier, digits) =
                  (if u = CHR ''s'' \<or> u = CHR ''S'' then (1000, short)
                   else if u = CHR ''m'' \<or> u = CHR ''M'' then (60 * 1000, short)
                   else if u = CHR ''h'' \<or> u = CHR ''H'' then (60 * 60 * 1000, short)
                   else (1000, s))
        in if \<not> (u \<in> {CHR ''s'', CHR ''S'', CHR ''m'', CHR ''M'', CHR ''h'', CHR ''H''} \<or> is_digit u) then Refused
           else if digits = [] \<or> \<not> list_all is_digit digits then Refused
           else (case stol digits of
               Inl _ \<Rightarrow> Refused
             | Inr (value, used) \<Rightarrow>
                 (if used \<noteq> length digits \<or> value \<le> 0 then Refused
                  else if value * multiplier \<ge> 2 ^ 63 then Overflows
                  else Accepted (min (value * multiplier) (2 ^ 31 - 1))))))"

section \<open>The rows group the findings\<close>

lemma proto_label_no_bar: "CHR ''|'' \<notin> set (proto_label p v)"
  by (cases p; cases v) simp_all

lemma proto_label_inj: "proto_label p v = proto_label q w \<longleftrightarrow> p = q \<and> v = w"
  by (cases p; cases v; cases q; cases w) simp_all

lemma append_bar: "a @ c # x = b @ c # y \<Longrightarrow> c \<notin> set a \<Longrightarrow> c \<notin> set b \<Longrightarrow> a = b \<and> x = y"
proof (induction a arbitrary: b)
  case Nil
  then show ?case by (cases b) auto
next
  case (Cons z a)
  then show ?case by (cases b) auto
qed

lemma agg_key_inj:
  "agg_key p v ip st = agg_key q w ip2 st2 \<longleftrightarrow> p = q \<and> v = w \<and> ip = ip2 \<and> st = st2"
proof
  assume "agg_key p v ip st = agg_key q w ip2 st2"
  then have e: "proto_label p v @ CHR ''|'' # (ip @ ''|'' @ (if st = PORT_OPEN then ''O'' else ''C'')) =
      proto_label q w @ CHR ''|'' # (ip2 @ ''|'' @ (if st2 = PORT_OPEN then ''O'' else ''C''))"
    by (simp add: agg_key_def)
  from append_bar [OF this proto_label_no_bar proto_label_no_bar]
  show "p = q \<and> v = w \<and> ip = ip2 \<and> st = st2"
    by (cases st; cases st2) (auto simp: proto_label_inj)
qed simp

definition row_key :: "agg_row \<Rightarrow> string" where
  "row_key r = agg_key (ar_proto r) (ar_version r) (ar_ip r) (ar_state r)"

definition fkey :: "finding \<Rightarrow> string" where
  "fkey f = agg_key (fi_proto f) (fl_version (fi_flow f)) (fl_responder_ip (fi_flow f)) (fi_state f)"

text \<open>\<open>held rows k p\<close>: a row of key \<open>k\<close> lists the port \<open>p\<close>.\<close>

definition held :: "agg_row list \<Rightarrow> string \<Rightarrow> u16 \<Rightarrow> bool" where
  "held rows k p \<longleftrightarrow> (\<exists>r \<in> set rows. row_key r = k \<and> p \<in> set (ar_ports r))"

lemma held_simps [simp]:
  "held [] k p \<longleftrightarrow> False"
  "held (r # rows) k p \<longleftrightarrow> (row_key r = k \<and> p \<in> set (ar_ports r)) \<or> held rows k p"
  "held (rows @ rows') k p \<longleftrightarrow> held rows k p \<or> held rows' k p"
  by (auto simp: held_def)

lemma held_update:
  assumes "i < length rows" and "row_key r = row_key (rows ! i)"
    and "set (ar_ports r) = insert q (set (ar_ports (rows ! i)))"
  shows "held (rows[i := r]) k p \<longleftrightarrow> held rows k p \<or> (row_key (rows ! i) = k \<and> p = q)"
proof -
  have "held rows k p \<longleftrightarrow> held (take i rows @ rows ! i # drop (Suc i) rows) k p"
    using id_take_nth_drop [OF assms(1)] by simp
  then show ?thesis
    using assms(2,3) by (auto simp: upd_conv_take_nth_drop [OF assms(1)])
qed

text \<open>The index gives the row of every key, and the rows hold exactly the ports of the findings so far.\<close>

definition indexed :: "agg_row list \<Rightarrow> (string \<rightharpoonup> nat) \<Rightarrow> bool" where
  "indexed rows index \<longleftrightarrow> (\<forall>k i. index k = Some i \<longleftrightarrow> i < length rows \<and> row_key (rows ! i) = k)"

definition agg_inv :: "finding list \<Rightarrow> agg_row list \<times> (string \<rightharpoonup> nat) \<Rightarrow> bool" where
  "agg_inv fs st \<longleftrightarrow> indexed (fst st) (snd st) \<and> (\<forall>r \<in> set (fst st). distinct (ar_ports r)) \<and>
     (\<forall>k p. held (fst st) k p \<longleftrightarrow> (\<exists>f \<in> set fs. fkey f = k \<and> fl_responder_port (fi_flow f) = p))"

lemma agg_step_new:
  assumes "agg_inv fs (rows, index)" and "index (fkey f) = None"
  shows "agg_inv (fs @ [f]) (agg_step f (rows, index))"
proof -
  let ?r = "\<lparr>ar_proto = fi_proto f, ar_version = fl_version (fi_flow f), ar_ip = fl_responder_ip (fi_flow f),
    ar_state = fi_state f, ar_ports = [fl_responder_port (fi_flow f)]\<rparr>"
  have step: "agg_step f (rows, index) = (rows @ [?r], index(fkey f \<mapsto> length rows))"
    using assms(2) by (simp add: agg_step_def fkey_def Let_def)
  have key: "row_key ?r = fkey f" by (simp add: row_key_def fkey_def)
  have ix: "indexed rows index" using assms(1) by (simp add: agg_inv_def)
  have "(index(fkey f \<mapsto> length rows)) k = Some i \<longleftrightarrow> i < length (rows @ [?r]) \<and> row_key ((rows @ [?r]) ! i) = k" for k i
  proof (cases "i < length rows")
    case True
    then have "index k = Some i \<longleftrightarrow> row_key (rows ! i) = k" using ix by (simp add: indexed_def)
    moreover have "(index(fkey f \<mapsto> length rows)) k = Some i \<longleftrightarrow> index k = Some i"
      using True assms(2) by simp
    ultimately show ?thesis using True by (simp add: nth_append)
  next
    case False
    then have "index k \<noteq> Some i" using ix by (simp add: indexed_def)
    then show ?thesis using False key by (auto simp: nth_append)
  qed
  then have "indexed (rows @ [?r]) (index(fkey f \<mapsto> length rows))" unfolding indexed_def by blast
  then show ?thesis
    using assms(1) unfolding step by (auto simp: agg_inv_def key)
qed

lemma agg_step_known:
  assumes "agg_inv fs (rows, index)" and "index (fkey f) = Some i"
  shows "agg_inv (fs @ [f]) (agg_step f (rows, index))"
proof -
  let ?port = "fl_responder_port (fi_flow f)"
  let ?r = "(rows ! i)\<lparr>ar_ports := ar_ports (rows ! i) @ [?port]\<rparr>"
  have i: "i < length rows" "row_key (rows ! i) = fkey f"
    using assms by (auto simp: agg_inv_def indexed_def)
  have step: "agg_step f (rows, index) = (if ?port \<in> set (ar_ports (rows ! i)) then rows else rows[i := ?r], index)"
    using assms(2) by (simp add: agg_step_def fkey_def Let_def)
  show ?thesis
  proof (cases "?port \<in> set (ar_ports (rows ! i))")
    case True
    then have "held rows (fkey f) ?port" using i by (fastforce simp: held_def)
    then show ?thesis using assms(1) True unfolding step by (auto simp: agg_inv_def)
  next
    case False
    have key: "row_key ?r = row_key (rows ! i)" by (simp add: row_key_def)
    then have "row_key (rows[i := ?r] ! j) = row_key (rows ! j)" for j
      using i(1) by (cases "j = i") simp_all
    then have "indexed (rows[i := ?r]) index"
      using assms(1) by (simp add: agg_inv_def indexed_def)
    moreover have "\<forall>r \<in> set (rows[i := ?r]). distinct (ar_ports r)"
      using assms(1) False i(1) by (auto simp: agg_inv_def dest!: subsetD [OF set_update_subset_insert])
    moreover have "held (rows[i := ?r]) k p \<longleftrightarrow> held rows k p \<or> (fkey f = k \<and> p = ?port)" for k p
      using held_update [OF i(1) key, of ?port] i(2) by simp
    ultimately show ?thesis using assms(1) False unfolding step by (auto simp: agg_inv_def)
  qed
qed

lemma agg_fold_inv: "agg_inv fs st \<Longrightarrow> agg_inv (fs @ gs) (fold agg_step gs st)"
proof (induction gs arbitrary: fs st)
  case Nil
  then show ?case by simp
next
  case (Cons g gs)
  obtain rows index where "st = (rows, index)" by fastforce
  then have "agg_inv (fs @ [g]) (agg_step g st)"
    using Cons.prems agg_step_new [of fs rows index g] agg_step_known [of fs rows index g]
    by (cases "index (fkey g)") auto
  from Cons.IH [OF this] show ?case by simp
qed

text \<open>
  The rows of the report are the findings grouped by protocol, IP version, responder and state:
  no two rows share these four, no row lists a port twice, and a row lists exactly the ports that
  were found for it.
\<close>

theorem rows_group_findings:
  "distinct (map (\<lambda>r. (ar_proto r, ar_version r, ar_ip r, ar_state r)) (aggregate fs)) \<and>
   list_all (\<lambda>r. distinct (ar_ports r)) (aggregate fs) \<and>
   (\<forall>p v ip st port. (\<exists>r \<in> set (aggregate fs). ar_proto r = p \<and> ar_version r = v \<and> ar_ip r = ip \<and>
        ar_state r = st \<and> port \<in> set (ar_ports r)) \<longleftrightarrow>
      (\<exists>f \<in> set fs. fi_proto f = p \<and> fl_version (fi_flow f) = v \<and> fl_responder_ip (fi_flow f) = ip \<and>
        fi_state f = st \<and> fl_responder_port (fi_flow f) = port))"
proof -
  have "agg_inv [] ([], \<lambda>_. None)" by (simp add: agg_inv_def indexed_def held_def)
  from agg_fold_inv [OF this, of fs] have inv: "agg_inv fs (fold agg_step fs ([], \<lambda>_. None))" by simp
  define rows where "rows = aggregate fs"
  define index where "index = snd (fold agg_step fs ([], \<lambda>_. None))"
  have ix: "indexed rows index" and d: "list_all (\<lambda>r. distinct (ar_ports r)) rows"
    and h: "\<And>k p. held rows k p \<longleftrightarrow> (\<exists>f \<in> set fs. fkey f = k \<and> fl_responder_port (fi_flow f) = p)"
    using inv by (auto simp: agg_inv_def rows_def index_def aggregate_def list_all_iff)
  have "i = j" if "i < length rows" "j < length rows" "row_key (rows ! i) = row_key (rows ! j)" for i j
    using ix that unfolding indexed_def by (metis option.inject)
  then have "distinct (map row_key rows)" by (auto simp: distinct_conv_nth)
  then have "distinct (map (\<lambda>(p, v, ip, st). agg_key p v ip st)
      (map (\<lambda>r. (ar_proto r, ar_version r, ar_ip r, ar_state r)) rows))"
    by (simp add: row_key_def comp_def cong: map_cong)
  then have groups: "distinct (map (\<lambda>r. (ar_proto r, ar_version r, ar_ip r, ar_state r)) rows)"
    by (rule distinct_map [THEN iffD1, THEN conjunct1])
  have ports: "(\<exists>r \<in> set rows. ar_proto r = p \<and> ar_version r = v \<and> ar_ip r = ip \<and> ar_state r = st \<and>
        port \<in> set (ar_ports r)) \<longleftrightarrow>
      (\<exists>f \<in> set fs. fi_proto f = p \<and> fl_version (fi_flow f) = v \<and> fl_responder_ip (fi_flow f) = ip \<and>
        fi_state f = st \<and> fl_responder_port (fi_flow f) = port)" for p v ip st port
  proof -
    have "held rows (agg_key p v ip st) port \<longleftrightarrow>
        (\<exists>r \<in> set rows. ar_proto r = p \<and> ar_version r = v \<and> ar_ip r = ip \<and> ar_state r = st \<and> port \<in> set (ar_ports r))"
      unfolding held_def row_key_def agg_key_inj by (simp only: conj_assoc)
    then show ?thesis unfolding h fkey_def agg_key_inj by (simp only: conj_assoc)
  qed
  show ?thesis
    unfolding rows_def [symmetric]
  proof (intro conjI allI)
    fix p v ip st port
    show "(\<exists>r \<in> set rows. ar_proto r = p \<and> ar_version r = v \<and> ar_ip r = ip \<and> ar_state r = st \<and>
        port \<in> set (ar_ports r)) \<longleftrightarrow>
      (\<exists>f \<in> set fs. fi_proto f = p \<and> fl_version (fi_flow f) = v \<and> fl_responder_ip (fi_flow f) = ip \<and>
        fi_state f = st \<and> fl_responder_port (fi_flow f) = port)"
      by (rule ports)
  qed (rule groups, rule d)
qed

end
