(* ===== verification/Probe.thy ===== *)
theory Probe
  imports Tcp_Options "HOL-Library.Monad_Syntax"
begin

text \<open>
  What src/scan.hpp keeps of a scanned port: the table of scan types (\<open>PacketTask::ScanInfo\<close>), the
  state of a port (\<open>PortState\<close>) with the source ports its probes left from, and the choice of a
  source port (\<open>fast_uniform_port\<close>, \<open>pick_unique_ephemeral_port\<close>). Times are nanoseconds of
  \<open>steady_clock\<close>; the random engine is the stream of its values, as in Ext_Headers. Of
  \<open>PortState\<close> the two members that only debug output reads (\<open>ewma_rtt\<close>, \<open>start_time\<close>) are left
  out.
\<close>

section \<open>Scan types\<close>

record scan_type_data =
  st_name :: string
  st_flags :: u8
  st_expects_rst :: bool
  st_analyzes_window :: bool

definition scan_data :: "string \<Rightarrow> u8 \<Rightarrow> bool \<Rightarrow> bool \<Rightarrow> scan_type_data" where
  "scan_data nm fl rst win = \<lparr>st_name = nm, st_flags = fl, st_expects_rst = rst, st_analyzes_window = win\<rparr>"

fun scan_map :: "scan_type \<Rightarrow> scan_type_data" where
  "scan_map SYN = scan_data ''SYN'' 0x02 False False"
| "scan_map FIN = scan_data ''FIN'' 0x01 True False"
| "scan_map ACK = scan_data ''ACK'' 0x10 False False"
| "scan_map NULL_SCAN = scan_data ''NULL'' 0 True False"
| "scan_map XMAS = scan_data ''XMAS'' (or 0x01 (or 0x20 0x08)) True False"
| "scan_map WINDOW = scan_data ''WINDOW'' 0x10 False True"
| "scan_map MAIMON = scan_data ''MAIMON'' (or 0x01 0x10) True False"
| "scan_map CWR = scan_data ''CWR'' 0x80 True False"
| "scan_map ECE = scan_data ''ECE'' 0x40 True False"
| "scan_map URG = scan_data ''URG'' 0x20 True False"
| "scan_map PSH = scan_data ''PSH'' 0x08 True False"
| "scan_map HANUMAN = scan_data ''HANUMAN'' (or 0x80 (or 0x08 0x20)) True False"
| "scan_map KAKABHUSUNDI = scan_data ''KAKABHUSUNDI'' (or 0x40 (or 0x02 0x80)) False False"
| "scan_map GANESH = scan_data ''GANESH'' (or 0x02 0x40) False False"
| "scan_map RAM = scan_data ''RAM'' (or 0x02 (or 0x80 0x08)) False False"
| "scan_map GARUD = scan_data ''GARUD'' (or 0x02 (or 0x20 0x80)) False False"
| "scan_map JATAYU = scan_data ''JATAYU'' (or 0x02 0x80) False False"

definition flags_for_scan_type :: "scan_type \<Rightarrow> u8" where
  "flags_for_scan_type st = st_flags (scan_map st)"

definition rst_expecting_scans :: "scan_type list" where
  "rst_expecting_scans = [FIN, NULL_SCAN, XMAS, MAIMON, CWR, ECE, URG, PSH, HANUMAN, KAKABHUSUNDI]"

definition expects_rst_response :: "scan_type \<Rightarrow> bool" where
  "expects_rst_response st = List.member rst_expecting_scans st"

section \<open>The state of a port\<close>

datatype reported_state = REPORTED_NONE | REPORTED_OPEN | REPORTED_CLOSED | REPORTED_FILTERED

record probe =
  pb_src_port :: u16
  pb_seq :: u32
  pb_ack_seq :: u32
  pb_connection_established :: bool
  pb_fin_sent :: bool
  pb_fin_ack_received :: bool
  pb_retry_count :: nat
  pb_timeout_ms :: int
  pb_retries_cap :: int
  pb_rtt_measured :: bool
  pb_syn_sent_time :: int
  pb_sent_tsval :: u32
  pb_tsval_offset :: u32
  pb_final_state_determined :: bool
  pb_reported_state :: reported_state
  pb_used_src_ports :: "(u16 \<times> u8) list"
  pb_retry_send_deferred :: bool
  pb_initial_send_deferred :: bool
  pb_counted_in_retry :: bool

text \<open>
  \<open>pb_used_src_ports\<close> is the filled part of \<open>used_src_ports\<close> and \<open>used_src_port_attempt\<close>, two
  arrays of six entries, so its length is \<open>used_src_port_count\<close>.
\<close>

definition record_src_port :: "u16 \<Rightarrow> nat \<Rightarrow> probe \<Rightarrow> probe" where
  "record_src_port p attempt s =
     (if map_of (pb_used_src_ports s) p \<noteq> None then s
      else if length (pb_used_src_ports s) < 6
      then s\<lparr>pb_used_src_ports := pb_used_src_ports s @ [(p, of_nat attempt)]\<rparr>
      else s)"

definition attempt_for_src_port :: "u16 \<Rightarrow> probe \<Rightarrow> nat" where
  "attempt_for_src_port p s =
     (if p = pb_src_port s then pb_retry_count s
      else case map_of (pb_used_src_ports s) p of
        Some a \<Rightarrow> unat a
      | None \<Rightarrow> pb_retry_count s)"

definition accepts_src_port :: "u16 \<Rightarrow> probe \<Rightarrow> bool" where
  "accepts_src_port p s \<longleftrightarrow> p = pb_src_port s \<or> map_of (pb_used_src_ports s) p \<noteq> None"

section \<open>Drawing a source port\<close>

text \<open>
  \<open>scaled\<close> is the product of the last draw and the size of the range; draws are thrown away while its
  low half is below the threshold. A stream may hold only such draws, so the loop is partial.
\<close>

partial_function (option) redraw :: "u32 \<Rightarrow> u32 \<Rightarrow> u64 \<Rightarrow> rng \<Rightarrow> (u64 \<times> rng) option" where
  "redraw extent threshold scaled r =
     (if ucast scaled < threshold
      then redraw extent threshold (ucast (r 0) * ucast extent) (rng_skip 1 r)
      else Some (scaled, r))"

definition port_range :: "u16 \<Rightarrow> u16 \<Rightarrow> u32" where
  "port_range lo hi = ucast hi - ucast lo + 1"

definition fast_uniform_port :: "rng \<Rightarrow> u16 \<Rightarrow> u16 \<Rightarrow> (u16 \<times> rng) option" where
  "fast_uniform_port r lo hi =
     (let extent = port_range lo hi; scaled = ucast (r 0) * ucast extent :: u64; r = rng_skip 1 r in do {
        (scaled, r) \<leftarrow> (if ucast scaled < extent then redraw extent ((0xFFFFFFFF - extent + 1) mod extent) scaled r
                     else Some (scaled, r));
        Some (ucast (ucast lo + ucast (drop_bit 32 scaled) :: u32), r)
      })"

text \<open>The first \<open>max_tries\<close> draws: the candidate that was not used before, if one came up.\<close>

fun try_ports :: "nat \<Rightarrow> rng \<Rightarrow> u16 \<Rightarrow> u16 \<Rightarrow> probe \<Rightarrow> (u16 option \<times> rng) option" where
  "try_ports 0 r lo hi s = Some (None, r)"
| "try_ports (Suc k) r lo hi s =
     do { (c, r) \<leftarrow> fast_uniform_port r lo hi;
          if \<not> accepts_src_port c s then Some (Some c, r) else try_ports k r lo hi s }"

definition pick_unique_ephemeral_port :: "rng \<Rightarrow> u16 \<Rightarrow> u16 \<Rightarrow> probe \<Rightarrow> (u16 \<times> rng) option" where
  "pick_unique_ephemeral_port r lo hi s =
     do { (c, r) \<leftarrow> try_ports 16 r lo hi s;
          case c of
            Some p \<Rightarrow> Some (p, r)
          | None \<Rightarrow>
              (case List.find (\<lambda>p. \<not> accepts_src_port p s) (map of_nat [unat lo..<unat hi + 1]) of
                 Some p \<Rightarrow> Some (p, r)
               | None \<Rightarrow> fast_uniform_port r lo hi) }"


section \<open>The draw is uniform\<close>

text \<open>
  Of the products \<open>d * n\<close> those that fall into the \<open>v\<close>-th block of \<open>2^32\<close> at or above the
  threshold are counted: the block without its first \<open>2^32 mod n\<close> numbers holds as many multiples of
  \<open>n\<close> as any other.
\<close>

lemma multiples_in_block:
  fixes n :: nat
  assumes "0 < n"
  shows "card {d. a \<le> d * n \<and> d * n < a + k * n} = k"
proof -
  define c where "c = (a + n - 1) div n"
  have low: "a \<le> d * n \<longleftrightarrow> c \<le> d" for d
  proof
    assume "a \<le> d * n"
    then have "a + n - 1 < (d + 1) * n" using assms by (simp add: algebra_simps)
    then have "c < d + 1" unfolding c_def by (simp add: less_mult_imp_div_less)
    then show "c \<le> d" by simp
  next
    assume "c \<le> d"
    then have "c * n \<le> d * n" by simp
    moreover have "a + n - 1 < c * n + n"
      unfolding c_def using assms dividend_less_div_times [of n "a + n - 1"] by (simp add: algebra_simps)
    ultimately show "a \<le> d * n" using assms by linarith
  qed
  have high: "d * n < a + k * n \<longleftrightarrow> d < c + k" for d
  proof (cases "k \<le> d")
    case True
    then obtain e where d: "d = e + k" using le_Suc_ex [of k d] by (metis add.commute)
    show ?thesis using low [of e] by (auto simp: d algebra_simps not_le [symmetric])
  next
    case False
    then have "d * n < k * n" using assms by simp
    then have "d * n < a + k * n" by linarith
    with False show ?thesis by simp
  qed
  have "{d. a \<le> d * n \<and> d * n < a + k * n} = {c..<c + k}"
    using low high by auto
  then show ?thesis by simp
qed

lemma draws_per_value:
  fixes n :: nat
  assumes "0 < n" and "v < n"
  shows "card {d. d < 2 ^ 32 \<and> d * n div 2 ^ 32 = v \<and> 2 ^ 32 mod n \<le> d * n mod 2 ^ 32} = 2 ^ 32 div n"
proof -
  define N :: nat where "N = 2 ^ 32"
  have N: "0 < N" by (simp add: N_def)
  have split: "N mod n + N div n * n = N" by simp
  have iff: "(d < N \<and> d * n div N = v \<and> N mod n \<le> d * n mod N) \<longleftrightarrow>
      (v * N + N mod n \<le> d * n \<and> d * n < v * N + N mod n + N div n * n)" for d
  proof
    assume d: "d < N \<and> d * n div N = v \<and> N mod n \<le> d * n mod N"
    then have "d * n = v * N + d * n mod N" by (metis div_mult_mod_eq)
    moreover have "d * n mod N < N" using N by simp
    ultimately show "v * N + N mod n \<le> d * n \<and> d * n < v * N + N mod n + N div n * n"
      using d split by linarith
  next
    assume d: "v * N + N mod n \<le> d * n \<and> d * n < v * N + N mod n + N div n * n"
    then have *: "v * N \<le> d * n" "d * n < v * N + N" using split by linarith+
    then have q: "d * n div N = v" by (simp add: div_nat_eqI algebra_simps)
    have "d * n = d * n div N * N + d * n mod N" by simp
    with q d have r: "N mod n \<le> d * n mod N" by simp
    have "v * N + N \<le> n * N" using mult_le_mono1 [of "v + 1" n N] assms by simp
    with * have "d * n < n * N" by linarith
    then have "d < N" using mult_less_cancel2 [of d n N] unfolding mult.commute [of n N] by blast
    with q r show "d < N \<and> d * n div N = v \<and> N mod n \<le> d * n mod N" by simp
  qed
  show ?thesis
    using multiples_in_block [OF assms(1), of "v * N + N mod n" "N div n"] iff
    unfolding N_def [symmetric] by simp
qed

section \<open>What a draw returns\<close>

definition range_size :: "u16 \<Rightarrow> u16 \<Rightarrow> nat" where
  "range_size lo hi = unat hi - unat lo + 1"

definition draw_ok :: "u16 \<Rightarrow> u16 \<Rightarrow> u32 \<Rightarrow> bool" where
  "draw_ok lo hi d \<longleftrightarrow> 2 ^ 32 mod range_size lo hi \<le> unat d * range_size lo hi mod 2 ^ 32"

definition draw_value :: "u16 \<Rightarrow> u16 \<Rightarrow> u32 \<Rightarrow> u16" where
  "draw_value lo hi d = of_nat (unat lo + unat d * range_size lo hi div 2 ^ 32)"

lemma range_size_bounds:
  assumes "lo \<le> hi"
  shows "0 < range_size lo hi" and "unat lo + range_size lo hi \<le> 65536"
  using assms unat_u16 [of hi] by (simp_all add: range_size_def word_le_nat_alt)

lemma unat_port_range:
  assumes "lo \<le> hi"
  shows "unat (port_range lo hi) = range_size lo hi"
proof -
  have "port_range lo hi = of_nat (unat hi) - of_nat (unat lo) + 1"
    by (simp add: port_range_def of_nat_unat)
  also have "\<dots> = of_nat (range_size lo hi)"
    using assms by (simp add: range_size_def word_le_nat_alt of_nat_diff)
  finally show ?thesis
    using range_size_bounds(2) [OF assms] by (simp add: unat_of_nat take_bit_nat_eq_self)
qed

lemma unat_scaled:
  fixes d :: u32
  assumes "lo \<le> hi"
  shows "unat (ucast d * ucast (port_range lo hi) :: u64) = unat d * range_size lo hi"
proof -
  have "unat d * range_size lo hi < 2 ^ 32 * 65537"
    using unat_u32 [of d] range_size_bounds [OF assms] by (intro mult_strict_mono) auto
  then have "unat d * range_size lo hi < 2 ^ 64" by simp
  moreover have "unat d < 2 ^ 64" "range_size lo hi < 2 ^ 64"
    using unat_u32 [of d] range_size_bounds [OF assms] by simp_all
  ultimately show ?thesis
    by (simp add: unat_word_ariths unsigned_ucast_eq unat_port_range [OF assms] take_bit_eq_mod)
qed

lemma unat_low_half: "unat (ucast (w :: u64) :: u32) = unat w mod 2 ^ 32"
  by (simp add: unsigned_ucast_eq take_bit_eq_mod)

lemma unat_threshold:
  assumes "lo \<le> hi"
  defines "n \<equiv> port_range lo hi"
  shows "unat ((0xFFFFFFFF - n + 1) mod n) = 2 ^ 32 mod range_size lo hi"
proof -
  have n: "unat n = range_size lo hi" unfolding n_def by (rule unat_port_range [OF assms(1)])
  have b: "0 < unat n" "unat n \<le> 65536"
    using range_size_bounds [OF assms(1)] by (simp_all add: n)
  have flip: "(0xFFFFFFFF :: u32) - n + 1 = - n" by simp
  have neg: "- n = of_nat (2 ^ 32 - unat n)"
    using b by (simp add: of_nat_diff)
  have "unat (- n) = 2 ^ 32 - unat n"
    unfolding neg unat_of_nat using b by (simp add: take_bit_nat_eq_self)
  then have "unat ((0xFFFFFFFF - n + 1) mod n) = (2 ^ 32 - unat n) mod unat n"
    unfolding flip unat_mod by (simp only:)
  also have "\<dots> = 2 ^ 32 mod unat n" using b by (intro le_mod_geq [symmetric]) simp
  finally show ?thesis by (simp add: n)
qed

lemma low_half_ok:
  assumes "lo \<le> hi"
  shows "ucast (ucast d * ucast (port_range lo hi) :: u64) <
      (0xFFFFFFFF - port_range lo hi + 1) mod port_range lo hi \<longleftrightarrow> \<not> draw_ok lo hi d"
  unfolding word_less_nat_alt unat_low_half unat_scaled [OF assms] unat_threshold [OF assms] draw_ok_def
  by auto

lemma high_half_value:
  assumes "lo \<le> hi"
  shows "ucast (ucast lo + ucast (drop_bit 32 (ucast d * ucast (port_range lo hi) :: u64)) :: u32)
    = draw_value lo hi d"
    and "lo \<le> draw_value lo hi d" and "draw_value lo hi d \<le> hi"
    and "unat (draw_value lo hi d) = unat lo + unat d * range_size lo hi div 2 ^ 32"
proof -
  define q where "q = unat d * range_size lo hi div 2 ^ 32"
  note b = range_size_bounds [OF assms]
  have "unat d * range_size lo hi < 2 ^ 32 * range_size lo hi"
    using unat_u32 [of d] b by simp
  then have q: "q < range_size lo hi"
    unfolding q_def by (simp add: less_mult_imp_div_less mult.commute)
  have drop: "unat (drop_bit 32 (ucast d * ucast (port_range lo hi) :: u64)) = q"
    by (simp add: drop_bit_eq_div unat_div unat_scaled [OF assms] q_def)
  have "unat (ucast lo + ucast (drop_bit 32 (ucast d * ucast (port_range lo hi) :: u64)) :: u32) = unat lo + q"
    using b q unat_u16 [of lo] by (simp add: unat_word_ariths unsigned_ucast_eq drop take_bit_eq_mod)
  then have "unat (ucast (ucast lo + ucast (drop_bit 32 (ucast d * ucast (port_range lo hi) :: u64)) :: u32) :: u16)
      = unat lo + q"
    using b q by (simp add: unsigned_ucast_eq take_bit_eq_mod)
  moreover show val: "unat (draw_value lo hi d) = unat lo + unat d * range_size lo hi div 2 ^ 32"
    using b q unfolding draw_value_def q_def [symmetric] unat_of_nat by (simp add: take_bit_nat_eq_self)
  ultimately show "ucast (ucast lo + ucast (drop_bit 32 (ucast d * ucast (port_range lo hi) :: u64)) :: u32)
    = draw_value lo hi d"
    by (simp add: word_unat_eq_iff q_def)
  show "lo \<le> draw_value lo hi d" "draw_value lo hi d \<le> hi"
    unfolding word_le_nat_alt val q_def [symmetric]
    using q assms by (simp_all add: range_size_def word_le_nat_alt)
qed

lemma redraw_Some:
  assumes "redraw n t w r = Some (w', r')"
  shows "\<not> ucast w' < t \<and>
    (w' = w \<and> r' = r \<or> (\<exists>i. w' = ucast (r i) * ucast n \<and> r' = rng_skip (Suc i) r))"
proof -
  define P where "P n t w r res \<longleftrightarrow> \<not> ucast (fst res) < t \<and> (fst res = w \<and> snd res = r \<or>
      (\<exists>i. fst res = ucast (r i) * ucast n \<and> snd res = rng_skip (Suc i) r))"
    for n t :: u32 and w :: u64 and r :: rng and res :: "u64 \<times> rng"
  have "P n t w r (w', r')"
  proof (rule redraw.raw_induct [OF _ assms, of P])
    fix f n t w r res
    assume IH: "\<And>n t w r res. f n t w r = Some res \<Longrightarrow> P n t w r res"
      and step: "(if ucast w < t then f n t (ucast (r 0) * ucast n) (rng_skip 1 r) else Some (w, r)) = Some res"
    show "P n t w r res"
    proof (cases "ucast w < t")
      case True
      with step have "P n t (ucast (r 0) * ucast n) (rng_skip 1 r) res" by (intro IH) simp
      then show ?thesis
        unfolding P_def by (auto simp: rng_skip_def intro: exI [of _ 0] exI [of _ "Suc _"])
    next
      case False
      with step show ?thesis by (auto simp: P_def)
    qed
  qed
  then show ?thesis by (simp add: P_def)
qed

lemma threshold_small: "(0xFFFFFFFF - n + 1) mod n < n" if "n \<noteq> 0" for n :: u32
  using that by (simp add: word_mod_less_divisor word_greater_zero_iff)

lemma fast_uniform_Some:
  assumes "lo \<le> hi" and "fast_uniform_port r lo hi = Some (p, r')"
  shows "\<exists>i. draw_ok lo hi (r i) \<and> p = draw_value lo hi (r i) \<and> r' = rng_skip (Suc i) r"
proof -
  define n where "n = port_range lo hi"
  define t where "t = (0xFFFFFFFF - n + 1) mod n"
  define w where "w = (ucast (r 0) * ucast n :: u64)"
  obtain w' where res: "(if ucast w < n then redraw n t w (rng_skip 1 r) else Some (w, rng_skip 1 r)) = Some (w', r')"
    and p: "p = ucast (ucast lo + ucast (drop_bit 32 w') :: u32)"
    using assms(2)
    unfolding fast_uniform_port_def Let_def n_def [symmetric] t_def [symmetric] w_def [symmetric]
    by (auto split: bind_splits)
  have "n \<noteq> 0" using unat_port_range [OF assms(1)] range_size_bounds [OF assms(1)] by (auto simp: n_def)
  then have small: "t < n" unfolding t_def by (rule threshold_small)
  have "\<not> ucast w' < t \<and> (\<exists>i. w' = ucast (r i) * ucast n \<and> r' = rng_skip (Suc i) r)"
  proof (cases "ucast w < n")
    case True
    with res have "redraw n t w (rng_skip 1 r) = Some (w', r')" by simp
    from redraw_Some [OF this] show ?thesis
      by (auto simp: w_def rng_skip_def intro: exI [of _ 0] exI [of _ "Suc _"])
  next
    case False
    with res small have "w' = w" "r' = rng_skip 1 r" "\<not> ucast w < t" by auto
    then show ?thesis by (auto simp: w_def intro: exI [of _ 0])
  qed
  then obtain i where ok: "\<not> ucast w' < t" and w': "w' = ucast (r i) * ucast n" and r': "r' = rng_skip (Suc i) r"
    by auto
  show ?thesis
    using ok low_half_ok [OF assms(1), of "r i"] high_half_value(1) [OF assms(1), of "r i"] r' p
    unfolding w' t_def n_def by blast
qed

lemma fast_uniform_draw:
  assumes "lo \<le> hi" and "draw_ok lo hi (r 0)"
  shows "fast_uniform_port r lo hi = Some (draw_value lo hi (r 0), rng_skip 1 r)"
proof -
  define n where "n = port_range lo hi"
  define t where "t = (0xFFFFFFFF - n + 1) mod n"
  define w where "w = (ucast (r 0) * ucast n :: u64)"
  have "\<not> ucast w < t"
    using low_half_ok [OF assms(1), of "r 0"] assms(2) unfolding w_def t_def n_def by blast
  then have "redraw n t w (rng_skip 1 r) = Some (w, rng_skip 1 r)" by (subst redraw.simps) simp
  then show ?thesis
    unfolding fast_uniform_port_def Let_def n_def [symmetric] t_def [symmetric] w_def [symmetric]
    using high_half_value(1) [OF assms(1), of "r 0"] by (simp add: w_def n_def)
qed

text \<open>The loop ends on every stream in which an acceptable draw comes up.\<close>

lemma redraw_ends:
  assumes "lo \<le> hi" and "draw_ok lo hi (r i)"
  shows "redraw (port_range lo hi) ((0xFFFFFFFF - port_range lo hi + 1) mod port_range lo hi) w r \<noteq> None"
  using assms(2)
proof (induction i arbitrary: w r)
  case 0
  then show ?case
    using low_half_ok [OF assms(1), of "r 0"] by (subst redraw.simps, subst redraw.simps) simp
next
  case (Suc i)
  then have "draw_ok lo hi (rng_skip 1 r i)" by (simp add: rng_skip_def)
  from Suc.IH [of "rng_skip 1 r", OF this] show ?case by (subst redraw.simps) simp
qed

lemma fast_uniform_ends:
  assumes "lo \<le> hi" and "draw_ok lo hi (r i)"
  shows "fast_uniform_port r lo hi \<noteq> None"
proof (cases i)
  case 0
  then show ?thesis using fast_uniform_draw assms by simp
next
  case (Suc j)
  then have "draw_ok lo hi (rng_skip 1 r j)" using assms(2) by (simp add: rng_skip_def)
  from redraw_ends [OF assms(1), of "rng_skip 1 r", OF this,
    of "ucast (r 0) * ucast (port_range lo hi)"] show ?thesis
    unfolding fast_uniform_port_def Let_def by (auto split: bind_splits)
qed

lemma fast_uniform_const:
  assumes "lo \<le> hi"
  shows "map_option fst (fast_uniform_port (\<lambda>_. d) lo hi) =
    (if draw_ok lo hi d then Some (draw_value lo hi d) else None)"
proof (cases "draw_ok lo hi d")
  case True
  then show ?thesis using fast_uniform_draw [OF assms, of "\<lambda>_. d"] by simp
next
  case False
  then show ?thesis using fast_uniform_Some [OF assms, of "\<lambda>_. d"] by (cases "fast_uniform_port (\<lambda>_. d) lo hi") auto
qed

lemma draw_value_iff:
  assumes "lo \<le> hi" and "lo \<le> p" and "p \<le> hi"
  shows "draw_value lo hi d = p \<longleftrightarrow> unat d * range_size lo hi div 2 ^ 32 = unat p - unat lo"
  unfolding word_unat_eq_iff high_half_value(4) [OF assms(1)]
  using assms(2) by (auto simp: word_le_nat_alt)

lemma card_draws:
  "card {d :: u32. P (unat d)} = card {d. d < 2 ^ 32 \<and> P d}"
proof -
  have "bij_betw unat {d :: u32. P (unat d)} {d. d < 2 ^ 32 \<and> P d}"
    by (rule bij_betw_byWitness [where f' = of_nat])
      (auto simp: unat_of_nat take_bit_nat_eq_self intro: unat_u32 [simplified])
  then show ?thesis by (rule bij_betw_same_card)
qed

lemma uniform_draws:
  assumes "lo \<le> hi"
  shows "card {d. map_option fst (fast_uniform_port (\<lambda>_. d) lo hi) = Some p} =
    (if lo \<le> p \<and> p \<le> hi then 2 ^ 32 div range_size lo hi else 0)"
proof (cases "lo \<le> p \<and> p \<le> hi")
  case True
  define n where "n = range_size lo hi"
  define v where "v = unat p - unat lo"
  have "unat p - unat lo \<le> unat hi - unat lo" using True by (auto simp: word_le_nat_alt)
  then have v: "v < n" by (simp add: v_def n_def range_size_def)
  have same: "{d. map_option fst (fast_uniform_port (\<lambda>_. d) lo hi) = Some p} =
      {d. unat d * n div 2 ^ 32 = v \<and> 2 ^ 32 mod n \<le> unat d * n mod 2 ^ 32}"
    using True draw_value_iff [OF assms, of p]
    by (auto simp: fast_uniform_const [OF assms] draw_ok_def v_def n_def split: if_splits)
  have "card {d. map_option fst (fast_uniform_port (\<lambda>_. d) lo hi) = Some p} = 2 ^ 32 div n"
    unfolding same card_draws [of "\<lambda>d. d * n div 2 ^ 32 = v \<and> 2 ^ 32 mod n \<le> d * n mod 2 ^ 32"]
    using v by (intro draws_per_value) auto
  then show ?thesis using True by (simp add: n_def)
next
  case False
  then have "{d. map_option fst (fast_uniform_port (\<lambda>_. d) lo hi) = Some p} = {}"
    using high_half_value(2,3) [OF assms] by (auto simp: fast_uniform_const [OF assms] split: if_splits)
  then show ?thesis unfolding if_not_P [OF False] by (simp only: card.empty)
qed

section \<open>The port a retry picks\<close>

lemma try_ports_Some:
  assumes "lo \<le> hi" and "try_ports k r lo hi s = Some (Some p, r')"
  shows "lo \<le> p \<and> p \<le> hi \<and> \<not> accepts_src_port p s"
  using assms(2)
proof (induction k arbitrary: r)
  case (Suc k)
  then obtain c r1 where c: "fast_uniform_port r lo hi = Some (c, r1)"
    and rest: "(if \<not> accepts_src_port c s then Some (Some c, r1) else try_ports k r1 lo hi s) = Some (Some p, r')"
    by (auto split: bind_splits)
  from fast_uniform_Some [OF assms(1) c] high_half_value(2,3) [OF assms(1)] have "lo \<le> c" "c \<le> hi" by auto
  with rest Suc.IH [of r1] show ?case by (auto split: if_splits)
qed simp

lemma in_port_list:
  "p \<in> set (map of_nat [unat lo..<unat hi + 1]) \<longleftrightarrow> lo \<le> p \<and> p \<le> hi" for p :: u16
proof
  assume "p \<in> set (map of_nat [unat lo..<unat hi + 1])"
  then obtain k where "p = of_nat k" "unat lo \<le> k" "k \<le> unat hi" by auto
  moreover then have "k < 2 ^ 16" using unat_u16 [of hi] by simp
  ultimately show "lo \<le> p \<and> p \<le> hi"
    by (simp add: word_le_nat_alt unat_of_nat take_bit_nat_eq_self)
next
  assume "lo \<le> p \<and> p \<le> hi"
  then have "unat p \<in> set [unat lo..<unat hi + 1]" by (auto simp: word_le_nat_alt)
  then have "of_nat (unat p) \<in> (of_nat ` set [unat lo..<unat hi + 1] :: u16 set)" by (rule imageI)
  moreover have "of_nat (unat p) = p" by simp
  ultimately show "p \<in> set (map of_nat [unat lo..<unat hi + 1])" unfolding set_map by (simp only:)
qed

lemma find_unused:
  assumes "List.find (\<lambda>p. \<not> accepts_src_port p s) (map of_nat [unat lo..<unat hi + 1]) = Some p"
  shows "lo \<le> p \<and> p \<le> hi \<and> \<not> accepts_src_port p s"
proof -
  define ps where "ps = (map of_nat [unat lo..<unat hi + 1] :: u16 list)"
  have "List.find (\<lambda>p. \<not> accepts_src_port p s) ps = Some p" using assms by (simp only: ps_def)
  then have "p \<in> set ps" and "\<not> accepts_src_port p s" by (auto simp: find_Some_iff)
  then show ?thesis unfolding ps_def in_port_list by simp
qed

lemma pick_unique_cases:
  assumes "lo \<le> hi" and "pick_unique_ephemeral_port r lo hi s = Some (p, r')"
  shows "lo \<le> p \<and> p \<le> hi \<and> (\<not> accepts_src_port p s \<or> (\<forall>q. lo \<le> q \<and> q \<le> hi \<longrightarrow> accepts_src_port q s))"
proof -
  obtain c r1 where t: "try_ports 16 r lo hi s = Some (c, r1)"
    and rest: "(case c of Some p \<Rightarrow> Some (p, r1)
      | None \<Rightarrow> (case List.find (\<lambda>p. \<not> accepts_src_port p s) (map of_nat [unat lo..<unat hi + 1]) of
          Some p \<Rightarrow> Some (p, r1) | None \<Rightarrow> fast_uniform_port r1 lo hi)) = Some (p, r')"
    using assms(2) unfolding pick_unique_ephemeral_port_def by (auto simp del: upt_Suc split: bind_splits)
  show ?thesis
  proof (cases c)
    case (Some q)
    with t rest try_ports_Some [OF assms(1)] show ?thesis by auto
  next
    case None
    show ?thesis
    proof (cases "List.find (\<lambda>p. \<not> accepts_src_port p s) (map of_nat [unat lo..<unat hi + 1])")
      case (Some q)
      with None rest find_unused [OF Some] show ?thesis by auto
    next
      case none: None
      then have "\<forall>q. lo \<le> q \<and> q \<le> hi \<longrightarrow> accepts_src_port q s"
        unfolding find_None_iff by (metis in_port_list)
      moreover have "fast_uniform_port r1 lo hi = Some (p, r')" using None none rest by simp
      then have "lo \<le> p" "p \<le> hi"
        using fast_uniform_Some [OF assms(1)] high_half_value(2,3) [OF assms(1)] by blast+
      ultimately show ?thesis by blast
    qed
  qed
qed

text \<open>A stream in which acceptable draws never run out, and with it every draw ends.\<close>

definition fair :: "u16 \<Rightarrow> u16 \<Rightarrow> rng \<Rightarrow> bool" where
  "fair lo hi r \<longleftrightarrow> (\<forall>k. \<exists>i\<ge>k. draw_ok lo hi (r i))"

lemma fair_skip: "fair lo hi r \<Longrightarrow> fair lo hi (rng_skip n r)"
  unfolding fair_def rng_skip_def
proof
  fix k
  assume "\<forall>k. \<exists>i\<ge>k. draw_ok lo hi (r i)"
  then obtain i where "i \<ge> k + n" "draw_ok lo hi (r i)" by blast
  then show "\<exists>i\<ge>k. draw_ok lo hi (r (i + n))" by (intro exI [of _ "i - n"]) simp
qed

lemma fair_draw:
  assumes "lo \<le> hi" and "fair lo hi r"
  obtains p r' where "fast_uniform_port r lo hi = Some (p, r')" "fair lo hi r'"
proof -
  obtain i where "draw_ok lo hi (r i)" using assms(2) by (auto simp: fair_def)
  then obtain p r' where f: "fast_uniform_port r lo hi = Some (p, r')"
    using fast_uniform_ends [OF assms(1)] by fastforce
  moreover have "fair lo hi r'" using fast_uniform_Some [OF assms(1) f] fair_skip [OF assms(2)] by auto
  ultimately show thesis by (rule that)
qed

lemma fair_try: "lo \<le> hi \<Longrightarrow> fair lo hi r \<Longrightarrow> \<exists>c r'. try_ports k r lo hi s = Some (c, r') \<and> fair lo hi r'"
proof (induction k arbitrary: r)
  case (Suc k)
  obtain p r1 where f: "fast_uniform_port r lo hi = Some (p, r1)" "fair lo hi r1"
    by (rule fair_draw [OF Suc.prems])
  then show ?case using Suc.IH [OF Suc.prems(1) f(2)] by auto
qed simp

lemma fair_pick:
  assumes "lo \<le> hi" and "fair lo hi r"
  shows "\<exists>p r'. pick_unique_ephemeral_port r lo hi s = Some (p, r')"
proof -
  obtain c r1 where t: "try_ports 16 r lo hi s = Some (c, r1)" and f: "fair lo hi r1"
    using fair_try [OF assms] by blast
  obtain p r2 where "fast_uniform_port r1 lo hi = Some (p, r2)" by (rule fair_draw [OF assms(1) f])
  then show ?thesis
    unfolding pick_unique_ephemeral_port_def t by (cases c) (auto split: option.split simp del: upt_Suc)
qed

section \<open>Properties\<close>

text \<open>
  The random source port is drawn without bias: each port of the range is given by exactly
  \<open>2^32 div n\<close> of the values the generator can take, \<open>n\<close> being the number of ports, a port outside it by
  none, and whatever the stream, a draw that returns lies in the range.
\<close>

theorem fast_uniform_unbiased:
  assumes "lo \<le> hi"
  shows "card {d. map_option fst (fast_uniform_port (\<lambda>_. d) lo hi) = Some p} =
      (if lo \<le> p \<and> p \<le> hi then 2 ^ 32 div (unat hi - unat lo + 1) else 0) \<and>
    (\<forall>r q r'. fast_uniform_port r lo hi = Some (q, r') \<longrightarrow> lo \<le> q \<and> q \<le> hi)"
proof (intro conjI allI impI)
  fix r q r'
  assume "fast_uniform_port r lo hi = Some (q, r')"
  then have "\<exists>d. q = draw_value lo hi d" using fast_uniform_Some [OF assms] by blast
  then show "lo \<le> q" and "q \<le> hi" using high_half_value(2,3) [OF assms] by auto
qed (use uniform_draws [OF assms, of p] in \<open>simp add: range_size_def\<close>)

theorem fast_uniform_unbiased_witness:
  "card {d. map_option fst (fast_uniform_port (\<lambda>_. d) 32768 60999) = Some 40000} = 152131"
proof -
  have "(32768 :: u16) \<le> 60999" by simp
  from fast_uniform_unbiased [OF this, of 40000] show ?thesis by simp
qed

end
