(* ===== verification/Reply.thy ===== *)
theory Reply
  imports Probe
begin

text \<open>
  The classification of a TCP reply: \<open>process_response\<close> of src/scan.cpp (lines 4982 to 5405) over the
  state of the port (\<open>PortState\<close>), the result of the batch (\<open>RecPross\<close>), the queue of packets for the
  sender and the lines printed. The text of a line (colours, layout) is not modelled, its data are.
  Tasks carry the members \<open>build_packet\<close> reads (Tcp_Options). Reading \<open>generate_tcp_tsval()\<close> is an
  argument. The switch names every \<open>ScanType\<close>, so its default case has no counterpart.
\<close>

section \<open>The parameters of a scan and its result\<close>

datatype icmp_filter_reason = REASON_NONE | NET_ADMIN_PROHIBITED | HOST_ADMIN_PROHIBITED
  | COMM_ADMIN_PROHIBITED | FRAG_NEEDED | TTL_EXPIRED | FRAG_REASSEMBLY_TIMEOUT | BAD_SPI

datatype line_kind = PORT_RESULT | PORT_RESULT_CUSTOM

record port_line =
  ln_kind :: line_kind
  ln_port :: u16
  ln_state :: string
  ln_service :: string
  ln_scan_name :: string
  ln_window :: u16

record rec_pross =
  rp_closed_ports :: int
  rp_open_ports :: "u16 list"
  rp_filtered_ports :: "u16 list"
  rp_icmp_filter_reasons :: "u16 \<rightharpoonup> icmp_filter_reason \<times> bytes"
  rp_icmp_warnings :: "(icmp_filter_reason \<times> bytes) list"

definition rec_pross_empty :: rec_pross where
  "rec_pross_empty = \<lparr>rp_closed_ports = 0, rp_open_ports = [], rp_filtered_ports = [],
     rp_icmp_filter_reasons = Map.empty, rp_icmp_warnings = []\<rparr>"

text \<open>\<open>sp_dest\<close> and \<open>sp_dest6\<close> are the target's address, one of them zero; \<open>sp_services\<close> is the map of services.\<close>

record scan_params =
  sp_scan_type :: scan_type
  sp_fast_scan :: bool
  sp_print_individual :: bool
  sp_target_is_ipv6 :: bool
  sp_dest :: bytes
  sp_dest6 :: bytes
  sp_timestamp_val :: u32
  sp_nops_count :: u16
  sp_use_tfo_cookie :: bool
  sp_tfo_cookie_as_hex :: bool
  sp_tfo_cookie_random :: bool
  sp_tfo_cookie_str :: string
  sp_tfo_cookie_num :: u64
  sp_tfo_cookie_length :: nat
  sp_services :: "u16 \<Rightarrow> string option"

text \<open>The constructors of \<open>PacketTask\<close> as every caller of this file uses them: no data, no other flags.\<close>

definition make_task :: "scan_params \<Rightarrow> u16 \<Rightarrow> u16 \<Rightarrow> u32 \<Rightarrow> u32 \<Rightarrow> u8 \<Rightarrow> u32 \<Rightarrow> packet_task" where
  "make_task sp port src_port sq ak flags tsval =
     \<lparr>task_dest = (if sp_target_is_ipv6 sp then replicate 4 0 else sp_dest sp),
      task_sin_port = (if sp_target_is_ipv6 sp then 0 else port),
      task_dest6 = (if sp_target_is_ipv6 sp then sp_dest6 sp else replicate 16 0),
      task_sin6_port = (if sp_target_is_ipv6 sp then port else 0),
      task_is_ipv6 = sp_target_is_ipv6 sp, task_src_port = src_port, task_seq = sq, task_ack = ak,
      task_flags = flags, task_data = [], task_scan_type = sp_scan_type sp,
      task_timestamp_val = tsval, task_custom_timestamp = sp_timestamp_val sp,
      task_nops_count = sp_nops_count sp, task_use_tfo_cookie = sp_use_tfo_cookie sp,
      task_tfo_cookie_as_hex = sp_tfo_cookie_as_hex sp, task_tfo_cookie_random = sp_tfo_cookie_random sp,
      task_tfo_cookie_str = sp_tfo_cookie_str sp, task_tfo_cookie_num = sp_tfo_cookie_num sp,
      task_tfo_cookie_length = sp_tfo_cookie_length sp\<rparr>"

text \<open>The header of a received segment, in host byte order.\<close>

record tcp_hdr =
  th_sport :: u16
  th_dport :: u16
  th_seq :: u32
  th_ack :: u32
  th_off :: nat
  th_flags :: u8
  th_win :: u16

definition is_fin :: "tcp_hdr \<Rightarrow> bool" where "is_fin h \<longleftrightarrow> bit (th_flags h) 0"
definition is_syn :: "tcp_hdr \<Rightarrow> bool" where "is_syn h \<longleftrightarrow> bit (th_flags h) 1"
definition is_rst :: "tcp_hdr \<Rightarrow> bool" where "is_rst h \<longleftrightarrow> bit (th_flags h) 2"
definition is_ack :: "tcp_hdr \<Rightarrow> bool" where "is_ack h \<longleftrightarrow> bit (th_flags h) 4"

abbreviation (input) TH_ACK :: u8 where "TH_ACK \<equiv> 0x10"
abbreviation (input) TH_FIN_ACK :: u8 where "TH_FIN_ACK \<equiv> 0x11"

section \<open>Reporting a port\<close>

record reply =
  ry_state :: probe
  ry_queue :: "packet_task list"
  ry_result :: rec_pross
  ry_lines :: "port_line list"

text \<open>
  \<open>PORT_RESULT\<close> is used by SYN scans alone; the inner switches name the scan as \<open>scan_map\<close> does.
\<close>

definition line_for :: "scan_params \<Rightarrow> u16 \<Rightarrow> string \<Rightarrow> u16 \<Rightarrow> port_line" where
  "line_for sp port state win =
     \<lparr>ln_kind = (if sp_scan_type sp = SYN then PORT_RESULT else PORT_RESULT_CUSTOM), ln_port = port,
      ln_state = state, ln_service = (case sp_services sp port of Some s \<Rightarrow> s | None \<Rightarrow> ''unknown''),
      ln_scan_name = st_name (scan_map (sp_scan_type sp)), ln_window = win\<rparr>"

definition report_open :: "scan_params \<Rightarrow> u16 \<Rightarrow> string \<Rightarrow> u16 \<Rightarrow> reply \<Rightarrow> reply" where
  "report_open sp port label win r =
     (if pb_reported_state (ry_state r) = REPORTED_NONE
      then \<lparr>ry_state = (ry_state r)\<lparr>pb_reported_state := REPORTED_OPEN\<rparr>, ry_queue = ry_queue r,
            ry_result = (ry_result r)\<lparr>rp_open_ports := rp_open_ports (ry_result r) @ [port]\<rparr>,
            ry_lines = ry_lines r @ [line_for sp port label win]\<rparr>
      else r)"

definition report_closed :: "scan_params \<Rightarrow> u16 \<Rightarrow> u16 \<Rightarrow> reply \<Rightarrow> reply" where
  "report_closed sp port win r =
     (if pb_reported_state (ry_state r) = REPORTED_NONE
      then \<lparr>ry_state = (ry_state r)\<lparr>pb_reported_state := REPORTED_CLOSED\<rparr>, ry_queue = ry_queue r,
            ry_result = (ry_result r)\<lparr>rp_closed_ports := rp_closed_ports (ry_result r) + 1\<rparr>,
            ry_lines = ry_lines r @ (if sp_print_individual sp then [line_for sp port ''closed'' win] else [])\<rparr>
      else r)"

definition settle :: "reply \<Rightarrow> reply" where
  "settle r = r\<lparr>ry_state := (ry_state r)\<lparr>pb_final_state_determined := True\<rparr>\<rparr>"

section \<open>The cases of the switch\<close>

text \<open>
  A SYN-ACK: unless the scan is fast, an ACK and a FIN-ACK are queued to close the connection, whose
  end is then awaited.
\<close>

definition closing_tasks :: "scan_params \<Rightarrow> u16 \<Rightarrow> probe \<Rightarrow> packet_task list" where
  "closing_tasks sp port s =
     [make_task sp port (pb_src_port s) (pb_seq s + 1) (pb_ack_seq s) TH_ACK (pb_sent_tsval s),
      make_task sp port (pb_src_port s) (pb_seq s + 1) (pb_ack_seq s) TH_FIN_ACK (pb_sent_tsval s)]"

definition take_syn_ack :: "scan_params \<Rightarrow> u16 \<Rightarrow> tcp_hdr \<Rightarrow> u32 \<Rightarrow> reply \<Rightarrow> reply" where
  "take_syn_ack sp port h tsval r =
     (let s = (ry_state r)\<lparr>pb_ack_seq := th_seq h + 1, pb_sent_tsval := tsval + pb_tsval_offset (ry_state r)\<rparr>;
          r = r\<lparr>ry_state := s, ry_queue := ry_queue r @ (if sp_fast_scan sp then [] else closing_tasks sp port s)\<rparr>;
          r = report_open sp port ''open'' 0 r;
          r = r\<lparr>ry_state := (ry_state r)\<lparr>pb_connection_established := True, pb_fin_sent := \<not> sp_fast_scan sp\<rparr>\<rparr>
      in if sp_fast_scan sp then settle r else r)"

text \<open>SYN and its variants, and the scans with unusual flags: a SYN-ACK or a RST decides.\<close>

definition handshake_case :: "scan_params \<Rightarrow> u16 \<Rightarrow> tcp_hdr \<Rightarrow> u32 \<Rightarrow> reply \<Rightarrow> reply option" where
  "handshake_case sp port h tsval r =
     (if is_syn h \<and> is_ack h \<and> \<not> pb_connection_established (ry_state r)
      then Some (take_syn_ack sp port h tsval r)
      else if is_rst h then Some (settle (report_closed sp port 0 r))
      else None)"

text \<open>FIN, NULL, Xmas and Maimon: only a RST is an answer.\<close>

definition stealth_case :: "scan_params \<Rightarrow> u16 \<Rightarrow> tcp_hdr \<Rightarrow> reply \<Rightarrow> reply option" where
  "stealth_case sp port h r =
     (if is_rst h then Some (settle (report_closed sp port 0 r)) else None)"

definition ack_case :: "scan_params \<Rightarrow> u16 \<Rightarrow> tcp_hdr \<Rightarrow> reply \<Rightarrow> reply option" where
  "ack_case sp port h r =
     (if is_rst h then Some (settle (report_open sp port ''unfiltered'' 0 r)) else None)"

definition window_case :: "scan_params \<Rightarrow> u16 \<Rightarrow> tcp_hdr \<Rightarrow> reply \<Rightarrow> reply option" where
  "window_case sp port h r =
     (if is_rst h
      then Some (settle (if th_win h > 0 then report_open sp port ''open'' (th_win h) r
                         else report_closed sp port (th_win h) r))
      else None)"

definition switch_case :: "scan_params \<Rightarrow> u16 \<Rightarrow> tcp_hdr \<Rightarrow> u32 \<Rightarrow> reply \<Rightarrow> reply option" where
  "switch_case sp port h tsval r =
     (case sp_scan_type sp of
        RAM \<Rightarrow> handshake_case sp port h tsval r
      | JATAYU \<Rightarrow> handshake_case sp port h tsval r
      | GARUD \<Rightarrow> handshake_case sp port h tsval r
      | GANESH \<Rightarrow> handshake_case sp port h tsval r
      | SYN \<Rightarrow> handshake_case sp port h tsval r
      | FIN \<Rightarrow> stealth_case sp port h r
      | NULL_SCAN \<Rightarrow> stealth_case sp port h r
      | XMAS \<Rightarrow> stealth_case sp port h r
      | MAIMON \<Rightarrow> stealth_case sp port h r
      | ACK \<Rightarrow> ack_case sp port h r
      | WINDOW \<Rightarrow> window_case sp port h r
      | CWR \<Rightarrow> handshake_case sp port h tsval r
      | ECE \<Rightarrow> handshake_case sp port h tsval r
      | URG \<Rightarrow> handshake_case sp port h tsval r
      | PSH \<Rightarrow> handshake_case sp port h tsval r
      | HANUMAN \<Rightarrow> handshake_case sp port h tsval r
      | KAKABHUSUNDI \<Rightarrow> handshake_case sp port h tsval r)"

section \<open>After the switch\<close>

text \<open>
  The end of a connection we closed: a FIN is acknowledged. \<open>ihl\<close> is the length word of the IP header,
  absent for IPv6; the length of the data is an \<open>int\<close> difference converted to 32 bits.
\<close>

definition take_fin :: "scan_params \<Rightarrow> u16 \<Rightarrow> tcp_hdr \<Rightarrow> nat \<Rightarrow> nat option \<Rightarrow> u32 \<Rightarrow> reply \<Rightarrow> reply" where
  "take_fin sp port h nbytes ihl tsval r =
     (let s = (ry_state r)\<lparr>pb_sent_tsval := tsval + pb_tsval_offset (ry_state r)\<rparr>;
          data_len = of_int (int nbytes - (case ihl of Some n \<Rightarrow> int n * 4 | None \<Rightarrow> 0) - int (th_off h) * 4) :: u32;
          task = make_task sp port (pb_src_port s) (pb_seq s + 2) (th_seq h + data_len + 1) TH_ACK (pb_sent_tsval s)
      in r\<lparr>ry_state := s\<lparr>pb_fin_ack_received := True, pb_final_state_determined := True\<rparr>,
           ry_queue := ry_queue r @ [task]\<rparr>)"

definition after_switch :: "scan_params \<Rightarrow> u16 \<Rightarrow> tcp_hdr \<Rightarrow> nat \<Rightarrow> nat option \<Rightarrow> u32 \<Rightarrow> reply \<Rightarrow> bool \<times> reply" where
  "after_switch sp port h nbytes ihl tsval r =
     (let s = ry_state r in
      if pb_connection_established s \<and> pb_fin_sent s \<and> \<not> pb_fin_ack_received s \<and> is_fin h
      then (True, take_fin sp port h nbytes ihl tsval r)
      else if pb_connection_established s \<and> \<not> pb_fin_sent s \<and> is_ack h \<and> \<not> is_syn h \<and>
              pb_reported_state s = REPORTED_OPEN
      then (True, settle r)
      else (False, r))"

definition process_response ::
    "scan_params \<Rightarrow> u16 \<Rightarrow> tcp_hdr \<Rightarrow> nat \<Rightarrow> nat option \<Rightarrow> u32 \<Rightarrow> reply \<Rightarrow> bool \<times> reply" where
  "process_response sp port h nbytes ihl tsval r =
     (let s = ry_state r in
      if pb_final_state_determined s then (False, r)
      else if \<not> pb_connection_established s \<and> is_ack h \<and> th_ack h \<noteq> pb_seq s + 1 then (False, r)
      else case switch_case sp port h tsval r of
        Some r' \<Rightarrow> (True, r')
      | None \<Rightarrow> after_switch sp port h nbytes ihl tsval r)"

section \<open>The protocol of a port\<close>

text \<open>
  What a reply means, apart from how the program stores it: which answers decide a port, and the
  phases a port goes through.
\<close>

definition awaits_handshake :: "scan_type \<Rightarrow> bool" where
  "awaits_handshake st \<longleftrightarrow>
     st \<in> {SYN, RAM, JATAYU, GARUD, GANESH, CWR, ECE, URG, PSH, HANUMAN, KAKABHUSUNDI}"

definition credible :: "u32 \<Rightarrow> tcp_hdr \<Rightarrow> bool" where
  "credible sq h \<longleftrightarrow> (is_ack h \<longrightarrow> th_ack h = sq + 1)"

definition verdict :: "scan_type \<Rightarrow> tcp_hdr \<Rightarrow> reported_state" where
  "verdict st h =
     (if awaits_handshake st \<and> is_syn h \<and> is_ack h then REPORTED_OPEN
      else if \<not> is_rst h then REPORTED_NONE
      else if st = ACK \<or> (st = WINDOW \<and> th_win h > 0) then REPORTED_OPEN
      else REPORTED_CLOSED)"

datatype phase = Waiting | Closing | Decided

definition phase_of :: "probe \<Rightarrow> phase" where
  "phase_of s = (if pb_final_state_determined s then Decided
     else if pb_connection_established s then Closing else Waiting)"

definition port_step :: "scan_type \<Rightarrow> bool \<Rightarrow> u32 \<Rightarrow> tcp_hdr \<Rightarrow> phase \<Rightarrow> phase" where
  "port_step st fast sq h ph =
     (case ph of
        Waiting \<Rightarrow>
          if \<not> credible sq h \<or> verdict st h = REPORTED_NONE then Waiting
          else if awaits_handshake st \<and> verdict st h = REPORTED_OPEN \<and> \<not> fast then Closing
          else Decided
      | Closing \<Rightarrow> if is_rst h \<or> is_fin h then Decided else Closing
      | Decided \<Rightarrow> Decided)"

definition record_verdict :: "reported_state \<Rightarrow> u16 \<Rightarrow> rec_pross \<Rightarrow> rec_pross" where
  "record_verdict v port res =
     (case v of
        REPORTED_OPEN \<Rightarrow> res\<lparr>rp_open_ports := rp_open_ports res @ [port]\<rparr>
      | REPORTED_CLOSED \<Rightarrow> res\<lparr>rp_closed_ports := rp_closed_ports res + 1\<rparr>
      | _ \<Rightarrow> res)"

text \<open>The states of a port that occur.\<close>

definition probe_ok :: "scan_params \<Rightarrow> probe \<Rightarrow> bool" where
  "probe_ok sp s \<longleftrightarrow>
     (case phase_of s of
        Waiting \<Rightarrow> pb_reported_state s = REPORTED_NONE \<and> \<not> pb_fin_ack_received s
      | Closing \<Rightarrow> pb_reported_state s = REPORTED_OPEN \<and> pb_fin_sent s \<and> \<not> pb_fin_ack_received s \<and>
                   awaits_handshake (sp_scan_type sp) \<and> \<not> sp_fast_scan sp
      | Decided \<Rightarrow> pb_reported_state s \<noteq> REPORTED_NONE)"

section \<open>process_response implements the protocol\<close>

lemma switch_awaits:
  "awaits_handshake (sp_scan_type sp) \<Longrightarrow> switch_case sp port h tsval r = handshake_case sp port h tsval r"
  by (auto simp: awaits_handshake_def switch_case_def)

lemma switch_others:
  assumes "\<not> awaits_handshake (sp_scan_type sp)"
  shows "switch_case sp port h tsval r =
    (if \<not> is_rst h then None
     else Some (settle (if sp_scan_type sp = ACK then report_open sp port ''unfiltered'' 0 r
       else if sp_scan_type sp = WINDOW \<and> th_win h > 0 then report_open sp port ''open'' (th_win h) r
       else report_closed sp port (if sp_scan_type sp = WINDOW then th_win h else 0) r)))"
  using assms
  by (cases "sp_scan_type sp")
    (auto simp: awaits_handshake_def switch_case_def stealth_case_def ack_case_def window_case_def)

text \<open>What none of the steps touches.\<close>

definition same_identity :: "probe \<Rightarrow> probe \<Rightarrow> bool" where
  "same_identity s s' \<longleftrightarrow> pb_seq s' = pb_seq s \<and> pb_src_port s' = pb_src_port s \<and>
     pb_used_src_ports s' = pb_used_src_ports s \<and> pb_retry_count s' = pb_retry_count s \<and>
     pb_retries_cap s' = pb_retries_cap s \<and> pb_counted_in_retry s' = pb_counted_in_retry s \<and>
     pb_retry_send_deferred s' = pb_retry_send_deferred s \<and>
     pb_initial_send_deferred s' = pb_initial_send_deferred s \<and> pb_rtt_measured s' = pb_rtt_measured s"

text \<open>
  One reply, seen as a step of the protocol: \<open>b\<close> is the value \<open>process_response\<close> returns, true exactly
  when the phase changes.
\<close>

definition implements :: "scan_params \<Rightarrow> u16 \<Rightarrow> tcp_hdr \<Rightarrow> reply \<Rightarrow> bool \<Rightarrow> reply \<Rightarrow> bool" where
  "implements sp port h r b r' \<longleftrightarrow>
     (let s = ry_state r; s' = ry_state r';
          st = sp_scan_type sp; heard = (phase_of s = Waiting \<and> credible (pb_seq s) h)
      in probe_ok sp s' \<and> same_identity s s' \<and>
         phase_of s' = port_step st (sp_fast_scan sp) (pb_seq s) h (phase_of s) \<and>
         b = (phase_of s' \<noteq> phase_of s) \<and>
         ry_result r' = (if heard then record_verdict (verdict st h) port (ry_result r) else ry_result r) \<and>
         pb_reported_state s' = (if heard then verdict st h else pb_reported_state s))"

lemmas reply_defs = report_open_def report_closed_def settle_def take_syn_ack_def take_fin_def
  handshake_case_def after_switch_def closing_tasks_def Let_def

lemmas protocol_defs = implements_def probe_ok_def phase_of_def port_step_def record_verdict_def
  verdict_def credible_def same_identity_def

lemma decided_implements:
  assumes "phase_of (ry_state r) = Decided" and "probe_ok sp (ry_state r)"
  shows "implements sp port h r False r \<and>
    process_response sp port h nbytes ihl tsval r = (False, r)"
  using assms by (auto simp: protocol_defs process_response_def split: if_splits)

lemma closing_implements:
  assumes "phase_of (ry_state r) = Closing" and "probe_ok sp (ry_state r)"
    and "process_response sp port h nbytes ihl tsval r = (b, r')"
  shows "implements sp port h r b r'"
  using assms
  by (auto simp: protocol_defs process_response_def switch_awaits reply_defs split: if_splits)

lemma process_waiting:
  assumes "phase_of (ry_state r) = Waiting"
  shows "process_response sp port h nbytes ihl tsval r =
    (if \<not> credible (pb_seq (ry_state r)) h then (False, r)
     else case switch_case sp port h tsval r of Some r' \<Rightarrow> (True, r') | None \<Rightarrow> (False, r))"
  using assms
  by (simp add: process_response_def after_switch_def phase_of_def credible_def Let_def
      split: if_splits option.splits)

lemma report_waiting:
  assumes "pb_reported_state (ry_state r) = REPORTED_NONE"
  shows "settle (report_open sp port label w r) =
      \<lparr>ry_state = (ry_state r)\<lparr>pb_reported_state := REPORTED_OPEN, pb_final_state_determined := True\<rparr>,
       ry_queue = ry_queue r, ry_result = record_verdict REPORTED_OPEN port (ry_result r),
       ry_lines = ry_lines r @ [line_for sp port label w]\<rparr>"
    and "settle (report_closed sp port w r) =
      \<lparr>ry_state = (ry_state r)\<lparr>pb_reported_state := REPORTED_CLOSED, pb_final_state_determined := True\<rparr>,
       ry_queue = ry_queue r, ry_result = record_verdict REPORTED_CLOSED port (ry_result r),
       ry_lines = ry_lines r @ (if sp_print_individual sp then [line_for sp port ''closed'' w] else [])\<rparr>"
  using assms by (simp_all add: settle_def report_open_def report_closed_def record_verdict_def)

text \<open>A decision at once: the state is final and reported as the verdict.\<close>

lemma decides_implements:
  assumes w: "phase_of (ry_state r) = Waiting" and c: "credible (pb_seq (ry_state r)) h"
    and v: "verdict (sp_scan_type sp) h = v" "v \<noteq> REPORTED_NONE"
    and fast: "awaits_handshake (sp_scan_type sp) \<Longrightarrow> v = REPORTED_OPEN \<Longrightarrow> sp_fast_scan sp"
    and s: "same_identity (ry_state r) (ry_state r')" "pb_final_state_determined (ry_state r')"
      "pb_reported_state (ry_state r') = v"
    and res: "ry_result r' = record_verdict v port (ry_result r)"
  shows "implements sp port h r True r'"
proof -
  have "phase_of (ry_state r') = Decided" using s(2) by (simp add: phase_of_def)
  then show ?thesis
    using assms by (auto simp: implements_def probe_ok_def port_step_def Let_def)
qed

lemma ignores_implements:
  assumes "phase_of (ry_state r) = Waiting" and "probe_ok sp (ry_state r)"
    and "credible (pb_seq (ry_state r)) h \<Longrightarrow> verdict (sp_scan_type sp) h = REPORTED_NONE"
  shows "implements sp port h r False r"
  using assms by (auto simp: implements_def probe_ok_def port_step_def Let_def same_identity_def record_verdict_def)

lemma syn_ack_implements:
  assumes w: "phase_of (ry_state r) = Waiting" and ok: "probe_ok sp (ry_state r)"
    and c: "credible (pb_seq (ry_state r)) h" and a: "awaits_handshake (sp_scan_type sp)"
    and sa: "is_syn h" "is_ack h"
  shows "implements sp port h r True (take_syn_ack sp port h tsval r)"
proof -
  have none: "pb_reported_state (ry_state r) = REPORTED_NONE"
    and open_: "\<not> pb_final_state_determined (ry_state r)" "\<not> pb_fin_ack_received (ry_state r)"
    using w ok by (auto simp: probe_ok_def phase_of_def split: if_splits)
  have v: "verdict (sp_scan_type sp) h = REPORTED_OPEN" using a sa by (simp add: verdict_def)
  show ?thesis
  proof (cases "sp_fast_scan sp")
    case True
    show ?thesis
      by (rule decides_implements [OF w c v])
        (simp_all add: True none take_syn_ack_def report_open_def settle_def same_identity_def
          record_verdict_def Let_def)
  next
    case False
    let ?r = "take_syn_ack sp port h tsval r"
    have "phase_of (ry_state ?r) = Closing" "probe_ok sp (ry_state ?r)" "same_identity (ry_state r) (ry_state ?r)"
      "ry_result ?r = record_verdict REPORTED_OPEN port (ry_result r)"
      "pb_reported_state (ry_state ?r) = REPORTED_OPEN"
      using False none open_ w a
      by (simp_all add: take_syn_ack_def report_open_def phase_of_def probe_ok_def same_identity_def
          record_verdict_def Let_def split: if_splits)
    with w c v a False show ?thesis by (simp add: implements_def port_step_def Let_def)
  qed
qed

lemma waiting_awaits_implements:
  assumes w: "phase_of (ry_state r) = Waiting" and ok: "probe_ok sp (ry_state r)"
    and p: "process_response sp port h nbytes ihl tsval r = (b, r')"
    and a: "awaits_handshake (sp_scan_type sp)"
  shows "implements sp port h r b r'"
proof -
  have none: "pb_reported_state (ry_state r) = REPORTED_NONE"
    and est: "\<not> pb_connection_established (ry_state r)"
    using w ok by (auto simp: probe_ok_def phase_of_def split: if_splits)
  have other: "sp_scan_type sp \<noteq> ACK" "sp_scan_type sp \<noteq> WINDOW"
    using a by (auto simp: awaits_handshake_def)
  consider "\<not> credible (pb_seq (ry_state r)) h" | "credible (pb_seq (ry_state r)) h" "is_syn h" "is_ack h"
    | "credible (pb_seq (ry_state r)) h" "\<not> (is_syn h \<and> is_ack h)" "is_rst h"
    | "credible (pb_seq (ry_state r)) h" "\<not> (is_syn h \<and> is_ack h)" "\<not> is_rst h" by blast
  then show ?thesis
  proof cases
    case 1
    then have "b = False" "r' = r" using p by (simp_all add: process_waiting [OF w])
    with 1 ignores_implements [OF w ok] show ?thesis by blast
  next
    case 2
    then have "b = True" "r' = take_syn_ack sp port h tsval r"
      using p est by (simp_all add: process_waiting [OF w] switch_awaits [OF a] handshake_case_def)
    with 2 syn_ack_implements [OF w ok _ a] show ?thesis by simp
  next
    case 3
    then have b: "b = True" and r': "r' = settle (report_closed sp port 0 r)"
      using p by (auto simp: process_waiting [OF w] switch_awaits [OF a] handshake_case_def)
    have v: "verdict (sp_scan_type sp) h = REPORTED_CLOSED" using 3 other by (auto simp: verdict_def)
    show ?thesis unfolding b r' report_waiting(2) [OF none]
      by (rule decides_implements [OF w 3(1) v]) (simp_all add: same_identity_def)
  next
    case 4
    then have "b = False" "r' = r"
      using p by (auto simp: process_waiting [OF w] switch_awaits [OF a] handshake_case_def)
    moreover have "verdict (sp_scan_type sp) h = REPORTED_NONE" using 4 by (auto simp: verdict_def)
    ultimately show ?thesis using ignores_implements [OF w ok] by simp
  qed
qed

lemma waiting_others_implements:
  assumes w: "phase_of (ry_state r) = Waiting" and ok: "probe_ok sp (ry_state r)"
    and p: "process_response sp port h nbytes ihl tsval r = (b, r')"
    and a: "\<not> awaits_handshake (sp_scan_type sp)"
  shows "implements sp port h r b r'"
proof -
  have none: "pb_reported_state (ry_state r) = REPORTED_NONE"
    using w ok by (simp add: probe_ok_def)
  let ?open = "sp_scan_type sp = ACK \<or> sp_scan_type sp = WINDOW \<and> th_win h > 0"
  consider "\<not> credible (pb_seq (ry_state r)) h" | "\<not> is_rst h"
    | "credible (pb_seq (ry_state r)) h" "is_rst h" ?open
    | "credible (pb_seq (ry_state r)) h" "is_rst h" "\<not> ?open" by blast
  then show ?thesis
  proof cases
    case 1
    then have "b = False" "r' = r" using p by (simp_all add: process_waiting [OF w])
    with 1 ignores_implements [OF w ok] show ?thesis by blast
  next
    case 2
    then have "b = False" "r' = r"
      using p by (auto simp: process_waiting [OF w] switch_others [OF a] split: if_splits)
    moreover have "verdict (sp_scan_type sp) h = REPORTED_NONE" using 2 a by (simp add: verdict_def)
    ultimately show ?thesis using ignores_implements [OF w ok] by simp
  next
    case 3
    then obtain label win where b: "b = True" and r': "r' = settle (report_open sp port label win r)"
      using p by (auto simp: process_waiting [OF w] switch_others [OF a] split: if_splits)
    have v: "verdict (sp_scan_type sp) h = REPORTED_OPEN" using 3 a by (auto simp: verdict_def)
    show ?thesis unfolding b r' report_waiting(1) [OF none]
      by (rule decides_implements [OF w 3(1) v]) (simp_all add: same_identity_def a)
  next
    case 4
    then obtain win where b: "b = True" and r': "r' = settle (report_closed sp port win r)"
      using p by (auto simp: process_waiting [OF w] switch_others [OF a] split: if_splits)
    have v: "verdict (sp_scan_type sp) h = REPORTED_CLOSED" using 4 a by (auto simp: verdict_def)
    show ?thesis unfolding b r' report_waiting(2) [OF none]
      by (rule decides_implements [OF w 4(1) v]) (simp_all add: same_identity_def)
  qed
qed

lemma process_implements:
  assumes "probe_ok sp (ry_state r)"
    and "process_response sp port h nbytes ihl tsval r = (b, r')"
  shows "implements sp port h r b r'"
proof (cases "phase_of (ry_state r)")
  case Waiting
  with assms waiting_awaits_implements waiting_others_implements show ?thesis by blast
next
  case Closing
  with assms closing_implements show ?thesis by blast
next
  case Decided
  with assms decided_implements [OF Decided assms(1), of port h nbytes ihl tsval] show ?thesis by auto
qed

section \<open>A conversation\<close>

text \<open>The replies of one port in the order they are processed, each with the readings of its handling.\<close>

type_synonym segment = "tcp_hdr \<times> nat \<times> nat option \<times> u32"

fun hear :: "scan_params \<Rightarrow> u16 \<Rightarrow> segment list \<Rightarrow> reply \<Rightarrow> reply" where
  "hear sp port [] r = r"
| "hear sp port ((h, nbytes, ihl, tsval) # segs) r =
     hear sp port segs (snd (process_response sp port h nbytes ihl tsval r))"

definition decisive :: "scan_params \<Rightarrow> u32 \<Rightarrow> tcp_hdr \<Rightarrow> bool" where
  "decisive sp sq h \<longleftrightarrow> credible sq h \<and> verdict (sp_scan_type sp) h \<noteq> REPORTED_NONE"

definition final_verdict :: "scan_params \<Rightarrow> u32 \<Rightarrow> segment list \<Rightarrow> reported_state" where
  "final_verdict sp sq segs =
     (case List.find (decisive sp sq) (map fst segs) of
        None \<Rightarrow> REPORTED_NONE
      | Some h \<Rightarrow> verdict (sp_scan_type sp) h)"

lemma final_verdict_Nil [simp]: "final_verdict sp sq [] = REPORTED_NONE"
  by (simp add: final_verdict_def)

lemma final_verdict_Cons:
  "final_verdict sp sq ((h, x) # segs) =
    (if decisive sp sq h then verdict (sp_scan_type sp) h else final_verdict sp sq segs)"
  by (simp add: final_verdict_def)

lemma snd_process_implements:
  assumes "probe_ok sp (ry_state r)"
  shows "\<exists>b. implements sp port h r b (snd (process_response sp port h nbytes ihl tsval r))"
proof -
  obtain b r' where p: "process_response sp port h nbytes ihl tsval r = (b, r')"
    by (cases "process_response sp port h nbytes ihl tsval r")
  from process_implements [OF assms p] p show ?thesis by auto
qed

lemma hear_resolved:
  assumes "probe_ok sp (ry_state r)" and "phase_of (ry_state r) \<noteq> Waiting"
  shows "pb_reported_state (ry_state (hear sp port segs r)) = pb_reported_state (ry_state r) \<and>
    ry_result (hear sp port segs r) = ry_result r"
  using assms
proof (induction segs arbitrary: r)
  case (Cons seg segs)
  obtain h nbytes ihl tsval where seg: "seg = (h, nbytes, ihl, tsval)" by (cases seg)
  define r1 where "r1 = snd (process_response sp port h nbytes ihl tsval r)"
  have i: "probe_ok sp (ry_state r1)" "ry_result r1 = ry_result r"
    "pb_reported_state (ry_state r1) = pb_reported_state (ry_state r)"
    "phase_of (ry_state r1) = port_step (sp_scan_type sp) (sp_fast_scan sp) (pb_seq (ry_state r)) h (phase_of (ry_state r))"
    using snd_process_implements [OF Cons.prems(1), of port h nbytes ihl tsval] Cons.prems(2)
    by (auto simp: implements_def Let_def r1_def)
  then have "phase_of (ry_state r1) \<noteq> Waiting"
    using Cons.prems(2) by (auto simp: port_step_def split: phase.splits if_splits)
  from Cons.IH [OF i(1) this] i show ?case by (simp add: seg r1_def)
qed simp

lemma hear_waiting:
  assumes "probe_ok sp (ry_state r)" and "phase_of (ry_state r) = Waiting"
  shows "pb_reported_state (ry_state (hear sp port segs r)) = final_verdict sp (pb_seq (ry_state r)) segs \<and>
    ry_result (hear sp port segs r) =
      record_verdict (final_verdict sp (pb_seq (ry_state r)) segs) port (ry_result r)"
  using assms
proof (induction segs arbitrary: r)
  case Nil
  then show ?case by (simp add: probe_ok_def record_verdict_def)
next
  case (Cons seg segs)
  obtain h nbytes ihl tsval where seg: "seg = (h, nbytes, ihl, tsval)" by (cases seg)
  define r1 where "r1 = snd (process_response sp port h nbytes ihl tsval r)"
  let ?sq = "pb_seq (ry_state r)" and ?st = "sp_scan_type sp"
  have i: "probe_ok sp (ry_state r1)" "pb_seq (ry_state r1) = ?sq"
    "phase_of (ry_state r1) = port_step ?st (sp_fast_scan sp) ?sq h Waiting"
    "ry_result r1 = (if credible ?sq h then record_verdict (verdict ?st h) port (ry_result r) else ry_result r)"
    "pb_reported_state (ry_state r1) = (if credible ?sq h then verdict ?st h else pb_reported_state (ry_state r))"
    using snd_process_implements [OF Cons.prems(1), of port h nbytes ihl tsval] Cons.prems(2)
    by (auto simp: implements_def same_identity_def Let_def r1_def)
  show ?case
  proof (cases "decisive sp ?sq h")
    case True
    then have "phase_of (ry_state r1) \<noteq> Waiting" using i(3) by (auto simp: decisive_def port_step_def)
    from hear_resolved [OF i(1) this] True i show ?thesis
      by (simp add: seg r1_def final_verdict_Cons decisive_def)
  next
    case False
    then have "phase_of (ry_state r1) = Waiting" using i(3) by (auto simp: decisive_def port_step_def)
    moreover have "ry_result r1 = ry_result r"
      using False i(4) by (auto simp: decisive_def record_verdict_def)
    ultimately show ?thesis
      using Cons.IH [OF i(1)] i(2) False by (simp add: seg r1_def [symmetric] final_verdict_Cons)
  qed
qed

definition probe_example :: probe where
  "probe_example = \<lparr>pb_src_port = 40000, pb_seq = 7, pb_ack_seq = 0, pb_connection_established = False,
     pb_fin_sent = False, pb_fin_ack_received = False, pb_retry_count = 0, pb_timeout_ms = 290,
     pb_retries_cap = 2, pb_rtt_measured = False, pb_syn_sent_time = 0, pb_sent_tsval = 0,
     pb_tsval_offset = 0, pb_final_state_determined = False, pb_reported_state = REPORTED_NONE,
     pb_used_src_ports = [(40000, 0)], pb_retry_send_deferred = False, pb_initial_send_deferred = False,
     pb_counted_in_retry = False\<rparr>"

definition scan_example :: scan_params where
  "scan_example = \<lparr>sp_scan_type = SYN, sp_fast_scan = False, sp_print_individual = False,
     sp_target_is_ipv6 = False, sp_dest = [192, 0, 2, 1], sp_dest6 = replicate 16 0, sp_timestamp_val = 0,
     sp_nops_count = 0, sp_use_tfo_cookie = False, sp_tfo_cookie_as_hex = False,
     sp_tfo_cookie_random = False, sp_tfo_cookie_str = [], sp_tfo_cookie_num = 0,
     sp_tfo_cookie_length = 0, sp_services = (\<lambda>_. None)\<rparr>"

definition reply_example :: reply where
  "reply_example = \<lparr>ry_state = probe_example, ry_queue = [], ry_result = rec_pross_empty, ry_lines = []\<rparr>"

definition hdr_example :: "u8 \<Rightarrow> u32 \<Rightarrow> tcp_hdr" where
  "hdr_example fl ak = \<lparr>th_sport = 443, th_dport = 40000, th_seq = 100, th_ack = ak, th_off = 5,
     th_flags = fl, th_win = 0\<rparr>"

lemma example_waiting: "probe_ok scan_example probe_example" "phase_of probe_example = Waiting"
  by (simp_all add: probe_ok_def phase_of_def probe_example_def)

section \<open>Properties\<close>

text \<open>
  C6. One reply is one step of the protocol, whatever the scan type, the flags and the state: the phase
  of the port changes as \<open>port_step\<close> says, the reply is entered in the result exactly when the port was
  waiting and the acknowledgement is the probe's, \<open>true\<close> is returned exactly when the phase changed,
  and the port stays in a state the protocol knows.
\<close>

theorem reply_refines_protocol:
  assumes "probe_ok sp (ry_state r)"
    and "process_response sp port h nbytes ihl tsval r = (b, r')"
  shows "probe_ok sp (ry_state r') \<and>
    phase_of (ry_state r') =
      port_step (sp_scan_type sp) (sp_fast_scan sp) (pb_seq (ry_state r)) h (phase_of (ry_state r)) \<and>
    (b = (phase_of (ry_state r') \<noteq> phase_of (ry_state r))) \<and>
    ry_result r' =
      (if phase_of (ry_state r) = Waiting \<and> credible (pb_seq (ry_state r)) h
       then record_verdict (verdict (sp_scan_type sp) h) port (ry_result r) else ry_result r)"
  using process_implements [OF assms] unfolding implements_def Let_def by blast

theorem reply_refines_protocol_witness:
  "let (b, r') = process_response scan_example 443 (hdr_example 0x12 8) 40 (Some 5) 9 reply_example
   in b \<and> phase_of (ry_state r') = Closing \<and> rp_open_ports (ry_result r') = [443]"
proof -
  obtain b r' where p: "process_response scan_example 443 (hdr_example 0x12 8) 40 (Some 5) 9 reply_example = (b, r')"
    by (cases "process_response scan_example 443 (hdr_example 0x12 8) 40 (Some 5) 9 reply_example")
  have ok: "probe_ok scan_example (ry_state reply_example)"
    using example_waiting by (simp add: reply_example_def)
  have "is_syn (hdr_example 0x12 8)" "is_ack (hdr_example 0x12 8)"
    by (simp_all add: is_syn_def is_ack_def hdr_example_def bit_numeral_rec)
  then have "verdict SYN (hdr_example 0x12 8) = REPORTED_OPEN" "credible 7 (hdr_example 0x12 8)"
    by (simp_all add: verdict_def awaits_handshake_def credible_def hdr_example_def)
  then show ?thesis
    using reply_refines_protocol [OF ok p] example_waiting
    unfolding p Let_def prod.case
    by (simp add: reply_example_def scan_example_def port_step_def probe_example_def
        record_verdict_def rec_pross_empty_def awaits_handshake_def)
qed

text \<open>
  C12. Over any conversation the first credible reply with a meaning for the scan type decides: the port
  is entered once, with that reply's verdict, and no later reply changes the result.
\<close>

theorem first_reply_decides:
  assumes "probe_ok sp (ry_state r)" and "phase_of (ry_state r) = Waiting"
  shows "pb_reported_state (ry_state (hear sp port segs r)) = final_verdict sp (pb_seq (ry_state r)) segs \<and>
    ry_result (hear sp port segs r) =
      record_verdict (final_verdict sp (pb_seq (ry_state r)) segs) port (ry_result r)"
  using hear_waiting [OF assms] by blast

theorem first_reply_decides_witness:
  "let r' = hear scan_example 443 [(hdr_example 0x14 99, 40, Some 5, 1), (hdr_example 0x14 8, 40, Some 5, 2),
      (hdr_example 0x12 8, 40, Some 5, 3)] reply_example
   in pb_reported_state (ry_state r') = REPORTED_CLOSED \<and> rp_closed_ports (ry_result r') = 1 \<and>
      rp_open_ports (ry_result r') = []"
proof -
  have w: "probe_ok scan_example (ry_state reply_example)" "phase_of (ry_state reply_example) = Waiting"
    using example_waiting by (simp_all add: reply_example_def)
  have f: "is_syn (hdr_example 0x14 k) = False" "is_ack (hdr_example 0x14 k)" "is_rst (hdr_example 0x14 k)"
    "th_ack (hdr_example 0x14 k) = k" for k
    by (simp_all add: is_syn_def is_ack_def is_rst_def hdr_example_def bit_numeral_rec)
  have "final_verdict scan_example (pb_seq (ry_state reply_example))
      [(hdr_example 0x14 99, 40, Some 5, 1), (hdr_example 0x14 8, 40, Some 5, 2), (hdr_example 0x12 8, 40, Some 5, 3)]
    = REPORTED_CLOSED"
    by (simp add: final_verdict_Cons decisive_def credible_def verdict_def f scan_example_def
        reply_example_def probe_example_def)
  then show ?thesis
    using first_reply_decides [OF w, of 443 "[(hdr_example 0x14 99, 40, Some 5, 1), (hdr_example 0x14 8, 40, Some 5, 2),
        (hdr_example 0x12 8, 40, Some 5, 3)]"]
    by (simp add: Let_def record_verdict_def reply_example_def rec_pross_empty_def)
qed


end
