(* ===== verification/Retry.thy ===== *)
theory Retry
  imports Reply Binary64 "HOL-Library.Signed_Division"
begin

text \<open>
  What paces the retries of a scan: the round-trip tracker, the retry budget with its congestion ratio,
  the windows of \<open>--rate\<close> and \<open>--bandwidth\<close> and the estimate of a packet's size (src/scan.hpp lines 70
  to 120, 393 to 425 and 1385 to 1425; src/scan.cpp lines 3067 to 3097). Numbers of type \<open>double\<close> are
  finite and not negative, rounded as in Binary64 and without contraction to fused operations;
  \<open>std::pow\<close> and \<open>std::uniform_int_distribution\<close> are parameters. Times are nanoseconds; the
  \<open>int\<close> milliseconds of the tracker are integers, the options keep them far below \<open>2^31\<close>.
\<close>

section \<open>Tuning\<close>

record cong_tune =
  ct_retry_delay_min_us :: nat
  ct_retry_delay_max_us :: nat
  ct_rtt_floor_div :: nat
  ct_curve_exp :: rat
  ct_alpha_up :: rat
  ct_alpha_down :: rat
  ct_rto_mult :: int
  ct_rto_pad1_ms :: int
  ct_rto_pad2_ms :: int
  ct_min_retries :: int
  ct_max_retries :: int
  ct_dispatch_jitter_floor_ms :: int

definition tune_default :: cong_tune where
  "tune_default = \<lparr>ct_retry_delay_min_us = 3000, ct_retry_delay_max_us = 700000, ct_rtt_floor_div = 4,
     ct_curve_exp = 2, ct_alpha_up = 1 / 2, ct_alpha_down = 3602879701896397 / 2 ^ 55, ct_rto_mult = 4,
     ct_rto_pad1_ms = 40, ct_rto_pad2_ms = 100, ct_min_retries = 2, ct_max_retries = 5,
     ct_dispatch_jitter_floor_ms = 60\<rparr>"

text \<open>The second factor is the \<open>double\<close> next to 0.1.\<close>

text \<open>The library functions the scan draws on.\<close>

record libm_env =
  lib_pow :: "rat \<Rightarrow> rat \<Rightarrow> rat"
  lib_uniform :: "nat \<Rightarrow> nat \<Rightarrow> rng \<Rightarrow> nat \<times> rng"

section \<open>RTTTracker\<close>

record rtt_tracker =
  rt_current_ms :: int
  rt_var_ms :: int
  rt_has_measurement :: bool

definition rtt_init :: "int \<Rightarrow> rtt_tracker" where
  "rtt_init seed = \<lparr>rt_current_ms = seed, rt_var_ms = seed sdiv 2, rt_has_measurement = False\<rparr>"

definition rtt_update :: "int \<Rightarrow> rtt_tracker \<Rightarrow> rtt_tracker" where
  "rtt_update new_rtt_ms t =
     (if \<not> rt_has_measurement t
      then \<lparr>rt_current_ms = new_rtt_ms, rt_var_ms = new_rtt_ms sdiv 2, rt_has_measurement = True\<rparr>
      else
        (let current = rt_current_ms t;
             diff = (if current > new_rtt_ms then current - new_rtt_ms else new_rtt_ms - current);
             var_smoothed = (3 * rt_var_ms t + diff) sdiv 4;
             smoothed = (7 * current + new_rtt_ms) sdiv 8
         in \<lparr>rt_current_ms = smoothed, rt_var_ms = var_smoothed, rt_has_measurement = True\<rparr>))"

definition timeout_for_retry :: "cong_tune \<Rightarrow> rtt_tracker \<Rightarrow> nat \<Rightarrow> int" where
  "timeout_for_retry tune t retry_count =
     (if \<not> rt_has_measurement t then rt_current_ms t
      else
        (let rto = max (rt_current_ms t + ct_rto_mult tune * rt_var_ms t) (ct_dispatch_jitter_floor_ms tune)
         in if retry_count = 0 then rto
            else if retry_count = 1 then rto + ct_rto_pad1_ms tune
            else
              (let extra_stages = int retry_count - 2
               in rto + ct_rto_pad2_ms tune + (extra_stages * ct_rto_pad2_ms tune) sdiv 2)))"

definition should_mark_filtered :: "nat \<Rightarrow> int \<Rightarrow> bool" where
  "should_mark_filtered retry_count retries_cap \<longleftrightarrow> int retry_count \<ge> retries_cap"

text \<open>\<open>std::max(MIN_TIMEOUT_MS, std::min(t, MAX_TIMEOUT_MS))\<close>\<close>

definition clamp_timeout :: "int \<Rightarrow> int \<Rightarrow> int \<Rightarrow> int" where
  "clamp_timeout lo hi t = max lo (min t hi)"

section \<open>RetryBudgetState\<close>

record retry_budget =
  rb_congestion_ratio :: rat
  rb_dynamic_max_retries :: int
  rb_ports_in_retry :: int
  rb_active_ports :: int

definition budget_init :: "cong_tune \<Rightarrow> retry_budget" where
  "budget_init tune = \<lparr>rb_congestion_ratio = 0, rb_dynamic_max_retries = ct_min_retries tune,
     rb_ports_in_retry = 0, rb_active_ports = 0\<rparr>"

definition clamp :: "'a :: linorder \<Rightarrow> 'a \<Rightarrow> 'a \<Rightarrow> 'a" where
  "clamp x lo hi = (if x < lo then lo else if hi < x then hi else x)"

text \<open>\<open>std::lround\<close> rounds halves away from zero.\<close>

definition lround :: "rat \<Rightarrow> int" where
  "lround x = (if 0 \<le> x then \<lfloor>x + 1 / 2\<rfloor> else - \<lfloor>- x + 1 / 2\<rfloor>)"

definition update_congestion :: "cong_tune \<Rightarrow> libm_env \<Rightarrow> rat \<Rightarrow> retry_budget \<Rightarrow> retry_budget" where
  "update_congestion tune lib sample b =
     (let sample = clamp sample 0 1;
          prev = rb_congestion_ratio b;
          alpha = (if sample > prev then ct_alpha_up tune else ct_alpha_down tune);
          mixed = round64 (round64 (alpha * sample) + round64 (round64 (1 - alpha) * prev));
          nxt = clamp mixed 0 1;
          nxt = (if nxt < round64 (1 / 100) then 0 else nxt);
          span = ct_max_retries tune - ct_min_retries tune;
          dyn = ct_min_retries tune + lround (round64 (lib_pow lib nxt (ct_curve_exp tune) * of_int span));
          dyn = clamp dyn (ct_min_retries tune) (ct_max_retries tune)
      in b\<lparr>rb_congestion_ratio := nxt, rb_dynamic_max_retries := dyn\<rparr>)"

section \<open>The window of --rate\<close>

record rate_limiter =
  rs_window_sent :: nat
  rs_window_target :: nat
  rs_window_start :: int
  rs_initialized :: bool

abbreviation (input) UINT32_MAX :: nat where "UINT32_MAX \<equiv> 4294967295"

text \<open>The new target; a difference of the two packet counts wraps as 32-bit arithmetic does.\<close>

definition rate_target :: "cong_tune \<Rightarrow> libm_env \<Rightarrow> rate_config \<Rightarrow> retry_budget \<Rightarrow> rng \<Rightarrow> nat \<times> rng" where
  "rate_target tune lib cfg b r =
     (if rc_dynamic_mode cfg then
        (if rc_gate_by_retry cfg \<and> rb_ports_in_retry b = 0 then (UINT32_MAX, r)
         else
           (let ratio = clamp (rb_congestion_ratio b) 0 1
            in if ratio \<le> 0 then (UINT32_MAX, r)
               else
                 (let curved = lib_pow lib ratio (ct_curve_exp tune);
                      extent = nat ((int (rc_max_packets cfg) - int (rc_min_packets cfg)) mod 2 ^ 32);
                      cut = min extent (nat \<lfloor>round64 (curved * of_nat extent)\<rfloor>)
                  in (nat ((int (rc_max_packets cfg) - int cut) mod 2 ^ 32), r))))
      else if rc_min_packets cfg < rc_max_packets cfg
      then lib_uniform lib (rc_min_packets cfg) (rc_max_packets cfg) r
      else (rc_max_packets cfg, r))"

definition rate_reset_window ::
    "cong_tune \<Rightarrow> libm_env \<Rightarrow> rate_config \<Rightarrow> retry_budget \<Rightarrow> int \<Rightarrow> rate_limiter \<times> rng \<Rightarrow> rate_limiter \<times> rng" where
  "rate_reset_window tune lib cfg b clock st =
     (let (rs, r) = st;
          rs = rs\<lparr>rs_window_sent := 0, rs_window_start := clock\<rparr>
      in if rc_enabled cfg
         then (let (target, r) = rate_target tune lib cfg b r in (rs\<lparr>rs_window_target := target\<rparr>, r))
         else (rs, r))"

section \<open>The window of --bandwidth\<close>

record bandwidth_limiter =
  bs_window_start :: int
  bs_reserved_bytes :: nat
  bs_actual_bytes_sent :: nat
  bs_window_target_bytes :: nat
  bs_initialized :: bool

definition bandwidth_target :: "libm_env \<Rightarrow> bandwidth_config \<Rightarrow> rng \<Rightarrow> nat \<times> rng" where
  "bandwidth_target lib cfg r =
     (if bw_total_bytes_min cfg < bw_total_bytes_max cfg
      then lib_uniform lib (bw_total_bytes_min cfg) (bw_total_bytes_max cfg) r
      else (bw_total_bytes_max cfg, r))"

section \<open>The size of a packet on the wire\<close>

text \<open>
  \<open>tsval\<close> is \<open>opts.timestamp_val\<close>. The length of the IP options, which the code computes last, is not
  part of the sum it returns.
\<close>

definition estimate_options :: "tcp_build_options \<Rightarrow> u32 \<Rightarrow> scan_type \<Rightarrow> nat" where
  "estimate_options opts tsval st =
     (let n = 0 :: nat;
          n = (if \<not> (st = NULL_SCAN \<or> st = XMAS) then n + 4 else n);
          n = (if window_scale opts > 0 then n + 3 else n);
          n = (if sack_permitted opts then n + 2 else n);
          n = (if tsval \<noteq> 0 then n + 10 else n);
          n = (if use_tcp_mptcp opts then n + min 12 (size_sub 40 n) else n);
          n = (if use_tcp_ao opts then n + min (4 + unat (tcp_ao_mac_len opts)) (size_sub 40 n) else n);
          n = (if use_tfo_cookie opts
               then n + min ((if tfo_cookie_length opts \<noteq> 0 then tfo_cookie_length opts else 8) + 2) (size_sub 40 n)
               else n);
          n = min n 40
      in (n + 3) div 4 * 4)"

definition estimate_packet_wire_bytes :: "tcp_build_options \<Rightarrow> u32 \<Rightarrow> scan_type \<Rightarrow> nat" where
  "estimate_packet_wire_bytes opts tsval st =
     (let data_len = (if use_custom_data opts then length (custom_data opts)
                      else if generate_random_data opts \<or> data_length opts > 0 then unat (data_length opts)
                      else 0)
      in 20 + 20 + estimate_options opts tsval st + data_len)"

end
