(* ===== verification/Engine.thy ===== *)
theory Engine
  imports Retry Dns
begin

text \<open>
  The receiving half of \<open>receive_response\<close> (src/scan.cpp, lines 2853 to 4515): the table of the ports
  being scanned, matching of TCP and ICMP packets to them, the heap of deadlines and the retries. The
  parallel vectors of the code are one list of slots; a slot's position is the index \<open>port_to_idx\<close>
  maps its port to. The sender thread appears as its callback \<open>on_pre_submit\<close>, the error queue of the
  socket as the messages \<open>drain_tx_errqueue\<close> takes from it. Counters of type \<open>size_t\<close> are integers;
  that they never pass zero is a theorem of Engine_Runs. The packet details kept for display and OS
  detection and the debug logs are left out. Times are nanoseconds of \<open>steady_clock\<close>.
\<close>

section \<open>State\<close>

record slot =
  sl_probe :: probe
  sl_final :: bool
  sl_rtt_measured :: bool
  sl_tx_ts_us :: nat
  sl_tx_ts_precise :: bool
  sl_real_tx_ts_us :: nat
  sl_replied_this_attempt :: bool
  sl_generation :: u32
  sl_outstanding :: bool

record heap_entry =
  he_deadline :: int
  he_port :: u16
  he_is_sentinel :: bool

text \<open>
  \<open>en_ports\<close> is \<open>idx_to_port\<close>, \<open>en_index\<close> is \<open>port_to_idx\<close>; the heap is the list of its entries, of
  which \<open>top()\<close> is one with the least deadline. \<open>en_tx_ids\<close> and \<open>en_tx_seq\<close> are the maps from time stamp
  ids to probes and the counters of those ids, for IPv4 and IPv6. \<open>en_aborted\<close> is set by a fatal ICMP
  message, on which the function returns.
\<close>

record engine =
  en_ports :: "u16 list"
  en_index :: "u16 \<Rightarrow> nat option"
  en_slots :: "slot list"
  en_active_count :: int
  en_ports_in_retry :: int
  en_budget :: retry_budget
  en_tracker :: rtt_tracker
  en_heap :: "heap_entry list"
  en_next_retry_dispatch :: int
  en_gate_pending :: "u16 list"
  en_sentinel_armed :: bool
  en_tx_ids :: "bool \<Rightarrow> u32 \<Rightarrow> (nat \<times> u32) option"
  en_tx_seq :: "bool \<Rightarrow> u32"
  en_rate :: rate_limiter
  en_bandwidth :: bandwidth_limiter
  en_result :: rec_pross
  en_lines :: "port_line list"
  en_queue :: "packet_task list"
  en_confirmed_tx :: nat
  en_confirmed_reply :: nat
  en_rng :: rng
  en_aborted :: bool

text \<open>The arguments of the scan, with the library functions and the keys drawn at its start.\<close>

record scan_env =
  se_params :: scan_params
  se_opts :: tcp_build_options
  se_local_ip :: bytes
  se_source_port :: u16
  se_seq_num :: u32
  se_tune :: cong_tune
  se_lib :: libm_env
  se_sport :: sport_range_config
  se_gsport :: gsport_config
  se_rate_config :: rate_config
  se_jitter_config :: jitter_config
  se_bandwidth_config :: bandwidth_config
  se_min_timeout_ms :: int
  se_max_timeout_ms :: int
  se_phase1_deadline :: int
  se_clock_offset :: int
  se_sip_k0 :: u64
  se_sip_k1 :: u64
  se_tsval_offset :: u32

definition use_token :: "scan_env \<Rightarrow> bool" where
  "use_token env \<longleftrightarrow> se_seq_num env = 0"

definition heap_push :: "int \<Rightarrow> u16 \<Rightarrow> engine \<Rightarrow> engine" where
  "heap_push deadline port en =
     en\<lparr>en_heap := \<lparr>he_deadline = deadline, he_port = port, he_is_sentinel = False\<rparr> # en_heap en\<rparr>"

definition set_slot :: "nat \<Rightarrow> slot \<Rightarrow> engine \<Rightarrow> engine" where
  "set_slot i sl en = en\<lparr>en_slots := (en_slots en)[i := sl]\<rparr>"

definition release_pending :: "int \<Rightarrow> engine \<Rightarrow> engine" where
  "release_pending now en = (fold (heap_push now) (en_gate_pending en) en)\<lparr>en_gate_pending := []\<rparr>"

section \<open>The token of a probe\<close>

text \<open>\<open>compute_token\<close>: a round of SipHash is written out three times in the code.\<close>

definition rot64 :: "nat \<Rightarrow> u64 \<Rightarrow> u64" where
  "rot64 n v = or (push_bit n v) (drop_bit (64 - n) v)"

definition sip_half :: "u64 \<times> u64 \<times> u64 \<times> u64 \<Rightarrow> u64 \<times> u64 \<times> u64 \<times> u64" where
  "sip_half v = (let (v0, v1, v2, v3) = v;
     v0 = v0 + v1; v1 = rot64 13 v1; v1 = xor v1 v0; v0 = rot64 32 v0;
     v2 = v2 + v3; v3 = rot64 16 v3; v3 = xor v3 v2
   in (v0, v1, v2, v3))"

definition sip_round :: "u64 \<times> u64 \<times> u64 \<times> u64 \<Rightarrow> u64 \<times> u64 \<times> u64 \<times> u64" where
  "sip_round v = (let (v0, v1, v2, v3) = sip_half v;
     v0 = v0 + v3; v3 = rot64 21 v3; v3 = xor v3 v0;
     v2 = v2 + v1; v1 = rot64 17 v1; v1 = xor v1 v2; v2 = rot64 32 v2
   in (v0, v1, v2, v3))"

definition compute_token :: "u64 \<Rightarrow> u64 \<Rightarrow> u16 \<Rightarrow> u32" where
  "compute_token k0 k1 port =
     (let m = ucast port :: u64;
          v = (xor k0 0x736f6d6570736575, xor k1 0x646f72616e646f6d,
               xor k0 0x6c7967656e657261, xor (xor k1 0x7465646279746573) m);
          (v0, v1, v2, v3) = sip_round v;
          (v0, v1, v2, v3) = sip_round (sip_round (sip_round (xor v0 m, v1, xor v2 0xff, v3)))
      in ucast (and (xor (xor (xor v0 v1) v2) v3) 0xFFFFFFFF))"

section \<open>Closing a port\<close>

text \<open>
  What follows every final state: the port leaves the counters. Only the paths of a reply clear its
  time stamp and its outstanding probe.
\<close>

definition retire :: "bool \<Rightarrow> nat \<Rightarrow> engine \<Rightarrow> engine" where
  "retire clear i en =
     (let sl = en_slots en ! i; p = sl_probe sl;
          sl' = sl\<lparr>sl_final := True, sl_probe := p\<lparr>pb_counted_in_retry := False\<rparr>,
                   sl_tx_ts_us := (if clear then 0 else sl_tx_ts_us sl),
                   sl_outstanding := (if clear then False else sl_outstanding sl)\<rparr>;
          d = (if pb_counted_in_retry p then 1 else 0);
          b = en_budget en
      in set_slot i sl' (en\<lparr>en_active_count := en_active_count en - 1,
           en_ports_in_retry := en_ports_in_retry en - d,
           en_budget := b\<lparr>rb_active_ports := rb_active_ports b - 1, rb_ports_in_retry := rb_ports_in_retry b - d\<rparr>\<rparr>))"

text \<open>The first reply to an attempt is counted.\<close>

definition mark_replied :: "nat \<Rightarrow> engine \<Rightarrow> engine" where
  "mark_replied i en =
     (let sl = en_slots en ! i in
      if sl_replied_this_attempt sl then en
      else set_slot i (sl\<lparr>sl_replied_this_attempt := True\<rparr>) (en\<lparr>en_confirmed_reply := en_confirmed_reply en + 1\<rparr>))"

section \<open>TCP packets\<close>

datatype pkt_type = PKT_TCP | PKT_ICMP | PKT_TCP6 | PKT_ICMPV6

text \<open>\<open>rw_data\<close> is the whole array of a \<open>RawPacket\<close>, of which the first \<open>rw_len\<close> bytes were received.\<close>

record raw_packet =
  rw_type :: pkt_type
  rw_data :: bytes
  rw_len :: nat
  rw_rx_us :: int

definition read_tcphdr :: "bytes \<Rightarrow> nat \<Rightarrow> tcp_hdr option" where
  "read_tcphdr buf off = do {
     sport \<leftarrow> rd16 buf off;
     dport \<leftarrow> rd16 buf (off + 2);
     sq \<leftarrow> rd32 buf (off + 4);
     ak \<leftarrow> rd32 buf (off + 8);
     doff \<leftarrow> rd buf (off + 12);
     fl \<leftarrow> rd buf (off + 13);
     win \<leftarrow> rd16 buf (off + 14);
     Some \<lparr>th_sport = sport, th_dport = dport, th_seq = sq, th_ack = ak, th_off = unat (drop_bit 4 doff),
       th_flags = fl, th_win = win\<rparr>
   }"

text \<open>The gate in front of the table of ports: \<open>Some None\<close> is a packet that is passed over.\<close>

definition tcp_gate :: "scan_env \<Rightarrow> raw_packet \<Rightarrow> (tcp_hdr \<times> nat option) option option" where
  "tcp_gate env rp =
     (let buf = rw_data rp in
      if rw_type rp = PKT_TCP6 then
        (if rw_len rp \<ge> 20
         then do { h \<leftarrow> read_tcphdr buf 0; Some (if th_sport h \<noteq> 0 then Some (h, None) else None) }
         else Some None)
      else do {
        b0 \<leftarrow> rd buf 0;
        let ihl = unat (and b0 15);
        dst \<leftarrow> rd_bytes buf 16 4;
        proto \<leftarrow> rd buf 9;
        if dst = se_local_ip env \<and> ihl * 4 \<ge> 20 \<and> ihl * 4 \<le> rw_len rp \<and> proto = 6 \<and> rw_len rp \<ge> ihl * 4 + 20
        then do {
          src \<leftarrow> rd_bytes buf 12 4;
          if src \<noteq> sp_dest (se_params env) then Some None
          else do { h \<leftarrow> read_tcphdr buf (ihl * 4); Some (if th_sport h \<noteq> 0 then Some (h, Some ihl) else None) }
        }
        else Some None
      })"

definition token_ok :: "scan_env \<Rightarrow> slot \<Rightarrow> tcp_hdr \<Rightarrow> bool" where
  "token_ok env sl h \<longleftrightarrow>
     (let expected = pb_seq (sl_probe sl) + 1 in
      \<not> use_token env \<or>
      (if is_ack h then th_ack h = expected \<or> (pb_fin_sent (sl_probe sl) \<and> th_ack h = expected + 1)
       else is_rst h \<longrightarrow> sl_outstanding sl))"

text \<open>
  The clock readings of one packet: \<open>rd_now\<close> stands in for a missing receive time, \<open>rd_release\<close> is the
  new deadline of parked ports, \<open>rd_tsval\<close> the reading of \<open>generate_tcp_tsval()\<close>.
\<close>

record readings =
  rd_now :: int
  rd_release :: int
  rd_tsval :: u32

text \<open>\<open>lround(rtt_us / 1000.0)\<close>, in whole milliseconds.\<close>

definition rtt_ms_of :: "int \<Rightarrow> int" where
  "rtt_ms_of rtt_us = max 1 ((rtt_us + 500) div 1000)"

text \<open>The sample of a reply: only a time stamp of the kernel counts, and only once for a port.\<close>

definition rtt_sample :: "scan_env \<Rightarrow> readings \<Rightarrow> tcp_hdr \<Rightarrow> int \<Rightarrow> slot \<Rightarrow> int option" where
  "rtt_sample env now h rx_us sl =
     (let rx_time = (if rx_us > 0 then rx_us * 1000 + se_clock_offset env else rd_now now);
          rtt_us = (rx_time - int (sl_tx_ts_us sl) * 1000) sdiv 1000
      in if \<not> sl_rtt_measured sl \<and> (is_syn h \<or> is_ack h \<or> is_rst h) \<and> sl_tx_ts_precise sl \<and>
            sl_tx_ts_us sl \<noteq> 0 \<and> 0 < rtt_us \<and> rtt_us < 30000000
         then Some (rtt_ms_of rtt_us) else None)"

definition measured_slot :: "slot \<Rightarrow> slot" where
  "measured_slot sl = sl\<lparr>sl_probe := (sl_probe sl)\<lparr>pb_rtt_measured := True\<rparr>, sl_rtt_measured := True\<rparr>"

definition measure_rtt :: "scan_env \<Rightarrow> readings \<Rightarrow> tcp_hdr \<Rightarrow> int \<Rightarrow> nat \<Rightarrow> engine \<Rightarrow> engine" where
  "measure_rtt env now h rx_us i en =
     (case rtt_sample env now h rx_us (en_slots en ! i) of
        None \<Rightarrow> en
      | Some ms \<Rightarrow>
          (let was_measured = rt_has_measurement (en_tracker en);
               en = set_slot i (measured_slot (en_slots en ! i)) (en\<lparr>en_tracker := rtt_update ms (en_tracker en)\<rparr>)
           in if \<not> was_measured \<and> en_gate_pending en \<noteq> [] then release_pending (rd_release now) en else en))"

definition classify :: "scan_env \<Rightarrow> readings \<Rightarrow> tcp_hdr \<Rightarrow> nat \<Rightarrow> nat option \<Rightarrow> nat \<Rightarrow> engine \<Rightarrow> engine" where
  "classify env now h nbytes ihl i en =
     (let sl = en_slots en ! i;
          r = \<lparr>ry_state = sl_probe sl, ry_queue = en_queue en, ry_result = en_result en, ry_lines = en_lines en\<rparr>;
          (resolved, r) = process_response (se_params env) (th_sport h) h nbytes ihl (rd_tsval now) r;
          en = set_slot i (sl\<lparr>sl_probe := ry_state r\<rparr>)
                 (en\<lparr>en_queue := ry_queue r, en_result := ry_result r, en_lines := ry_lines r\<rparr>)
      in if resolved \<and> pb_final_state_determined (ry_state r) \<and> \<not> sl_final sl then retire True i en else en)"

definition on_segment :: "scan_env \<Rightarrow> readings \<Rightarrow> raw_packet \<Rightarrow> tcp_hdr \<Rightarrow> nat option \<Rightarrow> engine \<Rightarrow> engine" where
  "on_segment env now rp h ihl en =
     (case en_index en (th_sport h) of
        None \<Rightarrow> en
      | Some i \<Rightarrow>
          if \<not> accepts_src_port (th_dport h) (sl_probe (en_slots en ! i)) \<or> \<not> token_ok env (en_slots en ! i) h then en
          else
            (let en = mark_replied i en
             in if sl_final (en_slots en ! i) then en
                else classify env now h (rw_len rp) ihl i (measure_rtt env now h (rw_rx_us rp) i en)))"

definition on_tcp :: "scan_env \<Rightarrow> readings \<Rightarrow> raw_packet \<Rightarrow> engine \<Rightarrow> engine option" where
  "on_tcp env now rp en = do {
     g \<leftarrow> tcp_gate env rp;
     Some (case g of None \<Rightarrow> en | Some (h, ihl) \<Rightarrow> on_segment env now rp h ihl en)
   }"

section \<open>ICMP messages\<close>

text \<open>What a message asks for: nothing, the end of the scan, a warning or a blocked port.\<close>

datatype icmp_action = IcmpSkip | IcmpFatal | IcmpWarn icmp_filter_reason bytes
  | IcmpBlocked icmp_filter_reason bytes u16 u16 u32

text \<open>The embedded packet of an IPv4 message, \<open>hl\<close> being the length of the outer header.\<close>

definition icmp4_inner :: "scan_env \<Rightarrow> raw_packet \<Rightarrow> u8 \<Rightarrow> bytes \<Rightarrow> nat \<Rightarrow> icmp_action option" where
  "icmp4_inner env rp code replier hl =
     (let buf = rw_data rp; inner_off = hl + 8 in
      if rw_len rp < inner_off + 20 + 8 then Some IcmpSkip
      else do {
        b0 \<leftarrow> rd buf inner_off;
        let inner_hl = unat (and b0 15) * 4;
        if rw_len rp < inner_off + inner_hl + 8 then Some IcmpSkip
        else do {
          dst \<leftarrow> rd_bytes buf (inner_off + 16) 4;
          if dst \<noteq> sp_dest (se_params env) then Some IcmpSkip
          else do {
            src_port \<leftarrow> rd16 buf (inner_off + inner_hl);
            blocked \<leftarrow> rd16 buf (inner_off + inner_hl + 2);
            sq \<leftarrow> rd32 buf (inner_off + inner_hl + 4);
            Some (IcmpBlocked (if code = 9 then NET_ADMIN_PROHIBITED
                               else if code = 10 then HOST_ADMIN_PROHIBITED
                               else if code = 13 then COMM_ADMIN_PROHIBITED else REASON_NONE)
                    replier src_port blocked sq)
          }
        }
      })"

definition icmp4_action :: "scan_env \<Rightarrow> raw_packet \<Rightarrow> icmp_action option" where
  "icmp4_action env rp =
     (let buf = rw_data rp in
      if rw_len rp < 20 then Some IcmpSkip
      else do {
        b0 \<leftarrow> rd buf 0;
        let hl = unat (and b0 15) * 4;
        if hl < 20 \<or> rw_len rp < hl + 8 then Some IcmpSkip
        else do {
          ty \<leftarrow> rd buf hl;
          code \<leftarrow> rd buf (hl + 1);
          replier \<leftarrow> rd_bytes buf 12 4;
          if ty = 1 \<and> code = 0 then Some IcmpFatal
          else if ty = 11 \<and> (code = 0 \<or> code = 1)
          then Some (IcmpWarn (if code = 0 then TTL_EXPIRED else FRAG_REASSEMBLY_TIMEOUT) replier)
          else if ty = 40 \<and> code = 0 then Some (IcmpWarn BAD_SPI replier)
          else if ty \<noteq> 3 then Some IcmpSkip
          else if code \<in> {2, 5, 6, 7, 8, 14} then Some IcmpFatal
          else if code = 4 then Some (IcmpWarn FRAG_NEEDED replier)
          else if code \<noteq> 9 \<and> code \<noteq> 10 \<and> code \<noteq> 13 then Some IcmpSkip
          else icmp4_inner env rp code replier hl
        }
      })"

text \<open>For IPv6 the sender of the message is not known: \<open>i6_replier\<close> stays zero.\<close>

definition icmp6_action :: "scan_env \<Rightarrow> raw_packet \<Rightarrow> icmp_action option" where
  "icmp6_action env rp =
     (let buf = rw_data rp; replier = replicate 4 0 in
      if rw_len rp < 8 then Some IcmpSkip
      else do {
        ty \<leftarrow> rd buf 0;
        code \<leftarrow> rd buf 1;
        if ty = 1 \<and> code = 0 then Some IcmpFatal
        else if ty = 2 then Some (IcmpWarn FRAG_NEEDED replier)
        else if ty = 3 \<and> (code = 0 \<or> code = 1)
        then Some (IcmpWarn (if code = 0 then TTL_EXPIRED else FRAG_REASSEMBLY_TIMEOUT) replier)
        else if ty \<noteq> 1 \<or> (code \<noteq> 1 \<and> code \<noteq> 5 \<and> code \<noteq> 6) \<or> \<not> sp_target_is_ipv6 (se_params env) \<or>
                rw_len rp < 8 + 40 + 8
        then Some IcmpSkip
        else do {
          nxt \<leftarrow> rd buf (8 + 6);
          dst \<leftarrow> rd_bytes buf (8 + 24) 16;
          if nxt \<noteq> 6 \<or> dst \<noteq> sp_dest6 (se_params env) then Some IcmpSkip
          else do {
            src_port \<leftarrow> rd16 buf 48;
            blocked \<leftarrow> rd16 buf 50;
            sq \<leftarrow> rd32 buf 52;
            Some (IcmpBlocked (if code = 1 then COMM_ADMIN_PROHIBITED
                               else if code = 5 then HOST_ADMIN_PROHIBITED
                               else if code = 6 then NET_ADMIN_PROHIBITED else REASON_NONE)
                    replier src_port blocked sq)
          }
        }
      })"

text \<open>Both handlers end alike: a port whose retries are used up is reported filtered.\<close>

definition block_port ::
    "scan_env \<Rightarrow> icmp_filter_reason \<Rightarrow> bytes \<Rightarrow> u16 \<Rightarrow> u16 \<Rightarrow> u32 \<Rightarrow> engine \<Rightarrow> engine" where
  "block_port env reason replier src_port port sq en =
     (if port = 0 then en
      else case en_index en port of
        None \<Rightarrow> en
      | Some i \<Rightarrow>
          (let sl = en_slots en ! i; s = sl_probe sl in
           if \<not> accepts_src_port src_port s \<or> (use_token env \<and> sq \<noteq> pb_seq s) \<or> sl_final sl \<or>
              \<not> should_mark_filtered (pb_retry_count s) (pb_retries_cap s) \<or>
              pb_reported_state s \<noteq> REPORTED_NONE
           then en
           else
             (let en = mark_replied i en; sl = en_slots en ! i; res = en_result en;
                  en = en\<lparr>en_result := res\<lparr>rp_filtered_ports := rp_filtered_ports res @ [port],
                    rp_icmp_filter_reasons := (rp_icmp_filter_reasons res)(port \<mapsto> (reason, replier))\<rparr>\<rparr>;
                  en = set_slot i (sl\<lparr>sl_probe := s\<lparr>pb_reported_state := REPORTED_FILTERED,
                    pb_final_state_determined := True\<rparr>\<rparr>) en
              in retire True i en)))"

definition apply_icmp :: "scan_env \<Rightarrow> icmp_action \<Rightarrow> engine \<Rightarrow> engine" where
  "apply_icmp env act en =
     (case act of
        IcmpSkip \<Rightarrow> en
      | IcmpFatal \<Rightarrow> en\<lparr>en_aborted := True\<rparr>
      | IcmpWarn reason replier \<Rightarrow>
          en\<lparr>en_result := (en_result en)\<lparr>rp_icmp_warnings := rp_icmp_warnings (en_result en) @ [(reason, replier)]\<rparr>\<rparr>
      | IcmpBlocked reason replier src_port port sq \<Rightarrow> block_port env reason replier src_port port sq en)"

definition on_icmp :: "scan_env \<Rightarrow> raw_packet \<Rightarrow> engine \<Rightarrow> engine option" where
  "on_icmp env rp en = do {
     act \<leftarrow> (if rw_type rp = PKT_ICMPV6 then icmp6_action env rp else icmp4_action env rp);
     Some (apply_icmp env act en)
   }"

section \<open>The sender and its time stamps\<close>

text \<open>
  \<open>on_pre_submit\<close> for one port of a batch: \<open>ts\<close> is the reading of the clock. A probe that is to be time
  stamped gets the next id of its IP version.
\<close>

definition pre_submit :: "int \<Rightarrow> bool \<Rightarrow> bool \<Rightarrow> u16 \<Rightarrow> engine \<Rightarrow> engine" where
  "pre_submit ts is_ipv6 precise port en =
     (case en_index en port of
        None \<Rightarrow> en
      | Some i \<Rightarrow>
          (let sl = en_slots en ! i;
               en = set_slot i (sl\<lparr>sl_outstanding := True, sl_real_tx_ts_us := nat (ts div 1000),
                      sl_probe := (sl_probe sl)\<lparr>pb_syn_sent_time := ts\<rparr>\<rparr>)
                    (en\<lparr>en_confirmed_tx := en_confirmed_tx en + 1\<rparr>)
           in if precise
              then (let sq = en_tx_seq en is_ipv6 in
                en\<lparr>en_tx_seq := (en_tx_seq en)(is_ipv6 := sq + 1),
                   en_tx_ids := (en_tx_ids en)(is_ipv6 := (en_tx_ids en is_ipv6)(sq \<mapsto> (i, sl_generation sl)))\<rparr>)
              else en))"

text \<open>One message of the error queue: the time stamp of the probe with id \<open>sq\<close>, in microseconds.\<close>

definition tx_stamp :: "bool \<Rightarrow> u32 \<Rightarrow> nat \<Rightarrow> engine \<Rightarrow> engine" where
  "tx_stamp is_ipv6 sq ts_us en =
     (case en_tx_ids en is_ipv6 sq of
        None \<Rightarrow> en
      | Some (i, gen) \<Rightarrow>
          (let en = en\<lparr>en_tx_ids := (en_tx_ids en)(is_ipv6 := (en_tx_ids en is_ipv6)(sq := None))\<rparr>
           in if i \<ge> length (en_slots en) \<or> sl_generation (en_slots en ! i) \<noteq> gen then en
              else set_slot i ((en_slots en ! i)\<lparr>sl_tx_ts_us := ts_us, sl_tx_ts_precise := True\<rparr>) en))"

section \<open>Deadlines\<close>

definition no_retry_scan_types :: "scan_type list" where
  "no_retry_scan_types = [FIN, NULL_SCAN, XMAS, CWR, URG, PSH, HANUMAN]"

definition skip_retries :: "scan_env \<Rightarrow> bool" where
  "skip_retries env \<longleftrightarrow> List.member no_retry_scan_types (sp_scan_type (se_params env))"

text \<open>
  The readings of one expired entry: \<open>ex_now\<close> is taken once for all that have expired, \<open>ex_clock\<close> when
  a rate window is opened anew.
\<close>

record expiry =
  ex_now :: int
  ex_clock :: int
  ex_tsval :: u32

definition probe_task :: "scan_env \<Rightarrow> u16 \<Rightarrow> probe \<Rightarrow> packet_task" where
  "probe_task env port s =
     make_task (se_params env) port (pb_src_port s) (pb_seq s) 0
       (flags_for_scan_type (sp_scan_type (se_params env))) (pb_sent_tsval s)"

definition retry_timeout_ms :: "scan_env \<Rightarrow> engine \<Rightarrow> nat \<Rightarrow> int" where
  "retry_timeout_ms env en retry_count =
     clamp_timeout (se_min_timeout_ms env) (se_max_timeout_ms env)
       (timeout_for_retry (se_tune env) (en_tracker en) retry_count)"

definition send_initial :: "scan_env \<Rightarrow> expiry \<Rightarrow> nat \<Rightarrow> u16 \<Rightarrow> engine \<Rightarrow> engine" where
  "send_initial env x i port en =
     (let sl = en_slots en ! i;
          s = (sl_probe sl)\<lparr>pb_initial_send_deferred := False,
                pb_sent_tsval := ex_tsval x + pb_tsval_offset (sl_probe sl), pb_syn_sent_time := ex_now x\<rparr>;
          en = set_slot i (sl\<lparr>sl_probe := s\<rparr>) (en\<lparr>en_queue := en_queue en @ [probe_task env port s]\<rparr>)
      in heap_push (ex_now x + pb_timeout_ms s * 1000000) port en)"

definition send_retry :: "scan_env \<Rightarrow> expiry \<Rightarrow> nat \<Rightarrow> u16 \<Rightarrow> engine \<Rightarrow> engine" where
  "send_retry env x i port en =
     (let sl = en_slots en ! i;
          s = (sl_probe sl)\<lparr>pb_retry_send_deferred := False,
                pb_sent_tsval := ex_tsval x + pb_tsval_offset (sl_probe sl), pb_syn_sent_time := ex_now x\<rparr>;
          sl' = sl\<lparr>sl_probe := s, sl_tx_ts_us := 0, sl_tx_ts_precise := False, sl_real_tx_ts_us := 0,
                   sl_replied_this_attempt := False, sl_outstanding := False,
                   sl_generation := sl_generation sl + 1\<rparr>;
          en = set_slot i sl' (en\<lparr>en_queue := en_queue en @ [probe_task env port s]\<rparr>);
          rs = en_rate en;
          en = (if rc_enabled (se_rate_config env)
                then en\<lparr>en_rate := rs\<lparr>rs_window_sent := rs_window_sent rs + 1\<rparr>\<rparr> else en)
      in heap_push (ex_now x + retry_timeout_ms env en (pb_retry_count s) * 1000000) port en)"

text \<open>
  The checks before a retry. \<open>Inl\<close> is a port that waits for a later deadline (or parked until the first
  round trip is known), \<open>Inr\<close> one that may retry now.
\<close>

definition check_sent :: "scan_env \<Rightarrow> expiry \<Rightarrow> nat \<Rightarrow> u16 \<Rightarrow> engine \<Rightarrow> engine + engine" where
  "check_sent env x i port en =
     (let sl = en_slots en ! i; real_us = sl_real_tx_ts_us sl;
          deadline = int real_us * 1000 + retry_timeout_ms env en (pb_retry_count (sl_probe sl)) * 1000000
      in if real_us = 0 then Inl (heap_push (ex_now x + 5000000) port en)
         else if deadline > ex_now x then Inl (heap_push deadline port en)
         else Inr en)"

definition park :: "scan_env \<Rightarrow> u16 \<Rightarrow> engine \<Rightarrow> engine" where
  "park env port en =
     (let en = (if en_sentinel_armed en then en
                else en\<lparr>en_sentinel_armed := True,
                  en_heap := \<lparr>he_deadline = se_phase1_deadline env, he_port = 0, he_is_sentinel = True\<rparr> # en_heap en\<rparr>)
      in en\<lparr>en_gate_pending := en_gate_pending en @ [port]\<rparr>)"

definition check_phase1 :: "scan_env \<Rightarrow> expiry \<Rightarrow> nat \<Rightarrow> u16 \<Rightarrow> engine \<Rightarrow> engine + engine" where
  "check_phase1 env x i port en =
     (if pb_retry_count (sl_probe (en_slots en ! i)) = 0 \<and> \<not> rt_has_measurement (en_tracker en) \<and>
         ex_now x < se_phase1_deadline env
      then Inl (park env port en)
      else Inr en)"

definition check_rate :: "scan_env \<Rightarrow> expiry \<Rightarrow> u16 \<Rightarrow> engine \<Rightarrow> engine + engine" where
  "check_rate env x port en =
     (let cfg = se_rate_config env; rs = en_rate en in
      if rc_enabled cfg \<and> rs_window_sent rs \<ge> rs_window_target rs
      then
        (let window_end = rs_window_start rs + int (rc_window_us cfg) * 1000
         in if window_end > ex_now x then Inl (heap_push window_end port en)
            else
              (let (rs, r) = rate_reset_window (se_tune env) (se_lib env) cfg (en_budget en) (ex_clock x) (rs, en_rng en)
               in Inr (en\<lparr>en_rate := rs, en_rng := r\<rparr>)))
      else Inr en)"

definition check_bandwidth :: "scan_env \<Rightarrow> expiry \<Rightarrow> u16 \<Rightarrow> engine \<Rightarrow> engine + engine" where
  "check_bandwidth env x port en =
     (let cfg = se_bandwidth_config env; bs = en_bandwidth en in
      if bw_enabled cfg
      then
        (let used = max (bs_reserved_bytes bs) (bs_actual_bytes_sent bs);
             est = estimate_packet_wire_bytes (se_opts env) (sp_timestamp_val (se_params env))
               (sp_scan_type (se_params env))
         in if used + est > bs_window_target_bytes bs
            then
              (let window_end = bs_window_start bs + int (bw_window_us cfg) * 1000
               in if window_end > ex_now x then Inl (heap_push window_end port en)
                  else
                    (let (target, r) = bandwidth_target (se_lib env) cfg (en_rng en)
                     in Inr (en\<lparr>en_rng := r, en_bandwidth := bs\<lparr>bs_reserved_bytes := est,
                          bs_actual_bytes_sent := 0, bs_window_target_bytes := target,
                          bs_window_start := ex_now x\<rparr>\<rparr>)))
            else Inr (en\<lparr>en_bandwidth := bs\<lparr>bs_reserved_bytes := used + est\<rparr>\<rparr>))
      else Inr en)"

text \<open>The source port of a retry: its stage's range or port, or an ephemeral one.\<close>

definition retry_src_port :: "scan_env \<Rightarrow> nat \<Rightarrow> probe \<Rightarrow> rng \<Rightarrow> (u16 \<times> rng) option" where
  "retry_src_port env n s r =
     (if n < 6 \<and> stage_is_range (se_sport env) ! n
      then pick_unique_ephemeral_port r (stage_min (se_sport env) ! n) (stage_max (se_sport env) ! n) s
      else if n < 6 \<and> stage_is_set (se_gsport env) ! n then Some (stage_port (se_gsport env) ! n, r)
      else pick_unique_ephemeral_port r 32768 60999 s)"

text \<open>The pause before the retry is sent, from the share of ports in retry.\<close>

definition filtered_ratio :: "retry_budget \<Rightarrow> rat" where
  "filtered_ratio b =
     min (round64 (of_int (rb_ports_in_retry b) / of_int (if rb_active_ports b > 0 then rb_active_ports b else 1))) 1"

definition retry_delay_us :: "scan_env \<Rightarrow> engine \<Rightarrow> nat \<Rightarrow> rat \<Rightarrow> nat" where
  "retry_delay_us env en n ratio =
     (let tune = se_tune env;
          timeout_us = nat ((timeout_for_retry tune (en_tracker en) n mod 2 ^ 64) * 1000 mod 2 ^ 64);
          rtt_floor_us = timeout_us div max 1 (ct_rtt_floor_div tune);
          min_delay_us = min (max (ct_retry_delay_min_us tune) rtt_floor_us) (ct_retry_delay_max_us tune);
          curved = lib_pow (se_lib env) ratio (ct_curve_exp tune)
      in min_delay_us + nat \<lfloor>round64 (curved * of_nat (ct_retry_delay_max_us tune - min_delay_us))\<rfloor>)"

text \<open>
  The retry itself, up to the point where it is put off: the attempt is counted, a new source port
  chosen, the congestion ratio updated and the time of sending set.
\<close>

definition begin_retry :: "scan_env \<Rightarrow> expiry \<Rightarrow> engine \<Rightarrow> probe \<Rightarrow> probe" where
  "begin_retry env x en s =
     (let n = pb_retry_count s + 1
      in s\<lparr>pb_retry_count := n, pb_syn_sent_time := ex_now x,
           pb_sent_tsval := ex_tsval x + pb_tsval_offset s,
           pb_retries_cap := (if n = 1 then rb_dynamic_max_retries (en_budget en) else pb_retries_cap s)\<rparr>)"

definition enter_retry :: "nat \<Rightarrow> engine \<Rightarrow> engine" where
  "enter_retry n en =
     (let b = en_budget en in
      if n = 1 then en\<lparr>en_ports_in_retry := en_ports_in_retry en + 1,
        en_budget := b\<lparr>rb_ports_in_retry := rb_ports_in_retry b + 1\<rparr>\<rparr>
      else en)"

definition schedule_retry :: "scan_env \<Rightarrow> expiry \<Rightarrow> nat \<Rightarrow> u16 \<Rightarrow> engine \<Rightarrow> engine" where
  "schedule_retry env x n port en =
     (let ratio = filtered_ratio (en_budget en);
          en = en\<lparr>en_budget := update_congestion (se_tune env) (se_lib env) ratio (en_budget en)\<rparr>;
          delay_us = retry_delay_us env en n ratio;
          next_dispatch = (if en_ports_in_retry en \<le> 20 then min (en_next_retry_dispatch en) (ex_now x + 20000000)
                  else en_next_retry_dispatch en);
          desired = ex_now x + int delay_us * 1000;
          staggered = max next_dispatch desired;
          cap = ex_now x + int (ct_retry_delay_max_us (se_tune env)) * 1000;
          dispatch = min staggered cap
      in heap_push dispatch port (en\<lparr>en_next_retry_dispatch := dispatch\<rparr>))"

definition do_retry :: "scan_env \<Rightarrow> expiry \<Rightarrow> nat \<Rightarrow> u16 \<Rightarrow> engine \<Rightarrow> engine option" where
  "do_retry env x i port en =
     (let sl = en_slots en ! i;
          s = begin_retry env x en (sl_probe sl);
          n = pb_retry_count s
      in do {
        (p, r) \<leftarrow> retry_src_port env n s (en_rng en);
        let s = record_src_port p n (s\<lparr>pb_src_port := p\<rparr>);
        let s = s\<lparr>pb_counted_in_retry := (if n = 1 then True else pb_counted_in_retry s),
                 pb_retry_send_deferred := True\<rparr>;
        Some (schedule_retry env x n port
          (enter_retry n (set_slot i (sl\<lparr>sl_probe := s\<rparr>) (en\<lparr>en_rng := r\<rparr>))))
      })"

text \<open>No retry is left: the port is filtered unless a reply was reported.\<close>

definition give_up :: "nat \<Rightarrow> u16 \<Rightarrow> engine \<Rightarrow> engine" where
  "give_up i port en =
     (let sl = en_slots en ! i; s = sl_probe sl; fresh = (pb_reported_state s = REPORTED_NONE);
          res = en_result en;
          en = (if fresh then en\<lparr>en_result := res\<lparr>rp_filtered_ports := rp_filtered_ports res @ [port]\<rparr>\<rparr> else en);
          s = s\<lparr>pb_reported_state := (if fresh then REPORTED_FILTERED else pb_reported_state s),
                pb_final_state_determined := True\<rparr>
      in retire False i (set_slot i (sl\<lparr>sl_probe := s\<rparr>) en))"

definition retry_or_wait :: "scan_env \<Rightarrow> expiry \<Rightarrow> nat \<Rightarrow> u16 \<Rightarrow> engine \<Rightarrow> engine option" where
  "retry_or_wait env x i port en =
     (case check_sent env x i port en of Inl en \<Rightarrow> Some en
      | Inr en \<Rightarrow> (case check_phase1 env x i port en of Inl en \<Rightarrow> Some en
      | Inr en \<Rightarrow> (case check_rate env x port en of Inl en \<Rightarrow> Some en
      | Inr en \<Rightarrow> (case check_bandwidth env x port en of Inl en \<Rightarrow> Some en
      | Inr en \<Rightarrow> do_retry env x i port en))))"

text \<open>One entry that was popped from the heap.\<close>

definition fire :: "scan_env \<Rightarrow> expiry \<Rightarrow> heap_entry \<Rightarrow> engine \<Rightarrow> engine option" where
  "fire env x e en =
     (if he_is_sentinel e then Some (release_pending (ex_now x) en)
      else case en_index en (he_port e) of
        None \<Rightarrow> Some en
      | Some i \<Rightarrow>
          (let s = sl_probe (en_slots en ! i) in
           if sl_final (en_slots en ! i) \<or> pb_connection_established s then Some en
           else if pb_initial_send_deferred s then Some (send_initial env x i (he_port e) en)
           else if pb_retry_send_deferred s then Some (send_retry env x i (he_port e) en)
           else if \<not> skip_retries env \<and> \<not> should_mark_filtered (pb_retry_count s) (pb_retries_cap s)
           then retry_or_wait env x i (he_port e) en
           else Some (give_up i (he_port e) en)))"

definition pop_and_fire :: "scan_env \<Rightarrow> expiry \<Rightarrow> heap_entry \<Rightarrow> engine \<Rightarrow> engine option" where
  "pop_and_fire env x e en = fire env x e (en\<lparr>en_heap := remove1 e (en_heap en)\<rparr>)"

section \<open>The start of a scan\<close>

text \<open>
  The loop over the ports (lines 3102 to 3220): every valid port gets a slot and a first deadline,
  spread out by \<open>--rate\<close>, \<open>--bandwidth\<close> and \<open>--scan-jitter\<close>. \<open>start_state\<close> carries \<open>virtual_now\<close>; the
  readings of a port are \<open>ex_now\<close>, \<open>ex_clock\<close> and \<open>ex_tsval\<close>.
\<close>

definition start_rate :: "scan_env \<Rightarrow> expiry \<Rightarrow> int \<Rightarrow> engine \<Rightarrow> int \<times> engine" where
  "start_rate env x virtual_now en =
     (let cfg = se_rate_config env; rs = en_rate en in
      if rc_enabled cfg \<and> rs_window_sent rs \<ge> rs_window_target rs
      then
        (let window_end = rs_window_start rs + int (rc_window_us cfg) * 1000;
             virtual_now = max virtual_now window_end;
             (rs, r) = rate_reset_window (se_tune env) (se_lib env) cfg (en_budget en) (ex_clock x) (rs, en_rng en)
         in (virtual_now, en\<lparr>en_rate := rs\<lparr>rs_window_start := virtual_now\<rparr>, en_rng := r\<rparr>))
      else (virtual_now, en))"

definition start_bandwidth :: "scan_env \<Rightarrow> int \<Rightarrow> engine \<Rightarrow> int \<times> engine" where
  "start_bandwidth env virtual_now en =
     (let cfg = se_bandwidth_config env in
      if \<not> bw_enabled cfg then (virtual_now, en)
      else
        (let bs = en_bandwidth en;
             (bs, r) = (if bs_initialized bs then (bs, en_rng en)
                else (let (target, r) = bandwidth_target (se_lib env) cfg (en_rng en)
                  in (bs\<lparr>bs_window_target_bytes := target, bs_initialized := True\<rparr>, r)));
             used = max (bs_reserved_bytes bs) (bs_actual_bytes_sent bs);
             est = estimate_packet_wire_bytes (se_opts env) (sp_timestamp_val (se_params env))
               (sp_scan_type (se_params env))
         in if used + est > bs_window_target_bytes bs
            then
              (let window_end = bs_window_start bs + int (bw_window_us cfg) * 1000;
                   virtual_now = max virtual_now window_end;
                   (target, r) = bandwidth_target (se_lib env) cfg r
               in (virtual_now, en\<lparr>en_rng := r, en_bandwidth := bs\<lparr>bs_reserved_bytes := est,
                     bs_actual_bytes_sent := 0, bs_window_start := virtual_now,
                     bs_window_target_bytes := target\<rparr>\<rparr>))
            else (virtual_now, en\<lparr>en_rng := r, en_bandwidth := bs\<lparr>bs_reserved_bytes := used + est\<rparr>\<rparr>)))"

definition start_src_port :: "scan_env \<Rightarrow> rng \<Rightarrow> (u16 \<times> rng) option" where
  "start_src_port env r =
     (if stage_is_range (se_sport env) ! 0
      then fast_uniform_port r (stage_min (se_sport env) ! 0) (stage_max (se_sport env) ! 0)
      else if stage_is_set (se_gsport env) ! 0 then Some (stage_port (se_gsport env) ! 0, r)
      else if se_source_port env > 0 then Some (se_source_port env, r)
      else fast_uniform_port r 32768 60999)"

definition start_slot :: "scan_env \<Rightarrow> expiry \<Rightarrow> u16 \<Rightarrow> u16 \<Rightarrow> engine \<Rightarrow> slot" where
  "start_slot env x port src_port en =
     \<lparr>sl_probe = record_src_port src_port 0
        \<lparr>pb_src_port = src_port,
         pb_seq = (if use_token env then compute_token (se_sip_k0 env) (se_sip_k1 env) port else se_seq_num env),
         pb_ack_seq = 0, pb_connection_established = False, pb_fin_sent = False, pb_fin_ack_received = False,
         pb_retry_count = 0, pb_timeout_ms = retry_timeout_ms env en 0,
         pb_retries_cap = ct_min_retries (se_tune env), pb_rtt_measured = False, pb_syn_sent_time = ex_now x,
         pb_sent_tsval = ex_tsval x + se_tsval_offset env, pb_tsval_offset = se_tsval_offset env,
         pb_final_state_determined = False, pb_reported_state = REPORTED_NONE, pb_used_src_ports = [],
         pb_retry_send_deferred = False, pb_initial_send_deferred = True, pb_counted_in_retry = False\<rparr>,
      sl_final = False, sl_rtt_measured = False, sl_tx_ts_us = 0, sl_tx_ts_precise = False,
      sl_real_tx_ts_us = 0, sl_replied_this_attempt = False, sl_generation = 0, sl_outstanding = False\<rparr>"

definition start_jitter :: "scan_env \<Rightarrow> int \<Rightarrow> engine \<Rightarrow> int \<times> engine" where
  "start_jitter env virtual_now en =
     (let cfg = se_jitter_config env; r = en_rng en in
      if \<not> jc_enabled cfg then (virtual_now, en)
      else if jc_random_mode cfg
      then (virtual_now + int (900 + unat (r 0) mod 6101) * 1000, en\<lparr>en_rng := rng_skip 1 r\<rparr>)
      else (virtual_now + int (jc_delay_us cfg) * 1000, en))"

definition enter_port :: "scan_env \<Rightarrow> expiry \<Rightarrow> u16 \<Rightarrow> u16 \<Rightarrow> engine \<Rightarrow> engine" where
  "enter_port env x p src_port en =
     en\<lparr>en_index := (en_index en)(p \<mapsto> length (en_slots en)), en_ports := en_ports en @ [p],
        en_slots := en_slots en @ [start_slot env x p src_port en]\<rparr>"

definition first_deadline :: "scan_env \<Rightarrow> expiry \<Rightarrow> u16 \<Rightarrow> int \<Rightarrow> engine \<Rightarrow> int \<times> engine" where
  "first_deadline env x p virtual_now en =
     (let (virtual_now, en) = start_jitter env virtual_now en;
          en = heap_push (max virtual_now (ex_now x)) p en;
          rs = en_rate en
      in (virtual_now, if rc_enabled (se_rate_config env)
            then en\<lparr>en_rate := rs\<lparr>rs_window_sent := rs_window_sent rs + 1\<rparr>\<rparr> else en))"

definition start_port :: "scan_env \<Rightarrow> expiry \<Rightarrow> int \<Rightarrow> int \<times> engine \<Rightarrow> (int \<times> engine) option" where
  "start_port env x port st =
     (if port \<le> 0 \<or> port > 65535 then Some st
      else
        (let (virtual_now, en) = st;
             (virtual_now, en) = start_rate env x virtual_now en;
             (virtual_now, en) = start_bandwidth env virtual_now en;
             p = word_of_int port
         in do {
           (src_port, r) \<leftarrow> start_src_port env (en_rng en);
           Some (first_deadline env x p virtual_now (enter_port env x p src_port (en\<lparr>en_rng := r\<rparr>)))
         }))"

fun start_ports :: "scan_env \<Rightarrow> (int \<times> expiry) list \<Rightarrow> int \<times> engine \<Rightarrow> (int \<times> engine) option" where
  "start_ports env [] st = Some st"
| "start_ports env ((port, x) # ports) st = do { st \<leftarrow> start_port env x port st; start_ports env ports st }"

text \<open>
  The state before the loop. The tracker, the budget, the limiters and the random engine belong to the
  target and are handed on from batch to batch; the counters of time stamp ids are global.
\<close>

definition batch_state ::
    "retry_budget \<Rightarrow> rtt_tracker \<Rightarrow> rate_limiter \<Rightarrow> bandwidth_limiter \<Rightarrow> rng \<Rightarrow> (bool \<Rightarrow> u32) \<Rightarrow> int \<Rightarrow> engine" where
  "batch_state budget tracker rs bs r ids now =
     \<lparr>en_ports = [], en_index = (\<lambda>_. None), en_slots = [], en_active_count = 0, en_ports_in_retry = 0,
      en_budget = budget, en_tracker = tracker, en_heap = [], en_next_retry_dispatch = now,
      en_gate_pending = [], en_sentinel_armed = False, en_tx_ids = (\<lambda>_ _. None), en_tx_seq = ids,
      en_rate = rs, en_bandwidth = bs, en_result = rec_pross_empty, en_lines = [], en_queue = [],
      en_confirmed_tx = 0, en_confirmed_reply = 0, en_rng = r, en_aborted = False\<rparr>"

text \<open>
  \<open>active_count(active_ports.size())\<close> and its share of the budget; a rate window that was not opened
  before is opened first.
\<close>

definition start_batch :: "scan_env \<Rightarrow> expiry \<Rightarrow> int \<Rightarrow> (int \<times> expiry) list \<Rightarrow> engine \<Rightarrow> engine option" where
  "start_batch env x virtual_now ports en =
     (let rs = en_rate en;
          en = (if rc_enabled (se_rate_config env) \<and> \<not> rs_initialized rs
                then (let (rs, r) = rate_reset_window (se_tune env) (se_lib env) (se_rate_config env)
                        (en_budget en) (ex_clock x) (rs, en_rng en)
                  in en\<lparr>en_rate := rs\<lparr>rs_initialized := True\<rparr>, en_rng := r\<rparr>)
                else en)
      in do {
        (_, en) \<leftarrow> start_ports env ports (virtual_now, en);
        let n = int (length (en_ports en));
        let b = en_budget en;
        Some (en\<lparr>en_active_count := n, en_budget := b\<lparr>rb_active_ports := rb_active_ports b + n\<rparr>\<rparr>)
      })"

section \<open>Steps\<close>

text \<open>
  The loop of \<open>receive_response\<close> with the sender thread beside it: packets of the target's queue are
  handled one by one, expired entries are popped in the order of their deadlines, and at any time the
  sender hands probes to the kernel and time stamps come in. The relation is over the clock and the
  state; the loop ends when no port is active or a fatal ICMP message was received.
\<close>

definition running :: "engine \<Rightarrow> bool" where
  "running en \<longleftrightarrow> en_active_count en > 0 \<and> \<not> en_aborted en"

definition is_top :: "heap_entry \<Rightarrow> heap_entry list \<Rightarrow> bool" where
  "is_top e es \<longleftrightarrow> e \<in> set es \<and> list_all (\<lambda>e'. he_deadline e \<le> he_deadline e') es"

datatype scan_event =
    EvTcp readings raw_packet
  | EvIcmp raw_packet
  | EvExpire expiry heap_entry
  | EvSubmit int bool bool u16
  | EvStamp bool u32 nat

inductive scan_step :: "scan_env \<Rightarrow> scan_event \<Rightarrow> int \<times> engine \<Rightarrow> int \<times> engine \<Rightarrow> bool" for env where
  tcp: "running en \<Longrightarrow> rw_type rp \<in> {PKT_TCP, PKT_TCP6} \<Longrightarrow> now \<le> rd_now k \<Longrightarrow>
     on_tcp env k rp en = Some en' \<Longrightarrow> scan_step env (EvTcp k rp) (now, en) (rd_now k, en')"
| icmp: "running en \<Longrightarrow> rw_type rp \<in> {PKT_ICMP, PKT_ICMPV6} \<Longrightarrow> on_icmp env rp en = Some en' \<Longrightarrow>
     scan_step env (EvIcmp rp) (now, en) (now, en')"
| expire: "running en \<Longrightarrow> is_top e (en_heap en) \<Longrightarrow> he_deadline e \<le> ex_now x \<Longrightarrow> now \<le> ex_now x \<Longrightarrow>
     pop_and_fire env x e en = Some en' \<Longrightarrow> scan_step env (EvExpire x e) (now, en) (ex_now x, en')"
| submit: "scan_step env (EvSubmit ts v6 precise port) (now, en) (now, pre_submit ts v6 precise port en)"
| stamp: "scan_step env (EvStamp v6 sq ts) (now, en) (now, tx_stamp v6 sq ts en)"

inductive scan_run :: "scan_env \<Rightarrow> scan_event list \<Rightarrow> int \<times> engine \<Rightarrow> int \<times> engine \<Rightarrow> bool" for env where
  stop: "scan_run env [] st st"
| move: "scan_step env ev st st' \<Longrightarrow> scan_run env evs st' st'' \<Longrightarrow> scan_run env (ev # evs) st st''"

inductive_cases scan_runE: "scan_run env (ev # evs) st st'"


end
