(* ===== verification/Engine_Runs.thy ===== *)
theory Engine_Runs
  imports Engine "HOL-Library.Multiset"
begin

text \<open>
  What every step of the scan loop of Engine keeps: every port is counted and reported once (\<open>tally\<close>),
  for each handler and for the start of a batch. The locale \<open>step_invariant\<close> lifts a law of single steps
  to whole runs; the theories on evidence, retries and deadlines interpret it.
\<close>

section \<open>Counting slots\<close>

lemma length_filter_update:
  assumes "i < length xs"
  shows "int (length (filter P (xs[i := x]))) = int (length (filter P xs)) - of_bool (P (xs ! i)) + of_bool (P x)"
proof -
  have "filter P xs = filter P (take i xs) @ (if P (xs ! i) then [xs ! i] else []) @ filter P (drop (Suc i) xs)"
    using arg_cong [OF id_take_nth_drop [OF assms], of "filter P"] by simp
  moreover have "filter P (xs[i := x]) = filter P (take i xs) @ (if P x then [x] else []) @ filter P (drop (Suc i) xs)"
    using assms by (simp add: upd_conv_take_nth_drop)
  ultimately show ?thesis by simp
qed

definition ports_where :: "('a \<Rightarrow> bool) \<Rightarrow> u16 list \<Rightarrow> 'a list \<Rightarrow> u16 list" where
  "ports_where P ps xs = map fst (filter (\<lambda>(p, x). P x) (zip ps xs))"

lemma ports_where_split:
  assumes "i < length xs" and "length ps = length xs"
  shows "ports_where P ps xs =
    ports_where P (take i ps) (take i xs) @ (if P (xs ! i) then [ps ! i] else []) @
    ports_where P (drop (Suc i) ps) (drop (Suc i) xs)"
proof -
  have "ps = take i ps @ ps ! i # drop (Suc i) ps" and "xs = take i xs @ xs ! i # drop (Suc i) xs"
    using assms by (simp_all add: id_take_nth_drop)
  then have "zip ps xs = zip (take i ps) (take i xs) @ (ps ! i, xs ! i) # zip (drop (Suc i) ps) (drop (Suc i) xs)"
    using assms by (metis length_take zip_Cons_Cons zip_append)
  then show ?thesis by (simp add: ports_where_def)
qed

lemma mset_ports_update:
  assumes "i < length xs" and "length ps = length xs"
  shows "mset (ports_where P ps (xs[i := x])) + (if P (xs ! i) then {#ps ! i#} else {#}) =
    mset (ports_where P ps xs) + (if P x then {#ps ! i#} else {#})"
  using ports_where_split [OF assms, of P] ports_where_split [of i "xs[i := x]" ps P] assms by simp

lemma set_ports_where:
  "length ps = length xs \<Longrightarrow> set (ports_where P ps xs) = {ps ! i |i. i < length ps \<and> P (xs ! i)}"
  by (force simp: ports_where_def set_zip image_iff)

lemma distinct_ports_where: "length ps = length xs \<Longrightarrow> distinct ps \<Longrightarrow> distinct (ports_where P ps xs)"
  unfolding ports_where_def by (rule distinct_map_filter) simp

lemma length_ports_where: "length ps = length xs \<Longrightarrow> length (ports_where P ps xs) = length (filter P xs)"
proof (induction ps xs rule: list_induct2)
  case (Cons p ps x xs)
  then show ?case by (simp add: ports_where_def)
qed (simp add: ports_where_def)

section \<open>The account of a scan\<close>

definition slot_ok :: "scan_params \<Rightarrow> slot \<Rightarrow> bool" where
  "slot_ok sp sl \<longleftrightarrow> probe_ok sp (sl_probe sl) \<and>
     sl_final sl = pb_final_state_determined (sl_probe sl) \<and>
     (pb_counted_in_retry (sl_probe sl) \<longrightarrow> \<not> sl_final sl \<and> 0 < pb_retry_count (sl_probe sl))"

definition reported_as :: "reported_state \<Rightarrow> slot \<Rightarrow> bool" where
  "reported_as v sl \<longleftrightarrow> pb_reported_state (sl_probe sl) = v"

definition index_ok :: "engine \<Rightarrow> bool" where
  "index_ok en \<longleftrightarrow> distinct (en_ports en) \<and> length (en_slots en) = length (en_ports en) \<and>
     (\<forall>p i. en_index en p = Some i \<longleftrightarrow> i < length (en_ports en) \<and> en_ports en ! i = p)"

definition tally :: "scan_params \<Rightarrow> engine \<Rightarrow> bool" where
  "tally sp en \<longleftrightarrow> index_ok en \<and> list_all (slot_ok sp) (en_slots en) \<and>
     en_active_count en = int (length (filter (\<lambda>sl. \<not> sl_final sl) (en_slots en))) \<and>
     en_ports_in_retry en = int (length (filter (\<lambda>sl. pb_counted_in_retry (sl_probe sl)) (en_slots en))) \<and>
     mset (rp_open_ports (en_result en)) = mset (ports_where (reported_as REPORTED_OPEN) (en_ports en) (en_slots en)) \<and>
     mset (rp_filtered_ports (en_result en)) =
       mset (ports_where (reported_as REPORTED_FILTERED) (en_ports en) (en_slots en)) \<and>
     rp_closed_ports (en_result en) = int (length (filter (reported_as REPORTED_CLOSED) (en_slots en)))"

text \<open>How the result changes when the reported state of a port goes from \<open>old\<close> to \<open>new\<close>.\<close>

definition entered :: "u16 \<Rightarrow> reported_state \<Rightarrow> reported_state \<Rightarrow> rec_pross \<Rightarrow> rec_pross \<Rightarrow> bool" where
  "entered port old new res res' \<longleftrightarrow>
     (if old = new
      then rp_open_ports res' = rp_open_ports res \<and> rp_filtered_ports res' = rp_filtered_ports res \<and>
           rp_closed_ports res' = rp_closed_ports res
      else old = REPORTED_NONE \<and>
           rp_open_ports res' = rp_open_ports res @ (if new = REPORTED_OPEN then [port] else []) \<and>
           rp_filtered_ports res' = rp_filtered_ports res @ (if new = REPORTED_FILTERED then [port] else []) \<and>
           rp_closed_ports res' = rp_closed_ports res + (if new = REPORTED_CLOSED then 1 else 0))"

text \<open>
  Everything the loop does to the account is a change of one slot: this lemma is the only place where
  the lists and sums of \<open>tally\<close> are looked at.
\<close>

lemma accounts_update:
  assumes a: "tally sp en" and i: "i < length (en_slots en)" and ok: "slot_ok sp sl"
    and same: "en_ports en' = en_ports en" "en_index en' = en_index en" "en_slots en' = (en_slots en)[i := sl]"
    and active: "en_active_count en' = en_active_count en + of_bool (sl_final (en_slots en ! i)) - of_bool (sl_final sl)"
    and retry: "en_ports_in_retry en' = en_ports_in_retry en
      - of_bool (pb_counted_in_retry (sl_probe (en_slots en ! i))) + of_bool (pb_counted_in_retry (sl_probe sl))"
    and res: "entered (en_ports en ! i) (pb_reported_state (sl_probe (en_slots en ! i)))
      (pb_reported_state (sl_probe sl)) (en_result en) (en_result en')"
  shows "tally sp en'"
proof -
  have len: "length (en_ports en) = length (en_slots en)" using a by (simp add: tally_def index_ok_def)
  note upd = mset_ports_update [OF i len]
  have "list_all (slot_ok sp) (en_slots en')"
    using a ok unfolding same tally_def list_all_iff by (auto dest!: set_update_subset_insert [THEN subsetD])
  moreover have "index_ok en'" using a by (simp add: tally_def index_ok_def same)
  moreover have "mset (rp_open_ports (en_result en')) =
      mset (ports_where (reported_as REPORTED_OPEN) (en_ports en') (en_slots en'))"
    using upd [of "reported_as REPORTED_OPEN" sl] res a
    by (auto simp: same tally_def entered_def reported_as_def split: if_splits)
  moreover have "mset (rp_filtered_ports (en_result en')) =
      mset (ports_where (reported_as REPORTED_FILTERED) (en_ports en') (en_slots en'))"
    using upd [of "reported_as REPORTED_FILTERED" sl] res a
    by (auto simp: same tally_def entered_def reported_as_def split: if_splits)
  ultimately show ?thesis
    using a active retry res unfolding tally_def
    by (auto simp: same length_filter_update [OF i] entered_def reported_as_def split: if_splits)
qed

section \<open>Changes of one slot\<close>

lemma heap_push_fields [simp]:
  "en_ports (heap_push d p en) = en_ports en" "en_index (heap_push d p en) = en_index en"
  "en_slots (heap_push d p en) = en_slots en" "en_active_count (heap_push d p en) = en_active_count en"
  "en_ports_in_retry (heap_push d p en) = en_ports_in_retry en" "en_result (heap_push d p en) = en_result en"
  "en_tracker (heap_push d p en) = en_tracker en" "en_gate_pending (heap_push d p en) = en_gate_pending en"
  "en_sentinel_armed (heap_push d p en) = en_sentinel_armed en" "en_aborted (heap_push d p en) = en_aborted en"
  "en_queue (heap_push d p en) = en_queue en" "en_budget (heap_push d p en) = en_budget en"
  "en_rng (heap_push d p en) = en_rng en" "en_rate (heap_push d p en) = en_rate en"
  by (simp_all add: heap_push_def)

lemma fold_heap_push:
  "fold (heap_push d) ps en =
    en\<lparr>en_heap := map (\<lambda>p. \<lparr>he_deadline = d, he_port = p, he_is_sentinel = False\<rparr>) (rev ps) @ en_heap en\<rparr>"
  by (induction ps arbitrary: en) (simp_all add: heap_push_def)

lemma release_pending_eq:
  "release_pending d en = en\<lparr>en_gate_pending := [],
    en_heap := map (\<lambda>p. \<lparr>he_deadline = d, he_port = p, he_is_sentinel = False\<rparr>) (rev (en_gate_pending en)) @ en_heap en\<rparr>"
  by (simp add: release_pending_def fold_heap_push)

definition same_account :: "engine \<Rightarrow> engine \<Rightarrow> bool" where
  "same_account en en' \<longleftrightarrow> en_ports en' = en_ports en \<and> en_index en' = en_index en \<and>
     en_active_count en' = en_active_count en \<and> en_ports_in_retry en' = en_ports_in_retry en \<and>
     rp_open_ports (en_result en') = rp_open_ports (en_result en) \<and>
     rp_filtered_ports (en_result en') = rp_filtered_ports (en_result en) \<and>
     rp_closed_ports (en_result en') = rp_closed_ports (en_result en)"

lemma accounts_same:
  "tally sp en \<Longrightarrow> same_account en en' \<Longrightarrow> en_slots en' = en_slots en \<Longrightarrow> tally sp en'"
  by (simp add: tally_def same_account_def index_ok_def)

text \<open>A change of a slot that its standing in the account does not see.\<close>

definition same_standing :: "slot \<Rightarrow> slot \<Rightarrow> bool" where
  "same_standing sl sl' \<longleftrightarrow> sl_final sl' = sl_final sl \<and>
     pb_retry_count (sl_probe sl') = pb_retry_count (sl_probe sl) \<and>
     pb_counted_in_retry (sl_probe sl') = pb_counted_in_retry (sl_probe sl) \<and>
     pb_reported_state (sl_probe sl') = pb_reported_state (sl_probe sl) \<and>
     pb_final_state_determined (sl_probe sl') = pb_final_state_determined (sl_probe sl) \<and>
     pb_connection_established (sl_probe sl') = pb_connection_established (sl_probe sl) \<and>
     pb_fin_sent (sl_probe sl') = pb_fin_sent (sl_probe sl) \<and>
     pb_fin_ack_received (sl_probe sl') = pb_fin_ack_received (sl_probe sl)"

lemma same_standing_ok: "same_standing sl sl' \<Longrightarrow> slot_ok sp sl \<Longrightarrow> slot_ok sp sl'"
  by (auto simp: same_standing_def slot_ok_def probe_ok_def phase_of_def split: if_splits)

lemma accounts_slot: "tally sp en \<Longrightarrow> i < length (en_slots en) \<Longrightarrow> slot_ok sp (en_slots en ! i)"
  by (simp add: tally_def list_all_length)

lemma accounts_quiet:
  assumes "tally sp en" and "i < length (en_slots en)" and "same_standing (en_slots en ! i) sl"
    and "same_account en en'" and "en_slots en' = (en_slots en)[i := sl]"
  shows "tally sp en'"
proof (rule accounts_update [OF assms(1,2) same_standing_ok [OF assms(3) accounts_slot [OF assms(1,2)]] _ _ assms(5)])
  show "entered (en_ports en ! i) (pb_reported_state (sl_probe (en_slots en ! i)))
      (pb_reported_state (sl_probe sl)) (en_result en) (en_result en')"
    using assms(3,4) by (simp add: same_standing_def entered_def same_account_def)
qed (use assms(3,4) in \<open>simp_all add: same_standing_def same_account_def\<close>)

lemma accounts_index: "tally sp en \<Longrightarrow> en_index en p = Some i \<Longrightarrow> i < length (en_slots en) \<and> en_ports en ! i = p"
  by (auto simp: tally_def index_ok_def)

lemma retire_fields [simp]:
  "en_ports (retire c i en) = en_ports en" "en_index (retire c i en) = en_index en"
  "en_result (retire c i en) = en_result en" "en_active_count (retire c i en) = en_active_count en - 1"
  "en_heap (retire c i en) = en_heap en" "en_gate_pending (retire c i en) = en_gate_pending en"
  "en_tracker (retire c i en) = en_tracker en" "en_sentinel_armed (retire c i en) = en_sentinel_armed en"
  "en_ports_in_retry (retire c i en) =
     en_ports_in_retry en - of_bool (pb_counted_in_retry (sl_probe (en_slots en ! i)))"
  "en_slots (retire c i en) = (en_slots en)[i := (en_slots en ! i)\<lparr>sl_final := True,
     sl_probe := (sl_probe (en_slots en ! i))\<lparr>pb_counted_in_retry := False\<rparr>,
     sl_tx_ts_us := (if c then 0 else sl_tx_ts_us (en_slots en ! i)),
     sl_outstanding := (if c then False else sl_outstanding (en_slots en ! i))\<rparr>]"
  by (simp_all add: retire_def set_slot_def Let_def)

text \<open>A port that is given its report and leaves: \<open>sl\<close> is its slot before \<open>retire\<close>.\<close>

lemma accounts_retire:
  assumes a: "tally sp en" and i: "i < length (en_slots en)" and open_: "\<not> sl_final (en_slots en ! i)"
    and ok: "probe_ok sp (sl_probe sl)" "pb_final_state_determined (sl_probe sl)"
    and counted: "pb_counted_in_retry (sl_probe sl) = pb_counted_in_retry (sl_probe (en_slots en ! i))"
    and en': "en_ports en' = en_ports en" "en_index en' = en_index en" "en_slots en' = (en_slots en)[i := sl]"
      "en_active_count en' = en_active_count en" "en_ports_in_retry en' = en_ports_in_retry en"
    and res: "entered (en_ports en ! i) (pb_reported_state (sl_probe (en_slots en ! i)))
      (pb_reported_state (sl_probe sl)) (en_result en) (en_result en')"
  shows "tally sp (retire c i en')"
proof -
  define sl' where "sl' = sl\<lparr>sl_final := True, sl_probe := (sl_probe sl)\<lparr>pb_counted_in_retry := False\<rparr>,
     sl_tx_ts_us := (if c then 0 else sl_tx_ts_us sl), sl_outstanding := (if c then False else sl_outstanding sl)\<rparr>"
  have ok': "slot_ok sp sl'"
    using ok by (simp add: slot_ok_def sl'_def probe_ok_def phase_of_def)
  have slots: "en_slots (retire c i en') = (en_slots en)[i := sl']"
    using i by (simp add: en' sl'_def)
  show ?thesis
    by (rule accounts_update [OF a i ok' _ _ slots])
      (use i open_ counted res in \<open>simp_all add: en' sl'_def\<close>)
qed

section \<open>Replies and the account\<close>

lemma mark_replied_fields [simp]:
  "same_account en (mark_replied i en)" "en_index (mark_replied i en) = en_index en"
  "en_ports (mark_replied i en) = en_ports en" "en_result (mark_replied i en) = en_result en"
  "en_active_count (mark_replied i en) = en_active_count en"
  "en_ports_in_retry (mark_replied i en) = en_ports_in_retry en"
  "length (en_slots (mark_replied i en)) = length (en_slots en)"
  "en_heap (mark_replied i en) = en_heap en" "en_gate_pending (mark_replied i en) = en_gate_pending en"
  "en_tracker (mark_replied i en) = en_tracker en" "en_sentinel_armed (mark_replied i en) = en_sentinel_armed en"
  by (auto simp: mark_replied_def same_account_def set_slot_def Let_def)

lemma mark_replied_slots:
  "i < length (en_slots en) \<Longrightarrow>
    en_slots (mark_replied i en) = (en_slots en)[i := (en_slots en ! i)\<lparr>sl_replied_this_attempt := True\<rparr>]"
  by (auto simp: mark_replied_def set_slot_def Let_def intro!: nth_equalityI simp: nth_list_update)

lemma accounts_mark_replied:
  assumes "tally sp en" and "i < length (en_slots en)"
  shows "tally sp (mark_replied i en)"
  by (rule accounts_quiet [OF assms _ mark_replied_fields(1) mark_replied_slots [OF assms(2)]])
    (simp add: same_standing_def)

lemma measure_rtt_slots:
  "same_account en (measure_rtt env k h rx i en) \<and>
    (measure_rtt env k h rx i en = en \<or>
     en_slots (measure_rtt env k h rx i en) = (en_slots en)[i := measured_slot (en_slots en ! i)])"
  by (simp add: measure_rtt_def same_account_def set_slot_def release_pending_eq Let_def split: option.split)

lemma accounts_measure_rtt:
  assumes "tally sp en" and "i < length (en_slots en)"
  shows "tally sp (measure_rtt env k h rx i en)"
proof (cases "measure_rtt env k h rx i en = en")
  case True
  then show ?thesis using assms(1) by simp
next
  case False
  with measure_rtt_slots [of en env k h rx i] show ?thesis
    by (intro accounts_quiet [OF assms]) (auto simp: same_standing_def measured_slot_def)
qed

lemma verdict_not_filtered [simp]: "verdict st h \<noteq> REPORTED_FILTERED"
  by (simp add: verdict_def)

lemma implements_entered:
  assumes "implements sp port h r b r'" and "probe_ok sp (ry_state r)"
  shows "entered port (pb_reported_state (ry_state r)) (pb_reported_state (ry_state r')) (ry_result r) (ry_result r')"
proof (cases "phase_of (ry_state r) = Waiting \<and> credible (pb_seq (ry_state r)) h")
  case True
  then have "pb_reported_state (ry_state r) = REPORTED_NONE" using assms(2) by (simp add: probe_ok_def)
  with True assms(1) show ?thesis
    by (cases "verdict (sp_scan_type sp) h")
      (simp_all add: implements_def entered_def record_verdict_def Let_def)
next
  case False
  with assms(1) show ?thesis by (auto simp: implements_def entered_def Let_def)
qed

lemma accounts_classify:
  assumes a: "tally (se_params env) en" and i: "i < length (en_slots en)"
    and port: "en_ports en ! i = th_sport h" and open_: "\<not> sl_final (en_slots en ! i)"
  shows "tally (se_params env) (classify env k h n ihl i en)"
proof -
  define sp where "sp = se_params env"
  define sl where "sl = en_slots en ! i"
  define r where "r = \<lparr>ry_state = sl_probe sl, ry_queue = en_queue en, ry_result = en_result en, ry_lines = en_lines en\<rparr>"
  obtain b r' where p: "process_response sp (th_sport h) h n ihl (rd_tsval k) r = (b, r')"
    by (cases "process_response sp (th_sport h) h n ihl (rd_tsval k) r")
  define en' where "en' = set_slot i (sl\<lparr>sl_probe := ry_state r'\<rparr>)
    (en\<lparr>en_queue := ry_queue r', en_result := ry_result r', en_lines := ry_lines r'\<rparr>)"
  have cl: "classify env k h n ihl i en =
      (if b \<and> pb_final_state_determined (ry_state r') \<and> \<not> sl_final sl then retire True i en' else en')"
    unfolding classify_def Let_def sl_def [symmetric] sp_def [symmetric] r_def [symmetric] p
    by (simp add: en'_def)
  have old: "slot_ok sp sl" using accounts_slot [OF a i] by (simp add: sp_def sl_def)
  then have ok: "probe_ok sp (ry_state r)" by (simp add: slot_ok_def r_def)
  have imp: "implements sp (th_sport h) h r b r'" by (rule process_implements [OF ok p])
  have counted: "pb_counted_in_retry (ry_state r') = pb_counted_in_retry (sl_probe sl)"
      "pb_retry_count (ry_state r') = pb_retry_count (sl_probe sl)"
    and ok': "probe_ok sp (ry_state r')" and b: "b = (phase_of (ry_state r') \<noteq> phase_of (ry_state r))"
    using imp by (auto simp: implements_def same_identity_def Let_def r_def)
  have ent: "entered (en_ports en ! i) (pb_reported_state (sl_probe sl)) (pb_reported_state (ry_state r'))
      (en_result en) (ry_result r')"
    using implements_entered [OF imp ok] by (simp add: port r_def)
  have nf: "\<not> sl_final sl" "\<not> pb_final_state_determined (ry_state r)"
    using open_ old by (simp_all add: sl_def slot_ok_def r_def)
  have en'_fields: "en_ports en' = en_ports en" "en_index en' = en_index en"
    "en_slots en' = (en_slots en)[i := sl\<lparr>sl_probe := ry_state r'\<rparr>]" "en_active_count en' = en_active_count en"
    "en_ports_in_retry en' = en_ports_in_retry en" "en_result en' = ry_result r'"
    by (simp_all add: en'_def set_slot_def)
  show ?thesis
  proof (cases "pb_final_state_determined (ry_state r')")
    case True
    then have "b" using b nf(2) by (simp add: phase_of_def)
    moreover have "tally sp (retire True i en')"
      by (rule accounts_retire [OF a [folded sp_def] i open_ _ _ _ en'_fields(1-5)])
        (use True ok' counted ent in \<open>simp_all add: en'_fields sl_def\<close>)
    ultimately show ?thesis using True nf(1) by (simp add: cl sp_def)
  next
    case False
    have "slot_ok sp (sl\<lparr>sl_probe := ry_state r'\<rparr>)"
      using False ok' nf(1) old counted by (simp add: slot_ok_def)
    from accounts_update [OF a [folded sp_def] i this en'_fields(1-3)] counted ent False
    have "tally sp en'" by (simp add: en'_fields sl_def)
    then show ?thesis using False by (simp add: cl sp_def)
  qed
qed

lemma accounts_on_segment:
  assumes a: "tally (se_params env) en"
  shows "tally (se_params env) (on_segment env k rp h ihl en)"
proof (cases "en_index en (th_sport h)")
  case None
  then show ?thesis using a by (simp add: on_segment_def)
next
  case (Some i)
  with a have i: "i < length (en_slots en)" and port: "en_ports en ! i = th_sport h"
    using accounts_index by blast+
  let ?m = "mark_replied i en" and ?t = "measure_rtt env k h (rw_rx_us rp) i (mark_replied i en)"
  have m: "tally (se_params env) ?m" by (rule accounts_mark_replied [OF a i])
  have im: "i < length (en_slots ?m)" using i by simp
  have t: "tally (se_params env) ?t" by (rule accounts_measure_rtt [OF m im])
  have same: "same_account ?m ?t" "length (en_slots ?t) = length (en_slots en)"
    "sl_final (en_slots ?t ! i) = sl_final (en_slots ?m ! i)"
    using measure_rtt_slots [of ?m env k h "rw_rx_us rp" i] i by (auto simp: measured_slot_def)
  show ?thesis
    using Some m accounts_classify [OF t] same i port a
    by (auto simp: on_segment_def Let_def same_account_def)
qed

lemma accounts_on_tcp:
  "tally (se_params env) en \<Longrightarrow> on_tcp env k rp en = Some en' \<Longrightarrow> tally (se_params env) en'"
  using accounts_on_segment by (auto simp: on_tcp_def split: bind_splits option.splits)

lemma block_port_cases:
  obtains "block_port env reason replier src_port port sq en = en"
  | i sl res where "en_index en port = Some i" "sl = en_slots en ! i" "\<not> sl_final sl"
      "pb_reported_state (sl_probe sl) = REPORTED_NONE" "accepts_src_port src_port (sl_probe sl)"
      "int (pb_retry_count (sl_probe sl)) \<ge> pb_retries_cap (sl_probe sl)"
      "use_token env \<Longrightarrow> sq = pb_seq (sl_probe sl)"
      "res = (en_result en)\<lparr>rp_filtered_ports := rp_filtered_ports (en_result en) @ [port],
         rp_icmp_filter_reasons := (rp_icmp_filter_reasons (en_result en))(port \<mapsto> (reason, replier))\<rparr>"
      "block_port env reason replier src_port port sq en = retire True i
         (set_slot i ((en_slots (mark_replied i en) ! i)\<lparr>sl_probe := (sl_probe sl)\<lparr>
            pb_reported_state := REPORTED_FILTERED, pb_final_state_determined := True\<rparr>\<rparr>)
          ((mark_replied i en)\<lparr>en_result := res\<rparr>))"
proof (cases "port = 0 \<or> en_index en port = None")
  case True
  then show thesis by (intro that(1)) (auto simp: block_port_def)
next
  case False
  then obtain i where i: "en_index en port = Some i" and p: "port \<noteq> 0" by auto
  let ?sl = "en_slots en ! i" and ?s = "sl_probe (en_slots en ! i)"
  show thesis
  proof (cases "\<not> accepts_src_port src_port ?s \<or> (use_token env \<and> sq \<noteq> pb_seq ?s) \<or> sl_final ?sl \<or>
      \<not> should_mark_filtered (pb_retry_count ?s) (pb_retries_cap ?s) \<or> pb_reported_state ?s \<noteq> REPORTED_NONE")
    case True
    then show thesis by (intro that(1)) (simp add: block_port_def i p Let_def)
  next
    case False
    then have "block_port env reason replier src_port port sq en = retire True i
         (set_slot i ((en_slots (mark_replied i en) ! i)\<lparr>sl_probe := ?s\<lparr>
            pb_reported_state := REPORTED_FILTERED, pb_final_state_determined := True\<rparr>\<rparr>)
          ((mark_replied i en)\<lparr>en_result := (en_result en)\<lparr>rp_filtered_ports := rp_filtered_ports (en_result en) @ [port],
            rp_icmp_filter_reasons := (rp_icmp_filter_reasons (en_result en))(port \<mapsto> (reason, replier))\<rparr>\<rparr>))"
      unfolding block_port_def i option.case Let_def if_not_P [OF p] if_not_P [OF False] by simp
    with False i show thesis by (intro that(2)) (auto simp: should_mark_filtered_def)
  qed
qed

lemma accounts_block_port:
  assumes a: "tally (se_params env) en"
  shows "tally (se_params env) (block_port env reason replier src_port port sq en)"
proof (cases rule: block_port_cases [of env reason replier src_port port sq en])
  case 1
  then show ?thesis using a by simp
next
  case (2 i sl res)
  have i: "i < length (en_slots en)" and port: "en_ports en ! i = port"
    using accounts_index [OF a 2(1)] by simp_all
  define sl' where "sl' = (en_slots (mark_replied i en) ! i)\<lparr>sl_probe := (sl_probe sl)\<lparr>
    pb_reported_state := REPORTED_FILTERED, pb_final_state_determined := True\<rparr>\<rparr>"
  have probe': "sl_probe sl' = (sl_probe sl)\<lparr>pb_reported_state := REPORTED_FILTERED,
    pb_final_state_determined := True\<rparr>" by (simp add: sl'_def)
  have slots: "en_slots (set_slot i sl' ((mark_replied i en)\<lparr>en_result := res\<rparr>)) = (en_slots en)[i := sl']"
    using i by (simp add: set_slot_def mark_replied_slots)
  show ?thesis unfolding 2(9) sl'_def [symmetric]
    by (rule accounts_retire [OF a i _ _ _ _ _ _ slots])
      (use 2(2-4) port in \<open>simp_all add: probe' set_slot_def probe_ok_def phase_of_def entered_def 2(8)\<close>)
qed

lemma accounts_apply_icmp:
  assumes "tally (se_params env) en"
  shows "tally (se_params env) (apply_icmp env act en)"
proof (cases act)
  case (IcmpBlocked reason replier src_port port sq)
  then show ?thesis using accounts_block_port [OF assms] by (simp add: apply_icmp_def)
qed (auto simp: apply_icmp_def same_account_def intro!: accounts_same [OF assms])

lemma accounts_on_icmp:
  "tally (se_params env) en \<Longrightarrow> on_icmp env rp en = Some en' \<Longrightarrow> tally (se_params env) en'"
  using accounts_apply_icmp by (auto simp: on_icmp_def split: bind_splits)

section \<open>Deadlines and the account\<close>

lemma accounts_send_initial:
  assumes "tally sp en" and "i < length (en_slots en)"
  shows "tally sp (send_initial env x i port en)"
proof -
  define sl where "sl = (en_slots en ! i)\<lparr>sl_probe := (sl_probe (en_slots en ! i))\<lparr>pb_initial_send_deferred := False,
    pb_sent_tsval := ex_tsval x + pb_tsval_offset (sl_probe (en_slots en ! i)), pb_syn_sent_time := ex_now x\<rparr>\<rparr>"
  show ?thesis
    by (rule accounts_quiet [OF assms, of sl])
      (simp_all add: sl_def send_initial_def same_standing_def same_account_def set_slot_def Let_def)
qed

lemma accounts_send_retry:
  assumes "tally sp en" and "i < length (en_slots en)"
  shows "tally sp (send_retry env x i port en)"
proof -
  define old where "old = en_slots en ! i"
  define sl where "sl = old\<lparr>sl_probe := (sl_probe old)\<lparr>pb_retry_send_deferred := False,
    pb_sent_tsval := ex_tsval x + pb_tsval_offset (sl_probe old), pb_syn_sent_time := ex_now x\<rparr>,
    sl_tx_ts_us := 0, sl_tx_ts_precise := False, sl_real_tx_ts_us := 0, sl_replied_this_attempt := False,
    sl_outstanding := False, sl_generation := sl_generation old + 1\<rparr>"
  show ?thesis
    by (rule accounts_quiet [OF assms, of sl])
      (simp_all add: sl_def old_def send_retry_def same_standing_def same_account_def set_slot_def Let_def)
qed

definition unseen :: "engine \<Rightarrow> engine \<Rightarrow> bool" where
  "unseen en en' \<longleftrightarrow> same_account en en' \<and> en_slots en' = en_slots en"

lemma unseen_trans: "unseen a b \<Longrightarrow> unseen b c \<Longrightarrow> unseen a c"
  by (simp add: unseen_def same_account_def)

lemma unseen_refl [simp]: "unseen a a"
  by (simp add: unseen_def same_account_def)

lemma accounts_unseen: "tally sp en \<Longrightarrow> unseen en en' \<Longrightarrow> tally sp en'"
  by (auto simp: unseen_def intro: accounts_same)

lemma unseen_heap_push [simp]: "unseen en (heap_push d p en)"
  by (simp add: unseen_def same_account_def)

lemma unseen_release [simp]: "unseen en (release_pending d en)"
  by (simp add: unseen_def same_account_def release_pending_eq)

text \<open>The checks touch the limiters and the random engine only.\<close>

definition limited :: "engine \<Rightarrow> engine \<Rightarrow> bool" where
  "limited en en' \<longleftrightarrow> (\<exists>rs bs r. en' = en\<lparr>en_rate := rs, en_bandwidth := bs, en_rng := r\<rparr>)"

lemma limitedI: "en' = en\<lparr>en_rate := rs, en_bandwidth := bs, en_rng := r\<rparr> \<Longrightarrow> limited en en'"
  for en en' rs bs r
  unfolding limited_def by blast

lemma limited_refl [simp]: "limited en en"
  by (rule limitedI [where rs = "en_rate en" and bs = "en_bandwidth en" and r = "en_rng en"]) simp

lemma limited_rate [simp]: "limited en (en\<lparr>en_rate := rs, en_rng := r\<rparr>)"
  by (rule limitedI [where rs = rs and bs = "en_bandwidth en" and r = r]) simp

lemma limited_bandwidth [simp]:
  "limited en (en\<lparr>en_bandwidth := bs\<rparr>)" "limited en (en\<lparr>en_rng := r, en_bandwidth := bs\<rparr>)"
proof -
  show "limited en (en\<lparr>en_bandwidth := bs\<rparr>)"
    by (rule limitedI [where rs = "en_rate en" and bs = bs and r = "en_rng en"]) simp
  show "limited en (en\<lparr>en_rng := r, en_bandwidth := bs\<rparr>)"
    by (rule limitedI [where rs = "en_rate en" and bs = bs and r = r]) simp
qed

lemma limited_trans: "limited a b \<Longrightarrow> limited b c \<Longrightarrow> limited a c"
  by (force simp: limited_def)

lemma limited_fields:
  assumes "limited en en'"
  shows "unseen en en'" "en_heap en' = en_heap en" "en_gate_pending en' = en_gate_pending en"
    "en_tracker en' = en_tracker en" "en_sentinel_armed en' = en_sentinel_armed en"
    "en_budget en' = en_budget en" "en_slots en' = en_slots en" "en_queue en' = en_queue en"
    "en_ports en' = en_ports en" "en_index en' = en_index en" "en_aborted en' = en_aborted en"
  using assms by (auto simp: limited_def unseen_def same_account_def)

lemma limited_check_rate:
  "check_rate env x port en = Inl en' \<Longrightarrow> \<exists>d. ex_now x < d \<and> en' = heap_push d port en"
  "check_rate env x port en = Inr en' \<Longrightarrow> limited en en'"
proof -
  show "check_rate env x port en = Inr en' \<Longrightarrow> limited en en'"
    by (auto simp: check_rate_def Let_def split: if_splits prod.splits)
qed (auto simp: check_rate_def Let_def split: if_splits prod.splits)

lemma limited_check_bandwidth:
  "check_bandwidth env x port en = Inl en' \<Longrightarrow> \<exists>d. ex_now x < d \<and> en' = heap_push d port en"
  "check_bandwidth env x port en = Inr en' \<Longrightarrow> limited en en'"
proof -
  show "check_bandwidth env x port en = Inr en' \<Longrightarrow> limited en en'"
    by (auto simp: check_bandwidth_def Let_def split: if_splits prod.splits)
qed (auto simp: check_bandwidth_def Let_def split: if_splits prod.splits)

text \<open>
  The checks end in one of three ways: the port waits for a later deadline, it is parked until the first
  round trip is known, or its probe, which was sent long enough ago, is repeated.
\<close>

lemma retry_or_wait_cases:
  assumes r: "retry_or_wait env x i port en = Some en'"
  obtains (waits) d en1 where "limited en en1" "ex_now x < d" "en' = heap_push d port en1"
  | (parks) "pb_retry_count (sl_probe (en_slots en ! i)) = 0" "\<not> rt_has_measurement (en_tracker en)"
      "ex_now x < se_phase1_deadline env" "en' = park env port en"
  | (retries) en1 where "limited en en1" "sl_real_tx_ts_us (en_slots en ! i) \<noteq> 0"
      "do_retry env x i port en1 = Some en'"
proof (cases "check_sent env x i port en")
  case (Inl a)
  then have "\<exists>d. ex_now x < d \<and> en' = heap_push d port en"
    using r unfolding retry_or_wait_def check_sent_def Let_def
    by (auto split: if_splits intro: exI [of _ "ex_now x + 5000000"])
  then show thesis using waits [OF limited_refl] by blast
next
  case (Inr a)
  then have a: "a = en" and sent: "sl_real_tx_ts_us (en_slots en ! i) \<noteq> 0"
    by (auto simp: check_sent_def Let_def split: if_splits)
  note r1 = r [unfolded retry_or_wait_def Inr sum.case a]
  show thesis
  proof (cases "check_phase1 env x i port en")
    case (Inl b)
    then show thesis using r1 by (intro parks) (auto simp: check_phase1_def split: if_splits)
  next
    case (Inr b)
    then have b: "b = en" by (auto simp: check_phase1_def split: if_splits)
    note r2 = r1 [unfolded Inr sum.case b]
    show thesis
    proof (cases "check_rate env x port en")
      case (Inl c)
      then show thesis using r2 limited_check_rate(1) [OF Inl] waits [OF limited_refl] by auto
    next
      case (Inr c)
      note c = limited_check_rate(2) [OF Inr] and r3 = r2 [unfolded Inr sum.case]
      show thesis
      proof (cases "check_bandwidth env x port c")
        case (Inl d)
        then show thesis using r3 limited_check_bandwidth(1) [OF Inl] waits [OF c] by auto
      next
        case (Inr d)
        then show thesis using r3 sent
          by (intro retries [OF limited_trans [OF c limited_check_bandwidth(2) [OF Inr]]]) simp_all
      qed
    qed
  qed
qed

lemma park_fields [simp]:
  "unseen en (park env port en)" "en_slots (park env port en) = en_slots en"
  "en_budget (park env port en) = en_budget en" "en_tracker (park env port en) = en_tracker en"
  "en_gate_pending (park env port en) = en_gate_pending en @ [port]" "en_sentinel_armed (park env port en)"
  by (simp_all add: park_def unseen_def same_account_def Let_def)

definition retried :: "scan_env \<Rightarrow> expiry \<Rightarrow> engine \<Rightarrow> u16 \<Rightarrow> slot \<Rightarrow> slot" where
  "retried env x en p sl =
     (let s = begin_retry env x en (sl_probe sl); n = pb_retry_count s;
          s = record_src_port p n (s\<lparr>pb_src_port := p\<rparr>)
      in sl\<lparr>sl_probe := s\<lparr>pb_counted_in_retry := (if n = 1 then True else pb_counted_in_retry s),
             pb_retry_send_deferred := True\<rparr>\<rparr>)"

lemma record_src_port_fields [simp]:
  "pb_reported_state (record_src_port p n s) = pb_reported_state s"
  "pb_final_state_determined (record_src_port p n s) = pb_final_state_determined s"
  "pb_connection_established (record_src_port p n s) = pb_connection_established s"
  "pb_fin_sent (record_src_port p n s) = pb_fin_sent s"
  "pb_fin_ack_received (record_src_port p n s) = pb_fin_ack_received s"
  "pb_counted_in_retry (record_src_port p n s) = pb_counted_in_retry s"
  "pb_retry_count (record_src_port p n s) = pb_retry_count s"
  "pb_retries_cap (record_src_port p n s) = pb_retries_cap s"
  "pb_seq (record_src_port p n s) = pb_seq s" "pb_src_port (record_src_port p n s) = pb_src_port s"
  "pb_initial_send_deferred (record_src_port p n s) = pb_initial_send_deferred s"
  "pb_retry_send_deferred (record_src_port p n s) = pb_retry_send_deferred s"
  by (simp_all add: record_src_port_def)

lemma do_retry_Some:
  assumes "do_retry env x i port en = Some en'"
  obtains p r where "retry_src_port env (pb_retry_count (sl_probe (en_slots en ! i)) + 1)
      (begin_retry env x en (sl_probe (en_slots en ! i))) (en_rng en) = Some (p, r)"
    "en' = schedule_retry env x (pb_retry_count (sl_probe (en_slots en ! i)) + 1) port
       (enter_retry (pb_retry_count (sl_probe (en_slots en ! i)) + 1)
         (set_slot i (retried env x en p (en_slots en ! i)) (en\<lparr>en_rng := r\<rparr>)))"
  using assms by (auto simp: do_retry_def retried_def Let_def begin_retry_def split: bind_splits)

lemma schedule_retry_fields [simp]:
  "unseen en (schedule_retry env x n port en)"
  "en_tracker (schedule_retry env x n port en) = en_tracker en"
  "en_gate_pending (schedule_retry env x n port en) = en_gate_pending en"
  "en_sentinel_armed (schedule_retry env x n port en) = en_sentinel_armed en"
  by (simp_all add: schedule_retry_def unseen_def same_account_def Let_def)

text \<open>A port is counted in retry once, at its first retry.\<close>

lemma accounts_do_retry:
  assumes a: "tally sp en" and i: "i < length (en_slots en)" and nf: "\<not> sl_final (en_slots en ! i)"
    and d: "do_retry env x i port en = Some en'"
  shows "tally sp en'"
proof -
  define sl where "sl = en_slots en ! i"
  obtain p r where en': "en' = schedule_retry env x (pb_retry_count (sl_probe sl) + 1) port
       (enter_retry (pb_retry_count (sl_probe sl) + 1) (set_slot i (retried env x en p sl) (en\<lparr>en_rng := r\<rparr>)))"
    using do_retry_Some [OF d] unfolding sl_def by metis
  define en1 where "en1 = enter_retry (pb_retry_count (sl_probe sl) + 1) (set_slot i (retried env x en p sl) (en\<lparr>en_rng := r\<rparr>))"
  have old: "slot_ok sp sl" unfolding sl_def by (rule accounts_slot [OF a i])
  have r: "sl_final (retried env x en p sl) = sl_final sl"
    "pb_reported_state (sl_probe (retried env x en p sl)) = pb_reported_state (sl_probe sl)"
    "pb_counted_in_retry (sl_probe (retried env x en p sl)) =
      (pb_retry_count (sl_probe sl) = 0 \<or> pb_counted_in_retry (sl_probe sl))"
    by (auto simp: retried_def begin_retry_def Let_def)
  have ok: "slot_ok sp (retried env x en p sl)"
    using old nf by (auto simp: slot_ok_def probe_ok_def phase_of_def retried_def begin_retry_def sl_def Let_def split: if_splits)
  have "tally sp en1"
    by (rule accounts_update [OF a i ok])
      (use nf old in \<open>auto simp: en1_def enter_retry_def set_slot_def r [unfolded sl_def] sl_def entered_def slot_ok_def Let_def\<close>)
  then show ?thesis unfolding en' en1_def [symmetric] by (rule accounts_unseen) simp
qed

lemma accounts_give_up:
  assumes a: "tally sp en" and i: "i < length (en_slots en)" and nf: "\<not> sl_final (en_slots en ! i)"
    and ne: "\<not> pb_connection_established (sl_probe (en_slots en ! i))" and port: "en_ports en ! i = port"
  shows "tally sp (give_up i port en)"
proof -
  define s where "s = sl_probe (en_slots en ! i)"
  have fresh: "pb_reported_state s = REPORTED_NONE"
    using accounts_slot [OF a i] nf ne
    by (auto simp: slot_ok_def probe_ok_def phase_of_def s_def split: if_splits)
  define sl where "sl = (en_slots en ! i)\<lparr>sl_probe := s\<lparr>pb_reported_state := REPORTED_FILTERED,
    pb_final_state_determined := True\<rparr>\<rparr>"
  define en1 where "en1 = set_slot i sl (en\<lparr>en_result := (en_result en)\<lparr>rp_filtered_ports :=
    rp_filtered_ports (en_result en) @ [port]\<rparr>\<rparr>)"
  have g: "give_up i port en = retire False i en1"
    using fresh by (simp add: give_up_def s_def sl_def en1_def Let_def)
  show ?thesis unfolding g
    by (rule accounts_retire [OF a i nf, of sl])
      (simp_all add: sl_def en1_def set_slot_def probe_ok_def phase_of_def entered_def fresh port s_def [symmetric])
qed

section \<open>Steps and the account\<close>

definition undecided :: "nat \<Rightarrow> engine \<Rightarrow> bool" where
  "undecided i en \<longleftrightarrow> \<not> sl_final (en_slots en ! i) \<and> \<not> pb_connection_established (sl_probe (en_slots en ! i))"

definition may_retry :: "scan_env \<Rightarrow> probe \<Rightarrow> bool" where
  "may_retry env s \<longleftrightarrow> \<not> skip_retries env \<and> \<not> should_mark_filtered (pb_retry_count s) (pb_retries_cap s)"

lemma fire_cases:
  assumes "fire env x e en = Some en'"
  obtains (sentinel) "he_is_sentinel e" "en' = release_pending (ex_now x) en"
  | (ignored) "\<not> he_is_sentinel e" "en' = en"
      "\<And>i. en_index en (he_port e) = Some i \<Longrightarrow> \<not> undecided i en"
  | (initial) i where "\<not> he_is_sentinel e" "en_index en (he_port e) = Some i" "undecided i en"
      "pb_initial_send_deferred (sl_probe (en_slots en ! i))" "en' = send_initial env x i (he_port e) en"
  | (resend) i where "\<not> he_is_sentinel e" "en_index en (he_port e) = Some i" "undecided i en"
      "\<not> pb_initial_send_deferred (sl_probe (en_slots en ! i))"
      "pb_retry_send_deferred (sl_probe (en_slots en ! i))" "en' = send_retry env x i (he_port e) en"
  | (expired) i where "\<not> he_is_sentinel e" "en_index en (he_port e) = Some i" "undecided i en"
      "\<not> pb_initial_send_deferred (sl_probe (en_slots en ! i))"
      "\<not> pb_retry_send_deferred (sl_probe (en_slots en ! i))"
      "may_retry env (sl_probe (en_slots en ! i))" "retry_or_wait env x i (he_port e) en = Some en'"
  | (given_up) i where "\<not> he_is_sentinel e" "en_index en (he_port e) = Some i" "undecided i en"
      "\<not> pb_initial_send_deferred (sl_probe (en_slots en ! i))"
      "\<not> pb_retry_send_deferred (sl_probe (en_slots en ! i))"
      "\<not> may_retry env (sl_probe (en_slots en ! i))" "en' = give_up i (he_port e) en"
proof (cases "he_is_sentinel e")
  case True
  with assms show thesis by (intro sentinel) (simp_all add: fire_def)
next
  case ns: False
  show thesis
  proof (cases "en_index en (he_port e)")
    case None
    with assms ns show thesis by (intro ignored) (simp_all add: fire_def)
  next
    case (Some i)
    define s where "s = sl_probe (en_slots en ! i)"
    have f: "(if sl_final (en_slots en ! i) \<or> pb_connection_established s then Some en
             else if pb_initial_send_deferred s then Some (send_initial env x i (he_port e) en)
             else if pb_retry_send_deferred s then Some (send_retry env x i (he_port e) en)
             else if may_retry env s then retry_or_wait env x i (he_port e) en
             else Some (give_up i (he_port e) en)) = Some en'"
      using assms ns unfolding fire_def Some option.case Let_def s_def may_retry_def by simp
    show thesis
    proof (cases "undecided i en")
      case False
      with f Some ns show thesis by (intro ignored) (auto simp: undecided_def s_def)
    next
      case True
      then have "\<not> (sl_final (en_slots en ! i) \<or> pb_connection_established s)"
        by (simp add: undecided_def s_def)
      note g = f [unfolded if_not_P [OF this]]
      consider "pb_initial_send_deferred s" | "\<not> pb_initial_send_deferred s" "pb_retry_send_deferred s"
        | "\<not> pb_initial_send_deferred s" "\<not> pb_retry_send_deferred s" "may_retry env s"
        | "\<not> pb_initial_send_deferred s" "\<not> pb_retry_send_deferred s" "\<not> may_retry env s" by blast
      then show thesis
      proof cases
        case 1
        show thesis by (rule initial [OF ns Some True]) (use 1 g in \<open>simp_all add: s_def\<close>)
      next
        case 2
        show thesis by (rule resend [OF ns Some True]) (use 2 g in \<open>simp_all add: s_def\<close>)
      next
        case 3
        show thesis by (rule expired [OF ns Some True]) (use 3 g in \<open>simp_all add: s_def\<close>)
      next
        case 4
        show thesis by (rule given_up [OF ns Some True]) (use 4 g in \<open>simp_all add: s_def\<close>)
      qed
    qed
  qed
qed

lemma accounts_retry_or_wait:
  assumes a: "tally sp en" and i: "i < length (en_slots en)" and u: "undecided i en"
    and r: "retry_or_wait env x i port en = Some en'"
  shows "tally sp en'"
  using r
proof (cases rule: retry_or_wait_cases)
  case (waits d en1)
  then show ?thesis using accounts_unseen [OF a unseen_trans [OF limited_fields(1) unseen_heap_push]] by simp
next
  case parks
  then show ?thesis using accounts_unseen [OF a] by simp
next
  case (retries en1)
  note l = limited_fields [OF retries(1)]
  have "i < length (en_slots en1)" "\<not> sl_final (en_slots en1 ! i)" using i u by (simp_all add: l undecided_def)
  from accounts_do_retry [OF accounts_unseen [OF a l(1)] this retries(3)] show ?thesis .
qed

lemma accounts_fire:
  assumes a: "tally (se_params env) en" and f: "fire env x e en = Some en'"
  shows "tally (se_params env) en'"
  using f
proof (cases rule: fire_cases)
  case sentinel
  then show ?thesis using accounts_unseen [OF a] by simp
next
  case ignored
  then show ?thesis using a by simp
next
  case (initial i)
  then show ?thesis using accounts_send_initial [OF a] accounts_index [OF a] by simp
next
  case (resend i)
  then show ?thesis using accounts_send_retry [OF a] accounts_index [OF a] by simp
next
  case (expired i)
  then show ?thesis using accounts_retry_or_wait [OF a] accounts_index [OF a] by blast
next
  case (given_up i)
  then show ?thesis using accounts_give_up [OF a] accounts_index [OF a] by (simp add: undecided_def)
qed

lemma accounts_pre_submit:
  assumes a: "tally sp en"
  shows "tally sp (pre_submit ts v6 precise port en)"
proof (cases "en_index en port")
  case None
  then show ?thesis using a by (simp add: pre_submit_def)
next
  case (Some i)
  define sl where "sl = (en_slots en ! i)\<lparr>sl_outstanding := True, sl_real_tx_ts_us := nat (ts div 1000),
    sl_probe := (sl_probe (en_slots en ! i))\<lparr>pb_syn_sent_time := ts\<rparr>\<rparr>"
  have "i < length (en_slots en)" using accounts_index [OF a Some] by simp
  then show ?thesis
    by (rule accounts_quiet [OF a, of i sl])
      (simp_all add: sl_def Some pre_submit_def same_standing_def same_account_def set_slot_def Let_def)
qed

lemma accounts_tx_stamp:
  assumes a: "tally sp en"
  shows "tally sp (tx_stamp v6 sq ts en)"
proof (cases "en_tx_ids en v6 sq")
  case None
  then show ?thesis using a by (simp add: tx_stamp_def)
next
  case (Some ig)
  obtain i gen where ig: "ig = (i, gen)" by (cases ig)
  show ?thesis
  proof (cases "i \<ge> length (en_slots en) \<or> sl_generation (en_slots en ! i) \<noteq> gen")
    case True
    then have "unseen en (tx_stamp v6 sq ts en)"
      by (auto simp: tx_stamp_def Some ig unseen_def same_account_def)
    then show ?thesis by (rule accounts_unseen [OF a])
  next
    case False
    define sl where "sl = (en_slots en ! i)\<lparr>sl_tx_ts_us := ts, sl_tx_ts_precise := True\<rparr>"
    from False show ?thesis
      by (intro accounts_quiet [OF a, of i sl])
        (simp_all add: sl_def Some ig tx_stamp_def same_standing_def same_account_def set_slot_def Let_def)
  qed
qed

lemma accounts_step:
  assumes "scan_step env ev st st'" and "tally (se_params env) (snd st)"
  shows "tally (se_params env) (snd st')"
  using assms
proof cases
  case (tcp en rp now k en')
  then show ?thesis using accounts_on_tcp assms(2) by simp
next
  case (icmp en rp en' now)
  then show ?thesis using accounts_on_icmp assms(2) by simp
next
  case (expire en e x now en')
  have "tally (se_params env) (en\<lparr>en_heap := remove1 e (en_heap en)\<rparr>)"
    by (rule accounts_unseen [OF assms(2) [unfolded expire snd_conv]]) (simp add: unseen_def same_account_def)
  with expire show ?thesis using accounts_fire by (simp add: pop_and_fire_def)
next
  case (submit ts v6 precise port now en)
  then show ?thesis using accounts_pre_submit assms(2) by simp
next
  case (stamp v6 sq ts now en)
  then show ?thesis using accounts_tx_stamp assms(2) by simp
qed

lemma accounts_run:
  assumes "scan_run env evs st st'" and "tally (se_params env) (snd st)"
  shows "tally (se_params env) (snd st')"
  using assms by induction (simp_all add: accounts_step)

text \<open>
  What every allowed step keeps holds along a run; the account may be relied on. The invariants of the
  later theories are instances.
\<close>

locale step_invariant =
  fixes env :: scan_env and allowed :: "scan_event \<Rightarrow> bool" and inv :: "int \<times> engine \<Rightarrow> bool"
  assumes step: "scan_step env ev st st' \<Longrightarrow> allowed ev \<Longrightarrow> tally (se_params env) (snd st) \<Longrightarrow> inv st \<Longrightarrow> inv st'"
begin

lemma run:
  assumes "scan_run env evs st st'" and "list_all allowed evs" and "tally (se_params env) (snd st)" and "inv st"
  shows "inv st'"
  using assms
proof induction
  case (move ev st st' evs st'')
  then show ?case using step accounts_step by simp
qed simp

end

section \<open>The start and the account\<close>

definition started :: "scan_params \<Rightarrow> engine \<Rightarrow> bool" where
  "started sp en \<longleftrightarrow> tally sp (en\<lparr>en_active_count := int (length (en_ports en))\<rparr>)"

lemma started_same:
  "started sp en \<Longrightarrow> en_ports en' = en_ports en \<Longrightarrow> en_index en' = en_index en \<Longrightarrow>
    en_slots en' = en_slots en \<Longrightarrow> en_ports_in_retry en' = en_ports_in_retry en \<Longrightarrow>
    en_result en' = en_result en \<Longrightarrow> started sp en'"
  by (simp add: started_def tally_def index_ok_def)

lemma index_ok_active [simp]: "index_ok (en\<lparr>en_active_count := n\<rparr>) = index_ok en"
  by (simp add: index_ok_def)

lemma started_add:
  assumes "started sp en" and "p \<notin> set (en_ports en)"
    and sl: "slot_ok sp sl" "\<not> sl_final sl" "\<not> pb_counted_in_retry (sl_probe sl)"
      "pb_reported_state (sl_probe sl) = REPORTED_NONE"
  shows "started sp (en\<lparr>en_index := (en_index en)(p \<mapsto> length (en_slots en)), en_ports := en_ports en @ [p],
    en_slots := en_slots en @ [sl]\<rparr>)"
proof -
  have len: "length (en_slots en) = length (en_ports en)"
    and idx: "\<And>q i. en_index en q = Some i \<longleftrightarrow> i < length (en_ports en) \<and> en_ports en ! i = q"
    using assms(1) by (simp_all add: started_def tally_def index_ok_def)
  have "index_ok (en\<lparr>en_index := (en_index en)(p \<mapsto> length (en_slots en)), en_ports := en_ports en @ [p],
    en_slots := en_slots en @ [sl]\<rparr>)"
    using assms(1,2) idx len unfolding started_def tally_def index_ok_def
    by (auto simp: nth_append less_Suc_eq dest: nth_mem)
  then show ?thesis
    using assms(1) sl len
    by (simp add: started_def tally_def ports_where_def reported_as_def)
qed

lemma start_slot_ok:
  "slot_ok sp (start_slot env x p q en)" "\<not> sl_final (start_slot env x p q en)"
  "\<not> pb_counted_in_retry (sl_probe (start_slot env x p q en))"
  "pb_reported_state (sl_probe (start_slot env x p q en)) = REPORTED_NONE"
  by (simp_all add: start_slot_def slot_ok_def probe_ok_def phase_of_def)

definition start_same :: "engine \<Rightarrow> engine \<Rightarrow> bool" where
  "start_same en en' \<longleftrightarrow> en_ports en' = en_ports en \<and> en_index en' = en_index en \<and>
    en_slots en' = en_slots en \<and> en_ports_in_retry en' = en_ports_in_retry en \<and> en_result en' = en_result en \<and>
    en_heap en' = en_heap en \<and> en_gate_pending en' = en_gate_pending en \<and>
    en_sentinel_armed en' = en_sentinel_armed en \<and> en_tracker en' = en_tracker en \<and> en_budget en' = en_budget en \<and>
    en_queue en' = en_queue en"

lemma start_same_trans: "start_same a b \<Longrightarrow> start_same b c \<Longrightarrow> start_same a c"
  by (simp add: start_same_def)

lemma start_rate_same: "start_same en (snd (start_rate env x v en))"
  by (simp add: start_rate_def start_same_def Let_def split: prod.split)

lemma start_bandwidth_same: "start_same en (snd (start_bandwidth env v en))"
  by (simp add: start_bandwidth_def start_same_def Let_def split: prod.split)

lemma start_jitter_same: "start_same en (snd (start_jitter env v en))"
  by (simp add: start_jitter_def start_same_def Let_def)

lemma started_start_same: "started sp en \<Longrightarrow> start_same en en' \<Longrightarrow> started sp en'"
  by (erule started_same) (simp_all add: start_same_def)

text \<open>What the loop does for one valid port.\<close>

lemma start_port_Some:
  assumes "start_port env x port (v, en) = Some (v', en')" and "0 < port" "port \<le> 65535"
  obtains q d en1 en2 where "start_same en en1"
    "start_same (enter_port env x (word_of_int port) q en1) en2"
    "start_same (heap_push d (word_of_int port) en2) en'"
proof -
  define p where "p = (word_of_int port :: u16)"
  obtain v1 a where a: "start_rate env x v en = (v1, a)" by (cases "start_rate env x v en")
  obtain v2 b where b: "start_bandwidth env v1 a = (v2, b)" by (cases "start_bandwidth env v1 a")
  have sb: "start_same en b"
    using start_rate_same [of en env x v] start_bandwidth_same [of a env v1] a b start_same_trans by fastforce
  obtain q r where fd: "first_deadline env x p v2 (enter_port env x p q (b\<lparr>en_rng := r\<rparr>)) = (v', en')"
    using assms unfolding start_port_def a b Let_def prod.case p_def by (auto split: if_splits bind_splits)
  define d where "d = enter_port env x p q (b\<lparr>en_rng := r\<rparr>)"
  obtain v3 e where e: "start_jitter env v2 d = (v3, e)" by (cases "start_jitter env v2 d")
  have "start_same (heap_push (max v3 (ex_now x)) p e) en'"
    using fd unfolding d_def [symmetric] by (auto simp: first_deadline_def e start_same_def Let_def split: if_splits)
  moreover have "start_same d e" using start_jitter_same [of d env v2] e by simp
  moreover have "start_same en (b\<lparr>en_rng := r\<rparr>)" using sb by (simp add: start_same_def)
  ultimately show thesis using that unfolding d_def p_def by blast
qed

lemma started_start_port:
  assumes s: "started (se_params env) en" and p: "start_port env x port (v, en) = Some (v', en')"
    and fresh: "word_of_int port \<notin> set (en_ports en)" and port: "0 < port" "port \<le> 65535"
  shows "started (se_params env) en' \<and> en_ports en' = en_ports en @ [word_of_int port]"
  using p port
proof (rule start_port_Some)
  fix q d en1 en2
  let ?p = "word_of_int port :: u16"
  let ?add = "enter_port env x ?p q en1"
  assume a: "start_same en en1" and b: "start_same ?add en2" and c: "start_same (heap_push d ?p en2) en'"
  have "?p \<notin> set (en_ports en1)" using fresh a by (simp add: start_same_def)
  from started_add [OF started_start_same [OF s a] this start_slot_ok]
  have "started (se_params env) ?add" unfolding enter_port_def .
  from started_start_same [OF this b] have "started (se_params env) (heap_push d ?p en2)"
    by (rule started_same) simp_all
  from started_start_same [OF this c] a b c show ?thesis by (simp add: start_same_def enter_port_def)
qed

definition valid_ports :: "(int \<times> expiry) list \<Rightarrow> bool" where
  "valid_ports ports \<longleftrightarrow> distinct (map fst ports) \<and> list_all (\<lambda>(p, x). 0 < p \<and> p \<le> 65535) ports"

lemma word_of_port_inj:
  assumes "(word_of_int a :: u16) = word_of_int b" and "0 < a" "a \<le> 65535" "0 < b" "b \<le> 65535"
  shows "a = b"
proof -
  have "uint (word_of_int a :: u16) = a" "uint (word_of_int b :: u16) = b"
    using assms(2-5) by (simp_all add: uint_word_of_int)
  with assms(1) show ?thesis by metis
qed

lemma started_start_ports:
  assumes "start_ports env ports (v, en) = Some (v', en')" and "started (se_params env) en" and "valid_ports ports"
    and "set (en_ports en) \<inter> word_of_int ` fst ` set ports = {}"
  shows "started (se_params env) en' \<and> en_ports en' = en_ports en @ map (word_of_int \<circ> fst) ports"
  using assms
proof (induction ports arbitrary: v en)
  case (Cons px ports)
  obtain port x where px: "px = (port, x)" by (cases px)
  obtain v1 en1 where s: "start_port env x port (v, en) = Some (v1, en1)"
    and rest: "start_ports env ports (v1, en1) = Some (v', en')"
    using Cons.prems(1) by (auto simp: px split: bind_splits)
  have port: "0 < port" "port \<le> 65535" and vp: "valid_ports ports" and new: "port \<notin> fst ` set ports"
    and all: "\<And>q. q \<in> fst ` set ports \<Longrightarrow> 0 < q \<and> q \<le> 65535"
    using Cons.prems(3) by (auto simp: px valid_ports_def list_all_iff)
  have fresh: "word_of_int port \<notin> set (en_ports en)" using Cons.prems(4) by (auto simp: px)
  note one = started_start_port [OF Cons.prems(2) s fresh port]
  have "word_of_int port \<notin> (word_of_int ` fst ` set ports :: u16 set)"
    using new all port word_of_port_inj by blast
  then have "set (en_ports en1) \<inter> word_of_int ` fst ` set ports = {}"
    using Cons.prems(4) one by (auto simp: px)
  from Cons.IH [OF rest _ vp this] one show ?case by (simp add: px)
qed simp

lemma accounts_start_batch:
  assumes b: "start_batch env x v ports (batch_state budget tracker rs bs r ids now) = Some en"
    and vp: "valid_ports ports"
  shows "tally (se_params env) en \<and> en_ports en = map (word_of_int \<circ> fst) ports"
proof -
  obtain en0 v' en1 where ports: "start_ports env ports (v, en0) = Some (v', en1)"
    and start: "start_same (batch_state budget tracker rs bs r ids now) en0"
    and en: "en = en1\<lparr>en_active_count := int (length (en_ports en1)),
      en_budget := (en_budget en1)\<lparr>rb_active_ports := rb_active_ports (en_budget en1) + int (length (en_ports en1))\<rparr>\<rparr>"
    using b unfolding start_batch_def Let_def
    by (auto simp: start_same_def split: bind_splits if_splits prod.splits)
  have "started (se_params env) (batch_state budget tracker rs bs r ids now)"
    by (simp add: started_def tally_def index_ok_def batch_state_def rec_pross_empty_def ports_where_def)
  then have "started (se_params env) en0" using start by (rule started_start_same)
  moreover have "en_ports en0 = []" using start by (simp add: start_same_def batch_state_def)
  ultimately have s: "started (se_params env) en1 \<and> en_ports en1 = map (word_of_int \<circ> fst) ports"
    using started_start_ports [OF ports _ vp] by simp
  then have "tally (se_params env) (en1\<lparr>en_active_count := int (length (en_ports en1))\<rparr>)"
    unfolding started_def by blast
  then have "tally (se_params env) en" by (rule accounts_unseen) (simp add: unseen_def same_account_def en)
  with s show ?thesis by (simp add: en)
qed

section \<open>Totals\<close>

lemma account_totals:
  assumes a: "tally sp en"
  shows "length (rp_open_ports (en_result en)) + nat (rp_closed_ports (en_result en)) +
      length (rp_filtered_ports (en_result en)) + length (filter (reported_as REPORTED_NONE) (en_slots en))
    = length (en_ports en)"
    and "distinct (rp_open_ports (en_result en) @ rp_filtered_ports (en_result en))"
    and "set (rp_open_ports (en_result en) @ rp_filtered_ports (en_result en)) \<subseteq> set (en_ports en)"
    and "0 \<le> en_ports_in_retry en" and "en_ports_in_retry en \<le> en_active_count en"
    and "en_active_count en = 0 \<Longrightarrow> filter (reported_as REPORTED_NONE) (en_slots en) = []"
proof -
  let ?w = "\<lambda>v. ports_where (reported_as v) (en_ports en) (en_slots en)"
  have len: "length (en_ports en) = length (en_slots en)" and d: "distinct (en_ports en)"
    and o: "mset (rp_open_ports (en_result en)) = mset (?w REPORTED_OPEN)"
    and f: "mset (rp_filtered_ports (en_result en)) = mset (?w REPORTED_FILTERED)"
    and c: "rp_closed_ports (en_result en) = int (length (filter (reported_as REPORTED_CLOSED) (en_slots en)))"
    and act: "en_active_count en = int (length (filter (\<lambda>sl. \<not> sl_final sl) (en_slots en)))"
    and ret: "en_ports_in_retry en = int (length (filter (\<lambda>sl. pb_counted_in_retry (sl_probe sl)) (en_slots en)))"
    and ok: "\<And>sl. sl \<in> set (en_slots en) \<Longrightarrow> slot_ok sp sl"
    using a by (auto simp: tally_def index_ok_def list_all_iff)
  have four: "length (filter (reported_as REPORTED_OPEN) xs) + length (filter (reported_as REPORTED_CLOSED) xs) +
      length (filter (reported_as REPORTED_FILTERED) xs) + length (filter (reported_as REPORTED_NONE) xs) = length xs" for xs
  proof (induction xs)
    case (Cons x xs)
    then show ?case by (cases "pb_reported_state (sl_probe x)") (simp_all add: reported_as_def)
  qed simp
  have "length (rp_open_ports (en_result en)) = length (filter (reported_as REPORTED_OPEN) (en_slots en))"
    "length (rp_filtered_ports (en_result en)) = length (filter (reported_as REPORTED_FILTERED) (en_slots en))"
    using mset_eq_length [OF o] mset_eq_length [OF f] by (simp_all add: length_ports_where [OF len])
  with four [of "en_slots en"] c len show "length (rp_open_ports (en_result en)) + nat (rp_closed_ports (en_result en)) +
      length (rp_filtered_ports (en_result en)) + length (filter (reported_as REPORTED_NONE) (en_slots en))
    = length (en_ports en)" by simp
  have sets: "set (rp_open_ports (en_result en)) = set (?w REPORTED_OPEN)"
    "set (rp_filtered_ports (en_result en)) = set (?w REPORTED_FILTERED)"
    using mset_eq_setD [OF o] mset_eq_setD [OF f] by simp_all
  moreover have "set (?w REPORTED_OPEN) \<inter> set (?w REPORTED_FILTERED) = {}"
    using d by (auto simp: set_ports_where [OF len] reported_as_def nth_eq_iff_index_eq)
  moreover have "distinct (rp_open_ports (en_result en))" "distinct (rp_filtered_ports (en_result en))"
    using mset_eq_imp_distinct_iff [OF o] mset_eq_imp_distinct_iff [OF f] distinct_ports_where [OF len d] by simp_all
  ultimately show "distinct (rp_open_ports (en_result en) @ rp_filtered_ports (en_result en))" by simp
  show "set (rp_open_ports (en_result en) @ rp_filtered_ports (en_result en)) \<subseteq> set (en_ports en)"
    using sets by (auto simp: set_ports_where [OF len])
  show "0 \<le> en_ports_in_retry en" by (simp add: ret)
  have "length (filter (\<lambda>sl. pb_counted_in_retry (sl_probe sl)) xs) \<le> length (filter (\<lambda>sl. \<not> sl_final sl) xs)"
    if "\<And>sl. sl \<in> set xs \<Longrightarrow> slot_ok sp sl" for xs
    using that by (induction xs) (auto simp: slot_ok_def intro: le_SucI)
  from this [of "en_slots en"] ok show "en_ports_in_retry en \<le> en_active_count en" by (simp add: act ret)
  show "filter (reported_as REPORTED_NONE) (en_slots en) = []" if "en_active_count en = 0"
  proof -
    from that act have "filter (\<lambda>sl. \<not> sl_final sl) (en_slots en) = []" by simp
    then have "sl_final sl" if "sl \<in> set (en_slots en)" for sl using that by (simp add: filter_empty_conv)
    moreover have "pb_reported_state (sl_probe sl) \<noteq> REPORTED_NONE" if "slot_ok sp sl" "sl_final sl" for sl
      using that by (auto simp: slot_ok_def probe_ok_def phase_of_def split: if_splits)
    ultimately show ?thesis using ok by (auto simp: filter_empty_conv reported_as_def)
  qed
qed


end
