(* ===== verification/Engine_History.thy ===== *)
theory Engine_History
  imports Engine_Runs
begin

text \<open>
  How one port's slot moves in a step of the scan, and what follows over a run: what evidence stands
  behind every reported state, and how often a probe is repeated.
\<close>

section \<open>Moves of a slot\<close>

definition same_aim :: "slot \<Rightarrow> slot \<Rightarrow> bool" where
  "same_aim sl sl' \<longleftrightarrow> pb_seq (sl_probe sl') = pb_seq (sl_probe sl) \<and>
     pb_retry_count (sl_probe sl') = pb_retry_count (sl_probe sl) \<and>
     pb_retries_cap (sl_probe sl') = pb_retries_cap (sl_probe sl)"

text \<open>
  The evidence an event gives about a port, held against the slot as it was before. A segment counts when the gate
  lets it through (over IPv4 it comes from the target; over IPv6 the socket hands over no header to look at), when
  it goes from the port to a source port the probe was sent from, and when its acknowledgement, if it carries
  one, is that of the probe. A reset without one counts, with tokens in use, only while a probe is outstanding.
\<close>

definition heard_by :: "scan_env \<Rightarrow> u16 \<Rightarrow> slot \<Rightarrow> scan_event \<Rightarrow> tcp_hdr option" where
  "heard_by env port sl ev =
     (case ev of
        EvTcp k rp \<Rightarrow>
          (case tcp_gate env rp of
             Some (Some (h, ihl)) \<Rightarrow>
               if (rw_type rp = PKT_TCP6 \<or> rd_bytes (rw_data rp) 12 4 = Some (sp_dest (se_params env))) \<and>
                  th_sport h = port \<and> accepts_src_port (th_dport h) (sl_probe sl) \<and>
                  (if is_ack h then th_ack h = pb_seq (sl_probe sl) + 1
                   else \<not> use_token env \<or> \<not> is_rst h \<or> sl_outstanding sl)
               then Some h else None
           | _ \<Rightarrow> None)
      | _ \<Rightarrow> None)"

text \<open>
  A SYN-ACK opens a port for the scan types that begin a handshake, a reset does for an ACK scan and, with a
  window, for a WINDOW scan; any other reset closes it.
\<close>

definition opens :: "scan_type \<Rightarrow> tcp_hdr \<Rightarrow> bool" where
  "opens st h \<longleftrightarrow> awaits_handshake st \<and> is_syn h \<and> is_ack h \<or> is_rst h \<and> (st = ACK \<or> st = WINDOW \<and> th_win h > 0)"

definition answered_by :: "scan_env \<Rightarrow> u16 \<Rightarrow> slot \<Rightarrow> reported_state \<Rightarrow> scan_event \<Rightarrow> bool" where
  "answered_by env port sl v ev =
     (case heard_by env port sl ev of
        None \<Rightarrow> False
      | Some h \<Rightarrow>
          if opens (sp_scan_type (se_params env)) h then v = REPORTED_OPEN else is_rst h \<and> v = REPORTED_CLOSED)"

lemma verdict_opens: "verdict st h = (if opens st h then REPORTED_OPEN else if is_rst h then REPORTED_CLOSED else REPORTED_NONE)"
  by (auto simp: verdict_def opens_def)

definition icmp_verdict :: "scan_env \<Rightarrow> raw_packet \<Rightarrow> icmp_action option" where
  "icmp_verdict env rp = (if rw_type rp = PKT_ICMPV6 then icmp6_action env rp else icmp4_action env rp)"

text \<open>A message that quotes a probe of the port, whose retries are used up.\<close>

definition blocked_by :: "scan_env \<Rightarrow> u16 \<Rightarrow> slot \<Rightarrow> scan_event \<Rightarrow> bool" where
  "blocked_by env port sl ev =
     (case ev of
        EvIcmp rp \<Rightarrow>
          (case icmp_verdict env rp of
             Some (IcmpBlocked reason replier sp p sq) \<Rightarrow>
               p = port \<and> accepts_src_port sp (sl_probe sl) \<and> (\<not> use_token env \<or> sq = pb_seq (sl_probe sl)) \<and>
               pb_retries_cap (sl_probe sl) \<le> int (pb_retry_count (sl_probe sl))
           | _ \<Rightarrow> False)
      | _ \<Rightarrow> False)"

definition expired_for :: "u16 \<Rightarrow> scan_event \<Rightarrow> bool" where
  "expired_for port ev = (case ev of EvExpire x e \<Rightarrow> \<not> he_is_sentinel e \<and> he_port e = port | _ \<Rightarrow> False)"

text \<open>A deadline of the port at which no retry is left.\<close>

definition given_up_at :: "scan_env \<Rightarrow> u16 \<Rightarrow> slot \<Rightarrow> scan_event \<Rightarrow> bool" where
  "given_up_at env port sl ev \<longleftrightarrow>
     expired_for port ev \<and> (skip_retries env \<or> pb_retries_cap (sl_probe sl) \<le> int (pb_retry_count (sl_probe sl)))"

text \<open>\<open>dyn\<close> is the number of retries the budget allows at the time of the step.\<close>

inductive slot_move :: "scan_env \<Rightarrow> scan_event \<Rightarrow> int \<Rightarrow> u16 \<Rightarrow> slot \<Rightarrow> slot \<Rightarrow> bool" for env ev dyn port sl sl' where
  quiet: "same_aim sl sl' \<Longrightarrow> pb_reported_state (sl_probe sl') = pb_reported_state (sl_probe sl) \<Longrightarrow>
    slot_move env ev dyn port sl sl'"
| answer: "same_aim sl sl' \<Longrightarrow> answered_by env port sl (pb_reported_state (sl_probe sl')) ev \<Longrightarrow>
    pb_reported_state (sl_probe sl) = REPORTED_NONE \<Longrightarrow> slot_move env ev dyn port sl sl'"
| block: "same_aim sl sl' \<Longrightarrow> blocked_by env port sl ev \<Longrightarrow> pb_reported_state (sl_probe sl') = REPORTED_FILTERED \<Longrightarrow>
    int (pb_retry_count (sl_probe sl)) \<ge> pb_retries_cap (sl_probe sl) \<Longrightarrow>
    pb_reported_state (sl_probe sl) = REPORTED_NONE \<Longrightarrow> slot_move env ev dyn port sl sl'"
| retry: "expired_for port ev \<Longrightarrow> int (pb_retry_count (sl_probe sl)) < pb_retries_cap (sl_probe sl) \<Longrightarrow>
    \<not> skip_retries env \<Longrightarrow> pb_seq (sl_probe sl') = pb_seq (sl_probe sl) \<Longrightarrow>
    pb_retry_count (sl_probe sl') = pb_retry_count (sl_probe sl) + 1 \<Longrightarrow>
    pb_retries_cap (sl_probe sl') = (if pb_retry_count (sl_probe sl) = 0 then dyn else pb_retries_cap (sl_probe sl)) \<Longrightarrow>
    pb_reported_state (sl_probe sl') = pb_reported_state (sl_probe sl) \<Longrightarrow>
    pb_reported_state (sl_probe sl) = REPORTED_NONE \<Longrightarrow> slot_move env ev dyn port sl sl'"
| give_up: "same_aim sl sl' \<Longrightarrow> given_up_at env port sl ev \<Longrightarrow> pb_reported_state (sl_probe sl') = REPORTED_FILTERED \<Longrightarrow>
    skip_retries env \<or> int (pb_retry_count (sl_probe sl)) \<ge> pb_retries_cap (sl_probe sl) \<Longrightarrow>
    pb_reported_state (sl_probe sl) = REPORTED_NONE \<Longrightarrow> slot_move env ev dyn port sl sl'"

text \<open>A step moves every slot; most steps change one of them and say what becomes of it.\<close>

definition moves :: "scan_env \<Rightarrow> scan_event \<Rightarrow> engine \<Rightarrow> engine \<Rightarrow> bool" where
  "moves env ev en en' \<longleftrightarrow> en_ports en' = en_ports en \<and> length (en_slots en') = length (en_slots en) \<and>
     (\<forall>i < length (en_slots en). slot_move env ev (rb_dynamic_max_retries (en_budget en)) (en_ports en ! i)
        (en_slots en ! i) (en_slots en' ! i))"

lemma move_refl [simp]: "slot_move env ev dyn port sl sl"
  by (rule quiet) (simp_all add: same_aim_def)

lemma moves_one:
  assumes "en_ports en' = en_ports en" and "en_slots en' = (en_slots en)[i := sl]"
    and "slot_move env ev (rb_dynamic_max_retries (en_budget en)) (en_ports en ! i) (en_slots en ! i) sl"
  shows "moves env ev en en'"
  unfolding moves_def
proof (intro conjI allI impI)
  fix j
  assume j: "j < length (en_slots en)"
  then show "slot_move env ev (rb_dynamic_max_retries (en_budget en)) (en_ports en ! j) (en_slots en ! j) (en_slots en' ! j)"
    using assms(2,3) by (cases "j = i") simp_all
qed (simp_all add: assms(1,2))

lemma moves_quiet:
  assumes "en_ports en' = en_ports en" and "en_slots en' = (en_slots en)[i := sl]"
    and "same_aim (en_slots en ! i) sl"
    and "pb_reported_state (sl_probe sl) = pb_reported_state (sl_probe (en_slots en ! i))"
  shows "moves env ev en en'"
  by (rule moves_one [OF assms(1,2) quiet [OF assms(3,4)]])

lemma moves_unseen: "unseen en en' \<Longrightarrow> moves env ev en en'"
  by (simp add: moves_def unseen_def same_account_def)

lemma gate_source:
  assumes "tcp_gate env rp = Some (Some (h, ihl))"
  shows "rw_type rp = PKT_TCP6 \<or> rd_bytes (rw_data rp) 12 4 = Some (sp_dest (se_params env))"
  using assms by (auto simp: tcp_gate_def Let_def split: if_splits bind_splits)

lemma moves_classify:
  assumes a: "tally (se_params env) en" and i: "i < length (en_slots en)"
    and gate: "tcp_gate env rp = Some (Some (h, ihl))" and port: "en_ports en ! i = th_sport h"
    and nf: "\<not> sl_final (en_slots en ! i)"
    and acc: "accepts_src_port (th_dport h) (sl_probe (en_slots en ! i))" and tok: "token_ok env (en_slots en ! i) h"
    and t: "en_ports en1 = en_ports en" "en_slots en1 = (en_slots en)[i := t]"
      "same_aim (en_slots en ! i) t" "pb_reported_state (sl_probe t) = pb_reported_state (sl_probe (en_slots en ! i))"
      "probe_ok (se_params env) (sl_probe t)" "phase_of (sl_probe t) = phase_of (sl_probe (en_slots en ! i))"
  shows "moves env (EvTcp k rp) en (classify env k h n ihl i en1)"
proof -
  define r where "r = \<lparr>ry_state = sl_probe t, ry_queue = en_queue en1, ry_result = en_result en1, ry_lines = en_lines en1\<rparr>"
  obtain b r' where p: "process_response (se_params env) (th_sport h) h n ihl (rd_tsval k) r = (b, r')"
    by (cases "process_response (se_params env) (th_sport h) h n ihl (rd_tsval k) r")
  have ti: "en_slots en1 ! i = t" using i t(2) by simp
  have imp: "implements (se_params env) (th_sport h) h r b r'"
    by (rule process_implements [OF _ p]) (simp add: r_def t(5))
  define en2 where "en2 = set_slot i (t\<lparr>sl_probe := ry_state r'\<rparr>)
    (en1\<lparr>en_queue := ry_queue r', en_result := ry_result r', en_lines := ry_lines r'\<rparr>)"
  have cl: "classify env k h n ihl i en1 =
      (if b \<and> pb_final_state_determined (ry_state r') \<and> \<not> sl_final t then retire True i en2 else en2)"
    unfolding classify_def Let_def ti r_def [symmetric] p by (simp add: en2_def)
  have e2: "en_ports en2 = en_ports en" "en_slots en2 = (en_slots en)[i := t\<lparr>sl_probe := ry_state r'\<rparr>]"
    by (simp_all add: en2_def set_slot_def t(1,2))
  obtain sl where cs: "en_ports (classify env k h n ihl i en1) = en_ports en"
      "en_slots (classify env k h n ihl i en1) = (en_slots en)[i := sl]"
      "pb_seq (sl_probe sl) = pb_seq (ry_state r')" "pb_retry_count (sl_probe sl) = pb_retry_count (ry_state r')"
      "pb_retries_cap (sl_probe sl) = pb_retries_cap (ry_state r')"
      "pb_reported_state (sl_probe sl) = pb_reported_state (ry_state r')"
    using i e2 unfolding cl by (cases "b \<and> pb_final_state_determined (ry_state r') \<and> \<not> sl_final t") auto
  have aim: "same_aim (en_slots en ! i) sl"
    using imp t(3) cs by (simp add: same_aim_def implements_def same_identity_def Let_def r_def)
  show ?thesis
  proof (rule moves_one [OF cs(1,2)])
    show "slot_move env (EvTcp k rp) (rb_dynamic_max_retries (en_budget en)) (en_ports en ! i) (en_slots en ! i) sl"
    proof (cases "phase_of (sl_probe t) = Waiting \<and> credible (pb_seq (sl_probe t)) h")
      case True
      then have "pb_reported_state (sl_probe (en_slots en ! i)) = REPORTED_NONE"
        using t(4,5) by (simp add: probe_ok_def)
      moreover have "heard_by env (en_ports en ! i) (en_slots en ! i) (EvTcp k rp) = Some h"
        using True gate gate_source [OF gate] port acc tok t(3)
        by (auto simp: heard_by_def credible_def token_ok_def same_aim_def Let_def)
      moreover have "pb_reported_state (sl_probe sl) = verdict (sp_scan_type (se_params env)) h"
        using True imp cs(6) by (simp add: implements_def Let_def r_def)
      ultimately show ?thesis using aim
        by (cases "verdict (sp_scan_type (se_params env)) h = REPORTED_NONE")
          (auto simp: answered_by_def verdict_opens split: if_splits intro: quiet answer)
    next
      case False
      with imp cs(6) t(4) show ?thesis
        by (intro quiet [OF aim]) (auto simp: implements_def Let_def r_def)
    qed
  qed
qed


lemma moves_on_segment:
  assumes a: "tally (se_params env) en" and gate: "tcp_gate env rp = Some (Some (h, ihl))"
  shows "moves env (EvTcp k rp) en (on_segment env k rp h ihl en)"
proof (cases "en_index en (th_sport h)")
  case None
  then show ?thesis by (simp add: on_segment_def moves_unseen)
next
  case (Some i)
  with a have i: "i < length (en_slots en)" and port: "en_ports en ! i = th_sport h"
    using accounts_index by blast+
  let ?m = "mark_replied i en" and ?t = "measure_rtt env k h (rw_rx_us rp) i (mark_replied i en)"
  define sl where "sl = en_slots en ! i"
  define t where "t = en_slots ?t ! i"
  have m: "en_slots ?m = (en_slots en)[i := sl\<lparr>sl_replied_this_attempt := True\<rparr>]"
    unfolding sl_def by (rule mark_replied_slots [OF i])
  have slots: "en_slots ?t = (en_slots en)[i := t]"
    using measure_rtt_slots [of ?m env k h "rw_rx_us rp" i] i unfolding t_def by (auto simp: m)
  have "sl_probe t = (sl_probe sl)\<lparr>pb_rtt_measured := pb_rtt_measured (sl_probe t)\<rparr>"
    using measure_rtt_slots [of ?m env k h "rw_rx_us rp" i] i unfolding t_def by (auto simp: m measured_slot_def)
  then obtain c where t: "sl_probe t = (sl_probe sl)\<lparr>pb_rtt_measured := c\<rparr>" by blast
  have aim: "same_aim sl t" "pb_reported_state (sl_probe t) = pb_reported_state (sl_probe sl)"
    "phase_of (sl_probe t) = phase_of (sl_probe sl)" "pb_fin_sent (sl_probe t) = pb_fin_sent (sl_probe sl)"
    "pb_fin_ack_received (sl_probe t) = pb_fin_ack_received (sl_probe sl)"
    by (simp_all add: t same_aim_def phase_of_def)
  have ports: "en_ports ?t = en_ports en"
    using measure_rtt_slots [of ?m env k h "rw_rx_us rp" i] by (simp add: same_account_def)
  have ok: "probe_ok (se_params env) (sl_probe t)"
    using accounts_slot [OF a i] by (simp add: slot_ok_def probe_ok_def aim sl_def split: phase.splits)
  consider "on_segment env k rp h ihl en = en" | "on_segment env k rp h ihl en = ?m"
    | "on_segment env k rp h ihl en = classify env k h (rw_len rp) ihl i ?t" "\<not> sl_final sl"
        "accepts_src_port (th_dport h) (sl_probe sl)" "token_ok env sl h"
  proof (cases "\<not> accepts_src_port (th_dport h) (sl_probe (en_slots en ! i)) \<or> \<not> token_ok env (en_slots en ! i) h")
    case True
    then show thesis by (intro that(1)) (simp add: on_segment_def Some)
  next
    case False
    have "sl_final (en_slots ?m ! i) = sl_final sl" using i by (simp add: m)
    then have o: "on_segment env k rp h ihl en = (if sl_final sl then ?m else classify env k h (rw_len rp) ihl i ?t)"
      unfolding on_segment_def Some option.case Let_def if_not_P [OF False] by simp
    show thesis
    proof (cases "sl_final sl")
      case True
      show thesis by (rule that(2)) (simp add: o True)
    next
      case nf: False
      show thesis by (rule that(3)) (use False nf in \<open>simp_all add: o sl_def\<close>)
    qed
  qed
  then show ?thesis
  proof cases
    case 1
    then show ?thesis by (simp add: moves_unseen)
  next
    case 2
    show ?thesis unfolding 2 by (rule moves_quiet [OF _ m]) (simp_all add: same_aim_def sl_def)
  next
    case 3
    show ?thesis unfolding 3(1)
      by (rule moves_classify [OF a i gate port _ _ _ ports slots]) (use 3(2-4) aim ok in \<open>simp_all add: sl_def\<close>)
  qed
qed

lemma moves_on_tcp:
  assumes "tally (se_params env) en" and "on_tcp env k rp en = Some en'"
  shows "moves env (EvTcp k rp) en en'"
  using assms moves_on_segment moves_unseen [of en en]
  by (auto simp: on_tcp_def split: bind_splits option.splits)

lemma moves_on_icmp:
  assumes a: "tally (se_params env) en" and o: "on_icmp env rp en = Some en'"
  shows "moves env (EvIcmp rp) en en'"
proof -
  obtain act where act: "icmp_verdict env rp = Some act" and en': "en' = apply_icmp env act en"
    using o by (auto simp: on_icmp_def icmp_verdict_def split: bind_splits if_splits)
  show ?thesis
  proof (cases act)
    case (IcmpBlocked reason replier src_port port sq)
    show ?thesis
    proof (cases rule: block_port_cases [of env reason replier src_port port sq en])
      case 1
      then show ?thesis by (simp add: en' IcmpBlocked apply_icmp_def moves_unseen)
    next
      case (2 i sl res)
      have i: "i < length (en_slots en)" "en_ports en ! i = port" using accounts_index [OF a 2(1)] by simp_all
      show ?thesis unfolding en' IcmpBlocked apply_icmp_def icmp_action.case 2(9)
      proof (rule moves_one)
        show "slot_move env (EvIcmp rp) (rb_dynamic_max_retries (en_budget en)) (en_ports en ! i) (en_slots en ! i)
          ((en_slots (mark_replied i en) ! i)\<lparr>sl_final := True, sl_probe := (sl_probe sl)\<lparr>
            pb_reported_state := REPORTED_FILTERED, pb_final_state_determined := True, pb_counted_in_retry := False\<rparr>,
            sl_tx_ts_us := 0, sl_outstanding := False\<rparr>)"
          using 2(2,4-7) act IcmpBlocked i by (intro block) (auto simp: same_aim_def blocked_by_def)
      qed (use i in \<open>simp_all add: set_slot_def mark_replied_slots\<close>)
    qed
  qed (auto simp: en' apply_icmp_def intro!: moves_unseen simp: unseen_def same_account_def)
qed


text \<open>What the limiters and the heap decide leaves the budget alone.\<close>

lemma record_src_port_aim [simp]:
  "pb_seq (record_src_port p n s) = pb_seq s" "pb_retry_count (record_src_port p n s) = pb_retry_count s"
  "pb_retries_cap (record_src_port p n s) = pb_retries_cap s"
  by (simp_all add: record_src_port_def)

lemma moves_do_retry:
  assumes i: "i < length (en_slots en)" and e: "expired_for (en_ports en ! i) ev"
    and m: "may_retry env (sl_probe (en_slots en ! i))" and none: "pb_reported_state (sl_probe (en_slots en ! i)) = REPORTED_NONE"
    and d: "do_retry env x i port en1 = Some en'"
    and u: "limited en en1"
  shows "moves env ev en en'"
proof -
  define sl where "sl = en_slots en ! i"
  have s1: "en_slots en1 = en_slots en" "en_ports en1 = en_ports en" "en_budget en1 = en_budget en"
    by (simp_all add: limited_fields [OF u])
  obtain p r where en': "en' = schedule_retry env x (pb_retry_count (sl_probe sl) + 1) port
       (enter_retry (pb_retry_count (sl_probe sl) + 1) (set_slot i (retried env x en1 p sl) (en1\<lparr>en_rng := r\<rparr>)))"
    using do_retry_Some [OF d] unfolding sl_def s1 by metis
  have "unseen (enter_retry (pb_retry_count (sl_probe sl) + 1) (set_slot i (retried env x en1 p sl) (en1\<lparr>en_rng := r\<rparr>))) en'"
    unfolding en' by simp
  then have "en_slots en' = (en_slots en)[i := retried env x en1 p sl]" "en_ports en' = en_ports en"
    by (simp_all add: unseen_def same_account_def enter_retry_def set_slot_def s1 Let_def)
  from this(2,1) show ?thesis
  proof (rule moves_one)
    show "slot_move env ev (rb_dynamic_max_retries (en_budget en)) (en_ports en ! i) (en_slots en ! i)
      (retried env x en1 p sl)"
      by (rule retry [OF e])
        (use m none in \<open>simp_all add: retried_def begin_retry_def s1 sl_def may_retry_def should_mark_filtered_def Let_def\<close>)
  qed
qed




lemma undecided_none:
  "tally (se_params env) en \<Longrightarrow> i < length (en_slots en) \<Longrightarrow> undecided i en \<Longrightarrow>
    pb_reported_state (sl_probe (en_slots en ! i)) = REPORTED_NONE"
  using accounts_slot [of "se_params env" en i]
  by (auto simp: slot_ok_def probe_ok_def phase_of_def undecided_def split: if_splits)

lemma moves_fire:
  assumes a: "tally (se_params env) en" and f: "fire env x e en = Some en'" and ev: "ev = EvExpire x e"
  shows "moves env ev en en'"
  using f
proof (cases rule: fire_cases)
  case sentinel
  then show ?thesis by (simp add: moves_unseen)
next
  case ignored
  then show ?thesis by (simp add: moves_unseen)
next
  case (initial i)
  have "i < length (en_slots en)" using accounts_index [OF a initial(2)] by simp
  then show ?thesis unfolding initial(5)
    by (intro moves_quiet [of _ _ i "en_slots (send_initial env x i (he_port e) en) ! i"]) (simp_all add: send_initial_def set_slot_def same_aim_def Let_def)
next
  case (resend i)
  have "i < length (en_slots en)" using accounts_index [OF a resend(2)] by simp
  then show ?thesis unfolding resend(6)
    by (intro moves_quiet [of _ _ i "en_slots (send_retry env x i (he_port e) en) ! i"]) (simp_all add: send_retry_def set_slot_def same_aim_def Let_def)
next
  case (expired i)
  have i: "i < length (en_slots en)" "en_ports en ! i = he_port e" using accounts_index [OF a expired(2)] by simp_all
  have e: "expired_for (en_ports en ! i) ev" using expired(1) i(2) by (auto simp: ev expired_for_def)
  note none = undecided_none [OF a i(1) expired(3)]
  from expired(7) show ?thesis
  proof (cases rule: retry_or_wait_cases)
    case (waits d en1)
    then show ?thesis
      using unseen_trans [OF limited_fields(1) unseen_heap_push] by (simp add: moves_unseen)
  next
    case parks
    then show ?thesis by (simp add: moves_unseen)
  next
    case (retries en1)
    show ?thesis by (rule moves_do_retry [OF i(1) e expired(6) none retries(3,1)])
  qed
next
  case (given_up i)
  have i: "i < length (en_slots en)" "en_ports en ! i = he_port e" using accounts_index [OF a given_up(2)] by simp_all
  have e: "expired_for (en_ports en ! i) ev" using given_up(1) i(2) by (auto simp: ev expired_for_def)
  note none = undecided_none [OF a i(1) given_up(3)]
  define sl where "sl = en_slots (give_up i (he_port e) en) ! i"
  have g: "en_ports (give_up i (he_port e) en) = en_ports en"
    "en_slots (give_up i (he_port e) en) = (en_slots en)[i := sl]"
    using i by (simp_all add: give_up_def set_slot_def sl_def Let_def)
  have s: "same_aim (en_slots en ! i) sl" "pb_reported_state (sl_probe sl) = REPORTED_FILTERED"
    using i none by (simp_all add: sl_def give_up_def set_slot_def same_aim_def Let_def)
  show ?thesis unfolding given_up(7)
    by (rule moves_one [OF g slot_move.give_up [OF s(1) _ s(2) _ none]])
      (use given_up(6) e in \<open>auto simp: may_retry_def should_mark_filtered_def given_up_at_def\<close>)
qed

lemma moves_pre_submit:
  assumes a: "tally sp en"
  shows "moves env ev en (pre_submit ts v6 precise port en)"
proof (cases "en_index en port")
  case None
  then show ?thesis by (simp add: pre_submit_def moves_unseen)
next
  case (Some i)
  have "i < length (en_slots en)" using accounts_index [OF a Some] by simp
  then show ?thesis
    by (intro moves_quiet [of _ _ i "en_slots (pre_submit ts v6 precise port en) ! i"]) (simp_all add: Some pre_submit_def set_slot_def same_aim_def Let_def)
qed

lemma moves_tx_stamp: "moves env ev en (tx_stamp v6 sq ts en)"
proof (cases "en_tx_ids en v6 sq")
  case None
  then show ?thesis by (simp add: tx_stamp_def moves_unseen)
next
  case (Some ig)
  obtain i gen where ig: "ig = (i, gen)" by (cases ig)
  show ?thesis
  proof (cases "i \<ge> length (en_slots en) \<or> sl_generation (en_slots en ! i) \<noteq> gen")
    case True
    then have "unseen en (tx_stamp v6 sq ts en)"
      by (auto simp: tx_stamp_def Some ig unseen_def same_account_def)
    then show ?thesis by (rule moves_unseen)
  next
    case False
    then show ?thesis
      by (intro moves_quiet [of _ _ i "en_slots (tx_stamp v6 sq ts en) ! i"]) (simp_all add: Some ig tx_stamp_def set_slot_def same_aim_def Let_def)
  qed
qed

lemma moves_step:
  assumes "scan_step env ev st st'" and "tally (se_params env) (snd st)"
  shows "moves env ev (snd st) (snd st')"
  using assms
proof cases
  case (tcp en rp now k en')
  then show ?thesis using moves_on_tcp assms(2) by simp
next
  case (icmp en rp en' now)
  then show ?thesis using moves_on_icmp assms(2) by simp
next
  case (expire en e x now en')
  let ?en = "en\<lparr>en_heap := remove1 e (en_heap en)\<rparr>"
  have "tally (se_params env) ?en"
    by (rule accounts_unseen [OF assms(2) [unfolded expire snd_conv]]) (simp add: unseen_def same_account_def)
  then have "moves env ev ?en en'" using expire by (intro moves_fire) (simp_all add: pop_and_fire_def)
  then show ?thesis by (simp add: expire moves_def)
next
  case (submit ts v6 precise port now en)
  then show ?thesis using moves_pre_submit assms(2) by simp
next
  case (stamp v6 sq ts now en)
  then show ?thesis by (simp add: moves_tx_stamp)
qed

section \<open>Evidence\<close>

definition probe_number :: "scan_env \<Rightarrow> u16 \<Rightarrow> u32" where
  "probe_number env port =
     (if use_token env then compute_token (se_sip_k0 env) (se_sip_k1 env) port else se_seq_num env)"

definition numbered :: "scan_env \<Rightarrow> engine \<Rightarrow> bool" where
  "numbered env en \<longleftrightarrow> (\<forall>i < length (en_slots en). pb_seq (sl_probe (en_slots en ! i)) = probe_number env (en_ports en ! i))"

text \<open>
  The event that decides a port: the port's slot goes from undecided to \<open>v\<close>, and the event is evidence for \<open>v\<close>
  against the slot as it was, whose probe still has its number.
\<close>

definition decides :: "scan_env \<Rightarrow> u16 \<Rightarrow> reported_state \<Rightarrow> scan_event \<Rightarrow> engine \<Rightarrow> engine \<Rightarrow> bool" where
  "decides env port v ev en en' \<longleftrightarrow>
     (\<exists>i < length (en_slots en). let sl = en_slots en ! i in
        en_ports en ! i = port \<and> pb_seq (sl_probe sl) = probe_number env port \<and>
        pb_reported_state (sl_probe sl) = REPORTED_NONE \<and> pb_reported_state (sl_probe (en_slots en' ! i)) = v \<and>
        (if v = REPORTED_FILTERED then blocked_by env port sl ev \<or> given_up_at env port sl ev
         else answered_by env port sl v ev))"

definition decided_in :: "scan_env \<Rightarrow> int \<times> engine \<Rightarrow> scan_event list \<Rightarrow> u16 \<Rightarrow> reported_state \<Rightarrow> bool" where
  "decided_in env st evs port v \<longleftrightarrow>
     (\<exists>before ev later st1 st2. evs = before @ ev # later \<and> scan_run env before st st1 \<and> scan_step env ev st1 st2 \<and>
        decides env port v ev (snd st1) (snd st2))"

lemma answered_not_filtered: "\<not> answered_by env port sl REPORTED_FILTERED ev"
  by (auto simp: answered_by_def split: option.split)

lemma slot_move_seq: "slot_move env ev dyn port sl sl' \<Longrightarrow> pb_seq (sl_probe sl') = pb_seq (sl_probe sl)"
  by (cases rule: slot_move.cases) (auto simp: same_aim_def)

lemma numbered_moves: "moves env ev en en' \<Longrightarrow> numbered env en \<Longrightarrow> numbered env en'"
  by (auto simp: numbered_def moves_def dest!: slot_move_seq)

lemma decides_move:
  assumes "moves env ev en en'" and "numbered env en" and i: "i < length (en_slots en)"
    and v: "pb_reported_state (sl_probe (en_slots en' ! i)) = v" "pb_reported_state (sl_probe (en_slots en ! i)) \<noteq> v"
  shows "decides env (en_ports en ! i) v ev en en'"
proof -
  have nr: "pb_seq (sl_probe (en_slots en ! i)) = probe_number env (en_ports en ! i)"
    using assms(2) i by (simp add: numbered_def)
  have "slot_move env ev (rb_dynamic_max_retries (en_budget en)) (en_ports en ! i) (en_slots en ! i) (en_slots en' ! i)"
    using assms(1) i by (simp add: moves_def)
  then show ?thesis
  proof cases
    case answer
    then show ?thesis using i nr v answered_not_filtered unfolding decides_def Let_def by metis
  qed (use i nr v in \<open>auto simp: decides_def Let_def\<close>)
qed

lemma decided_in_run:
  assumes "scan_run env evs st st'" and "tally (se_params env) (snd st)" and "numbered env (snd st)"
    and "i < length (en_slots (snd st))"
  shows "en_ports (snd st') = en_ports (snd st) \<and> length (en_slots (snd st')) = length (en_slots (snd st)) \<and>
    (pb_reported_state (sl_probe (en_slots (snd st') ! i)) = pb_reported_state (sl_probe (en_slots (snd st) ! i)) \<or>
     decided_in env st evs (en_ports (snd st) ! i) (pb_reported_state (sl_probe (en_slots (snd st') ! i))))"
  using assms
proof induction
  case (stop st)
  then show ?case by simp
next
  case (move ev st st' evs st'')
  note m = moves_step [OF move.hyps(1) move.prems(1)]
  have same: "en_ports (snd st') = en_ports (snd st)" "length (en_slots (snd st')) = length (en_slots (snd st))"
    using m by (simp_all add: moves_def)
  define v where "v = pb_reported_state (sl_probe (en_slots (snd st'') ! i))"
  note ih = move.IH [OF accounts_step [OF move.hyps(1) move.prems(1)] numbered_moves [OF m move.prems(2)]]
  have "decided_in env st (ev # evs) (en_ports (snd st) ! i) v"
    if "decided_in env st' evs (en_ports (snd st) ! i) v"
  proof -
    from that obtain before e later st1 st2 where d: "evs = before @ e # later" "scan_run env before st' st1"
      "scan_step env e st1 st2" "decides env (en_ports (snd st) ! i) v e (snd st1) (snd st2)"
      unfolding decided_in_def by blast
    have "scan_run env (ev # before) st st1" by (rule scan_run.move [OF move.hyps(1) d(2)])
    then show ?thesis unfolding decided_in_def using d by (metis append_Cons)
  qed
  moreover have "decided_in env st (ev # evs) (en_ports (snd st) ! i) v"
    if "pb_reported_state (sl_probe (en_slots (snd st') ! i)) = v" "pb_reported_state (sl_probe (en_slots (snd st) ! i)) \<noteq> v"
    using decides_move [OF m move.prems(2,3) that] scan_run.stop move.hyps(1) unfolding decided_in_def by (metis append_Nil)
  moreover have "pb_reported_state (sl_probe (en_slots (snd st') ! i)) = v \<or> decided_in env st' evs (en_ports (snd st) ! i) v"
    using ih move.prems(3) unfolding same v_def by metis
  ultimately have "pb_reported_state (sl_probe (en_slots (snd st) ! i)) = v \<or> decided_in env st (ev # evs) (en_ports (snd st) ! i) v"
    by blast
  then show ?case using ih move.prems(3) same by (auto simp: v_def)
qed

text \<open>What stands behind the slots when no port was decided at first.\<close>

definition all_decided :: "scan_env \<Rightarrow> int \<times> engine \<Rightarrow> scan_event list \<Rightarrow> engine \<Rightarrow> bool" where
  "all_decided env st evs en \<longleftrightarrow>
     (\<forall>i < length (en_slots en). pb_reported_state (sl_probe (en_slots en ! i)) \<noteq> REPORTED_NONE \<longrightarrow>
        decided_in env st evs (en_ports en ! i) (pb_reported_state (sl_probe (en_slots en ! i))))"

section \<open>The state a scan starts in\<close>

definition fresh_slot :: "scan_env \<Rightarrow> u16 \<Rightarrow> slot \<Rightarrow> bool" where
  "fresh_slot env port sl \<longleftrightarrow> (\<exists>x q en. sl = start_slot env x port q en)"

definition begun :: "scan_env \<Rightarrow> rtt_tracker \<Rightarrow> retry_budget \<Rightarrow> engine \<Rightarrow> bool" where
  "begun env tr b en \<longleftrightarrow> list_all2 (fresh_slot env) (en_ports en) (en_slots en) \<and> en_queue en = [] \<and>
     map he_port (en_heap en) = rev (en_ports en) \<and> list_all (\<lambda>e. \<not> he_is_sentinel e) (en_heap en) \<and>
     en_gate_pending en = [] \<and> \<not> en_sentinel_armed en \<and> en_tracker en = tr \<and> en_budget en = b"

lemma begun_same: "begun env tr b en \<Longrightarrow> start_same en en' \<Longrightarrow> begun env tr b en'"
  by (simp add: begun_def start_same_def)

lemma begun_add:
  assumes "begun env tr b en"
  shows "begun env tr b (heap_push d p (enter_port env x p q en))"
proof -
  have "fresh_slot env p (start_slot env x p q en)" unfolding fresh_slot_def by blast
  then show ?thesis
    using assms by (simp add: begun_def heap_push_def enter_port_def list_all2_appendI)
qed

lemma begun_heap_push_same: "start_same a b \<Longrightarrow> start_same (heap_push d p a) (heap_push d p b)"
  by (simp add: start_same_def heap_push_def)

lemma begun_start_port:
  assumes "start_port env x port (v, en) = Some (v', en')" and "begun env tr b en"
  shows "begun env tr b en'"
proof (cases "0 < port \<and> port \<le> 65535")
  case True
  then show ?thesis
    using start_port_Some [OF assms(1)] begun_same [OF begun_add [OF begun_same [OF assms(2)]] start_same_trans]
      begun_heap_push_same by metis
next
  case False
  then show ?thesis using assms by (auto simp: start_port_def)
qed

lemma begun_start_ports:
  "start_ports env ports (v, en) = Some (v', en') \<Longrightarrow> begun env tr b en \<Longrightarrow> begun env tr b en'"
proof (induction ports arbitrary: v en)
  case (Cons px ports)
  obtain port x where px: "px = (port, x)" by (cases px)
  obtain v1 en1 where s: "start_port env x port (v, en) = Some (v1, en1)"
    and rest: "start_ports env ports (v1, en1) = Some (v', en')"
    using Cons.prems(1) by (auto simp: px split: bind_splits)
  show ?case by (rule Cons.IH [OF rest begun_start_port [OF s Cons.prems(2)]])
qed simp

lemma begun_start_batch:
  assumes b: "start_batch env x v ports (batch_state budget tracker rs bs r ids now) = Some en"
  obtains n where "begun env tracker (budget\<lparr>rb_active_ports := n\<rparr>) en"
proof -
  obtain en0 v' en1 where ports: "start_ports env ports (v, en0) = Some (v', en1)"
    and start: "start_same (batch_state budget tracker rs bs r ids now) en0"
    and en: "en = en1\<lparr>en_active_count := int (length (en_ports en1)),
      en_budget := (en_budget en1)\<lparr>rb_active_ports := rb_active_ports (en_budget en1) + int (length (en_ports en1))\<rparr>\<rparr>"
    using b unfolding start_batch_def Let_def
    by (auto simp: start_same_def split: bind_splits if_splits prod.splits)
  have "begun env tracker budget (batch_state budget tracker rs bs r ids now)"
    by (simp add: begun_def batch_state_def)
  then have "begun env tracker budget en1" using begun_start_ports [OF ports] start begun_same by blast
  then show thesis by (intro that) (simp add: begun_def en)
qed

lemma fresh_undecided:
  "fresh_slot env port sl \<Longrightarrow> pb_seq (sl_probe sl) = probe_number env port \<and> pb_reported_state (sl_probe sl) = REPORTED_NONE"
  by (auto simp: fresh_slot_def start_slot_def probe_number_def)

lemma begun_undecided:
  "begun env tr b en \<Longrightarrow> numbered env en \<and> (\<forall>i < length (en_slots en). pb_reported_state (sl_probe (en_slots en ! i)) = REPORTED_NONE)"
  using fresh_undecided by (auto simp: begun_def numbered_def list_all2_conv_all_nth)

interpretation ports: step_invariant env "\<lambda>_. True" "\<lambda>st. en_ports (snd st) = ps" for env ps
  by unfold_locales (use moves_step in \<open>auto simp: moves_def\<close>)

text \<open>All that a run from the start of a batch keeps.\<close>

lemma start_run:
  assumes b: "start_batch env x v ports (batch_state budget tracker rs bs r ids now) = Some en0"
    and vp: "valid_ports ports" and run: "scan_run env evs (t0, en0) (t, en)"
  shows "tally (se_params env) en" and "en_ports en = map (word_of_int \<circ> fst) ports"
    and "all_decided env (t0, en0) evs en"
proof -
  note a = accounts_start_batch [OF b vp]
  then show acc: "tally (se_params env) en" using accounts_run [OF run] by simp
  from ports.run [OF run, of "en_ports en0"] a show "en_ports en = map (word_of_int \<circ> fst) ports"
    by (simp add: list_all_iff)
  obtain n where "begun env tracker (budget\<lparr>rb_active_ports := n\<rparr>) en0" by (rule begun_start_batch [OF b])
  note beg = begun_undecided [OF this]
  have same: "en_ports en = en_ports en0" using ports.run [OF run, of "en_ports en0"] a by (simp add: list_all_iff)
  then have len: "length (en_slots en) = length (en_slots en0)" using acc a by (simp add: tally_def index_ok_def)
  have "decided_in env (t0, en0) evs (en_ports en ! i) (pb_reported_state (sl_probe (en_slots en ! i)))"
    if "i < length (en_slots en)" "pb_reported_state (sl_probe (en_slots en ! i)) \<noteq> REPORTED_NONE" for i
    using decided_in_run [OF run, of i] a beg that same len by simp
  then show "all_decided env (t0, en0) evs en" by (simp add: all_decided_def)
qed

end
