(* ===== verification/Engine_Traffic.thy ===== *)
theory Engine_Traffic
  imports Engine_History
begin

text \<open>
  How much a scan sends: the retries of a port stay within the limits of the tuning, and all packets a
  batch ever queues are bounded by its number of ports.
\<close>

section \<open>The retry budget\<close>

lemma clamp_bounds: "lo \<le> hi \<Longrightarrow> lo \<le> clamp x lo hi \<and> clamp x lo hi \<le> hi"
  by (auto simp: clamp_def)

definition tune_ok :: "cong_tune \<Rightarrow> bool" where
  "tune_ok tune \<longleftrightarrow> 0 \<le> ct_min_retries tune \<and> ct_min_retries tune \<le> ct_max_retries tune"

definition budget_ok :: "cong_tune \<Rightarrow> retry_budget \<Rightarrow> bool" where
  "budget_ok tune b \<longleftrightarrow>
     ct_min_retries tune \<le> rb_dynamic_max_retries b \<and> rb_dynamic_max_retries b \<le> ct_max_retries tune \<and>
     0 \<le> rb_congestion_ratio b \<and> rb_congestion_ratio b \<le> 1"

lemma budget_ok_init: "tune_ok tune \<Longrightarrow> budget_ok tune (budget_init tune)"
  by (simp add: tune_ok_def budget_ok_def budget_init_def)

lemma budget_ok_update: "tune_ok tune \<Longrightarrow> budget_ok tune (update_congestion tune lib ratio b)"
  unfolding update_congestion_def Let_def tune_ok_def budget_ok_def
  using clamp_bounds [of "ct_min_retries tune" "ct_max_retries tune"] clamp_bounds [of 0 "1 :: rat"] by simp

lemma budget_ok_counts [simp]:
  "budget_ok tune (b\<lparr>rb_active_ports := n\<rparr>) = budget_ok tune b"
  "budget_ok tune (b\<lparr>rb_active_ports := n, rb_ports_in_retry := m\<rparr>) = budget_ok tune b"
  "budget_ok tune (b\<lparr>rb_ports_in_retry := m\<rparr>) = budget_ok tune b"
  by (simp_all add: budget_ok_def)

lemma budget_retire [simp]: "budget_ok tune (en_budget (retire c i en)) = budget_ok tune (en_budget en)"
  by (simp add: retire_def set_slot_def Let_def)

lemma budget_mark_measure [simp]:
  "en_budget (mark_replied i en) = en_budget en" "en_budget (measure_rtt env k h rx i en) = en_budget en"
  by (simp_all add: mark_replied_def measure_rtt_def set_slot_def release_pending_eq Let_def split: option.split)

lemma budget_classify [simp]:
  "budget_ok tune (en_budget (classify env k h n ihl i en)) = budget_ok tune (en_budget en)"
  by (simp add: classify_def set_slot_def Let_def split: prod.split)

lemma budget_on_segment [simp]:
  "budget_ok tune (en_budget (on_segment env k rp h ihl en)) = budget_ok tune (en_budget en)"
  by (simp add: on_segment_def Let_def split: option.split)

lemma budget_apply_icmp [simp]:
  "budget_ok tune (en_budget (apply_icmp env act en)) = budget_ok tune (en_budget en)"
proof (cases act)
  case (IcmpBlocked reason replier src_port port sq)
  then show ?thesis
    by (cases rule: block_port_cases [of env reason replier src_port port sq en])
      (simp_all add: apply_icmp_def set_slot_def)
qed (simp_all add: apply_icmp_def)

lemma budget_do_retry:
  assumes "tune_ok (se_tune env)" and "do_retry env x i port en = Some en'"
  shows "budget_ok (se_tune env) (en_budget en')"
  using assms(2) by (rule do_retry_Some) (simp add: schedule_retry_def budget_ok_update [OF assms(1)] Let_def)

lemma budget_fire:
  assumes t: "tune_ok (se_tune env)" and f: "fire env x e en = Some en'"
    and b: "budget_ok (se_tune env) (en_budget en)"
  shows "budget_ok (se_tune env) (en_budget en')"
  using f
proof (cases rule: fire_cases)
  case (expired i)
  from expired(7) show ?thesis
  proof (cases rule: retry_or_wait_cases)
    case (waits d en1)
    then show ?thesis using b limited_fields(6) by simp
  next
    case parks
    then show ?thesis using b by simp
  next
    case (retries en1)
    then show ?thesis using budget_do_retry [OF t] by blast
  qed
next
  case (given_up i)
  then show ?thesis using b by (simp add: give_up_def set_slot_def Let_def)
qed (use b in \<open>simp_all add: release_pending_eq send_initial_def send_retry_def set_slot_def Let_def\<close>)

lemma budget_step:
  assumes "scan_step env ev st st'" and "tune_ok (se_tune env)" and "budget_ok (se_tune env) (en_budget (snd st))"
  shows "budget_ok (se_tune env) (en_budget (snd st'))"
  using assms(1)
proof cases
  case (tcp en rp now k en')
  then show ?thesis using assms(3) by (auto simp: on_tcp_def split: bind_splits option.splits)
next
  case (icmp en rp en' now)
  then show ?thesis using assms(3) by (auto simp: on_icmp_def split: bind_splits)
next
  case (expire en e x now en')
  then show ?thesis using budget_fire [OF assms(2)] assms(3) by (simp add: pop_and_fire_def)
next
  case (submit ts v6 precise port now en)
  then show ?thesis using assms(3) by (simp add: pre_submit_def set_slot_def Let_def split: option.split)
next
  case (stamp v6 sq ts now en)
  then show ?thesis using assms(3)
    by (simp add: tx_stamp_def set_slot_def Let_def split: option.split prod.split)
qed

section \<open>Retries\<close>

definition retry_ok :: "scan_env \<Rightarrow> slot \<Rightarrow> bool" where
  "retry_ok env sl \<longleftrightarrow>
     (let s = sl_probe sl; n = pb_retry_count s; t = se_tune env in
      (if n = 0 then pb_retries_cap s = ct_min_retries t
       else int n \<le> pb_retries_cap s \<and> ct_min_retries t \<le> pb_retries_cap s \<and> pb_retries_cap s \<le> ct_max_retries t) \<and>
      (pb_reported_state s = REPORTED_FILTERED \<longrightarrow> skip_retries env \<or> pb_retries_cap s \<le> int n))"

lemma retry_ok_move:
  assumes "slot_move env ev dyn port sl sl'" and "retry_ok env sl"
    and "ct_min_retries (se_tune env) \<le> dyn" and "dyn \<le> ct_max_retries (se_tune env)"
  shows "retry_ok env sl'"
  using assms(1)
proof cases
  case quiet
  then show ?thesis using assms(2) by (simp add: retry_ok_def same_aim_def Let_def)
next
  case answer
  then show ?thesis using assms(2) answered_not_filtered
    by (cases "pb_reported_state (sl_probe sl') = REPORTED_FILTERED") (simp_all add: retry_ok_def same_aim_def Let_def)
next
  case block
  then show ?thesis using assms(2) by (simp add: retry_ok_def same_aim_def Let_def)
next
  case retry
  then show ?thesis using assms(2-4) by (auto simp: retry_ok_def Let_def split: if_splits)
next
  case give_up
  then show ?thesis using assms(2) by (auto simp: retry_ok_def same_aim_def Let_def)
qed

definition retries_ok :: "scan_env \<Rightarrow> engine \<Rightarrow> bool" where
  "retries_ok env en \<longleftrightarrow> budget_ok (se_tune env) (en_budget en) \<and>
     (\<forall>i < length (en_slots en). retry_ok env (en_slots en ! i))"

lemma retries_ok_step:
  assumes "scan_step env ev st st'" and "tally (se_params env) (snd st)" and "tune_ok (se_tune env)"
    and "retries_ok env (snd st)"
  shows "retries_ok env (snd st')"
proof -
  define en where "en = snd st"
  define en' where "en' = snd st'"
  have m: "length (en_slots en') = length (en_slots en)"
    "\<And>i. i < length (en_slots en) \<Longrightarrow> slot_move env ev (rb_dynamic_max_retries (en_budget en)) (en_ports en ! i)
      (en_slots en ! i) (en_slots en' ! i)"
    using moves_step [OF assms(1,2)] unfolding moves_def en_def en'_def by blast+
  have b: "ct_min_retries (se_tune env) \<le> rb_dynamic_max_retries (en_budget en)"
    "rb_dynamic_max_retries (en_budget en) \<le> ct_max_retries (se_tune env)"
    "\<And>i. i < length (en_slots en) \<Longrightarrow> retry_ok env (en_slots en ! i)"
    using assms(4) unfolding retries_ok_def budget_ok_def en_def by blast+
  have "retry_ok env (en_slots en' ! i)" if "i < length (en_slots en')" for i
    by (rule retry_ok_move [OF m(2) b(3) b(1,2)]) (use that m(1) in simp_all)
  then show ?thesis using budget_step [OF assms(1,3)] assms(4) by (simp add: retries_ok_def en'_def)
qed

section \<open>Packets\<close>

text \<open>
  What a slot may still put into the queue: a probe that is due, one for every retry that is left, and
  the three packets that close a connection. \<open>stock\<close> adds what is in the queue already.
\<close>

fun reply_credit :: "phase \<Rightarrow> nat" where
  "reply_credit Waiting = 3"
| "reply_credit Closing = 1"
| "reply_credit Decided = 0"

definition slot_credit :: "nat \<Rightarrow> slot \<Rightarrow> nat" where
  "slot_credit m sl = (let s = sl_probe sl in
     of_bool (pb_initial_send_deferred s) + of_bool (pb_retry_send_deferred s) + (m - pb_retry_count s) +
     reply_credit (phase_of s))"

definition stock :: "nat \<Rightarrow> engine \<Rightarrow> nat" where
  "stock m en = length (en_queue en) + sum_list (map (slot_credit m) (en_slots en))"

lemma stock_update:
  assumes "i < length (en_slots en)" and "en_slots en' = (en_slots en)[i := sl]"
    and "length (en_queue en') + slot_credit m sl \<le> length (en_queue en) + slot_credit m (en_slots en ! i)"
  shows "stock m en' \<le> stock m en"
proof -
  have "slot_credit m (en_slots en ! i) \<le> sum_list (map (slot_credit m) (en_slots en))"
    using assms(1) by (intro member_le_sum_list) simp_all
  then show ?thesis
    using assms by (simp add: stock_def map_update sum_list_update)
qed

lemma stock_quiet:
  assumes "en_queue en' = en_queue en" and "en_slots en' = (en_slots en)[i := sl]"
    and "i < length (en_slots en) \<Longrightarrow> slot_credit m sl \<le> slot_credit m (en_slots en ! i)"
  shows "stock m en' \<le> stock m en"
proof (cases "i < length (en_slots en)")
  case True
  then show ?thesis using assms by (intro stock_update) simp_all
next
  case False
  then have "en_slots en' = en_slots en" using assms(2) by (simp add: list_update_beyond)
  then show ?thesis using assms(1) by (simp add: stock_def)
qed

lemma process_credit:
  assumes ok: "probe_ok sp (ry_state r)" and p: "process_response sp port h n ihl tsval r = (b, r')"
  shows "length (ry_queue r') + reply_credit (phase_of (ry_state r')) \<le>
    length (ry_queue r) + reply_credit (phase_of (ry_state r))"
proof -
  have q: "ry_queue (report_open sp port label w r) = ry_queue r" "ry_queue (report_closed sp port w r) = ry_queue r"
    "ry_queue (settle r) = ry_queue r" "phase_of (ry_state (settle r)) = Decided" for label w r
    by (simp_all add: report_open_def report_closed_def settle_def phase_of_def)
  have e: "pb_final_state_determined (ry_state (report_open sp port label w r)) = pb_final_state_determined (ry_state r)"
    "pb_connection_established (ry_state (report_open sp port label w r)) = pb_connection_established (ry_state r)"
    for label w r by (simp_all add: report_open_def)
  show ?thesis
  proof (cases "phase_of (ry_state r) = Decided")
    case True
    then have "r' = r" using p by (simp add: process_response_def phase_of_def split: if_splits)
    then show ?thesis by simp
  next
    case nd: False
    show ?thesis
    proof (cases "r' = r")
      case False
      have sw: "switch_case sp port h tsval r = Some r' \<or>
          switch_case sp port h tsval r = None \<and> after_switch sp port h n ihl tsval r = (b, r')"
        using p False unfolding process_response_def Let_def by (auto split: if_splits option.splits)
      have credit: "1 \<le> reply_credit (phase_of (ry_state r))"
        using nd by (cases "phase_of (ry_state r)") simp_all
      have "ry_queue r' = ry_queue r \<and> phase_of (ry_state r') = Decided \<or>
          r' = take_syn_ack sp port h tsval r \<and> \<not> pb_connection_established (ry_state r) \<or>
          r' = take_fin sp port h n ihl tsval r"
      proof (cases "awaits_handshake (sp_scan_type sp)")
        case True
        then show ?thesis using sw False
          by (auto simp: switch_awaits handshake_case_def after_switch_def q Let_def split: if_splits)
      next
        case other: False
        then show ?thesis using sw False
          by (auto simp: switch_others after_switch_def q Let_def split: if_splits)
      qed
      then show ?thesis
      proof (elim disjE)
        assume "r' = take_syn_ack sp port h tsval r \<and> \<not> pb_connection_established (ry_state r)"
        then show ?thesis using nd
          by (auto simp: take_syn_ack_def q closing_tasks_def phase_of_def report_open_def settle_def Let_def)
      next
        assume "r' = take_fin sp port h n ihl tsval r"
        then show ?thesis using credit by (simp add: take_fin_def phase_of_def Let_def)
      qed simp
    qed simp
  qed
qed

lemma credit_standing:
  "pb_initial_send_deferred (sl_probe sl') = pb_initial_send_deferred (sl_probe sl) \<Longrightarrow>
    pb_retry_send_deferred (sl_probe sl') = pb_retry_send_deferred (sl_probe sl) \<Longrightarrow>
    pb_retry_count (sl_probe sl') = pb_retry_count (sl_probe sl) \<Longrightarrow>
    reply_credit (phase_of (sl_probe sl')) \<le> reply_credit (phase_of (sl_probe sl)) \<Longrightarrow>
    slot_credit m sl' \<le> slot_credit m sl"
  by (simp add: slot_credit_def Let_def)

lemma retire_queue [simp]: "en_queue (retire c i en) = en_queue en"
  by (simp add: retire_def set_slot_def Let_def)

lemma stock_retire: "stock m (retire c i en) \<le> stock m en"
  by (rule stock_quiet [OF retire_queue retire_fields(10)])
    (simp add: slot_credit_def phase_of_def Let_def)

lemma stock_mark_replied: "stock m (mark_replied i en) \<le> stock m en"
proof (cases "sl_replied_this_attempt (en_slots en ! i)")
  case False
  then show ?thesis
    by (intro stock_quiet [where i = i and sl = "(en_slots en ! i)\<lparr>sl_replied_this_attempt := True\<rparr>"])
      (simp_all add: mark_replied_def set_slot_def slot_credit_def Let_def)
qed (simp add: mark_replied_def)

lemma measured_credit: "slot_credit m (measured_slot sl) = slot_credit m sl"
  by (simp add: slot_credit_def measured_slot_def phase_of_def Let_def)

lemma stock_measure_rtt: "stock m (measure_rtt env k h rx i en) \<le> stock m en"
proof (cases "measure_rtt env k h rx i en = en")
  case False
  then show ?thesis
    using measure_rtt_slots [of en env k h rx i]
    by (intro stock_quiet [where i = i and sl = "measured_slot (en_slots en ! i)"])
      (simp_all add: measure_rtt_def set_slot_def release_pending_eq measured_credit Let_def split: option.split)
qed simp

lemma stock_classify:
  assumes a: "tally (se_params env) en" and i: "i < length (en_slots en)"
  shows "stock m (classify env k h n ihl i en) \<le> stock m en"
proof -
  define sl where "sl = en_slots en ! i"
  define r where "r = \<lparr>ry_state = sl_probe sl, ry_queue = en_queue en, ry_result = en_result en, ry_lines = en_lines en\<rparr>"
  obtain b r' where p: "process_response (se_params env) (th_sport h) h n ihl (rd_tsval k) r = (b, r')"
    by (cases "process_response (se_params env) (th_sport h) h n ihl (rd_tsval k) r")
  define en2 where "en2 = set_slot i (sl\<lparr>sl_probe := ry_state r'\<rparr>)
    (en\<lparr>en_queue := ry_queue r', en_result := ry_result r', en_lines := ry_lines r'\<rparr>)"
  have cl: "classify env k h n ihl i en =
      (if b \<and> pb_final_state_determined (ry_state r') \<and> \<not> sl_final sl then retire True i en2 else en2)"
    unfolding classify_def Let_def sl_def [symmetric] r_def [symmetric] p by (simp add: en2_def)
  have ok: "probe_ok (se_params env) (ry_state r)"
    using accounts_slot [OF a i] by (simp add: slot_ok_def r_def sl_def)
  note imp = process_implements [OF ok p] and cr = process_credit [OF ok p]
  have "stock m en2 \<le> stock m en"
    by (rule stock_update [OF i, of _ "sl\<lparr>sl_probe := ry_state r'\<rparr>"])
      (use imp cr in \<open>simp_all add: en2_def set_slot_def slot_credit_def implements_def same_identity_def
        r_def sl_def Let_def\<close>)
  then show ?thesis unfolding cl using stock_retire [of m True i en2] by simp
qed

lemma stock_on_segment:
  assumes a: "tally (se_params env) en"
  shows "stock m (on_segment env k rp h ihl en) \<le> stock m en"
proof (cases "en_index en (th_sport h)")
  case None
  then show ?thesis by (simp add: on_segment_def)
next
  case (Some i)
  let ?m = "mark_replied i en" and ?t = "measure_rtt env k h (rw_rx_us rp) i (mark_replied i en)"
  have i: "i < length (en_slots en)" using accounts_index [OF a Some] by simp
  have m: "tally (se_params env) ?m" by (rule accounts_mark_replied [OF a i])
  have t: "tally (se_params env) ?t" by (rule accounts_measure_rtt [OF m]) (simp add: i)
  have "i < length (en_slots ?t)" using i measure_rtt_slots [of ?m env k h "rw_rx_us rp" i] by auto
  from stock_classify [OF t this, of m k h "rw_len rp" ihl]
  have "stock m (classify env k h (rw_len rp) ihl i ?t) \<le> stock m en"
    using stock_mark_replied [of m i en] stock_measure_rtt [of m env k h "rw_rx_us rp" i ?m] by linarith
  then show ?thesis by (simp add: on_segment_def Some stock_mark_replied Let_def)
qed

lemma stock_apply_icmp: "stock m (apply_icmp env act en) \<le> stock m en"
proof (cases act)
  case (IcmpBlocked reason replier src_port port sq)
  show ?thesis
  proof (cases rule: block_port_cases [of env reason replier src_port port sq en])
    case 1
    then show ?thesis by (simp add: IcmpBlocked apply_icmp_def)
  next
    case (2 i sl res)
    let ?s = "(sl_probe sl)\<lparr>pb_reported_state := REPORTED_FILTERED, pb_final_state_determined := True\<rparr>"
    let ?sl = "(en_slots (mark_replied i en) ! i)\<lparr>sl_probe := ?s\<rparr>"
    let ?en = "set_slot i ?sl ((mark_replied i en)\<lparr>en_result := res\<rparr>)"
    have "stock m ?en \<le> stock m (mark_replied i en)"
      by (rule stock_quiet [where i = i and sl = ?sl])
        (use 2(2) in \<open>simp_all add: set_slot_def mark_replied_slots slot_credit_def phase_of_def Let_def\<close>)
    then show ?thesis
      using stock_retire [of m True i ?en] stock_mark_replied [of m i en] by (simp add: IcmpBlocked apply_icmp_def 2(9))
  qed
qed (simp_all add: apply_icmp_def stock_def)

lemma stock_heap_push [simp]: "stock m (heap_push d p en) = stock m en"
  by (simp add: stock_def)

lemma stock_limited: "limited en en' \<Longrightarrow> stock m en' = stock m en"
  by (simp add: stock_def limited_fields)

lemma stock_send_initial:
  assumes "i < length (en_slots en)" and "pb_initial_send_deferred (sl_probe (en_slots en ! i))"
  shows "stock m (send_initial env x i port en) \<le> stock m en"
  by (rule stock_update [OF assms(1), where sl = "en_slots (send_initial env x i port en) ! i"])
    (use assms in \<open>simp_all add: send_initial_def set_slot_def slot_credit_def phase_of_def Let_def\<close>)

lemma stock_send_retry:
  assumes "i < length (en_slots en)" and "pb_retry_send_deferred (sl_probe (en_slots en ! i))"
  shows "stock m (send_retry env x i port en) \<le> stock m en"
  by (rule stock_update [OF assms(1), where sl = "en_slots (send_retry env x i port en) ! i"])
    (use assms in \<open>simp_all add: send_retry_def set_slot_def slot_credit_def phase_of_def Let_def\<close>)

lemma stock_give_up: "stock m (give_up i port en) \<le> stock m en"
proof -
  define s where "s = sl_probe (en_slots en ! i)"
  define sl where "sl = (en_slots en ! i)\<lparr>sl_probe := s\<lparr>pb_reported_state :=
    (if pb_reported_state s = REPORTED_NONE then REPORTED_FILTERED else pb_reported_state s),
    pb_final_state_determined := True\<rparr>\<rparr>"
  obtain en1 where g: "give_up i port en = retire False i en1" "en_queue en1 = en_queue en"
      "en_slots en1 = (en_slots en)[i := sl]"
    unfolding give_up_def Let_def sl_def s_def by (auto simp: set_slot_def)
  have "stock m en1 \<le> stock m en"
    by (rule stock_quiet [OF g(2,3)]) (simp add: sl_def s_def slot_credit_def phase_of_def Let_def)
  then show ?thesis using stock_retire [of m False i en1] by (simp add: g(1))
qed

lemma retry_queue [simp]:
  "en_queue (schedule_retry env x n port en) = en_queue en" "en_queue (enter_retry n en) = en_queue en"
  by (simp_all add: schedule_retry_def enter_retry_def Let_def)

lemma stock_do_retry:
  assumes i: "i < length (en_slots en)" and d: "do_retry env x i port en = Some en'"
    and s: "\<not> pb_retry_send_deferred (sl_probe (en_slots en ! i))"
      "pb_retry_count (sl_probe (en_slots en ! i)) < m"
  shows "stock m en' \<le> stock m en"
proof -
  define sl where "sl = en_slots en ! i"
  obtain p r where en': "en' = schedule_retry env x (pb_retry_count (sl_probe sl) + 1) port
       (enter_retry (pb_retry_count (sl_probe sl) + 1) (set_slot i (retried env x en p sl) (en\<lparr>en_rng := r\<rparr>)))"
    using do_retry_Some [OF d] unfolding sl_def by metis
  define en1 where "en1 = enter_retry (pb_retry_count (sl_probe sl) + 1) (set_slot i (retried env x en p sl) (en\<lparr>en_rng := r\<rparr>))"
  have "unseen en1 en'" by (simp add: en' en1_def)
  then have "en_slots en' = (en_slots en)[i := retried env x en p sl]"
    by (simp add: unseen_def en1_def enter_retry_def set_slot_def Let_def)
  moreover have "en_queue en' = en_queue en" by (simp add: en' set_slot_def)
  ultimately show ?thesis
  proof (intro stock_update [OF i])
    have "pb_initial_send_deferred (sl_probe (retried env x en p sl)) = pb_initial_send_deferred (sl_probe sl)"
      "phase_of (sl_probe (retried env x en p sl)) = phase_of (sl_probe sl)"
      by (simp_all add: retried_def begin_retry_def record_src_port_def phase_of_def Let_def)
    then show "length (en_queue en') + slot_credit m (retried env x en p sl) \<le>
        length (en_queue en) + slot_credit m (en_slots en ! i)" if "en_queue en' = en_queue en"
      using s that by (simp add: slot_credit_def retried_def begin_retry_def sl_def Let_def)
  qed
qed

lemma retry_room:
  assumes "retry_ok env sl" and "may_retry env (sl_probe sl)" and "tune_ok (se_tune env)"
  shows "pb_retry_count (sl_probe sl) < nat (ct_max_retries (se_tune env))"
  using assms by (auto simp: retry_ok_def may_retry_def should_mark_filtered_def tune_ok_def Let_def split: if_splits)

lemma stock_fire:
  assumes a: "tally (se_params env) en" and r: "retries_ok env en" and t: "tune_ok (se_tune env)"
    and f: "fire env x e en = Some en'" and m: "m = nat (ct_max_retries (se_tune env))"
  shows "stock m en' \<le> stock m en"
  using f
proof (cases rule: fire_cases)
  case sentinel
  then show ?thesis by (simp add: stock_def release_pending_eq)
next
  case ignored
  then show ?thesis by simp
next
  case (initial i)
  then show ?thesis using stock_send_initial accounts_index [OF a initial(2)] by simp
next
  case (resend i)
  then show ?thesis using stock_send_retry accounts_index [OF a resend(2)] by simp
next
  case (expired i)
  have i: "i < length (en_slots en)" using accounts_index [OF a expired(2)] by simp
  have room: "pb_retry_count (sl_probe (en_slots en ! i)) < m"
    unfolding m by (rule retry_room [OF _ expired(6) t]) (use r i in \<open>simp add: retries_ok_def\<close>)
  from expired(7) show ?thesis
  proof (cases rule: retry_or_wait_cases)
    case (waits d en1)
    then show ?thesis by (simp add: stock_limited)
  next
    case parks
    have "en_queue (park env (he_port e) en) = en_queue en" by (simp add: park_def)
    then show ?thesis by (simp add: parks stock_def)
  next
    case (retries en1)
    note l = limited_fields [OF retries(1)]
    have "stock m en' \<le> stock m en1"
      by (rule stock_do_retry [OF _ retries(3)]) (use i expired(5) room in \<open>simp_all add: l\<close>)
    then show ?thesis by (simp add: stock_limited [OF retries(1)])
  qed
next
  case (given_up i)
  then show ?thesis using stock_give_up by simp
qed

lemma stock_pre_submit: "stock m (pre_submit ts v6 precise port en) \<le> stock m en"
proof (cases "en_index en port")
  case None
  then show ?thesis by (simp add: pre_submit_def)
next
  case (Some i)
  show ?thesis
    by (rule stock_quiet [where i = i and sl = "(en_slots en ! i)\<lparr>sl_outstanding := True,
        sl_real_tx_ts_us := nat (ts div 1000), sl_probe := (sl_probe (en_slots en ! i))\<lparr>pb_syn_sent_time := ts\<rparr>\<rparr>"])
      (simp_all add: Some pre_submit_def set_slot_def slot_credit_def phase_of_def Let_def)
qed

lemma stock_tx_stamp: "stock m (tx_stamp v6 sq ts en) \<le> stock m en"
proof (cases "en_tx_ids en v6 sq")
  case None
  then show ?thesis by (simp add: tx_stamp_def)
next
  case (Some ig)
  obtain i gen where ig: "ig = (i, gen)" by (cases ig)
  show ?thesis
  proof (cases "i \<ge> length (en_slots en) \<or> sl_generation (en_slots en ! i) \<noteq> gen")
    case True
    then have "stock m (tx_stamp v6 sq ts en) = stock m en" by (auto simp: tx_stamp_def Some ig stock_def)
    then show ?thesis by simp
  next
    case False
    then show ?thesis
      by (intro stock_quiet [where i = i and sl = "(en_slots en ! i)\<lparr>sl_tx_ts_us := ts, sl_tx_ts_precise := True\<rparr>"])
        (simp_all add: Some ig tx_stamp_def set_slot_def slot_credit_def Let_def)
  qed
qed

lemma stock_step:
  assumes s: "scan_step env ev st st'" and a: "tally (se_params env) (snd st)" and r: "retries_ok env (snd st)"
    and t: "tune_ok (se_tune env)" and m: "m = nat (ct_max_retries (se_tune env))"
  shows "stock m (snd st') \<le> stock m (snd st)"
  using s
proof cases
  case (tcp en rp now k en')
  then show ?thesis using stock_on_segment a by (auto simp: on_tcp_def split: bind_splits option.splits)
next
  case (icmp en rp en' now)
  then show ?thesis using stock_apply_icmp by (auto simp: on_icmp_def split: bind_splits)
next
  case (expire en e x now en')
  let ?en = "en\<lparr>en_heap := remove1 e (en_heap en)\<rparr>"
  have "tally (se_params env) ?en"
    by (rule accounts_unseen [OF a [unfolded expire snd_conv]]) (simp add: unseen_def same_account_def)
  moreover have "retries_ok env ?en" using r expire by (simp add: retries_ok_def)
  ultimately have "stock m en' \<le> stock m ?en"
    using expire m by (intro stock_fire [OF _ _ t]) (simp_all add: pop_and_fire_def)
  then show ?thesis by (simp add: expire stock_def)
next
  case (submit ts v6 precise port now en)
  then show ?thesis by (simp add: stock_pre_submit)
next
  case (stamp v6 sq ts now en)
  then show ?thesis by (simp add: stock_tx_stamp)
qed

interpretation traffic: step_invariant env "\<lambda>_. True" "\<lambda>st. tune_ok (se_tune env) \<and> retries_ok env (snd st) \<and>
    stock (nat (ct_max_retries (se_tune env))) (snd st) \<le> n" for env n
  by unfold_locales (use retries_ok_step stock_step le_trans in blast)

end
