(* ===== verification/Engine_Deadlines.thy ===== *)
theory Engine_Deadlines
  imports Engine_History
begin

text \<open>
  The heap of deadlines: a port that is still undecided is always waited for, and a port whose
  connection is being closed is not.
\<close>

section \<open>Who is waited for\<close>

definition has_entry :: "u16 \<Rightarrow> engine \<Rightarrow> bool" where
  "has_entry p en \<longleftrightarrow> (\<exists>e\<in>set (en_heap en). \<not> he_is_sentinel e \<and> he_port e = p)"

definition has_sentinel :: "engine \<Rightarrow> bool" where
  "has_sentinel en \<longleftrightarrow> (\<exists>e\<in>set (en_heap en). he_is_sentinel e)"

definition sentinels_ok :: "scan_env \<Rightarrow> engine \<Rightarrow> bool" where
  "sentinels_ok env en \<longleftrightarrow> (\<forall>e\<in>set (en_heap en). he_is_sentinel e \<longrightarrow> he_deadline e = se_phase1_deadline env)"

text \<open>
  Ports are parked only before the first measurement, with a sentinel in the heap; once armed, the
  sentinel stays there until the deadline of the first phase.
\<close>

definition parking_ok :: "scan_env \<Rightarrow> int \<Rightarrow> engine \<Rightarrow> bool" where
  "parking_ok env t en \<longleftrightarrow> sentinels_ok env en \<and>
     (en_gate_pending en \<noteq> [] \<longrightarrow> \<not> rt_has_measurement (en_tracker en) \<and> has_sentinel en) \<and>
     (en_sentinel_armed en \<longrightarrow> has_sentinel en \<or> se_phase1_deadline env \<le> t)"

definition awaited :: "engine \<Rightarrow> bool" where
  "awaited en \<longleftrightarrow> (\<forall>i < length (en_slots en). undecided i en \<longrightarrow>
     has_entry (en_ports en ! i) en \<or> en_ports en ! i \<in> set (en_gate_pending en))"

definition calmer :: "engine \<Rightarrow> engine \<Rightarrow> bool" where
  "calmer en en' \<longleftrightarrow> en_ports en' = en_ports en \<and> length (en_slots en') = length (en_slots en) \<and>
     (\<forall>i < length (en_slots en). undecided i en' \<longrightarrow> undecided i en)"

lemma calmer_refl [simp]: "calmer en en"
  by (simp add: calmer_def)

lemma calmer_trans: "calmer a b \<Longrightarrow> calmer b c \<Longrightarrow> calmer a c"
  by (simp add: calmer_def)

lemma calmer_slot:
  assumes "en_ports en' = en_ports en" and "en_slots en' = (en_slots en)[i := sl]"
    and "\<not> sl_final sl \<and> \<not> pb_connection_established (sl_probe sl) \<Longrightarrow> undecided i en"
  shows "calmer en en'"
proof -
  have "undecided j en" if "j < length (en_slots en)" "undecided j en'" for j
    using assms that by (cases "j = i") (auto simp: undecided_def)
  then show ?thesis using assms(1,2) by (simp add: calmer_def)
qed

text \<open>A step that leaves heap, parked ports and tracker alone, or adds entries to the heap.\<close>

definition same_waiting :: "engine \<Rightarrow> engine \<Rightarrow> bool" where
  "same_waiting en en' \<longleftrightarrow> en_heap en' = en_heap en \<and> en_gate_pending en' = en_gate_pending en \<and>
     en_tracker en' = en_tracker en \<and> en_sentinel_armed en' = en_sentinel_armed en"

lemma same_waiting_trans: "same_waiting a b \<Longrightarrow> same_waiting b c \<Longrightarrow> same_waiting a c"
  by (simp add: same_waiting_def)

lemma parking_same: "parking_ok env t en \<Longrightarrow> same_waiting en en' \<Longrightarrow> t \<le> t' \<Longrightarrow> parking_ok env t' en'"
  by (auto simp: parking_ok_def same_waiting_def sentinels_ok_def has_sentinel_def)

lemma awaited_same: "awaited en \<Longrightarrow> same_waiting en en' \<Longrightarrow> calmer en en' \<Longrightarrow> awaited en'"
  by (auto simp: awaited_def same_waiting_def calmer_def has_entry_def)

lemma entry_push [simp]:
  "has_entry p (heap_push d q en) \<longleftrightarrow> p = q \<or> has_entry p en"
  "has_sentinel (heap_push d q en) = has_sentinel en"
  "sentinels_ok env (heap_push d q en) = sentinels_ok env en"
  "undecided i (heap_push d q en) = undecided i en"
  by (auto simp: has_entry_def has_sentinel_def sentinels_ok_def heap_push_def undecided_def)

lemma parking_push [simp]: "parking_ok env t (heap_push d q en) = parking_ok env t en"
  by (simp add: parking_ok_def)

lemma entry_release [simp]:
  "has_entry p (release_pending d en) \<longleftrightarrow> p \<in> set (en_gate_pending en) \<or> has_entry p en"
  "has_sentinel (release_pending d en) = has_sentinel en"
  "sentinels_ok env (release_pending d en) = sentinels_ok env en"
  "undecided i (release_pending d en) = undecided i en"
  "en_gate_pending (release_pending d en) = []" "en_slots (release_pending d en) = en_slots en"
  "en_ports (release_pending d en) = en_ports en" "en_sentinel_armed (release_pending d en) = en_sentinel_armed en"
  "en_tracker (release_pending d en) = en_tracker en"
  by (auto simp: has_entry_def has_sentinel_def sentinels_ok_def release_pending_eq undecided_def bex_Un)

lemma entry_tracker [simp]:
  "has_sentinel (en\<lparr>en_tracker := tr\<rparr>) = has_sentinel en"
  "sentinels_ok env (en\<lparr>en_tracker := tr\<rparr>) = sentinels_ok env en"
  "has_entry q (en\<lparr>en_tracker := tr\<rparr>) = has_entry q en"
  by (simp_all add: has_sentinel_def sentinels_ok_def has_entry_def)

section \<open>Replies\<close>

lemma waiting_retire: "same_waiting en (retire c i en)"
  by (simp add: same_waiting_def)

lemma calmer_retire: "calmer en (retire c i en)"
  by (rule calmer_slot [OF retire_fields(1) retire_fields(10)]) simp

lemma waiting_mark: "same_waiting en (mark_replied i en)"
  by (simp add: same_waiting_def)

lemma calmer_mark: "calmer en (mark_replied i en)"
proof (cases "sl_replied_this_attempt (en_slots en ! i)")
  case False
  then show ?thesis
    by (intro calmer_slot [where i = i and sl = "(en_slots en ! i)\<lparr>sl_replied_this_attempt := True\<rparr>"])
      (simp_all add: mark_replied_def set_slot_def undecided_def Let_def)
qed (simp add: mark_replied_def)

lemma calmer_measure: "calmer en (measure_rtt env k h rx i en)"
proof (cases "measure_rtt env k h rx i en = en")
  case False
  then have "en_slots (measure_rtt env k h rx i en) = (en_slots en)[i := measured_slot (en_slots en ! i)]"
    "en_ports (measure_rtt env k h rx i en) = en_ports en"
    using measure_rtt_slots [of en env k h rx i] by (simp_all add: same_account_def)
  from this(2,1) show ?thesis by (rule calmer_slot) (simp add: measured_slot_def undecided_def)
qed simp

lemma measure_cases:
  obtains "measure_rtt env k h rx i en = en"
  | ms where "same_waiting (en\<lparr>en_tracker := rtt_update ms (en_tracker en)\<rparr>) (measure_rtt env k h rx i en)"
      "rt_has_measurement (en_tracker en) \<or> en_gate_pending en = []"
  | ms where "same_waiting (release_pending (rd_release k) (en\<lparr>en_tracker := rtt_update ms (en_tracker en)\<rparr>))
      (measure_rtt env k h rx i en)"
proof (cases "rtt_sample env k h rx (en_slots en ! i)")
  case None
  then show thesis by (intro that(1)) (simp add: measure_rtt_def)
next
  case (Some ms)
  show thesis
  proof (cases "\<not> rt_has_measurement (en_tracker en) \<and> en_gate_pending en \<noteq> []")
    case True
    then show thesis
      by (intro that(3) [of ms]) (simp add: measure_rtt_def Some same_waiting_def set_slot_def release_pending_eq Let_def)
  next
    case False
    then show thesis
      by (intro that(2) [of ms]) (auto simp: measure_rtt_def Some same_waiting_def set_slot_def Let_def)
  qed
qed

lemma update_has_measurement [simp]: "rt_has_measurement (rtt_update ms t)"
  by (simp add: rtt_update_def Let_def)

lemma waiting_measure:
  assumes p: "parking_ok env t en" and a: "awaited en"
  shows "parking_ok env t (measure_rtt env k h rx i en) \<and> awaited (measure_rtt env k h rx i en)"
proof (cases rule: measure_cases [of env k h rx i en])
  case 1
  then show ?thesis using p a by simp
next
  case (2 ms)
  then have none: "en_gate_pending en = []" using p by (auto simp: parking_ok_def)
  let ?en = "en\<lparr>en_tracker := rtt_update ms (en_tracker en)\<rparr>"
  have "parking_ok env t ?en"
    using p none by (simp add: parking_ok_def sentinels_ok_def has_sentinel_def)
  moreover have "en_heap (measure_rtt env k h rx i en) = en_heap en"
    "en_gate_pending (measure_rtt env k h rx i en) = en_gate_pending en" using 2(1) by (simp_all add: same_waiting_def)
  then have "awaited (measure_rtt env k h rx i en)"
    using a calmer_measure [of en env k h rx i] by (simp add: awaited_def calmer_def has_entry_def)
  ultimately show ?thesis using parking_same [OF _ 2(1) order_refl] by blast
next
  case (3 ms)
  let ?en = "release_pending (rd_release k) (en\<lparr>en_tracker := rtt_update ms (en_tracker en)\<rparr>)"
  have e: "has_entry q ?en \<longleftrightarrow> q \<in> set (en_gate_pending en) \<or> has_entry q en" for q by simp
  have "parking_ok env t ?en"
    using p by (simp add: parking_ok_def)
  moreover have "has_entry q (measure_rtt env k h rx i en) \<longleftrightarrow> has_entry q ?en" for q
    using 3 by (simp add: same_waiting_def has_entry_def)
  then have "awaited (measure_rtt env k h rx i en)"
    using a calmer_measure [of en env k h rx i] by (auto simp: awaited_def calmer_def e)
  ultimately show ?thesis using parking_same [OF _ 3 order_refl] by blast
qed


lemma waiting_classify: "same_waiting en (classify env k h n ihl i en)"
proof -
  obtain b r' where p: "process_response (se_params env) (th_sport h) h n ihl (rd_tsval k)
      \<lparr>ry_state = sl_probe (en_slots en ! i), ry_queue = en_queue en, ry_result = en_result en,
       ry_lines = en_lines en\<rparr> = (b, r')" by fastforce
  show ?thesis unfolding classify_def Let_def p prod.case by (simp add: same_waiting_def set_slot_def)
qed

lemma calmer_classify:
  assumes a: "tally (se_params env) en" and i: "i < length (en_slots en)"
  shows "calmer en (classify env k h n ihl i en)"
proof -
  define sl where "sl = en_slots en ! i"
  define r where "r = \<lparr>ry_state = sl_probe sl, ry_queue = en_queue en, ry_result = en_result en, ry_lines = en_lines en\<rparr>"
  obtain b r' where p: "process_response (se_params env) (th_sport h) h n ihl (rd_tsval k) r = (b, r')"
    by (cases "process_response (se_params env) (th_sport h) h n ihl (rd_tsval k) r")
  define en2 where "en2 = set_slot i (sl\<lparr>sl_probe := ry_state r'\<rparr>)
    (en\<lparr>en_queue := ry_queue r', en_result := ry_result r', en_lines := ry_lines r'\<rparr>)"
  have cl: "classify env k h n ihl i en =
      (if b \<and> pb_final_state_determined (ry_state r') \<and> \<not> sl_final sl then retire True i en2 else en2)"
    unfolding classify_def Let_def sl_def [symmetric] r_def [symmetric] p by (simp add: en2_def)
  have ok: "probe_ok (se_params env) (ry_state r)"
    using accounts_slot [OF a i] by (simp add: slot_ok_def r_def sl_def)
  have "pb_connection_established (ry_state r')" if "pb_connection_established (sl_probe sl)" "\<not> sl_final sl"
    "\<not> pb_final_state_determined (ry_state r')"
    using process_implements [OF ok p] that accounts_slot [OF a i]
    by (auto simp: implements_def phase_of_def port_step_def slot_ok_def sl_def r_def Let_def split: if_splits)
  then have two: "\<not> sl_final sl \<and> \<not> pb_connection_established (sl_probe sl)"
    if "\<not> sl_final sl" "\<not> pb_connection_established (ry_state r')" "\<not> pb_final_state_determined (ry_state r')"
    using that by blast
  show ?thesis
  proof (cases "pb_final_state_determined (ry_state r') \<and> \<not> sl_final sl")
    case True
    have "calmer en (retire True i en2)"
      using i by (intro calmer_slot [where i = i and sl = "en_slots (retire True i en2) ! i"])
        (simp_all add: en2_def set_slot_def)
    moreover have "b"
      using True process_implements [OF ok p] accounts_slot [OF a i]
      by (auto simp: implements_def phase_of_def slot_ok_def r_def sl_def Let_def)
    ultimately show ?thesis using True by (simp add: cl)
  next
    case False
    then have "classify env k h n ihl i en = en2" by (auto simp: cl)
    moreover have "calmer en en2"
      by (rule calmer_slot [where i = i and sl = "sl\<lparr>sl_probe := ry_state r'\<rparr>"])
        (use False two in \<open>auto simp: en2_def set_slot_def undecided_def sl_def\<close>)
    ultimately show ?thesis by simp
  qed
qed

definition watchful :: "scan_env \<Rightarrow> int \<Rightarrow> engine \<Rightarrow> bool" where
  "watchful env t en \<longleftrightarrow> parking_ok env t en \<and> awaited en"

lemma watchful_same:
  "watchful env t en \<Longrightarrow> same_waiting en en' \<Longrightarrow> calmer en en' \<Longrightarrow> t \<le> t' \<Longrightarrow> watchful env t' en'"
  using parking_same awaited_same by (auto simp: watchful_def)

lemma watchful_on_segment:
  assumes a: "tally (se_params env) en" and w: "watchful env t en" and t: "t \<le> t'"
  shows "watchful env t' (on_segment env k rp h ihl en)"
proof (cases "en_index en (th_sport h)")
  case None
  then show ?thesis using watchful_same [OF w _ calmer_refl t] by (simp add: on_segment_def same_waiting_def)
next
  case (Some i)
  let ?m = "mark_replied i en" and ?t = "measure_rtt env k h (rw_rx_us rp) i (mark_replied i en)"
  have i: "i < length (en_slots en)" using accounts_index [OF a Some] by simp
  have m: "tally (se_params env) ?m" by (rule accounts_mark_replied [OF a i])
  have ac: "tally (se_params env) ?t" by (rule accounts_measure_rtt [OF m]) (simp add: i)
  have wm: "watchful env t' ?m" by (rule watchful_same [OF w waiting_mark calmer_mark t])
  then have wt: "watchful env t' ?t" using waiting_measure unfolding watchful_def by blast
  have "i < length (en_slots ?t)" using i measure_rtt_slots [of ?m env k h "rw_rx_us rp" i] by auto
  from watchful_same [OF wt waiting_classify calmer_classify [OF ac this] order_refl]
  have "watchful env t' (classify env k h (rw_len rp) ihl i ?t)" .
  moreover have "watchful env t' en" by (rule watchful_same [OF w _ calmer_refl t]) (simp add: same_waiting_def)
  ultimately show ?thesis using wm by (simp add: on_segment_def Some Let_def)
qed

lemma watchful_apply_icmp:
  assumes a: "tally (se_params env) en" and w: "watchful env t en"
  shows "watchful env t (apply_icmp env act en)"
proof (cases act)
  case (IcmpBlocked reason replier src_port port sq)
  show ?thesis
  proof (cases rule: block_port_cases [of env reason replier src_port port sq en])
    case 1
    then show ?thesis using w by (simp add: IcmpBlocked apply_icmp_def)
  next
    case (2 i sl res)
    have i: "i < length (en_slots en)" using accounts_index [OF a 2(1)] by simp
    let ?en' = "block_port env reason replier src_port port sq en"
    have "calmer en ?en'"
      by (rule calmer_slot [where i = i and sl = "en_slots ?en' ! i"])
        (use i in \<open>simp_all add: 2(9) set_slot_def mark_replied_slots\<close>)
    moreover have "same_waiting en ?en'" by (simp add: 2(9) same_waiting_def set_slot_def)
    ultimately show ?thesis
      using watchful_same [OF w _ _ order_refl] by (simp add: IcmpBlocked apply_icmp_def)
  qed
qed (use watchful_same [OF w _ _ order_refl] in \<open>simp_all add: apply_icmp_def same_waiting_def calmer_def undecided_def\<close>)

section \<open>Deadlines\<close>

lemma calmer_limited: "limited en en' \<Longrightarrow> calmer en en'"
  by (simp add: calmer_def undecided_def limited_fields)

lemma undecided_limited: "limited en en' \<Longrightarrow> undecided i en' = undecided i en"
  by (simp add: undecided_def limited_fields)

text \<open>
  The entry for \<open>port\<close> has been taken out of the heap: the others are still waited for, and the port
  itself is when it gets a new entry.
\<close>

definition awaited_but :: "u16 \<Rightarrow> engine \<Rightarrow> bool" where
  "awaited_but port en \<longleftrightarrow> (\<forall>i < length (en_slots en). undecided i en \<and> en_ports en ! i \<noteq> port \<longrightarrow>
     has_entry (en_ports en ! i) en \<or> en_ports en ! i \<in> set (en_gate_pending en))"

definition rewaits :: "u16 \<Rightarrow> engine \<Rightarrow> engine \<Rightarrow> bool" where
  "rewaits port en en' \<longleftrightarrow> calmer en en' \<and> en_gate_pending en' = en_gate_pending en \<and>
     en_tracker en' = en_tracker en \<and> en_sentinel_armed en' = en_sentinel_armed en \<and>
     (\<exists>d. en_heap en' = \<lparr>he_deadline = d, he_port = port, he_is_sentinel = False\<rparr> # en_heap en)"

lemma watchful_rewaits:
  assumes "parking_ok env t en" and "awaited_but port en" and "rewaits port en en'"
  shows "watchful env t en'"
proof -
  from assms(3) obtain d where h: "en_heap en' = \<lparr>he_deadline = d, he_port = port, he_is_sentinel = False\<rparr> # en_heap en"
    and r: "calmer en en'" "en_gate_pending en' = en_gate_pending en"
      "en_tracker en' = en_tracker en" "en_sentinel_armed en' = en_sentinel_armed en"
    by (auto simp: rewaits_def)
  have e: "has_entry q en' \<longleftrightarrow> q = port \<or> has_entry q en" "has_sentinel en' = has_sentinel en"
    "sentinels_ok env en' = sentinels_ok env en" for q
    by (auto simp: has_entry_def has_sentinel_def sentinels_ok_def h)
  show ?thesis
    using assms(1,2) r by (auto simp: watchful_def parking_ok_def awaited_def awaited_but_def calmer_def e)
qed

lemma calmer_undecided:
  assumes "en_ports en' = en_ports en" and "en_slots en' = (en_slots en)[i := sl]" and "undecided i en"
  shows "calmer en en'"
  using calmer_slot [OF assms(1,2)] assms(3) by blast

lemma rewaits_send_initial: "undecided i en \<Longrightarrow> rewaits port en (send_initial env x i port en)"
  unfolding rewaits_def
  by (intro conjI calmer_undecided [where i = i and sl = "(en_slots en ! i)\<lparr>sl_probe := (sl_probe (en_slots en ! i))
      \<lparr>pb_initial_send_deferred := False, pb_sent_tsval := ex_tsval x + pb_tsval_offset (sl_probe (en_slots en ! i)),
       pb_syn_sent_time := ex_now x\<rparr>\<rparr>"])
    (simp_all add: send_initial_def set_slot_def Let_def heap_push_def)

lemma rewaits_send_retry: "undecided i en \<Longrightarrow> rewaits port en (send_retry env x i port en)"
  unfolding rewaits_def
  by (intro conjI calmer_undecided [where i = i and sl = "(en_slots en ! i)\<lparr>sl_probe := (sl_probe (en_slots en ! i))
      \<lparr>pb_retry_send_deferred := False, pb_sent_tsval := ex_tsval x + pb_tsval_offset (sl_probe (en_slots en ! i)),
       pb_syn_sent_time := ex_now x\<rparr>, sl_tx_ts_us := 0, sl_tx_ts_precise := False, sl_real_tx_ts_us := 0,
       sl_replied_this_attempt := False, sl_outstanding := False,
       sl_generation := sl_generation (en_slots en ! i) + 1\<rparr>"])
    (simp_all add: send_retry_def set_slot_def Let_def heap_push_def)

lemma schedule_retry_heap:
  "\<exists>d. en_heap (schedule_retry env x n port en) = \<lparr>he_deadline = d, he_port = port, he_is_sentinel = False\<rparr> # en_heap en"
  by (simp add: schedule_retry_def heap_push_def Let_def)

lemma enter_retry_fields [simp]:
  "en_ports (enter_retry n en) = en_ports en" "en_slots (enter_retry n en) = en_slots en"
  "en_heap (enter_retry n en) = en_heap en" "en_gate_pending (enter_retry n en) = en_gate_pending en"
  "en_tracker (enter_retry n en) = en_tracker en" "en_sentinel_armed (enter_retry n en) = en_sentinel_armed en"
  by (simp_all add: enter_retry_def Let_def)

lemma rewaits_do_retry:
  assumes "do_retry env x i port en = Some en'" and "undecided i en"
  shows "rewaits port en en'"
proof -
  define sl where "sl = en_slots en ! i"
  obtain p r where en': "en' = schedule_retry env x (pb_retry_count (sl_probe sl) + 1) port
       (enter_retry (pb_retry_count (sl_probe sl) + 1) (set_slot i (retried env x en p sl) (en\<lparr>en_rng := r\<rparr>)))"
    using do_retry_Some [OF assms(1)] unfolding sl_def by metis
  define en1 where "en1 = enter_retry (pb_retry_count (sl_probe sl) + 1) (set_slot i (retried env x en p sl) (en\<lparr>en_rng := r\<rparr>))"
  note e = en' [folded en1_def]
  have u: "unseen en1 en'" unfolding e by simp
  have "en_ports en' = en_ports en" "en_slots en' = (en_slots en)[i := retried env x en p sl]"
    using u by (simp_all add: unseen_def same_account_def en1_def set_slot_def)
  then have "calmer en en'" using assms(2) by (rule calmer_undecided)
  moreover have "en_heap en1 = en_heap en" by (simp add: en1_def set_slot_def)
  ultimately show ?thesis
    unfolding rewaits_def e using schedule_retry_heap [of env x _ port en1]
    by (simp add: en1_def set_slot_def)
qed

lemma rewaits_limited: "limited en en1 \<Longrightarrow> rewaits port en (heap_push d port en1)"
  by (simp add: rewaits_def calmer_def undecided_def limited_fields heap_push_def)

lemma rewaits_after_limited: "limited en en1 \<Longrightarrow> rewaits port en1 en' \<Longrightarrow> rewaits port en en'"
  by (simp add: rewaits_def calmer_def undecided_def limited_fields)

lemma ports_inj:
  "tally sp en \<Longrightarrow> i < length (en_slots en) \<Longrightarrow> j < length (en_slots en) \<Longrightarrow>
    en_ports en ! i = en_ports en ! j \<Longrightarrow> i = j"
  by (simp add: tally_def index_ok_def nth_eq_iff_index_eq)

lemma watchful_fire:
  assumes a: "tally (se_params env) en" and f: "fire env x e en = Some en'" and t: "t \<le> ex_now x"
    and due: "he_deadline e \<le> ex_now x" "he_is_sentinel e \<Longrightarrow> he_deadline e = se_phase1_deadline env"
    and park: "sentinels_ok env en" "en_gate_pending en \<noteq> [] \<Longrightarrow> \<not> rt_has_measurement (en_tracker en) \<and>
        (he_is_sentinel e \<or> has_sentinel en)"
      "en_sentinel_armed en \<Longrightarrow> he_is_sentinel e \<or> has_sentinel en \<or> se_phase1_deadline env \<le> t"
    and others: "if he_is_sentinel e then awaited en else awaited_but (he_port e) en"
  shows "watchful env (ex_now x) en'"
proof -
  have parked: "parking_ok env (ex_now x) en" "awaited_but (he_port e) en" if "\<not> he_is_sentinel e"
    using that park t others by (auto simp: parking_ok_def)
  from f show ?thesis
  proof (cases rule: fire_cases)
    case sentinel
    then show ?thesis
      using park due others by (auto simp: watchful_def parking_ok_def awaited_def)
  next
    case ignored
    have "awaited en"
      unfolding awaited_def
    proof (intro allI impI)
      fix i
      assume i: "i < length (en_slots en)" "undecided i en"
      then have "en_index en (en_ports en ! i) = Some i" using a by (simp add: tally_def index_ok_def)
      then have "en_ports en ! i \<noteq> he_port e" using ignored(3) i(2) by metis
      then show "has_entry (en_ports en ! i) en \<or> en_ports en ! i \<in> set (en_gate_pending en)"
        using others ignored(1) i by (simp add: awaited_but_def)
    qed
    then show ?thesis using ignored park t by (auto simp: watchful_def parking_ok_def)
  next
    case (initial i)
    show ?thesis unfolding initial(5)
      by (rule watchful_rewaits [OF parked(1) parked(2) rewaits_send_initial [OF initial(3)]]) (rule initial(1))+
  next
    case (resend i)
    show ?thesis unfolding resend(6)
      by (rule watchful_rewaits [OF parked(1) parked(2) rewaits_send_retry [OF resend(3)]]) (rule resend(1))+
  next
    case (expired i)
    note parked = parked [OF expired(1)]
    from expired(7) show ?thesis
    proof (cases rule: retry_or_wait_cases)
      case (waits d en1)
      show ?thesis unfolding waits(3) by (rule watchful_rewaits [OF parked rewaits_limited [OF waits(1)]])
    next
      case parks
      have s: "he_is_sentinel e \<or> has_sentinel en" if "en_sentinel_armed en"
        using park(3) [OF that] parks(3) t by linarith
      have e: "has_entry q (park env (he_port e) en) = has_entry q en"
        "sentinels_ok env (park env (he_port e) en) = sentinels_ok env en"
        "has_sentinel (park env (he_port e) en)" for q
        using s expired(1) by (auto simp: has_entry_def sentinels_ok_def has_sentinel_def park_def Let_def)
      have "undecided j (park env (he_port e) en) = undecided j en" "en_ports (park env (he_port e) en) = en_ports en" for j
        by (simp_all add: undecided_def park_def Let_def)
      then show ?thesis
        using park parks(2) parked(2) unfolding parks(4)
        by (auto simp: watchful_def parking_ok_def awaited_def awaited_but_def e)
    next
      case (retries en1)
      have "undecided i en1" using expired(3) by (simp add: undecided_limited [OF retries(1)])
      from rewaits_after_limited [OF retries(1) rewaits_do_retry [OF retries(3) this]] show ?thesis
        by (rule watchful_rewaits [OF parked])
    qed
  next
    case (given_up i)
    note parked = parked [OF given_up(1)]
    have i: "i < length (en_slots en)" "en_ports en ! i = he_port e" using accounts_index [OF a given_up(2)] by simp_all
    let ?en = "give_up i (he_port e) en"
    have w: "same_waiting en ?en" by (simp add: same_waiting_def give_up_def set_slot_def Let_def)
    have g: "en_ports ?en = en_ports en" "length (en_slots ?en) = length (en_slots en)" "\<not> undecided i ?en"
      "\<And>j. j \<noteq> i \<Longrightarrow> undecided j ?en = undecided j en"
      using i by (simp_all add: give_up_def set_slot_def undecided_def Let_def)
    have "awaited ?en"
      unfolding awaited_def
    proof (intro allI impI)
      fix j
      assume j: "j < length (en_slots ?en)" "undecided j ?en"
      then have "j \<noteq> i" using g(3) by blast
      then have "en_ports en ! j \<noteq> he_port e"
        using ports_inj [OF a i(1), of j] i(2) j(1) g(2) by auto
      then show "has_entry (en_ports ?en ! j) ?en \<or> en_ports ?en ! j \<in> set (en_gate_pending ?en)"
        using parked(2) j g \<open>j \<noteq> i\<close> w by (simp add: awaited_but_def same_waiting_def has_entry_def)
    qed
    then show ?thesis unfolding given_up(7) using parking_same [OF parked(1) w order_refl] by (simp add: watchful_def)
  qed
qed

text \<open>The popped entry is the one whose port \<open>fire\<close> deals with.\<close>

lemma watchful_pop:
  assumes a: "tally (se_params env) en" and w: "watchful env t en" and e: "e \<in> set (en_heap en)"
    and due: "he_deadline e \<le> ex_now x" and t: "t \<le> ex_now x" and p: "pop_and_fire env x e en = Some en'"
  shows "watchful env (ex_now x) en'"
proof -
  define en0 where "en0 = en\<lparr>en_heap := remove1 e (en_heap en)\<rparr>"
  have sub: "set (en_heap en0) \<subseteq> set (en_heap en)" "\<And>e'. e' \<noteq> e \<Longrightarrow> e' \<in> set (en_heap en0) \<longleftrightarrow> e' \<in> set (en_heap en)"
    by (simp_all add: en0_def set_remove1_subset in_set_remove1)
  have same: "en_ports en0 = en_ports en" "en_slots en0 = en_slots en" "en_tracker en0 = en_tracker en"
    "en_gate_pending en0 = en_gate_pending en" "en_sentinel_armed en0 = en_sentinel_armed en"
    "undecided i en0 = undecided i en" for i
    by (simp_all add: en0_def undecided_def)
  have acc: "tally (se_params env) en0"
    by (rule accounts_unseen [OF a]) (simp add: unseen_def same_account_def en0_def)
  have f: "fire env x e en0 = Some en'" using p by (simp add: pop_and_fire_def en0_def)
  have sentinel: "has_sentinel en0" if "has_sentinel en" "\<not> he_is_sentinel e"
    using that sub(2) unfolding has_sentinel_def by metis
  have park: "parking_ok env t en" "awaited en" using w by (simp_all add: watchful_def)
  show ?thesis
  proof (rule watchful_fire [OF acc f t due])
    show "he_deadline e = se_phase1_deadline env" if "he_is_sentinel e"
      using park(1) e that by (simp add: parking_ok_def sentinels_ok_def)
    show "sentinels_ok env en0" using park(1) sub(1) by (auto simp: parking_ok_def sentinels_ok_def)
    show "\<not> rt_has_measurement (en_tracker en0) \<and> (he_is_sentinel e \<or> has_sentinel en0)" if "en_gate_pending en0 \<noteq> []"
      using park(1) that sentinel by (auto simp: parking_ok_def same)
    show "he_is_sentinel e \<or> has_sentinel en0 \<or> se_phase1_deadline env \<le> t" if "en_sentinel_armed en0"
      using park(1) that sentinel by (auto simp: parking_ok_def same)
    have "has_entry q en0" if "has_entry q en" "he_is_sentinel e \<or> q \<noteq> he_port e" for q
      using that sub(2) unfolding has_entry_def by metis
    then show "if he_is_sentinel e then awaited en0 else awaited_but (he_port e) en0"
      using park(2) unfolding awaited_def awaited_but_def same by auto
  qed
qed

lemma watchful_step:
  assumes "scan_step env ev st st'" and "tally (se_params env) (snd st)" and "watchful env (fst st) (snd st)"
  shows "watchful env (fst st') (snd st')"
  using assms(1)
proof cases
  case (tcp en rp now k en')
  have same: "watchful env (rd_now k) en"
    by (rule watchful_same [of env now en]) (use assms(3) tcp in \<open>simp_all add: same_waiting_def\<close>)
  from \<open>on_tcp env k rp en = Some en'\<close> consider "en' = en" | h ihl where "en' = on_segment env k rp h ihl en"
    by (auto simp: on_tcp_def split: bind_splits option.splits)
  then show ?thesis
    using same watchful_on_segment [of env en now "rd_now k"] assms(2,3) tcp by cases simp_all
next
  case (icmp en rp en' now)
  then show ?thesis using watchful_apply_icmp assms(2,3) by (auto simp: on_icmp_def split: bind_splits)
next
  case (expire en e x now en')
  then show ?thesis
    using watchful_pop [of env en now e x en'] assms(2,3) by (simp add: is_top_def)
next
  case (submit ts v6 precise port now en)
  have "same_waiting en (pre_submit ts v6 precise port en)"
    by (simp add: same_waiting_def pre_submit_def set_slot_def Let_def split: option.split)
  moreover have "calmer en (pre_submit ts v6 precise port en)"
  proof (cases "en_index en port")
    case (Some i)
    then have "i < length (en_slots en)" using accounts_index assms(2) submit by auto
    with Some show ?thesis
      by (auto simp: calmer_def pre_submit_def set_slot_def undecided_def nth_list_update Let_def split: if_splits)
  qed (simp add: pre_submit_def)
  ultimately show ?thesis using watchful_same [OF assms(3)] submit by simp
next
  case (stamp v6 sq ts now en)
  have "same_waiting en (tx_stamp v6 sq ts en)"
    by (simp add: same_waiting_def tx_stamp_def set_slot_def Let_def split: option.split prod.split)
  moreover have "calmer en (tx_stamp v6 sq ts en)"
    by (auto simp: calmer_def tx_stamp_def set_slot_def undecided_def nth_list_update Let_def
        split: option.splits if_splits)
  ultimately show ?thesis using watchful_same [OF assms(3)] stamp by simp
qed

interpretation watch: step_invariant env "\<lambda>_. True" "\<lambda>st. watchful env (fst st) (snd st)" for env
  by unfold_locales (rule watchful_step)

lemma begun_watchful:
  assumes "begun env tr b en"
  shows "watchful env t en"
proof -
  have len: "length (en_slots en) = length (en_ports en)" using assms by (auto simp: begun_def dest: list_all2_lengthD)
  have "has_entry (en_ports en ! i) en" if "i < length (en_ports en)" for i
  proof -
    have "en_ports en ! i \<in> he_port ` set (en_heap en)"
      using assms that by (metis begun_def list.set_map nth_mem set_rev)
    then show ?thesis using assms by (auto simp: has_entry_def begun_def list_all_iff)
  qed
  then show ?thesis
    using assms len by (auto simp: watchful_def parking_ok_def awaited_def begun_def sentinels_ok_def list_all_iff)
qed

text \<open>The heap has a least entry whenever it has one.\<close>

lemma top_exists: "es \<noteq> [] \<Longrightarrow> \<exists>e. is_top e es"
proof (induction es)
  case (Cons e es)
  show ?case
  proof (cases "es = []")
    case True
    then have "is_top e (e # es)" by (simp add: is_top_def)
    then show ?thesis by blast
  next
    case False
    then obtain f where f: "is_top f es" using Cons.IH by blast
    have "is_top (if he_deadline e \<le> he_deadline f then e else f) (e # es)"
      using f by (auto simp: is_top_def list_all_iff)
    then show ?thesis by blast
  qed
qed simp

lemma watchful_top:
  assumes "watchful env t en" and "i < length (en_slots en)" and "undecided i en"
  shows "\<exists>e. is_top e (en_heap en)"
proof -
  have "en_heap en \<noteq> []"
    using assms by (fastforce simp: watchful_def awaited_def parking_ok_def has_entry_def has_sentinel_def)
  then show ?thesis by (rule top_exists)
qed

section \<open>Connections that nobody closes\<close>

text \<open>
  A port between its SYN-ACK and the end of the connection. Its deadline is dropped when it comes up,
  and no new one is set.
\<close>

definition closing :: "nat \<Rightarrow> engine \<Rightarrow> bool" where
  "closing j en \<longleftrightarrow> j < length (en_slots en) \<and> \<not> sl_final (en_slots en ! j) \<and>
     pb_connection_established (sl_probe (en_slots en ! j))"

fun is_tcp :: "scan_event \<Rightarrow> bool" where
  "is_tcp (EvTcp k rp) = True"
| "is_tcp (EvIcmp rp) = False"
| "is_tcp (EvExpire x e) = False"
| "is_tcp (EvSubmit ts v6 precise port) = False"
| "is_tcp (EvStamp v6 sq ts) = False"

lemma closing_same: "closing j en \<Longrightarrow> en_slots en' = en_slots en \<Longrightarrow> closing j en'"
  by (simp add: closing_def)

lemma closing_other: "closing j en \<Longrightarrow> undecided i en \<Longrightarrow> i \<noteq> j"
  by (auto simp: closing_def undecided_def)

text \<open>What is done to another port, or to the port's time stamps, does not matter.\<close>

lemma closing_others:
  assumes "i \<noteq> j"
  shows "closing j (send_initial env x i port en) = closing j en"
    and "closing j (send_retry env x i port en) = closing j en"
    and "closing j (give_up i port en) = closing j en"
  using assms by (simp_all add: closing_def send_initial_def send_retry_def give_up_def set_slot_def Let_def)

lemma closing_do_retry:
  assumes "i \<noteq> j" and "closing j en" and "do_retry env x i port en = Some en'"
  shows "closing j en'"
  using assms(3)
proof (rule do_retry_Some)
  fix p r
  define n where "n = pb_retry_count (sl_probe (en_slots en ! i)) + 1"
  define en1 where "en1 = enter_retry n (set_slot i (retried env x en p (en_slots en ! i)) (en\<lparr>en_rng := r\<rparr>))"
  assume "en' = schedule_retry env x (pb_retry_count (sl_probe (en_slots en ! i)) + 1) port
    (enter_retry (pb_retry_count (sl_probe (en_slots en ! i)) + 1)
      (set_slot i (retried env x en p (en_slots en ! i)) (en\<lparr>en_rng := r\<rparr>)))"
  then have "unseen en1 en'" by (simp add: en1_def n_def)
  then have "en_slots en' = (en_slots en)[i := retried env x en p (en_slots en ! i)]"
    by (simp add: unseen_def en1_def set_slot_def)
  then show ?thesis using assms(1,2) by (simp add: closing_def)
qed

lemma closing_touch:
  assumes "closing j en" and "en_slots en' = (en_slots en)[i := sl]" and "sl_final sl = sl_final (en_slots en ! i)"
    and "pb_connection_established (sl_probe sl) = pb_connection_established (sl_probe (en_slots en ! i))"
  shows "closing j en'"
  using assms by (cases "i = j") (simp_all add: closing_def)

lemma closing_pre_submit: "closing j en \<Longrightarrow> closing j (pre_submit ts v6 precise port en)"
proof (cases "en_index en port")
  case (Some i)
  assume "closing j en"
  then show ?thesis
    by (rule closing_touch [where i = i and sl = "(en_slots en ! i)\<lparr>sl_outstanding := True,
        sl_real_tx_ts_us := nat (ts div 1000), sl_probe := (sl_probe (en_slots en ! i))\<lparr>pb_syn_sent_time := ts\<rparr>\<rparr>"])
      (simp_all add: Some pre_submit_def set_slot_def Let_def)
qed (simp add: pre_submit_def)

lemma closing_tx_stamp: "closing j en \<Longrightarrow> closing j (tx_stamp v6 sq ts en)"
proof (cases "en_tx_ids en v6 sq")
  case (Some ig)
  assume c: "closing j en"
  obtain i gen where ig: "ig = (i, gen)" by (cases ig)
  show ?thesis
  proof (cases "i \<ge> length (en_slots en) \<or> sl_generation (en_slots en ! i) \<noteq> gen")
    case True
    then show ?thesis by (intro closing_same [OF c]) (auto simp: tx_stamp_def Some ig)
  next
    case False
    then show ?thesis
      by (intro closing_touch [OF c, where i = i and sl = "(en_slots en ! i)\<lparr>sl_tx_ts_us := ts, sl_tx_ts_precise := True\<rparr>"])
        (simp_all add: tx_stamp_def Some ig set_slot_def Let_def)
  qed
qed (simp add: tx_stamp_def)

lemma closing_fire:
  assumes c: "closing j en" and f: "fire env x e en = Some en'"
  shows "closing j en'"
  using f
proof (cases rule: fire_cases)
  case sentinel
  then show ?thesis by (intro closing_same [OF c]) simp
next
  case ignored
  then show ?thesis using c by simp
next
  case (initial i)
  then show ?thesis using c closing_others(1) [OF closing_other [OF c initial(3)]] by simp
next
  case (resend i)
  then show ?thesis using c closing_others(2) [OF closing_other [OF c resend(3)]] by simp
next
  case (expired i)
  from expired(7) show ?thesis
  proof (cases rule: retry_or_wait_cases)
    case (waits d en1)
    then show ?thesis by (intro closing_same [OF c]) (simp add: limited_fields)
  next
    case parks
    then show ?thesis by (intro closing_same [OF c]) simp
  next
    case (retries en1)
    have c1: "closing j en1" by (rule closing_same [OF c]) (simp add: limited_fields [OF retries(1)])
    show ?thesis by (rule closing_do_retry [OF closing_other [OF c expired(3)] c1 retries(3)])
  qed
next
  case (given_up i)
  then show ?thesis using c closing_others(3) [OF closing_other [OF c given_up(3)]] by simp
qed

lemma closing_reported:
  "tally sp en \<Longrightarrow> closing j en \<Longrightarrow> pb_reported_state (sl_probe (en_slots en ! j)) = REPORTED_OPEN"
  using accounts_slot [of sp en j]
  by (auto simp: closing_def slot_ok_def probe_ok_def phase_of_def split: if_splits)

lemma closing_apply_icmp:
  assumes a: "tally (se_params env) en" and c: "closing j en"
  shows "closing j (apply_icmp env act en)"
proof (cases act)
  case (IcmpBlocked reason replier src_port port sq)
  show ?thesis
  proof (cases rule: block_port_cases [of env reason replier src_port port sq en])
    case 1
    then show ?thesis using c by (simp add: IcmpBlocked apply_icmp_def)
  next
    case (2 i sl res)
    then have "i \<noteq> j" using closing_reported [OF a c] by auto
    then show ?thesis using c
      by (simp add: IcmpBlocked apply_icmp_def 2(9) closing_def set_slot_def mark_replied_def Let_def)
  qed
qed (use c in \<open>simp_all add: apply_icmp_def closing_def\<close>)

lemma closing_step:
  assumes "scan_step env ev st st'" and "tally (se_params env) (snd st)" and "closing j (snd st)" and "\<not> is_tcp ev"
  shows "closing j (snd st')"
  using assms(1)
proof cases
  case (icmp en rp en' now)
  then show ?thesis using closing_apply_icmp assms(2,3) by (auto simp: on_icmp_def split: bind_splits)
next
  case (expire en e x now en')
  have "closing j (en\<lparr>en_heap := remove1 e (en_heap en)\<rparr>)" using assms(3) expire by (simp add: closing_def)
  then show ?thesis using closing_fire expire by (simp add: pop_and_fire_def)
next
  case (submit ts v6 precise port now en)
  then show ?thesis using assms(3) closing_pre_submit by simp
next
  case (stamp v6 sq ts now en)
  then show ?thesis using assms(3) closing_tx_stamp by simp
qed (use assms(4) in simp)

interpretation close: step_invariant env "\<lambda>ev. \<not> is_tcp ev" "\<lambda>st. closing j (snd st)" for env j
  by unfold_locales (rule closing_step)

lemma closing_active:
  assumes "tally sp en" and "closing j en"
  shows "0 < en_active_count en"
proof -
  have "filter (\<lambda>sl. \<not> sl_final sl) (en_slots en) \<noteq> []"
    using assms(2) by (auto simp: closing_def filter_empty_conv)
  then show ?thesis using assms(1) by (simp add: tally_def)
qed

end
