(* ===== verification/Engine_Props.thy ===== *)
theory Engine_Props
  imports Engine_Traffic Engine_Deadlines
begin

text \<open>
  A scan that is played by hand: two ports of one target, a reset from port 22 and a SYN-ACK from port
  443. The theorems on runs of Engine are applied to it.
\<close>

section \<open>What one reply does\<close>

lemma measured_probe [simp]:
  "phase_of (s\<lparr>pb_rtt_measured := c\<rparr>) = phase_of s" "probe_ok sp (s\<lparr>pb_rtt_measured := c\<rparr>) = probe_ok sp s"
  by (simp_all add: phase_of_def probe_ok_def)

text \<open>
  A reply that is taken up: the result is the protocol's, the slot's state moves as the protocol says, and
  the port leaves the count when it is decided.
\<close>

lemma segment_effect:
  fixes env k rp h ihl en
  assumes a: "tally (se_params env) en" and idx: "en_index en (th_sport h) = Some i"
    and src: "accepts_src_port (th_dport h) (sl_probe (en_slots en ! i))" and tok: "token_ok env (en_slots en ! i) h"
    and nf: "\<not> sl_final (en_slots en ! i)"
  defines "s \<equiv> sl_probe (en_slots en ! i)" and "en' \<equiv> on_segment env k rp h ihl en"
  shows "en_result en' = (if phase_of s = Waiting \<and> credible (pb_seq s) h
      then record_verdict (verdict (sp_scan_type (se_params env)) h) (th_sport h) (en_result en) else en_result en)"
    and "en_active_count en' = en_active_count en - of_bool (port_step (sp_scan_type (se_params env))
      (sp_fast_scan (se_params env)) (pb_seq s) h (phase_of s) = Decided)"
    and "en_aborted en' = en_aborted en" and "en_index en' = en_index en"
    and "i < length (en_slots en')" and "phase_of (sl_probe (en_slots en' ! i)) =
      port_step (sp_scan_type (se_params env)) (sp_fast_scan (se_params env)) (pb_seq s) h (phase_of s)"
    and "sl_final (en_slots en' ! i) \<longleftrightarrow> phase_of (sl_probe (en_slots en' ! i)) = Decided"
proof -
  let ?m = "mark_replied i en" and ?t = "measure_rtt env k h (rw_rx_us rp) i (mark_replied i en)"
  have i: "i < length (en_slots en)" using accounts_index [OF a idx] by simp
  have m: "en_slots ?m = (en_slots en)[i := (en_slots en ! i)\<lparr>sl_replied_this_attempt := True\<rparr>]"
    by (rule mark_replied_slots [OF i])
  have t: "same_account ?m ?t" "?t = ?m \<or> en_slots ?t = (en_slots ?m)[i := measured_slot (en_slots ?m ! i)]"
    "en_result ?t = en_result en" "en_aborted ?t = en_aborted en" "en_lines ?t = en_lines en" "en_queue ?t = en_queue en"
    using measure_rtt_slots [of ?m env k h "rw_rx_us rp" i]
    by (simp_all add: measure_rtt_def mark_replied_def set_slot_def release_pending_eq Let_def split: option.split)
  define sl where "sl = en_slots ?t ! i"
  obtain c where sl: "sl_probe sl = s\<lparr>pb_rtt_measured := c\<rparr>" "\<not> sl_final sl"
  proof (cases "?t = ?m")
    case True
    have "s\<lparr>pb_rtt_measured := pb_rtt_measured s\<rparr> = s" by simp
    with True show thesis using i nf by (intro that [of "pb_rtt_measured s"]) (simp_all add: sl_def m s_def)
  next
    case False
    with t(2) show thesis using i nf by (intro that [of True]) (auto simp: sl_def m measured_slot_def s_def)
  qed
  have act: "en_active_count ?t = en_active_count en" using t(1) by (simp add: same_account_def)
  define r where "r = \<lparr>ry_state = sl_probe sl, ry_queue = en_queue ?t, ry_result = en_result ?t, ry_lines = en_lines ?t\<rparr>"
  obtain b r' where p: "process_response (se_params env) (th_sport h) h (rw_len rp) ihl (rd_tsval k) r = (b, r')"
    by (cases "process_response (se_params env) (th_sport h) h (rw_len rp) ihl (rd_tsval k) r")
  have ph: "phase_of (sl_probe sl) = phase_of s" "pb_seq (sl_probe sl) = pb_seq s" by (simp_all add: sl phase_of_def)
  have ok: "probe_ok (se_params env) (ry_state r)"
    using accounts_slot [OF a i] by (simp add: r_def slot_ok_def sl(1) s_def)
  note imp = process_implements [OF ok p, unfolded implements_def Let_def]
  have dec: "pb_final_state_determined (ry_state r') \<longleftrightarrow> phase_of (ry_state r') = Decided"
    by (simp add: phase_of_def)
  have "phase_of s \<noteq> Decided" using nf accounts_slot [OF a i] by (simp add: phase_of_def slot_ok_def s_def)
  then have bd: "b \<and> pb_final_state_determined (ry_state r') \<longleftrightarrow> phase_of (ry_state r') = Decided"
    using imp by (auto simp: dec r_def ph)
  have cl: "en' = (if phase_of (ry_state r') = Decided then retire True i
      (set_slot i (sl\<lparr>sl_probe := ry_state r'\<rparr>) (?t\<lparr>en_queue := ry_queue r', en_result := ry_result r', en_lines := ry_lines r'\<rparr>))
      else set_slot i (sl\<lparr>sl_probe := ry_state r'\<rparr>) (?t\<lparr>en_queue := ry_queue r', en_result := ry_result r', en_lines := ry_lines r'\<rparr>))"
    using src tok i nf sl(2) bd
    by (simp add: en'_def on_segment_def idx m classify_def Let_def sl_def [symmetric] r_def [symmetric] p)
  show "en_result en' = (if phase_of s = Waiting \<and> credible (pb_seq s) h
      then record_verdict (verdict (sp_scan_type (se_params env)) h) (th_sport h) (en_result en) else en_result en)"
    using imp by (simp add: cl set_slot_def r_def ph t)
  show "en_active_count en' = en_active_count en - of_bool (port_step (sp_scan_type (se_params env))
      (sp_fast_scan (se_params env)) (pb_seq s) h (phase_of s) = Decided)"
    using imp by (simp add: cl set_slot_def r_def ph act)
  show "en_aborted en' = en_aborted en" by (simp add: cl set_slot_def retire_def t Let_def)
  have same: "en_index ?t = en_index en" "length (en_slots ?t) = length (en_slots en)"
    using t(1,2) by (auto simp: same_account_def)
  show "en_index en' = en_index en" by (simp add: cl set_slot_def same)
  have len: "length (en_slots en') = length (en_slots en)" by (simp add: cl set_slot_def same)
  then show "i < length (en_slots en')" using i by simp
  have ph': "phase_of (sl_probe (en_slots en' ! i)) = phase_of (ry_state r')"
    "sl_final (en_slots en' ! i) \<longleftrightarrow> phase_of (ry_state r') = Decided"
    using i sl(2) by (auto simp: cl set_slot_def same phase_of_def)
  then show "phase_of (sl_probe (en_slots en' ! i)) =
      port_step (sp_scan_type (se_params env)) (sp_fast_scan (se_params env)) (pb_seq s) h (phase_of s)"
    and "sl_final (en_slots en' ! i) \<longleftrightarrow> phase_of (sl_probe (en_slots en' ! i)) = Decided"
    using imp by (simp_all add: r_def ph)
qed

section \<open>The start\<close>

definition lib_example :: libm_env where
  "lib_example = \<lparr>lib_pow = (\<lambda>x y. x), lib_uniform = (\<lambda>lo hi r. (lo, r))\<rparr>"

definition scan_env_example :: "bool \<Rightarrow> scan_env" where
  "scan_env_example fast = \<lparr>se_params = scan_example\<lparr>sp_fast_scan := fast\<rparr>, se_opts = tcp_build_default,
     se_local_ip = [10, 0, 0, 1], se_source_port = 40000, se_seq_num = 7, se_tune = tune_default,
     se_lib = lib_example, se_sport = sport_range_default, se_gsport = gsport_default,
     se_rate_config = rate_default, se_jitter_config = \<lparr>jc_enabled = False, jc_random_mode = False, jc_delay_us = 0\<rparr>,
     se_bandwidth_config = bandwidth_default, se_min_timeout_ms = 5, se_max_timeout_ms = 700,
     se_phase1_deadline = 700000000, se_clock_offset = 0, se_sip_k0 = 0, se_sip_k1 = 0, se_tsval_offset = 0\<rparr>"

definition expiry_at :: "int \<Rightarrow> expiry" where
  "expiry_at t = \<lparr>ex_now = t, ex_clock = t, ex_tsval = 0\<rparr>"

definition batch_example :: engine where
  "batch_example = batch_state (budget_init tune_default) (rtt_init 290)
     \<lparr>rs_window_sent = 0, rs_window_target = 0, rs_window_start = 0, rs_initialized = False\<rparr>
     \<lparr>bs_window_start = 0, bs_reserved_bytes = 0, bs_actual_bytes_sent = 0, bs_window_target_bytes = 0,
      bs_initialized = False\<rparr> (\<lambda>_. 0) (\<lambda>_. 0) 0"

text \<open>With every pacing option off and a fixed source port the start of a port is its entry and its deadline.\<close>

lemma start_port_plain:
  assumes "\<not> rc_enabled (se_rate_config env)" "\<not> bw_enabled (se_bandwidth_config env)"
    and "\<not> jc_enabled (se_jitter_config env)" "\<not> stage_is_range (se_sport env) ! 0"
    and "\<not> stage_is_set (se_gsport env) ! 0" "se_source_port env > 0" "0 < port" "port \<le> 65535"
  shows "start_port env x port (v, en) = Some (v, heap_push (max v (ex_now x)) (word_of_int port)
    (enter_port env x (word_of_int port) (se_source_port env) en))"
  using assms by (simp add: start_port_def start_rate_def start_bandwidth_def start_src_port_def
      first_deadline_def start_jitter_def Let_def)

definition started_example :: "bool \<Rightarrow> engine" where
  "started_example fast =
     (let en = heap_push 0 22 (enter_port (scan_env_example fast) (expiry_at 0) 22 40000 batch_example);
          en = heap_push 0 443 (enter_port (scan_env_example fast) (expiry_at 0) 443 40000 en)
      in en\<lparr>en_active_count := 2, en_budget := (budget_init tune_default)\<lparr>rb_active_ports := 2\<rparr>\<rparr>)"

lemma start_example:
  "start_batch (scan_env_example fast) (expiry_at 0) 0 [(22, expiry_at 0), (443, expiry_at 0)] batch_example =
    Some (started_example fast)"
proof -
  have port: "start_port (scan_env_example fast) (expiry_at 0) p (v, en) = Some (v, heap_push (max v 0) (word_of_int p)
      (enter_port (scan_env_example fast) (expiry_at 0) (word_of_int p) 40000 en))" if "0 < p" "p \<le> 65535" for p v en
    using start_port_plain [of "scan_env_example fast" p "expiry_at 0" v en] that
    by (simp add: scan_env_example_def rate_default_def bandwidth_default_def sport_range_default_def gsport_default_def
        expiry_at_def)
  have off: "\<not> rc_enabled (se_rate_config (scan_env_example fast))" by (simp add: scan_env_example_def rate_default_def)
  have "en_ports batch_example = []" "en_budget batch_example = budget_init tune_default"
    by (simp_all add: batch_example_def batch_state_def)
  then show ?thesis
    by (simp add: start_batch_def off port started_example_def Let_def enter_port_def heap_push_def budget_init_def)
qed

section \<open>Packets\<close>

definition reply_packet :: "u16 \<Rightarrow> u8 \<Rightarrow> raw_packet" where
  "reply_packet port fl = \<lparr>rw_type = PKT_TCP,
     rw_data = [0x45, 0, 0, 40, 0, 0, 0, 0, 64, 6, 0, 0, 192, 0, 2, 1, 10, 0, 0, 1] @ be16 port @ be16 40000 @
       be32 100 @ be32 8 @ [0x50, fl] @ be16 0 @ be16 0 @ be16 0,
     rw_len = 40, rw_rx_us = 0\<rparr>"

definition readings_at :: "int \<Rightarrow> readings" where
  "readings_at t = \<lparr>rd_now = t, rd_release = t, rd_tsval = 0\<rparr>"

definition first_entry :: "int \<Rightarrow> u16 \<Rightarrow> heap_entry" where
  "first_entry d p = \<lparr>he_deadline = d, he_port = p, he_is_sentinel = False\<rparr>"

definition segment_example :: "u16 \<Rightarrow> u8 \<Rightarrow> tcp_hdr" where
  "segment_example port fl = \<lparr>th_sport = port, th_dport = 40000, th_seq = 100, th_ack = 8, th_off = 5,
     th_flags = fl, th_win = 0\<rparr>"

lemma gate_example:
  "tcp_gate (scan_env_example fast) (reply_packet 22 fl) = Some (Some (segment_example 22 fl, Some 5))"
  "tcp_gate (scan_env_example fast) (reply_packet 443 fl) = Some (Some (segment_example 443 fl, Some 5))"
  by (simp_all add: tcp_gate_def reply_packet_def scan_env_example_def scan_example_def read_tcphdr_def
      segment_example_def rd_bytes_def rd16_def rd32_def rd_def be16_def be32_def get_be16_def get_be32_def)

lemma fire_example:
  "pop_and_fire (scan_env_example fast) (expiry_at 1) (first_entry 0 22) (started_example fast) =
    Some (send_initial (scan_env_example fast) (expiry_at 1) 0 22
      ((started_example fast)\<lparr>en_heap := [first_entry 0 443]\<rparr>))"
  by (simp add: pop_and_fire_def fire_def first_entry_def started_example_def Let_def enter_port_def heap_push_def
      batch_example_def batch_state_def start_slot_def record_src_port_def)


section \<open>The run\<close>

text \<open>The probe of port 22 goes out, and the reset comes back.\<close>

definition probed_example :: "bool \<Rightarrow> engine" where
  "probed_example fast = send_initial (scan_env_example fast) (expiry_at 1) 0 22
     ((started_example fast)\<lparr>en_heap := [first_entry 0 443]\<rparr>)"

lemma probed_fields:
  "en_ports (probed_example fast) = [22, 443]" "en_index (probed_example fast) = [22 \<mapsto> 0, 443 \<mapsto> 1]"
  "length (en_slots (probed_example fast)) = 2" "en_active_count (probed_example fast) = 2"
  "en_aborted (probed_example fast) = False" "en_result (probed_example fast) = rec_pross_empty"
  by (simp_all add: probed_example_def send_initial_def started_example_def heap_push_def set_slot_def
      enter_port_def batch_example_def batch_state_def Let_def)

lemma probed_slot:
  "sl_final (en_slots (probed_example fast) ! 0) = False"
  "sl_replied_this_attempt (en_slots (probed_example fast) ! 0) = False"
  "sl_tx_ts_precise (en_slots (probed_example fast) ! 0) = False"
  "accepts_src_port 40000 (sl_probe (en_slots (probed_example fast) ! 0))"
  "pb_seq (sl_probe (en_slots (probed_example fast) ! 0)) = 7"
  "pb_final_state_determined (sl_probe (en_slots (probed_example fast) ! 0)) = False"
  "pb_connection_established (sl_probe (en_slots (probed_example fast) ! 0)) = False"
  "pb_counted_in_retry (sl_probe (en_slots (probed_example fast) ! 0)) = False"
  "pb_reported_state (sl_probe (en_slots (probed_example fast) ! 0)) = REPORTED_NONE"
  by (simp_all add: probed_example_def send_initial_def started_example_def heap_push_def set_slot_def
      enter_port_def batch_example_def batch_state_def start_slot_def record_src_port_def accepts_src_port_def
      scan_env_example_def use_token_def Let_def)

lemma segment_flags:
  "is_rst (segment_example p 0x14)" "is_ack (segment_example p 0x14)" "\<not> is_syn (segment_example p 0x14)"
  "\<not> is_fin (segment_example p 0x14)" "\<not> is_rst (segment_example p 0x12)" "is_ack (segment_example p 0x12)"
  "is_syn (segment_example p 0x12)" "\<not> is_fin (segment_example p 0x12)"
  by (simp_all add: is_rst_def is_ack_def is_syn_def is_fin_def segment_example_def bit_numeral_rec)

lemma reset_heard:
  "on_tcp (scan_env_example fast) (readings_at 2) (reply_packet 22 0x14) (probed_example fast) =
    Some (on_segment (scan_env_example fast) (readings_at 2) (reply_packet 22 0x14) (segment_example 22 0x14) (Some 5)
      (probed_example fast))"
  by (simp add: on_tcp_def gate_example)

definition events_example :: "scan_event list" where
  "events_example = [EvExpire (expiry_at 1) (first_entry 0 22), EvTcp (readings_at 2) (reply_packet 22 0x14)]"

lemma valid_example: "valid_ports [(22, expiry_at 0), (443, expiry_at 0)]"
  by (simp add: valid_ports_def)

lemma probed_accounts: "tally (se_params (scan_env_example fast)) (probed_example fast)"
proof -
  have "tally (se_params (scan_env_example fast)) (started_example fast)"
    using accounts_start_batch [OF start_example [unfolded batch_example_def] valid_example] by simp
  then have "tally (se_params (scan_env_example fast)) ((started_example fast)\<lparr>en_heap := [first_entry 0 443]\<rparr>)"
    by (rule accounts_unseen) (simp add: unseen_def same_account_def)
  moreover have "0 < length (en_slots ((started_example fast)\<lparr>en_heap := [first_entry 0 443]\<rparr>))"
    by (simp add: started_example_def heap_push_def enter_port_def Let_def)
  ultimately show ?thesis unfolding probed_example_def by (rule accounts_send_initial)
qed

text \<open>The run ends with the reset counted and port 443 still undecided.\<close>

lemma run_example:
  obtains en where "scan_run (scan_env_example fast) events_example (0, started_example fast) (2, en)"
    "rp_closed_ports (en_result en) = 1" "rp_open_ports (en_result en) = []" "rp_filtered_ports (en_result en) = []"
    "en_active_count en = 1"
proof -
  let ?env = "scan_env_example fast" and ?seg = "segment_example 22 0x14"
  let ?en = "on_segment ?env (readings_at 2) (reply_packet 22 0x14) ?seg (Some 5) (probed_example fast)"
  have st: "se_params ?env = scan_example\<lparr>sp_fast_scan := fast\<rparr>" "\<not> use_token ?env"
    by (simp_all add: scan_env_example_def use_token_def)
  have h: "th_sport ?seg = 22" "th_dport ?seg = 40000" "th_ack ?seg = 8" by (simp_all add: segment_example_def)
  have idx: "en_index (probed_example fast) (th_sport ?seg) = Some 0" by (simp add: probed_fields h)
  have v: "verdict SYN ?seg = REPORTED_CLOSED" "credible 7 ?seg"
    using segment_flags [of 22] by (simp_all add: verdict_def credible_def h)
  have ph: "phase_of (sl_probe (en_slots (probed_example fast) ! 0)) = Waiting"
    by (simp add: phase_of_def probed_slot)
  have tok: "token_ok ?env (en_slots (probed_example fast) ! 0) ?seg" by (simp add: token_ok_def st Let_def)
  note eff = segment_effect [OF probed_accounts idx _ tok, unfolded h probed_slot ph, OF probed_slot(4)]
  have res: "en_result ?en = record_verdict REPORTED_CLOSED 22 rec_pross_empty" "en_active_count ?en = 1"
    using eff(1,2) v by (simp_all add: st scan_example_def probed_fields port_step_def)
  have "scan_step ?env (EvExpire (expiry_at 1) (first_entry 0 22)) (0, started_example fast) (1, probed_example fast)"
    using scan_step.expire [of "started_example fast" "first_entry 0 22" "expiry_at 1" 0 ?env "probed_example fast"]
      fire_example [of fast]
    by (simp add: probed_example_def running_def started_example_def is_top_def heap_push_def enter_port_def
        batch_example_def batch_state_def first_entry_def expiry_at_def Let_def)
  moreover have "scan_step ?env (EvTcp (readings_at 2) (reply_packet 22 0x14)) (1, probed_example fast) (2, ?en)"
    using scan_step.tcp [of "probed_example fast" "reply_packet 22 0x14" 1 "readings_at 2" ?env ?en] reset_heard [of fast]
    by (simp add: running_def probed_fields reply_packet_def readings_at_def)
  ultimately have "scan_run ?env events_example (0, started_example fast) (2, ?en)"
    unfolding events_example_def by (auto intro: scan_run.intros)
  then show thesis using res by (intro that [of ?en]) (simp_all add: record_verdict_def rec_pross_empty_def)
qed

section \<open>From the start of a batch to any later state\<close>

lemma batch_reports:
  assumes a: "tally (se_params env) en" and j: "all_decided env st evs en"
  shows "p \<in> set (rp_open_ports (en_result en)) \<Longrightarrow> decided_in env st evs p REPORTED_OPEN"
    and "p \<in> set (rp_filtered_ports (en_result en)) \<Longrightarrow> decided_in env st evs p REPORTED_FILTERED"
proof -
  have len: "length (en_ports en) = length (en_slots en)" using a by (simp add: tally_def index_ok_def)
  have sets: "set (rp_open_ports (en_result en)) = set (ports_where (reported_as REPORTED_OPEN) (en_ports en) (en_slots en))"
    "set (rp_filtered_ports (en_result en)) = set (ports_where (reported_as REPORTED_FILTERED) (en_ports en) (en_slots en))"
    using a by (metis tally_def mset_eq_setD)+
  show "decided_in env st evs p REPORTED_OPEN" if "p \<in> set (rp_open_ports (en_result en))"
    using that j len unfolding sets set_ports_where [OF len] by (force simp: all_decided_def reported_as_def)
  show "decided_in env st evs p REPORTED_FILTERED" if "p \<in> set (rp_filtered_ports (en_result en))"
    using that j len unfolding sets set_ports_where [OF len] by (force simp: all_decided_def reported_as_def)
qed

lemma closed_count:
  assumes a: "tally (se_params env) en" and j: "all_decided env st evs en"
  shows "rp_closed_ports (en_result en) \<le> int (length (filter (\<lambda>p. decided_in env st evs p REPORTED_CLOSED) (en_ports en)))"
proof -
  have len: "length (en_ports en) = length (en_slots en)" using a by (simp add: tally_def index_ok_def)
  have "list_all2 (\<lambda>p sl. reported_as REPORTED_CLOSED sl \<longrightarrow> decided_in env st evs p REPORTED_CLOSED) (en_ports en) (en_slots en)"
    using j len by (auto simp: all_decided_def list_all2_conv_all_nth reported_as_def)
  then have "length (filter (reported_as REPORTED_CLOSED) (en_slots en)) \<le>
      length (filter (\<lambda>p. decided_in env st evs p REPORTED_CLOSED) (en_ports en))"
    by induction auto
  then show ?thesis using a by (simp add: tally_def)
qed

lemma fresh_retry_ok: "fresh_slot env port sl \<Longrightarrow> retry_ok env sl"
  by (auto simp: fresh_slot_def start_slot_def retry_ok_def Let_def)

lemma fresh_credit: "fresh_slot env port sl \<Longrightarrow> slot_credit m sl = m + 4"
  by (auto simp: fresh_slot_def start_slot_def slot_credit_def phase_of_def Let_def record_src_port_def)

lemma begun_stock:
  assumes "begun env tr b en"
  shows "stock m en = length (en_ports en) * (m + 4)"
proof -
  have "list_all2 (fresh_slot env) (en_ports en) (en_slots en)" using assms by (simp add: begun_def)
  then have "sum_list (map (slot_credit m) (en_slots en)) = length (en_ports en) * (m + 4)"
    by induction (simp_all add: fresh_credit)
  then show ?thesis using assms by (simp add: stock_def begun_def)
qed

lemma begun_retries:
  assumes "begun env tr b en" and "budget_ok (se_tune env) b"
  shows "retries_ok env en"
  using assms fresh_retry_ok by (auto simp: retries_ok_def begun_def list_all2_conv_all_nth)

section \<open>Properties\<close>

text \<open>
  C2. Every port of a batch is counted exactly once: in any state the scan loop reaches, the open, closed,
  filtered and undecided ports add up to the ports of the batch, no port is reported twice or without being
  scanned, the ports in retry are among the active ones, and when no port is active every port is reported.
\<close>

theorem scan_accounts:
  assumes "start_batch env x v ports (batch_state budget tracker rs bs r ids now) = Some en0"
    and "valid_ports ports" and "scan_run env evs (t0, en0) (t, en)"
  shows "length (rp_open_ports (en_result en)) + nat (rp_closed_ports (en_result en)) +
      length (rp_filtered_ports (en_result en)) + length (filter (reported_as REPORTED_NONE) (en_slots en)) =
      length ports \<and>
    distinct (rp_open_ports (en_result en) @ rp_filtered_ports (en_result en)) \<and>
    set (rp_open_ports (en_result en) @ rp_filtered_ports (en_result en)) \<subseteq> set (map (word_of_int \<circ> fst) ports) \<and>
    0 \<le> en_ports_in_retry en \<and> en_ports_in_retry en \<le> en_active_count en \<and>
    (en_active_count en = 0 \<longrightarrow> filter (reported_as REPORTED_NONE) (en_slots en) = [])"
proof -
  have ports: "en_ports en = map (word_of_int \<circ> fst) ports" by (rule start_run(2) [OF assms])
  from account_totals [OF start_run(1) [OF assms]] show ?thesis unfolding ports by simp
qed

theorem scan_accounts_witness:
  "\<exists>en. scan_run (scan_env_example True) events_example (0, started_example True) (2, en) \<and>
    rp_closed_ports (en_result en) = 1 \<and> length (filter (reported_as REPORTED_NONE) (en_slots en)) = 1"
proof -
  obtain en where run: "scan_run (scan_env_example True) events_example (0, started_example True) (2, en)"
    and res: "rp_closed_ports (en_result en) = 1" "rp_open_ports (en_result en) = []"
      "rp_filtered_ports (en_result en) = []"
    using run_example [of True] by metis
  from scan_accounts [OF start_example [unfolded batch_example_def] valid_example run] res run
  show ?thesis by (intro exI [of _ en]) simp
qed

text \<open>
  C3. No port is reported without an event that decided it, which came while the port was undecided. A port is
  open because of a segment from it to a source port of its probes: a SYN-ACK that acknowledges the probe for
  the types that begin a handshake, a reset (with a window, for WINDOW) for ACK and WINDOW. A reset need not
  acknowledge anything, but what it acknowledges is the probe, and with tokens in use one that does not counts only
  while a probe is outstanding. Over IPv4 the segment comes from the target; over IPv6 the source is not looked at. A
  port is filtered because of an ICMP message that quotes its probe when its retries are used up, or at a deadline of
  its own at which no retry is left. There are no more closed ports than ports that another reset decided.
\<close>

theorem reported_on_evidence:
  assumes "start_batch env x v ports (batch_state budget tracker rs bs r ids now) = Some en0"
    and "valid_ports ports" and "scan_run env evs (t0, en0) (t, en)"
  shows "list_all (\<lambda>p. decided_in env (t0, en0) evs p REPORTED_OPEN) (rp_open_ports (en_result en)) \<and>
    list_all (\<lambda>p. decided_in env (t0, en0) evs p REPORTED_FILTERED) (rp_filtered_ports (en_result en)) \<and>
    rp_closed_ports (en_result en) \<le>
      int (length (filter (\<lambda>p. decided_in env (t0, en0) evs p REPORTED_CLOSED) (map (word_of_int \<circ> fst) ports)))"
proof -
  note a = start_run(1) [OF assms] and j = start_run(3) [OF assms] and ports = start_run(2) [OF assms]
  show ?thesis using batch_reports [OF a j] closed_count [OF a j] by (simp add: list_all_iff ports)
qed

theorem reported_on_evidence_witness:
  "length (filter (\<lambda>p. decided_in (scan_env_example True) (0, started_example True) events_example p REPORTED_CLOSED) [22, 443]) \<ge> 1"
proof -
  obtain en where run: "scan_run (scan_env_example True) events_example (0, started_example True) (2, en)"
    and res: "rp_closed_ports (en_result en) = 1"
    using run_example [of True] by metis
  have map_ports: "map (word_of_int \<circ> fst) [(22, expiry_at 0), (443, expiry_at 0)] = [22, 443 :: u16]" by simp
  from reported_on_evidence [OF start_example [unfolded batch_example_def] valid_example run] res
  show ?thesis unfolding map_ports by linarith
qed

lemma start_traffic:
  assumes b: "start_batch env x v ports (batch_state budget tracker rs bs r ids now) = Some en0"
    and vp: "valid_ports ports" and run: "scan_run env evs (t0, en0) (t, en)"
    and tune: "tune_ok (se_tune env)" and budget: "budget_ok (se_tune env) budget"
  shows "retries_ok env en"
    and "length (en_queue en) \<le> length ports * (nat (ct_max_retries (se_tune env)) + 4)"
proof -
  note a = accounts_start_batch [OF b vp]
  obtain n where beg: "begun env tracker (budget\<lparr>rb_active_ports := n\<rparr>) en0" by (rule begun_start_batch [OF b])
  have "retries_ok env en0" by (rule begun_retries [OF beg]) (simp add: budget)
  from traffic.run [OF run, of "length ports * (nat (ct_max_retries (se_tune env)) + 4)"] a this tune
  show "retries_ok env en" and "length (en_queue en) \<le> length ports * (nat (ct_max_retries (se_tune env)) + 4)"
    by (simp_all add: begun_stock [OF beg] list_all_iff, simp add: stock_def)
qed


lemma tune_example: "tune_ok (se_tune (scan_env_example fast))" "budget_ok (se_tune (scan_env_example fast)) (budget_init tune_default)"
  by (simp_all add: tune_ok_def budget_ok_def budget_init_def scan_env_example_def tune_default_def)


text \<open>
  C10. A scan cannot be made to flood its target: over a whole batch, whatever the target and the network
  send, at most four packets and the maximal number of retries are queued per port.
\<close>

theorem packets_bounded:
  assumes "start_batch env x v ports (batch_state budget tracker rs bs r ids now) = Some en0"
    and "valid_ports ports" and "scan_run env evs (t0, en0) (t, en)"
    and "tune_ok (se_tune env)" and "budget_ok (se_tune env) budget"
  shows "length (en_queue en) \<le> length ports * (nat (ct_max_retries (se_tune env)) + 4)"
  by (rule start_traffic(2) [OF assms])

theorem packets_bounded_witness:
  "\<exists>en. scan_run (scan_env_example True) events_example (0, started_example True) (2, en) \<and> length (en_queue en) \<le> 18"
proof -
  obtain en where run: "scan_run (scan_env_example True) events_example (0, started_example True) (2, en)"
    using run_example [of True] by metis
  have "ct_max_retries (se_tune (scan_env_example True)) = 5" by (simp add: scan_env_example_def tune_default_def)
  with packets_bounded [OF start_example [unfolded batch_example_def] valid_example run tune_example] run
  show ?thesis by (intro exI [of _ en]) simp
qed

text \<open>
  C9. No undecided port is forgotten: as long as a port has neither been decided nor shaken hands, its
  next deadline is in the heap, or the port is parked and the sentinel that will release it is; so the heap
  has a next entry to wait for.
\<close>

theorem undecided_ports_awaited:
  assumes "start_batch env x v ports (batch_state budget tracker rs bs r ids now) = Some en0"
    and "valid_ports ports" and "scan_run env evs (t0, en0) (t, en)"
    and "i < length (en_slots en)" and "undecided i en"
  shows "(has_entry (en_ports en ! i) en \<or>
      en_ports en ! i \<in> set (en_gate_pending en) \<and> has_sentinel en \<and> sentinels_ok env en) \<and>
    (\<exists>e. is_top e (en_heap en))"
proof -
  note a = accounts_start_batch [OF assms(1,2)]
  obtain n where beg: "begun env tracker (budget\<lparr>rb_active_ports := n\<rparr>) en0"
    by (rule begun_start_batch [OF assms(1)])
  have w: "watchful env t en"
    using watch.run [OF assms(3)] a begun_watchful [OF beg] by (simp add: list_all_iff)
  from watchful_top [OF this assms(4,5)] w assms(4,5) show ?thesis
    by (auto simp: watchful_def parking_ok_def awaited_def)
qed

theorem undecided_ports_awaited_witness:
  "\<exists>en e. scan_run (scan_env_example True) [] (0, started_example True) (0, en) \<and> is_top e (en_heap en)"
proof -
  have run: "scan_run (scan_env_example True) [] (0, started_example True) (0, started_example True)"
    by (rule scan_run.stop)
  have "0 < length (en_slots (started_example True))" "undecided 0 (started_example True)"
    by (simp_all add: started_example_def undecided_def heap_push_def enter_port_def batch_example_def
        batch_state_def start_slot_def record_src_port_def Let_def)
  from undecided_ports_awaited [OF start_example [unfolded batch_example_def] valid_example run this] run
  show ?thesis by blast
qed

text \<open>
  C37. A connection that is being closed is waited for without a limit: once a port of a scan that is not
  fast has shaken hands, only another TCP packet can end it. Over any run without one, however many
  deadlines pass, the port stays active and so the loop goes on.
\<close>

theorem closing_port_never_times_out:
  assumes "scan_run env evs (t0, en0) (t, en)" and "tally (se_params env) en0" and "closing j en0"
    and "list_all (\<lambda>ev. \<not> is_tcp ev) evs"
  shows "closing j en \<and> 0 < en_active_count en"
  using close.run [OF assms(1,4), of j] accounts_run [OF assms(1)] closing_active assms(2,3) by fastforce

text \<open>Port 22 has answered the probe of a graceful scan with a SYN-ACK, and its deadline comes up.\<close>

definition closing_example :: engine where
  "closing_example = (on_segment (scan_env_example False) (readings_at 2) (reply_packet 22 0x12) (segment_example 22 0x12)
     (Some 5) (probed_example False))\<lparr>en_heap := [first_entry 3 22]\<rparr>"

lemma closing_example_facts:
  "tally (se_params (scan_env_example False)) closing_example" "closing 0 closing_example"
  "en_index closing_example = [22 \<mapsto> 0, 443 \<mapsto> 1]" "en_aborted closing_example = False"
proof -
  let ?env = "scan_env_example False" and ?seg = "segment_example 22 0x12"
  let ?en = "on_segment ?env (readings_at 2) (reply_packet 22 0x12) ?seg (Some 5) (probed_example False)"
  have st: "sp_scan_type (se_params ?env) = SYN" "\<not> sp_fast_scan (se_params ?env)" "\<not> use_token ?env"
    by (simp_all add: scan_env_example_def use_token_def scan_example_def)
  have h: "th_sport ?seg = 22" "th_dport ?seg = 40000" "th_ack ?seg = 8" by (simp_all add: segment_example_def)
  have idx: "en_index (probed_example False) (th_sport ?seg) = Some 0" by (simp add: probed_fields h)
  have ph: "phase_of (sl_probe (en_slots (probed_example False) ! 0)) = Waiting"
    by (simp add: phase_of_def probed_slot)
  have tok: "token_ok ?env (en_slots (probed_example False) ! 0) ?seg" by (simp add: token_ok_def st Let_def)
  note eff = segment_effect [OF probed_accounts idx _ tok, unfolded h probed_slot ph, OF probed_slot(4)]
  have step: "port_step SYN False 7 ?seg Waiting = Closing"
    using segment_flags [of 22] by (simp add: port_step_def credible_def verdict_def awaits_handshake_def h)
  have "phase_of (sl_probe (en_slots ?en ! 0)) = Closing" using eff(6) step st by simp
  then show "closing 0 closing_example"
    using eff(5,7) by (auto simp: closing_def closing_example_def phase_of_def split: if_splits)
  have "tally (se_params ?env) ?en" by (rule accounts_on_segment [OF probed_accounts])
  then show "tally (se_params ?env) closing_example"
    by (rule accounts_unseen) (simp add: closing_example_def unseen_def same_account_def)
  show "en_index closing_example = [22 \<mapsto> 0, 443 \<mapsto> 1]" "en_aborted closing_example = False"
    using eff(3,4) by (simp_all add: closing_example_def probed_fields)
qed

theorem closing_port_never_times_out_witness:
  "\<exists>en. scan_run (scan_env_example False) [EvExpire (expiry_at 3) (first_entry 3 22)] (2, closing_example) (3, en) \<and>
    en_heap en = [] \<and> 0 < en_active_count en"
proof -
  let ?en = "closing_example\<lparr>en_heap := []\<rparr>"
  have c: "pb_connection_established (sl_probe (en_slots closing_example ! 0))"
    using closing_example_facts(2) by (simp add: closing_def)
  have heap: "en_heap closing_example = [first_entry 3 22]" by (simp add: closing_example_def)
  have "running closing_example"
    using closing_active [OF closing_example_facts(1,2)] closing_example_facts(4) by (simp add: running_def)
  then have "scan_step (scan_env_example False) (EvExpire (expiry_at 3) (first_entry 3 22)) (2, closing_example) (3, ?en)"
    using scan_step.expire [of closing_example "first_entry 3 22" "expiry_at 3" 2 "scan_env_example False" ?en] c
    by (simp add: heap is_top_def expiry_at_def pop_and_fire_def fire_def first_entry_def closing_example_facts(3) Let_def)
  then have run: "scan_run (scan_env_example False) [EvExpire (expiry_at 3) (first_entry 3 22)] (2, closing_example) (3, ?en)"
    by (auto intro: scan_run.intros)
  from closing_port_never_times_out [OF this closing_example_facts(1,2)] run show ?thesis
    by (intro exI [of _ ?en]) simp
qed

text \<open>
  A retry leaves from a new source port: as long as the generator does not run dry, the choice ends, the
  port lies in the range, and it was used by an earlier attempt only when every port of the range was. So a
  late reply can be told from the reply to the retry.
\<close>

theorem retry_port_unused:
  assumes "lo \<le> hi" and "fair lo hi r"
  shows "\<exists>p r'. pick_unique_ephemeral_port r lo hi s = Some (p, r') \<and> lo \<le> p \<and> p \<le> hi \<and>
    (accepts_src_port p s \<longrightarrow> (\<forall>q. lo \<le> q \<and> q \<le> hi \<longrightarrow> accepts_src_port q s))"
  using fair_pick [OF assms] pick_unique_cases [OF assms(1)] by blast

theorem retry_port_unused_witness:
  "\<exists>p. 40000 \<le> p \<and> p \<le> 40001 \<and> \<not> accepts_src_port p probe_example"
proof -
  have r: "(40000 :: u16) \<le> 40001" by simp
  have size: "range_size 40000 40001 = 2" by (simp add: range_size_def)
  have "2 ^ 32 mod range_size 40000 40001 = 0" unfolding size by simp
  then have "draw_ok 40000 40001 0" unfolding draw_ok_def by (simp only: le0)
  then have "fair 40000 40001 (\<lambda>_. 0)" by (auto simp: fair_def)
  from retry_port_unused [OF r this, of probe_example]
  obtain p where p: "40000 \<le> p" "p \<le> 40001"
    "accepts_src_port p probe_example \<longrightarrow> (\<forall>q. 40000 \<le> q \<and> q \<le> 40001 \<longrightarrow> accepts_src_port q probe_example)" by blast
  have "\<not> accepts_src_port 40001 probe_example" by (simp add: accepts_src_port_def probe_example_def)
  with p show ?thesis by (intro exI [of _ p]) auto
qed

end
