(* ===== verification/Port_List.thy ===== *)
theory Port_List
  imports Cxx_Num "HOL-Library.Multiset"
begin

text \<open>
  The ports to scan, from the command line and from a file: \<open>parse_ports\<close> and \<open>read_ports_from_file\<close> of
  src/utils.cpp (lines 116 to 250). Messages on standard error are not modelled; a file is its content.
\<close>

section \<open>The list of the command line\<close>

text \<open>\<open>std::getline(ss, token, c)\<close> until the stream is used up: nothing follows a last separator.\<close>

definition getline_tokens :: "char \<Rightarrow> string \<Rightarrow> string list" where
  "getline_tokens c s = (let ts = split_on c s in if last ts = [] then butlast ts else ts)"

definition is_pad :: "char \<Rightarrow> bool" where
  "is_pad c \<longleftrightarrow> c = CHR '' '' \<or> c = CHR 0x09"

definition trim_pad :: "string \<Rightarrow> string" where
  "trim_pad s = rev (dropWhile is_pad (rev (dropWhile is_pad s)))"

definition scannable :: "int \<Rightarrow> bool" where
  "scannable p \<longleftrightarrow> p > 0 \<and> p \<le> 65535"

definition token_ports :: "string \<Rightarrow> int list" where
  "token_ports token =
     (let token = trim_pad token in
      if token = [] then []
      else case find_char CHR ''-'' token of
        Some dash \<Rightarrow>
          (case stoi (substr token 0 dash) of
             Inl e \<Rightarrow> []
           | Inr (start, _) \<Rightarrow>
               (case stoi (substr_from token (dash + 1)) of
                  Inl e \<Rightarrow> []
                | Inr (stop, _) \<Rightarrow> if scannable start \<and> scannable stop \<and> start \<le> stop then [start..stop] else []))
      | None \<Rightarrow>
          (case stoi token of
             Inl e \<Rightarrow> []
           | Inr (port, _) \<Rightarrow> if scannable port then [port] else []))"

text \<open>\<open>std::sort\<close>, then \<open>std::unique\<close>\<close>

definition sort_unique :: "int list \<Rightarrow> int list" where
  "sort_unique ports = remdups_adj (sort ports)"

definition parse_ports :: "string \<Rightarrow> int list" where
  "parse_ports spec = sort_unique (concat (map token_ports (getline_tokens CHR '','' spec)))"

section \<open>The list of a file\<close>

definition is_file_blank :: "char \<Rightarrow> bool" where
  "is_file_blank c \<longleftrightarrow> c = CHR '' '' \<or> c = CHR 0x09 \<or> c = CHR 0x0D"

text \<open>The number of a line, \<open>None\<close> as soon as it passes 65535.\<close>

fun add_digits :: "int \<Rightarrow> string \<Rightarrow> int option" where
  "add_digits port [] = Some port"
| "add_digits port (c # cs) =
     (if port > 65535 div 10 then None
      else let port = port * 10 + (int (of_char c) - 48) in if port > 65535 then None else add_digits port cs)"

function file_ports :: "string \<Rightarrow> int list" where
  "file_ports s =
     (if s = [] then []
      else let s = dropWhile is_file_blank s in
        if s = [] then []
        else let num = takeWhile is_digit s;
                 found = (if num = [] then []
                          else case add_digits 0 num of Some port \<Rightarrow> if port > 0 then [port] else [] | None \<Rightarrow> [])
             in found @ file_ports (drop 1 (dropWhile (\<lambda>c. c \<noteq> CHR 0x0A) (drop (length num) s))))"
  by pat_completeness auto

termination
proof (relation "measure length", goal_cases)
  case (2 s t num found)
  have "length (drop 1 (dropWhile (\<lambda>c. c \<noteq> CHR 0x0A) (drop (length num) t))) < length t"
    using 2(3) length_dropWhile_le [of "\<lambda>c. c \<noteq> CHR 0x0A" "drop (length num) t"] by (cases t) auto
  then show ?case using 2(2) length_dropWhile_le [of is_file_blank s] by simp
qed simp

declare file_ports.simps [simp del]

definition read_ports_from_file :: "string \<Rightarrow> int list" where
  "read_ports_from_file content = sort_unique (file_ports content)"

section \<open>Sorted lists of ports\<close>

lemma sorted_remdups_adj_less: "sorted xs \<Longrightarrow> sorted_wrt (<) (remdups_adj xs)" for xs :: "int list"
  by (induction xs rule: remdups_adj.induct) auto

lemma sort_unique_sorted: "sorted_wrt (<) (sort_unique ports)"
  by (simp add: sort_unique_def sorted_remdups_adj_less)

lemma sort_unique_set [simp]: "set (sort_unique ports) = set ports"
  by (simp add: sort_unique_def)

lemma sort_unique_of_set: "sort_unique ports = sorted_list_of_set (set ports)"
  using sort_unique_sorted [of ports] sorted_list_of_set.idem_if_sorted_distinct [of "sort_unique ports"]
  by (simp add: strict_sorted_iff)

section \<open>Printed lists of ports\<close>

datatype port_item = OnePort nat | PortRange nat nat

fun show_item :: "port_item \<Rightarrow> string" where
  "show_item (OnePort p) = show_nat p"
| "show_item (PortRange a b) = show_nat a @ ''-'' @ show_nat b"

fun item_ports :: "port_item \<Rightarrow> int list" where
  "item_ports (OnePort p) = [int p]"
| "item_ports (PortRange a b) = [int a..int b]"

fun item_ok :: "port_item \<Rightarrow> bool" where
  "item_ok (OnePort p) = (1 \<le> p \<and> p \<le> 65535)"
| "item_ok (PortRange a b) = (1 \<le> a \<and> a \<le> b \<and> b \<le> 65535)"

fun show_items :: "port_item list \<Rightarrow> string" where
  "show_items [] = []"
| "show_items [x] = show_item x"
| "show_items (x # xs) = show_item x @ '','' @ show_items xs"

lemma show_nat_chars:
  assumes "c \<in> set (show_nat n)"
  shows "is_digit c" and "\<not> is_pad c" and "c \<noteq> CHR ''-''" and "c \<noteq> CHR '',''"
proof -
  obtain d :: nat where d: "d < 10" "c = char_of (48 + d)" using show_nat_digits [OF assms] by auto
  then have code: "of_char c = 48 + d" by simp
  show "is_digit c" using d by (simp add: is_digit_def)
  show "\<not> is_pad c" and "c \<noteq> CHR ''-''" and "c \<noteq> CHR '',''" using code d(1) by (auto simp: is_pad_def)
qed

lemma trim_pad_id: "\<forall>c \<in> set s. \<not> is_pad c \<Longrightarrow> trim_pad s = s"
proof -
  assume a: "\<forall>c \<in> set s. \<not> is_pad c"
  have drop: "dropWhile is_pad t = t" if "\<forall>c \<in> set t. \<not> is_pad c" for t using that by (cases t) auto
  show ?thesis using drop [of s] drop [of "rev s"] a by (simp add: trim_pad_def)
qed

lemma token_ports_item:
  assumes "item_ok x"
  shows "token_ports (show_item x) = item_ports x"
proof (cases x)
  case (OnePort p)
  have "find_char CHR ''-'' (show_nat p) = None" using show_nat_chars(3) by (auto simp: str_simps)
  then show ?thesis
    using assms show_nat_chars(2) by (simp add: OnePort token_ports_def trim_pad_id scannable_def stoi_show_nat Let_def)
next
  case (PortRange a b)
  have "find_char CHR ''-'' (show_nat a @ CHR ''-'' # show_nat b) = Some (length (show_nat a))"
    using show_nat_chars(3) by (auto simp: str_simps)
  moreover have "trim_pad (show_nat a @ CHR ''-'' # show_nat b) = show_nat a @ CHR ''-'' # show_nat b"
    using show_nat_chars(2) by (intro trim_pad_id) (auto simp: is_pad_def)
  ultimately show ?thesis
    using assms by (simp add: PortRange token_ports_def scannable_def stoi_show_nat substr_def substr_from_def Let_def)
qed

lemma show_item_free: "CHR '','' \<notin> set (show_item x)" and show_item_Nil: "show_item x \<noteq> []"
  by (cases x; auto dest: show_nat_chars(4))+

lemma getline_items: "getline_tokens CHR '','' (show_items xs) = map show_item xs"
proof -
  have "split_on CHR '','' (show_items (x # xs)) = map show_item (x # xs)" for x xs
  proof (induction xs arbitrary: x)
    case Nil
    show ?case using show_item_free by (simp add: split_on_no_sep)
  next
    case (Cons y ys)
    then show ?case using show_item_free by (simp add: split_on_append)
  qed
  then show ?thesis
    by (cases xs) (simp_all add: getline_tokens_def last_map show_item_Nil)
qed

lemma parse_ports_sorted: "sorted_wrt (<) (parse_ports spec)"
  by (simp add: parse_ports_def sort_unique_sorted)

lemma parse_ports_scannable: "list_all scannable (parse_ports spec)"
proof -
  have "\<forall>p \<in> set (token_ports t). scannable p" for t
    by (auto simp: token_ports_def scannable_def Let_def split: option.splits sum.splits if_splits)
  then show ?thesis by (auto simp: parse_ports_def list_all_iff)
qed

section \<open>Properties\<close>

text \<open>
  Any list of ports and ranges, written as the argument of the ports option, is read as exactly its
  ports, ascending and each once; and whatever the argument is, the result is ascending and within 1 to 65535.
\<close>

theorem port_list_roundtrip:
  "(list_all item_ok items \<longrightarrow>
      parse_ports (show_items items) = sorted_list_of_set (set (concat (map item_ports items)))) \<and>
    sorted_wrt (<) (parse_ports spec) \<and> list_all scannable (parse_ports spec)"
proof -
  have "map (\<lambda>x. token_ports (show_item x)) items = map item_ports items" if "list_all item_ok items"
    using that by (simp add: list_all_iff token_ports_item)
  then have "list_all item_ok items \<longrightarrow>
      parse_ports (show_items items) = sorted_list_of_set (set (concat (map item_ports items)))"
    by (simp add: parse_ports_def getline_items sort_unique_of_set comp_def)
  with parse_ports_sorted parse_ports_scannable show ?thesis by blast
qed

theorem port_list_roundtrip_witness:
  "list_all item_ok [PortRange 20 22, OnePort 443, OnePort 21] \<and>
   parse_ports (show_items [PortRange 20 22, OnePort 443, OnePort 21]) = [20, 21, 22, 443]"
proof -
  have "list_all item_ok [PortRange 20 22, OnePort 443, OnePort 21]" by simp
  moreover have "set (concat (map item_ports [PortRange 20 22, OnePort 443, OnePort 21])) = {20, 21, 22, 443 :: int}"
    by (auto simp: upto.simps)
  ultimately show ?thesis using port_list_roundtrip [of "[PortRange 20 22, OnePort 443, OnePort 21]"] by simp
qed

end
