(* ===== verification/Worker.thy ===== *)
theory Worker
  imports Engine_Props Port_List
begin

text \<open>
  The scan of one target: \<open>worker_thread\<close> of src/scan.cpp (lines 6717 to 6905) over the engine, with the
  choice of the ports in src/main.cpp (lines 2203 to 2224). The ports are cut into batches of nearly equal
  size, every batch is one call of \<open>receive_response\<close> (a run of the scan loop until it ends), and the
  results, the round-trip tracker, the retry budget, the limiters and the random engine are handed on. Left
  out are the counters for debugging, the hardware address, time to live and packet details collected on the
  side, the printing at the end, and \<open>terminate_flag\<close>, which stays clear.
\<close>

section \<open>Which ports\<close>

text \<open>\<open>std::set_difference\<close> on two ascending lists without repetitions, after sorting both.\<close>

definition exclude_ports :: "int list \<Rightarrow> int list \<Rightarrow> int list" where
  "exclude_ports excluded ports =
     (if excluded = [] then ports else filter (\<lambda>p. p \<notin> set excluded) (sort ports))"

section \<open>Batches\<close>

text \<open>The ranges of indices; \<open>is\<close> are the values of the loop variable.\<close>

fun cut_batches :: "nat \<Rightarrow> nat \<Rightarrow> nat \<Rightarrow> nat list \<Rightarrow> (nat \<times> nat) list" where
  "cut_batches base_size extra pos [] = []"
| "cut_batches base_size extra pos (i # is) =
     (let this_size = base_size + (if i < extra then 1 else 0)
      in (pos, pos + this_size) # cut_batches base_size extra (pos + this_size) is)"

definition batch_ranges :: "nat \<Rightarrow> nat \<Rightarrow> (nat \<times> nat) list" where
  "batch_ranges n batch_size =
     (if n > 0
      then let num_batches = (n + batch_size - 1) div batch_size
           in cut_batches (n div num_batches) (n mod num_batches) 0 [0..<num_batches]
      else [])"

definition batches :: "nat \<Rightarrow> int list \<Rightarrow> int list list" where
  "batches batch_size ports =
     map (\<lambda>(a, b). take (b - a) (drop a ports)) (filter (\<lambda>(a, b). a < b) (batch_ranges (length ports) batch_size))"

section \<open>One target\<close>

record target =
  tg_budget :: retry_budget
  tg_tracker :: rtt_tracker
  tg_rate :: rate_limiter
  tg_bandwidth :: bandwidth_limiter
  tg_rng :: rng
  tg_tx_seq :: "bool \<Rightarrow> u32"
  tg_dispatch_delay_us :: nat
  tg_result :: rec_pross
  tg_lines :: "port_line list"

text \<open>The state before the first batch; the counters of time stamp ids are global and come from outside.\<close>

definition new_target :: "cong_tune \<Rightarrow> int \<Rightarrow> rng \<Rightarrow> (bool \<Rightarrow> u32) \<Rightarrow> target" where
  "new_target tune initial_rtt_ms r ids =
     \<lparr>tg_budget = budget_init tune, tg_tracker = rtt_init initial_rtt_ms,
      tg_rate = \<lparr>rs_window_sent = 0, rs_window_target = 0, rs_window_start = 0, rs_initialized = False\<rparr>,
      tg_bandwidth = \<lparr>bs_window_start = 0, bs_reserved_bytes = 0, bs_actual_bytes_sent = 0,
        bs_window_target_bytes = 0, bs_initialized = False\<rparr>,
      tg_rng = r, tg_tx_seq = ids, tg_dispatch_delay_us = 0, tg_result = rec_pross_empty, tg_lines = []\<rparr>"

text \<open>\<open>insert\<close> keeps the reason a port already has.\<close>

definition merge_result :: "rec_pross \<Rightarrow> rec_pross \<Rightarrow> rec_pross" where
  "merge_result res batch =
     \<lparr>rp_closed_ports = rp_closed_ports res + rp_closed_ports batch,
      rp_open_ports = rp_open_ports res @ rp_open_ports batch,
      rp_filtered_ports = rp_filtered_ports res @ rp_filtered_ports batch,
      rp_icmp_filter_reasons = rp_icmp_filter_reasons batch ++ rp_icmp_filter_reasons res,
      rp_icmp_warnings = rp_icmp_warnings res @ rp_icmp_warnings batch\<rparr>"

definition batch_ratio :: "retry_budget \<Rightarrow> rat" where
  "batch_ratio b = round64 (of_int (rb_ports_in_retry b) / of_int (if rb_active_ports b > 0 then rb_active_ports b else 1))"

definition batch_delay_us :: "cong_tune \<Rightarrow> libm_env \<Rightarrow> batch_delay_config \<Rightarrow> retry_budget \<Rightarrow> rng \<Rightarrow> nat \<times> rng" where
  "batch_delay_us tune lib cfg b r =
     (if \<not> bd_enabled cfg then (0, r)
      else if bd_dynamic_mode cfg
      then (let ratio = clamp (rb_congestion_ratio b) 0 1;
                curved = lib_pow lib ratio (ct_curve_exp tune);
                lo = bd_min_us cfg; hi = max (bd_max_us cfg) lo
            in (lo + nat \<lfloor>round64 (curved * of_nat (hi - lo))\<rfloor>, r))
      else if bd_random_mode cfg \<or> bd_range_mode cfg then lib_uniform lib (bd_min_us cfg) (bd_max_us cfg) r
      else (bd_delay_us cfg, r))"

text \<open>What is kept of a batch that ended in the state \<open>en\<close>.\<close>

definition absorb :: "cong_tune \<Rightarrow> libm_env \<Rightarrow> batch_delay_config \<Rightarrow> engine \<Rightarrow> target \<Rightarrow> target" where
  "absorb tune lib cfg en tg =
     (let b = update_congestion tune lib (batch_ratio (en_budget en)) (en_budget en);
          (delay, r) = batch_delay_us tune lib cfg b (en_rng en)
      in \<lparr>tg_budget = b, tg_tracker = en_tracker en, tg_rate = en_rate en, tg_bandwidth = en_bandwidth en,
          tg_rng = r, tg_tx_seq = en_tx_seq en, tg_dispatch_delay_us = delay,
          tg_result = merge_result (tg_result tg) (en_result en), tg_lines = tg_lines tg @ en_lines en\<rparr>)"

text \<open>
  The loop over the batches. The arguments of the scan are those of the call, but the keys of the tokens
  and the deadline of the first phase, which a batch draws for itself. \<open>ens\<close> are the states in which the
  batches ended: with no active port, or by a fatal ICMP message.
\<close>

definition same_scan :: "scan_env \<Rightarrow> scan_env \<Rightarrow> bool" where
  "same_scan base env \<longleftrightarrow>
     env = base\<lparr>se_phase1_deadline := se_phase1_deadline env, se_clock_offset := se_clock_offset env,
       se_sip_k0 := se_sip_k0 env, se_sip_k1 := se_sip_k1 env\<rparr>"

inductive target_run :: "scan_env \<Rightarrow> batch_delay_config \<Rightarrow> int list list \<Rightarrow> engine list \<Rightarrow> target \<Rightarrow> target \<Rightarrow> bool"
  for base cfg where
  over: "target_run base cfg [] [] tg tg"
| batch: "same_scan base env \<Longrightarrow> map fst ports = b \<Longrightarrow>
     start_batch env x (now + int (tg_dispatch_delay_us tg) * 1000) ports
       (batch_state (tg_budget tg) (tg_tracker tg) (tg_rate tg) (tg_bandwidth tg) (tg_rng tg) (tg_tx_seq tg) now) = Some en0 \<Longrightarrow>
     scan_run env evs (t0, en0) (t, en) \<Longrightarrow> \<not> running en \<Longrightarrow>
     target_run base cfg bs ens (absorb (se_tune env) (se_lib env) cfg en tg) tg' \<Longrightarrow>
     target_run base cfg (b # bs) (en # ens) tg tg'"

inductive_cases target_run_NilE: "target_run base cfg [] ens tg tg'"
inductive_cases target_run_ConsE: "target_run base cfg (b # bs) ens tg tg'"

section \<open>Batches share the ports out\<close>

lemma cut_batches_shape:
  "map (\<lambda>(a, b). b - a) (cut_batches base_size extra pos is) = map (\<lambda>i. base_size + (if i < extra then 1 else 0)) is"
  by (induction "is" arbitrary: pos) (simp_all add: Let_def)

lemma cut_batches_concat:
  "concat (map (\<lambda>(a, b). take (b - a) (drop a xs)) (cut_batches base_size extra pos is)) =
   take (sum_list (map (\<lambda>i. base_size + (if i < extra then 1 else 0)) is)) (drop pos xs)"
proof (induction "is" arbitrary: pos)
  case (Cons i "is")
  then show ?case by (simp add: Let_def take_add add.commute [of pos] flip: drop_drop)
qed simp

lemma concat_map_filter: "(\<And>x. x \<in> set xs \<Longrightarrow> \<not> P x \<Longrightarrow> f x = []) \<Longrightarrow> concat (map f (filter P xs)) = concat (map f xs)"
  by (induction xs) auto

lemma sum_extra: "extra \<le> n \<Longrightarrow> sum_list (map (\<lambda>i. base_size + (if i < extra then 1 else 0)) [0..<n]) = n * base_size + extra"
proof (induction n)
  case (Suc n)
  show ?case
  proof (cases "extra = Suc n")
    case True
    then have "sum_list (map (\<lambda>i. base_size + (if i < extra then 1 else 0)) [0..<n]) = sum_list (map (\<lambda>i. base_size + (if i < n then 1 else 0)) [0..<n])"
      by (intro arg_cong [where f = sum_list] map_cong) auto
    also have "\<dots> = n * base_size + n"
    proof -
      have "sum_list (map (\<lambda>i. base_size + (if i < n then 1 else 0)) [0..<n]) = sum_list (map (\<lambda>i. base_size + 1) [0..<n])"
        by (intro arg_cong [where f = sum_list] map_cong) auto
      then show ?thesis by (simp add: sum_list_triv)
    qed
    finally show ?thesis using True by simp
  next
    case False
    then show ?thesis using Suc by simp
  qed
qed simp

lemma ceil_div:
  fixes n batch_size :: nat
  assumes "0 < n" and "0 < batch_size"
  shows "0 < (n + batch_size - 1) div batch_size" and "n \<le> (n + batch_size - 1) div batch_size * batch_size"
proof -
  have "batch_size \<le> n + batch_size - 1" using assms(1) by linarith
  then show "0 < (n + batch_size - 1) div batch_size" using assms(2) by (simp add: div_greater_zero_iff)
  have "n + batch_size - 1 = (n + batch_size - 1) div batch_size * batch_size + (n + batch_size - 1) mod batch_size" by simp
  moreover have "(n + batch_size - 1) mod batch_size < batch_size" using assms(2) by simp
  ultimately show "n \<le> (n + batch_size - 1) div batch_size * batch_size" by linarith
qed

lemma batches_concat:
  assumes "0 < batch_size"
  shows "concat (batches batch_size ports) = ports"
proof (cases "ports = []")
  case False
  let ?n = "(length ports + batch_size - 1) div batch_size"
  have "0 < length ports" using False by simp
  then have n: "0 < ?n" using ceil_div(1) assms by blast
  then have "sum_list (map (\<lambda>i. length ports div ?n + (if i < length ports mod ?n then 1 else 0)) [0..<?n]) = length ports"
    using sum_extra [of "length ports mod ?n" ?n "length ports div ?n"] by (simp add: less_imp_le)
  then have "concat (map (\<lambda>(a, b). take (b - a) (drop a ports)) (batch_ranges (length ports) batch_size)) = ports"
    using False by (simp add: batch_ranges_def cut_batches_concat Let_def)
  then show ?thesis unfolding batches_def by (subst concat_map_filter) auto
qed (simp add: batches_def batch_ranges_def)

section \<open>Batches are even\<close>

lemma cut_batches_shapes:
  "(a, e) \<in> set (cut_batches base_size extra pos is) \<Longrightarrow> e = a + base_size \<or> e = a + base_size + 1 \<and> 0 < extra"
  by (induction "is" arbitrary: pos) (auto simp: Let_def split: if_splits)

lemma cut_batches_within:
  "(a, e) \<in> set (cut_batches base_size extra pos is) \<Longrightarrow>
    e \<le> pos + sum_list (map (\<lambda>i. base_size + (if i < extra then 1 else 0)) is)"
proof (induction "is" arbitrary: pos)
  case (Cons i "is")
  show ?case
  proof (cases "(a, e) \<in> set (cut_batches base_size extra (pos + (base_size + (if i < extra then 1 else 0))) is)")
    case True
    from Cons.IH [OF True] show ?thesis by (simp add: ac_simps)
  next
    case False
    with Cons.prems show ?thesis by (simp add: Let_def)
  qed
qed simp

definition batch_base :: "nat \<Rightarrow> nat \<Rightarrow> nat" where
  "batch_base n batch_size = n div ((n + batch_size - 1) div batch_size)"

lemma batch_lengths:
  assumes "0 < batch_size" and b: "b \<in> set (batches batch_size ports)"
  shows "0 < length b" and "length b \<le> batch_size"
    and "length b = batch_base (length ports) batch_size \<or> length b = batch_base (length ports) batch_size + 1"
proof -
  let ?n = "length ports" and ?k = "(length ports + batch_size - 1) div batch_size"
  obtain a e where ae: "(a, e) \<in> set (batch_ranges ?n batch_size)" "a < e" "b = take (e - a) (drop a ports)"
    using b unfolding batches_def by auto
  have pos: "0 < ?n" using ae(1) by (auto simp: batch_ranges_def split: if_splits)
  note k = ceil_div [OF pos assms(1)]
  have cut: "(a, e) \<in> set (cut_batches (?n div ?k) (?n mod ?k) 0 [0..<?k])"
    using ae(1) pos by (simp add: batch_ranges_def Let_def)
  have "e \<le> ?n"
    using cut_batches_within [OF cut] sum_extra [of "?n mod ?k" ?k "?n div ?k"] k(1) by (simp add: less_imp_le)
  then have len: "length b = e - a" using ae(2,3) by simp
  then show "0 < length b" using ae(2) by simp
  have shape: "e = a + ?n div ?k \<or> e = a + ?n div ?k + 1 \<and> 0 < ?n mod ?k" by (rule cut_batches_shapes [OF cut])
  then show "length b = batch_base ?n batch_size \<or> length b = batch_base ?n batch_size + 1"
    using len by (auto simp: batch_base_def)
  have split: "?n div ?k * ?k + ?n mod ?k = ?n" by (rule div_mult_mod_eq)
  from shape show "length b \<le> batch_size"
  proof
    assume "e = a + ?n div ?k"
    moreover have "?n div ?k * ?k \<le> batch_size * ?k" using split k(2) mult.commute [of ?k batch_size] by linarith
    then have "?n div ?k \<le> batch_size" using k(1) mult_le_cancel2 by blast
    ultimately show ?thesis using len by linarith
  next
    assume e: "e = a + ?n div ?k + 1 \<and> 0 < ?n mod ?k"
    then have "?n div ?k * ?k < batch_size * ?k" using split k(2) mult.commute [of ?k batch_size] by linarith
    then have "?n div ?k < batch_size" using mult_less_cancel2 by blast
    then show ?thesis using e len by linarith
  qed
qed

section \<open>What the batches report\<close>

text \<open>The ports a list of ends has reported on top of an earlier result.\<close>

definition port_words :: "int list \<Rightarrow> u16 list" where
  "port_words ports = map word_of_int ports"

definition in_port_range :: "int list \<Rightarrow> bool" where
  "in_port_range ports \<longleftrightarrow> list_all (\<lambda>p. 0 < p \<and> p \<le> 65535) ports"

lemma distinct_port_words: "distinct ports \<Longrightarrow> in_port_range ports \<Longrightarrow> distinct (port_words ports)"
  using word_of_port_inj by (auto simp: port_words_def in_port_range_def list_all_iff distinct_map inj_on_def)

definition adds :: "u16 list \<Rightarrow> bool \<Rightarrow> rec_pross \<Rightarrow> rec_pross \<Rightarrow> bool" where
  "adds scanned full res res' \<longleftrightarrow>
     (\<exists>op fi cl. rp_open_ports res' = rp_open_ports res @ op \<and> rp_filtered_ports res' = rp_filtered_ports res @ fi \<and>
        rp_closed_ports res' = rp_closed_ports res + int cl \<and> distinct (op @ fi) \<and> set (op @ fi) \<subseteq> set scanned \<and>
        length op + cl + length fi \<le> length scanned \<and>
        (full \<longrightarrow> length op + cl + length fi = length scanned))"

lemma adds_none: "adds [] True res res"
  by (simp add: adds_def)

lemma adds_append:
  assumes "adds xs c a b" and "adds ys c' b r" and "distinct (xs @ ys)"
  shows "adds (xs @ ys) (c \<and> c') a r"
proof -
  obtain op fi cl where 1: "rp_open_ports b = rp_open_ports a @ op" "rp_filtered_ports b = rp_filtered_ports a @ fi"
    "rp_closed_ports b = rp_closed_ports a + int cl" "distinct (op @ fi)" "set (op @ fi) \<subseteq> set xs"
    "length op + cl + length fi \<le> length xs" "c \<longrightarrow> length op + cl + length fi = length xs"
    using assms(1) unfolding adds_def by blast
  obtain op' fi' cl' where 2: "rp_open_ports r = rp_open_ports b @ op'" "rp_filtered_ports r = rp_filtered_ports b @ fi'"
    "rp_closed_ports r = rp_closed_ports b + int cl'" "distinct (op' @ fi')" "set (op' @ fi') \<subseteq> set ys"
    "length op' + cl' + length fi' \<le> length ys" "c' \<longrightarrow> length op' + cl' + length fi' = length ys"
    using assms(2) unfolding adds_def by blast
  show ?thesis unfolding adds_def
  proof (rule exI [of _ "op @ op'"], rule exI [of _ "fi @ fi'"], rule exI [of _ "cl + cl'"], intro conjI)
    show "distinct ((op @ op') @ fi @ fi')" using 1(4,5) 2(4,5) assms(3) by auto
    show "set ((op @ op') @ fi @ fi') \<subseteq> set (xs @ ys)" using 1(5) 2(5) by auto
  qed (use 1 2 in auto)
qed

lemma adds_batch:
  assumes b: "start_batch env x v ports (batch_state budget tracker rs bs r ids now) = Some en0"
    and vp: "valid_ports ports" and run: "scan_run env evs (t0, en0) (t, en)" and over: "\<not> running en"
  shows "adds (port_words (map fst ports)) (\<not> en_aborted en) res (merge_result res (en_result en))"
proof -
  have ports: "en_ports en = port_words (map fst ports)" using start_run(2) [OF b vp run] by (simp add: port_words_def)
  note t = account_totals [OF start_run(1) [OF b vp run]]
  have closed: "int (nat (rp_closed_ports (en_result en))) = rp_closed_ports (en_result en)"
    using start_run(1) [OF b vp run] by (simp add: tally_def)
  have "\<not> en_aborted en \<Longrightarrow> en_active_count en = 0" using over t(4,5) by (auto simp: running_def)
  with t(1,2,3,6) ports closed show ?thesis unfolding adds_def
    by - (rule exI [of _ "rp_open_ports (en_result en)"], rule exI [of _ "rp_filtered_ports (en_result en)"],
        rule exI [of _ "nat (rp_closed_ports (en_result en))"],
        auto simp: merge_result_def port_words_def)
qed

lemma adds_target:
  assumes "target_run base cfg bs ens tg tg'" and "distinct (concat bs)" and "in_port_range (concat bs)"
  shows "adds (port_words (concat bs)) (list_all (\<lambda>en. \<not> en_aborted en) ens) (tg_result tg) (tg_result tg')"
  using assms
proof induction
  case (over tg)
  show ?case by (simp add: port_words_def adds_none)
next
  case (batch env ports b x now tg en0 evs t0 t en bs ens tg')
  have vp: "valid_ports ports"
  proof -
    have "distinct b" and "\<forall>p \<in> set b. 0 < p \<and> p \<le> 65535"
      using batch.prems by (simp_all add: in_port_range_def list_all_iff)
    then show ?thesis unfolding valid_ports_def list_all_iff batch.hyps(2) [symmetric] by force
  qed
  have "adds (port_words b) (\<not> en_aborted en) (tg_result tg) (merge_result (tg_result tg) (en_result en))"
    using adds_batch [OF batch.hyps(3) vp batch.hyps(4,5)] batch.hyps(2) by simp
  then have "adds (port_words b) (\<not> en_aborted en) (tg_result tg)
      (tg_result (absorb (se_tune env) (se_lib env) cfg en tg))"
    by (simp add: absorb_def Let_def split: prod.splits)
  moreover have "adds (port_words (concat bs)) (list_all (\<lambda>en. \<not> en_aborted en) ens)
      (tg_result (absorb (se_tune env) (se_lib env) cfg en tg)) (tg_result tg')"
    using batch.IH batch.prems by (simp add: in_port_range_def)
  moreover have "distinct (port_words b @ port_words (concat bs))"
    using distinct_port_words [OF batch.prems] by (simp add: port_words_def)
  ultimately have "adds (port_words b @ port_words (concat bs))
      (\<not> en_aborted en \<and> list_all (\<lambda>en. \<not> en_aborted en) ens) (tg_result tg) (tg_result tg')"
    by (rule adds_append)
  then show ?case by (simp add: port_words_def)
qed

section \<open>A target with one port\<close>

definition delay_off :: batch_delay_config where
  "delay_off = \<lparr>bd_enabled = False, bd_random_mode = False, bd_range_mode = False, bd_delay_us = 0,
     bd_min_us = 0, bd_max_us = 0, bd_dynamic_mode = False\<rparr>"

definition target_example :: target where
  "target_example = new_target tune_default 290 (\<lambda>_. 0) (\<lambda>_. 0)"

definition started_one :: engine where
  "started_one = (let en = heap_push 0 22 (enter_port (scan_env_example True) (expiry_at 0) 22 40000 batch_example)
     in en\<lparr>en_active_count := 1, en_budget := (budget_init tune_default)\<lparr>rb_active_ports := 1\<rparr>\<rparr>)"

lemma start_one:
  "start_batch (scan_env_example True) (expiry_at 0) 0 [(22, expiry_at 0)] batch_example = Some started_one"
proof -
  have port: "start_port (scan_env_example True) (expiry_at 0) 22 (0, batch_example) = Some (0, heap_push 0 22
      (enter_port (scan_env_example True) (expiry_at 0) 22 40000 batch_example))"
    using start_port_plain [of "scan_env_example True" 22 "expiry_at 0" 0 batch_example]
    by (simp add: scan_env_example_def rate_default_def bandwidth_default_def sport_range_default_def gsport_default_def
        expiry_at_def)
  have off: "\<not> rc_enabled (se_rate_config (scan_env_example True))" by (simp add: scan_env_example_def rate_default_def)
  have "en_ports batch_example = []" "en_budget batch_example = budget_init tune_default"
    by (simp_all add: batch_example_def batch_state_def)
  then show ?thesis
    by (simp add: start_batch_def off port started_one_def Let_def enter_port_def heap_push_def budget_init_def)
qed

definition probed_one :: engine where
  "probed_one = send_initial (scan_env_example True) (expiry_at 1) 0 22 (started_one\<lparr>en_heap := []\<rparr>)"

lemma probed_one_fields:
  "en_index probed_one = [22 \<mapsto> 0]" "en_active_count probed_one = 1" "en_aborted probed_one = False"
  "en_result probed_one = rec_pross_empty"
  by (simp_all add: probed_one_def send_initial_def started_one_def heap_push_def set_slot_def
      enter_port_def batch_example_def batch_state_def Let_def)

lemma probed_one_slot:
  "sl_final (en_slots probed_one ! 0) = False"
  "sl_replied_this_attempt (en_slots probed_one ! 0) = False"
  "accepts_src_port 40000 (sl_probe (en_slots probed_one ! 0))"
  "pb_seq (sl_probe (en_slots probed_one ! 0)) = 7"
  "pb_final_state_determined (sl_probe (en_slots probed_one ! 0)) = False"
  "pb_connection_established (sl_probe (en_slots probed_one ! 0)) = False"
  by (simp_all add: probed_one_def send_initial_def started_one_def heap_push_def set_slot_def
      enter_port_def batch_example_def batch_state_def start_slot_def record_src_port_def accepts_src_port_def
      scan_env_example_def use_token_def Let_def)

lemma probed_one_accounts: "tally (se_params (scan_env_example True)) probed_one"
proof -
  have "tally (se_params (scan_env_example True)) started_one"
    using accounts_start_batch [OF start_one [unfolded batch_example_def]] by (simp add: valid_ports_def)
  then have "tally (se_params (scan_env_example True)) (started_one\<lparr>en_heap := []\<rparr>)"
    by (rule accounts_unseen) (simp add: unseen_def same_account_def)
  moreover have "0 < length (en_slots (started_one\<lparr>en_heap := []\<rparr>))"
    by (simp add: started_one_def heap_push_def enter_port_def Let_def)
  ultimately show ?thesis unfolding probed_one_def by (rule accounts_send_initial)
qed

text \<open>The probe goes out, the reset comes back, and the batch is over.\<close>

lemma run_one:
  obtains en where "scan_run (scan_env_example True) events_example (0, started_one) (2, en)"
    "en_result en = record_verdict REPORTED_CLOSED 22 rec_pross_empty" "\<not> running en" "\<not> en_aborted en"
proof -
  let ?env = "scan_env_example True" and ?seg = "segment_example 22 0x14"
  let ?en = "on_segment ?env (readings_at 2) (reply_packet 22 0x14) ?seg (Some 5) probed_one"
  have st: "se_params ?env = scan_example\<lparr>sp_fast_scan := True\<rparr>" "\<not> use_token ?env"
    by (simp_all add: scan_env_example_def use_token_def)
  have h: "th_sport ?seg = 22" "th_dport ?seg = 40000" "th_ack ?seg = 8" by (simp_all add: segment_example_def)
  have idx: "en_index probed_one (th_sport ?seg) = Some 0" by (simp add: probed_one_fields h)
  have v: "verdict SYN ?seg = REPORTED_CLOSED" "credible 7 ?seg"
    using segment_flags [of 22] by (simp_all add: verdict_def credible_def h)
  have ph: "phase_of (sl_probe (en_slots probed_one ! 0)) = Waiting" by (simp add: phase_of_def probed_one_slot)
  have tok: "token_ok ?env (en_slots probed_one ! 0) ?seg" by (simp add: token_ok_def st Let_def)
  note eff = segment_effect [OF probed_one_accounts idx _ tok, unfolded h probed_one_slot ph, OF probed_one_slot(3)]
  have res: "en_result ?en = record_verdict REPORTED_CLOSED 22 rec_pross_empty" "en_active_count ?en = 0"
    using eff(1,2) v by (simp_all add: st scan_example_def probed_one_fields port_step_def)
  have fire: "pop_and_fire ?env (expiry_at 1) (first_entry 0 22) started_one = Some probed_one"
    by (simp add: pop_and_fire_def fire_def first_entry_def started_one_def probed_one_def Let_def enter_port_def
        heap_push_def batch_example_def batch_state_def start_slot_def record_src_port_def)
  have first: "scan_step ?env (EvExpire (expiry_at 1) (first_entry 0 22)) (0, started_one) (1, probed_one)"
    using scan_step.expire [of started_one "first_entry 0 22" "expiry_at 1" 0 ?env probed_one] fire
    by (simp add: running_def started_one_def is_top_def heap_push_def enter_port_def
        batch_example_def batch_state_def first_entry_def expiry_at_def Let_def)
  have heard: "on_tcp ?env (readings_at 2) (reply_packet 22 0x14) probed_one = Some ?en"
    by (simp add: on_tcp_def gate_example)
  have "scan_step ?env (EvTcp (readings_at 2) (reply_packet 22 0x14)) (1, probed_one) (2, ?en)"
    using scan_step.tcp [of probed_one "reply_packet 22 0x14" 1 "readings_at 2" ?env ?en] heard
    by (simp add: running_def probed_one_fields reply_packet_def readings_at_def)
  with first have "scan_run ?env events_example (0, started_one) (2, ?en)"
    unfolding events_example_def by (auto intro: scan_run.intros)
  moreover have "en_aborted ?en = False" using eff by (simp add: probed_one_fields)
  ultimately show thesis using res by (intro that [of ?en]) (simp_all add: running_def)
qed

lemma parse_two: "parse_ports ''443,22'' = [22, 443]"
  by code_simp

lemma parse_one: "exclude_ports [443] (parse_ports ''443,22'') = [22]"
  by (simp add: exclude_ports_def parse_two)

lemma batches_one: "batches 1000 [22] = [[22]]"
  by (simp add: batches_def batch_ranges_def Let_def)

lemma target_one:
  obtains en tg where "target_run (scan_env_example True) delay_off [[22]] [en] target_example tg"
    "rp_closed_ports (tg_result tg) = 1" "\<not> en_aborted en"
proof -
  obtain en where run: "scan_run (scan_env_example True) events_example (0, started_one) (2, en)"
    and res: "en_result en = record_verdict REPORTED_CLOSED 22 rec_pross_empty" and over: "\<not> running en" "\<not> en_aborted en"
    using run_one by metis
  let ?tg = "absorb (se_tune (scan_env_example True)) (se_lib (scan_env_example True)) delay_off en target_example"
  have start: "start_batch (scan_env_example True) (expiry_at 0) (0 + int (tg_dispatch_delay_us target_example) * 1000)
      [(22, expiry_at 0)] (batch_state (tg_budget target_example) (tg_tracker target_example) (tg_rate target_example)
        (tg_bandwidth target_example) (tg_rng target_example) (tg_tx_seq target_example) 0) = Some started_one"
    using start_one by (simp add: target_example_def new_target_def batch_example_def)
  have "same_scan (scan_env_example True) (scan_env_example True)" by (simp add: same_scan_def)
  then have t: "target_run (scan_env_example True) delay_off [[22]] [en] target_example ?tg"
    using target_run.batch [OF _ _ start run over(1) target_run.over] by simp
  moreover have "rp_closed_ports (tg_result ?tg) = 1"
    by (simp add: absorb_def target_example_def new_target_def merge_result_def res record_verdict_def rec_pross_empty_def
        Let_def split: prod.splits)
  ultimately show thesis using over(2) by (intro that)
qed

section \<open>Properties\<close>

text \<open>
  C1. The result of a target accounts for the ports asked for: whatever the argument of the ports option, the
  excluded ports, the batch size and the replies, when the batches of a target have ended no port is reported
  twice, every port reported was asked for and not excluded, the open, closed and filtered ports never exceed
  the ports to scan, and unless an ICMP message ended a batch they add up to them.
\<close>

theorem target_accounts:
  assumes "0 < batch_size"
    and "target_run base cfg (batches batch_size (exclude_ports excluded (parse_ports spec))) ens
      (new_target tune rtt_ms r ids) tg"
  shows "let ports = filter (\<lambda>p. p \<notin> set excluded) (parse_ports spec); res = tg_result tg;
      n = length (rp_open_ports res) + nat (rp_closed_ports res) + length (rp_filtered_ports res)
    in distinct (rp_open_ports res @ rp_filtered_ports res) \<and>
      set (rp_open_ports res @ rp_filtered_ports res) \<subseteq> word_of_int ` set ports \<and>
      n \<le> length ports \<and> (list_all (\<lambda>en. \<not> en_aborted en) ens \<longrightarrow> n = length ports)"
proof -
  let ?ports = "filter (\<lambda>p. p \<notin> set excluded) (parse_ports spec)"
  have "sort (parse_ports spec) = parse_ports spec"
    using parse_ports_sorted [of spec] by (intro sorted_sort_id) (simp add: strict_sorted_iff)
  then have excl: "exclude_ports excluded (parse_ports spec) = ?ports" by (simp add: exclude_ports_def)
  have "distinct ?ports" using parse_ports_sorted [of spec] by (simp add: strict_sorted_iff)
  moreover have "in_port_range ?ports"
    using parse_ports_scannable [of spec] by (auto simp: in_port_range_def list_all_iff scannable_def)
  ultimately have "adds (port_words ?ports) (list_all (\<lambda>en. \<not> en_aborted en) ens) rec_pross_empty (tg_result tg)"
    using adds_target [OF assms(2)] by (simp add: batches_concat [OF assms(1)] excl new_target_def)
  then show ?thesis
    by (auto simp: adds_def Let_def rec_pross_empty_def port_words_def)
qed

theorem target_accounts_witness:
  "\<exists>en tg. target_run (scan_env_example True) delay_off (batches 1000 (exclude_ports [443] (parse_ports ''443,22'')))
      [en] target_example tg \<and> \<not> en_aborted en \<and>
    length (rp_open_ports (tg_result tg)) + nat (rp_closed_ports (tg_result tg)) + length (rp_filtered_ports (tg_result tg)) = 1"
proof -
  obtain en tg where run: "target_run (scan_env_example True) delay_off [[22]] [en] target_example tg"
    and closed: "rp_closed_ports (tg_result tg) = 1" and a: "\<not> en_aborted en" using target_one by metis
  have "target_run (scan_env_example True) delay_off (batches 1000 (exclude_ports [443] (parse_ports ''443,22'')))
      [en] target_example tg" using run by (simp add: parse_one batches_one)
  from target_accounts [OF _ this [unfolded target_example_def]] a closed this show ?thesis
    by (intro exI [of _ en] exI [of _ tg]) (simp add: Let_def parse_two)
qed

text \<open>
  The ports are shared out evenly: the batches concatenated are the ports in their order, no batch is
  empty or larger than the batch size, and the sizes of two batches differ by one at most.
\<close>

theorem batches_even:
  assumes "0 < batch_size"
  shows "concat (batches batch_size ports) = ports \<and>
    (\<forall>b \<in> set (batches batch_size ports). 0 < length b \<and> length b \<le> batch_size) \<and>
    (\<forall>b \<in> set (batches batch_size ports). \<forall>b' \<in> set (batches batch_size ports). length b \<le> length b' + 1)"
proof -
  have "length b \<le> length b' + 1" if "b \<in> set (batches batch_size ports)" "b' \<in> set (batches batch_size ports)" for b b'
    using batch_lengths(3) [OF assms that(1)] batch_lengths(3) [OF assms that(2)] by linarith
  with batches_concat [OF assms] batch_lengths(1,2) [OF assms] show ?thesis by blast
qed

theorem batches_even_witness:
  "batches 2 [20, 21, 22, 80, 443] = [[20, 21], [22, 80], [443]] \<and> concat (batches 2 [20, 21, 22, 80, 443]) = [20, 21, 22, 80, 443]"
  using batches_even [of 2 "[20, 21, 22, 80, 443]"]
  by (simp add: batches_def batch_ranges_def Let_def upt_rec)

end
