(* ===== verification/Cidr.thy ===== *)
theory Cidr
  imports Cxx_Num "HOL-Library.Product_Lexorder" "HOL-Library.Multiset"
begin

text \<open>
  Address ranges of src/discover.cpp (lines 475 to 655): parsing prefixes, merging intervals and
  emitting an interval as prefixes. \<open>inet_pton\<close> is a parameter; addresses are numbers of their width
  in host order.
\<close>

type_synonym u128 = "128 word"

section \<open>Parsing\<close>

text \<open>A buffer handed to a C function ends at its first NUL.\<close>

definition c_str :: "string \<Rightarrow> string" where
  "c_str s = takeWhile (\<lambda>c. c \<noteq> CHR 0x00) s"

text \<open>\<open>std::from_chars\<close> on an unsigned number, with the whole text consumed.\<close>

definition parse_u64 :: "string \<Rightarrow> nat option" where
  "parse_u64 s = (if s \<noteq> [] \<and> list_all is_digit s \<and> digits_value 10 s < 2 ^ 64 then Some (digits_value 10 s) else None)"

definition parse_v4_addr :: "(string \<Rightarrow> u32 option) \<Rightarrow> string \<Rightarrow> u32 option" where
  "parse_v4_addr pton4 s = (if s = [] \<or> length s > 15 then None else pton4 (c_str s))"

text \<open>\<open>v = (v << 8) | byte\<close> over the sixteen bytes.\<close>

definition ipv6_to_u128 :: "bytes \<Rightarrow> u128" where
  "ipv6_to_u128 b = foldl (\<lambda>v x. or (push_bit 8 v) (ucast x)) 0 b"

definition parse_v6_addr :: "(string \<Rightarrow> bytes option) \<Rightarrow> string \<Rightarrow> u128 option" where
  "parse_v6_addr pton6 s = (if s = [] \<or> length s > 45 then None else map_option ipv6_to_u128 (pton6 (c_str s)))"

definition v4_from_prefix :: "u32 \<Rightarrow> nat \<Rightarrow> u32 \<times> u32" where
  "v4_from_prefix base len =
     (let mask = push_bit (32 - len) 0xFFFFFFFF; lo = and base mask in (lo, or lo (not mask)))"

definition v6_from_prefix :: "u128 \<Rightarrow> nat \<Rightarrow> u128 \<times> u128" where
  "v6_from_prefix base len =
     (let host_mask = push_bit (128 - len) 1 - 1; lo = and base (not host_mask) in (lo, or lo host_mask))"

definition parse_v4_cidr :: "(string \<Rightarrow> u32 option) \<Rightarrow> string \<Rightarrow> (u32 \<times> u32) option" where
  "parse_v4_cidr pton4 s =
     (case find_char CHR ''/'' s of
        None \<Rightarrow> None
      | Some slash \<Rightarrow>
          (case parse_v4_addr pton4 (substr s 0 slash) of
             None \<Rightarrow> None
           | Some base \<Rightarrow>
               (case parse_u64 (substr_from s (slash + 1)) of
                  None \<Rightarrow> None
                | Some len \<Rightarrow> if len < 1 \<or> len > 32 then None else Some (v4_from_prefix base len))))"

definition parse_v6_cidr :: "(string \<Rightarrow> bytes option) \<Rightarrow> string \<Rightarrow> (u128 \<times> u128) option" where
  "parse_v6_cidr pton6 s =
     (case find_char CHR ''/'' s of
        None \<Rightarrow> None
      | Some slash \<Rightarrow>
          (case parse_v6_addr pton6 (substr s 0 slash) of
             None \<Rightarrow> None
           | Some base \<Rightarrow>
               (case parse_u64 (substr_from s (slash + 1)) of
                  None \<Rightarrow> None
                | Some len \<Rightarrow> if len < 1 \<or> len > 128 then None else Some (v6_from_prefix base len))))"

section \<open>Merging\<close>

text \<open>The condition under which an interval is joined to the last one kept.\<close>

definition touches_v4 :: "u32 \<Rightarrow> u32 \<Rightarrow> bool" where
  "touches_v4 hi lo \<longleftrightarrow> unat lo \<le> unat hi + 1"

definition touches_v6 :: "u128 \<Rightarrow> u128 \<Rightarrow> bool" where
  "touches_v6 hi lo \<longleftrightarrow> hi = not 0 \<or> lo \<le> hi + 1"

text \<open>The loop over the sorted intervals; the first argument is \<open>out\<close>, last element first.\<close>

fun merge_into :: "('a \<Rightarrow> 'a \<Rightarrow> bool) \<Rightarrow> ('a \<times> 'a) list \<Rightarrow> ('a :: linorder \<times> 'a) list \<Rightarrow> ('a \<times> 'a) list" where
  "merge_into touch out [] = rev out"
| "merge_into touch [] (iv # v) = merge_into touch [iv] v"
| "merge_into touch ((l, h) # out) ((a, b) # v) =
     (if touch h a then merge_into touch ((l, max h b) # out) v
      else merge_into touch ((a, b) # (l, h) # out) v)"

definition merge_v4 :: "(u32 \<times> u32) list \<Rightarrow> (u32 \<times> u32) list" where
  "merge_v4 v = merge_into touches_v4 [] (sort v)"

definition merge_v6 :: "(u128 \<times> u128) list \<Rightarrow> (u128 \<times> u128) list" where
  "merge_v6 v = merge_into touches_v6 [] (sort_key fst v)"

section \<open>Emitting an interval as prefixes\<close>

text \<open>The number of trailing zero bits and the position of the highest bit, for positive numbers.\<close>

fun ctz :: "nat \<Rightarrow> nat" where
  "ctz n = (if n = 0 \<or> odd n then 0 else Suc (ctz (n div 2)))"

fun floor_log2 :: "nat \<Rightarrow> nat" where
  "floor_log2 n = (if n \<le> 1 then 0 else Suc (floor_log2 (n div 2)))"

declare ctz.simps [simp del] floor_log2.simps [simp del]

text \<open>
  \<open>emit_v4\<close> as the list of base and prefix length of its lines. The variables have 64 bits and
  stay below 2 to the power 33, so they are natural numbers. The isolated lowest bit
  \<open>cur & (~cur + 1)\<close> is the power of two that \<open>ctz\<close> gives.
\<close>

function emit_v4 :: "nat \<Rightarrow> nat \<Rightarrow> (nat \<times> nat) list" where
  "emit_v4 cur stop =
     (if cur \<le> stop then
        (let remaining = stop - cur + 1;
             align = (if cur = 0 then 32 else ctz cur);
             fit = floor_log2 remaining;
             k = min align fit
         in (cur, 32 - k) # emit_v4 (cur + 2 ^ k) stop)
      else [])"
  by pat_completeness auto
termination
  by (relation "measure (\<lambda>(cur, stop). Suc stop - cur)") (auto simp: Let_def not_less intro!: diff_less_mono2)

text \<open>
  \<open>emit_v6\<close>. None of its 128-bit operations wraps on an interval: the full range, where
  \<open>end - cur + 1\<close> would, is a case of its own, and \<open>cur\<close> is only advanced when \<open>end - cur\<close> is
  at least the step. The variable \<open>take\<close> of the code is \<open>k\<close>.
\<close>

function emit_v6 :: "nat \<Rightarrow> nat \<Rightarrow> (nat \<times> nat) list" where
  "emit_v6 cur stop =
     (let k = (if cur = 0 \<and> stop = 2 ^ 128 - 1 then 128
          else min (if cur = 0 then 128 else ctz cur) (floor_log2 (stop - cur + 1)))
      in (cur, 128 - k) #
         (if k \<ge> 128 then []
          else if stop - cur < 2 ^ k then []
          else if cur + 2 ^ k > stop \<or> cur + 2 ^ k = 0 then []
          else emit_v6 (cur + 2 ^ k) stop))"
  by pat_completeness auto
termination
  by (relation "measure (\<lambda>(cur, stop). Suc stop - cur)") (auto simp: Let_def not_less intro!: diff_less_mono2)

declare emit_v4.simps [simp del] emit_v6.simps [simp del]

section \<open>Merging is union\<close>

definition points :: "('a :: linorder \<times> 'a) list \<Rightarrow> 'a set" where
  "points v = {x. \<exists>(a, b) \<in> set v. a \<le> x \<and> x \<le> b}"

lemma points_Cons: "points ((a, b) # v) = {a..b} \<union> points v"
  by (auto simp: points_def)

lemma points_rev [simp]: "points (rev v) = points v"
  by (simp add: points_def)

lemma points_mset: "mset v = mset w \<Longrightarrow> points v = points w"
  unfolding points_def by (metis set_mset_mset)

text \<open>
  The contract of the two loops: \<open>num\<close> reads an address as a number, and intervals are joined
  when they overlap or are neighbours.
\<close>

locale interval_merge =
  fixes touch :: "'a :: linorder \<Rightarrow> 'a \<Rightarrow> bool" and num :: "'a \<Rightarrow> nat"
  assumes num_le: "a \<le> b \<longleftrightarrow> num a \<le> num b"
    and touch_iff: "touch h a \<longleftrightarrow> num a \<le> num h + 1"
begin

definition apart :: "('a \<times> 'a) list \<Rightarrow> bool" where
  "apart v \<longleftrightarrow> sorted_wrt (\<lambda>(a, b) (c, d). num b + 1 < num c) v \<and> (\<forall>(a, b) \<in> set v. a \<le> b)"

lemma num_less: "a < b \<longleftrightarrow> num a < num b"
  using num_le [of b a] by (auto simp: not_le [symmetric])

lemma join: "l \<le> h \<Longrightarrow> l \<le> a \<Longrightarrow> touch h a \<Longrightarrow> {l..h} \<union> {a..b} = {l..max h b}"
  by (fastforce simp: touch_iff num_le num_less max_def split: if_splits)

lemma merge_into_spec:
  assumes "apart (rev out)" and "sorted (map fst v)" and "\<forall>(a, b) \<in> set v. a \<le> b"
    and "\<forall>(a, b) \<in> set v. \<forall>(l, h) \<in> set out. l \<le> a"
  shows "apart (merge_into touch out v) \<and> points (merge_into touch out v) = points out \<union> points v"
  using assms
proof (induction v arbitrary: out)
  case Nil
  then show ?case by (simp add: points_def)
next
  case (Cons iv v)
  obtain a b where iv: "iv = (a, b)" by (cases iv)
  have v: "sorted (map fst v)" "\<forall>(a, b) \<in> set v. a \<le> b" "a \<le> b" "\<forall>(c, d) \<in> set v. a \<le> c"
    using Cons.prems(2,3) by (auto simp: iv)
  show ?case
  proof (cases out)
    case Nil
    have "apart (rev [(a, b)])" using v by (simp add: apart_def)
    from Cons.IH [OF this v(1,2)] v(4) show ?thesis by (auto simp: Nil iv points_def)
  next
    case (Cons lh out')
    obtain l h where lh: "lh = (l, h)" by (cases lh)
    have la: "l \<le> a" "l \<le> h" using Cons.prems(1,4) by (auto simp: Cons lh iv apart_def)
    show ?thesis
    proof (cases "touch h a")
      case True
      have "apart (rev ((l, max h b) # out'))"
        using Cons.prems(1) la unfolding Cons lh apart_def by (auto simp: sorted_wrt_append max.coboundedI1)
      moreover have "\<forall>(c, d) \<in> set v. \<forall>(l', h') \<in> set ((l, max h b) # out'). l' \<le> c"
        using Cons.prems(4) v(4) by (fastforce simp: Cons lh)
      ultimately show ?thesis
        using Cons.IH [of "(l, max h b) # out'"] v(1,2) join [OF la(2,1) True, of b] True
        by (auto simp: Cons lh iv points_Cons)
    next
      case False
      have na: "num h + 1 < num a" using False by (simp add: touch_iff)
      have "\<forall>(c, d) \<in> set out'. num d + 1 < num a"
        using Cons.prems(1) la(1) unfolding Cons lh apart_def
        by (fastforce simp: sorted_wrt_append num_le dest: order_less_le_trans)
      then have "apart (rev ((a, b) # (l, h) # out'))"
        using Cons.prems(1) na v(3) unfolding Cons lh apart_def by (fastforce simp: sorted_wrt_append)
      moreover have "\<forall>(c, d) \<in> set v. \<forall>(l', h') \<in> set ((a, b) # (l, h) # out'). l' \<le> c"
        using Cons.prems(4) v(4) by (fastforce simp: Cons lh)
      ultimately show ?thesis
        using Cons.IH [of "(a, b) # (l, h) # out'"] v(1,2) False
        by (auto simp: Cons lh iv points_Cons)
    qed
  qed
qed

lemma merge_spec:
  assumes "mset w = mset v" and "sorted (map fst w)" and "\<forall>(a, b) \<in> set v. a \<le> b"
  shows "apart (merge_into touch [] w) \<and> points (merge_into touch [] w) = points v"
proof -
  have "set w = set v" using assms(1) by (rule mset_eq_setD)
  then have "apart (merge_into touch [] w) \<and> points (merge_into touch [] w) = points [] \<union> points w"
    using assms(2,3) by (intro merge_into_spec) (auto simp: apart_def)
  then show ?thesis using points_mset [OF assms(1)] by (simp add: points_def)
qed

end

interpretation merge4: interval_merge touches_v4 unat
  by unfold_locales (simp_all add: touches_v4_def word_le_nat_alt)

interpretation merge6: interval_merge touches_v6 unat
proof
  show "a \<le> b \<longleftrightarrow> unat a \<le> unat b" for a b :: u128 by (simp add: word_le_nat_alt)
  fix h a :: u128
  show "touches_v6 h a \<longleftrightarrow> unat a \<le> unat h + 1"
  proof (cases "h = not 0")
    case True
    have "a \<le> h" using True by simp
    then show ?thesis using True by (simp add: touches_v6_def word_le_nat_alt)
  next
    case False
    have "1 + h \<noteq> 0" using False by (metis add.commute eq_neg_iff_add_eq_0 bit.compl_zero)
    then have "unat (h + 1) = unat h + 1" by (simp add: unatSuc add.commute)
    then show ?thesis using False by (simp add: touches_v6_def word_le_nat_alt)
  qed
qed

text \<open>Kept apart: in ascending order, with at least one address between neighbours.\<close>

definition separated :: "('a :: len word \<times> 'a word) list \<Rightarrow> bool" where
  "separated v \<longleftrightarrow> sorted_wrt (\<lambda>(a, b) (c, d). unat b + 1 < unat c) v \<and> (\<forall>(a, b) \<in> set v. a \<le> b)"

lemma sorted_fst: "sorted v \<Longrightarrow> sorted (map fst v)" for v :: "('a :: linorder \<times> 'b :: linorder) list"
  by (induction v) (auto simp: less_eq_prod_def)

lemma merge_v4_spec:
  "\<forall>(a, b) \<in> set v. a \<le> b \<Longrightarrow> points (merge_v4 v) = points v \<and> separated (merge_v4 v)"
  using merge4.merge_spec [of "sort v" v]
  by (simp add: merge_v4_def sorted_fst separated_def merge4.apart_def)

lemma merge_v6_spec:
  "\<forall>(a, b) \<in> set v. a \<le> b \<Longrightarrow> points (merge_v6 v) = points v \<and> separated (merge_v6 v)"
  using merge6.merge_spec [of "sort_key fst v" v]
  by (simp add: merge_v6_def separated_def merge6.apart_def)

text \<open>
  C23. Merging keeps the set of addresses and normalises it, for both families: the merged
  intervals cover exactly the addresses of the given ones, in ascending order, and no two of them
  overlap or are neighbours.
\<close>

theorem merge_is_union:
  assumes "\<forall>(a, b) \<in> set v. a \<le> b" and "\<forall>(a, b) \<in> set w. a \<le> b"
  shows "points (merge_v4 v) = points v \<and> separated (merge_v4 v) \<and>
    points (merge_v6 w) = points w \<and> separated (merge_v6 w)"
  using assms merge_v4_spec merge_v6_spec by blast

theorem merge_is_union_witness:
  "points (merge_v4 [(10, 20), (21, 30), (5, 12)]) = points [(10, 20), (21, 30), (5, 12)] \<and>
   separated (merge_v6 [(0, not 0), (3, 4)])"
  using merge_is_union [of "[(10, 20), (21, 30), (5, 12)]" "[(0, not 0), (3, 4)]"] by simp

section \<open>Emission covers the interval\<close>

text \<open>
  Blocks of addresses of a width of \<open>w\<close> bits: aligned, one after the other from \<open>cur\<close> on, up to
  and including \<open>stop\<close>.
\<close>

fun tiles :: "nat \<Rightarrow> nat \<Rightarrow> nat \<Rightarrow> (nat \<times> nat) list \<Rightarrow> bool" where
  "tiles w cur stop [] \<longleftrightarrow> cur = stop + 1"
| "tiles w cur stop ((base, len) # bs) \<longleftrightarrow> base = cur \<and> len \<le> w \<and> 2 ^ (w - len) dvd base \<and>
     cur + 2 ^ (w - len) \<le> stop + 1 \<and> tiles w (cur + 2 ^ (w - len)) stop bs"

lemma ctz_dvd: "2 ^ ctz n dvd n"
proof (induction n rule: ctz.induct)
  case (1 n)
  show ?case
  proof (cases "n = 0 \<or> odd n")
    case True
    then show ?thesis by (subst ctz.simps) simp
  next
    case False
    then obtain m where n: "n = 2 * m" by (auto elim: evenE)
    have "2 ^ ctz m dvd m" using 1 False by (simp add: n)
    then have "2 * 2 ^ ctz m dvd 2 * m" by (rule mult_dvd_mono [OF dvd_refl])
    moreover have "ctz n = Suc (ctz m)" using False by (subst ctz.simps) (simp add: n)
    ultimately show ?thesis by (simp add: n)
  qed
qed

lemma floor_log2_le: "0 < n \<Longrightarrow> 2 ^ floor_log2 n \<le> n"
proof (induction n rule: floor_log2.induct)
  case (1 n)
  show ?case
  proof (cases "n \<le> 1")
    case True
    then show ?thesis using 1 by (subst floor_log2.simps) simp
  next
    case False
    then have "2 ^ floor_log2 (n div 2) \<le> n div 2" using 1 by simp
    then have "2 * 2 ^ floor_log2 (n div 2) \<le> n" by simp
    then show ?thesis using False by (subst floor_log2.simps) simp
  qed
qed

lemma block_fits:
  assumes "cur \<le> stop" and "k \<le> (if cur = 0 then w else ctz cur)" and "k \<le> floor_log2 (stop - cur + 1)"
  shows "2 ^ k dvd cur" and "cur + 2 ^ k \<le> stop + 1"
proof -
  show "2 ^ k dvd cur"
    using assms(2) dvd_trans [OF le_imp_power_dvd ctz_dvd] by (cases "cur = 0") auto
  have "(2 :: nat) ^ k \<le> 2 ^ floor_log2 (stop - cur + 1)" using assms(3) by simp
  also have "\<dots> \<le> stop - cur + 1" by (rule floor_log2_le) simp
  finally show "cur + 2 ^ k \<le> stop + 1" using assms(1) by simp
qed

lemma exponent_bound: "2 ^ k \<le> n \<Longrightarrow> n \<le> 2 ^ w \<Longrightarrow> k \<le> w" for n :: nat
  by (meson le_trans one_less_numeral_iff power_le_imp_le_exp semiring_norm(76))

lemma emit_v4_tiles:
  "cur \<le> stop + 1 \<Longrightarrow> stop < 2 ^ 32 \<Longrightarrow> tiles 32 cur stop (emit_v4 cur stop)"
proof (induction cur stop rule: emit_v4.induct)
  case (1 cur stop)
  show ?case
  proof (cases "cur \<le> stop")
    case True
    define k where "k = min (if cur = 0 then 32 else ctz cur) (floor_log2 (stop - cur + 1))"
    have k: "2 ^ k dvd cur" "cur + 2 ^ k \<le> stop + 1"
      by (rule block_fits [OF True, where w = 32]; simp add: k_def)+
    then have "k \<le> 32" using "1.prems"(2) by (intro exponent_bound [of k "stop + 1"]) simp_all
    moreover have "emit_v4 cur stop = (cur, 32 - k) # emit_v4 (cur + 2 ^ k) stop"
      using True by (subst emit_v4.simps) (simp add: k_def Let_def)
    ultimately show ?thesis
      using k "1.IH" [OF True refl refl refl k_def] "1.prems" by simp
  next
    case False
    then show ?thesis using "1.prems" by (subst emit_v4.simps) simp
  qed
qed

lemma emit_v6_tiles:
  "cur \<le> stop \<Longrightarrow> stop < 2 ^ 128 \<Longrightarrow> tiles 128 cur stop (emit_v6 cur stop)"
proof (induction cur stop rule: emit_v6.induct)
  case (1 cur stop)
  show ?case
  proof (cases "cur = 0 \<and> stop = 2 ^ 128 - 1")
    case True
    then show ?thesis by (subst emit_v6.simps) simp
  next
    case part: False
    define k where "k = min (if cur = 0 then 128 else ctz cur) (floor_log2 (stop - cur + 1))"
    have k: "2 ^ k dvd cur" "cur + 2 ^ k \<le> stop + 1"
      by (rule block_fits [OF "1.prems"(1), where w = 128]; simp add: k_def)+
    have "k \<le> 128" using k "1.prems"(2) by (intro exponent_bound [of k "stop + 1"]) simp_all
    moreover have "k \<noteq> 128"
    proof
      assume "k = 128"
      then have "cur + 2 ^ 128 \<le> stop + 1" using k(2) by simp
      then have "cur = 0" and "stop = 2 ^ 128 - 1" using "1.prems"(2) by linarith+
      with part show False by simp
    qed
    ultimately have k128: "k < 128" by simp
    have kk: "(if cur = 0 \<and> stop = 2 ^ 128 - 1 then 128
        else min (if cur = 0 then 128 else ctz cur) (floor_log2 (stop - cur + 1))) = k"
      unfolding k_def by (rule if_not_P [OF part])
    have e: "emit_v6 cur stop = (cur, 128 - k) # (if stop - cur < 2 ^ k then []
        else if cur + 2 ^ k > stop \<or> cur + 2 ^ k = 0 then [] else emit_v6 (cur + 2 ^ k) stop)"
      unfolding emit_v6.simps [of cur stop] Let_def kk if_not_P [OF less_le_not_le [THEN iffD1, OF k128, THEN conjunct2]]
      by (rule refl)
    show ?thesis
    proof (cases "stop - cur < 2 ^ k")
      case True
      then show ?thesis using k k128 "1.prems"(1) by (simp add: e)
    next
      case False
      then have "cur + 2 ^ k \<le> stop" using "1.prems"(1) by simp
      then show ?thesis
        using k k128 False "1.IH" [OF kk [symmetric]] "1.prems"(2) by (simp add: e)
    qed
  qed
qed

text \<open>
  C24. Both emission loops end, and their lines tile the interval: each prefix is aligned to its
  length, the first starts at the interval's first address, each next one right behind the one
  before, the last ends at the interval's last address.
\<close>

theorem emission_tiles:
  assumes "lo \<le> hi" and "lo' \<le> hi'"
  shows "tiles 32 (unat (lo :: u32)) (unat hi) (emit_v4 (unat lo) (unat hi)) \<and>
    tiles 128 (unat (lo' :: u128)) (unat hi') (emit_v6 (unat lo') (unat hi'))"
proof -
  have "unat hi < 2 ^ 32" and "unat hi' < 2 ^ 128"
    using unsigned_less [of hi, where 'a = nat] unsigned_less [of hi', where 'a = nat] by simp_all
  then show ?thesis
    using assms by (auto simp: word_le_nat_alt intro!: emit_v4_tiles emit_v6_tiles)
qed

theorem emission_tiles_witness:
  "tiles 32 5 9 (emit_v4 5 9) \<and> tiles 128 0 3 (emit_v6 0 3)"
  using emission_tiles [of 5 9 0 3] by simp

end
