(* ===== verification/Text_Match.thy ===== *)
theory Text_Match
  imports Cidr "HOL-Library.List_Lexorder" "HOL-Library.Char_ord"
begin

text \<open>
  Matching of names in src/discover.cpp: normalising text (lines 250 to 320), the bounded edit distance
  and the approximate search for a substring (lines 322 to 368), the comparison of an organisation's name
  with a label (lines 1544 to 1836) and the encoding of code points (lines 1855 to 1873). Both dynamic
  programs are held against a relation of edit scripts. A \<open>char\<close> is compared as an unsigned byte.
\<close>

section \<open>Normalising\<close>

abbreviation code :: "char \<Rightarrow> nat" where
  "code c \<equiv> of_char c"

definition is_alnum_ascii :: "nat \<Rightarrow> bool" where
  "is_alnum_ascii n \<longleftrightarrow> (48 \<le> n \<and> n \<le> 57) \<or> (97 \<le> n \<and> n \<le> 122) \<or> (65 \<le> n \<and> n \<le> 90)"

definition lower_ascii :: "char \<Rightarrow> char" where
  "lower_ascii c = (if 65 \<le> code c \<and> code c \<le> 90 then char_of (code c - 65 + 97) else c)"

definition kLatin1 :: string where
  "kLatin1 = ''AAAAAAACEEEEIIIIDNOOOOO*OUUUUYTs'' @ ''aaaaaaaceeeeiiiidnooooo/ouuuuyty''"

definition latin1_base :: "nat \<Rightarrow> char" where
  "latin1_base second =
     (if second < 0x80 \<or> second > 0xBF then CHR 0x00
      else let m = kLatin1 ! (second - 0x80) in if is_alnum_ascii (code m) then lower_ascii m else CHR 0x00)"

text \<open>The characters \<open>scan_alnum\<close> emits; a NUL separates.\<close>

function scan_alnum :: "string \<Rightarrow> string" where
  "scan_alnum [] = []"
| "scan_alnum (c # s) =
     (if code c < 0x80 then (if is_alnum_ascii (code c) then lower_ascii c else CHR 0x00) # scan_alnum s
      else if code c = 0xC3 \<and> s \<noteq> [] \<and> code (hd s) \<ge> 0x80 \<and> code (hd s) \<le> 0xBF
      then latin1_base (code (hd s)) # scan_alnum (tl s)
      else CHR 0x00 # scan_alnum s)"
  by pat_completeness auto

termination
  by (relation "measure length") auto

definition normalize :: "string \<Rightarrow> string" where
  "normalize s = filter (\<lambda>c. c \<noteq> CHR 0x00) (scan_alnum s)"

fun collect_tokens :: "string \<Rightarrow> string \<Rightarrow> string list" where
  "collect_tokens cur [] = (if cur \<noteq> [] then [cur] else [])"
| "collect_tokens cur (c # s) =
     (if c \<noteq> CHR 0x00 then collect_tokens (cur @ [c]) s
      else if cur \<noteq> [] then cur # collect_tokens [] s
      else collect_tokens [] s)"

definition tokenize :: "string \<Rightarrow> string list" where
  "tokenize s = collect_tokens [] (scan_alnum s)"

section \<open>Removing control characters\<close>

definition c1_control :: "string \<Rightarrow> bool" where
  "c1_control s \<longleftrightarrow> length s \<ge> 1 \<and> 0x80 \<le> code (s ! 0) \<and> code (s ! 0) \<le> 0x9F"

definition bidi_control :: "string \<Rightarrow> bool" where
  "bidi_control s \<longleftrightarrow> length s \<ge> 2 \<and>
     ((code (s ! 0) = 0x80 \<and> 0xAA \<le> code (s ! 1) \<and> code (s ! 1) \<le> 0xAE) \<or>
      (code (s ! 0) = 0x81 \<and> 0xA6 \<le> code (s ! 1) \<and> code (s ! 1) \<le> 0xA9))"

function sanitize_inplace :: "string \<Rightarrow> string" where
  "sanitize_inplace [] = []"
| "sanitize_inplace (c # s) =
     (if code c < 0x20 \<or> code c = 0x7F then sanitize_inplace s
      else if code c = 0xC2 \<and> c1_control s then sanitize_inplace (drop 1 s)
      else if code c = 0xE2 \<and> bidi_control s then sanitize_inplace (drop 2 s)
      else c # sanitize_inplace s)"
  by pat_completeness auto

termination
  by (relation "measure length") auto

definition append_utf8 :: "nat \<Rightarrow> string" where
  "append_utf8 cp = map char_of
     (let low = (\<lambda>k. or 0x80 (and (drop_bit k cp) 0x3F))
      in if cp < 0x80 then [cp]
         else if cp < 0x800 then [or 0xC0 (drop_bit 6 cp), low 0]
         else if cp < 0x10000 then [or 0xE0 (drop_bit 12 cp), low 6, low 0]
         else if cp \<le> 0x10FFFF then [or 0xF0 (drop_bit 18 cp), low 12, low 6, low 0]
         else [])"

section \<open>The edit distance\<close>

definition kEditMax :: nat where
  "kEditMax = 64"

text \<open>Rows \<open>i - 2\<close>, \<open>i - 1\<close> and the part of row \<open>i\<close> that is filled.\<close>

definition edit_cell :: "string \<Rightarrow> string \<Rightarrow> nat \<Rightarrow> nat \<Rightarrow> int list \<Rightarrow> int list \<Rightarrow> int list \<Rightarrow> int" where
  "edit_cell a b i j pp p c =
     (let cost = (if a ! (i - 1) = b ! (j - 1) then 0 else 1);
          v = min (p ! j + 1) (min (c ! (j - 1) + 1) (p ! (j - 1) + cost))
      in if i > 1 \<and> j > 1 \<and> a ! (i - 1) = b ! (j - 2) \<and> a ! (i - 2) = b ! (j - 1)
         then min v (pp ! (j - 2) + 1) else v)"

definition edit_row :: "string \<Rightarrow> string \<Rightarrow> nat \<Rightarrow> int list \<Rightarrow> int list \<Rightarrow> int list \<times> int" where
  "edit_row a b i pp p =
     fold (\<lambda>j (c, row_min). let v = edit_cell a b i j pp p c in (c @ [v], min row_min v))
       [1..<length b + 1] ([int i], int i)"

fun edit_rows :: "string \<Rightarrow> string \<Rightarrow> int \<Rightarrow> nat list \<Rightarrow> int list \<Rightarrow> int list \<Rightarrow> int" where
  "edit_rows a b limit [] pp p = p ! length b"
| "edit_rows a b limit (i # is) pp p =
     (let (c, row_min) = edit_row a b i pp p
      in if row_min > limit then limit + 1 else edit_rows a b limit is p c)"

definition edit_distance :: "string \<Rightarrow> string \<Rightarrow> int \<Rightarrow> int" where
  "edit_distance a b limit =
     (if abs (int (length a) - int (length b)) > limit \<or> length a > kEditMax \<or> length b > kEditMax then limit + 1
      else edit_rows a b limit [1..<length a + 1] [] (map int [0..<length b + 1]))"

section \<open>Approximate search\<close>

definition approx_row :: "string \<Rightarrow> char \<Rightarrow> int list \<Rightarrow> int list" where
  "approx_row pat t prev =
     fold (\<lambda>i cur. cur @ [min (prev ! i + 1) (min (cur ! (i - 1) + 1)
              (prev ! (i - 1) + (if pat ! (i - 1) = t then 0 else 1)))])
       [1..<length pat + 1] [0]"

fun approx_cols :: "string \<Rightarrow> int \<Rightarrow> int list \<Rightarrow> string \<Rightarrow> int" where
  "approx_cols pat best prev [] = best"
| "approx_cols pat best prev (t # ts) =
     (if best > 0
      then let cur = approx_row pat t prev in approx_cols pat (min best (cur ! length pat)) cur ts
      else best)"

definition approx_sub :: "string \<Rightarrow> string \<Rightarrow> int \<Rightarrow> int" where
  "approx_sub pat hay limit =
     (if pat = [] \<or> length pat > kEditMax then limit + 1
      else let prev = map int [0..<length pat + 1] in approx_cols pat (prev ! length pat) prev hay)"

section \<open>Names of organisations\<close>

text \<open>\<open>trim_sv\<close> drops blanks, tabs and line ends at both sides.\<close>

definition is_blank :: "char \<Rightarrow> bool" where
  "is_blank c \<longleftrightarrow> c = CHR '' '' \<or> code c = 9 \<or> code c = 13 \<or> code c = 10"

definition trim_sv :: "string \<Rightarrow> string" where
  "trim_sv s = rev (dropWhile is_blank (rev (dropWhile is_blank s)))"

definition all_digits :: "string \<Rightarrow> bool" where
  "all_digits s \<longleftrightarrow> s \<noteq> [] \<and> list_all is_digit s"

text \<open>\<open>s.rfind(pat)\<close> and \<open>s.rfind(c)\<close>: the last position.\<close>

definition rfind :: "string \<Rightarrow> string \<Rightarrow> nat option" where
  "rfind pat s = find (\<lambda>i. take (length pat) (drop i s) = pat) (rev [0..<length s + 1 - length pat])"

definition asn_suffix :: "string \<Rightarrow> (nat \<times> string) option" where
  "asn_suffix s =
     (if s \<noteq> [] \<and> last s = CHR '')''
      then case rfind ''(AS'' s of
             Some p \<Rightarrow>
               if length s \<ge> p + 4 \<and> all_digits (substr s (p + 3) (length s - p - 4))
               then Some (p, substr s (p + 3) (length s - p - 4)) else None
           | None \<Rightarrow> None
      else None)"

definition country_suffix :: "string \<Rightarrow> (nat \<times> string) option" where
  "country_suffix s =
     (case rfind '','' s of
        None \<Rightarrow> None
      | Some comma \<Rightarrow>
          (let cc = trim_sv (substr_from s (comma + 1))
           in if length cc = 2 \<and> list_all (\<lambda>c. 65 \<le> code c \<and> code c \<le> 90) cc then Some (comma, cc) else None))"

definition strip_owner_suffixes :: "string \<Rightarrow> string" where
  "strip_owner_suffixes s =
     (let s = trim_sv s;
          s = (case asn_suffix s of Some (p, _) \<Rightarrow> trim_sv (substr s 0 p) | None \<Rightarrow> s)
      in case country_suffix s of Some (comma, _) \<Rightarrow> substr s 0 comma | None \<Rightarrow> s)"

record owner_label_parts =
  ol_org :: string
  ol_country :: string
  ol_asn_digits :: string

definition split_owner_label :: "string \<Rightarrow> owner_label_parts" where
  "split_owner_label s =
     (let s = trim_sv s;
          (asn, s) = (case asn_suffix s of Some (p, d) \<Rightarrow> (d, trim_sv (substr s 0 p)) | None \<Rightarrow> ([], s));
          (cc, s) = (case country_suffix s of Some (comma, cc) \<Rightarrow> (cc, trim_sv (substr s 0 comma)) | None \<Rightarrow> ([], s))
      in \<lparr>ol_org = s, ol_country = cc, ol_asn_digits = asn\<rparr>)"

record cleaned =
  cl_tokens :: "string list"
  cl_compact :: string

definition kNoise :: "string list" where
  "kNoise = [''ag'', ''and'', ''bhd'', ''bv'', ''co'', ''company'', ''corp'', ''corporation'', ''gmbh'', ''inc'',
     ''incorporated'', ''limited'', ''llc'', ''llp'', ''ltd'', ''of'', ''plc'', ''private'', ''pte'', ''pty'',
     ''pvt'', ''sa'', ''sdn'', ''the'']"

text \<open>\<open>std::binary_search\<close> on the sorted table is membership.\<close>

definition is_noise :: "string \<Rightarrow> bool" where
  "is_noise t \<longleftrightarrow> t \<in> set kNoise"

lemma kNoise_sorted: "sorted_wrt (<) kNoise"
  by code_simp

definition clean_name :: "string \<Rightarrow> bool \<Rightarrow> cleaned" where
  "clean_name s fallback_all =
     (let raw = tokenize (strip_owner_suffixes s);
          toks = filter (\<lambda>t. \<not> is_noise t) raw;
          toks = (if toks = [] \<and> fallback_all then raw else toks)
      in \<lparr>cl_tokens = toks, cl_compact = concat toks\<rparr>)"

definition tol_for :: "nat \<Rightarrow> int" where
  "tol_for len = (if len \<le> 3 then 0 else if len \<le> 7 then 1 else 2)"

definition token_matches :: "string \<Rightarrow> string \<Rightarrow> bool \<Rightarrow> bool" where
  "token_matches q t fuzzy \<longleftrightarrow>
     (if q = t then True
      else if \<not> fuzzy then length q \<ge> 3 \<and> length t > length q \<and> take (length q) t = q
      else let tol = tol_for (length q) in tol > 0 \<and> edit_distance q t tol \<le> tol)"

definition all_tokens_match :: "cleaned \<Rightarrow> cleaned \<Rightarrow> bool \<Rightarrow> bool" where
  "all_tokens_match q w fuzzy \<longleftrightarrow> list_all (\<lambda>qt. list_ex (\<lambda>ot. token_matches qt ot fuzzy) (cl_tokens w)) (cl_tokens q)"

text \<open>\<open>find(pat) != npos\<close>\<close>

definition contains :: "string \<Rightarrow> string \<Rightarrow> bool" where
  "contains s pat \<longleftrightarrow> list_ex (\<lambda>i. take (length pat) (drop i s) = pat) [0..<length s + 1]"

definition org_score :: "cleaned \<Rightarrow> cleaned \<Rightarrow> int" where
  "org_score q w =
     (if cl_tokens q = [] \<or> cl_tokens w = [] then 0
      else if cl_tokens q = cl_tokens w then 5
      else if length (cl_compact q) \<ge> 4 \<and> contains (cl_compact w) (cl_compact q) then 4
      else if all_tokens_match q w False then 3
      else if all_tokens_match q w True then 2
      else if length (cl_compact q) \<ge> 5 \<and>
          (let tol = tol_for (length (cl_compact q)) in approx_sub (cl_compact q) (cl_compact w) tol \<le> tol) then 1
      else 0)"

definition keep_threshold :: "int \<Rightarrow> int" where
  "keep_threshold best = (if best \<ge> 3 then 3 else 1)"

text \<open>The five nearest names, sorted by their distance.\<close>

fun insert_upper :: "int \<Rightarrow> string \<Rightarrow> (int \<times> string) list \<Rightarrow> (int \<times> string) list" where
  "insert_upper d s [] = [(d, s)]"
| "insert_upper d s ((e, t) # items) = (if d < e then (d, s) # (e, t) # items else (e, t) # insert_upper d s items)"

definition offer :: "int \<Rightarrow> string \<Rightarrow> (int \<times> string) list \<Rightarrow> (int \<times> string) list" where
  "offer d s items =
     (if length items = 5 \<and> d \<ge> fst (last items) then items
      else if list_ex (\<lambda>it. snd it = s) items then items
      else let items = insert_upper d s items in if length items > 5 then butlast items else items)"

definition label_asn :: "string \<Rightarrow> nat" where
  "label_asn label =
     (case rfind ''(AS'' label of
        None \<Rightarrow> 0
      | Some p \<Rightarrow>
          if label = [] \<or> last label \<noteq> CHR '')'' \<or> length label < p + 4 then 0
          else case parse_u64 (substr label (p + 3) (length label - p - 4)) of
                 None \<Rightarrow> 0
               | Some v \<Rightarrow> if v = 0 \<or> v > 0xFFFFFFFF then 0 else v)"

definition parse_asn_arg :: "string \<Rightarrow> nat option" where
  "parse_asn_arg s =
     (let s = trim_sv s;
          s = (if length s \<ge> 2 \<and> lower_ascii (s ! 0) = CHR ''a'' \<and> lower_ascii (s ! 1) = CHR ''s'' then drop 2 s else s)
      in if length s > 10 then None
         else case parse_u64 s of None \<Rightarrow> None | Some v \<Rightarrow> if v = 0 \<or> v > 0xFFFFFFFF then None else Some v)"

record owner_matcher =
  om_q :: cleaned
  om_asn :: nat

definition owner_score :: "owner_matcher \<Rightarrow> string \<Rightarrow> int" where
  "owner_score m label =
     (if om_asn m \<noteq> 0 then (if label_asn label = om_asn m then 5 else 0)
      else org_score (om_q m) (clean_name label True))"

definition make_owner_matcher :: "string \<Rightarrow> owner_matcher option" where
  "make_owner_matcher nm =
     (case parse_asn_arg nm of
        Some asn \<Rightarrow> Some \<lparr>om_q = \<lparr>cl_tokens = [], cl_compact = []\<rparr>, om_asn = asn\<rparr>
      | None \<Rightarrow>
          (let q = clean_name nm False in
           if cl_tokens q \<noteq> [] then Some \<lparr>om_q = q, om_asn = 0\<rparr> else None))"

record owner_filter =
  of_keep4 :: "bool list"
  of_keep6 :: "bool list"
  of_kept_orgs :: nat
  of_best :: int
  of_nearest :: "(int \<times> string) list"

text \<open>
  The cache of the scores is transparent; the order in which the hash map offers its labels is the
  library's, so it is an argument: a list of the distinct labels that are not empty.
\<close>

definition label_score :: "owner_matcher \<Rightarrow> string \<Rightarrow> int" where
  "label_score m label = (if label = [] then 0 else owner_score m label)"

definition offer_label :: "owner_matcher \<Rightarrow> string \<Rightarrow> (int \<times> string) list \<Rightarrow> (int \<times> string) list" where
  "offer_label m label items =
     (let d = approx_sub (cl_compact (om_q m)) (cl_compact (clean_name label True)) 4
      in if d \<le> 4 then offer d label items else items)"

definition apply_owner_filter :: "(string list \<Rightarrow> string list) \<Rightarrow> owner_matcher \<Rightarrow> string list \<Rightarrow> string list \<Rightarrow> owner_filter" where
  "apply_owner_filter hash_order m l4 l6 =
     (let best = fold (\<lambda>l b. max b (label_score m l)) (l4 @ l6) 0 in
      if best = 0
      then \<lparr>of_keep4 = replicate (length l4) False, of_keep6 = replicate (length l6) False, of_kept_orgs = 0, of_best = 0,
            of_nearest = (if om_asn m = 0
              then fold (offer_label m) (hash_order (remdups (filter (\<lambda>l. l \<noteq> []) (l4 @ l6)))) [] else [])\<rparr>
      else (let th = keep_threshold best; keep = (\<lambda>l. label_score m l \<ge> th)
            in \<lparr>of_keep4 = map keep l4, of_keep6 = map keep l6,
                of_kept_orgs = length (remdups (filter keep (l4 @ l6))), of_best = best, of_nearest = []\<rparr>))"

text \<open>The program's own examples (lines 2901 to 2947).\<close>

definition score_of :: "string \<Rightarrow> string \<Rightarrow> int" where
  "score_of q nm = org_score (clean_name q False) (clean_name nm True)"

lemma self_test_distance:
  "edit_distance ''nepla'' ''nepal'' 1 = 1" "edit_distance ''kitten'' ''sitting'' 3 = 3"
  "edit_distance ''abc'' ''abc'' 0 = 0" "edit_distance ''abcdef'' ''uvwxyz'' 2 = 3"
  "approx_sub ''wolrdlink'' ''worldlinkcommunications'' 2 = 2" "approx_sub ''link'' ''worldlink'' 1 = 0"
  by code_simp+

lemma self_test_score: "score_of ''sky brodaband'' ''Sky Broadband Pvt. Ltd, NP'' = 2"
  by code_simp

lemma self_test_score_sub: "score_of ''wolrd link'' ''WorldLink Communications Pvt Ltd'' = 1"
  by code_simp

section \<open>Edit scripts\<close>

text \<open>
  \<open>edits sw n xs ys\<close>: \<open>n\<close> single changes turn \<open>xs\<close> into \<open>ys\<close>, from left to right; with \<open>sw\<close>
  exchanging two neighbours is one of them.
\<close>

inductive edits :: "bool \<Rightarrow> nat \<Rightarrow> 'a list \<Rightarrow> 'a list \<Rightarrow> bool" for sw where
  none: "edits sw 0 [] []"
| keep: "edits sw n xs ys \<Longrightarrow> edits sw n (x # xs) (x # ys)"
| change: "edits sw n xs ys \<Longrightarrow> edits sw (Suc n) (x # xs) (y # ys)"
| remove: "edits sw n xs ys \<Longrightarrow> edits sw (Suc n) (x # xs) ys"
| insert: "edits sw n xs ys \<Longrightarrow> edits sw (Suc n) xs (y # ys)"
| swap: "edits sw n xs ys \<Longrightarrow> sw \<Longrightarrow> edits sw (Suc n) (x # y # xs) (y # x # ys)"

lemmas edits_intros = edits.intros

lemma edits_append: "edits sw n xs ys \<Longrightarrow> edits sw m us vs \<Longrightarrow> edits sw (n + m) (xs @ us) (ys @ vs)"
  by (induction rule: edits.induct) (auto intro: edits_intros)

lemma edits_single:
  "edits sw 0 [x] [x]" "edits sw 1 [x] [y]" "edits sw 1 [x] []" "edits sw 1 [] [y]"
  "sw \<Longrightarrow> edits sw 1 [y, x] [x, y]"
  using edits.keep [OF edits.none] edits.change [OF edits.none] edits.remove [OF edits.none]
    edits.insert [OF edits.none] edits.swap [OF edits.none] by simp_all

lemma edits_rev: "edits sw n xs ys \<Longrightarrow> edits sw n (rev xs) (rev ys)"
proof (induction rule: edits.induct)
  case (keep n xs ys x)
  then show ?case using edits_append [OF keep.IH edits_single(1)] by simp
next
  case (change n xs ys x y)
  then show ?case using edits_append [OF change.IH edits_single(2)] by simp
next
  case (remove n xs ys x)
  then show ?case using edits_append [OF remove.IH edits_single(3)] by simp
next
  case (insert n xs ys y)
  then show ?case using edits_append [OF insert.IH edits_single(4)] by simp
next
  case (swap n xs ys x y)
  then show ?case using edits_append [OF swap.IH edits_single(5)] by simp
qed (simp add: edits.none)

lemma edits_rev_iff: "edits sw n (rev xs) (rev ys) \<longleftrightarrow> edits sw n xs ys"
  using edits_rev [of sw n xs ys] edits_rev [of sw n "rev xs" "rev ys"] by auto

lemma edits_length: "edits sw n xs ys \<Longrightarrow> abs (int (length xs) - int (length ys)) \<le> int n"
  by (induction rule: edits.induct) auto

text \<open>One step of the recursion on the least number of changes, from those of the shorter lists.\<close>

definition edit_step :: "nat \<Rightarrow> nat \<Rightarrow> nat \<Rightarrow> bool \<Rightarrow> bool \<Rightarrow> nat \<Rightarrow> nat" where
  "edit_step del ins sub eq swappable swapped =
     (let v = min (del + 1) (min (ins + 1) (sub + (if eq then 0 else 1)))
      in if swappable then min v (swapped + 1) else v)"

lemma edit_step_le:
  "edit_step del ins sub eq swb swd \<le> del + 1" "edit_step del ins sub eq swb swd \<le> ins + 1"
  "edit_step del ins sub eq swb swd \<le> sub + (if eq then 0 else 1)"
  "swb \<Longrightarrow> edit_step del ins sub eq swb swd \<le> swd + 1"
  by (auto simp: edit_step_def Let_def)

lemma edit_step_cases:
  obtains "edit_step del ins sub eq swb swd = del + 1" | "edit_step del ins sub eq swb swd = ins + 1"
  | "edit_step del ins sub eq swb swd = sub + (if eq then 0 else 1)"
  | "swb" "edit_step del ins sub eq swb swd = swd + 1"
proof -
  let ?e = "edit_step del ins sub eq swb swd"
  have "?e = del + 1 \<or> ?e = ins + 1 \<or> ?e = sub + (if eq then 0 else 1) \<or> swb \<and> ?e = swd + 1"
    by (simp add: edit_step_def Let_def min_def)
  then show ?thesis using that by blast
qed

lemma edit_step_above:
  assumes "L < int del + 1" and "L < int ins + 1" and "L < int sub" and "swb \<Longrightarrow> L < int swd + 1"
  shows "L < int (edit_step del ins sub eq swb swd)"
  by (rule edit_step_cases [of del ins sub eq swb swd]) (use assms in auto)

text \<open>The least number of changes; with \<open>fr\<close> the second list may go on.\<close>

fun edit_dist :: "bool \<Rightarrow> bool \<Rightarrow> 'a list \<Rightarrow> 'a list \<Rightarrow> nat" where
  "edit_dist sw fr [] ys = (if fr then 0 else length ys)"
| "edit_dist sw fr (x # xs) [] = Suc (length xs)"
| "edit_dist sw fr (x # xs) (y # ys) =
     (let step = edit_step (edit_dist sw fr xs (y # ys)) (edit_dist sw fr (x # xs) ys) (edit_dist sw fr xs ys) (x = y)
      in case (xs, ys) of
           (x' # xs', y' # ys') \<Rightarrow> step (sw \<and> x = y' \<and> x' = y) (edit_dist sw fr xs' ys')
         | _ \<Rightarrow> step False 0)"

declare edit_dist.simps(3) [simp del]

definition reaches :: "bool \<Rightarrow> 'a list \<Rightarrow> 'a list \<Rightarrow> bool" where
  "reaches fr zs ys \<longleftrightarrow> (if fr then prefix zs ys else zs = ys)"

lemma reaches_simps [simp]:
  "reaches fr [] ys = (fr \<or> ys = [])"
  "reaches fr (z # zs) ys = (\<exists>ys'. ys = z # ys' \<and> reaches fr zs ys')"
  by (auto simp: reaches_def prefix_Cons) (cases ys, auto)

lemma dist_step:
  obtains swb swd where
    "edit_dist sw fr (x # xs) (y # ys) =
       edit_step (edit_dist sw fr xs (y # ys)) (edit_dist sw fr (x # xs) ys) (edit_dist sw fr xs ys) (x = y) swb swd"
    and "swb \<longrightarrow> (\<exists>xs' ys'. sw \<and> xs = y # xs' \<and> ys = x # ys' \<and> swd = edit_dist sw fr xs' ys')"
  using edit_dist.simps(3) [of sw fr x xs y ys] by (cases xs; cases ys) (auto simp only: Let_def list.case prod.case)

lemma dist_change: "edit_dist sw fr (x # xs) (y # ys) \<le> edit_dist sw fr xs ys + (if x = y then 0 else 1)"
  and dist_remove_Cons: "edit_dist sw fr (x # xs) (y # ys) \<le> edit_dist sw fr xs (y # ys) + 1"
  and dist_insert_Cons: "edit_dist sw fr (x # xs) (y # ys) \<le> edit_dist sw fr (x # xs) ys + 1"
  by (rule dist_step [where sw = sw and fr = fr and x = x and xs = xs and y = y and ys = ys],
      simp only: edit_step_le)+

lemma dist_remove: "edit_dist sw fr (x # xs) ys \<le> edit_dist sw fr xs ys + 1"
proof (cases ys)
  case (Cons y ys')
  then show ?thesis by (simp only: dist_remove_Cons)
qed (cases xs; simp)

lemma dist_insert: "edit_dist sw fr xs (y # ys) \<le> edit_dist sw fr xs ys + 1"
proof (cases xs)
  case (Cons x xs')
  then show ?thesis by (simp only: dist_insert_Cons)
qed simp

lemma dist_swap: "sw \<Longrightarrow> edit_dist sw fr (x # y # xs) (y # x # ys) \<le> edit_dist sw fr xs ys + 1"
proof -
  have "edit_dist True fr (x # y # xs) (y # x # ys) \<le> edit_dist True fr xs ys + 1"
    by (simp only: edit_dist.simps(3) [of True fr x "y # xs" y "x # ys"] Let_def prod.case list.case simp_thms
        edit_step_le(4) [OF TrueI])
  then show "sw \<Longrightarrow> edit_dist sw fr (x # y # xs) (y # x # ys) \<le> edit_dist sw fr xs ys + 1" by (cases sw) simp_all
qed

lemma dist_least: "edits sw n xs zs \<Longrightarrow> reaches fr zs ys \<Longrightarrow> edit_dist sw fr xs ys \<le> n"
proof (induction arbitrary: ys rule: edits.induct)
  case (keep n xs zs x)
  then obtain ys' where "ys = x # ys'" and "reaches fr zs ys'" by auto
  then show ?case using keep.IH dist_change [of sw fr x xs x ys'] by force
next
  case (change n xs zs x y)
  then obtain ys' where "ys = y # ys'" and "reaches fr zs ys'" by auto
  then show ?case using change.IH dist_change [of sw fr x xs y ys'] by (fastforce split: if_splits)
next
  case (remove n xs zs x)
  then show ?case using remove.IH dist_remove [of sw fr x xs ys] by force
next
  case (insert n xs zs y)
  then obtain ys' where "ys = y # ys'" and "reaches fr zs ys'" by auto
  then show ?case using insert.IH dist_insert [of sw fr xs y ys'] by force
next
  case (swap n xs zs x y)
  then obtain ys' where "ys = y # x # ys'" and "reaches fr zs ys'" by auto
  then show ?case using swap.IH swap.hyps dist_swap [of sw fr x y xs ys'] by force
qed (auto split: if_splits)

lemma dist_cases:
  fixes x y xs ys sw fr
  defines "d \<equiv> edit_dist sw fr (x # xs) (y # ys)"
  obtains "d = edit_dist sw fr xs (y # ys) + 1" | "d = edit_dist sw fr (x # xs) ys + 1"
  | "d = edit_dist sw fr xs ys + (if x = y then 0 else 1)"
  | xs' ys' where "sw" "xs = y # xs'" "ys = x # ys'" "d = edit_dist sw fr xs' ys' + 1"
proof -
  obtain swb swd where "d = edit_step (edit_dist sw fr xs (y # ys)) (edit_dist sw fr (x # xs) ys) (edit_dist sw fr xs ys) (x = y) swb swd"
    and "swb \<longrightarrow> (\<exists>xs' ys'. sw \<and> xs = y # xs' \<and> ys = x # ys' \<and> swd = edit_dist sw fr xs' ys')"
    unfolding d_def by (rule dist_step [where sw = sw and fr = fr and x = x and xs = xs and y = y and ys = ys])
  then show ?thesis using that by (metis edit_step_cases)
qed

lemma edits_all: "edits sw (length xs) xs []"
  by (induction xs) (auto intro: edits_intros)

lemma edits_none: "edits sw (length ys) [] ys"
  by (induction ys) (auto intro: edits_intros)

lemma dist_reached: "\<exists>zs. reaches fr zs ys \<and> edits sw (edit_dist sw fr xs ys) xs zs"
proof (induction sw fr xs ys rule: edit_dist.induct)
  case (1 sw fr ys)
  show ?case by (intro exI [of _ "if fr then [] else ys"]) (simp add: reaches_def edits.none edits_none)
next
  case (2 sw fr x xs)
  then show ?case using edits_all [of sw "x # xs"] by (intro exI [of _ "[]"]) simp
next
  case (3 sw fr x xs y ys)
  obtain zs1 where zs1: "reaches fr zs1 (y # ys)" "edits sw (edit_dist sw fr xs (y # ys)) xs zs1"
    using "3.IH"(1) by blast
  obtain zs2 where zs2: "reaches fr zs2 ys" "edits sw (edit_dist sw fr (x # xs) ys) (x # xs) zs2"
    using "3.IH"(2) by blast
  obtain zs3 where zs3: "reaches fr zs3 ys" "edits sw (edit_dist sw fr xs ys) xs zs3"
    using "3.IH"(3) by blast
  show ?case
  proof (cases rule: dist_cases [where x = x and y = y and xs = xs and ys = ys and sw = sw and fr = fr])
    case 1
    then show ?thesis using edits.remove [OF zs1(2), of x] zs1(1) by (intro exI [of _ zs1]) simp
  next
    case 2
    then show ?thesis using edits.insert [OF zs2(2), of y] zs2(1) by (intro exI [of _ "y # zs2"]) simp
  next
    case 3
    then show ?thesis
      using edits.keep [OF zs3(2), of y] edits.change [OF zs3(2), of x y] zs3(1)
      by (intro exI [of _ "y # zs3"]) (simp split: if_splits)
  next
    case (4 xs' ys')
    then obtain zs where zs: "reaches fr zs ys'" "edits sw (edit_dist sw fr xs' ys') xs' zs"
      using "3.IH"(4) by blast
    then show ?thesis
      using edits.swap [OF zs(2) 4(1), of x y] 4 by (intro exI [of _ "y # x # zs"]) simp
  qed
qed

lemma dist_iff: "edit_dist sw fr xs ys \<le> n \<longleftrightarrow> (\<exists>m \<le> n. \<exists>zs. reaches fr zs ys \<and> edits sw m xs zs)"
  using dist_reached [of fr ys sw xs] dist_least [of sw _ xs _ fr ys] by (meson order.trans)

section \<open>The rows of the edit distance\<close>

definition cell :: "bool \<Rightarrow> bool \<Rightarrow> 'a list \<Rightarrow> 'a list \<Rightarrow> nat \<Rightarrow> nat \<Rightarrow> nat" where
  "cell sw fr a b i j = edit_dist sw fr (rev (take i a)) (rev (take j b))"

lemma rev_take_Suc: "i < length a \<Longrightarrow> rev (take (Suc i) a) = a ! i # rev (take i a)"
  by (simp add: take_Suc_conv_app_nth)

lemma cell_left: "i \<le> length a \<Longrightarrow> cell sw fr a b i 0 = i"
  by (cases "rev (take i a)") (auto simp: cell_def dest: arg_cong [of _ _ length])

lemma cell_top: "j \<le> length b \<Longrightarrow> cell sw fr a b 0 j = (if fr then 0 else j)"
  by (simp add: cell_def)

lemma cell_step:
  assumes "i < length a" and "j < length b"
  shows "cell sw fr a b (Suc i) (Suc j) =
    edit_step (cell sw fr a b i (Suc j)) (cell sw fr a b (Suc i) j) (cell sw fr a b i j) (a ! i = b ! j)
      (sw \<and> 0 < i \<and> 0 < j \<and> a ! i = b ! (j - 1) \<and> a ! (i - 1) = b ! j) (cell sw fr a b (i - 1) (j - 1))"
proof -
  let ?step = "edit_step (cell sw fr a b i (Suc j)) (cell sw fr a b (Suc i) j) (cell sw fr a b i j) (a ! i = b ! j)"
  have *: "cell sw fr a b (Suc i) (Suc j) =
      (case (rev (take i a), rev (take j b)) of
         (x' # xs', y' # ys') \<Rightarrow> ?step (sw \<and> a ! i = y' \<and> x' = b ! j) (edit_dist sw fr xs' ys')
       | _ \<Rightarrow> ?step False 0)"
    unfolding cell_def rev_take_Suc [OF assms(1)] rev_take_Suc [OF assms(2)]
      edit_dist.simps(3) [of sw fr "a ! i" "rev (take i a)" "b ! j" "rev (take j b)"] Let_def by (rule refl)
  show ?thesis
  proof (cases "0 < i \<and> 0 < j")
    case True
    then obtain i' j' where ij: "i = Suc i'" "j = Suc j'" by (auto simp: gr0_conv_Suc)
    have "rev (take i a) = a ! i' # rev (take i' a)" and "rev (take j b) = b ! j' # rev (take j' b)"
      using assms by (simp_all add: ij rev_take_Suc)
    then show ?thesis unfolding * by (simp only: prod.case list.case ij cell_def diff_Suc_1 zero_less_Suc simp_thms)
  next
    case False
    then have "rev (take i a) = [] \<or> rev (take j b) = []" by auto
    then have "cell sw fr a b (Suc i) (Suc j) = ?step False 0"
      unfolding * by (auto simp only: prod.case list.case split: list.split)
    moreover have "?step False 0 = ?step False k" for k by (simp only: edit_step_def if_False)
    moreover have "(sw \<and> 0 < i \<and> 0 < j \<and> a ! i = b ! (j - 1) \<and> a ! (i - 1) = b ! j) = False" using False by auto
    ultimately show ?thesis by (simp only:)
  qed
qed

lemma cell_below: "i < length a \<Longrightarrow> cell sw fr a b (Suc i) j \<le> cell sw fr a b i j + 1"
  using dist_remove [of sw fr "a ! i" "rev (take i a)" "rev (take j b)"] by (simp add: cell_def rev_take_Suc)

lemma row_stays_above:
  assumes "\<forall>j \<le> length b. L < int (cell True fr a b i j)" and "i < length a" and "j \<le> length b"
  shows "L < int (cell True fr a b (Suc i) j)"
  using assms(3)
proof (induction j)
  case 0
  then show ?case using assms by (auto simp: cell_left dest!: spec [of _ 0])
next
  case (Suc j)
  have "L < int (cell True fr a b (i - 1) (j - 1)) + 1" if "0 < i" "0 < j"
  proof -
    have "L < int (cell True fr a b i (j - 1))" using assms(1) Suc.prems by simp
    moreover obtain i' where "i = Suc i'" using \<open>0 < i\<close> by (auto simp: gr0_conv_Suc)
    ultimately show ?thesis using cell_below [of i' a True fr b "j - 1"] assms(2) by simp
  qed
  moreover have "L < int (cell True fr a b i (Suc j))" "L < int (cell True fr a b i j)"
    "L < int (cell True fr a b (Suc i) j)" using assms Suc by simp_all
  ultimately show ?case
    using assms(2) Suc.prems by (auto simp: cell_step intro!: edit_step_above)
qed

lemma rows_stay_above:
  assumes "\<forall>j \<le> length b. L < int (cell True fr a b i j)" and "i \<le> k" and "k \<le> length a"
  shows "\<forall>j \<le> length b. L < int (cell True fr a b k j)"
  using assms(2,3)
proof (induction k rule: dec_induct)
  case base
  show ?case by (rule assms(1))
next
  case (step k)
  then show ?case using row_stays_above [of b L fr a k] by simp
qed

definition edits_row :: "string \<Rightarrow> string \<Rightarrow> nat \<Rightarrow> int list" where
  "edits_row a b i = map (\<lambda>j. int (cell True False a b i j)) [0..<length b + 1]"

lemma edits_row_nth [simp]: "j \<le> length b \<Longrightarrow> edits_row a b i ! j = int (cell True False a b i j)"
  by (simp add: edits_row_def nth_map del: upt_Suc)

lemma edit_cell_correct:
  assumes "i < length a" and "j < length b" and "c ! j = int (cell True False a b (Suc i) j)"
    and "0 < i \<Longrightarrow> pp = edits_row a b (i - 1)"
  shows "edit_cell a b (Suc i) (Suc j) pp (edits_row a b i) c = int (cell True False a b (Suc i) (Suc j))"
proof -
  have nth: "edits_row a b i ! Suc j = int (cell True False a b i (Suc j))" "edits_row a b i ! j = int (cell True False a b i j)"
    using assms(2) by simp_all
  have pp: "pp ! (j - 1) = int (cell True False a b (i - 1) (j - 1))" if "0 < i"
    using assms(2) assms(4) [OF that] by simp
  have num: "Suc i - 1 = i" "Suc j - 1 = j" "Suc i - 2 = i - 1" "Suc j - 2 = j - 1" by simp_all
  have "int (edit_step d n s e w t) = (let v = min (int d + 1) (min (int n + 1) (int s + (if e then 0 else 1)))
      in if w then min v (int t + 1) else v)" for d n s e w t
    by (simp add: edit_step_def Let_def of_nat_min algebra_simps)
  then show ?thesis
    unfolding edit_cell_def cell_step [OF assms(1,2)] num nth assms(3) using pp by (simp add: Let_def)
qed

lemma edit_row_prefix:
  assumes "i < length a" and "0 < i \<Longrightarrow> pp = edits_row a b (i - 1)" and "k \<le> length b"
  defines "f \<equiv> \<lambda>j (c, row_min). let v = edit_cell a b (Suc i) j pp (edits_row a b i) c in (c @ [v], min row_min v)"
  shows "\<exists>m. fold f [1..<k + 1] ([int (Suc i)], int (Suc i)) = (map (\<lambda>j. int (cell True False a b (Suc i) j)) [0..<k + 1], m) \<and>
    (\<forall>j \<le> k. m \<le> int (cell True False a b (Suc i) j))"
  using assms(3)
proof (induction k)
  case 0
  show ?case using assms(1) by (simp add: cell_left)
next
  case (Suc k)
  let ?c = "map (\<lambda>j. int (cell True False a b (Suc i) j)) [0..<k + 1]"
  obtain m where m: "fold f [1..<k + 1] ([int (Suc i)], int (Suc i)) = (?c, m)"
    "\<forall>j \<le> k. m \<le> int (cell True False a b (Suc i) j)" using Suc by auto
  have v: "edit_cell a b (Suc i) (Suc k) pp (edits_row a b i) ?c = int (cell True False a b (Suc i) (Suc k))"
    using assms(1,2) Suc.prems by (intro edit_cell_correct) (simp_all add: nth_append)
  have "fold f [1..<Suc k + 1] ([int (Suc i)], int (Suc i)) = f (Suc k) (?c, m)"
    using m(1) by simp
  also have "\<dots> = (?c @ [int (cell True False a b (Suc i) (Suc k))], min m (int (cell True False a b (Suc i) (Suc k))))"
    unfolding f_def using v by (simp add: Let_def)
  finally show ?case using m(2) by (auto simp: le_Suc_eq)
qed

lemma edit_rows_correct:
  assumes "i \<le> length a" and "0 < i \<Longrightarrow> pp = edits_row a b (i - 1)"
  shows "let d = int (cell True False a b (length a) (length b));
      r = edit_rows a b limit [i + 1..<length a + 1] pp (edits_row a b i)
    in if d \<le> limit then r = d else limit < r"
  using assms
proof (induction "length a - i" arbitrary: i pp)
  case 0
  then show ?case by simp
next
  case (Suc n)
  then have i: "i < length a" by simp
  obtain m where m: "edit_row a b (Suc i) pp (edits_row a b i) = (edits_row a b (Suc i), m)"
    "\<forall>j \<le> length b. m \<le> int (cell True False a b (Suc i) j)"
    using edit_row_prefix [OF i Suc.prems(2), of "length b"] unfolding edit_row_def edits_row_def by auto
  have split: "[i + 1..<length a + 1] = Suc i # [Suc i + 1..<length a + 1]" using i by (simp add: upt_conv_Cons)
  show ?case
  proof (cases "m > limit")
    case True
    then have "\<forall>j \<le> length b. limit < int (cell True False a b (Suc i) j)" using m(2) by force
    then have "limit < int (cell True False a b (length a) (length b))"
      using rows_stay_above [of b limit False a "Suc i" "length a"] i by simp
    then show ?thesis unfolding split using m(1) True by (simp del: upt_Suc)
  next
    case False
    then show ?thesis
      unfolding split using m(1) Suc.hyps(1) [of "Suc i" "edits_row a b i"] Suc.hyps(2) i
      by (simp del: upt_Suc)
  qed
qed

lemma cell_corner: "cell sw fr a b (length a) (length b) = edit_dist sw fr (rev a) (rev b)"
  by (simp add: cell_def)

lemma dist_rev: "edit_dist sw False (rev a) (rev b) \<le> n \<longleftrightarrow> (\<exists>m \<le> n. edits sw m a b)"
  by (simp add: dist_iff reaches_def edits_rev_iff)

lemma edit_distance_value:
  assumes "length a \<le> kEditMax" and "length b \<le> kEditMax" and "0 \<le> limit"
  shows "let d = int (edit_dist True False (rev a) (rev b)) in
    if d \<le> limit then edit_distance a b limit = d else limit < edit_distance a b limit"
proof (cases "abs (int (length a) - int (length b)) > limit")
  case True
  obtain m where "m \<le> edit_dist True False (rev a) (rev b)" and "edits True m a b"
    using dist_rev [of True a b "edit_dist True False (rev a) (rev b)"] by auto
  then have "limit < int (edit_dist True False (rev a) (rev b))" using edits_length True by fastforce
  then show ?thesis using True by (simp add: edit_distance_def)
next
  case False
  have "map int [0..<length b + 1] = edits_row a b 0"
    unfolding edits_row_def by (rule map_cong) (auto simp: cell_top simp del: upt_Suc)
  then show ?thesis
    using False assms edit_rows_correct [of 0 a "[]" b limit]
    by (auto simp: edit_distance_def cell_corner Let_def simp del: upt_Suc)
qed

section \<open>The columns of the search\<close>

definition column :: "string \<Rightarrow> string \<Rightarrow> nat \<Rightarrow> int list" where
  "column pat hay j = map (\<lambda>i. int (cell False True pat hay i j)) [0..<length pat + 1]"

lemma column_nth [simp]: "i \<le> length pat \<Longrightarrow> column pat hay j ! i = int (cell False True pat hay i j)"
  by (simp add: column_def nth_map del: upt_Suc)

lemma approx_row_prefix:
  assumes "j < length hay" and "k \<le> length pat"
  shows "fold (\<lambda>i cur. cur @ [min (column pat hay j ! i + 1) (min (cur ! (i - 1) + 1)
              (column pat hay j ! (i - 1) + (if pat ! (i - 1) = hay ! j then 0 else 1)))])
       [1..<k + 1] [0] = map (\<lambda>i. int (cell False True pat hay i (Suc j))) [0..<k + 1]"
  using assms(2)
proof (induction k)
  case 0
  show ?case using assms(1) by (simp add: cell_top)
next
  case (Suc k)
  have "int (cell False True pat hay (Suc k) (Suc j)) = min (column pat hay j ! Suc k + 1)
      (min (map (\<lambda>i. int (cell False True pat hay i (Suc j))) [0..<k + 1] ! k + 1)
        (column pat hay j ! k + (if pat ! k = hay ! j then 0 else 1)))"
    using assms(1) Suc.prems
    by (simp add: cell_step edit_step_def nth_map of_nat_min algebra_simps min.left_commute del: upt_Suc)
  then show ?case using Suc by simp
qed

lemma approx_row_correct: "j < length hay \<Longrightarrow> approx_row pat (hay ! j) (column pat hay j) = column pat hay (Suc j)"
  using approx_row_prefix [of j hay "length pat" pat] by (simp only: approx_row_def column_def)

lemma approx_cols_correct:
  assumes "j \<le> length hay" and "0 \<le> best"
  shows "approx_cols pat best (column pat hay j) (drop j hay) \<le> int k \<longleftrightarrow>
    best \<le> int k \<or> (\<exists>l. j < l \<and> l \<le> length hay \<and> cell False True pat hay (length pat) l \<le> k)"
  using assms
proof (induction "length hay - j" arbitrary: j best)
  case 0
  then show ?case by auto
next
  case (Suc n)
  then have j: "j < length hay" by simp
  then have drop: "drop j hay = hay ! j # drop (Suc j) hay" by (simp add: Cons_nth_drop_Suc)
  show ?case
  proof (cases "best > 0")
    case True
    have "approx_cols pat best (column pat hay j) (drop j hay) \<le> int k \<longleftrightarrow>
      min best (int (cell False True pat hay (length pat) (Suc j))) \<le> int k \<or>
      (\<exists>l. Suc j < l \<and> l \<le> length hay \<and> cell False True pat hay (length pat) l \<le> k)"
      unfolding drop using True j Suc.hyps by (simp add: approx_row_correct)
    then show ?thesis using j by (auto simp: min_le_iff_disj Suc_lessI) (metis Suc_lessI)
  next
    case False
    then show ?thesis unfolding drop using Suc.prems by simp
  qed
qed

lemma cell_suffix:
  "cell sw True pat hay (length pat) l \<le> k \<longleftrightarrow> (\<exists>n \<le> k. \<exists>sub. suffix sub (take l hay) \<and> edits sw n pat sub)"
proof -
  have "edits sw n (rev pat) zs \<longleftrightarrow> edits sw n pat (rev zs)" for n zs
    using edits_rev_iff [of sw n pat "rev zs"] by simp
  moreover have "prefix zs (rev (take l hay)) \<longleftrightarrow> suffix (rev zs) (take l hay)" for zs
    by (simp add: suffix_to_prefix)
  ultimately have "cell sw True pat hay (length pat) l \<le> k \<longleftrightarrow>
      (\<exists>n \<le> k. \<exists>zs. suffix (rev zs) (take l hay) \<and> edits sw n pat (rev zs))"
    by (simp add: cell_def dist_iff reaches_def)
  then show ?thesis by (metis rev_rev_ident)
qed

lemma sublist_cut: "sublist sub hay \<longleftrightarrow> (\<exists>l \<le> length hay. suffix sub (take l hay))"
  by (metis (no_types) sublist_altdef take_is_prefix prefix_def append_eq_conv_conj length_append le_add1)

lemma approx_sub_value:
  assumes "pat \<noteq> []" and "length pat \<le> kEditMax"
  shows "approx_sub pat hay limit \<le> int k \<longleftrightarrow> (\<exists>n \<le> k. \<exists>sub. sublist sub hay \<and> edits False n pat sub)"
proof -
  have start: "map int [0..<length pat + 1] = column pat hay 0"
    unfolding column_def by (rule map_cong) (auto simp: cell_left simp del: upt_Suc)
  have "approx_sub pat hay limit \<le> int k \<longleftrightarrow>
      (\<exists>l \<le> length hay. cell False True pat hay (length pat) l \<le> k)"
    using assms approx_cols_correct [of 0 hay "int (cell False True pat hay (length pat) 0)" pat k]
    unfolding approx_sub_def start by (auto simp del: upt_Suc)
  then show ?thesis unfolding cell_suffix sublist_cut by blast
qed

section \<open>Sanitising text\<close>

lemma or_push: "x < 2 ^ k \<Longrightarrow> or (h * 2 ^ k) x = h * 2 ^ k + x" for x h k :: nat
proof -
  assume "x < 2 ^ k"
  then have "take_bit k x = x" by (simp add: take_bit_nat_eq_self)
  then have low: "bit x n \<Longrightarrow> n < k" for n using bit_take_bit_iff [of k x n] by auto
  have "\<not> bit (push_bit k h) n \<or> \<not> bit x n" for n using low [of n] by (auto simp: bit_push_bit_iff)
  then show ?thesis using disjunctive_add [of "push_bit k h" x] by (simp add: push_bit_eq_mult)
qed

lemma utf8_bytes:
  "x < 64 \<Longrightarrow> or 0x80 x = 0x80 + x" "x < 32 \<Longrightarrow> or 0xC0 x = 0xC0 + x"
  "x < 16 \<Longrightarrow> or 0xE0 x = 0xE0 + x" "x < 8 \<Longrightarrow> or 0xF0 x = 0xF0 + x"
  "and x 0x3F = x mod 64" for x :: nat
  using or_push [of x 6 2] or_push [of x 5 6] or_push [of x 4 14] or_push [of x 3 30] take_bit_eq_mask [of 6 x]
  by (simp_all add: take_bit_eq_mod mask_eq_exp_minus_1)

lemma utf8_codes:
  "cp < 0x80 \<Longrightarrow> append_utf8 cp = [char_of cp]"
  "0x80 \<le> cp \<Longrightarrow> cp < 0x800 \<Longrightarrow> append_utf8 cp = map char_of [0xC0 + cp div 64, 0x80 + cp mod 64]"
  "0x800 \<le> cp \<Longrightarrow> cp < 0x10000 \<Longrightarrow>
     append_utf8 cp = map char_of [0xE0 + cp div 4096, 0x80 + cp div 64 mod 64, 0x80 + cp mod 64]"
  "0x10000 \<le> cp \<Longrightarrow> cp \<le> 0x10FFFF \<Longrightarrow> append_utf8 cp =
     map char_of [0xF0 + cp div 262144, 0x80 + cp div 4096 mod 64, 0x80 + cp div 64 mod 64, 0x80 + cp mod 64]"
  by (simp_all add: append_utf8_def utf8_bytes drop_bit_eq_div less_mult_imp_div_less)

text \<open>What is to be removed: control characters and the marks that switch the direction of writing.\<close>

definition printable :: "nat \<Rightarrow> bool" where
  "printable cp \<longleftrightarrow> \<not> (cp < 0x20 \<or> (0x7F \<le> cp \<and> cp \<le> 0x9F) \<or> (0x202A \<le> cp \<and> cp \<le> 0x202E) \<or> (0x2066 \<le> cp \<and> cp \<le> 0x2069))"

lemma code_char_of [simp]: "n < 256 \<Longrightarrow> code (char_of n) = n"
  by simp

lemma sanitize_continuation:
  "0x80 \<le> n \<Longrightarrow> n < 0xC0 \<Longrightarrow> sanitize_inplace (char_of n # s) = char_of n # sanitize_inplace s" for n :: nat
  by simp

lemma sanitize_two:
  fixes b l :: nat
  assumes "0xC0 \<le> b" and "b < 0xE0" and "l < 64"
  shows "sanitize_inplace (char_of b # char_of (0x80 + l) # s) =
    (if b = 0xC2 \<and> l \<le> 0x1F then [] else [char_of b, char_of (0x80 + l)]) @ sanitize_inplace s"
  using assms by (auto simp: c1_control_def sanitize_continuation simp del: of_char_of)

lemma sanitize_three:
  fixes b l m :: nat
  assumes "0xE0 \<le> b" and "b < 0xF0" and "l < 64" and "m < 64"
  shows "sanitize_inplace (char_of b # char_of (0x80 + l) # char_of (0x80 + m) # s) =
    (if b = 0xE2 \<and> (l = 0 \<and> 0x2A \<le> m \<and> m \<le> 0x2E \<or> l = 1 \<and> 0x26 \<le> m \<and> m \<le> 0x29) then []
     else [char_of b, char_of (0x80 + l), char_of (0x80 + m)]) @ sanitize_inplace s"
  using assms by (auto simp: bidi_control_def sanitize_continuation numeral_2_eq_2 simp del: of_char_of)

lemma sanitize_four:
  fixes b l m n :: nat
  assumes "0xF0 \<le> b" and "b < 0x100" and "l < 64" and "m < 64" and "n < 64"
  shows "sanitize_inplace (char_of b # char_of (0x80 + l) # char_of (0x80 + m) # char_of (0x80 + n) # s) =
    [char_of b, char_of (0x80 + l), char_of (0x80 + m), char_of (0x80 + n)] @ sanitize_inplace s"
  using assms by (simp add: sanitize_continuation del: of_char_of)

lemma sanitize_utf8_1: "cp < 0x80 \<Longrightarrow> sanitize_inplace (append_utf8 cp @ s) = (if printable cp then append_utf8 cp else []) @ sanitize_inplace s"
  by (auto simp: utf8_codes printable_def)

lemma removed_two:
  fixes q m :: nat
  assumes "m < 64" and "0x80 \<le> 64 * q + m" and "64 * q + m < 0x800"
  shows "(0xC0 + q = 0xC2 \<and> m \<le> 0x1F) = (\<not> printable (64 * q + m))"
proof -
  consider "q \<le> 1" | "q = 2" | "3 \<le> q" by linarith
  then show ?thesis using assms by cases (auto simp: printable_def)
qed

lemma removed_three:
  fixes h l m :: nat
  assumes "m < 64" and "l < 64" and "0x800 \<le> 4096 * h + 64 * l + m" and "4096 * h + 64 * l + m < 0x10000"
  shows "(0xE0 + h = 0xE2 \<and> (l = 0 \<and> 0x2A \<le> m \<and> m \<le> 0x2E \<or> l = 1 \<and> 0x26 \<le> m \<and> m \<le> 0x29)) =
     (\<not> printable (4096 * h + 64 * l + m))"
proof -
  consider "h \<le> 1" | "h = 2" "l = 0" | "h = 2" "l = 1" | "h = 2" "2 \<le> l" | "3 \<le> h" by linarith
  then show ?thesis using assms by cases (auto simp: printable_def)
qed

lemma sanitize_utf8_2:
  assumes "0x80 \<le> cp" and "cp < 0x800"
  shows "sanitize_inplace (append_utf8 cp @ s) = (if printable cp then append_utf8 cp else []) @ sanitize_inplace s"
proof -
  have "(0xC0 + cp div 64 = 0xC2 \<and> cp mod 64 \<le> 0x1F) = (\<not> printable cp)"
    using removed_two [of "cp mod 64" "cp div 64"] assms by simp
  moreover have "cp div 64 < 32" using assms by auto
  then have "sanitize_inplace (char_of (0xC0 + cp div 64) # char_of (0x80 + cp mod 64) # s) =
      (if 0xC0 + cp div 64 = 0xC2 \<and> cp mod 64 \<le> 0x1F then []
       else [char_of (0xC0 + cp div 64), char_of (0x80 + cp mod 64)]) @ sanitize_inplace s"
    by (intro sanitize_two) simp_all
  ultimately show ?thesis
    by (cases "printable cp") (simp_all only: utf8_codes(2) [OF assms] list.map append.simps simp_thms if_True if_False)
qed

lemma sanitize_utf8_3:
  assumes "0x800 \<le> cp" and "cp < 0x10000"
  shows "sanitize_inplace (append_utf8 cp @ s) = (if printable cp then append_utf8 cp else []) @ sanitize_inplace s"
proof -
  let ?l = "cp div 64 mod 64" and ?m = "cp mod 64"
  have "cp div 64 div 64 = cp div 4096" by (simp add: div_mult2_eq [symmetric])
  then have parts: "4096 * (cp div 4096) + 64 * ?l + ?m = cp"
    using mult_div_mod_eq [of 64 cp] mult_div_mod_eq [of 64 "cp div 64"] by linarith
  have "(0xE0 + cp div 4096 = 0xE2 \<and> (?l = 0 \<and> 0x2A \<le> ?m \<and> ?m \<le> 0x2E \<or> ?l = 1 \<and> 0x26 \<le> ?m \<and> ?m \<le> 0x29)) = (\<not> printable cp)"
    using removed_three [of ?m ?l "cp div 4096"] assms parts by simp
  moreover have "cp div 4096 < 16" using assms by auto
  then have "sanitize_inplace (char_of (0xE0 + cp div 4096) # char_of (0x80 + ?l) # char_of (0x80 + ?m) # s) =
      (if 0xE0 + cp div 4096 = 0xE2 \<and> (?l = 0 \<and> 0x2A \<le> ?m \<and> ?m \<le> 0x2E \<or> ?l = 1 \<and> 0x26 \<le> ?m \<and> ?m \<le> 0x29) then []
       else [char_of (0xE0 + cp div 4096), char_of (0x80 + ?l), char_of (0x80 + ?m)]) @ sanitize_inplace s"
    by (intro sanitize_three) simp_all
  ultimately show ?thesis
    by (cases "printable cp") (simp_all only: utf8_codes(3) [OF assms] list.map append.simps simp_thms if_True if_False)
qed

lemma sanitize_utf8_4:
  assumes "0x10000 \<le> cp" and "cp \<le> 0x10FFFF"
  shows "sanitize_inplace (append_utf8 cp @ s) = (if printable cp then append_utf8 cp else []) @ sanitize_inplace s"
proof -
  have "printable cp" using assms by (auto simp: printable_def)
  moreover have "cp div 262144 < 8" using assms by auto
  ultimately show ?thesis
    using sanitize_four [of "0xF0 + cp div 262144" "cp div 4096 mod 64" "cp div 64 mod 64" "cp mod 64" s]
    by (simp add: utf8_codes(4) [OF assms] del: sanitize_inplace.simps)
qed

lemma sanitize_utf8:
  "cp \<le> 0x10FFFF \<Longrightarrow> sanitize_inplace (append_utf8 cp @ s) = (if printable cp then append_utf8 cp else []) @ sanitize_inplace s"
  using sanitize_utf8_1 sanitize_utf8_2 sanitize_utf8_3 sanitize_utf8_4 by (meson not_le)

section \<open>Properties\<close>

text \<open>
  C27. On names of at most 64 characters, the row-by-row computation with its early exits decides the
  distance: it is at most \<open>k\<close> exactly when \<open>k\<close> insertions, removals, replacements and exchanges of
  neighbours turn one name into the other, for every \<open>k\<close> up to the limit; above the limit the value is too.
\<close>

theorem edit_distance_correct:
  assumes "length a \<le> 64" and "length b \<le> 64" and "int k \<le> limit"
  shows "edit_distance a b limit \<le> int k \<longleftrightarrow> (\<exists>n \<le> k. edits True n a b)"
  using assms edit_distance_value [of a b limit] dist_rev [of True a b k]
  by (auto simp: kEditMax_def Let_def split: if_splits)

theorem edit_distance_correct_witness:
  "length ''nepla'' \<le> 64 \<and> length ''nepal'' \<le> 64 \<and> int 1 \<le> 2 \<and> edits True 1 ''nepla'' ''nepal''"
proof -
  have "edit_distance ''nepla'' ''nepal'' 2 \<le> int 1" and "\<not> edit_distance ''nepla'' ''nepal'' 2 \<le> int 0"
    by code_simp+
  then have "\<exists>n \<le> 1. edits True n ''nepla'' ''nepal''" and "\<not> edits True 0 ''nepla'' ''nepal''"
    using edit_distance_correct [of "''nepla''" "''nepal''" 1 2] edit_distance_correct [of "''nepla''" "''nepal''" 0 2]
    by simp_all
  then show ?thesis by (auto simp: le_Suc_eq)
qed

text \<open>
  C28. The column-by-column search finds a pattern of 1 to 64 characters up to \<open>k\<close> changes exactly when some
  contiguous part of the text is \<open>k\<close> insertions, removals and replacements away from it.
\<close>

theorem approx_sub_correct:
  assumes "pat \<noteq> []" and "length pat \<le> 64"
  shows "approx_sub pat hay limit \<le> int k \<longleftrightarrow> (\<exists>n \<le> k. \<exists>sub. sublist sub hay \<and> edits False n pat sub)"
  using assms approx_sub_value [of pat hay limit k] by (simp add: kEditMax_def)

theorem approx_sub_correct_witness:
  "''wolrd'' \<noteq> [] \<and> length ''wolrd'' \<le> 64 \<and>
   (\<exists>n \<le> 2. \<exists>sub. sublist sub ''my world'' \<and> edits False n ''wolrd'' sub) \<and>
   \<not> (\<exists>n \<le> 1. \<exists>sub. sublist sub ''my world'' \<and> edits False n ''wolrd'' sub)"
proof -
  have "approx_sub ''wolrd'' ''my world'' 2 \<le> int 2" and "\<not> approx_sub ''wolrd'' ''my world'' 2 \<le> int 1"
    by code_simp+
  then show ?thesis
    using approx_sub_correct [of "''wolrd''" "''my world''" 2 2] approx_sub_correct [of "''wolrd''" "''my world''" 2 1]
    by simp
qed

text \<open>
  C29. On well-formed UTF-8, sanitising removes exactly the control characters and the marks that switch
  the direction of writing, and nothing else. On other bytes it runs once only, so removing a
  control byte can put such a mark together: here U+202E.
\<close>

theorem sanitize_removes:
  assumes "list_all (\<lambda>cp. cp \<le> 0x10FFFF) cps"
  shows "sanitize_inplace (concat (map append_utf8 cps)) = concat (map append_utf8 (filter printable cps)) \<and>
    sanitize_inplace [CHR 0xE2, CHR 0x01, CHR 0x80, CHR 0xAE] = append_utf8 0x202E"
proof
  show "sanitize_inplace (concat (map append_utf8 cps)) = concat (map append_utf8 (filter printable cps))"
    using assms by (induction cps) (simp_all add: sanitize_utf8)
  show "sanitize_inplace [CHR 0xE2, CHR 0x01, CHR 0x80, CHR 0xAE] = append_utf8 0x202E"
    unfolding utf8_codes(3) [of "0x202E", simplified] by code_simp
qed

theorem sanitize_removes_witness:
  "list_all (\<lambda>cp. cp \<le> (0x10FFFF :: nat)) [0x41, 0x202E, 0x85, 0xE9] \<and>
   sanitize_inplace (concat (map append_utf8 [0x41, 0x202E, 0x85, 0xE9])) = concat (map append_utf8 [0x41, 0xE9])"
  using sanitize_removes [of "[0x41, 0x202E, 0x85, 0xE9]"] by (simp add: printable_def)

end
