(* ===== verification/Registry.thy ===== *)
theory Registry
  imports Text_Match
begin

text \<open>
  Reading the address blocks of a country (src/discover.cpp, lines 1090 to 1283): downloads arrive in
  chunks, \<open>feed\<close> cuts them into lines, a line of a delegation file or a list of prefixes adds an
  interval, and \<open>finish\<close> takes the last line or a whole page apart. It is shown that the way a download is
  cut does not matter and which addresses come out at the end. \<open>inet_pton\<close> is a parameter (Cidr).
\<close>

section \<open>Sources\<close>

datatype kind = NwDb | ApnicDelegated | RirV4 | RirV6

record job =
  jb_cc0 :: char
  jb_cc1 :: char
  jb_want_v4 :: bool
  jb_want_v6 :: bool

datatype abort_reason = ResponseTooLarge | LineTooLong

record source =
  sr_kind :: kind
  sr_job :: job
  sr_streaming :: bool
  sr_cap :: nat
  sr_total_bytes :: nat
  sr_aborted :: "abort_reason option"
  sr_not_attributed :: bool
  sr_buf :: string
  sr_v4 :: "(u32 \<times> u32) list"
  sr_v6 :: "(u128 \<times> u128) list"

record pton_env =
  pton4 :: "string \<Rightarrow> u32 option"
  pton6 :: "string \<Rightarrow> bytes option"

definition kMaxLine :: nat where
  "kMaxLine = 8 * 1024"

section \<open>Lines\<close>

text \<open>\<open>split_pipe(line, f, max)\<close> makes at most \<open>max - 1\<close> cuts.\<close>

fun split_pipe :: "nat \<Rightarrow> string \<Rightarrow> string list" where
  "split_pipe 0 s = [s]"
| "split_pipe (Suc k) s =
     (case find_char CHR ''|'' s of
        None \<Rightarrow> [s]
      | Some bar \<Rightarrow> substr s 0 bar # split_pipe k (substr_from s (bar + 1)))"

definition add_v4 :: "u32 \<times> u32 \<Rightarrow> source \<Rightarrow> source" where
  "add_v4 iv s = s\<lparr>sr_v4 := sr_v4 s @ [iv]\<rparr>"

definition add_v6 :: "u128 \<times> u128 \<Rightarrow> source \<Rightarrow> source" where
  "add_v6 iv s = s\<lparr>sr_v6 := sr_v6 s @ [iv]\<rparr>"

definition delegated_v4 :: "pton_env \<Rightarrow> string \<Rightarrow> string \<Rightarrow> (u32 \<times> u32) option" where
  "delegated_v4 env ip cnt =
     (case parse_v4_addr (pton4 env) ip of
        None \<Rightarrow> None
      | Some start \<Rightarrow>
          (case parse_u64 cnt of
             None \<Rightarrow> None
           | Some n \<Rightarrow>
               if n = 0 then None
               else let last_ip = (unat start + n - 1) mod 2 ^ 64
                    in if last_ip > 0xFFFFFFFF then None else Some (start, of_nat last_ip)))"

definition delegated_v6 :: "pton_env \<Rightarrow> string \<Rightarrow> string \<Rightarrow> (u128 \<times> u128) option" where
  "delegated_v6 env ip plen =
     (case parse_v6_addr (pton6 env) ip of
        None \<Rightarrow> None
      | Some start \<Rightarrow>
          (case parse_u64 plen of
             None \<Rightarrow> None
           | Some n \<Rightarrow> if n < 1 \<or> n > 128 then None else Some (v6_from_prefix start n)))"

definition country_field :: "job \<Rightarrow> string \<Rightarrow> bool" where
  "country_field job line =
     (case find_char CHR ''|'' line of
        None \<Rightarrow> False
      | Some p1 \<Rightarrow>
          p1 + 3 < length line \<and> line ! (p1 + 3) = CHR ''|'' \<and>
          line ! (p1 + 1) = jb_cc0 job \<and> line ! (p1 + 2) = jb_cc1 job)"

definition apnic_line :: "pton_env \<Rightarrow> string \<Rightarrow> source \<Rightarrow> source" where
  "apnic_line env line s =
     (if line ! 0 = CHR ''#'' \<or> \<not> country_field (sr_job s) line then s
      else let f = split_pipe 7 line in
        if length f < 7 \<or> \<not> (f ! 6 = ''allocated'' \<or> f ! 6 = ''assigned'') then s
        else if f ! 2 = ''ipv4''
        then (if \<not> jb_want_v4 (sr_job s) then s
              else case delegated_v4 env (f ! 3) (f ! 4) of None \<Rightarrow> s | Some iv \<Rightarrow> add_v4 iv s)
        else if f ! 2 = ''ipv6''
        then (if \<not> jb_want_v6 (sr_job s) then s
              else case delegated_v6 env (f ! 3) (f ! 4) of None \<Rightarrow> s | Some iv \<Rightarrow> add_v6 iv s)
        else s)"

definition rir_line :: "pton_env \<Rightarrow> string \<Rightarrow> source \<Rightarrow> source" where
  "rir_line env line s =
     (let line = trim_sv line in
      if line = [] \<or> line ! 0 = CHR ''#'' then s
      else if sr_kind s = RirV4
      then (case parse_v4_cidr (pton4 env) line of None \<Rightarrow> s | Some iv \<Rightarrow> add_v4 iv s)
      else (case parse_v6_cidr (pton6 env) line of None \<Rightarrow> s | Some iv \<Rightarrow> add_v6 iv s))"

definition chop_cr :: "string \<Rightarrow> string" where
  "chop_cr line = (if line \<noteq> [] \<and> code (last line) = 13 then butlast line else line)"

definition handle_line :: "pton_env \<Rightarrow> string \<Rightarrow> source \<Rightarrow> source" where
  "handle_line env line s =
     (let line = chop_cr line in
      if line = [] then s
      else if sr_kind s = ApnicDelegated then apnic_line env line s else rir_line env line s)"

section \<open>Chunks\<close>

abbreviation NL :: char where
  "NL \<equiv> CHR 0x0A"

definition abort :: "abort_reason \<Rightarrow> source \<Rightarrow> bool \<times> source" where
  "abort r s = (False, s\<lparr>sr_aborted := Some r\<rparr>)"

text \<open>The loop over the chunk from \<open>pos\<close> on; the string is what is left of it.\<close>

function feed_rest :: "pton_env \<Rightarrow> string \<Rightarrow> source \<Rightarrow> bool \<times> source" where
  "feed_rest env p s =
     (if p = [] then (True, s)
      else case find_char NL p of
        None \<Rightarrow> if length p > kMaxLine then abort LineTooLong s else (True, s\<lparr>sr_buf := p\<rparr>)
      | Some n \<Rightarrow> feed_rest env (drop (n + 1) p) (handle_line env (take n p) s))"
  by pat_completeness auto

termination
  by (relation "measure (\<lambda>(env, p, s). length p)") auto

declare feed_rest.simps [simp del]

definition feed :: "pton_env \<Rightarrow> string \<Rightarrow> source \<Rightarrow> bool \<times> source" where
  "feed env p s =
     (if \<not> sr_streaming s then (True, s\<lparr>sr_buf := sr_buf s @ p\<rparr>)
      else if sr_buf s \<noteq> []
      then (case find_char NL p of
              None \<Rightarrow> if length (sr_buf s) + length p > kMaxLine then abort LineTooLong s
                      else (True, s\<lparr>sr_buf := sr_buf s @ p\<rparr>)
            | Some n \<Rightarrow> feed_rest env (drop (n + 1) p) ((handle_line env (sr_buf s @ take n p) s)\<lparr>sr_buf := []\<rparr>))
      else feed_rest env p s)"

definition ingest :: "pton_env \<Rightarrow> string \<Rightarrow> source \<Rightarrow> bool \<times> source" where
  "ingest env p s =
     (let s = s\<lparr>sr_total_bytes := sr_total_bytes s + length p\<rparr>
      in if sr_total_bytes s > sr_cap s then abort ResponseTooLarge s else feed env p s)"

text \<open>The download: chunk after chunk, until one is refused.\<close>

fun download :: "pton_env \<Rightarrow> string list \<Rightarrow> source \<Rightarrow> source option" where
  "download env [] s = Some s"
| "download env (p # ps) s = (let (ok, s) = ingest env p s in if ok then download env ps s else None)"

section \<open>The end of a download\<close>

text \<open>\<open>body.find(pat, pos)\<close>\<close>

definition find_from :: "string \<Rightarrow> string \<Rightarrow> nat \<Rightarrow> nat option" where
  "find_from pat s pos = find (\<lambda>i. take (length pat) (drop i s) = pat) [pos..<length s + 1 - length pat]"

lemma find_from_Some:
  assumes "find_from pat s pos = Some i"
  shows "pos \<le> i" and "i + length pat \<le> length s" and "take (length pat) (drop i s) = pat"
proof -
  have "i \<in> set [pos..<length s + 1 - length pat]" and "take (length pat) (drop i s) = pat"
    using assms by (auto simp: find_from_def find_Some_iff)
  then show "pos \<le> i" and "i + length pat \<le> length s" and "take (length pat) (drop i s) = pat" by auto
qed

lemma find_from_less:
  assumes "find_from pat s pos = Some i" and "pat \<noteq> []" and "0 < k"
  shows "length s - (i + k) < length s - pos"
proof -
  have "i < length s" using find_from_Some(2) [OF assms(1)] assms(2) by (cases pat) auto
  then show ?thesis using find_from_Some(1) [OF assms(1)] assms(3) by linarith
qed

function attributed :: "job \<Rightarrow> string \<Rightarrow> nat \<Rightarrow> bool" where
  "attributed job body pos =
     (case find_from ''/country/'' body pos of
        None \<Rightarrow> False
      | Some i \<Rightarrow>
          (let pos = i + 9 in
           if pos + 2 \<le> length body \<and> lower_ascii (body ! pos) = lower_ascii (jb_cc0 job) \<and>
              lower_ascii (body ! (pos + 1)) = lower_ascii (jb_cc1 job) \<and>
              (pos + 2 = length body \<or> \<not> is_alnum_ascii (code (body ! (pos + 2))))
           then True else attributed job body pos))"
  by pat_completeness auto

termination
  by (relation "measure (\<lambda>(job, body, pos). length body - pos)") (auto intro: find_from_less)

definition is_cidr_char :: "char \<Rightarrow> bool" where
  "is_cidr_char c \<longleftrightarrow> is_digit c \<or> c = CHR ''.'' \<or> c = CHR ''/''"

function page_blocks :: "pton_env \<Rightarrow> string \<Rightarrow> nat \<Rightarrow> source \<Rightarrow> source" where
  "page_blocks env body pos s =
     (case find_from ''CIDR:</span>'' body pos of
        None \<Rightarrow> s
      | Some i \<Rightarrow>
          (let rest = drop (i + 12) body;
               blanks = takeWhile is_blank rest;
               word = takeWhile is_cidr_char (drop (length blanks) rest);
               s = (if word = [] then s
                    else case parse_v4_cidr (pton4 env) word of None \<Rightarrow> s | Some iv \<Rightarrow> add_v4 iv s)
           in page_blocks env body (i + 12 + length blanks + length word) s))"
  by pat_completeness auto

termination
  by (relation "measure (\<lambda>(env, body, pos, s). length body - pos)") (auto simp: add.assoc intro: find_from_less)

declare attributed.simps [simp del] page_blocks.simps [simp del]

definition finish :: "pton_env \<Rightarrow> source \<Rightarrow> source" where
  "finish env s =
     (if sr_streaming s
      then (if sr_buf s \<noteq> [] then (handle_line env (sr_buf s) s)\<lparr>sr_buf := []\<rparr> else s)
      else if \<not> attributed (sr_job s) (sr_buf s) 0 then s\<lparr>sr_not_attributed := True\<rparr>
      else (page_blocks env (sr_buf s) 0 s)\<lparr>sr_buf := []\<rparr>)"

section \<open>Lines do not depend on chunks\<close>

text \<open>What a line contributes.\<close>

type_synonym blocks = "(u32 \<times> u32) list \<times> (u128 \<times> u128) list"

definition of_v4 :: "(u32 \<times> u32) option \<Rightarrow> blocks" where
  "of_v4 iv = (case iv of None \<Rightarrow> ([], []) | Some iv \<Rightarrow> ([iv], []))"

definition of_v6 :: "(u128 \<times> u128) option \<Rightarrow> blocks" where
  "of_v6 iv = (case iv of None \<Rightarrow> ([], []) | Some iv \<Rightarrow> ([], [iv]))"

definition apnic_blocks :: "pton_env \<Rightarrow> job \<Rightarrow> string \<Rightarrow> blocks" where
  "apnic_blocks env job line =
     (let f = split_pipe 7 line in
      if line ! 0 = CHR ''#'' \<or> \<not> country_field job line \<or> length f < 7 \<or> f ! 6 \<notin> {''allocated'', ''assigned''}
      then ([], [])
      else if f ! 2 = ''ipv4'' then (if jb_want_v4 job then of_v4 (delegated_v4 env (f ! 3) (f ! 4)) else ([], []))
      else if f ! 2 = ''ipv6'' then (if jb_want_v6 job then of_v6 (delegated_v6 env (f ! 3) (f ! 4)) else ([], []))
      else ([], []))"

definition line_blocks :: "pton_env \<Rightarrow> kind \<Rightarrow> job \<Rightarrow> string \<Rightarrow> blocks" where
  "line_blocks env kd job line =
     (let line = chop_cr line; bare = trim_sv line in
      if line = [] then ([], [])
      else if kd = ApnicDelegated then apnic_blocks env job line
      else if bare = [] \<or> bare ! 0 = CHR ''#'' then ([], [])
      else if kd = RirV4 then of_v4 (parse_v4_cidr (pton4 env) bare) else of_v6 (parse_v6_cidr (pton6 env) bare))"

definition add_blocks :: "blocks \<Rightarrow> source \<Rightarrow> source" where
  "add_blocks b s = s\<lparr>sr_v4 := sr_v4 s @ fst b, sr_v6 := sr_v6 s @ snd b\<rparr>"

lemma add_blocks_simps [simp]: "add_blocks ([], []) s = s"
  by (simp add: add_blocks_def)

lemma add_blocks_of_v4: "add_blocks (of_v4 iv) s = (case iv of None \<Rightarrow> s | Some iv \<Rightarrow> add_v4 iv s)"
  by (simp add: add_blocks_def of_v4_def add_v4_def split: option.split)

lemma add_blocks_of_v6: "add_blocks (of_v6 iv) s = (case iv of None \<Rightarrow> s | Some iv \<Rightarrow> add_v6 iv s)"
  by (simp add: add_blocks_def of_v6_def add_v6_def split: option.split)

lemma apnic_line_blocks: "apnic_line env line s = add_blocks (apnic_blocks env (sr_job s) line) s"
  unfolding apnic_line_def apnic_blocks_def Let_def
  by (simp only: insert_iff empty_iff if_distrib [of "\<lambda>b. add_blocks b s"] add_blocks_simps add_blocks_of_v4
      add_blocks_of_v6 de_Morgan_disj de_Morgan_conj simp_thms split: if_split) blast

lemma handle_line_blocks: "handle_line env line s = add_blocks (line_blocks env (sr_kind s) (sr_job s) line) s"
  unfolding handle_line_def line_blocks_def rir_line_def Let_def apnic_line_blocks
  by (simp only: if_distrib [of "\<lambda>b. add_blocks b s"] add_blocks_simps add_blocks_of_v4 add_blocks_of_v6)

lemma handle_line_keeps [simp]:
  "sr_buf (handle_line env l s) = sr_buf s" "sr_streaming (handle_line env l s) = sr_streaming s"
  "sr_kind (handle_line env l s) = sr_kind s" "sr_job (handle_line env l s) = sr_job s"
  "sr_cap (handle_line env l s) = sr_cap s" "sr_total_bytes (handle_line env l s) = sr_total_bytes s"
  by (simp_all add: handle_line_blocks add_blocks_def)

lemma handle_line_other:
  "handle_line env l (s\<lparr>sr_buf := b\<rparr>) = (handle_line env l s)\<lparr>sr_buf := b\<rparr>"
  "handle_line env l (s\<lparr>sr_total_bytes := n\<rparr>) = (handle_line env l s)\<lparr>sr_total_bytes := n\<rparr>"
  by (simp_all add: handle_line_blocks add_blocks_def)

lemma handle_line_empty [simp]: "handle_line env [] s = s"
  by (simp add: handle_line_def chop_cr_def)

abbreviation handle_lines :: "pton_env \<Rightarrow> string list \<Rightarrow> source \<Rightarrow> source" where
  "handle_lines env ls s \<equiv> fold (handle_line env) ls s"

lemma handle_lines_keeps [simp]:
  "sr_buf (handle_lines env ls s) = sr_buf s" "sr_streaming (handle_lines env ls s) = sr_streaming s"
  "sr_cap (handle_lines env ls s) = sr_cap s" "sr_total_bytes (handle_lines env ls s) = sr_total_bytes s"
  by (induction ls arbitrary: s) simp_all

lemma handle_lines_other:
  "handle_lines env ls (s\<lparr>sr_buf := b\<rparr>) = (handle_lines env ls s)\<lparr>sr_buf := b\<rparr>"
  "handle_lines env ls (s\<lparr>sr_total_bytes := n\<rparr>) = (handle_lines env ls s)\<lparr>sr_total_bytes := n\<rparr>"
  by (induction ls arbitrary: s) (simp_all add: handle_line_other)

lemma split_on_last_free: "c \<notin> set (last (split_on c s))"
  by (induction s) (auto split: list.splits)

lemma split_on_chunk: "split_on c (x @ y) = butlast (split_on c x) @ split_on c (last (split_on c x) @ y)"
proof (induction x)
  case (Cons a x)
  obtain t ts where x: "split_on c x = t # ts" by (cases "split_on c x") auto
  then show ?case using Cons by (cases ts) auto
qed simp

lemma split_on_grows: "c \<notin> set x \<Longrightarrow> length x \<le> length (hd (split_on c (x @ y)))"
  by (induction x) (auto split: list.splits)

lemma empty_buf: "sr_buf s = [] \<Longrightarrow> s\<lparr>sr_buf := []\<rparr> = s"
  by (cases s) simp

lemma feed_rest_lines:
  assumes "sr_buf s = []"
  shows "feed_rest env p s =
    (let ls = split_on NL p; s' = handle_lines env (butlast ls) s
     in if length (last ls) > kMaxLine then abort LineTooLong s' else (True, s'\<lparr>sr_buf := last ls\<rparr>))"
  using assms
proof (induction env p s rule: feed_rest.induct)
  case (1 env p s)
  consider "p = []" | "p \<noteq> []" "find_char NL p = None" | n where "p \<noteq> []" "find_char NL p = Some n"
    by (cases "find_char NL p") auto
  then show ?case
  proof cases
    case 1
    then show ?thesis using "1.prems" by (simp add: feed_rest.simps [of env "[]"] kMaxLine_def empty_buf)
  next
    case 2
    then show ?thesis by (simp add: feed_rest.simps [of env p] split_on_find_None)
  next
    case (3 n)
    let ?s = "handle_line env (take n p) s"
    have "feed_rest env p s = feed_rest env (drop (n + 1) p) ?s" using 3 by (simp add: feed_rest.simps [of env p])
    moreover have "split_on NL p = take n p # split_on NL (drop (n + 1) p)" using split_on_find_Some [OF 3(2)] by simp
    ultimately show ?thesis using "1.IH" [OF 3(1,2)] "1.prems" by (simp add: Let_def)
  qed
qed

text \<open>Feeding a chunk to a source that holds the beginning of a line.\<close>

lemma feed_lines:
  fixes s p env
  assumes "sr_streaming s" and "NL \<notin> set (sr_buf s)"
  defines "ls \<equiv> split_on NL (sr_buf s @ p)"
  shows "fst (feed env p s) \<longleftrightarrow> length (last ls) \<le> kMaxLine \<or> (p = [] \<and> sr_buf s = [])"
    and "fst (feed env p s) \<Longrightarrow> snd (feed env p s) = (handle_lines env (butlast ls) s)\<lparr>sr_buf := last ls\<rparr>"
proof -
  consider "sr_buf s = []" | "sr_buf s \<noteq> []" "find_char NL p = None" | n where "sr_buf s \<noteq> []" "find_char NL p = Some n"
    by (cases "find_char NL p") auto
  then have "(fst (feed env p s) \<longleftrightarrow> length (last ls) \<le> kMaxLine \<or> (p = [] \<and> sr_buf s = [])) \<and>
    (fst (feed env p s) \<longrightarrow> snd (feed env p s) = (handle_lines env (butlast ls) s)\<lparr>sr_buf := last ls\<rparr>)"
  proof cases
    case 1
    then have "feed env p s = feed_rest env p s" using assms(1) by (simp add: feed_def)
    then show ?thesis using feed_rest_lines [OF 1] 1 by (auto simp: ls_def abort_def Let_def)
  next
    case 2
    then have "ls = [sr_buf s @ p]" using assms(2) by (auto simp: ls_def str_simps)
    then show ?thesis using 2 assms(1) by (simp add: feed_def abort_def)
  next
    case (3 n)
    have p: "p = take n p @ NL # drop (n + 1) p" and "NL \<notin> set (take n p)"
      using find_char_split [OF 3(2)] find_char_Some [OF 3(2)] by simp_all
    then have "ls = (sr_buf s @ take n p) # split_on NL (drop (n + 1) p)"
      using assms(2) split_on_append [of NL "sr_buf s @ take n p" "drop (n + 1) p"] unfolding ls_def by (metis append.assoc Un_iff set_append)
    moreover have "feed env p s = feed_rest env (drop (n + 1) p) ((handle_line env (sr_buf s @ take n p) s)\<lparr>sr_buf := []\<rparr>)"
      using 3 assms(1) by (simp add: feed_def)
    ultimately show ?thesis using 3(1) by (simp add: feed_rest_lines abort_def Let_def handle_lines_other)
  qed
  then show "fst (feed env p s) \<longleftrightarrow> length (last ls) \<le> kMaxLine \<or> (p = [] \<and> sr_buf s = [])"
    and "fst (feed env p s) \<Longrightarrow> snd (feed env p s) = (handle_lines env (butlast ls) s)\<lparr>sr_buf := last ls\<rparr>" by blast+
qed

lemma download_lines:
  assumes "sr_streaming s" and "NL \<notin> set (sr_buf s)" and "download env ps s = Some s'"
  defines "ls \<equiv> split_on NL (sr_buf s @ concat ps)"
  shows "s' = (handle_lines env (butlast ls) s)\<lparr>sr_buf := last ls, sr_total_bytes := sr_total_bytes s + length (concat ps)\<rparr>"
  using assms(1-3) unfolding ls_def
proof (induction ps arbitrary: s)
  case Nil
  then show ?case by (simp add: str_simps)
next
  case (Cons p ps)
  let ?t = "s\<lparr>sr_total_bytes := sr_total_bytes s + length p\<rparr>" and ?ls = "split_on NL (sr_buf s @ p)"
  obtain u where u: "feed env p ?t = (True, u)" and d: "download env ps u = Some s'"
    using Cons.prems(3) by (auto simp: ingest_def abort_def Let_def split: if_splits prod.splits)
  have "u = (handle_lines env (butlast ?ls) ?t)\<lparr>sr_buf := last ?ls\<rparr>"
    using feed_lines(2) [of ?t env p] Cons.prems(1,2) u by simp
  then have u': "u = (handle_lines env (butlast ?ls) s)\<lparr>sr_buf := last ?ls, sr_total_bytes := sr_total_bytes s + length p\<rparr>"
    by (simp add: handle_lines_other)
  have "split_on NL (sr_buf s @ concat (p # ps)) = butlast ?ls @ split_on NL (last ?ls @ concat ps)"
    using split_on_chunk [of NL "sr_buf s @ p" "concat ps"] by simp
  moreover have "s' = (handle_lines env (butlast (split_on NL (sr_buf u @ concat ps))) u)
      \<lparr>sr_buf := last (split_on NL (sr_buf u @ concat ps)), sr_total_bytes := sr_total_bytes u + length (concat ps)\<rparr>"
    by (rule Cons.IH) (use Cons.prems(1) d u' split_on_last_free in simp_all)
  ultimately show ?case by (simp add: u' handle_lines_other butlast_append add.assoc)
qed

lemma download_ends:
  assumes "sr_streaming s" and "NL \<notin> set (sr_buf s)" and "sr_total_bytes s + length (concat ps) \<le> sr_cap s"
    and "\<forall>l \<in> set (split_on NL (sr_buf s @ concat ps)). length l \<le> kMaxLine"
  shows "\<exists>s'. download env ps s = Some s'"
  using assms
proof (induction ps arbitrary: s)
  case (Cons p ps)
  let ?t = "s\<lparr>sr_total_bytes := sr_total_bytes s + length p\<rparr>" and ?ls = "split_on NL (sr_buf s @ p)"
  have all: "split_on NL (sr_buf s @ concat (p # ps)) = butlast ?ls @ split_on NL (last ?ls @ concat ps)"
    using split_on_chunk [of NL "sr_buf s @ p" "concat ps"] by simp
  have "length (last ?ls) \<le> length (hd (split_on NL (last ?ls @ concat ps)))"
    by (rule split_on_grows) (rule split_on_last_free)
  also have "\<dots> \<le> kMaxLine" using Cons.prems(4) unfolding all by simp
  finally have ok: "fst (feed env p ?t)" using feed_lines(1) [of ?t env p] Cons.prems(1,2) by simp
  define u where "u = snd (feed env p ?t)"
  have u: "u = (handle_lines env (butlast ?ls) s)\<lparr>sr_buf := last ?ls, sr_total_bytes := sr_total_bytes s + length p\<rparr>"
    using feed_lines(2) [of ?t env p] Cons.prems(1,2) ok by (simp add: u_def handle_lines_other)
  have "ingest env p s = (True, u)"
    using Cons.prems(3) ok by (simp add: ingest_def Let_def u_def prod_eq_iff)
  moreover have "\<forall>l \<in> set (split_on NL (last ?ls @ concat ps)). length l \<le> kMaxLine"
    using Cons.prems(4) unfolding all by auto
  then have "\<exists>s'. download env ps u = Some s'"
    by (intro Cons.IH) (use Cons.prems(1,3) u split_on_last_free in simp_all)
  ultimately show ?case by simp
qed simp

lemma finish_download:
  assumes "sr_streaming s" and "sr_buf s = []" and "download env ps s = Some s'"
  shows "finish env s' =
    (handle_lines env (split_on NL (concat ps)) s)\<lparr>sr_total_bytes := sr_total_bytes s + length (concat ps)\<rparr>"
proof -
  let ?ls = "split_on NL (concat ps)"
  have "handle_lines env ?ls s = handle_line env (last ?ls) (handle_lines env (butlast ?ls) s)"
    using fold_append [of "handle_line env" "butlast ?ls" "[last ?ls]"] by simp
  then show ?thesis
    using download_lines [of s env ps s'] assms
    by (cases "last ?ls = []") (simp_all add: finish_def handle_line_other)
qed

text \<open>
  C26. However a streamed download is cut into chunks, when all of them are taken the result is that of
  its lines, in order, the last one with or without a line end. And it is taken when it stays below the
  limit of bytes and no line is longer than 8 KiB.
\<close>

theorem chunks_do_not_matter:
  assumes "sr_streaming s" and "sr_buf s = []"
  shows "(\<forall>s'. download env ps s = Some s' \<longrightarrow>
      finish env s' = (handle_lines env (split_on NL (concat ps)) s)\<lparr>sr_total_bytes := sr_total_bytes s + length (concat ps)\<rparr>) \<and>
    (sr_total_bytes s + length (concat ps) \<le> sr_cap s \<and>
      list_all (\<lambda>l. length l \<le> kMaxLine) (split_on NL (concat ps)) \<longrightarrow> download env ps s \<noteq> None)"
  using finish_download [OF assms] download_ends [of s ps env] assms by (simp_all add: list_all_iff)

section \<open>Delegation files\<close>

text \<open>
  The lines of a file in the exchange format of the registries: the version line, summary lines, comments, empty
  lines and records, a record with any number of fields after its status.
\<close>

record delegation =
  dg_registry :: string
  dg_cc :: string
  dg_type :: string
  dg_start :: string
  dg_value :: string
  dg_date :: string
  dg_status :: string
  dg_more :: "string list"

datatype registry_line =
    BlankLine
  | CommentLine string
  | VersionLine string string "string list"
  | SummaryLine string string string
  | RecordLine delegation

abbreviation pipe :: "string list \<Rightarrow> string" where
  "pipe fs \<equiv> join_with CHR ''|'' fs"

definition delegation_fields :: "delegation \<Rightarrow> string list" where
  "delegation_fields d =
     [dg_registry d, dg_cc d, dg_type d, dg_start d, dg_value d, dg_date d, dg_status d] @ dg_more d"

fun show_line :: "registry_line \<Rightarrow> string" where
  "show_line BlankLine = []"
| "show_line (CommentLine s) = CHR ''#'' # s"
| "show_line (VersionLine version registry fs) = pipe (version # registry # fs)"
| "show_line (SummaryLine registry ty num) = pipe [registry, ''*'', ty, ''*'', num, ''summary'']"
| "show_line (RecordLine d) = pipe (delegation_fields d)"

definition registries :: "string list" where
  "registries = [''afrinic'', ''apnic'', ''arin'', ''iana'', ''lacnic'', ''ripencc'']"

definition plain :: "string \<Rightarrow> bool" where
  "plain s \<longleftrightarrow> CHR ''|'' \<notin> set s \<and> NL \<notin> set s \<and> CHR 0x0D \<notin> set s"

fun line_ok :: "registry_line \<Rightarrow> bool" where
  "line_ok BlankLine = True"
| "line_ok (CommentLine s) = (NL \<notin> set s \<and> CHR 0x0D \<notin> set s)"
| "line_ok (VersionLine version registry fs) = (plain version \<and> registry \<in> set registries \<and> list_all plain fs \<and> fs \<noteq> [])"
| "line_ok (SummaryLine registry ty num) = (registry \<in> set registries \<and> plain ty \<and> plain num)"
| "line_ok (RecordLine d) = (dg_registry d \<in> set registries \<and> list_all plain (delegation_fields d))"

text \<open>A line ends in CR and NL or in NL; the last one may lack the NL (and is then \<open>ended = False\<close>).\<close>

definition ended_line :: "bool \<times> registry_line \<Rightarrow> string" where
  "ended_line l = show_line (snd l) @ (if fst l then [CHR 0x0D] else [])"

definition file_of :: "bool \<Rightarrow> (bool \<times> registry_line) list \<Rightarrow> string" where
  "file_of ended ls =
     (let t = concat (map (\<lambda>l. ended_line l @ [NL]) ls) in if ended then t else butlast t)"

definition records_of :: "(bool \<times> registry_line) list \<Rightarrow> delegation list" where
  "records_of ls = concat (map (\<lambda>l. case snd l of RecordLine d \<Rightarrow> [d] | _ \<Rightarrow> []) ls)"

text \<open>What a record stands for in the search for a country; its letters are no bars.\<close>

definition record_blocks :: "pton_env \<Rightarrow> job \<Rightarrow> delegation \<Rightarrow> blocks" where
  "record_blocks env job d =
     (if dg_cc d \<noteq> [jb_cc0 job, jb_cc1 job] \<or> dg_status d \<notin> {''allocated'', ''assigned''} then ([], [])
      else if dg_type d = ''ipv4'' \<and> jb_want_v4 job then of_v4 (delegated_v4 env (dg_start d) (dg_value d))
      else if dg_type d = ''ipv6'' \<and> jb_want_v6 job then of_v6 (delegated_v6 env (dg_start d) (dg_value d))
      else ([], []))"

definition letters_ok :: "job \<Rightarrow> bool" where
  "letters_ok job \<longleftrightarrow> jb_cc0 job \<noteq> CHR ''|'' \<and> jb_cc1 job \<noteq> CHR ''|''"

text \<open>Cutting at bars is undone by joining, up to the number of cuts.\<close>

lemma split_pipe_join:
  "list_all plain fs \<Longrightarrow> fs \<noteq> [] \<Longrightarrow>
    split_pipe k (pipe fs) = (if length fs \<le> Suc k then fs else take k fs @ [pipe (drop k fs)])"
proof (induction k arbitrary: fs)
  case 0
  then show ?case by (cases fs) (auto simp: neq_Nil_conv)
next
  case (Suc k)
  obtain a gs where fs: "fs = a # gs" using Suc.prems by (cases fs) auto
  have a: "CHR ''|'' \<notin> set a" using Suc.prems fs by (simp add: plain_def)
  show ?case
  proof (cases gs)
    case Nil
    have "find_char CHR ''|'' a = None" using a by (simp add: str_simps)
    then show ?thesis using fs Nil by simp
  next
    case (Cons b hs)
    then have "split_pipe (Suc k) (pipe fs) = a # split_pipe k (pipe gs)"
      using fs a by (simp add: str_simps substr_def substr_from_def)
    also have "split_pipe k (pipe gs) = (if length gs \<le> Suc k then gs else take k gs @ [pipe (drop k gs)])"
      by (rule Suc.IH) (use Suc.prems fs Cons in simp_all)
    finally show ?thesis by (simp add: fs)
  qed
qed

lemma split_pipe_fields:
  assumes "list_all plain fs" and "7 \<le> length fs"
  shows "7 \<le> length (split_pipe 7 (pipe fs))" and "i < 7 \<Longrightarrow> split_pipe 7 (pipe fs) ! i = fs ! i"
proof -
  have "split_pipe 7 (pipe fs) = (if length fs \<le> 8 then fs else take 7 fs @ [pipe (drop 7 fs)])"
    using split_pipe_join [of fs 7] assms by (cases fs) auto
  then show "7 \<le> length (split_pipe 7 (pipe fs))" and "i < 7 \<Longrightarrow> split_pipe 7 (pipe fs) ! i = fs ! i"
    using assms(2) by (auto simp: nth_append)
qed

lemma country_field_pipe:
  assumes "letters_ok job" and "plain a" and "plain b"
  shows "country_field job (pipe (a # b # c # fs)) \<longleftrightarrow> b = [jb_cc0 job, jb_cc1 job]"
proof -
  obtain t where line: "pipe (a # b # c # fs) = a @ CHR ''|'' # b @ CHR ''|'' # t" by simp
  have bar: "find_char CHR ''|'' (a @ CHR ''|'' # b @ CHR ''|'' # t) = Some (length a)"
    using assms(2) by (simp add: plain_def str_simps)
  have iff: "country_field job (pipe (a # b # c # fs)) \<longleftrightarrow> 2 < length (b @ CHR ''|'' # t) \<and>
      (b @ CHR ''|'' # t) ! 2 = CHR ''|'' \<and> (b @ CHR ''|'' # t) ! 0 = jb_cc0 job \<and> (b @ CHR ''|'' # t) ! 1 = jb_cc1 job"
    unfolding country_field_def line bar option.case by (simp add: nth_append eval_nat_numeral)
  consider "b = []" | x where "b = [x]" | x y where "b = [x, y]" | x y z r where "b = x # y # z # r"
    by (metis list.exhaust)
  then show ?thesis
    using assms(1,3) unfolding iff by cases (auto simp: letters_ok_def plain_def)
qed

lemma registry_facts:
  assumes "r \<in> set registries"
  shows "plain r" and "length r \<noteq> 2" and "r \<noteq> [] \<and> hd r \<noteq> CHR ''#''"
  using assms by (auto simp: registries_def plain_def)

lemma plain_pipe: "list_all plain fs \<Longrightarrow> NL \<notin> set (pipe fs) \<and> CHR 0x0D \<notin> set (pipe fs)"
  by (induction "CHR ''|''" fs rule: join_with.induct) (auto simp: plain_def)

definition shown_blocks :: "pton_env \<Rightarrow> job \<Rightarrow> registry_line \<Rightarrow> blocks" where
  "shown_blocks env job l = (case l of RecordLine d \<Rightarrow> record_blocks env job d | _ \<Rightarrow> ([], []))"

lemma apnic_blocks_shown:
  assumes "line_ok l" and "letters_ok job" and "l \<noteq> BlankLine"
  shows "apnic_blocks env job (show_line l) = shown_blocks env job l"
proof -
  have other: "apnic_blocks env job line = ([], [])" if "line ! 0 = CHR ''#'' \<or> \<not> country_field job line" for line
    using that by (auto simp: apnic_blocks_def Let_def)
  show ?thesis
  proof (cases l)
    case (VersionLine v r fs)
    then obtain f gs where fs: "fs = f # gs" using assms(1) by (cases fs) auto
    have "\<not> country_field job (show_line l)"
      using country_field_pipe [OF assms(2), of v r f gs] VersionLine fs assms(1) registry_facts [of r] by auto
    then show ?thesis using other VersionLine by (simp add: shown_blocks_def)
  next
    case (SummaryLine r ty n)
    have "\<not> country_field job (show_line l)"
      using country_field_pipe [OF assms(2), of r "''*''" ty "[''*'', n, ''summary'']"] SummaryLine assms(1) registry_facts [of r]
      by (simp add: plain_def)
    then show ?thesis using other SummaryLine by (simp add: shown_blocks_def)
  next
    case (RecordLine d)
    let ?fs = "delegation_fields d"
    have ok: "list_all plain ?fs" "7 \<le> length ?fs" using RecordLine assms(1) by (simp_all add: delegation_fields_def)
    have country: "country_field job (pipe ?fs) \<longleftrightarrow> dg_cc d = [jb_cc0 job, jb_cc1 job]"
      using ok(1) country_field_pipe [OF assms(2), of "dg_registry d" "dg_cc d" "dg_type d"]
      by (simp add: delegation_fields_def del: join_with.simps)
    have "dg_registry d \<noteq> [] \<and> hd (dg_registry d) \<noteq> CHR ''#''" using RecordLine assms(1) registry_facts(3) by simp
    then have first: "pipe ?fs ! 0 \<noteq> CHR ''#''" by (cases "dg_registry d") (simp_all add: delegation_fields_def)
    have at: "?fs ! 2 = dg_type d" "?fs ! 3 = dg_start d" "?fs ! 4 = dg_value d" "?fs ! 6 = dg_status d"
      by (simp_all add: delegation_fields_def eval_nat_numeral)
    have "apnic_blocks env job (pipe ?fs) = record_blocks env job d"
      unfolding apnic_blocks_def record_blocks_def Let_def country
      using first at split_pipe_fields [OF ok] by auto
    then show ?thesis using RecordLine by (simp add: shown_blocks_def)
  qed (use assms(3) other in \<open>simp_all add: shown_blocks_def\<close>)
qed

lemma show_line_free: "line_ok l \<Longrightarrow> NL \<notin> set (show_line l) \<and> CHR 0x0D \<notin> set (show_line l)"
proof (cases l)
  case (VersionLine v r fs)
  then show "line_ok l \<Longrightarrow> ?thesis" using plain_pipe [of "v # r # fs"] registry_facts(1) by simp
next
  case (SummaryLine r ty n)
  then show "line_ok l \<Longrightarrow> ?thesis"
    using plain_pipe [of "[r, ''*'', ty, ''*'', n, ''summary'']"] registry_facts(1) [of r]
    by (simp add: plain_def del: join_with.simps)
next
  case (RecordLine d)
  then show "line_ok l \<Longrightarrow> ?thesis" using plain_pipe [of "delegation_fields d"] by simp
qed simp_all

lemma chop_cr_other: "CHR 0x0D \<notin> set s \<Longrightarrow> chop_cr s = s"
proof -
  assume "CHR 0x0D \<notin> set s"
  moreover have "code c = 13 \<longleftrightarrow> c = CHR 0x0D" for c using of_char_eq_iff [of c "CHR 0x0D", where 'a = nat] by simp
  ultimately show ?thesis by (metis chop_cr_def last_in_set)
qed

lemma chop_cr_snoc: "chop_cr (s @ [CHR 0x0D]) = s"
  by (simp add: chop_cr_def)

lemma line_blocks_shown:
  assumes "line_ok (snd l)" and "letters_ok job"
  shows "line_blocks env ApnicDelegated job (ended_line l) = shown_blocks env job (snd l)"
    and "NL \<notin> set (ended_line l)"
proof -
  have chop: "chop_cr (ended_line l) = show_line (snd l)"
    using show_line_free [OF assms(1)] chop_cr_other by (cases "fst l") (simp_all add: chop_cr_snoc ended_line_def)
  show "line_blocks env ApnicDelegated job (ended_line l) = shown_blocks env job (snd l)"
  proof (cases "show_line (snd l) = []")
    case True
    then have "snd l = BlankLine"
      using assms(1) registry_facts(3) by (cases "snd l") (auto simp: delegation_fields_def neq_Nil_conv)
    then show ?thesis using True chop by (simp add: line_blocks_def shown_blocks_def)
  next
    case False
    then have "snd l \<noteq> BlankLine" by auto
    then show ?thesis using False apnic_blocks_shown [OF assms] by (simp add: line_blocks_def chop Let_def)
  qed
  show "NL \<notin> set (ended_line l)" using show_line_free [OF assms(1)] by (simp add: ended_line_def)
qed

lemma handle_lines_sum:
  "sr_v4 (handle_lines env ls s) = sr_v4 s @ concat (map (\<lambda>l. fst (line_blocks env (sr_kind s) (sr_job s) l)) ls)"
  "sr_v6 (handle_lines env ls s) = sr_v6 s @ concat (map (\<lambda>l. snd (line_blocks env (sr_kind s) (sr_job s) l)) ls)"
  by (induction ls arbitrary: s) (simp_all add: handle_line_blocks add_blocks_def)

lemma split_on_lines:
  "\<forall>l \<in> set ls. c \<notin> set (f l) \<Longrightarrow> split_on c (concat (map (\<lambda>l. f l @ [c]) ls) @ t) = map f ls @ split_on c t"
  by (induction ls) (simp_all add: split_on_append)

lemma split_file:
  assumes "\<forall>l \<in> set ls. NL \<notin> set (ended_line l)"
  shows "split_on NL (file_of ended ls) = map ended_line ls @ (if ended \<or> ls = [] then [[]] else [])"
proof (cases "ended \<or> ls = []")
  case True
  then show ?thesis using split_on_lines [of ls NL ended_line "[]"] assms by (auto simp: file_of_def)
next
  case False
  then obtain ms m where ls: "ls = ms @ [m]" by (metis append_butlast_last_id)
  then have "file_of ended ls = concat (map (\<lambda>l. ended_line l @ [NL]) ms) @ ended_line m"
    using False by (simp add: file_of_def butlast_append)
  then show ?thesis using split_on_lines [of ms NL ended_line "ended_line m"] assms ls False
    by (simp add: str_simps)
qed

lemma file_blocks:
  assumes "list_all (\<lambda>l. line_ok (snd l)) ls" and "letters_ok job"
  shows "concat (map (\<lambda>l. fst (line_blocks env ApnicDelegated job l)) (split_on NL (file_of ended ls))) =
    concat (map (\<lambda>d. fst (record_blocks env job d)) (records_of ls))"
proof -
  have "line_blocks env ApnicDelegated job [] = ([], [])" by (simp add: line_blocks_def chop_cr_def)
  moreover have "\<forall>l \<in> set ls. NL \<notin> set (ended_line l)" using assms line_blocks_shown(2) by (auto simp: list_all_iff)
  moreover have "concat (map (\<lambda>l. fst (line_blocks env ApnicDelegated job (ended_line l))) ls) =
      concat (map (\<lambda>d. fst (record_blocks env job d)) (records_of ls))"
    using assms(1)
    by (induction ls)
      (auto simp: records_of_def line_blocks_shown(1) [OF _ assms(2)] shown_blocks_def split: registry_line.splits)
  ultimately show ?thesis by (simp add: split_file comp_def)
qed

text \<open>
  The last address, \<open>start + count - 1\<close>, is computed with 64 bits. Up to a count of 2^64 - 2^32 it does not wrap
  around, for any start; above, it can (\<open>delegation_count_wraps\<close>), although no block of IPv4 addresses is that large.
\<close>

definition count_ok :: "delegation \<Rightarrow> bool" where
  "count_ok d \<longleftrightarrow> (case parse_u64 (dg_value d) of None \<Rightarrow> True | Some n \<Rightarrow> n \<le> 2 ^ 64 - 2 ^ 32)"

lemma delegated_v4_interval:
  assumes "parse_u64 cnt = Some n" and "n \<le> 2 ^ 64 - 2 ^ 32"
  shows "delegated_v4 env ip cnt = Some (a, b) \<longleftrightarrow>
    parse_v4_addr (pton4 env) ip = Some a \<and> 0 < n \<and> unat a + n \<le> 2 ^ 32 \<and> unat b = unat a + n - 1"
proof (cases "parse_v4_addr (pton4 env) ip")
  case (Some c)
  define m where "m = unat c + n - 1"
  have "unat c < 2 ^ 32" using unsigned_less [of c] by simp
  then have m64: "m mod 2 ^ 64 = m" using assms(2) by (simp add: m_def)
  have eq: "delegated_v4 env ip cnt = (if n = 0 then None else if m > 0xFFFFFFFF then None else Some (c, word_of_nat m))"
    unfolding delegated_v4_def Some assms(1) option.case m_def [symmetric] Let_def m64 ..
  have word: "word_of_nat m = b \<longleftrightarrow> unat b = m" if "m \<le> 0xFFFFFFFF" for b :: u32
    using that by (auto simp: unat_of_nat take_bit_nat_eq_self)
  have fits: "m \<le> 0xFFFFFFFF \<longleftrightarrow> unat c + n \<le> 2 ^ 32" if "0 < n" using that by (auto simp: m_def)
  show ?thesis
  proof (cases "0 < n \<and> m \<le> 0xFFFFFFFF")
    case True
    then show ?thesis unfolding eq Some using word [of b] fits m_def by auto
  next
    case False
    then show ?thesis unfolding eq Some using fits by auto
  qed
qed (simp add: delegated_v4_def)

text \<open>From 0.0.0.11 on, 2^64 - 1 addresses: the sum wraps around, and an interval that ends before its start is kept.\<close>

lemma delegation_count_wraps:
  assumes "parse_v4_addr (pton4 env) ip = Some 11" and "parse_u64 cnt = Some (2 ^ 64 - 1)"
  shows "delegated_v4 env ip cnt = Some (11, 9)"
  using assms by (simp add: delegated_v4_def)

text \<open>The addresses a record delegates to the country.\<close>

definition delegates :: "pton_env \<Rightarrow> job \<Rightarrow> delegation \<Rightarrow> u32 \<Rightarrow> bool" where
  "delegates env job d x \<longleftrightarrow>
     dg_cc d = [jb_cc0 job, jb_cc1 job] \<and> dg_status d \<in> {''allocated'', ''assigned''} \<and> dg_type d = ''ipv4'' \<and>
     jb_want_v4 job \<and>
     (\<exists>a n. parse_v4_addr (pton4 env) (dg_start d) = Some a \<and> parse_u64 (dg_value d) = Some n \<and>
        unat a + n \<le> 2 ^ 32 \<and> unat a \<le> unat x \<and> unat x < unat a + n)"

lemma record_blocks_v4:
  assumes "count_ok d" and "(a, b) \<in> set (fst (record_blocks env job d))"
  shows "a \<le> b" and "delegates env job d x \<longleftrightarrow> a \<le> x \<and> x \<le> b"
proof -
  obtain n where n: "parse_u64 (dg_value d) = Some n"
    using assms(2) by (auto simp: record_blocks_def of_v4_def of_v6_def delegated_v4_def split: if_splits option.splits)
  have le: "n \<le> 2 ^ 64 - 2 ^ 32" using assms(1) n by (simp add: count_ok_def)
  have rel: "dg_cc d = [jb_cc0 job, jb_cc1 job]" "dg_status d \<in> {''allocated'', ''assigned''}" "dg_type d = ''ipv4''"
      "jb_want_v4 job" and "delegated_v4 env (dg_start d) (dg_value d) = Some (a, b)"
    using assms(2) by (auto simp: record_blocks_def of_v4_def of_v6_def split: if_splits option.splits)
  then have ab: "parse_v4_addr (pton4 env) (dg_start d) = Some a" "0 < n" "unat a + n \<le> 2 ^ 32" "unat b = unat a + n - 1"
    by (simp_all add: delegated_v4_interval [OF n le])
  show "a \<le> b" using ab by (simp add: word_le_nat_alt)
  have "delegates env job d x \<longleftrightarrow> unat a \<le> unat x \<and> unat x < unat a + n"
    using rel ab n by (auto simp: delegates_def)
  then show "delegates env job d x \<longleftrightarrow> a \<le> x \<and> x \<le> b"
    using ab by (auto simp: word_le_nat_alt)
qed

lemma delegates_block:
  assumes "delegates env job d x"
  shows "fst (record_blocks env job d) \<noteq> []"
proof -
  obtain a n where "parse_v4_addr (pton4 env) (dg_start d) = Some a" and n: "parse_u64 (dg_value d) = Some n"
    and le: "unat a + n \<le> 2 ^ 32" "unat a \<le> unat x" "unat x < unat a + n"
    using assms by (auto simp: delegates_def)
  moreover obtain m where m: "m = unat a + n - 1" by blast
  moreover have "unat (word_of_nat m :: u32) = m"
    using le m by (subst unat_of_nat) (simp add: take_bit_nat_eq_self)
  ultimately have "delegated_v4 env (dg_start d) (dg_value d) = Some (a, word_of_nat m)"
    using le by (subst delegated_v4_interval [OF n]) auto
  then show ?thesis using assms by (auto simp: record_blocks_def of_v4_def delegates_def)
qed

text \<open>
  C25. From a delegation file to address blocks: take any file of the exchange format, with its version line,
  summaries, comments, empty lines and records, with or without CR and with or without the last line end.
  However its download is cut and for a country whose two letters are no bars, the intervals it leaves, when merged, cover exactly the IPv4 addresses its records
  allocate or assign to the country, in separate ascending blocks. The counts are at most 2^64 - 2^32: with a larger one the
  last address can wrap around (\<open>delegation_count_wraps\<close>).
\<close>

theorem delegation_covers:
  assumes "list_all (\<lambda>l. line_ok (snd l)) ls" and "list_all count_ok (records_of ls)" and "letters_ok (sr_job s)"
    and "concat ps = file_of ended ls" and "sr_kind s = ApnicDelegated" and "sr_streaming s" and "sr_buf s = []"
    and "sr_v4 s = []" and "download env ps s = Some s'"
  shows "points (merge_v4 (sr_v4 (finish env s'))) = {x. list_ex (\<lambda>d. delegates env (sr_job s) d x) (records_of ls)} \<and>
    separated (merge_v4 (sr_v4 (finish env s')))"
proof -
  define ds where "ds = records_of ls"
  let ?v = "concat (map (\<lambda>d. fst (record_blocks env (sr_job s) d)) ds)"
  have "finish env s' = (handle_lines env (split_on NL (concat ps)) s)\<lparr>sr_total_bytes := sr_total_bytes s + length (concat ps)\<rparr>"
    using finish_download assms(6,7,9) by blast
  then have v: "sr_v4 (finish env s') = ?v"
    using file_blocks [OF assms(1,3)] assms(4,5,8) by (simp add: handle_lines_sum ds_def)
  note counts = assms(2) [folded ds_def]
  have "\<forall>(a, b) \<in> set ?v. a \<le> b" using counts record_blocks_v4(1) by (fastforce simp: list_all_iff)
  moreover have "points ?v = {x. list_ex (\<lambda>d. delegates env (sr_job s) d x) ds}"
  proof (intro set_eqI iffI)
    fix x assume "x \<in> points ?v"
    then obtain d a b where "d \<in> set ds" "(a, b) \<in> set (fst (record_blocks env (sr_job s) d))" "a \<le> x" "x \<le> b"
      by (auto simp: points_def)
    then show "x \<in> {x. list_ex (\<lambda>d. delegates env (sr_job s) d x) ds}"
      using counts record_blocks_v4(2) by (fastforce simp: list_ex_iff list_all_iff)
  next
    fix x assume "x \<in> {x. list_ex (\<lambda>d. delegates env (sr_job s) d x) ds}"
    then obtain d where d: "d \<in> set ds" "delegates env (sr_job s) d x" by (auto simp: list_ex_iff)
    obtain a b where ab: "(a, b) \<in> set (fst (record_blocks env (sr_job s) d))"
      using delegates_block [OF d(2)] by (metis list.set_intros(1) list.exhaust surj_pair)
    moreover have "count_ok d" using counts d(1) by (simp add: list_all_iff)
    ultimately have "a \<le> x \<and> x \<le> b" using record_blocks_v4(2) d(2) by blast
    then show "x \<in> points ?v" using ab d(1) by (auto simp: points_def)
  qed
  ultimately show ?thesis using merge_v4_spec [of ?v] v by (simp_all add: ds_def)
qed


text \<open>The file of the program's own example (lines 2825 to 2834), cut in the middle of a line.\<close>

definition pton_example :: pton_env where
  "pton_example = \<lparr>pton4 = (\<lambda>s. if s = ''27.34.0.0'' then Some 0x1B220000 else if s = ''103.1.92.0'' then Some 0x67015C00
       else if s = ''1.6.0.0'' then Some 0x01060000 else if s = ''202.79.32.0'' then Some 0xCA4F2000
       else if s = ''202.166.192.0'' then Some 0xCAA6C000 else None),
     pton6 = (\<lambda>s. None)\<rparr>"

definition source_example :: source where
  "source_example = \<lparr>sr_kind = ApnicDelegated,
     sr_job = \<lparr>jb_cc0 = CHR ''N'', jb_cc1 = CHR ''P'', jb_want_v4 = True, jb_want_v6 = True\<rparr>,
     sr_streaming = True, sr_cap = 4096, sr_total_bytes = 0, sr_aborted = None, sr_not_attributed = False,
     sr_buf = [], sr_v4 = [], sr_v6 = []\<rparr>"

definition delegation :: "string \<Rightarrow> string \<Rightarrow> string \<Rightarrow> string \<Rightarrow> string \<Rightarrow> delegation" where
  "delegation cc ip n date st = \<lparr>dg_registry = ''apnic'', dg_cc = cc, dg_type = ''ipv4'', dg_start = ip, dg_value = n,
     dg_date = date, dg_status = st, dg_more = []\<rparr>"

definition lines_example :: "(bool \<times> registry_line) list" where
  "lines_example = [
     (False, VersionLine ''2'' ''apnic'' [''20260919'', ''9999'', ''19830613'', ''20260918'', ''+1000'']),
     (False, SummaryLine ''apnic'' ''ipv4'' ''9999''),
     (False, RecordLine (delegation ''NP'' ''27.34.0.0'' ''32768'' ''20100322'' ''allocated'')),
     (False, RecordLine (delegation ''IN'' ''1.6.0.0'' ''65536'' ''20100322'' ''allocated'')),
     (True, RecordLine (delegation ''NP'' ''103.1.92.0'' ''1024'' ''20110316'' ''assigned'')),
     (False, RecordLine (delegation ''NP'' ''202.79.32.0'' ''8192'' ''20100629'' ''reserved'')),
     (False, RecordLine ((delegation ''NP'' ''2405:8d40::'' ''32'' ''20120523'' ''allocated'')\<lparr>dg_type := ''ipv6''\<rparr>)),
     (False, RecordLine (delegation ''NP'' ''202.166.192.0'' ''4096'' ''20100629'' ''allocated''))]"

definition chunks_example :: "string list" where
  "chunks_example = [take 70 (file_of False lines_example), drop 70 (file_of False lines_example)]"

lemma file_example:
  "file_of False lines_example =
     ''2|apnic|20260919|9999|19830613|20260918|+1000'' @ [NL] @ ''apnic|*|ipv4|*|9999|summary'' @ [NL] @
     ''apnic|NP|ipv4|27.34.0.0|32768|20100322|allocated'' @ [NL] @ ''apnic|IN|ipv4|1.6.0.0|65536|20100322|allocated'' @ [NL] @
     ''apnic|NP|ipv4|103.1.92.0|1024|20110316|assigned'' @ [CHR 0x0D, NL] @
     ''apnic|NP|ipv4|202.79.32.0|8192|20100629|reserved'' @ [NL] @
     ''apnic|NP|ipv6|2405:8d40::|32|20120523|allocated'' @ [NL] @
     ''apnic|NP|ipv4|202.166.192.0|4096|20100629|allocated''"
  by code_simp

lemma split_on_shorter: "l \<in> set (split_on c s) \<Longrightarrow> length l \<le> length s"
  by (induction s arbitrary: l) (fastforce split: list.splits if_splits)+

lemma lines_example_ok:
  "list_all (\<lambda>l. line_ok (snd l)) lines_example" "concat chunks_example = file_of False lines_example"
  "length (concat chunks_example) \<le> 4096"
  "list_all (\<lambda>l. length l \<le> kMaxLine) (split_on NL (concat chunks_example))"
proof -
  show ok: "list_all (\<lambda>l. line_ok (snd l)) lines_example" by code_simp
  show c: "concat chunks_example = file_of False lines_example" by (simp add: chunks_example_def)
  show len: "length (concat chunks_example) \<le> 4096" unfolding c file_example by simp
  have "(4096 :: nat) \<le> kMaxLine" by (simp add: kMaxLine_def)
  then have "length l \<le> kMaxLine" if "l \<in> set (split_on NL (concat chunks_example))" for l
    using split_on_shorter [OF that] len by linarith
  then show "list_all (\<lambda>l. length l \<le> kMaxLine) (split_on NL (concat chunks_example))"
    unfolding list_all_iff by blast
qed

lemma lines_example_counts: "list_all count_ok (records_of lines_example)"
  by (simp add: records_of_def lines_example_def delegation_def count_ok_def parse_u64_def digits_value_def is_digit_def digit_value_def)

theorem chunks_do_not_matter_witness:
  "\<exists>s'. download pton_example chunks_example source_example = Some s' \<and>
     finish pton_example s' = (handle_lines pton_example (split_on NL (concat chunks_example)) source_example)
       \<lparr>sr_total_bytes := length (concat chunks_example)\<rparr>"
proof -
  have s: "sr_streaming source_example" "sr_buf source_example = []" by (simp_all add: source_example_def)
  have "download pton_example chunks_example source_example \<noteq> None"
    using chunks_do_not_matter [OF s, of pton_example chunks_example] lines_example_ok(3,4)
    by (simp add: source_example_def del: concat.simps)
  then show ?thesis using chunks_do_not_matter [OF s, of pton_example chunks_example]
    by (auto simp: source_example_def simp del: concat.simps)
qed

theorem delegation_covers_witness:
  "\<exists>s'. download pton_example chunks_example source_example = Some s' \<and>
     0x67015CFF \<in> points (merge_v4 (sr_v4 (finish pton_example s'))) \<and>
     0xCAA6C000 \<in> points (merge_v4 (sr_v4 (finish pton_example s'))) \<and>
     0xCA4F2000 \<notin> points (merge_v4 (sr_v4 (finish pton_example s')))"
proof -
  have "sr_streaming source_example" "sr_buf source_example = []" by (simp_all add: source_example_def)
  then obtain s' where s': "download pton_example chunks_example source_example = Some s'"
    using download_ends [of source_example chunks_example pton_example] lines_example_ok(3,4)
    by (auto simp: source_example_def list_all_iff simp del: concat.simps)
  have "letters_ok (sr_job source_example)" by (simp add: letters_ok_def source_example_def)
  then have "points (merge_v4 (sr_v4 (finish pton_example s'))) =
      {x. list_ex (\<lambda>d. delegates pton_example (sr_job source_example) d x) (records_of lines_example)}"
    using delegation_covers [OF lines_example_ok(1) lines_example_counts _ lines_example_ok(2) _ _ _ _ s']
    by (simp add: source_example_def del: concat.simps)
  moreover have "list_ex (\<lambda>d. delegates pton_example (sr_job source_example) d 0x67015CFF) (records_of lines_example)"
    and "list_ex (\<lambda>d. delegates pton_example (sr_job source_example) d 0xCAA6C000) (records_of lines_example)"
    and "\<not> list_ex (\<lambda>d. delegates pton_example (sr_job source_example) d 0xCA4F2000) (records_of lines_example)"
    by (simp_all add: records_of_def lines_example_def delegation_def delegates_def source_example_def pton_example_def
        parse_v4_addr_def c_str_def parse_u64_def digits_value_def is_digit_def digit_value_def)
  ultimately show ?thesis using s' by auto
qed

end
