(* ===== verification/Http_Text.thy ===== *)
theory Http_Text
  imports Registry Port_List
begin

text \<open>
  The texts of HTTP on both sides: what the web front end reads and writes (src/server.cpp, lines 149 to 321,
  571 to 617 and 870 to 877) and what the version probe reads of a response (src/control.cpp, lines 292 to
  471 and 2049 to 2100). Bytes are characters; a hash map whose order is never used is a function to options.
\<close>

section \<open>Tokens and escapes\<close>

abbreviation CR :: char where
  "CR \<equiv> CHR 0x0D"

definition byte_of :: "char \<Rightarrow> u8" where
  "byte_of c = of_nat (code c)"

definition tokens_match :: "string \<Rightarrow> string \<Rightarrow> bool" where
  "tokens_match a b \<longleftrightarrow>
     a \<noteq> [] \<and> b \<noteq> [] \<and> length a = length b \<and>
     fold (\<lambda>(x, y) diff. or diff (xor (byte_of x) (byte_of y))) (zip a b) 0 = 0"

definition to_lower :: "string \<Rightarrow> string" where
  "to_lower s = map lower_ascii s"

definition escape_char :: "char \<Rightarrow> string" where
  "escape_char c =
     (if c = CHR ''&'' then ''&amp;''
      else if c = CHR ''<'' then ''&lt;''
      else if c = CHR ''>'' then ''&gt;''
      else if c = CHR 0x22 then ''&quot;''
      else [c])"

definition html_escape :: "string \<Rightarrow> string" where
  "html_escape s = concat (map escape_char s)"

definition hexval :: "char \<Rightarrow> nat option" where
  "hexval c =
     (if 48 \<le> code c \<and> code c \<le> 57 then Some (code c - 48)
      else if 97 \<le> code c \<and> code c \<le> 102 then Some (code c - 97 + 10)
      else if 65 \<le> code c \<and> code c \<le> 70 then Some (code c - 65 + 10)
      else None)"

definition hex_pair :: "string \<Rightarrow> nat option" where
  "hex_pair s =
     (case s of
        h # l # _ \<Rightarrow> (case (hexval h, hexval l) of (Some hi, Some lo) \<Rightarrow> Some (hi * 16 + lo) | _ \<Rightarrow> None)
      | _ \<Rightarrow> None)"

function url_decode :: "string \<Rightarrow> string" where
  "url_decode [] = []"
| "url_decode (c # s) =
     (case (if c = CHR ''%'' then hex_pair s else None) of
        Some v \<Rightarrow> char_of v # url_decode (drop 2 s)
      | None \<Rightarrow> (if c = CHR ''+'' then CHR '' '' else c) # url_decode s)"
  by pat_completeness auto

termination
  by (relation "measure length") auto

section \<open>Queries and cookies\<close>

definition query_pair :: "string \<Rightarrow> (string \<Rightarrow> string option) \<Rightarrow> string \<Rightarrow> string option" where
  "query_pair pair out =
     (case find_char CHR ''='' pair of
        Some eq \<Rightarrow> out(url_decode (substr pair 0 eq) \<mapsto> url_decode (substr_from pair (eq + 1)))
      | None \<Rightarrow> if pair \<noteq> [] then out(url_decode pair \<mapsto> []) else out)"

definition parse_query :: "string \<Rightarrow> string \<Rightarrow> string option" where
  "parse_query q = fold query_pair (tokens_from CHR ''&'' q 0) (\<lambda>_. None)"

definition cookie_pair :: "string \<Rightarrow> (string \<Rightarrow> string option) \<Rightarrow> string \<Rightarrow> string option" where
  "cookie_pair pair out =
     (case find_char CHR ''='' pair of
        Some eq \<Rightarrow>
          (let k = trim_pad (substr pair 0 eq); v = trim_pad (substr_from pair (eq + 1))
           in if k \<noteq> [] \<and> v \<noteq> [] then out(k \<mapsto> v) else out)
      | None \<Rightarrow> out)"

definition parse_cookies :: "string \<Rightarrow> string \<Rightarrow> string option" where
  "parse_cookies header = fold cookie_pair (getline_tokens CHR '';'' header) (\<lambda>_. None)"

section \<open>Command lines\<close>

datatype tok_err = UnterminatedSingle | UnterminatedDouble | EmbeddedNul

definition is_tok_blank :: "char \<Rightarrow> bool" where
  "is_tok_blank c \<longleftrightarrow> c = CHR '' '' \<or> c = CHR 0x09 \<or> c = CR \<or> c = NL"

text \<open>Inside double quotes: the token with what was read, and the rest after the closing quote.\<close>

function dquote :: "string \<Rightarrow> string \<Rightarrow> (string \<times> string) option" where
  "dquote cur [] = None"
| "dquote cur (c # s) =
     (if c = CHR 0x22 then Some (cur, s)
      else if c = CHR 0x5C \<and> s \<noteq> [] \<and> (hd s = CHR 0x22 \<or> hd s = CHR 0x5C) then dquote (cur @ [hd s]) (tl s)
      else dquote (cur @ [c]) s)"
  by pat_completeness auto

termination
  by (relation "measure (\<lambda>(cur, s). length s)") auto

lemma dquote_shorter: "dquote cur s = Some (cur', t) \<Longrightarrow> length t < length s"
  by (induction cur s rule: dquote.induct) (fastforce split: if_splits)+

function tokenize_from :: "string \<Rightarrow> bool \<Rightarrow> string list \<Rightarrow> string \<Rightarrow> tok_err + string list" where
  "tokenize_from cur in_token out [] = Inr (if in_token then out @ [cur] else out)"
| "tokenize_from cur in_token out (c # s) =
     (if is_tok_blank c
      then (if in_token then tokenize_from [] False (out @ [cur]) s else tokenize_from cur in_token out s)
      else if c = CHR 0x27
      then (let q = takeWhile (\<lambda>c. c \<noteq> CHR 0x27) s
            in if length q \<ge> length s then Inl UnterminatedSingle
               else tokenize_from (cur @ q) True out (drop (length q + 1) s))
      else if c = CHR 0x22
      then (case dquote cur s of
              None \<Rightarrow> Inl UnterminatedDouble
            | Some (cur, rest) \<Rightarrow> tokenize_from cur True out rest)
      else if c = CHR 0x00 then Inl EmbeddedNul
      else tokenize_from (cur @ [c]) True out s)"
  by pat_completeness auto

termination
  by (relation "measure (\<lambda>(cur, t, out, s). length s)") (auto dest: dquote_shorter)

definition tokenize_command :: "string \<Rightarrow> tok_err + string list" where
  "tokenize_command s = tokenize_from [] False [] s"

section \<open>Requests\<close>

record http_request =
  rq_method :: string
  rq_path :: string
  rq_query :: string
  rq_headers :: "string \<Rightarrow> string option"
  rq_body :: string

definition header_value :: "http_request \<Rightarrow> string \<Rightarrow> string" where
  "header_value req nm = (case rq_headers req nm of Some v \<Rightarrow> v | None \<Rightarrow> [])"

text \<open>What \<open>stream >> word\<close> extracts, one after the other.\<close>

function ws_words :: "string \<Rightarrow> string list" where
  "ws_words s =
     (let s = dropWhile is_space s; w = takeWhile (\<lambda>c. \<not> is_space c) s
      in if w = [] then [] else w # ws_words (drop (length w) s))"
  by pat_completeness auto

termination
proof (relation "measure length", goal_cases)
  case (2 s t w)
  have "0 < length w" using 2(3) by simp
  moreover have "length w \<le> length t" using 2(2) by (simp add: length_takeWhile_le)
  ultimately have "length (drop (length w) t) < length t" unfolding length_drop by linarith
  then show ?case using 2(1) length_dropWhile_le [of is_space s] by simp
qed simp

declare ws_words.simps [simp del]

definition request_header :: "string \<Rightarrow> (string \<Rightarrow> string option) \<Rightarrow> string \<Rightarrow> string option" where
  "request_header line hs =
     (let line = chop_cr line in
      case find_char CHR '':'' line of
        None \<Rightarrow> hs
      | Some colon \<Rightarrow>
          hs(to_lower (substr line 0 colon) \<mapsto> dropWhile (\<lambda>c. c = CHR '' '') (substr_from line (colon + 1))))"

definition parse_request :: "string \<Rightarrow> nat \<Rightarrow> http_request option" where
  "parse_request raw header_end =
     (case getline_tokens NL (substr raw 0 header_end) of
        [] \<Rightarrow> None
      | line # lines \<Rightarrow>
          (case ws_words (chop_cr line) of
             m # target # version # _ \<Rightarrow>
               (let (path, query) = (case find_char CHR ''?'' target of
                      None \<Rightarrow> (target, [])
                    | Some qpos \<Rightarrow> (substr target 0 qpos, substr_from target (qpos + 1)))
                in Some \<lparr>rq_method = m, rq_path = path, rq_query = query,
                     rq_headers = fold request_header lines (\<lambda>_. None), rq_body = []\<rparr>)
           | _ \<Rightarrow> None))"

section \<open>Chunks\<close>

fun show_hex :: "nat \<Rightarrow> string" where
  "show_hex n =
     (let d = (\<lambda>k. char_of (if k < 10 then 48 + k else 87 + k) :: char)
      in if n < 16 then [d n] else show_hex (n div 16) @ [d (n mod 16)])"

declare show_hex.simps [simp del]

definition make_chunk :: "string \<Rightarrow> string" where
  "make_chunk data = show_hex (length data) @ [CR, NL] @ data @ [CR, NL]"

text \<open>\<open>strtoul(s, &endptr, base)\<close>: \<open>None\<close> without a conversion, \<open>ULONG_MAX\<close> when out of range.\<close>

definition strtoul :: "nat \<Rightarrow> string \<Rightarrow> nat option" where
  "strtoul base s =
     (case stoul base (c_str s) of
        Inl InvalidArgument \<Rightarrow> None
      | Inl OutOfRange \<Rightarrow> Some (2 ^ 64 - 1)
      | Inr (v, used) \<Rightarrow> Some v)"

definition size_field :: "string \<Rightarrow> string" where
  "size_field line =
     (let f = (case find_char CHR '';'' line of Some semi \<Rightarrow> take semi line | None \<Rightarrow> line)
      in rev (dropWhile is_space (rev f)))"

text \<open>
  The loop of \<open>dechunk_body\<close> from \<open>pos\<close> on. \<open>data_start + chunk_size\<close> is computed modulo \<open>2 ^ 64\<close>;
  \<open>None\<close> is the insertion of a range that ends before it starts.
\<close>

function dechunk_from :: "string \<Rightarrow> nat \<Rightarrow> string \<Rightarrow> string option" where
  "dechunk_from body pos out =
     (if pos \<ge> length body then Some out
      else case find_from [CR, NL] body pos of
        None \<Rightarrow> Some out
      | Some line_end \<Rightarrow>
          (case strtoul 16 (size_field (substr body pos (line_end - pos))) of
             None \<Rightarrow> Some out
           | Some chunk_size \<Rightarrow>
               (let data_start = line_end + 2 in
                if chunk_size = 0 then Some out
                else if (data_start + chunk_size) mod 2 ^ 64 > length body
                then Some (out @ drop data_start body)
                else if data_start + chunk_size \<ge> 2 ^ 64 then None
                else let out = out @ substr body data_start chunk_size;
                         pos = data_start + chunk_size;
                         pos = (if take 2 (drop pos body) = [CR, NL] then pos + 2 else pos)
                     in dechunk_from body pos out)))"
  by pat_completeness auto

termination
proof (relation "measure (\<lambda>(body, pos, out). length body - pos)", goal_cases)
  case (2 body pos out line_end chunk_size data_start out' p p')
  have "pos \<le> line_end" using find_from_Some(1) 2(2) by blast
  then have "pos < p'" using 2(4-) by (auto split: if_splits)
  then show ?case using 2(1) by auto
qed simp

declare dechunk_from.simps [simp del]

definition dechunk_body :: "string \<Rightarrow> string option" where
  "dechunk_body body = dechunk_from body 0 []"

section \<open>Responses\<close>

definition header_block :: "string \<Rightarrow> string" where
  "header_block resp =
     (let s = take 8192 resp; cap = length s;
          header_end = (case find_from [CR, NL, CR, NL] s 0 of Some i \<Rightarrow> i + 4 | None \<Rightarrow> cap);
          header_end = (if header_end = cap
            then (case find_from [NL, NL] s 0 of Some i \<Rightarrow> i + 2 | None \<Rightarrow> cap) else header_end)
      in take header_end s)"

definition next_line :: "string \<Rightarrow> string \<times> string" where
  "next_line s =
     (let line = takeWhile (\<lambda>c. c \<noteq> CR \<and> c \<noteq> NL) s;
          s = drop (length line) s;
          s = (if s \<noteq> [] \<and> hd s = CR then tl s else s);
          s = (if s \<noteq> [] \<and> hd s = NL then tl s else s)
      in (line, s))"

lemma next_line_shorter: "next_line s = (line, t) \<Longrightarrow> line \<noteq> [] \<Longrightarrow> length t < length s"
  by (cases s) (auto simp: next_line_def Let_def split: if_splits)

text \<open>The lines up to the first empty one, after the status line was skipped.\<close>

function header_lines :: "string \<Rightarrow> string list" where
  "header_lines s =
     (case next_line s of (line, rest) \<Rightarrow> if line = [] then [] else line # header_lines rest)"
  by pat_completeness auto

termination
  by (relation "measure length") (auto dest: next_line_shorter [OF sym])

declare header_lines.simps [simp del]

definition header_field :: "string \<Rightarrow> (string \<times> string) option" where
  "header_field line =
     (case find_char CHR '':'' line of
        None \<Rightarrow> None
      | Some colon \<Rightarrow> Some (to_lower (substr line 0 colon), trim_pad (substr_from line (colon + 1))))"

fun first_field :: "string \<Rightarrow> string list \<Rightarrow> string" where
  "first_field needle [] = []"
| "first_field needle (line # lines) =
     (case header_field line of
        Some (nm, v) \<Rightarrow> if nm = needle then v else first_field needle lines
      | None \<Rightarrow> first_field needle lines)"

definition extract_header :: "string \<Rightarrow> string \<Rightarrow> string" where
  "extract_header resp field_name =
     first_field (to_lower field_name) (header_lines (snd (next_line (header_block resp))))"

definition dup_entry :: "string \<Rightarrow> string \<Rightarrow> string \<Rightarrow> string" where
  "dup_entry nm old v = nm @ '': '' @ [CHR 0x22] @ old @ [CHR 0x22] @ '' | '' @ [CHR 0x22] @ v @ [CHR 0x22]"

definition collect_line :: "string \<Rightarrow> (string \<Rightarrow> string option) \<times> string list \<Rightarrow> (string \<Rightarrow> string option) \<times> string list" where
  "collect_line line acc =
     (case acc of (headers, dups) \<Rightarrow>
        (case header_field line of
           None \<Rightarrow> (headers, dups)
         | Some (nm, v) \<Rightarrow>
             (case headers nm of
                None \<Rightarrow> (headers(nm \<mapsto> v), dups)
              | Some old \<Rightarrow>
                  (headers,
                   if old \<noteq> v \<and> nm \<noteq> ''set-cookie'' \<and> dup_entry nm old v \<notin> set dups
                   then dups @ [dup_entry nm old v] else dups))))"

definition collect_all_headers :: "string \<Rightarrow> (string \<Rightarrow> string option) \<times> string list" where
  "collect_all_headers resp =
     fold collect_line (header_lines (snd (next_line (header_block resp)))) (\<lambda>_. None, [])"

definition extract_status_line :: "string \<Rightarrow> string" where
  "extract_status_line resp =
     (let s = take 256 resp in
      case find_from [CR, NL] s 0 of
        Some pos \<Rightarrow> take pos s
      | None \<Rightarrow> (case find_char NL s of Some pos \<Rightarrow> take pos s | None \<Rightarrow> s))"

definition extract_status_code :: "string \<Rightarrow> nat" where
  "extract_status_code resp =
     (if length resp < 12 then 0
      else if take 5 resp \<noteq> ''HTTP/'' then 0
      else if \<not> is_digit (resp ! 9) \<or> \<not> is_digit (resp ! 10) \<or> \<not> is_digit (resp ! 11) then 0
      else (code (resp ! 9) - 48) * 100 + (code (resp ! 10) - 48) * 10 + (code (resp ! 11) - 48))"

section \<open>Comparing tokens\<close>

lemma byte_of_eq: "byte_of x = byte_of y \<longleftrightarrow> x = y"
proof
  assume a: "byte_of x = byte_of y"
  have "unat (byte_of c) = code c" for c using nat_of_char_less_256 [of c] by (simp add: byte_of_def unat_of_nat)
  then have "code x = code y" using a by metis
  then show "x = y" by (simp add: of_char_eq_iff)
qed simp

lemma or_is_0: "or a b = 0 \<longleftrightarrow> a = 0 \<and> b = 0" for a b :: u8
  by (auto simp: bit_eq_iff bit_simps)

lemma differences:
  "fold (\<lambda>(x, y) diff. or diff (xor (byte_of x) (byte_of y))) xys d = 0 \<longleftrightarrow> d = 0 \<and> (\<forall>(x, y) \<in> set xys. x = y)"
proof (induction xys arbitrary: d)
  case (Cons xy xys)
  have "xor (byte_of x) (byte_of y) = 0 \<longleftrightarrow> x = y" for x y
    using byte_of_eq [of x y] by (metis bit.xor_self xor.assoc xor.left_neutral xor.right_neutral)
  with Cons.IH show ?case by (auto simp: or_is_0 split: prod.splits)
qed simp

text \<open>The comparison that takes the same time for every token of a length is equality.\<close>

lemma tokens_match_iff: "tokens_match a b \<longleftrightarrow> a \<noteq> [] \<and> a = b"
proof -
  have "length a = length b \<Longrightarrow> (\<forall>(x, y) \<in> set (zip a b). x = y) \<longleftrightarrow> a = b"
    by (induction a b rule: list_induct2) auto
  then show ?thesis by (auto simp: tokens_match_def differences)
qed

section \<open>Hexadecimal sizes\<close>

definition hex_digit :: "nat \<Rightarrow> char" where
  "hex_digit k = char_of (if k < 10 then 48 + k else 87 + k)"

lemma hex_digit_ends: "hex_digit 0 = CHR ''0''" "hex_digit 15 = CHR ''f''"
  by code_simp+

lemma show_hex_rec: "show_hex n = (if n < 16 then [hex_digit n] else show_hex (n div 16) @ [hex_digit (n mod 16)])"
  by (subst show_hex.simps) (simp add: hex_digit_def Let_def)

lemma code_hex_digit: "k < 16 \<Longrightarrow> code (hex_digit k) = (if k < 10 then 48 + k else 87 + k)"
  by (simp add: hex_digit_def of_char_of)

lemma hex_digit_facts:
  assumes "k < 16"
  shows "digit_value (hex_digit k) = Some k" and "is_digit_in 16 (hex_digit k)" and "\<not> is_space (hex_digit k)"
    and "hex_digit k \<notin> {CR, NL, CHR '';'', CHR ''-'', CHR ''+'', CHR ''x'', CHR ''X'', CHR 0x00}"
proof -
  note c = code_hex_digit [OF assms]
  show v: "digit_value (hex_digit k) = Some k" using assms by (simp add: digit_value_def c Let_def)
  show "is_digit_in 16 (hex_digit k)" using assms by (simp add: is_digit_in_def v)
  show "\<not> is_space (hex_digit k)" using assms by (auto simp: is_space_def c)
  show "hex_digit k \<notin> {CR, NL, CHR '';'', CHR ''-'', CHR ''+'', CHR ''x'', CHR ''X'', CHR 0x00}"
    using c assms by (auto split: if_splits)
qed

lemma show_hex_digits: "c \<in> set (show_hex n) \<Longrightarrow> \<exists>k<16. c = hex_digit k"
proof (induction n rule: show_hex.induct)
  case (1 n)
  show ?case
  proof (cases "n < 16")
    case True
    then show ?thesis using 1(2) by (auto simp: show_hex_rec [of n])
  next
    case False
    then have "c \<in> set (show_hex (n div 16)) \<or> c = hex_digit (n mod 16)" using 1(2) by (auto simp: show_hex_rec [of n])
    then show ?thesis
    proof
      assume "c = hex_digit (n mod 16)"
      then show ?thesis by (intro exI [of _ "n mod 16"]) simp
    qed (use False 1(1) in simp)
  qed
qed

lemma show_hex_Nil [simp]: "show_hex n \<noteq> []"
  by (simp add: show_hex_rec [of n])

lemma digits_value_show_hex: "digits_value 16 (show_hex n) = n"
proof (induction n rule: show_hex.induct)
  case (1 n)
  show ?case
  proof (cases "n < 16")
    case True
    then show ?thesis by (simp add: show_hex_rec [of n] digits_value_def hex_digit_facts(1))
  next
    case False
    then have "digits_value 16 (show_hex (n div 16)) = n div 16" using 1 by simp
    then show ?thesis using False by (simp add: show_hex_rec [of n] digits_value_def hex_digit_facts(1))
  qed
qed

lemma show_hex_chars:
  assumes "c \<in> set (show_hex n)"
  shows "is_digit_in 16 c" and "\<not> is_space c" and "c \<notin> {CR, NL, CHR '';'', CHR ''-'', CHR ''+'', CHR ''x'', CHR ''X'', CHR 0x00}"
proof -
  obtain k where k: "k < 16" "c = hex_digit k" using show_hex_digits [OF assms] by auto
  show "is_digit_in 16 c" and "\<not> is_space c" and "c \<notin> {CR, NL, CHR '';'', CHR ''-'', CHR ''+'', CHR ''x'', CHR ''X'', CHR 0x00}"
    unfolding k(2) by (rule hex_digit_facts [OF k(1)])+
qed

lemma strtoul_show_hex:
  assumes "n < 2 ^ 64"
  shows "strtoul 16 (show_hex n) = Some n"
proof -
  let ?s = "show_hex n"
  have c: "c_str ?s = ?s" using show_hex_chars(3) by (auto simp: c_str_def takeWhile_eq_all_conv)
  obtain a as where s: "?s = a # as" by (cases ?s) auto
  then have a: "a \<in> set ?s" by simp
  have ws: "takeWhile is_space ?s = []" using show_hex_chars(2) [OF a] s by simp
  have sg: "sign_prefix ?s = (False, 0)" using show_hex_chars(3) [OF a] s by (simp add: sign_prefix_def)
  have pre: "\<not> hex_prefix ?s"
    using show_hex_chars(3) [of _ n] by (auto simp: hex_prefix_def split: list.splits)
  have run: "takeWhile (is_digit_in 16) ?s = ?s" using show_hex_chars(1) by (simp add: takeWhile_eq_all_conv)
  have "strto 16 ?s = Some (False, n, length ?s)"
    by (simp add: strto_def ws sg base_prefix_def pre run digits_value_show_hex Let_def)
  then show ?thesis using assms by (simp add: strtoul_def c stoul_def)
qed

lemma size_field_show_hex: "size_field (show_hex n) = show_hex n"
proof -
  have "find_char CHR '';'' (show_hex n) = None" using show_hex_chars(3) by (auto simp: str_simps)
  moreover have "dropWhile is_space (rev (show_hex n)) = rev (show_hex n)"
    using show_hex_chars(2) [of "last (show_hex n)" n] by (cases "rev (show_hex n)") (auto simp: last_rev hd_rev)
  ultimately show ?thesis by (simp add: size_field_def)
qed

section \<open>Chunks are put together again\<close>

lemma find_from_line:
  assumes "CR \<notin> set h"
  shows "find_from [CR, NL] (pre @ h @ CR # NL # rest) (length pre) = Some (length pre + length h)"
proof -
  let ?s = "pre @ h @ CR # NL # rest"
  let ?xs = "[length pre..<length ?s + 1 - 2]" and ?P = "\<lambda>i. take 2 (drop i ?s) = [CR, NL]"
  have len: "length h < length ?xs" by simp
  have "?xs ! length h = length pre + length h" using len by (subst nth_upt) auto
  moreover have "?P (length pre + length h)" by simp
  moreover have "\<not> ?P (?xs ! j)" if "j < length h" for j
  proof -
    have j: "?xs ! j = length pre + j" using that by (subst nth_upt) auto
    have "hd (take 2 (drop (length pre + j) ?s)) = h ! j"
      using that by (simp add: hd_take hd_drop_conv_nth nth_append)
    moreover have "h ! j \<noteq> CR" using assms that nth_mem by metis
    ultimately show ?thesis unfolding j by auto
  qed
  ultimately have "\<exists>i<length ?xs. ?P (?xs ! i) \<and> length pre + length h = ?xs ! i \<and> (\<forall>j<i. \<not> ?P (?xs ! j))"
    using len by (intro exI [of _ "length h"]) simp
  then have "find ?P ?xs = Some (length pre + length h)" unfolding find_Some_iff .
  moreover have "length [CR, NL] = 2" by simp
  ultimately show ?thesis unfolding find_from_def by metis
qed

lemma dechunk_line:
  assumes "n < 2 ^ 64"
  shows "find_from [CR, NL] (pre @ show_hex n @ CR # NL # rest) (length pre) = Some (length pre + length (show_hex n))"
    and "strtoul 16 (size_field (substr (pre @ show_hex n @ CR # NL # rest) (length pre) (length (show_hex n)))) = Some n"
proof -
  have "CR \<notin> set (show_hex n)" using show_hex_chars(3) by blast
  then show "find_from [CR, NL] (pre @ show_hex n @ CR # NL # rest) (length pre) = Some (length pre + length (show_hex n))"
    by (rule find_from_line)
  show "strtoul 16 (size_field (substr (pre @ show_hex n @ CR # NL # rest) (length pre) (length (show_hex n)))) = Some n"
    by (simp add: substr_def size_field_show_hex strtoul_show_hex [OF assms])
qed

lemma dechunk_step:
  assumes "find_from [CR, NL] body pos = Some i" and "strtoul 16 (size_field (substr body pos (i - pos))) = Some n"
    and "0 < n" and "i + 2 + n \<le> length body" and "length body < 2 ^ 64"
    and "take 2 (drop (i + 2 + n) body) = [CR, NL]" and "pos < length body"
  shows "dechunk_from body pos out = dechunk_from body (i + 2 + n + 2) (out @ substr body (i + 2) n)"
proof -
  have "(i + 2 + n) mod 2 ^ 64 = i + 2 + n" using assms(4,5) by (intro mod_less) linarith
  then show ?thesis
    using assms(3-5,7) by (subst dechunk_from.simps) (simp only: assms(1,2,6) Let_def option.case not_le if_False if_True refl not_less; simp)
qed

lemma dechunk_chunk:
  assumes "d \<noteq> []" and "length (pre @ make_chunk d @ rest) < 2 ^ 64"
  shows "dechunk_from (pre @ make_chunk d @ rest) (length pre) out =
    dechunk_from (pre @ make_chunk d @ rest) (length (pre @ make_chunk d)) (out @ d)"
proof -
  define h body where "h = show_hex (length d)" and "body = pre @ make_chunk d @ rest"
  have body: "body = pre @ h @ CR # NL # (d @ CR # NL # rest)" by (simp add: make_chunk_def h_def body_def)
  have n: "length d < 2 ^ 64" using assms(2) by (simp add: make_chunk_def)
  have len: "length body < 2 ^ 64" using assms(2) by (simp add: body_def)
  have line: "find_from [CR, NL] body (length pre) = Some (length pre + length h)"
    "strtoul 16 (size_field (substr body (length pre) (length h))) = Some (length d)"
    unfolding body h_def by (rule dechunk_line [OF n])+
  have "dechunk_from body (length pre) out =
      dechunk_from body (length pre + length h + 2 + length d + 2) (out @ substr body (length pre + length h + 2) (length d))"
    by (rule dechunk_step [OF line(1)]) (use assms(1) len line(2) in \<open>simp_all add: body\<close>)
  moreover have "substr body (length pre + length h + 2) (length d) = d" by (simp add: body substr_def)
  moreover have "length pre + length h + 2 + length d + 2 = length (pre @ make_chunk d)" by (simp add: make_chunk_def h_def)
  ultimately show ?thesis unfolding body_def by metis
qed

lemma dechunk_end:
  assumes "body = pre @ show_hex 0 @ CR # NL # rest"
  shows "dechunk_from body (length pre) out = Some out"
  using dechunk_line [of 0 pre rest, folded assms] assms by (subst dechunk_from.simps) simp

lemma dechunk_chunks:
  assumes "\<forall>d \<in> set ds. d \<noteq> []" and "length (pre @ concat (map make_chunk ds) @ show_hex 0 @ [CR, NL, CR, NL]) < 2 ^ 64"
  shows "dechunk_from (pre @ concat (map make_chunk ds) @ show_hex 0 @ [CR, NL, CR, NL]) (length pre) out =
    Some (out @ concat ds)"
  using assms
proof (induction ds arbitrary: pre out)
  case Nil
  show ?case using dechunk_end [of _ pre "[CR, NL]"] by simp
next
  case (Cons d ds)
  let ?rest = "concat (map make_chunk ds) @ show_hex 0 @ [CR, NL, CR, NL]"
  have "dechunk_from (pre @ make_chunk d @ ?rest) (length pre) out =
      dechunk_from (pre @ make_chunk d @ ?rest) (length (pre @ make_chunk d)) (out @ d)"
    using Cons.prems by (intro dechunk_chunk) simp_all
  also have "\<dots> = Some ((out @ d) @ concat ds)"
    using Cons.IH [of "pre @ make_chunk d" "out @ d"] Cons.prems by simp
  finally show ?case by simp
qed

text \<open>A size close to \<open>2 ^ 64\<close> wraps past the check.\<close>

lemma dechunk_wraps: "dechunk_body (''ffffffffffffffff'' @ CR # NL # rest) = None"
proof -
  define n :: nat where "n = 2 ^ 64 - 1"
  have hex: "show_hex n = ''ffffffffffffffff''" by (simp add: n_def show_hex_rec hex_digit_ends)
  then have len: "length (show_hex n) = 16" by simp
  define body where "body = show_hex n @ CR # NL # rest"
  have "n < 2 ^ 64" by (simp add: n_def)
  from dechunk_line [OF this, of "[]" rest]
  have line: "find_from [CR, NL] body 0 = Some 16" "strtoul 16 (size_field (substr body 0 (16 - 0))) = Some n"
    by (simp_all only: len body_def append_Nil list.size(3) add_0 diff_zero)
  have "(16 + 2 + n) mod 2 ^ 64 = 17" and "n \<noteq> 0" and "16 + 2 + n \<ge> 2 ^ 64" by (simp_all add: n_def)
  moreover have "17 \<le> length body" "0 < length body" by (simp_all add: body_def len)
  ultimately have "dechunk_from body 0 [] = None"
    by (subst dechunk_from.simps) (simp only: line Let_def option.case not_le if_False if_True; simp)
  then show ?thesis unfolding dechunk_body_def body_def hex .
qed

section \<open>Quoted command lines\<close>

definition quote_char :: "char \<Rightarrow> string" where
  "quote_char c = (if c = CHR 0x22 \<or> c = CHR 0x5C then [CHR 0x5C, c] else [c])"

definition quote_arg :: "string \<Rightarrow> string" where
  "quote_arg a = CHR 0x22 # concat (map quote_char a) @ [CHR 0x22]"

lemma dquote_quoted: "dquote cur (concat (map quote_char a) @ CHR 0x22 # s) = Some (cur @ a, s)"
proof (induction a arbitrary: cur)
  case (Cons c a)
  then show ?case using Cons.IH [of "cur @ [c]"] by (simp add: quote_char_def)
qed simp

lemma tokenize_quoted: "tokenize_from cur False out (quote_arg a @ s) = tokenize_from (cur @ a) True out s"
  by (simp add: quote_arg_def is_tok_blank_def dquote_quoted)

lemma tokenize_quoted_list:
  "tokenize_from [] False out (join_with CHR '' '' (map quote_arg args)) = Inr (out @ args)"
proof (induction args arbitrary: out rule: induct_list012)
  case (2 a)
  show ?case using tokenize_quoted [of "[]" out a "[]"] by simp
next
  case (3 a b args)
  have "tokenize_from [] False out (join_with CHR '' '' (map quote_arg (a # b # args))) =
      tokenize_from [] False (out @ [a]) (join_with CHR '' '' (map quote_arg (b # args)))"
    using tokenize_quoted [of "[]" out a] by (simp add: is_tok_blank_def)
  then show ?case using 3(2) [of "out @ [a]"] by simp
qed simp

section \<open>Both readers of headers\<close>

lemma collect_line_kept: "fst acc k = Some v \<Longrightarrow> fst (fold collect_line lines acc) k = Some v"
proof (induction lines arbitrary: acc)
  case (Cons line lines)
  have "fst (collect_line line acc) k = Some v"
    using Cons.prems by (auto simp: collect_line_def split: prod.splits option.splits)
  then show ?case using Cons.IH by simp
qed simp

lemma collect_line_first:
  "fst acc k = None \<Longrightarrow>
    (case fst (fold collect_line lines acc) k of None \<Rightarrow> [] | Some v \<Rightarrow> v) = first_field k lines"
proof (induction lines arbitrary: acc)
  case (Cons line lines)
  consider "header_field line = None" | nm v where "header_field line = Some (nm, v)" by (cases "header_field line") auto
  then show ?case
  proof cases
    case 1
    then show ?thesis using Cons by (simp add: collect_line_def split: prod.splits)
  next
    case (2 nm v)
    show ?thesis
    proof (cases "nm = k")
      case True
      have "fst (collect_line line acc) k = Some v"
        using Cons.prems 2 True by (auto simp: collect_line_def split: prod.splits)
      then show ?thesis using collect_line_kept [of "collect_line line acc" k v lines] 2 True by simp
    next
      case False
      then have "fst (collect_line line acc) k = None"
        using Cons.prems 2 by (auto simp: collect_line_def split: prod.splits option.splits)
      then show ?thesis using Cons.IH [of "collect_line line acc"] 2 False by simp
    qed
  qed
qed simp

section \<open>Properties\<close>

text \<open>
  C33. What the web front end sends in chunks, the reader of the version probe puts together again: any
  non-empty pieces, each written as a chunk and closed by the last chunk, are read as their concatenation. On
  other responses the reader can fail: a size of sixteen hexadecimal fs wraps past its check.
\<close>

theorem chunks_reassemble:
  "(list_all (\<lambda>d. d \<noteq> []) ds \<and> length (concat (map make_chunk ds)) + 5 < 2 ^ 64 \<longrightarrow>
      dechunk_body (concat (map make_chunk ds) @ ''0'' @ [CR, NL, CR, NL]) = Some (concat ds)) \<and>
    dechunk_body (''ffffffffffffffff'' @ CR # NL # rest) = None"
proof -
  have hex: "show_hex 0 = ''0''" by (simp add: show_hex_rec hex_digit_ends)
  show ?thesis using dechunk_chunks [of ds "[]" "[]"] dechunk_wraps
    by (simp add: dechunk_body_def hex list_all_iff)
qed

theorem chunks_reassemble_witness:
  "dechunk_body (concat (map make_chunk [''22/tcp open'', ''80/tcp closed'']) @ ''0'' @ [CR, NL, CR, NL]) =
    Some ''22/tcp open80/tcp closed''"
proof -
  have "length (concat (map make_chunk [''22/tcp open'', ''80/tcp closed''])) < 100"
    by (simp add: make_chunk_def show_hex_rec)
  then show ?thesis using chunks_reassemble [of "[''22/tcp open'', ''80/tcp closed'']"] by simp
qed

text \<open>
  A command line can carry any arguments: written in double quotes, with quotes and backslashes
  escaped, and separated by blanks, they are taken apart into exactly those arguments. A NUL byte is refused
  outside quotes but passes inside them, although the program started sees the argument end there.
\<close>

theorem command_line_roundtrip:
  "tokenize_command (join_with CHR '' '' (map quote_arg args)) = Inr args \<and>
    tokenize_command (''--server'' @ [CHR 0x00]) = Inl EmbeddedNul \<and>
    tokenize_command (quote_arg (''--server'' @ [CHR 0x00])) = Inr [''--server'' @ [CHR 0x00]]"
proof (intro conjI)
  show "tokenize_command (join_with CHR '' '' (map quote_arg args)) = Inr args"
    using tokenize_quoted_list [of "[]" args] by (simp add: tokenize_command_def)
  show "tokenize_command (''--server'' @ [CHR 0x00]) = Inl EmbeddedNul" by code_simp
  show "tokenize_command (quote_arg (''--server'' @ [CHR 0x00])) = Inr [''--server'' @ [CHR 0x00]]" by code_simp
qed

text \<open>
  The two readers of response headers agree: looking a field up by name gives what the map of all
  headers holds for it, the first occurrence, and the empty value exactly when there is none or it is empty.
\<close>

theorem header_lookup_agrees:
  "extract_header resp nm = (case fst (collect_all_headers resp) (to_lower nm) of None \<Rightarrow> [] | Some v \<Rightarrow> v)"
  by (simp add: extract_header_def collect_all_headers_def collect_line_first)

end
