(* ===== verification/Server.thy ===== *)
theory Server
  imports Http_Text "HOL-Library.AList"
begin

text \<open>
  The web front end (src/server.cpp, lines 34 to 48, 94 to 112, 640 to 1070 and the event loop of \<open>run\<close>, lines
  1690 to 1718): a single-threaded loop over connections, each of a link with its own token, that runs a
  command line of an authorised request as a child process and streams its output. A handler is a function of
  the state; what the system answers (bytes read, bytes a \<open>write\<close> takes, the process a \<open>fork\<close> makes, the time)
  comes with the event. What the program does to the outside is appended to a log. The clock is read once
  per event. Set-up, stunnel and shutdown are not modelled, and the page is a parameter.
\<close>

section \<open>State\<close>

definition kMaxHeaderBytes :: nat where
  "kMaxHeaderBytes = 16 * 1024"

definition kMaxBodyBytes :: nat where
  "kMaxBodyBytes = 4 * 1024"

definition kMaxOutbufBytes :: nat where
  "kMaxOutbufBytes = 8 * 1024 * 1024"

definition kMaxAuthFailures :: nat where
  "kMaxAuthFailures = 8"

definition kAuthFailureWindowSec :: int where
  "kAuthFailureWindowSec = 60"

definition kCookieMaxAgeSec :: nat where
  "kCookieMaxAgeSec = 3600"

definition kConnIdleTimeoutSec :: int where
  "kConnIdleTimeoutSec = 20"

definition kSweepIntervalSec :: int where
  "kSweepIntervalSec = 5"

record link =
  lk_token :: string
  lk_cookie_name :: string
  lk_scan_busy :: bool
  lk_running_pid :: int
  lk_auth_fail :: "(string \<times> (nat \<times> int)) list"

datatype conn_state = READING_REQUEST | STREAMING_OUTPUT | DONE

record connection =
  cn_state :: conn_state
  cn_link :: nat
  cn_peer_ip :: string
  cn_created_at :: int
  cn_inbuf :: string
  cn_headers_parsed :: bool
  cn_header_end :: nat
  cn_content_length :: nat
  cn_outbuf :: string
  cn_want_epollout :: bool
  cn_child_pid :: int
  cn_child_out :: "nat option"
  cn_child_eof :: bool

datatype signal = SigInt | SigKill

text \<open>Sent bytes, a started program with its arguments, a signal, a closed descriptor, a failed login.\<close>

datatype deed =
    Sent nat string
  | Spawned nat int "string list"
  | Signalled int signal
  | Closed nat
  | AuthFailed nat string

datatype write_result = Wrote nat | WriteBlocked | WriteInterrupted | WriteFailed

datatype read_result = Got string | ReadBlocked | ReadInterrupted | ReadEnded

datatype spawn_result = PipeFailed | ForkFailed | Child int nat

text \<open>\<open>sv_now\<close>, \<open>sv_writes\<close> and \<open>sv_spawn\<close> are the answers of the system during the current event.\<close>

record server =
  sv_links :: "link list"
  sv_conns :: "(nat \<times> connection) list"
  sv_pipes :: "(nat \<times> nat) list"
  sv_last_sweep :: int
  sv_log :: "deed list"
  sv_now :: int
  sv_writes :: "write_result list"
  sv_spawn :: spawn_result

record server_env =
  wv_self_path :: string
  wv_secure_cookies :: bool
  wv_page :: "string \<Rightarrow> string"

definition conn :: "server \<Rightarrow> nat \<Rightarrow> connection option" where
  "conn sv fd = map_of (sv_conns sv) fd"

definition update_conn :: "nat \<Rightarrow> (connection \<Rightarrow> connection) \<Rightarrow> server \<Rightarrow> server" where
  "update_conn fd f sv =
     (case conn sv fd of None \<Rightarrow> sv | Some c \<Rightarrow> sv\<lparr>sv_conns := AList.update fd (f c) (sv_conns sv)\<rparr>)"

definition update_link :: "nat \<Rightarrow> (link \<Rightarrow> link) \<Rightarrow> server \<Rightarrow> server" where
  "update_link i f sv = sv\<lparr>sv_links := (sv_links sv)[i := f (sv_links sv ! i)]\<rparr>"

definition noted :: "deed list \<Rightarrow> server \<Rightarrow> server" where
  "noted ds sv = sv\<lparr>sv_log := sv_log sv @ ds\<rparr>"

section \<open>Connections\<close>

definition reap_child :: "nat \<Rightarrow> server \<Rightarrow> server" where
  "reap_child fd sv =
     (case conn sv fd of
        None \<Rightarrow> sv
      | Some c \<Rightarrow>
          (let i = cn_link c; pid = cn_child_pid c;
               sv = (if pid > 0
                     then update_link i (\<lambda>l. if lk_running_pid l = pid then l\<lparr>lk_running_pid := -1\<rparr> else l) sv else sv);
               sv = (case cn_child_out c of
                       Some p \<Rightarrow> noted [Closed p] (sv\<lparr>sv_pipes := AList.delete p (sv_pipes sv)\<rparr>)
                     | None \<Rightarrow> sv);
               sv = update_conn fd (\<lambda>c. c\<lparr>cn_child_pid := (if pid > 0 then -1 else pid), cn_child_out := None\<rparr>) sv
           in update_link i (\<lambda>l. l\<lparr>lk_scan_busy := False\<rparr>) sv))"

definition close_connection :: "nat \<Rightarrow> server \<Rightarrow> server" where
  "close_connection fd sv =
     (case conn sv fd of
        None \<Rightarrow> sv
      | Some c \<Rightarrow>
          (let sv = (if cn_child_pid c > 0 then reap_child fd (noted [Signalled (cn_child_pid c) SigKill] sv) else sv)
           in noted [Closed fd] (sv\<lparr>sv_conns := AList.delete fd (sv_conns sv)\<rparr>)))"

datatype flush_end = Drained | Blocked | Failed

text \<open>The results left, the bytes taken, the bytes left and how the loop ended.\<close>

fun flush_loop :: "write_result list \<Rightarrow> string \<Rightarrow> write_result list \<times> string \<times> string \<times> flush_end" where
  "flush_loop ws [] = (ws, [], [], Drained)"
| "flush_loop [] buf = ([], [], buf, Blocked)"
| "flush_loop (Wrote n # ws) buf =
     (if n > 0 then let (ws, sent, rest, e) = flush_loop ws (drop n buf) in (ws, take n buf @ sent, rest, e)
      else (ws, [], buf, Failed))"
| "flush_loop (WriteInterrupted # ws) buf = flush_loop ws buf"
| "flush_loop (WriteBlocked # ws) buf = (ws, [], buf, Blocked)"
| "flush_loop (WriteFailed # ws) buf = (ws, [], buf, Failed)"

definition flush_outbuf :: "nat \<Rightarrow> server \<Rightarrow> bool \<times> server" where
  "flush_outbuf fd sv =
     (case conn sv fd of
        None \<Rightarrow> (False, sv)
      | Some c \<Rightarrow>
          (let (ws, sent, rest, e) = flush_loop (sv_writes sv) (cn_outbuf c);
               sv = noted (if sent = [] then [] else [Sent fd sent]) (sv\<lparr>sv_writes := ws\<rparr>);
               sv = update_conn fd (\<lambda>c. c\<lparr>cn_outbuf := rest,
                      cn_want_epollout := (case e of Drained \<Rightarrow> False | Blocked \<Rightarrow> True | Failed \<Rightarrow> cn_want_epollout c)\<rparr>) sv
           in (e \<noteq> Failed, sv)))"

definition out_empty :: "nat \<Rightarrow> server \<Rightarrow> bool" where
  "out_empty fd sv = (case conn sv fd of None \<Rightarrow> False | Some c \<Rightarrow> cn_outbuf c = [])"

definition no_child :: "nat \<Rightarrow> server \<Rightarrow> bool" where
  "no_child fd sv = (case conn sv fd of None \<Rightarrow> False | Some c \<Rightarrow> cn_child_pid c \<le> 0)"

definition append_out :: "nat \<Rightarrow> string \<Rightarrow> server \<Rightarrow> server" where
  "append_out fd data sv = update_conn fd (\<lambda>c. c\<lparr>cn_outbuf := cn_outbuf c @ data\<rparr>) sv"

definition queue_and_flush :: "nat \<Rightarrow> string \<Rightarrow> server \<Rightarrow> server" where
  "queue_and_flush fd data sv =
     (case conn sv fd of
        None \<Rightarrow> sv
      | Some c \<Rightarrow>
          if length (cn_outbuf c) + length data > kMaxOutbufBytes then close_connection fd sv
          else let (ok, sv) = flush_outbuf fd (append_out fd data sv)
               in if ok then sv else close_connection fd sv)"

definition crlf :: string where
  "crlf = [CR, NL]"

definition security_headers :: string where
  "security_headers =
     ''X-Frame-Options: DENY'' @ crlf @ ''X-Content-Type-Options: nosniff'' @ crlf @
     ''Referrer-Policy: no-referrer'' @ crlf @
     ''Content-Security-Policy: default-src 'none'; script-src 'unsafe-inline'; '' @
     ''style-src 'unsafe-inline'; connect-src 'self'; base-uri 'none'; form-action 'none'; '' @
     ''frame-ancestors 'none'' @ [CHR 0x27] @ crlf @
     ''Strict-Transport-Security: max-age=63072000; includeSubDomains'' @ crlf @
     ''Cache-Control: no-store'' @ crlf"

definition simple_response :: "nat \<Rightarrow> string \<Rightarrow> string \<Rightarrow> string \<Rightarrow> string" where
  "simple_response num status content_type body =
     ''HTTP/1.1 '' @ show_nat num @ '' '' @ status @ crlf @
     ''Content-Type: '' @ content_type @ crlf @
     ''Content-Length: '' @ show_nat (length body) @ crlf @
     security_headers @ ''Connection: close'' @ crlf @ crlf @ body"

definition send_simple_response :: "nat \<Rightarrow> nat \<Rightarrow> string \<Rightarrow> string \<Rightarrow> string \<Rightarrow> server \<Rightarrow> server" where
  "send_simple_response fd num status content_type body sv =
     (let (ok, sv) = flush_outbuf fd (append_out fd (simple_response num status content_type body) sv)
      in if ok \<and> out_empty fd sv \<and> no_child fd sv then close_connection fd sv else sv)"

section \<open>Logins\<close>

text \<open>\<open>auth_fail[ip]\<close> is made when it is not there; its window is renewed when it is over.\<close>

definition auth_entry :: "int \<Rightarrow> string \<Rightarrow> link \<Rightarrow> nat \<times> int" where
  "auth_entry now ip l =
     (let (n, since) = (case map_of (lk_auth_fail l) ip of Some st \<Rightarrow> st | None \<Rightarrow> (0, 0))
      in if now - since > kAuthFailureWindowSec then (0, now) else (n, since))"

definition auth_rate_limited :: "int \<Rightarrow> string \<Rightarrow> link \<Rightarrow> bool \<times> link" where
  "auth_rate_limited now ip l =
     (let st = auth_entry now ip l
      in (fst st \<ge> kMaxAuthFailures, l\<lparr>lk_auth_fail := AList.update ip st (lk_auth_fail l)\<rparr>))"

definition record_auth_failure :: "int \<Rightarrow> string \<Rightarrow> link \<Rightarrow> link" where
  "record_auth_failure now ip l =
     (let (n, since) = auth_entry now ip l
      in l\<lparr>lk_auth_fail := AList.update ip (n + 1, since) (lk_auth_fail l)\<rparr>)"

datatype login = Limited | Granted | Refused

text \<open>The decision of \<open>require_auth\<close> with its effect on the link, and then its answers.\<close>

definition login_attempt :: "int \<Rightarrow> string \<Rightarrow> string \<Rightarrow> link \<Rightarrow> login \<times> link" where
  "login_attempt now ip provided l =
     (let (limited, l) = auth_rate_limited now ip l
      in if limited then (Limited, l)
         else if tokens_match provided (lk_token l) then (Granted, l)
         else (Refused, record_auth_failure now ip l))"

definition require_auth :: "nat \<Rightarrow> connection \<Rightarrow> string \<Rightarrow> server \<Rightarrow> bool \<times> server" where
  "require_auth fd c provided sv =
     (let i = cn_link c; (res, l) = login_attempt (sv_now sv) (cn_peer_ip c) provided (sv_links sv ! i);
          sv = update_link i (\<lambda>_. l) sv
      in case res of
           Limited \<Rightarrow> (False, send_simple_response fd 429 ''Too Many Requests'' ''text/plain''
             (''too many failed attempts from this address, slow down'' @ [NL]) sv)
         | Granted \<Rightarrow> (True, sv)
         | Refused \<Rightarrow> (False, send_simple_response fd 401 ''Unauthorized'' ''text/plain'' (''Missing or invalid token'' @ [NL])
             (noted [AuthFailed i (cn_peer_ip c)] sv)))"

section \<open>Running a command\<close>

definition bad_request :: "nat \<Rightarrow> string \<Rightarrow> server \<Rightarrow> server" where
  "bad_request fd msg sv = send_simple_response fd 400 ''Bad Request'' ''text/plain'' (msg @ [NL]) sv"

definition tok_err_text :: "tok_err \<Rightarrow> string" where
  "tok_err_text e =
     (case e of
        UnterminatedSingle \<Rightarrow> ''unterminated '' @ [CHR 0x27] @ '' quote''
      | UnterminatedDouble \<Rightarrow> ''unterminated '' @ [CHR 0x22] @ '' quote''
      | EmbeddedNul \<Rightarrow> ''embedded NUL byte'')"

definition drop_name :: "string list \<Rightarrow> string list" where
  "drop_name ts = (if ts \<noteq> [] \<and> hd ts = ''shiv'' then tl ts else ts)"

definition busy_text :: "nat \<Rightarrow> string" where
  "busy_text n =
     ''A scan is already running on this link. Wait for it to finish, '' @
     ''or press Ctrl+C in the session that started it.'' @ [NL] @
     (if n > 1 then ''Other links are independent and are not affected.'' @ [NL] else [])"

definition stream_head :: string where
  "stream_head =
     ''HTTP/1.1 200 OK'' @ crlf @ ''Content-Type: text/plain; charset=utf-8'' @ crlf @
     ''Transfer-Encoding: chunked'' @ crlf @ security_headers @ ''Connection: close'' @ crlf @ crlf"

definition internal_error :: "nat \<Rightarrow> string \<Rightarrow> server \<Rightarrow> server" where
  "internal_error fd msg sv = send_simple_response fd 500 ''Internal Server Error'' ''text/plain'' (msg @ [NL]) sv"

text \<open>
  \<open>scan_busy\<close> is set before the command line is looked at and cleared on every way out but the last, so it is
  set here only there. The arguments end at their first NUL, as \<open>execv\<close> reads them.
\<close>

definition start_run :: "server_env \<Rightarrow> nat \<Rightarrow> connection \<Rightarrow> string \<Rightarrow> server \<Rightarrow> server" where
  "start_run env fd c command_line sv =
     (let i = cn_link c in
      if lk_scan_busy (sv_links sv ! i)
      then send_simple_response fd 409 ''Conflict'' ''text/plain'' (busy_text (length (sv_links sv))) sv
      else case tokenize_command command_line of
        Inl e \<Rightarrow> bad_request fd (''parse error: '' @ tok_err_text e) sv
      | Inr tokens \<Rightarrow>
          if tokens = [] then bad_request fd ''empty command'' sv
          else let args = drop_name tokens in
            if ''--server'' \<in> set args then bad_request fd ''refusing to start a nested --server from here'' sv
            else if wv_self_path env = [] then internal_error fd ''could not resolve own executable path'' sv
            else case sv_spawn sv of
              PipeFailed \<Rightarrow> internal_error fd ''pipe() failed'' sv
            | ForkFailed \<Rightarrow> internal_error fd ''fork() failed'' sv
            | Child pid p \<Rightarrow>
                (let sv = noted [Spawned i pid (wv_self_path env # map c_str args)] sv;
                     sv = update_link i (\<lambda>l. l\<lparr>lk_scan_busy := True, lk_running_pid := pid\<rparr>) sv;
                     sv = update_conn fd (\<lambda>c. c\<lparr>cn_child_pid := pid, cn_child_out := Some p, cn_state := STREAMING_OUTPUT\<rparr>) sv;
                     sv = sv\<lparr>sv_pipes := AList.update p fd (sv_pipes sv)\<rparr>
                 in queue_and_flush fd stream_head sv))"

section \<open>Requests\<close>

definition cookie_of :: "link \<Rightarrow> http_request \<Rightarrow> string option" where
  "cookie_of l req = parse_cookies (header_value req ''cookie'') (lk_cookie_name l)"

definition login_response :: "server_env \<Rightarrow> link \<Rightarrow> string" where
  "login_response env l =
     ''HTTP/1.1 303 See Other'' @ crlf @ ''Location: /'' @ crlf @
     ''Set-Cookie: '' @ lk_cookie_name l @ ''='' @ lk_token l @ ''; Path=/; HttpOnly; SameSite=Strict; Max-Age='' @
     show_nat kCookieMaxAgeSec @ (if wv_secure_cookies env then ''; Secure'' else []) @ crlf @
     security_headers @ ''Content-Length: 0'' @ crlf @ ''Connection: close'' @ crlf @ crlf"

definition get_page :: "server_env \<Rightarrow> nat \<Rightarrow> connection \<Rightarrow> http_request \<Rightarrow> server \<Rightarrow> server" where
  "get_page env fd c req sv =
     (let l = sv_links sv ! cn_link c in
      if (case cookie_of l req of Some v \<Rightarrow> tokens_match v (lk_token l) | None \<Rightarrow> False)
      then send_simple_response fd 200 ''OK'' ''text/html; charset=utf-8'' (wv_page env (lk_token l)) sv
      else let provided = (case parse_query (rq_query req) ''token'' of Some v \<Rightarrow> v | None \<Rightarrow> []);
               (ok, sv) = require_auth fd c provided sv
           in if \<not> ok then sv
              else let (flushed, sv) = flush_outbuf fd (append_out fd (login_response env l) sv)
                   in if flushed \<and> out_empty fd sv then close_connection fd sv else sv)"

definition provided_token :: "link \<Rightarrow> http_request \<Rightarrow> string" where
  "provided_token l req =
     (let provided = header_value req ''x-shiv-token''
      in if provided = [] then (case cookie_of l req of Some v \<Rightarrow> v | None \<Rightarrow> []) else provided)"

definition kill_scan :: "nat \<Rightarrow> connection \<Rightarrow> server \<Rightarrow> server" where
  "kill_scan fd c sv =
     (let pid = lk_running_pid (sv_links sv ! cn_link c) in
      if pid > 0
      then send_simple_response fd 200 ''OK'' ''text/plain'' (''sent interrupt'' @ [NL]) (noted [Signalled pid SigInt] sv)
      else send_simple_response fd 200 ''OK'' ''text/plain'' (''no scan running'' @ [NL]) sv)"

definition dispatch :: "server_env \<Rightarrow> nat \<Rightarrow> connection \<Rightarrow> http_request \<Rightarrow> server \<Rightarrow> server" where
  "dispatch env fd c req sv =
     (if rq_method req = ''GET'' \<and> (rq_path req = ''/'' \<or> rq_path req = ''/index.html'') then get_page env fd c req sv
      else if rq_method req = ''POST'' \<and> (rq_path req = ''/run'' \<or> rq_path req = ''/kill'')
      then (let (ok, sv) = require_auth fd c (provided_token (sv_links sv ! cn_link c) req) sv
            in if \<not> ok then sv
               else if rq_path req = ''/run'' then start_run env fd c (rq_body req) sv
               else kill_scan fd c sv)
      else send_simple_response fd 404 ''Not Found'' ''text/plain'' (''not found'' @ [NL]) sv)"

section \<open>Events\<close>

text \<open>The reads of one event, \<open>True\<close> when the handler goes on after them.\<close>

fun read_loop :: "nat \<Rightarrow> read_result list \<Rightarrow> server \<Rightarrow> bool \<times> server" where
  "read_loop fd [] sv = (True, sv)"
| "read_loop fd (ReadBlocked # rs) sv = (True, sv)"
| "read_loop fd (ReadInterrupted # rs) sv = read_loop fd rs sv"
| "read_loop fd (ReadEnded # rs) sv = (False, close_connection fd sv)"
| "read_loop fd (Got data # rs) sv =
     (case conn sv fd of
        None \<Rightarrow> (False, sv)
      | Some c \<Rightarrow>
          if length (cn_inbuf c) + length data > kMaxHeaderBytes + kMaxBodyBytes
          then (False, send_simple_response fd 413 ''Payload Too Large'' ''text/plain'' (''request too large'' @ [NL]) sv)
          else read_loop fd rs (update_conn fd (\<lambda>c. c\<lparr>cn_inbuf := cn_inbuf c @ data\<rparr>) sv))"

definition too_long :: "nat \<Rightarrow> server \<Rightarrow> server" where
  "too_long fd sv = send_simple_response fd 413 ''Payload Too Large'' ''text/plain'' (''command too long'' @ [NL]) sv"

text \<open>The request once its body has arrived.\<close>

definition serve_body :: "server_env \<Rightarrow> nat \<Rightarrow> server \<Rightarrow> server" where
  "serve_body env fd sv =
     (case conn sv fd of
        None \<Rightarrow> sv
      | Some c \<Rightarrow>
          if cn_state c \<noteq> READING_REQUEST then sv
          else if length (cn_inbuf c) - cn_header_end c < cn_content_length c then sv
          else case parse_request (cn_inbuf c) (cn_header_end c - 4) of
            None \<Rightarrow> bad_request fd ''malformed request'' sv
          | Some req \<Rightarrow>
              dispatch env fd c (req\<lparr>rq_body := substr (cn_inbuf c) (cn_header_end c) (cn_content_length c)\<rparr>) sv)"

definition declared_length :: "http_request \<Rightarrow> nat" where
  "declared_length req =
     (case rq_headers req ''content-length'' of
        Some v \<Rightarrow> (case strtoul 10 v of Some n \<Rightarrow> n | None \<Rightarrow> 0)
      | None \<Rightarrow> 0)"

definition serve_headers :: "server_env \<Rightarrow> nat \<Rightarrow> connection \<Rightarrow> server \<Rightarrow> server" where
  "serve_headers env fd c sv =
     (case find_from [CR, NL, CR, NL] (cn_inbuf c) 0 of
        None \<Rightarrow>
          if length (cn_inbuf c) > kMaxHeaderBytes
          then send_simple_response fd 431 ''Request Header Fields Too Large'' ''text/plain'' (''headers too large'' @ [NL]) sv
          else sv
      | Some pos \<Rightarrow>
          (let sv = update_conn fd (\<lambda>c. c\<lparr>cn_header_end := pos + 4, cn_headers_parsed := True\<rparr>) sv
           in case parse_request (cn_inbuf c) pos of
                None \<Rightarrow> bad_request fd ''malformed request line'' sv
              | Some req \<Rightarrow>
                  if rq_headers req ''transfer-encoding'' \<noteq> None
                  then bad_request fd ''Transfer-Encoding is not supported'' sv
                  else if rq_method req = ''POST'' \<and> declared_length req > kMaxBodyBytes then too_long fd sv
                  else let len = (if rq_method req = ''POST'' then declared_length req else cn_content_length c);
                           sv = update_conn fd (\<lambda>c. c\<lparr>cn_content_length := len\<rparr>) sv
                       in if rq_method req \<noteq> ''POST'' \<or> len = 0 then dispatch env fd c req sv
                          else serve_body env fd sv))"

definition on_client_readable :: "server_env \<Rightarrow> nat \<Rightarrow> read_result list \<Rightarrow> server \<Rightarrow> server" where
  "on_client_readable env fd rs sv =
     (let (go_on, sv) = read_loop fd rs sv in
      if \<not> go_on then sv
      else case conn sv fd of
        None \<Rightarrow> sv
      | Some c \<Rightarrow> if \<not> cn_headers_parsed c then serve_headers env fd c sv else serve_body env fd sv)"

fun on_child_pipe_readable :: "nat \<Rightarrow> read_result list \<Rightarrow> server \<Rightarrow> server" where
  "on_child_pipe_readable fd [] sv = sv"
| "on_child_pipe_readable fd (ReadBlocked # rs) sv = sv"
| "on_child_pipe_readable fd (ReadInterrupted # rs) sv = on_child_pipe_readable fd rs sv"
| "on_child_pipe_readable fd (Got data # rs) sv =
     (let sv = queue_and_flush fd (make_chunk data) sv
      in if conn sv fd = None then sv else on_child_pipe_readable fd rs sv)"
| "on_child_pipe_readable fd (ReadEnded # rs) sv =
     (let sv = reap_child fd (update_conn fd (\<lambda>c. c\<lparr>cn_child_eof := True\<rparr>) sv);
          sv = queue_and_flush fd (''0'' @ crlf @ crlf) sv
      in if conn sv fd \<noteq> None \<and> out_empty fd sv then close_connection fd sv else sv)"

definition accept_connection :: "nat \<Rightarrow> nat \<Rightarrow> string \<Rightarrow> server \<Rightarrow> server" where
  "accept_connection fd i ip sv =
     sv\<lparr>sv_conns := AList.update fd
       \<lparr>cn_state = READING_REQUEST, cn_link = i, cn_peer_ip = ip, cn_created_at = sv_now sv, cn_inbuf = [],
        cn_headers_parsed = False, cn_header_end = 0, cn_content_length = 0, cn_outbuf = [], cn_want_epollout = False,
        cn_child_pid = -1, cn_child_out = None, cn_child_eof = False\<rparr> (sv_conns sv)\<rparr>"

definition client_event :: "server_env \<Rightarrow> nat \<Rightarrow> bool \<Rightarrow> bool \<Rightarrow> bool \<Rightarrow> read_result list \<Rightarrow> server \<Rightarrow> server" where
  "client_event env fd hup wr rd rs sv =
     (case conn sv fd of
        None \<Rightarrow> sv
      | Some c \<Rightarrow>
          if hup then close_connection fd sv
          else let (ok, sv) = (if wr then flush_outbuf fd sv else (True, sv)) in
            if \<not> ok then close_connection fd sv
            else if wr \<and> out_empty fd sv \<and> no_child fd sv \<and> cn_state c \<noteq> STREAMING_OUTPUT then close_connection fd sv
            else if rd then on_client_readable env fd rs sv else sv)"

definition stale :: "int \<Rightarrow> nat \<times> connection \<Rightarrow> bool" where
  "stale now = (\<lambda>(fd, c). cn_state c = READING_REQUEST \<and> now - cn_created_at c > kConnIdleTimeoutSec)"

definition sweep_idle_connections :: "server \<Rightarrow> server" where
  "sweep_idle_connections sv =
     (if sv_now sv - sv_last_sweep sv < kSweepIntervalSec then sv
      else fold close_connection (map fst (filter (stale (sv_now sv)) (sv_conns sv))) (sv\<lparr>sv_last_sweep := sv_now sv\<rparr>))"

text \<open>
  An event with the answers of the system to the handler: a connection is accepted, a descriptor of a
  connection is ready, the pipe of a child is ready, or the loop comes round to its sweep.
\<close>

datatype happening =
    Accepted nat nat string
  | Client nat bool bool bool "read_result list"
  | Pipe nat "read_result list"
  | Sweep

record occurrence =
  oc_what :: happening
  oc_now :: int
  oc_writes :: "write_result list"
  oc_spawn :: spawn_result

definition serve :: "server_env \<Rightarrow> occurrence \<Rightarrow> server \<Rightarrow> server" where
  "serve env ev sv =
     (let sv = sv\<lparr>sv_now := oc_now ev, sv_writes := oc_writes ev, sv_spawn := oc_spawn ev\<rparr> in
      case oc_what ev of
        Accepted fd i ip \<Rightarrow> accept_connection fd i ip sv
      | Client fd hup wr rd rs \<Rightarrow> client_event env fd hup wr rd rs sv
      | Pipe p rs \<Rightarrow> (case map_of (sv_pipes sv) p of None \<Rightarrow> sv | Some fd \<Rightarrow> on_child_pipe_readable fd rs sv)
      | Sweep \<Rightarrow> sweep_idle_connections sv)"

definition serve_all :: "server_env \<Rightarrow> occurrence list \<Rightarrow> server \<Rightarrow> server" where
  "serve_all env evs sv = fold (serve env) evs sv"

section \<open>The start\<close>

definition new_link :: "string \<Rightarrow> string \<Rightarrow> link" where
  "new_link token cookie_name =
     \<lparr>lk_token = token, lk_cookie_name = cookie_name, lk_scan_busy = False, lk_running_pid = -1, lk_auth_fail = []\<rparr>"

definition new_server :: "link list \<Rightarrow> server" where
  "new_server links =
     \<lparr>sv_links = links, sv_conns = [], sv_pipes = [], sv_last_sweep = 0, sv_log = [], sv_now = 0, sv_writes = [],
      sv_spawn = PipeFailed\<rparr>"

end
