(* ===== verification/Server_Props.thy ===== *)
theory Server_Props
  imports Server
begin

text \<open>
  What the web front end guarantees: \<open>wf_server\<close>, the invariant that ties links, connections and pipes together, is
  kept by every event; programs are started for authorised requests only; failed logins are bounded.
\<close>

section \<open>Basic laws\<close>

lemma conn_update_conn: "conn (update_conn fd f sv) x = (if x = fd then map_option f (conn sv fd) else conn sv x)"
  by (simp add: update_conn_def conn_def update_conv' split: option.split)

lemma update_conn_fields [simp]:
  "sv_links (update_conn fd f sv) = sv_links sv" "sv_pipes (update_conn fd f sv) = sv_pipes sv"
  "sv_log (update_conn fd f sv) = sv_log sv" "sv_now (update_conn fd f sv) = sv_now sv"
  "sv_spawn (update_conn fd f sv) = sv_spawn sv" "sv_writes (update_conn fd f sv) = sv_writes sv"
  by (simp_all add: update_conn_def split: option.split)

lemma update_link_fields [simp]:
  "conn (update_link i f sv) = conn sv" "sv_pipes (update_link i f sv) = sv_pipes sv"
  "sv_log (update_link i f sv) = sv_log sv" "sv_now (update_link i f sv) = sv_now sv"
  "sv_spawn (update_link i f sv) = sv_spawn sv" "sv_links (update_link i f sv) = (sv_links sv)[i := f (sv_links sv ! i)]"
  by (simp_all add: update_link_def conn_def fun_eq_iff)

lemma noted_fields [simp]:
  "conn (noted ds sv) = conn sv" "sv_pipes (noted ds sv) = sv_pipes sv" "sv_links (noted ds sv) = sv_links sv"
  "sv_log (noted ds sv) = sv_log sv @ ds" "sv_now (noted ds sv) = sv_now sv" "sv_spawn (noted ds sv) = sv_spawn sv"
  by (simp_all add: noted_def conn_def fun_eq_iff)

lemma conn_unchanged [simp]:
  "conn (sv\<lparr>sv_writes := ws\<rparr>) = conn sv" "conn (sv\<lparr>sv_pipes := ps\<rparr>) = conn sv" "conn (sv\<lparr>sv_log := ds\<rparr>) = conn sv"
  "conn (sv\<lparr>sv_now := t\<rparr>) = conn sv" "conn (sv\<lparr>sv_spawn := sp\<rparr>) = conn sv" "conn (sv\<lparr>sv_last_sweep := t\<rparr>) = conn sv"
  "conn (sv\<lparr>sv_links := ls\<rparr>) = conn sv"
  by (simp_all add: conn_def fun_eq_iff)

section \<open>The request a client has sent\<close>

text \<open>
  A request as HTTP/1.1 frames it: the head is everything up to the first blank line, and a \<open>POST\<close> without
  a transfer encoding announces a body of \<open>Content-Length\<close> bytes right behind it. \<open>announced\<close> is where that body starts, with
  the head read; \<open>posted\<close> is the request once its body is complete.
\<close>

definition announced :: "string \<Rightarrow> (nat \<times> http_request) option" where
  "announced input =
     (case find_from [CR, NL, CR, NL] input 0 of
        None \<Rightarrow> None
      | Some pos \<Rightarrow>
          (case parse_request input pos of
             None \<Rightarrow> None
           | Some req \<Rightarrow>
               if rq_method req = ''POST'' \<and> rq_headers req ''transfer-encoding'' = None \<and> declared_length req \<le> kMaxBodyBytes
               then Some (pos + 4, req) else None))"

definition posted :: "string \<Rightarrow> (http_request \<times> string) option" where
  "posted input =
     (case announced input of
        None \<Rightarrow> None
      | Some (start, req) \<Rightarrow>
          if start + declared_length req \<le> length input then Some (req, substr input start (declared_length req)) else None)"

lemma find_from_0: "find_from pat s 0 = Some i \<longleftrightarrow>
    i + length pat \<le> length s \<and> take (length pat) (drop i s) = pat \<and> (\<forall>j<i. take (length pat) (drop j s) \<noteq> pat)"
proof
  assume f: "find_from pat s 0 = Some i"
  then have "\<forall>j<i. take (length pat) (drop j s) \<noteq> pat"
    by (auto simp: find_from_def find_Some_iff)
  then show "i + length pat \<le> length s \<and> take (length pat) (drop i s) = pat \<and> (\<forall>j<i. take (length pat) (drop j s) \<noteq> pat)"
    using find_from_Some(2,3) [OF f] by blast
next
  assume "i + length pat \<le> length s \<and> take (length pat) (drop i s) = pat \<and> (\<forall>j<i. take (length pat) (drop j s) \<noteq> pat)"
  then show "find_from pat s 0 = Some i"
    by (auto simp: find_from_def find_Some_iff intro!: exI [of _ i])
qed

lemma find_from_append: "find_from pat s 0 = Some i \<Longrightarrow> find_from pat (s @ rest) 0 = Some i"
  by (auto simp: find_from_0)

lemma parse_request_append: "pos \<le> length s \<Longrightarrow> parse_request (s @ rest) pos = parse_request s pos"
  by (simp add: parse_request_def substr_def)

lemma announced_append: "announced s = Some a \<Longrightarrow> announced (s @ rest) = Some a"
  by (auto simp: announced_def find_from_append parse_request_append [OF add_leD1 [OF find_from_Some(2)]]
      split: option.splits)

text \<open>What a connection has noted of the head is what its bytes say.\<close>

definition head_ok :: "connection \<Rightarrow> bool" where
  "head_ok c \<longleftrightarrow>
     (if cn_headers_parsed c
      then find_from [CR, NL, CR, NL] (cn_inbuf c) 0 = Some (cn_header_end c - 4) \<and> 4 \<le> cn_header_end c \<and>
        (cn_content_length c = 0 \<or>
         (\<exists>req. announced (cn_inbuf c) = Some (cn_header_end c, req) \<and> declared_length req = cn_content_length c))
      else cn_content_length c = 0)"

lemma head_ok_updates [simp]:
  "head_ok (c\<lparr>cn_outbuf := s\<rparr>) = head_ok c" "head_ok (c\<lparr>cn_want_epollout := b\<rparr>) = head_ok c"
  "head_ok (c\<lparr>cn_outbuf := s, cn_want_epollout := b\<rparr>) = head_ok c"
  "head_ok (c\<lparr>cn_child_eof := b\<rparr>) = head_ok c" "head_ok (c\<lparr>cn_child_pid := pid, cn_child_out := out\<rparr>) = head_ok c"
  "head_ok (c\<lparr>cn_child_pid := pid, cn_child_out := out, cn_state := st\<rparr>) = head_ok c"
  "head_ok (c\<lparr>cn_state := st\<rparr>) = head_ok c"
  by (simp_all add: head_ok_def)

lemma head_ok_new: "\<not> cn_headers_parsed c \<Longrightarrow> cn_content_length c = 0 \<Longrightarrow> head_ok c"
  by (simp add: head_ok_def)

lemma head_ok_append: "head_ok c \<Longrightarrow> head_ok (c\<lparr>cn_inbuf := cn_inbuf c @ rest\<rparr>)"
  by (auto simp: head_ok_def find_from_append announced_append split: if_splits)

section \<open>Changes that leave the standing of links and connections alone\<close>

definition same_link :: "link \<Rightarrow> link \<Rightarrow> bool" where
  "same_link l l' \<longleftrightarrow>
     lk_token l' = lk_token l \<and> lk_cookie_name l' = lk_cookie_name l \<and> lk_scan_busy l' = lk_scan_busy l \<and>
     lk_running_pid l' = lk_running_pid l"

definition same_conn :: "connection \<Rightarrow> connection \<Rightarrow> bool" where
  "same_conn c c' \<longleftrightarrow>
     cn_state c' = cn_state c \<and> cn_link c' = cn_link c \<and> cn_peer_ip c' = cn_peer_ip c \<and>
     (length (cn_inbuf c) \<le> kMaxHeaderBytes + kMaxBodyBytes \<longrightarrow> length (cn_inbuf c') \<le> kMaxHeaderBytes + kMaxBodyBytes) \<and>
     cn_child_pid c' = cn_child_pid c \<and> cn_child_out c' = cn_child_out c \<and> (head_ok c \<longrightarrow> head_ok c')"

definition is_spawned :: "deed \<Rightarrow> bool" where
  "is_spawned d = (case d of Spawned i pid argv \<Rightarrow> True | _ \<Rightarrow> False)"

definition spawns :: "server \<Rightarrow> deed list" where
  "spawns sv = filter is_spawned (sv_log sv)"

definition calm :: "server \<Rightarrow> server \<Rightarrow> bool" where
  "calm sv sv' \<longleftrightarrow>
     list_all2 same_link (sv_links sv) (sv_links sv') \<and> sv_pipes sv' = sv_pipes sv \<and> sv_now sv' = sv_now sv \<and>
     sv_spawn sv' = sv_spawn sv \<and> spawns sv' = spawns sv \<and> (\<forall>fd. rel_option same_conn (conn sv fd) (conn sv' fd))"

lemma same_link_refl [simp]: "same_link l l"
  by (simp add: same_link_def)

lemma same_conn_refl [simp]: "same_conn c c"
  by (simp add: same_conn_def)

lemma calm_refl [simp]: "calm sv sv"
  by (simp add: calm_def list_all2_refl option.rel_refl)

lemma calm_trans:
  assumes "calm a b" and "calm b d"
  shows "calm a d"
proof -
  have "list_all2 same_link (sv_links a) (sv_links d)"
    using assms by (auto simp: calm_def list_all2_conv_all_nth same_link_def)
  moreover have "rel_option same_conn (conn a fd) (conn d fd)" for fd
    using assms by (cases "conn a fd"; cases "conn b fd"; cases "conn d fd")
      (force simp: calm_def same_conn_def dest: spec [of _ fd])+
  ultimately show ?thesis using assms by (simp add: calm_def)
qed

lemma calm_update_conn: "(\<And>c. conn sv fd = Some c \<Longrightarrow> same_conn c (f c)) \<Longrightarrow> calm sv (update_conn fd f sv)"
  by (auto simp: calm_def conn_update_conn spawns_def list_all2_refl option.rel_refl option.rel_map intro: option.rel_refl_strong)

lemma calm_noted: "filter is_spawned ds = [] \<Longrightarrow> calm sv (noted ds sv)"
  by (simp add: calm_def spawns_def list_all2_refl option.rel_refl)

lemma calm_update_link: "same_link (sv_links sv ! i) (f (sv_links sv ! i)) \<Longrightarrow> calm sv (update_link i f sv)"
  by (cases "i < length (sv_links sv)")
    (auto simp: calm_def spawns_def list_all2_conv_all_nth nth_list_update option.rel_refl list_update_beyond)

lemma calm_writes: "calm sv (sv\<lparr>sv_writes := ws\<rparr>)"
  by (simp add: calm_def spawns_def list_all2_refl option.rel_refl)

lemma calm_append_out [simp]: "calm sv (append_out fd data sv)"
  unfolding append_out_def by (rule calm_update_conn) (simp add: same_conn_def)

lemma calm_flush [simp]: "calm sv (snd (flush_outbuf fd sv))"
proof (cases "conn sv fd")
  case (Some c)
  obtain ws sent rest e where f: "flush_loop (sv_writes sv) (cn_outbuf c) = (ws, sent, rest, e)"
    by (cases "flush_loop (sv_writes sv) (cn_outbuf c)") auto
  have "calm sv (noted (if sent = [] then [] else [Sent fd sent]) (sv\<lparr>sv_writes := ws\<rparr>))"
    by (rule calm_trans [OF calm_writes calm_noted]) (simp add: is_spawned_def)
  then have "calm sv (update_conn fd (\<lambda>c. c\<lparr>cn_outbuf := rest,
      cn_want_epollout := (case e of Drained \<Rightarrow> False | Blocked \<Rightarrow> True | Failed \<Rightarrow> cn_want_epollout c)\<rparr>)
      (noted (if sent = [] then [] else [Sent fd sent]) (sv\<lparr>sv_writes := ws\<rparr>)))"
    by (rule calm_trans [OF _ calm_update_conn]) (simp add: same_conn_def)
  then show ?thesis by (simp add: flush_outbuf_def Some f)
qed (simp add: flush_outbuf_def)

section \<open>The invariant\<close>

definition conn_ok :: "server \<Rightarrow> nat \<Rightarrow> connection \<Rightarrow> bool" where
  "conn_ok sv fd c \<longleftrightarrow>
     cn_link c < length (sv_links sv) \<and> length (cn_inbuf c) \<le> kMaxHeaderBytes + kMaxBodyBytes \<and> head_ok c \<and>
     (if cn_child_pid c > 0
      then cn_state c = STREAMING_OUTPUT \<and> lk_scan_busy (sv_links sv ! cn_link c) \<and>
        lk_running_pid (sv_links sv ! cn_link c) = cn_child_pid c \<and>
        (\<exists>p. cn_child_out c = Some p \<and> map_of (sv_pipes sv) p = Some fd)
      else cn_child_out c = None)"

definition wf_server :: "server \<Rightarrow> bool" where
  "wf_server sv \<longleftrightarrow>
     (\<forall>fd c. conn sv fd = Some c \<longrightarrow> conn_ok sv fd c) \<and>
     (\<forall>i < length (sv_links sv).
        if lk_scan_busy (sv_links sv ! i)
        then \<exists>fd c. conn sv fd = Some c \<and> cn_link c = i \<and> cn_child_pid c > 0
        else lk_running_pid (sv_links sv ! i) \<le> 0) \<and>
     (\<forall>fd fd' c c'. conn sv fd = Some c \<and> conn sv fd' = Some c' \<and> cn_link c = cn_link c' \<and>
        cn_child_pid c > 0 \<and> cn_child_pid c' > 0 \<longrightarrow> fd = fd') \<and>
     (\<forall>p fd. map_of (sv_pipes sv) p = Some fd \<longrightarrow>
        (\<exists>c. conn sv fd = Some c \<and> cn_child_out c = Some p \<and> cn_child_pid c > 0))"

lemma wf_conn: "wf_server sv \<Longrightarrow> conn sv fd = Some c \<Longrightarrow> conn_ok sv fd c"
  by (simp add: wf_server_def)

lemma wf_unique:
  "wf_server sv \<Longrightarrow> conn sv fd = Some c \<Longrightarrow> conn sv fd' = Some c' \<Longrightarrow> cn_link c = cn_link c' \<Longrightarrow>
    cn_child_pid c > 0 \<Longrightarrow> cn_child_pid c' > 0 \<Longrightarrow> fd = fd'"
  by (simp add: wf_server_def)

lemma wf_pipe:
  "wf_server sv \<Longrightarrow> map_of (sv_pipes sv) p = Some fd \<Longrightarrow>
    \<exists>c. conn sv fd = Some c \<and> cn_child_out c = Some p \<and> cn_child_pid c > 0"
  by (simp add: wf_server_def)

lemma wf_link:
  "wf_server sv \<Longrightarrow> i < length (sv_links sv) \<Longrightarrow>
    if lk_scan_busy (sv_links sv ! i) then \<exists>fd c. conn sv fd = Some c \<and> cn_link c = i \<and> cn_child_pid c > 0
    else lk_running_pid (sv_links sv ! i) \<le> 0"
  by (simp add: wf_server_def)

lemma calm_conn:
  assumes "calm sv sv'"
  shows "conn sv' fd = Some c' \<Longrightarrow> \<exists>c. conn sv fd = Some c \<and> same_conn c c'"
    and "conn sv fd = Some c \<Longrightarrow> \<exists>c'. conn sv' fd = Some c' \<and> same_conn c c'"
    and "conn sv' fd = None \<longleftrightarrow> conn sv fd = None"
  using assms by (auto simp: calm_def dest!: spec [of _ fd] split: option.splits elim: option.rel_cases)

lemma calm_link:
  assumes "calm sv sv'"
  shows "length (sv_links sv') = length (sv_links sv)"
    and "i < length (sv_links sv) \<Longrightarrow> same_link (sv_links sv ! i) (sv_links sv' ! i)"
  using assms by (auto simp: calm_def list_all2_conv_all_nth)

lemma wf_calm:
  assumes wf: "wf_server sv" and c: "calm sv sv'"
  shows "wf_server sv'"
proof -
  note conns = calm_conn [OF c] and links = calm_link [OF c]
  have pipes: "sv_pipes sv' = sv_pipes sv" using c by (simp add: calm_def)
  have ok: "conn_ok sv' fd c'" if at: "conn sv' fd = Some c'" for fd c'
  proof -
    obtain c where c: "conn sv fd = Some c" "same_conn c c'" using conns(1) [OF at] by auto
    then have "conn_ok sv fd c" using wf by (simp add: wf_server_def)
    then show ?thesis using c(2) links pipes by (auto simp: conn_ok_def same_conn_def same_link_def split: if_splits)
  qed
  have busy: "if lk_scan_busy (sv_links sv' ! i) then \<exists>fd c. conn sv' fd = Some c \<and> cn_link c = i \<and> cn_child_pid c > 0
      else lk_running_pid (sv_links sv' ! i) \<le> 0" if "i < length (sv_links sv')" for i
  proof -
    have i: "i < length (sv_links sv)" using that links(1) by simp
    have l: "same_link (sv_links sv ! i) (sv_links sv' ! i)" by (rule links(2) [OF i])
    have "if lk_scan_busy (sv_links sv ! i) then \<exists>fd c. conn sv fd = Some c \<and> cn_link c = i \<and> cn_child_pid c > 0
      else lk_running_pid (sv_links sv ! i) \<le> 0" using wf i by (simp add: wf_server_def)
    moreover have "\<exists>fd c. conn sv' fd = Some c \<and> cn_link c = i \<and> cn_child_pid c > 0"
      if at: "\<exists>fd c. conn sv fd = Some c \<and> cn_link c = i \<and> cn_child_pid c > 0"
    proof -
      obtain fd c where fd: "conn sv fd = Some c" "cn_link c = i" "cn_child_pid c > 0" using at by blast
      obtain c' where "conn sv' fd = Some c'" "same_conn c c'" using conns(2) [OF fd(1)] by blast
      then show ?thesis using fd by (intro exI [of _ fd] exI [of _ c']) (auto simp: same_conn_def)
    qed
    ultimately show ?thesis using l by (simp add: same_link_def split: if_splits)
  qed
  have unique: "fd = fd'" if at: "conn sv' fd = Some c" "conn sv' fd' = Some c'" "cn_link c = cn_link c'"
    "cn_child_pid c > 0" "cn_child_pid c' > 0" for fd fd' c c'
  proof -
    obtain d d' where "conn sv fd = Some d" "same_conn d c" "conn sv fd' = Some d'" "same_conn d' c'"
      using conns(1) [OF at(1)] conns(1) [OF at(2)] by blast
    then show ?thesis using wf at(3-5) by (auto simp: wf_server_def same_conn_def)
  qed
  have pipe: "\<exists>c. conn sv' fd = Some c \<and> cn_child_out c = Some p \<and> cn_child_pid c > 0" if at: "map_of (sv_pipes sv') p = Some fd" for p fd
  proof -
    obtain c where c: "conn sv fd = Some c" "cn_child_out c = Some p" "cn_child_pid c > 0"
      using wf_pipe [OF wf, of p fd] at pipes by auto
    obtain c' where "conn sv' fd = Some c'" "same_conn c c'" using conns(2) [OF c(1)] by blast
    then show ?thesis using c by (auto simp: same_conn_def)
  qed
  show ?thesis unfolding wf_server_def using ok busy unique pipe by blast
qed

section \<open>Reaping and closing\<close>

lemma reap_child_facts:
  assumes "conn sv fd = Some c" and "cn_child_pid c > 0" and "cn_child_out c = Some p"
    and "lk_running_pid (sv_links sv ! cn_link c) = cn_child_pid c" and "cn_link c < length (sv_links sv)"
  shows "conn (reap_child fd sv) = (conn sv)(fd \<mapsto> c\<lparr>cn_child_pid := -1, cn_child_out := None\<rparr>)"
    and "map_of (sv_pipes (reap_child fd sv)) = (map_of (sv_pipes sv))(p := None)"
    and "sv_links (reap_child fd sv) = (sv_links sv)[cn_link c :=
      (sv_links sv ! cn_link c)\<lparr>lk_running_pid := -1, lk_scan_busy := False\<rparr>]"
    and "spawns (reap_child fd sv) = spawns sv"
  using assms by (simp_all add: reap_child_def conn_update_conn fun_eq_iff delete_conv' spawns_def is_spawned_def Let_def)

lemma wf_reap:
  assumes wf: "wf_server sv" and c: "conn sv fd = Some c" "cn_child_pid c > 0"
  shows "wf_server (reap_child fd sv)"
    and "conn (reap_child fd sv) fd = Some (c\<lparr>cn_child_pid := -1, cn_child_out := None\<rparr>)"
    and "spawns (reap_child fd sv) = spawns sv" and "length (sv_links (reap_child fd sv)) = length (sv_links sv)"
proof -
  obtain p where p: "cn_child_out c = Some p" "map_of (sv_pipes sv) p = Some fd"
    and l: "lk_running_pid (sv_links sv ! cn_link c) = cn_child_pid c" "cn_link c < length (sv_links sv)"
    using wf_conn [OF wf c(1)] c(2) by (auto simp: conn_ok_def)
  note f = reap_child_facts [OF c p(1) l]
  show "conn (reap_child fd sv) fd = Some (c\<lparr>cn_child_pid := -1, cn_child_out := None\<rparr>)" using f(1) by simp
  show "spawns (reap_child fd sv) = spawns sv" by (rule f(4))
  show "length (sv_links (reap_child fd sv)) = length (sv_links sv)" by (simp add: f(3))
  have only: "cn_link d \<noteq> cn_link c" if "conn sv fd' = Some d" "fd' \<noteq> fd" "cn_child_pid d > 0" for fd' d
    using wf_unique [OF wf that(1) c(1)] that c(2) by blast
  have ok: "conn_ok (reap_child fd sv) fd' d" if at: "conn (reap_child fd sv) fd' = Some d" for fd' d
  proof (cases "fd' = fd")
    case True
    then show ?thesis using at wf_conn [OF wf c(1)] by (auto simp: f conn_ok_def)
  next
    case False
    then have d: "conn sv fd' = Some d" using at by (simp add: f)
    have ok: "conn_ok sv fd' d" by (rule wf_conn [OF wf d])
    show ?thesis
    proof (cases "cn_child_pid d > 0")
      case True
      have "cn_child_out d \<noteq> Some p" using ok True p(2) False by (auto simp: conn_ok_def)
      then show ?thesis using ok True only [OF d False True] by (auto simp: conn_ok_def f)
    next
      case False
      then show ?thesis using ok by (auto simp: conn_ok_def f)
    qed
  qed
  have link: "if lk_scan_busy (sv_links (reap_child fd sv) ! i)
      then \<exists>fd' c. conn (reap_child fd sv) fd' = Some c \<and> cn_link c = i \<and> cn_child_pid c > 0
      else lk_running_pid (sv_links (reap_child fd sv) ! i) \<le> 0" if at: "i < length (sv_links (reap_child fd sv))" for i
  proof (cases "i = cn_link c")
    case True
    then show ?thesis using l(2) by (simp add: f)
  next
    case False
    then have i: "sv_links (reap_child fd sv) ! i = sv_links sv ! i" "i < length (sv_links sv)" using at by (simp_all add: f)
    have "\<exists>fd' d. conn (reap_child fd sv) fd' = Some d \<and> cn_link d = i \<and> cn_child_pid d > 0"
      if there: "\<exists>fd' d. conn sv fd' = Some d \<and> cn_link d = i \<and> cn_child_pid d > 0"
    proof -
      obtain fd' d where d: "conn sv fd' = Some d" "cn_link d = i" "cn_child_pid d > 0" using there by blast
      then have "fd' \<noteq> fd" using c(1) False by auto
      then show ?thesis using d by (intro exI [of _ fd'] exI [of _ d]) (simp add: f)
    qed
    then show ?thesis using wf_link [OF wf i(2)] unfolding i(1) by (simp split: if_splits)
  qed
  have unique: "fd1 = fd2" if at: "conn (reap_child fd sv) fd1 = Some d" "conn (reap_child fd sv) fd2 = Some e"
    "cn_link d = cn_link e" "cn_child_pid d > 0" "cn_child_pid e > 0" for fd1 fd2 d e
  proof -
    have "conn sv fd1 = Some d" "conn sv fd2 = Some e" using at by (auto simp: f split: if_splits)
    then show ?thesis using wf_unique [OF wf] at(3-5) by blast
  qed
  have pipe: "\<exists>d. conn (reap_child fd sv) fd' = Some d \<and> cn_child_out d = Some q \<and> cn_child_pid d > 0"
    if at: "map_of (sv_pipes (reap_child fd sv)) q = Some fd'" for q fd'
  proof -
    have q: "q \<noteq> p" "map_of (sv_pipes sv) q = Some fd'" using at by (auto simp: f split: if_splits)
    obtain d where d: "conn sv fd' = Some d" "cn_child_out d = Some q" "cn_child_pid d > 0" using wf_pipe [OF wf q(2)] by blast
    then have "fd' \<noteq> fd" using c(1) p(1) q(1) by auto
    then show ?thesis using d by (simp add: f)
  qed
  show "wf_server (reap_child fd sv)" unfolding wf_server_def using ok link unique pipe by blast
qed

lemma wf_delete:
  assumes wf: "wf_server sv" and c: "conn sv fd = Some c" "cn_child_pid c \<le> 0"
    and sv': "conn sv' = (conn sv)(fd := None)" "sv_links sv' = sv_links sv" "sv_pipes sv' = sv_pipes sv"
  shows "wf_server sv'"
proof -
  have live: "\<exists>fd' d. conn sv' fd' = Some d \<and> cn_link d = i \<and> cn_child_pid d > 0"
    if there: "\<exists>fd' d. conn sv fd' = Some d \<and> cn_link d = i \<and> cn_child_pid d > 0" for i
  proof -
    obtain fd' d where d: "conn sv fd' = Some d" "cn_link d = i" "cn_child_pid d > 0" using there by blast
    then have "fd' \<noteq> fd" using c by auto
    then show ?thesis using d by (intro exI [of _ fd'] exI [of _ d]) (simp add: sv')
  qed
  have ok: "conn_ok sv' fd' d" if "conn sv' fd' = Some d" for fd' d
    using that wf_conn [OF wf, of fd' d] by (auto simp: sv' conn_ok_def split: if_splits)
  have link: "if lk_scan_busy (sv_links sv' ! i) then \<exists>fd c. conn sv' fd = Some c \<and> cn_link c = i \<and> cn_child_pid c > 0
      else lk_running_pid (sv_links sv' ! i) \<le> 0" if "i < length (sv_links sv')" for i
    using wf_link [OF wf, of i] that live [of i] unfolding sv' by (simp split: if_splits)
  have unique: "fd1 = fd2" if "conn sv' fd1 = Some d" "conn sv' fd2 = Some e"
    "cn_link d = cn_link e" "cn_child_pid d > 0" "cn_child_pid e > 0" for fd1 fd2 d e
    using that wf_unique [OF wf, of fd1 d fd2 e] by (auto simp: sv' split: if_splits)
  have pipe: "\<exists>d. conn sv' fd' = Some d \<and> cn_child_out d = Some q \<and> cn_child_pid d > 0"
    if at: "map_of (sv_pipes sv') q = Some fd'" for q fd'
    using wf_pipe [OF wf, of q fd'] at c by (auto simp: sv')
  show ?thesis unfolding wf_server_def using ok link unique pipe by blast
qed

section \<open>Handlers\<close>

text \<open>A handler that starts nothing and opens nothing.\<close>

definition settled :: "server \<Rightarrow> server \<Rightarrow> bool" where
  "settled sv sv' \<longleftrightarrow>
     (wf_server sv \<longrightarrow> wf_server sv' \<and> spawns sv' = spawns sv \<and> length (sv_links sv') = length (sv_links sv))"

lemma settled_refl [simp]: "settled sv sv"
  by (simp add: settled_def)

lemma settled_trans: "settled a b \<Longrightarrow> settled b c \<Longrightarrow> settled a c"
  by (simp add: settled_def)

lemma settled_calm: "calm sv sv' \<Longrightarrow> settled sv sv'"
  using wf_calm calm_link(1) by (auto simp: settled_def calm_def)

lemma settled_close [simp]: "settled sv (close_connection fd sv)"
proof (cases "conn sv fd")
  case (Some c)
  let ?sv = "if cn_child_pid c > 0 then reap_child fd (noted [Signalled (cn_child_pid c) SigKill] sv) else sv"
  have "wf_server (close_connection fd sv) \<and> spawns (close_connection fd sv) = spawns sv \<and>
      length (sv_links (close_connection fd sv)) = length (sv_links sv)" if wf: "wf_server sv"
  proof -
    have calm: "calm sv (noted [Signalled (cn_child_pid c) SigKill] sv)" by (rule calm_noted) (simp add: is_spawned_def)
    have "conn (noted [Signalled (cn_child_pid c) SigKill] sv) fd = Some c" using Some by simp
    note reap = wf_reap [OF wf_calm [OF wf calm] this]
    have mid: "wf_server ?sv" "spawns ?sv = spawns sv" "length (sv_links ?sv) = length (sv_links sv)"
      "\<exists>d. conn ?sv fd = Some d \<and> cn_child_pid d \<le> 0"
      using wf reap calm Some by (simp_all add: calm_def spawns_def is_spawned_def)
    obtain d where d: "conn ?sv fd = Some d" "cn_child_pid d \<le> 0" using mid(4) by blast
    have eq: "close_connection fd sv = noted [Closed fd] (?sv\<lparr>sv_conns := AList.delete fd (sv_conns ?sv)\<rparr>)"
      using Some by (simp add: close_connection_def Let_def)
    have "conn (close_connection fd sv) = (conn ?sv)(fd := None)"
      unfolding eq by (simp add: conn_def noted_def delete_conv' fun_eq_iff)
    moreover have "sv_links (close_connection fd sv) = sv_links ?sv" "sv_pipes (close_connection fd sv) = sv_pipes ?sv"
      "spawns (close_connection fd sv) = spawns ?sv"
      unfolding eq by (simp_all add: spawns_def is_spawned_def)
    ultimately show ?thesis using wf_delete [OF mid(1) d] mid(2,3) by simp
  qed
  then show ?thesis by (simp add: settled_def)
qed (simp add: close_connection_def)

lemma settled_queue [simp]: "settled sv (queue_and_flush fd data sv)"
proof (cases "conn sv fd")
  case (Some c)
  have "calm sv (snd (flush_outbuf fd (append_out fd data sv)))" by (rule calm_trans [OF calm_append_out calm_flush])
  then show ?thesis using settled_trans [OF settled_calm settled_close]
    by (auto simp: queue_and_flush_def Some settled_calm split: prod.splits)
qed (simp add: queue_and_flush_def)

lemma settled_response [simp]: "settled sv (send_simple_response fd num status ty body sv)"
proof -
  let ?out = "simple_response num status ty body"
  have "calm sv (snd (flush_outbuf fd (append_out fd ?out sv)))" by (rule calm_trans [OF calm_append_out calm_flush])
  then show ?thesis using settled_trans [OF settled_calm settled_close]
    by (auto simp: send_simple_response_def settled_calm split: prod.splits)
qed

lemma login_attempt_link: "same_link l (snd (login_attempt now ip provided l))"
  by (auto simp: login_attempt_def auth_rate_limited_def record_auth_failure_def same_link_def Let_def split: prod.splits)

lemma login_granted:
  assumes "login_attempt now ip provided l = (Granted, l')"
  shows "provided = lk_token l" and "provided \<noteq> []"
  using assms by (auto simp: login_attempt_def auth_rate_limited_def tokens_match_iff Let_def split: if_splits)

lemma require_auth_True:
  assumes "require_auth fd c provided sv = (True, sv')"
  shows "calm sv sv'" and "conn sv' = conn sv" and "provided = lk_token (sv_links sv ! cn_link c)" and "provided \<noteq> []"
proof -
  obtain res l where r: "login_attempt (sv_now sv) (cn_peer_ip c) provided (sv_links sv ! cn_link c) = (res, l)" by fastforce
  have res: "res = Granted" and sv': "sv' = update_link (cn_link c) (\<lambda>_. l) sv"
    using assms by (auto simp: require_auth_def r Let_def split: login.splits)
  have "same_link (sv_links sv ! cn_link c) l" using login_attempt_link r by (metis snd_conv)
  then show "calm sv sv'" unfolding sv' by (intro calm_update_link) simp
  show "conn sv' = conn sv" by (simp add: sv')
  show "provided = lk_token (sv_links sv ! cn_link c)" "provided \<noteq> []" using login_granted r [unfolded res] by blast+
qed

lemma settled_require_auth: "settled sv (snd (require_auth fd c provided sv))"
proof -
  obtain res l where r: "login_attempt (sv_now sv) (cn_peer_ip c) provided (sv_links sv ! cn_link c) = (res, l)" by fastforce
  have "same_link (sv_links sv ! cn_link c) l" using login_attempt_link r by (metis snd_conv)
  then have c1: "calm sv (update_link (cn_link c) (\<lambda>_. l) sv)" by (intro calm_update_link) simp
  have c2: "calm sv (noted [AuthFailed (cn_link c) (cn_peer_ip c)] (update_link (cn_link c) (\<lambda>_. l) sv))"
    by (rule calm_trans [OF c1 calm_noted]) (simp add: is_spawned_def)
  show ?thesis
    using settled_trans [OF settled_calm [OF c1] settled_response] settled_trans [OF settled_calm [OF c2] settled_response]
      settled_calm [OF c1]
    by (simp add: require_auth_def r Let_def split: login.split)
qed

section \<open>Starting a program\<close>

text \<open>A new process has an identity above 0 and its pipe a descriptor that is not in use.\<close>

definition spawn_ok :: "server \<Rightarrow> bool" where
  "spawn_ok sv = (case sv_spawn sv of Child pid p \<Rightarrow> pid > 0 \<and> map_of (sv_pipes sv) p = None | _ \<Rightarrow> True)"

definition launches :: "server_env \<Rightarrow> string \<Rightarrow> string list \<Rightarrow> bool" where
  "launches env body argv \<longleftrightarrow>
     (\<exists>tokens. tokenize_command body = Inr tokens \<and> tokens \<noteq> [] \<and> ''--server'' \<notin> set (drop_name tokens) \<and>
        argv = wv_self_path env # map c_str (drop_name tokens))"

text \<open>
  No token is \<open>--server\<close>; since a quoted token may hold a NUL and \<open>execv\<close> reads up to it, this keeps the flag from the program only
  when the body has no NUL.
\<close>

lemma dquote_free: "dquote cur s = Some (cur', t) \<Longrightarrow> x \<notin> set cur \<Longrightarrow> x \<notin> set s \<Longrightarrow> x \<notin> set cur' \<and> x \<notin> set t"
proof (induction cur s rule: dquote.induct)
  case (2 cur c s)
  consider "c = CHR 0x22" | "c \<noteq> CHR 0x22" "c = CHR 0x5C \<and> s \<noteq> [] \<and> (hd s = CHR 0x22 \<or> hd s = CHR 0x5C)"
    | "c \<noteq> CHR 0x22" "\<not> (c = CHR 0x5C \<and> s \<noteq> [] \<and> (hd s = CHR 0x22 \<or> hd s = CHR 0x5C))" by blast
  then show ?case
  proof cases
    case 1
    then show ?thesis using 2(3-5) by simp
  next
    case c: 2
    have "dquote (cur @ [hd s]) (tl s) = Some (cur', t)" using 2(3) c by simp
    moreover have "x \<notin> set (cur @ [hd s])" "x \<notin> set (tl s)" using 2(4,5) c(2) by (cases s; simp)+
    ultimately show ?thesis using 2(1) c by blast
  next
    case c: 3
    have "dquote (cur @ [c]) s = Some (cur', t)" using 2(3) c by simp
    then show ?thesis using 2(2) c 2(4,5) by simp
  qed
qed simp

lemma tokenize_free:
  "tokenize_from cur b out s = Inr ts \<Longrightarrow> x \<notin> set cur \<Longrightarrow> x \<notin> set s \<Longrightarrow> \<forall>t\<in>set out. x \<notin> set t \<Longrightarrow> \<forall>t\<in>set ts. x \<notin> set t"
proof (induction cur b out s arbitrary: ts rule: tokenize_from.induct)
  case (2 cur b out c s)
  have tw: "x \<notin> set (takeWhile (\<lambda>c. c \<noteq> CHR 0x27) s)" "x \<notin> set (drop n s)" for n
    using 2(8) by (auto dest: set_takeWhileD in_set_dropD)
  consider "is_tok_blank c" b | "is_tok_blank c" "\<not> b" | "\<not> is_tok_blank c" "c = CHR 0x27" | "\<not> is_tok_blank c" "c = CHR 0x22" 
    | "\<not> is_tok_blank c" "c \<noteq> CHR 0x27" "c \<noteq> CHR 0x22" by blast
  then show ?case
  proof cases
    case 1
    then show ?thesis using 2(1) [OF 1] 2(6-9) by simp
  next
    case c: 2
    then show ?thesis using 2(2) [OF c] 2(6-9) by simp
  next
    case 3
    let ?q = "takeWhile (\<lambda>c. c \<noteq> CHR 0x27) s"
    have all: "\<not> length s \<le> length ?q" and eq: "tokenize_from (cur @ ?q) True out (drop (length ?q + 1) s) = Inr ts"
      using 2(6) 3 unfolding tokenize_from.simps Let_def by (simp_all only: if_False if_True split: if_split_asm) simp_all
    show ?thesis by (rule 2(3) [OF 3 refl all eq]) (use 2(7,9) tw in simp_all)
  next
    case 4
    then obtain cur' rest where q: "dquote cur s = Some (cur', rest)" "tokenize_from cur' True out rest = Inr ts"
      using 2(6) by (simp split: option.splits prod.splits) 
    have "x \<notin> set cur' \<and> x \<notin> set rest" by (rule dquote_free [OF q(1)]) (use 2(7,8) in simp_all)
    then show ?thesis using 2(4) [OF 4(1) _ 4(2) q(1) refl q(2)] 4 2(9) by simp
  next
    case 5
    have n: "c \<noteq> CHR 0x00" and eq: "tokenize_from (cur @ [c]) True out s = Inr ts" using 2(6) 5 by (simp_all split: if_splits)
    show ?thesis by (rule 2(5) [OF 5 n eq]) (use 2(7-9) in simp_all)
  qed
qed (auto split: if_splits)
lemma launches_no_server_flag:
  assumes "launches env body argv" and "CHR 0x00 \<notin> set body"
  shows "''--server'' \<notin> set (tl argv)"
proof -
  obtain tokens where t: "tokenize_command body = Inr tokens" "''--server'' \<notin> set (drop_name tokens)"
    "argv = wv_self_path env # map c_str (drop_name tokens)" using assms(1) by (auto simp: launches_def)
  have "CHR 0x00 \<notin> set x" if "x \<in> set (drop_name tokens)" for x
  proof -
    have "x \<in> set tokens" using that by (auto simp: drop_name_def dest: list.set_sel(2) split: if_splits)
    then show ?thesis using tokenize_free [OF t(1) [unfolded tokenize_command_def] _ assms(2)] by simp
  qed
  then have "map c_str (drop_name tokens) = drop_name tokens" by (intro map_idI) (auto simp: c_str_def takeWhile_eq_all_conv)
  then show ?thesis using t(2,3) by simp
qed

lemma wf_spawn:
  assumes wf: "wf_server sv" and c: "conn sv fd = Some c" and free: "\<not> lk_scan_busy (sv_links sv ! cn_link c)"
    and pid: "pid > 0" and p: "map_of (sv_pipes sv) p = None"
    and sv': "conn sv' = (conn sv)(fd \<mapsto> c\<lparr>cn_child_pid := pid, cn_child_out := Some p, cn_state := STREAMING_OUTPUT\<rparr>)"
      "sv_links sv' = (sv_links sv)[cn_link c := (sv_links sv ! cn_link c)\<lparr>lk_scan_busy := True, lk_running_pid := pid\<rparr>]"
      "map_of (sv_pipes sv') = (map_of (sv_pipes sv))(p \<mapsto> fd)"
  shows "wf_server sv'"
proof -
  have len: "cn_link c < length (sv_links sv)" using wf_conn [OF wf c] by (simp add: conn_ok_def)
  have none: "cn_link d \<noteq> cn_link c" if "conn sv fd' = Some d" "cn_child_pid d > 0" for fd' d
    using wf_conn [OF wf that(1)] that(2) free by (auto simp: conn_ok_def)
  then have c0: "\<not> cn_child_pid c > 0" using c by blast
  have ok: "conn_ok sv' fd' d" if at: "conn sv' fd' = Some d" for fd' d
  proof (cases "fd' = fd")
    case True
    then show ?thesis using at wf_conn [OF wf c] len pid by (auto simp: sv' conn_ok_def)
  next
    case False
    then have d: "conn sv fd' = Some d" using at by (simp add: sv')
    have ok: "conn_ok sv fd' d" by (rule wf_conn [OF wf d])
    show ?thesis
    proof (cases "cn_child_pid d > 0")
      case True
      then show ?thesis using ok none [OF d True] p by (auto simp: conn_ok_def sv')
    next
      case False
      then show ?thesis using ok by (auto simp: conn_ok_def sv')
    qed
  qed
  have link: "if lk_scan_busy (sv_links sv' ! i) then \<exists>fd c. conn sv' fd = Some c \<and> cn_link c = i \<and> cn_child_pid c > 0
      else lk_running_pid (sv_links sv' ! i) \<le> 0" if at: "i < length (sv_links sv')" for i
  proof (cases "i = cn_link c")
    case True
    have "conn sv' fd = Some (c\<lparr>cn_child_pid := pid, cn_child_out := Some p, cn_state := STREAMING_OUTPUT\<rparr>)"
      by (simp add: sv')
    then have "\<exists>fd d. conn sv' fd = Some d \<and> cn_link d = i \<and> cn_child_pid d > 0"
      using pid True by (metis connection.select_convs(2,11) connection.update_convs(1,11,12) connection.surjective)
    then show ?thesis using len True by (simp add: sv'(2))
  next
    case False
    then have i: "sv_links sv' ! i = sv_links sv ! i" "i < length (sv_links sv)" using at by (simp_all add: sv')
    have "\<exists>fd' d. conn sv' fd' = Some d \<and> cn_link d = i \<and> cn_child_pid d > 0"
      if there: "\<exists>fd' d. conn sv fd' = Some d \<and> cn_link d = i \<and> cn_child_pid d > 0"
    proof -
      obtain fd' d where d: "conn sv fd' = Some d" "cn_link d = i" "cn_child_pid d > 0" using there by blast
      then have "fd' \<noteq> fd" using c0 c by auto
      then show ?thesis using d by (intro exI [of _ fd'] exI [of _ d]) (simp add: sv')
    qed
    then show ?thesis using wf_link [OF wf i(2)] unfolding i(1) by (simp split: if_splits)
  qed
  have unique: "fd1 = fd2" if at: "conn sv' fd1 = Some d" "conn sv' fd2 = Some e"
    "cn_link d = cn_link e" "cn_child_pid d > 0" "cn_child_pid e > 0" for fd1 fd2 d e
  proof (cases "fd1 = fd \<or> fd2 = fd")
    case True
    then show ?thesis using at none [of fd1 d] none [of fd2 e] by (auto simp: sv' split: if_splits)
  next
    case False
    then show ?thesis using at wf_unique [OF wf, of fd1 d fd2 e] by (simp add: sv')
  qed
  have pipe: "\<exists>d. conn sv' fd' = Some d \<and> cn_child_out d = Some q \<and> cn_child_pid d > 0"
    if at: "map_of (sv_pipes sv') q = Some fd'" for q fd'
  proof (cases "q = p")
    case True
    then show ?thesis using at pid by (simp add: sv')
  next
    case False
    then have "map_of (sv_pipes sv) q = Some fd'" using at by (simp add: sv')
    then obtain d where d: "conn sv fd' = Some d" "cn_child_out d = Some q" "cn_child_pid d > 0" using wf_pipe [OF wf] by blast
    then have "fd' \<noteq> fd" using c0 c by auto
    then show ?thesis using d by (simp add: sv')
  qed
  show ?thesis unfolding wf_server_def using ok link unique pipe by blast
qed

text \<open>What a handler does at most: keep the invariant, and start one program for which \<open>Q\<close> holds.\<close>

definition starts_at_most :: "(nat \<Rightarrow> string list \<Rightarrow> bool) \<Rightarrow> server \<Rightarrow> server \<Rightarrow> bool" where
  "starts_at_most Q sv sv' \<longleftrightarrow>
     (wf_server sv \<and> spawn_ok sv \<longrightarrow> wf_server sv' \<and> length (sv_links sv') = length (sv_links sv) \<and>
        (spawns sv' = spawns sv \<or> (\<exists>i pid argv. spawns sv' = spawns sv @ [Spawned i pid argv] \<and> Q i argv)))"

lemma starts_settled: "settled sv sv' \<Longrightarrow> starts_at_most Q sv sv'"
  by (simp add: settled_def starts_at_most_def)

lemma starts_after: "starts_at_most Q a b \<Longrightarrow> settled b d \<Longrightarrow> starts_at_most Q a d"
  by (auto simp: settled_def starts_at_most_def)

lemma starts_before:
  assumes c: "calm a b" and s: "starts_at_most Q b d"
  shows "starts_at_most Q a d"
proof -
  have "spawn_ok b = spawn_ok a" "spawns b = spawns a" "length (sv_links b) = length (sv_links a)"
    using c calm_link(1) [OF c] by (simp_all add: calm_def spawn_ok_def split: spawn_result.split)
  with s wf_calm [OF _ c] show ?thesis by (simp add: starts_at_most_def)
qed

lemma starts_start_run:
  assumes c': "conn sv fd = Some c'" "cn_link c' = cn_link c"
    and Q: "\<And>argv. launches env body argv \<Longrightarrow> \<not> lk_scan_busy (sv_links sv ! cn_link c) \<Longrightarrow> Q (cn_link c) argv"
  shows "starts_at_most Q sv (start_run env fd c body sv)"
proof (cases "\<exists>tokens pid p. \<not> lk_scan_busy (sv_links sv ! cn_link c) \<and> tokenize_command body = Inr tokens \<and> tokens \<noteq> [] \<and>
    ''--server'' \<notin> set (drop_name tokens) \<and> wv_self_path env \<noteq> [] \<and> sv_spawn sv = Child pid p")
  case True
  then obtain tokens pid p where t: "\<not> lk_scan_busy (sv_links sv ! cn_link c)" "tokenize_command body = Inr tokens"
    "tokens \<noteq> []" "''--server'' \<notin> set (drop_name tokens)" "wv_self_path env \<noteq> []" "sv_spawn sv = Child pid p" by blast
  define argv where "argv = wv_self_path env # map c_str (drop_name tokens)"
  have launch: "launches env body argv" using t by (auto simp: launches_def argv_def)
  define sv1 where "sv1 = (let sv = noted [Spawned (cn_link c) pid argv] sv;
       sv = update_link (cn_link c) (\<lambda>l. l\<lparr>lk_scan_busy := True, lk_running_pid := pid\<rparr>) sv;
       sv = update_conn fd (\<lambda>c. c\<lparr>cn_child_pid := pid, cn_child_out := Some p, cn_state := STREAMING_OUTPUT\<rparr>) sv
     in sv\<lparr>sv_pipes := AList.update p fd (sv_pipes sv)\<rparr>)"
  have run: "start_run env fd c body sv = queue_and_flush fd stream_head sv1"
    using t by (simp add: start_run_def sv1_def argv_def Let_def)
  have "starts_at_most Q sv sv1"
    unfolding starts_at_most_def
  proof (intro impI)
    assume a: "wf_server sv \<and> spawn_ok sv"
    have "wf_server sv1"
    proof (rule wf_spawn [of sv fd c' pid p])
      show "pid > 0" "map_of (sv_pipes sv) p = None" using a t(6) by (simp_all add: spawn_ok_def)
      show "conn sv1 = (conn sv)(fd \<mapsto> c'\<lparr>cn_child_pid := pid, cn_child_out := Some p, cn_state := STREAMING_OUTPUT\<rparr>)"
        using c' by (simp add: sv1_def Let_def conn_update_conn fun_eq_iff)
    qed (use a c' t(1) in \<open>simp_all add: sv1_def Let_def update_conv'\<close>)
    moreover have "spawns sv1 = spawns sv @ [Spawned (cn_link c) pid argv]"
      by (simp add: sv1_def Let_def spawns_def is_spawned_def)
    moreover have "length (sv_links sv1) = length (sv_links sv)" by (simp add: sv1_def Let_def)
    ultimately show "wf_server sv1 \<and> length (sv_links sv1) = length (sv_links sv) \<and>
        (spawns sv1 = spawns sv \<or> (\<exists>i pid argv. spawns sv1 = spawns sv @ [Spawned i pid argv] \<and> Q i argv))"
      using Q [OF launch t(1)] by blast
  qed
  then show ?thesis unfolding run by (rule starts_after) simp
next
  case False
  then have "settled sv (start_run env fd c body sv)"
    by (auto simp: start_run_def bad_request_def internal_error_def Let_def split: sum.splits spawn_result.splits)
  then show ?thesis by (rule starts_settled)
qed

section \<open>Requests\<close>

definition runs_with_token :: "link \<Rightarrow> http_request \<Rightarrow> bool" where
  "runs_with_token l req \<longleftrightarrow>
     rq_method req = ''POST'' \<and> rq_path req = ''/run'' \<and> lk_token l \<noteq> [] \<and> provided_token l req = lk_token l"

lemma starts_dispatch:
  assumes c': "conn sv fd = Some c'" "cn_link c' = cn_link c" and len: "cn_link c < length (sv_links sv)"
    and Q: "\<And>argv. runs_with_token (sv_links sv ! cn_link c) req \<Longrightarrow> launches env (rq_body req) argv \<Longrightarrow>
      \<not> lk_scan_busy (sv_links sv ! cn_link c) \<Longrightarrow> Q (cn_link c) argv"
  shows "starts_at_most Q sv (dispatch env fd c req sv)"
proof -
  have page: "settled sv (get_page env fd c req sv)"
  proof -
    obtain ok sv1 where a: "require_auth fd c (case parse_query (rq_query req) ''token'' of Some v \<Rightarrow> v | None \<Rightarrow> []) sv = (ok, sv1)"
      by fastforce
    obtain flushed sv2 where f: "flush_outbuf fd (append_out fd (login_response env (sv_links sv ! cn_link c)) sv1) = (flushed, sv2)"
      by fastforce
    have "settled sv sv1" using settled_require_auth [of sv fd c] a by (metis snd_conv)
    moreover have "settled sv1 sv2"
      using settled_calm [OF calm_trans [OF calm_append_out calm_flush], of sv1 fd fd] f by (metis snd_conv)
    ultimately have "settled sv sv1" "settled sv sv2" "settled sv (close_connection fd sv2)"
      using settled_trans settled_close by blast+
    then show ?thesis by (simp add: get_page_def a f Let_def)
  qed
  have post: "starts_at_most Q sv (if \<not> ok then sv1 else if rq_path req = ''/run'' then start_run env fd c (rq_body req) sv1
      else kill_scan fd c sv1)"
    if r: "require_auth fd c (provided_token (sv_links sv ! cn_link c) req) sv = (ok, sv1)" and m: "rq_method req = ''POST''" for ok sv1
  proof (cases ok)
    case False
    have "settled sv sv1" using settled_require_auth [of sv fd c] r by (metis snd_conv)
    with False show ?thesis by (simp add: starts_settled)
  next
    case True
    then have "require_auth fd c (provided_token (sv_links sv ! cn_link c) req) sv = (True, sv1)" using r by simp
    note auth = require_auth_True [OF this]
    have kill: "settled sv1 (kill_scan fd c sv1)"
      using settled_trans [OF settled_calm [OF calm_noted] settled_response] by (simp add: kill_scan_def is_spawned_def Let_def)
    have l: "same_link (sv_links sv ! cn_link c) (sv_links sv1 ! cn_link c)" by (rule calm_link(2) [OF auth(1) len])
    have "starts_at_most Q sv1 (start_run env fd c (rq_body req) sv1)" if p: "rq_path req = ''/run''"
    proof (rule starts_start_run)
      show "conn sv1 fd = Some c'" "cn_link c' = cn_link c" using c' auth(2) by simp_all
      show "Q (cn_link c) argv" if "launches env (rq_body req) argv" "\<not> lk_scan_busy (sv_links sv1 ! cn_link c)" for argv
        using Q [OF _ that(1)] that(2) l auth(3,4) m p by (simp add: runs_with_token_def same_link_def)
    qed
    then show ?thesis using True starts_before [OF auth(1)] starts_settled [OF kill] by simp
  qed
  show ?thesis
    using post page by (auto simp: dispatch_def starts_settled split: prod.splits if_splits)
qed

text \<open>The bytes the reads of an event deliver before the first that blocks or ends.\<close>

fun taken :: "read_result list \<Rightarrow> string" where
  "taken [] = []"
| "taken (Got data # rs) = data @ taken rs"
| "taken (ReadInterrupted # rs) = taken rs"
| "taken (r # rs) = []"

lemma read_loop_stop: "read_loop fd rs sv = (False, sv') \<Longrightarrow> settled sv sv'"
proof (induction fd rs sv rule: read_loop.induct)
  case (5 fd data rs sv)
  show ?case
  proof (cases "conn sv fd")
    case None
    then show ?thesis using 5(2) by simp
  next
    case (Some c)
    show ?thesis
    proof (cases "length (cn_inbuf c) + length data > kMaxHeaderBytes + kMaxBodyBytes")
      case True
      then show ?thesis using 5(2) Some by auto
    next
      case False
      have "calm sv (update_conn fd (\<lambda>c. c\<lparr>cn_inbuf := cn_inbuf c @ data\<rparr>) sv)"
        by (rule calm_update_conn) (use False Some in \<open>simp add: same_conn_def head_ok_append\<close>)
      moreover have "settled (update_conn fd (\<lambda>c. c\<lparr>cn_inbuf := cn_inbuf c @ data\<rparr>) sv) sv'"
        using 5(1) [OF Some False] 5(2) Some False by simp
      ultimately show ?thesis using settled_trans settled_calm by blast
    qed
  qed
qed auto

lemma read_loop_go_on:
  "read_loop fd rs sv = (True, sv') \<Longrightarrow> conn sv fd = Some c \<Longrightarrow>
    calm sv sv' \<and> (\<exists>c'. conn sv' fd = Some c' \<and> same_conn c c' \<and> cn_inbuf c' = cn_inbuf c @ taken rs)"
proof (induction fd rs sv arbitrary: c rule: read_loop.induct)
  case (5 fd data rs sv)
  show ?case
  proof (cases "length (cn_inbuf c) + length data > kMaxHeaderBytes + kMaxBodyBytes")
    case True
    then show ?thesis using 5(2,3) by simp
  next
    case False
    let ?sv = "update_conn fd (\<lambda>c. c\<lparr>cn_inbuf := cn_inbuf c @ data\<rparr>) sv" and ?c = "c\<lparr>cn_inbuf := cn_inbuf c @ data\<rparr>"
    have calm: "calm sv ?sv" by (rule calm_update_conn) (use False 5(3) in \<open>simp add: same_conn_def head_ok_append\<close>)
    have c: "same_conn c ?c" using False by (simp add: same_conn_def head_ok_append)
    have "conn ?sv fd = Some ?c" using 5(3) by (simp add: conn_update_conn)
    moreover have "read_loop fd rs ?sv = (True, sv')" using 5(2,3) False by simp
    ultimately obtain c' where "calm ?sv sv'" "conn sv' fd = Some c'" "same_conn ?c c'" "cn_inbuf c' = cn_inbuf ?c @ taken rs"
      using 5(1) [OF 5(3) False, of ?c] by blast
    then show ?thesis using calm_trans [OF calm] c by (auto simp: same_conn_def)
  qed
qed auto

lemma provided_token_body [simp]: "provided_token l (req\<lparr>rq_body := b\<rparr>) = provided_token l req"
  by (simp add: provided_token_def cookie_of_def header_value_def Let_def)

lemma provided_token_link:
  assumes "same_link l l'"
  shows "provided_token l' req = provided_token l req"
proof -
  have "cookie_of l' req = cookie_of l req" using assms by (simp add: cookie_of_def same_link_def)
  then show ?thesis by (simp add: provided_token_def Let_def)
qed

text \<open>A program for link \<open>i\<close> is asked for by what connection \<open>fd\<close> has sent, \<open>input\<close>.\<close>

definition asked_for :: "server_env \<Rightarrow> link \<Rightarrow> string \<Rightarrow> string list \<Rightarrow> bool" where
  "asked_for env l input argv \<longleftrightarrow>
     \<not> lk_scan_busy l \<and>
     (case posted input of None \<Rightarrow> False | Some (req, body) \<Rightarrow> runs_with_token l req \<and> launches env body argv)"

lemma asked_for_same: "same_link l l' \<Longrightarrow> asked_for env l' input argv = asked_for env l input argv"
  using provided_token_link [of l l'] by (simp add: asked_for_def same_link_def runs_with_token_def split: option.split)

lemma launches_Nil [simp]: "\<not> launches env [] argv"
  by (simp add: launches_def tokenize_command_def)

lemma posted_body:
  assumes ok: "head_ok c" and more: "cn_content_length c \<noteq> 0" "cn_content_length c \<le> length (cn_inbuf c) - cn_header_end c"
    and req: "parse_request (cn_inbuf c) (cn_header_end c - 4) = Some req"
  shows "posted (cn_inbuf c) = Some (req, substr (cn_inbuf c) (cn_header_end c) (cn_content_length c))"
proof -
  have parsed: "cn_headers_parsed c" using ok more(1) by (auto simp: head_ok_def split: if_splits)
  then obtain req' where a: "announced (cn_inbuf c) = Some (cn_header_end c, req')" "declared_length req' = cn_content_length c"
    using ok more(1) by (auto simp: head_ok_def)
  have "req' = req" using a(1) req ok parsed by (auto simp: announced_def head_ok_def split: option.splits if_splits)
  then show ?thesis using a more by (simp add: posted_def)
qed

lemma starts_serve_body:
  assumes c: "conn sv fd = Some c" and ok: "head_ok c" and len: "cn_link c < length (sv_links sv)"
    and Q: "\<And>argv. asked_for env (sv_links sv ! cn_link c) (cn_inbuf c) argv \<Longrightarrow> Q (cn_link c) argv"
  shows "starts_at_most Q sv (serve_body env fd sv)"
proof (cases "cn_content_length c \<le> length (cn_inbuf c) - cn_header_end c \<and>
    parse_request (cn_inbuf c) (cn_header_end c - 4) \<noteq> None")
  case False
  then show ?thesis using c by (auto simp: serve_body_def bad_request_def intro!: starts_settled)
next
  case True
  then obtain req where all: "cn_content_length c \<le> length (cn_inbuf c) - cn_header_end c"
    and Some: "parse_request (cn_inbuf c) (cn_header_end c - 4) = Some req" by blast
  let ?req = "req\<lparr>rq_body := substr (cn_inbuf c) (cn_header_end c) (cn_content_length c)\<rparr>"
  have "starts_at_most Q sv (dispatch env fd c ?req sv)"
  proof (rule starts_dispatch [OF c refl len])
    fix argv
    assume a: "runs_with_token (sv_links sv ! cn_link c) ?req" "launches env (rq_body ?req) argv"
      "\<not> lk_scan_busy (sv_links sv ! cn_link c)"
    have runs: "runs_with_token (sv_links sv ! cn_link c) req"
      using a(1) by (simp add: runs_with_token_def)
    have "cn_content_length c \<noteq> 0" using a(2) by (cases "cn_content_length c = 0") (simp_all add: substr_def)
    then have "asked_for env (sv_links sv ! cn_link c) (cn_inbuf c) argv"
      using a(2,3) runs posted_body [OF ok _ all Some] by (simp add: asked_for_def)
    then show "Q (cn_link c) argv" by (rule Q)
  qed
  then show ?thesis using c Some by (auto simp: serve_body_def intro: starts_settled)
qed

lemma starts_serve_headers:
  assumes c: "conn sv fd = Some c" and ok: "head_ok c" and new: "\<not> cn_headers_parsed c"
    and len: "cn_link c < length (sv_links sv)"
    and Q: "\<And>argv. asked_for env (sv_links sv ! cn_link c) (cn_inbuf c) argv \<Longrightarrow> Q (cn_link c) argv"
  shows "starts_at_most Q sv (serve_headers env fd c sv)"
proof (cases "find_from [CR, NL, CR, NL] (cn_inbuf c) 0")
  case None
  then show ?thesis by (auto simp: serve_headers_def intro!: starts_settled)
next
  case (Some pos)
  have zero: "cn_content_length c = 0" using ok new by (simp add: head_ok_def)
  define sv1 where "sv1 = update_conn fd (\<lambda>c. c\<lparr>cn_header_end := pos + 4, cn_headers_parsed := True\<rparr>) sv"
  have "head_ok (c\<lparr>cn_header_end := pos + 4, cn_headers_parsed := True\<rparr>)" using Some zero by (simp add: head_ok_def)
  then have c1: "calm sv sv1" unfolding sv1_def by (intro calm_update_conn) (simp add: same_conn_def c)
  show ?thesis
  proof (cases "parse_request (cn_inbuf c) pos")
    case None
    then show ?thesis using Some settled_trans [OF settled_calm [OF c1] settled_response]
      by (simp add: serve_headers_def bad_request_def starts_settled flip: sv1_def)
  next
    case req: (Some req)
    define n where "n = (if rq_method req = ''POST'' then declared_length req else cn_content_length c)"
    define sv2 where "sv2 = update_conn fd (\<lambda>c. c\<lparr>cn_content_length := n\<rparr>) sv1"
    let ?c = "c\<lparr>cn_header_end := pos + 4, cn_headers_parsed := True, cn_content_length := n\<rparr>"
    have go_on: "starts_at_most Q sv (dispatch env fd c req sv2)" "starts_at_most Q sv (serve_body env fd sv2)"
      if fits: "rq_headers req ''transfer-encoding'' = None" "rq_method req = ''POST'' \<longrightarrow> declared_length req \<le> kMaxBodyBytes"
    proof -
      have okc: "head_ok ?c" using Some req fits zero by (simp add: head_ok_def announced_def n_def)
      have at: "conn sv2 fd = Some ?c" using c by (simp add: sv2_def sv1_def conn_update_conn)
      have "calm sv1 sv2" unfolding sv2_def
        by (rule calm_update_conn) (use okc c in \<open>auto simp: same_conn_def sv1_def conn_update_conn\<close>)
      then have c2: "calm sv sv2" by (rule calm_trans [OF c1])
      have l: "sv_links sv2 = sv_links sv" by (simp add: sv2_def sv1_def)
      have "starts_at_most Q sv2 (dispatch env fd c req sv2)"
      proof (rule starts_dispatch [OF at])
        have "rq_body req = []" using req by (auto simp: parse_request_def Let_def split: list.splits prod.splits)
        then show "Q (cn_link c) argv" if "launches env (rq_body req) argv" for argv using that by simp
      qed (use len l in simp_all)
      moreover have "starts_at_most Q sv2 (serve_body env fd sv2)"
        by (rule starts_serve_body [OF at okc]) (use len l Q in simp_all)
      ultimately show "starts_at_most Q sv (dispatch env fd c req sv2)" "starts_at_most Q sv (serve_body env fd sv2)"
        using starts_before [OF c2] by blast+
    qed
    moreover have "settled sv (send_simple_response fd a b d e sv1)" for a b d e
      by (rule settled_trans [OF settled_calm [OF c1] settled_response])
    moreover have "serve_headers env fd c sv =
        (if rq_headers req ''transfer-encoding'' \<noteq> None then bad_request fd ''Transfer-Encoding is not supported'' sv1
         else if rq_method req = ''POST'' \<and> declared_length req > kMaxBodyBytes then too_long fd sv1
         else if rq_method req \<noteq> ''POST'' \<or> n = 0 then dispatch env fd c req sv2 else serve_body env fd sv2)"
      using Some req by (simp add: serve_headers_def Let_def n_def sv1_def sv2_def)
    ultimately show ?thesis by (simp add: starts_settled bad_request_def too_long_def not_less)
  qed
qed

lemma starts_client_readable:
  assumes c: "conn sv fd = Some c" and ok: "head_ok c" and len: "cn_link c < length (sv_links sv)"
    and Q: "\<And>argv. asked_for env (sv_links sv ! cn_link c) (cn_inbuf c @ taken rs) argv \<Longrightarrow> Q (cn_link c) argv"
  shows "starts_at_most Q sv (on_client_readable env fd rs sv)"
proof -
  obtain go_on sv1 where r: "read_loop fd rs sv = (go_on, sv1)" by fastforce
  show ?thesis
  proof (cases go_on)
    case False
    then show ?thesis using r read_loop_stop by (auto simp: on_client_readable_def intro!: starts_settled)
  next
    case True
    then have "read_loop fd rs sv = (True, sv1)" using r by simp
    then obtain c1 where calm: "calm sv sv1" and at: "conn sv1 fd = Some c1" "same_conn c c1" "cn_inbuf c1 = cn_inbuf c @ taken rs"
      using read_loop_go_on [OF _ c] by blast
    have link: "cn_link c1 = cn_link c" using at(2) by (simp add: same_conn_def)
    have len1: "cn_link c1 < length (sv_links sv1)" using len calm_link(1) [OF calm] link by simp
    have Q1: "Q (cn_link c1) argv" if "asked_for env (sv_links sv1 ! cn_link c1) (cn_inbuf c1) argv" for argv
      using Q that asked_for_same [OF calm_link(2) [OF calm len]] by (simp add: link at(3))
    have ok1: "head_ok c1" using ok at(2) by (simp add: same_conn_def)
    have "starts_at_most Q sv1 (serve_body env fd sv1)" by (rule starts_serve_body [OF at(1) ok1 len1]) (rule Q1)
    moreover have "starts_at_most Q sv1 (serve_headers env fd c1 sv1)" if "\<not> cn_headers_parsed c1"
      by (rule starts_serve_headers [OF at(1) ok1 that len1]) (rule Q1)
    ultimately show ?thesis using True r at(1) starts_before [OF calm] by (simp add: on_client_readable_def)
  qed
qed

lemma starts_client_event:
  assumes wf: "wf_server sv" and c: "conn sv fd = Some c"
    and Q: "\<And>argv. asked_for env (sv_links sv ! cn_link c) (cn_inbuf c @ taken rs) argv \<Longrightarrow> Q (cn_link c) argv"
  shows "starts_at_most Q sv (client_event env fd hup wr rd rs sv)"
proof -
  have len: "cn_link c < length (sv_links sv)" using wf_conn [OF wf c] by (simp add: conn_ok_def)
  obtain ok sv1 where f: "(if wr then flush_outbuf fd sv else (True, sv)) = (ok, sv1)" by fastforce
  have calm: "calm sv sv1" using f calm_flush [of sv fd] calm_refl [of sv] by (metis snd_conv)
  have close: "settled sv (close_connection fd sv1)" by (rule settled_trans [OF settled_calm [OF calm] settled_close])
  have inbuf: "\<exists>c1. conn sv1 fd = Some c1 \<and> cn_link c1 = cn_link c \<and> cn_inbuf c1 = cn_inbuf c"
    using f c by (auto simp: flush_outbuf_def conn_update_conn split: if_splits prod.splits)
  then obtain c1 where c1: "conn sv1 fd = Some c1" "cn_link c1 = cn_link c" "cn_inbuf c1 = cn_inbuf c" by blast
  have "starts_at_most Q sv1 (on_client_readable env fd rs sv1)"
  proof (rule starts_client_readable [OF c1(1)])
    obtain c0 where "conn sv1 fd = Some c0" "same_conn c c0" using calm_conn(2) [OF calm c] by blast
    then show "head_ok c1" using c1(1) wf_conn [OF wf c] by (simp add: same_conn_def conn_ok_def)
    show "cn_link c1 < length (sv_links sv1)" using len c1(2) calm_link(1) [OF calm] by simp
    show "Q (cn_link c1) argv" if "asked_for env (sv_links sv1 ! cn_link c1) (cn_inbuf c1 @ taken rs) argv" for argv
      using Q that asked_for_same [OF calm_link(2) [OF calm len]] by (simp add: c1)
  qed
  then have "starts_at_most Q sv (on_client_readable env fd rs sv1)" by (rule starts_before [OF calm])
  then show ?thesis
    using close starts_settled [OF close] settled_calm [OF calm]
    by (auto simp: client_event_def c f intro: starts_settled)
qed

section \<open>The other events\<close>

lemma wf_reap_any:
  assumes wf: "wf_server sv" and c: "conn sv fd = Some c" "cn_child_pid c > 0"
  shows "settled sv (reap_child fd sv)"
  using wf_reap [OF wf c] by (simp add: settled_def)

lemma settled_pipe:
  assumes "wf_server sv" and "conn sv fd = Some c" and "cn_child_pid c > 0"
  shows "settled sv (on_child_pipe_readable fd rs sv)"
  using assms
proof (induction fd rs sv arbitrary: c rule: on_child_pipe_readable.induct)
  case (4 fd data rs sv)
  let ?sv = "queue_and_flush fd (make_chunk data) sv"
  show ?case
  proof (cases "conn ?sv fd")
    case None
    then show ?thesis by simp
  next
    case (Some d)
    have wf: "wf_server ?sv" using settled_queue [of sv fd "make_chunk data"] 4(2) by (simp add: settled_def)
    have "cn_child_pid d > 0"
    proof -
      obtain ok sv1 where f: "flush_outbuf fd (append_out fd (make_chunk data) sv) = (ok, sv1)" by fastforce
      have "calm sv (snd (flush_outbuf fd (append_out fd (make_chunk data) sv)))"
        by (rule calm_trans [OF calm_append_out calm_flush])
      then have calm: "calm sv sv1" using f by simp
      have gone: "conn (close_connection fd sv') fd = None" for sv'
        by (auto simp: close_connection_def conn_def noted_def delete_conv' Let_def split: option.split)
      have "?sv = sv1" using Some gone 4(3) f by (auto simp: queue_and_flush_def Let_def split: if_splits)
      then obtain c0 where "conn sv fd = Some c0" "same_conn c0 d" using calm_conn(1) [OF calm] Some by blast
      then show ?thesis using 4(3,4) by (simp add: same_conn_def)
    qed
    then have "settled ?sv (on_child_pipe_readable fd rs ?sv)" using 4(1) [OF refl] Some wf by simp
    then show ?thesis using Some settled_trans [OF settled_queue] by (simp add: Let_def)
  qed
next
  case (5 fd rs sv)
  let ?sv = "update_conn fd (\<lambda>c. c\<lparr>cn_child_eof := True\<rparr>) sv"
  have calm: "calm sv ?sv" by (rule calm_update_conn) (simp add: same_conn_def)
  have at: "conn ?sv fd = Some (c\<lparr>cn_child_eof := True\<rparr>)" using 5(2) by (simp add: conn_update_conn)
  have "settled ?sv (reap_child fd ?sv)" by (rule wf_reap_any [OF wf_calm [OF 5(1) calm] at]) (simp add: 5(3))
  then have "settled sv (queue_and_flush fd (''0'' @ crlf @ crlf) (reap_child fd ?sv))"
    using settled_trans [OF settled_calm [OF calm]] settled_trans settled_queue by blast
  then show ?case using settled_trans settled_close by (auto simp: Let_def)
qed auto

lemma settled_accept:
  assumes "conn sv fd = None" and "i < length (sv_links sv)"
  shows "settled sv (accept_connection fd i ip sv)"
proof -
  let ?sv = "accept_connection fd i ip sv"
  have conns: "conn ?sv x = (if x = fd then Some \<lparr>cn_state = READING_REQUEST, cn_link = i, cn_peer_ip = ip, cn_created_at = sv_now sv,
      cn_inbuf = [], cn_headers_parsed = False, cn_header_end = 0, cn_content_length = 0, cn_outbuf = [],
      cn_want_epollout = False, cn_child_pid = -1, cn_child_out = None, cn_child_eof = False\<rparr> else conn sv x)" for x
    by (simp add: accept_connection_def conn_def update_conv')
  have same: "sv_links ?sv = sv_links sv" "sv_pipes ?sv = sv_pipes sv" "sv_log ?sv = sv_log sv"
    by (simp_all add: accept_connection_def)
  have "wf_server ?sv" if wf: "wf_server sv"
  proof -
    have old: "x \<noteq> fd" if "conn sv x = Some c" for x c using assms(1) that by auto
    have ok: "conn_ok ?sv x c" if "conn ?sv x = Some c" for x c
      using that head_ok_new wf_conn [OF wf, of x c] assms(2) by (auto simp: conns same conn_ok_def split: if_splits)
    have link: "if lk_scan_busy (sv_links ?sv ! j) then \<exists>x c. conn ?sv x = Some c \<and> cn_link c = j \<and> cn_child_pid c > 0
        else lk_running_pid (sv_links ?sv ! j) \<le> 0" if "j < length (sv_links ?sv)" for j
    proof -
      have "if lk_scan_busy (sv_links sv ! j) then \<exists>x c. conn sv x = Some c \<and> cn_link c = j \<and> cn_child_pid c > 0
          else lk_running_pid (sv_links sv ! j) \<le> 0" using wf_link [OF wf] that by (simp add: same)
      then show ?thesis using old unfolding same conns by (metis (no_types, lifting))
    qed
    have unique: "x = y" if "conn ?sv x = Some d" "conn ?sv y = Some e"
      "cn_link d = cn_link e" "cn_child_pid d > 0" "cn_child_pid e > 0" for x y d e
      using that wf_unique [OF wf, of x d y e] by (auto simp: conns split: if_splits)
    have pipe: "\<exists>d. conn ?sv x = Some d \<and> cn_child_out d = Some q \<and> cn_child_pid d > 0"
      if "map_of (sv_pipes ?sv) q = Some x" for q x
      using wf_pipe [OF wf, of q x] that old by (fastforce simp: same conns)
    show ?thesis unfolding wf_server_def using ok link unique pipe by blast
  qed
  then show ?thesis by (simp add: settled_def same spawns_def)
qed

lemma settled_sweep: "settled sv (sweep_idle_connections sv)"
proof -
  have fold: "settled sv (fold close_connection fds sv)" for fds sv
    by (induction fds arbitrary: sv) (auto intro: settled_trans [OF settled_close])
  have "calm sv (sv\<lparr>sv_last_sweep := t\<rparr>)" for t
    by (simp add: calm_def spawns_def list_all2_refl option.rel_refl)
  then show ?thesis using settled_trans [OF settled_calm fold] by (simp add: sweep_idle_connections_def)
qed

text \<open>What the system guarantees: new descriptors are not in use, new processes have an identity.\<close>

definition occurrence_ok :: "server \<Rightarrow> occurrence \<Rightarrow> bool" where
  "occurrence_ok sv ev \<longleftrightarrow>
     (case oc_spawn ev of Child pid p \<Rightarrow> pid > 0 \<and> map_of (sv_pipes sv) p = None | _ \<Rightarrow> True) \<and>
     (case oc_what ev of Accepted fd i ip \<Rightarrow> conn sv fd = None \<and> i < length (sv_links sv) | _ \<Rightarrow> True)"

fun occurrences_ok :: "server_env \<Rightarrow> occurrence list \<Rightarrow> server \<Rightarrow> bool" where
  "occurrences_ok env [] sv = True"
| "occurrences_ok env (ev # evs) sv = (occurrence_ok sv ev \<and> occurrences_ok env evs (serve env ev sv))"

text \<open>What an event asks for: the request its connection has sent up to now.\<close>

definition requests :: "server_env \<Rightarrow> server \<Rightarrow> occurrence \<Rightarrow> nat \<Rightarrow> string list \<Rightarrow> bool" where
  "requests env sv ev i argv \<longleftrightarrow>
     (\<exists>fd hup wr rd rs c. oc_what ev = Client fd hup wr rd rs \<and> conn sv fd = Some c \<and> cn_link c = i \<and>
        i < length (sv_links sv) \<and> asked_for env (sv_links sv ! i) (cn_inbuf c @ taken rs) argv)"

lemma starts_serve:
  assumes wf: "wf_server sv" and ok: "occurrence_ok sv ev"
  shows "wf_server (serve env ev sv)" and "length (sv_links (serve env ev sv)) = length (sv_links sv)"
    and "spawns (serve env ev sv) = spawns sv \<or>
      (\<exists>i pid argv. spawns (serve env ev sv) = spawns sv @ [Spawned i pid argv] \<and> requests env sv ev i argv)"
proof -
  define sv0 where "sv0 = sv\<lparr>sv_now := oc_now ev, sv_writes := oc_writes ev, sv_spawn := oc_spawn ev\<rparr>"
  have same: "conn sv0 = conn sv" "sv_links sv0 = sv_links sv" "sv_pipes sv0 = sv_pipes sv" "spawns sv0 = spawns sv"
    by (simp_all add: sv0_def conn_def fun_eq_iff spawns_def)
  have wf0: "wf_server sv0" using wf by (simp add: wf_server_def conn_ok_def same)
  have spawn: "spawn_ok sv0" using ok by (auto simp: spawn_ok_def sv0_def occurrence_ok_def split: spawn_result.splits)
  have "starts_at_most (requests env sv ev) sv0 (serve env ev sv)"
  proof (cases "oc_what ev")
    case (Accepted fd i ip)
    then have "settled sv0 (accept_connection fd i ip sv0)"
      using ok by (intro settled_accept) (simp_all add: same occurrence_ok_def)
    then show ?thesis using Accepted by (simp add: serve_def sv0_def [symmetric] Let_def starts_settled)
  next
    case (Client fd hup wr rd rs)
    have "starts_at_most (requests env sv ev) sv0 (client_event env fd hup wr rd rs sv0)"
    proof (cases "conn sv fd")
      case None
      then show ?thesis by (simp add: client_event_def same starts_settled)
    next
      case (Some c)
      have "cn_link c < length (sv_links sv)" using wf_conn [OF wf Some] by (simp add: conn_ok_def)
      then show ?thesis
        using Some Client by (intro starts_client_event [OF wf0]) (auto simp: same requests_def)
    qed
    then show ?thesis using Client by (simp add: serve_def sv0_def [symmetric] Let_def)
  next
    case (Pipe p rs)
    have "settled sv0 (case map_of (sv_pipes sv0) p of None \<Rightarrow> sv0 | Some fd \<Rightarrow> on_child_pipe_readable fd rs sv0)"
    proof (cases "map_of (sv_pipes sv0) p")
      case (Some fd)
      then show ?thesis using wf_pipe [OF wf0 Some] settled_pipe [OF wf0] by auto
    qed simp
    then show ?thesis using Pipe by (simp add: serve_def sv0_def [symmetric] Let_def starts_settled)
  next
    case Sweep
    then show ?thesis using settled_sweep by (simp add: serve_def sv0_def [symmetric] Let_def starts_settled)
  qed
  then show "wf_server (serve env ev sv)" and "length (sv_links (serve env ev sv)) = length (sv_links sv)"
    and "spawns (serve env ev sv) = spawns sv \<or>
      (\<exists>i pid argv. spawns (serve env ev sv) = spawns sv @ [Spawned i pid argv] \<and> requests env sv ev i argv)"
    using wf0 spawn by (simp_all add: starts_at_most_def same)
qed

section \<open>Bounded logins\<close>

fun refusals :: "string \<Rightarrow> (int \<times> string \<times> string) list \<Rightarrow> link \<Rightarrow> nat" where
  "refusals ip [] l = 0"
| "refusals ip ((now, ip', provided) # as) l =
     (let (res, l) = login_attempt now ip' provided l
      in (if res = Refused \<and> ip' = ip then 1 else 0) + refusals ip as l)"

definition entry :: "string \<Rightarrow> link \<Rightarrow> nat \<times> int" where
  "entry ip l = (case map_of (lk_auth_fail l) ip of Some st \<Rightarrow> st | None \<Rightarrow> (0, 0))"

lemma auth_entry_eq:
  "auth_entry now ip l = (if now - snd (entry ip l) > kAuthFailureWindowSec then (0, now) else entry ip l)"
  by (simp add: auth_entry_def entry_def Let_def split: prod.splits)

lemma entry_update: "entry ip (l\<lparr>lk_auth_fail := AList.update ip' st (lk_auth_fail l)\<rparr>) = (if ip = ip' then st else entry ip l)"
  by (simp add: entry_def update_conv')

lemma login_attempt_entry:
  assumes "login_attempt now ip' provided l = (res, l')"
  shows "ip' \<noteq> ip \<Longrightarrow> entry ip l' = entry ip l"
    and "ip' = ip \<Longrightarrow> res \<noteq> Refused \<Longrightarrow> entry ip l' = auth_entry now ip l"
    and "ip' = ip \<Longrightarrow> res = Refused \<Longrightarrow> fst (auth_entry now ip l) < kMaxAuthFailures \<and>
      entry ip l' = (fst (auth_entry now ip l) + 1, snd (auth_entry now ip l))"
proof -
  let ?st = "auth_entry now ip' l"
  define l1 where "l1 = l\<lparr>lk_auth_fail := AList.update ip' ?st (lk_auth_fail l)\<rparr>"
  have e1: "entry x l1 = (if x = ip' then ?st else entry x l)" for x by (simp add: l1_def entry_update)
  have again: "auth_entry now ip' l1 = ?st"
    unfolding auth_entry_eq [of now ip' l1] e1 by (auto simp: auth_entry_eq kAuthFailureWindowSec_def)
  have l': "if fst ?st \<ge> kMaxAuthFailures \<or> tokens_match provided (lk_token l) then res \<noteq> Refused \<and> l' = l1
      else res = Refused \<and> l' = record_auth_failure now ip' l1"
    using assms by (auto simp: login_attempt_def auth_rate_limited_def Let_def l1_def split: if_splits)
  have e2: "entry x (record_auth_failure now ip' l1) = (if x = ip' then (fst ?st + 1, snd ?st) else entry x l)" for x
    by (simp add: record_auth_failure_def again entry_update e1 split: prod.splits)
  show "entry ip l' = entry ip l" if "ip' \<noteq> ip" using l' that by (auto simp: e1 e2 split: if_splits)
  show "entry ip l' = auth_entry now ip l" if "ip' = ip" "res \<noteq> Refused" using l' that e1 [of ip] by (auto split: if_splits)
  show "fst (auth_entry now ip l) < kMaxAuthFailures \<and>
      entry ip l' = (fst (auth_entry now ip l) + 1, snd (auth_entry now ip l))" if "ip' = ip" "res = Refused"
    using l' that e2 [of ip] by (auto split: if_splits)
qed

text \<open>Once the window has begun after \<open>t\<close>, it is not renewed up to \<open>t + 60\<close>; before that it is renewed once at most.\<close>

definition in_window :: "int \<Rightarrow> (int \<times> string \<times> string) list \<Rightarrow> bool" where
  "in_window t as \<longleftrightarrow> list_all (\<lambda>(now, ip, provided). t \<le> now \<and> now \<le> t + kAuthFailureWindowSec) as"

lemma refusals_in_window:
  "in_window t as \<Longrightarrow> t \<le> snd (entry ip l) \<Longrightarrow> refusals ip as l \<le> kMaxAuthFailures - fst (entry ip l)"
proof (induction ip as l rule: refusals.induct)
  case (2 ip now ip' provided as l)
  obtain res l' where r: "login_attempt now ip' provided l = (res, l')" by fastforce
  note e = login_attempt_entry [OF r, where ip = ip]
  have keep: "auth_entry now ip l = entry ip l" using 2(2,3) by (auto simp: in_window_def auth_entry_eq)
  have "t \<le> snd (entry ip l')" using e keep 2(3) by (cases "ip' = ip"; cases "res = Refused") auto
  then have "refusals ip as l' \<le> kMaxAuthFailures - fst (entry ip l')" using 2(1,2) r by (simp add: in_window_def)
  moreover have "refusals ip ((now, ip', provided) # as) l = (if res = Refused \<and> ip' = ip then 1 else 0) + refusals ip as l'"
    by (simp add: r)
  ultimately show ?case using e keep by (cases "ip' = ip"; cases "res = Refused") (auto simp del: refusals.simps)
qed simp

lemma refusals_bounded:
  "in_window t as \<Longrightarrow> refusals ip as l \<le> (kMaxAuthFailures - fst (entry ip l)) + kMaxAuthFailures"
proof (induction ip as l rule: refusals.induct)
  case (2 ip now ip' provided as l)
  obtain res l' where r: "login_attempt now ip' provided l = (res, l')" by fastforce
  note e = login_attempt_entry [OF r, where ip = ip]
  have now: "t \<le> now" and rest: "in_window t as" using 2(2) by (auto simp: in_window_def)
  have step: "refusals ip ((now, ip', provided) # as) l = (if res = Refused \<and> ip' = ip then 1 else 0) + refusals ip as l'"
    by (simp add: r)
  show ?case
  proof (cases "ip' = ip \<and> now - snd (entry ip l) > kAuthFailureWindowSec")
    case True
    then have new: "auth_entry now ip l = (0, now)" by (simp add: auth_entry_eq)
    have "t \<le> snd (entry ip l')" using e new True now by (cases "res = Refused") auto
    then have "refusals ip as l' \<le> kMaxAuthFailures - fst (entry ip l')" using refusals_in_window [OF rest] by blast
    then show ?thesis unfolding step using e new True by (cases "res = Refused") (auto simp del: refusals.simps)
  next
    case False
    have "refusals ip as l' \<le> (kMaxAuthFailures - fst (entry ip l')) + kMaxAuthFailures" using 2(1) rest r by simp
    then show ?thesis unfolding step using e False
      by (cases "ip' = ip"; cases "res = Refused") (auto simp: auth_entry_eq)
  qed
qed simp

section \<open>Runs\<close>

lemma serve_all_Cons [simp]: "serve_all env (ev # evs) sv = serve_all env evs (serve env ev sv)"
  by (simp add: serve_all_def)

lemma serve_all_Nil [simp]: "serve_all env [] sv = sv"
  by (simp add: serve_all_def)

lemma wf_serve_all:
  "wf_server sv \<Longrightarrow> occurrences_ok env evs sv \<Longrightarrow>
    wf_server (serve_all env evs sv) \<and> length (sv_links (serve_all env evs sv)) = length (sv_links sv)"
  by (induction evs arbitrary: sv) (simp_all add: starts_serve(1,2))

lemma spawned_in_run:
  "wf_server sv \<Longrightarrow> occurrences_ok env evs sv \<Longrightarrow> Spawned i pid argv \<in> set (spawns (serve_all env evs sv)) \<Longrightarrow>
    Spawned i pid argv \<in> set (spawns sv) \<or>
    (\<exists>evs1 ev evs2. evs = evs1 @ ev # evs2 \<and> requests env (serve_all env evs1 sv) ev i argv)"
proof (induction evs arbitrary: sv)
  case (Cons ev evs)
  have ok: "occurrence_ok sv ev" "occurrences_ok env evs (serve env ev sv)" using Cons.prems(2) by simp_all
  have "Spawned i pid argv \<in> set (spawns (serve env ev sv)) \<or>
      (\<exists>evs1 e evs2. evs = evs1 @ e # evs2 \<and> requests env (serve_all env evs1 (serve env ev sv)) e i argv)"
    using Cons.IH [OF starts_serve(1) [OF Cons.prems(1) ok(1)] ok(2)] Cons.prems(3) by simp
  then show ?case
  proof
    assume "Spawned i pid argv \<in> set (spawns (serve env ev sv))"
    then have "Spawned i pid argv \<in> set (spawns sv) \<or> requests env sv ev i argv"
      using starts_serve(3) [OF Cons.prems(1) ok(1), of env] by auto
    then show ?thesis by (metis append_Nil serve_all_Nil)
  next
    assume "\<exists>evs1 e evs2. evs = evs1 @ e # evs2 \<and> requests env (serve_all env evs1 (serve env ev sv)) e i argv"
    then obtain evs1 e evs2 where "evs = evs1 @ e # evs2" "requests env (serve_all env evs1 (serve env ev sv)) e i argv" by blast
    then show ?thesis by (intro disjI2 exI [of _ "ev # evs1"] exI [of _ e] exI [of _ evs2]) simp
  qed
qed simp

definition idle_link :: "link \<Rightarrow> bool" where
  "idle_link l \<longleftrightarrow> \<not> lk_scan_busy l \<and> lk_running_pid l = -1"

lemma wf_new_server: "list_all idle_link links \<Longrightarrow> wf_server (new_server links)"
  by (simp add: wf_server_def new_server_def conn_def idle_link_def list_all_length)

section \<open>An example\<close>

definition env_example :: server_env where
  "env_example = \<lparr>wv_self_path = ''/usr/bin/shiv'', wv_secure_cookies = True, wv_page = (\<lambda>token. ''page'')\<rparr>"

definition link_example :: link where
  "link_example = new_link ''0123456789abcdef'' ''shiv_token_8443''"

definition input_example :: string where
  "input_example = ''POST /run HTTP/1.1'' @ crlf @ ''X-Shiv-Token: 0123456789abcdef'' @ crlf @ ''Content-Length: 4'' @ crlf @ crlf @ ''-p22''"

definition run_example :: "occurrence list" where
  "run_example =
     [\<lparr>oc_what = Accepted 5 0 ''127.0.0.1'', oc_now = 100, oc_writes = [], oc_spawn = PipeFailed\<rparr>,
      \<lparr>oc_what = Client 5 False False True [Got input_example, ReadBlocked], oc_now = 101, oc_writes = [], oc_spawn = Child 77 6\<rparr>]"

lemma request_example:
  "find_from [CR, NL, CR, NL] input_example 0 = Some 69" "length input_example = 77"
  "map_option rq_method (parse_request input_example 69) = Some ''POST''"
  "map_option rq_path (parse_request input_example 69) = Some ''/run''"
  "map_option (\<lambda>r. rq_headers r ''x-shiv-token'') (parse_request input_example 69) = Some (Some ''0123456789abcdef'')"
  "map_option (\<lambda>r. rq_headers r ''content-length'') (parse_request input_example 69) = Some (Some ''4'')"
  "map_option (\<lambda>r. rq_headers r ''transfer-encoding'') (parse_request input_example 69) = Some None"
  "substr input_example 73 4 = ''-p22''" "tokenize_command ''-p22'' = Inr [''-p22'']"
  by code_simp+

lemma declared_example: "strtoul 10 ''4'' = Some 4"
proof -
  have "show_nat 4 = ''4''" "c_str ''4'' = ''4''" by code_simp+
  then show ?thesis using stoul_show_nat [of 4] by (simp add: strtoul_def)
qed

definition server_example :: server where
  "server_example = serve env_example (run_example ! 0) (new_server [link_example])"

lemma server_example_fields:
  "sv_links server_example = [link_example]" "sv_pipes server_example = []" "sv_log server_example = []"
  "conn server_example 5 = Some \<lparr>cn_state = READING_REQUEST, cn_link = 0, cn_peer_ip = ''127.0.0.1'', cn_created_at = 100,
    cn_inbuf = [], cn_headers_parsed = False, cn_header_end = 0, cn_content_length = 0, cn_outbuf = [],
    cn_want_epollout = False, cn_child_pid = -1, cn_child_out = None, cn_child_eof = False\<rparr>"
  by (simp_all add: server_example_def run_example_def serve_def accept_connection_def new_server_def conn_def)

lemma stream_head_length: "length stream_head < 1000" "stream_head \<noteq> []"
  by (simp_all add: stream_head_def security_headers_def crlf_def)

lemma queue_blocked:
  assumes "conn sv fd = Some c" and "cn_outbuf c = []" and "sv_writes sv = []"
  shows "sv_log (queue_and_flush fd stream_head sv) = sv_log sv"
proof -
  have "flush_loop [] s = ([], [], s, Blocked)" if "s \<noteq> []" for s using that by (cases s) auto
  then have "flush_loop [] stream_head = ([], [], stream_head, Blocked)" using stream_head_length(2) by blast
  then show ?thesis
    using assms stream_head_length(1)
    by (simp add: queue_and_flush_def append_out_def flush_outbuf_def conn_update_conn kMaxOutbufBytes_def Let_def)
qed

lemma run_example_spawns:
  "Spawned 0 77 [''/usr/bin/shiv'', ''-p22''] \<in> set (sv_log (serve_all env_example run_example (new_server [link_example])))"
proof -
  obtain r where r: "parse_request input_example 69 = Some r" using request_example(3) by auto
  have req: "rq_method r = ''POST''" "rq_path r = ''/run''" "rq_headers r ''x-shiv-token'' = Some ''0123456789abcdef''"
    "rq_headers r ''content-length'' = Some ''4''" "rq_headers r ''transfer-encoding'' = None"
    using request_example(3-7) by (simp_all add: r)
  define ev where "ev = run_example ! 1"
  define sv0 where "sv0 = server_example\<lparr>sv_now := 101, sv_writes := [], sv_spawn := Child 77 6\<rparr>"
  define sv1 where "sv1 = update_conn 5 (\<lambda>c. c\<lparr>cn_inbuf := input_example\<rparr>) sv0"
  define c1 where "c1 = the (conn sv1 5)"
  have c1: "conn sv1 5 = Some c1" "cn_inbuf c1 = input_example" "cn_link c1 = 0" "cn_peer_ip c1 = ''127.0.0.1''"
    "cn_headers_parsed c1 = False" "cn_state c1 = READING_REQUEST" "cn_outbuf c1 = []" "cn_child_pid c1 = -1"
    using server_example_fields by (simp_all add: c1_def sv1_def sv0_def conn_update_conn)
  have read: "read_loop 5 [Got input_example, ReadBlocked] sv0 = (True, sv1)"
    using server_example_fields(4) request_example(2)
    by (simp add: sv0_def sv1_def kMaxHeaderBytes_def kMaxBodyBytes_def update_conn_def)
  define sv2 where "sv2 = update_conn 5 (\<lambda>c. c\<lparr>cn_content_length := 4\<rparr>)
    (update_conn 5 (\<lambda>c. c\<lparr>cn_header_end := 73, cn_headers_parsed := True\<rparr>) sv1)"
  let ?c = "c1\<lparr>cn_header_end := 73, cn_headers_parsed := True, cn_content_length := 4\<rparr>"
  let ?req = "r\<lparr>rq_body := ''-p22''\<rparr>"
  have sv2: "conn sv2 5 = Some ?c" "sv_links sv2 = [link_example]" "sv_log sv2 = []" "sv_now sv2 = 101" "sv_writes sv2 = []"
    "sv_spawn sv2 = Child 77 6"
    using c1(1) server_example_fields by (simp_all add: sv2_def sv1_def sv0_def conn_update_conn)
  have len: "declared_length r = 4" using req(4) declared_example by (simp add: declared_length_def)
  have "serve_headers env_example 5 c1 sv1 = serve_body env_example 5 sv2"
    using request_example(1) r req(1,5) len c1(2) by (simp add: serve_headers_def kMaxBodyBytes_def sv2_def Let_def)
  also have "\<dots> = dispatch env_example 5 ?c ?req sv2"
    using sv2(1) c1(2,6) request_example(2,8) r by (simp add: serve_body_def)
  finally have body: "serve_headers env_example 5 c1 sv1 = dispatch env_example 5 ?c ?req sv2" .
  obtain l where login: "login_attempt 101 ''127.0.0.1'' ''0123456789abcdef'' link_example = (Granted, l)"
    and free: "\<not> lk_scan_busy l"
    by (simp add: login_attempt_def auth_rate_limited_def auth_entry_def link_example_def new_link_def tokens_match_iff
        kAuthFailureWindowSec_def kMaxAuthFailures_def)
  define sv3 where "sv3 = update_link 0 (\<lambda>_. l) sv2"
  have sv3: "conn sv3 5 = Some ?c" "sv_links sv3 = [l]" "sv_log sv3 = []" "sv_writes sv3 = []" "sv_spawn sv3 = Child 77 6"
    using sv2 by (simp_all add: sv3_def update_link_def)
  have token: "provided_token link_example ?req = ''0123456789abcdef''"
    using req(3) by (simp add: provided_token_def header_value_def)
  have "require_auth 5 ?c ''0123456789abcdef'' sv2 = (True, sv3)"
    using sv2 c1(3,4) login by (simp add: require_auth_def sv3_def Let_def)
  then have run: "dispatch env_example 5 ?c ?req sv2 = start_run env_example 5 ?c ''-p22'' sv3"
    using req(1,2) c1(3) sv2(2) token by (simp add: dispatch_def)
  define sv4 where "sv4 = (let sv = noted [Spawned 0 77 [''/usr/bin/shiv'', ''-p22'']] sv3;
       sv = update_link 0 (\<lambda>l. l\<lparr>lk_scan_busy := True, lk_running_pid := 77\<rparr>) sv;
       sv = update_conn 5 (\<lambda>c. c\<lparr>cn_child_pid := 77, cn_child_out := Some 6, cn_state := STREAMING_OUTPUT\<rparr>) sv
     in sv\<lparr>sv_pipes := AList.update 6 5 (sv_pipes sv)\<rparr>)"
  have "start_run env_example 5 ?c ''-p22'' sv3 = queue_and_flush 5 stream_head sv4"
    using request_example(9) sv3 c1(3) free
    by (simp add: start_run_def drop_name_def env_example_def c_str_def sv4_def Let_def)
  moreover have "sv_log (queue_and_flush 5 stream_head sv4) = sv_log sv4"
    by (rule queue_blocked [of sv4 5 "?c\<lparr>cn_child_pid := 77, cn_child_out := Some 6, cn_state := STREAMING_OUTPUT\<rparr>"])
      (use sv3 c1(7) in \<open>simp_all add: sv4_def Let_def conn_update_conn noted_def update_link_def\<close>)
  moreover have "Spawned 0 77 [''/usr/bin/shiv'', ''-p22''] \<in> set (sv_log sv4)" by (simp add: sv4_def Let_def)
  ultimately have "Spawned 0 77 [''/usr/bin/shiv'', ''-p22''] \<in> set (sv_log (serve_headers env_example 5 c1 sv1))"
    by (simp add: body run)
  moreover have "serve_all env_example run_example (new_server [link_example]) = serve_headers env_example 5 c1 sv1"
  proof -
    have "serve_all env_example run_example (new_server [link_example]) = serve env_example ev server_example"
      by (simp add: run_example_def serve_all_def ev_def server_example_def)
    also have "\<dots> = client_event env_example 5 False False True [Got input_example, ReadBlocked] sv0"
      by (simp add: ev_def run_example_def serve_def sv0_def)
    also have "\<dots> = serve_headers env_example 5 c1 sv1"
      using server_example_fields(4) c1(1,5) read by (simp add: client_event_def sv0_def on_client_readable_def)
    finally show ?thesis .
  qed
  ultimately show ?thesis by simp
qed

lemma server_flag_slips:
  "launches env_example (quote_arg (''--server'' @ [CHR 0x00])) [''/usr/bin/shiv'', ''--server'']"
proof -
  have "tokenize_command (quote_arg (''--server'' @ [CHR 0x00])) = Inr [''--server'' @ [CHR 0x00]]" by code_simp
  then show ?thesis by (simp add: launches_def env_example_def drop_name_def c_str_def)
qed

lemma run_example_ok: "occurrences_ok env_example run_example (new_server [link_example])"
  using server_example_fields(2) by (simp add: run_example_def occurrence_ok_def new_server_def conn_def server_example_def)

lemma idle_example: "list_all idle_link [link_example]"
  by (simp add: idle_link_def link_example_def new_link_def)

section \<open>Properties\<close>

text \<open>
  C4. A program is run for an authorised request only. Whatever the clients send and however reads, writes, forks
  and events come, every program the server starts is its own executable, started by an event of a connection of
  that link when the bytes it has sent are a complete request (\<open>posted\<close>): the head up to the first blank line parses to
  \<open>POST /run\<close> with that link's token (in the header or, without one, in its cookie), without a transfer encoding,
  and is followed by a body of \<open>Content-Length\<close> bytes, at most \<open>kMaxBodyBytes\<close>; no scan was running on the link. The arguments
  are the tokens of that body, a leading program name dropped, each up to its first NUL; none of these tokens is
  exactly the bytes \<open>--server\<close> (\<open>launches_no_server_flag\<close>: so \<open>--server\<close> is no argument when the body has no NUL; a quoted
  \<open>--server\<close> followed by a NUL does reach the program as \<open>--server\<close>, \<open>server_flag_slips\<close>).
\<close>

lemma only_authorised_runs:
  assumes "list_all idle_link links" and "occurrences_ok env evs (new_server links)"
    and "Spawned i pid argv \<in> set (sv_log (serve_all env evs (new_server links)))"
  shows "\<exists>evs1 ev evs2. evs = evs1 @ ev # evs2 \<and> requests env (serve_all env evs1 (new_server links)) ev i argv"
proof -
  have "Spawned i pid argv \<in> set (spawns (serve_all env evs (new_server links)))"
    using assms(3) by (simp add: spawns_def is_spawned_def)
  then show ?thesis
    using spawned_in_run [OF wf_new_server [OF assms(1)] assms(2)] by (auto simp: spawns_def new_server_def)
qed

lemma only_authorised_runs_witness:
  "\<exists>evs1 ev evs2. run_example = evs1 @ ev # evs2 \<and>
     requests env_example (serve_all env_example evs1 (new_server [link_example])) ev 0 [''/usr/bin/shiv'', ''-p22'']"
  by (rule only_authorised_runs [OF idle_example run_example_ok run_example_spawns])

text \<open>
  C5. One scan per link. After any events a link is busy exactly when one of its connections has a child, there is
  one such connection only, and the process \<open>/kill\<close> signals (\<open>running_pid\<close>) is that child; a link that is not busy has no
  process to signal. No connection holds more input than the limits on headers and body allow.
\<close>

lemma one_scan_per_link:
  assumes "list_all idle_link links" and "occurrences_ok env evs (new_server links)" and "i < length links"
    and sv: "sv = serve_all env evs (new_server links)"
  shows "lk_scan_busy (sv_links sv ! i) = (\<exists>fd c. conn sv fd = Some c \<and> cn_link c = i \<and> cn_child_pid c > 0) \<and>
    lk_scan_busy (sv_links sv ! i) = (lk_running_pid (sv_links sv ! i) > 0) \<and>
    (\<forall>fd fd' c c'. conn sv fd = Some c \<and> conn sv fd' = Some c' \<and> cn_link c = i \<and> cn_link c' = i \<and>
       cn_child_pid c > 0 \<and> cn_child_pid c' > 0 \<longrightarrow> fd = fd' \<and> lk_running_pid (sv_links sv ! i) = cn_child_pid c) \<and>
    (\<forall>fd c. conn sv fd = Some c \<longrightarrow> length (cn_inbuf c) \<le> kMaxHeaderBytes + kMaxBodyBytes)"
proof -
  have wf: "wf_server sv" and len: "length (sv_links sv) = length links"
    using wf_serve_all [OF wf_new_server [OF assms(1)] assms(2)] by (simp_all add: sv new_server_def)
  have link: "if lk_scan_busy (sv_links sv ! i) then \<exists>fd c. conn sv fd = Some c \<and> cn_link c = i \<and> cn_child_pid c > 0
      else lk_running_pid (sv_links sv ! i) \<le> 0" by (rule wf_link [OF wf]) (use assms(3) len in simp)
  have child: "lk_scan_busy (sv_links sv ! i)" "lk_running_pid (sv_links sv ! i) = cn_child_pid c"
    if "conn sv fd = Some c" "cn_link c = i" "cn_child_pid c > 0" for fd c
    using wf_conn [OF wf that(1)] that(2,3) by (auto simp: conn_ok_def)
  have busy: "lk_scan_busy (sv_links sv ! i) = (\<exists>fd c. conn sv fd = Some c \<and> cn_link c = i \<and> cn_child_pid c > 0)"
    using link child(1) by (auto split: if_splits)
  moreover have "lk_scan_busy (sv_links sv ! i) = (lk_running_pid (sv_links sv ! i) > 0)"
    using link child(2) by (fastforce split: if_splits)
  moreover have "fd = fd' \<and> lk_running_pid (sv_links sv ! i) = cn_child_pid c"
    if "conn sv fd = Some c" "conn sv fd' = Some c'" "cn_link c = i" "cn_link c' = i" "cn_child_pid c > 0" "cn_child_pid c' > 0"
    for fd fd' c c'
    using wf_unique [OF wf that(1,2)] child(2) [OF that(1,3,5)] that by simp
  moreover have "length (cn_inbuf c) \<le> kMaxHeaderBytes + kMaxBodyBytes" if "conn sv fd = Some c" for fd c
    using wf_conn [OF wf that] by (simp add: conn_ok_def)
  ultimately show ?thesis by blast
qed

lemma one_scan_per_link_witness:
  "lk_scan_busy (sv_links (serve_all env_example run_example (new_server [link_example])) ! 0) =
   (lk_running_pid (sv_links (serve_all env_example run_example (new_server [link_example])) ! 0) > 0)"
  by (rule one_scan_per_link [OF idle_example run_example_ok _ refl, of 0, THEN conjunct2, THEN conjunct1]) simp

text \<open>
  C32. Failed logins are bounded. Of any attempts on a link that fall into 60 seconds, at most 16 from one address are
  refused after a comparison with the token (8 in the window that is running and 8 in the next); all others are
  turned away unread or right. This does not hold for the page: from an address that is turned away, a request
  for it is still answered with the page when its cookie is the token and with 429 when it is not.
\<close>

lemma logins_bounded:
  assumes "in_window t as" and "rq_method req = ''GET''" and "rq_path req = ''/''"
    and "cookie_of (sv_links sv ! cn_link c) req = Some v" and "lk_token (sv_links sv ! cn_link c) \<noteq> []"
    and "auth_rate_limited (sv_now sv) (cn_peer_ip c) (sv_links sv ! cn_link c) = (True, l')"
  shows "refusals ip as l \<le> 2 * kMaxAuthFailures \<and>
    dispatch env fd c req sv =
      (if v = lk_token (sv_links sv ! cn_link c)
       then send_simple_response fd 200 ''OK'' ''text/html; charset=utf-8'' (wv_page env (lk_token (sv_links sv ! cn_link c))) sv
       else send_simple_response fd 429 ''Too Many Requests'' ''text/plain''
         (''too many failed attempts from this address, slow down'' @ [NL]) (update_link (cn_link c) (\<lambda>_. l') sv))"
proof -
  have "refusals ip as l \<le> 2 * kMaxAuthFailures" using refusals_bounded [OF assms(1), of ip l] by linarith
  then show ?thesis using assms(2-6)
    by (auto simp: dispatch_def get_page_def tokens_match_iff require_auth_def login_attempt_def Let_def)
qed

definition limited_example :: server where
  "limited_example =
     (new_server [link_example\<lparr>lk_auth_fail := [(''127.0.0.1'', (8, 90))]\<rparr>])\<lparr>sv_now := 100\<rparr>"

definition guess_example :: http_request where
  "guess_example = \<lparr>rq_method = ''GET'', rq_path = ''/'', rq_query = [],
     rq_headers = [''cookie'' \<mapsto> ''shiv_token_8443=0123456789abcdef''], rq_body = []\<rparr>"

lemma guess_example: "parse_cookies ''shiv_token_8443=0123456789abcdef'' ''shiv_token_8443'' = Some ''0123456789abcdef''"
  by code_simp

lemma limited_example:
  "sv_links limited_example ! 0 = link_example\<lparr>lk_auth_fail := [(''127.0.0.1'', (8, 90))]\<rparr>" "sv_now limited_example = 100"
  "auth_rate_limited 100 ''127.0.0.1'' (sv_links limited_example ! 0) = (True, sv_links limited_example ! 0)"
  by (simp_all add: limited_example_def new_server_def auth_rate_limited_def auth_entry_def kAuthFailureWindowSec_def
      kMaxAuthFailures_def)

lemma logins_bounded_witness:
  "refusals ''127.0.0.1'' (replicate 20 (100, ''127.0.0.1'', ''guess'')) link_example \<le> 2 * kMaxAuthFailures \<and>
   dispatch env_example 5 (the (conn server_example 5)) guess_example limited_example =
     send_simple_response 5 200 ''OK'' ''text/html; charset=utf-8'' ''page'' limited_example"
proof -
  have window: "in_window 90 (replicate 20 (100, ''127.0.0.1'', ''guess''))"
    by (simp add: in_window_def kAuthFailureWindowSec_def list_all_iff)
  have req: "rq_method guess_example = ''GET''" "rq_path guess_example = ''/''" by (simp_all add: guess_example_def)
  have c: "cn_link (the (conn server_example 5)) = 0" "cn_peer_ip (the (conn server_example 5)) = ''127.0.0.1''"
    by (simp_all add: server_example_fields)
  have l: "lk_token (sv_links limited_example ! 0) = ''0123456789abcdef''"
    "lk_cookie_name (sv_links limited_example ! 0) = ''shiv_token_8443''"
    by (simp_all add: limited_example link_example_def new_link_def)
  have cookie: "cookie_of (sv_links limited_example ! 0) guess_example = Some ''0123456789abcdef''"
    unfolding cookie_of_def l by (simp add: header_value_def guess_example guess_example_def)
  show ?thesis
    using logins_bounded [OF window req, of limited_example "the (conn server_example 5)" "''0123456789abcdef''"
        "sv_links limited_example ! 0" "''127.0.0.1''" link_example env_example 5]
    unfolding c limited_example(2) l by (simp add: cookie limited_example(3) env_example_def l)
qed

end
