(* ===== verification/Service_Db.thy ===== *)
theory Service_Db
  imports Http_Text
begin

text \<open>
  The database of service probes (src/probe.cpp, lines 50 to 352 and 815 to 1149, and the classes of
  src/probe.hpp): the directives of the file nmap-service-probes, the lines of patterns with their templates, the
  fallback lists and the index of ports. A pointer into a C string is the rest of the string; \<open>fatal\<close> is an
  error value. A probe of the list is named by its place in it.
\<close>

section \<open>C strings\<close>

definition is_alpha :: "char \<Rightarrow> bool" where
  "is_alpha c \<longleftrightarrow> (97 \<le> code c \<and> code c \<le> 122) \<or> (65 \<le> code c \<and> code c \<le> 90)"

definition is_alnum :: "char \<Rightarrow> bool" where
  "is_alnum c \<longleftrightarrow> is_alpha c \<or> is_digit c"

definition is_punct :: "char \<Rightarrow> bool" where
  "is_punct c \<longleftrightarrow> 33 \<le> code c \<and> code c \<le> 126 \<and> \<not> is_alnum c"

definition is_xdigit :: "char \<Rightarrow> bool" where
  "is_xdigit c \<longleftrightarrow> is_digit_in 16 c"

definition starts_with :: "char \<Rightarrow> string \<Rightarrow> bool" where
  "starts_with c s = (case s of [] \<Rightarrow> False | x # _ \<Rightarrow> x = c)"

definition digit_next :: "string \<Rightarrow> bool" where
  "digit_next s = (case s of [] \<Rightarrow> False | x # _ \<Rightarrow> is_digit x)"

definition byte_of_hex :: "char \<Rightarrow> char \<Rightarrow> char" where
  "byte_of_hex h l = char_of ((case hexval h of Some v \<Rightarrow> v | None \<Rightarrow> 0) * 16 + (case hexval l of Some v \<Rightarrow> v | None \<Rightarrow> 0))"

text \<open>\<open>strtol(p, &ep, base)\<close>: the value, held in the range of \<open>long\<close>, and the characters consumed.\<close>

definition strtol :: "nat \<Rightarrow> string \<Rightarrow> int \<times> nat" where
  "strtol base s =
     (case strto base s of
        None \<Rightarrow> (0, 0)
      | Some (neg, m, used) \<Rightarrow> (max (- (2 ^ 63)) (min (2 ^ 63 - 1) (signed_value neg m)), used))"

definition unescaped :: "char \<Rightarrow> char" where
  "unescaped c =
     (if c = CHR ''n'' then NL else if c = CHR ''r'' then CR else if c = CHR ''t'' then CHR 0x09
      else if c = CHR ''0'' then CHR 0x00 else c)"

text \<open>\<open>cstring_unescape\<close>: whether it succeeded and the bytes written up to then.\<close>

fun cstring_unescape :: "string \<Rightarrow> bool \<times> string" where
  "cstring_unescape [] = (True, [])"
| "cstring_unescape (c # s) =
     (if c \<noteq> CHR 0x5C then let (ok, t) = cstring_unescape s in (ok, c # t)
      else case s of
        [] \<Rightarrow> (False, [])
      | n # t \<Rightarrow>
          if n = CHR ''x''
          then (case t of
                  h # l # u \<Rightarrow>
                    if is_xdigit h \<and> is_xdigit l
                    then let (ok, v) = cstring_unescape u in (ok, byte_of_hex h l # v) else (False, [])
                | _ \<Rightarrow> (False, []))
          else let (ok, v) = cstring_unescape t in (ok, unescaped n # v))"

lemma is_digit_facts: "is_digit c \<Longrightarrow> is_digit_in 10 c \<and> \<not> is_space c \<and> c \<noteq> CHR ''-'' \<and> c \<noteq> CHR ''+''"
  by (auto simp: is_digit_def is_digit_in_def digit_value_def is_space_def Let_def)

lemma strto_digit:
  assumes "digit_next s"
  shows "strto 10 s = Some (False, digits_value 10 (takeWhile (is_digit_in 10) s), length (takeWhile (is_digit_in 10) s))"
    and "0 < length (takeWhile (is_digit_in 10) s)"
proof -
  obtain c t where s: "s = c # t" "is_digit c" using assms by (cases s) (auto simp: digit_next_def)
  note d = is_digit_facts [OF s(2)]
  show "strto 10 s = Some (False, digits_value 10 (takeWhile (is_digit_in 10) s), length (takeWhile (is_digit_in 10) s))"
    using d by (simp add: strto_def s(1) sign_prefix_def base_prefix_def Let_def)
  show "0 < length (takeWhile (is_digit_in 10) s)" using d by (simp add: s(1))
qed

lemma strtol_digit:
  assumes "digit_next s"
  shows "0 < snd (strtol 10 s)" and "snd (strtol 10 s) \<le> length s" and "0 \<le> fst (strtol 10 s)"
  using strto_digit [OF assms] by (simp_all add: strtol_def signed_value_def length_takeWhile_le)

section \<open>Excluded ports\<close>

definition IPPROTO_TCP :: nat where
  "IPPROTO_TCP = 6"

definition IPPROTO_UDP :: nat where
  "IPPROTO_UDP = 17"

definition IPPROTO_SCTP :: nat where
  "IPPROTO_SCTP = 132"

record excluded_ports =
  tcp_ports :: "nat list"
  udp_ports :: "nat list"
  sctp_ports :: "nat list"

definition excluded_contains :: "excluded_ports \<Rightarrow> nat \<Rightarrow> nat \<Rightarrow> bool" where
  "excluded_contains ex port proto =
     (if proto = IPPROTO_TCP then port \<in> set (tcp_ports ex)
      else if proto = IPPROTO_UDP then port \<in> set (udp_ports ex)
      else if proto = IPPROTO_SCTP then port \<in> set (sctp_ports ex)
      else False)"

definition add_port :: "nat \<Rightarrow> nat list \<Rightarrow> nat list" where
  "add_port port v = (if port \<in> set v then v else v @ [port])"

definition add_excluded :: "nat option \<Rightarrow> nat list \<Rightarrow> excluded_ports \<Rightarrow> excluded_ports" where
  "add_excluded forced ports ex =
     ex\<lparr>tcp_ports := (if forced = Some IPPROTO_TCP \<or> forced = None then fold add_port ports (tcp_ports ex) else tcp_ports ex),
        udp_ports := (if forced = Some IPPROTO_UDP \<or> forced = None then fold add_port ports (udp_ports ex) else udp_ports ex),
        sctp_ports := (if forced = Some IPPROTO_SCTP \<or> forced = None then fold add_port ports (sctp_ports ex) else sctp_ports ex)\<rparr>"

definition proto_prefix :: "string \<Rightarrow> nat option" where
  "proto_prefix s =
     (case s of
        c # d # _ \<Rightarrow>
          if d \<noteq> CHR '':'' then None
          else if c = CHR ''T'' \<or> c = CHR ''t'' then Some IPPROTO_TCP
          else if c = CHR ''U'' \<or> c = CHR ''u'' then Some IPPROTO_UDP
          else if c = CHR ''S'' \<or> c = CHR ''s'' then Some IPPROTO_SCTP
          else None
      | _ \<Rightarrow> None)"

text \<open>\<open>lo\<close> or \<open>lo-hi\<close> at the start of a text that begins with a digit, and the rest of the text.\<close>

definition excluded_item :: "string \<Rightarrow> int \<times> int \<times> string" where
  "excluded_item s =
     (let (lo, k) = strtol 10 s; s = drop k s in
      if starts_with CHR ''-'' s
      then (if digit_next (tl s) then let (hi, k) = strtol 10 (tl s) in (lo, hi, drop k (tl s)) else (lo, lo, tl s))
      else (lo, lo, s))"

lemma drop_dropWhile_less:
  assumes "t = dropWhile P s" and "t \<noteq> []" and "0 < k"
  shows "length (drop k t) < length s"
proof -
  have "0 < length t" and "length t \<le> length s" using assms(2) length_dropWhile_le [of P s] assms(1) by simp_all
  then show ?thesis using assms(3) unfolding length_drop by linarith
qed

lemma excluded_item_shorter:
  assumes "digit_next s" and "excluded_item s = (lo, hi, t)"
  shows "length t < length s"
proof -
  obtain l k where k: "strtol 10 s = (l, k)" by (cases "strtol 10 s")
  then have pos: "0 < k" "k \<le> length s" using strtol_digit [OF assms(1)] by simp_all
  then have "length (drop k s) < length s" by simp
  then show ?thesis using assms(2) pos by (auto simp: excluded_item_def k Let_def split: if_splits prod.splits)
qed

function parse_excluded :: "nat option \<Rightarrow> string \<Rightarrow> excluded_ports \<Rightarrow> excluded_ports" where
  "parse_excluded forced s ex =
     (let s = dropWhile (\<lambda>c. is_space c \<or> c = CHR '','') s in
      if s = [] then ex
      else case proto_prefix s of
        Some proto \<Rightarrow> parse_excluded (Some proto) (drop 2 s) ex
      | None \<Rightarrow>
          if \<not> digit_next s then parse_excluded forced (tl s) ex
          else let (lo, hi, rest) = excluded_item s in
            if lo < 0 \<or> lo > 65535 \<or> hi < lo then parse_excluded forced rest ex
            else parse_excluded forced rest (add_excluded forced [nat lo ..< Suc (nat (min hi 65535))] ex))"
  by pat_completeness auto

termination
proof (relation "measure (\<lambda>(forced, s, ex). length s)", goal_cases)
  case (2 forced s ex t)
  then show ?case using drop_dropWhile_less [OF 2(1), of 1] by (simp add: drop_Suc)
next
  case (3 forced s ex t p lo q hi rest)
  then have "length rest < length t" using excluded_item_shorter [of t lo hi rest] by simp
  then show ?case using 3(1) length_dropWhile_le [of "\<lambda>c. is_space c \<or> c = CHR '',''" s] by simp
next
  case (4 forced s ex t p lo q hi rest)
  then have "length rest < length t" using excluded_item_shorter [of t lo hi rest] by simp
  then show ?case using 4(1) length_dropWhile_le [of "\<lambda>c. is_space c \<or> c = CHR '',''" s] by simp
next
  case (5 forced s ex t p)
  then show ?case using drop_dropWhile_less [OF 5(1), of 2] by simp
qed simp

declare parse_excluded.simps [simp del]

section \<open>Templates\<close>

datatype probe_err =
    CpeSlash | BareWord | MissingDelimiter | FlagsTooLong | NoMatchText | NotAMatch | NoServiceName | MissingRegex
  | RegexMode | IllegalFlag | UnknownSpecifier
  | NoArguments | InvalidProtocol | BadProbeName | NothingAfterName | NoQ | NoStringDelimiter | NoEndingDelimiter | BadEscape
  | ExpectedPort | PortOutOfRange | RangeInvalid | BadRarity | BadWait
  | SecondExclude | OutsideProbe | DuplicateNull | UnknownFallback | TooManyFallbacks | CircularFallback

fun find_delim :: "char \<Rightarrow> string \<Rightarrow> nat option" where
  "find_delim d [] = None"
| "find_delim d (c # s) =
     (if c = CHR 0x5C \<and> s \<noteq> [] then map_option (\<lambda>i. i + 2) (find_delim d (tl s))
      else if c = d then Some 0
      else map_option Suc (find_delim d s))"

text \<open>The letters before the delimiter, the template, the letters after it and the rest.\<close>

definition delimited :: "string \<Rightarrow> char \<Rightarrow> string \<Rightarrow> probe_err + (string \<times> string \<times> string \<times> string) option" where
  "delimited mode delim p =
     (case find_delim delim p of
        None \<Rightarrow> Inl MissingDelimiter
      | Some i \<Rightarrow>
          (let after = drop (i + 1) p; flags = takeWhile is_alpha (take 3 after); rest = drop (length flags) after
           in if rest \<noteq> [] \<and> is_alpha (hd rest) then Inl FlagsTooLong
              else Inr (Some (mode, take i p, flags, rest))))"

definition next_template :: "string \<Rightarrow> probe_err + (string \<times> string \<times> string \<times> string) option" where
  "next_template s =
     (let s = dropWhile is_space s in
      if s = [] then Inr None
      else let mode = takeWhile is_alpha (take 3 s); q = drop (length mode) s in
        if mode = ''cpe'' \<and> starts_with CHR '':'' q
        then (if starts_with CHR ''/'' (tl q) then delimited mode CHR ''/'' (tl (tl q)) else Inl CpeSlash)
        else if q = [] \<or> is_space (hd q) then Inl BareWord
        else delimited mode (hd q) (tl q))"

lemma find_delim_less: "find_delim d s = Some i \<Longrightarrow> i < length s"
proof (induction d s arbitrary: i rule: find_delim.induct)
  case (2 d c s)
  show ?case
  proof (cases "c = CHR 0x5C \<and> s \<noteq> []")
    case True
    then obtain j where "find_delim d (tl s) = Some j" "i = j + 2" using 2(3) by auto
    then show ?thesis using 2(1) [OF True, of j] True by (cases s) auto
  next
    case False
    then show ?thesis using 2(2) [OF False] 2(3) by (auto split: if_splits)
  qed
qed simp

lemma delimited_shorter: "delimited mode d p = Inr (Some (m, t, f, rest)) \<Longrightarrow> length rest < length p"
  by (auto simp: delimited_def Let_def dest: find_delim_less split: option.splits if_splits)

lemma next_template_shorter:
  assumes "next_template s = Inr (Some (m, t, f, rest))"
  shows "length rest < length s"
proof -
  define u where "u = dropWhile is_space s"
  define q where "q = drop (length (takeWhile is_alpha (take 3 u))) u"
  obtain m' d p where "delimited m' d p = Inr (Some (m, t, f, rest))" "length p \<le> length q"
    using assms by (fastforce simp: next_template_def Let_def u_def q_def split: if_splits)
  then have "length rest < length q" using delimited_shorter [of m' d p m t f rest] by simp
  then show ?thesis using length_dropWhile_le [of is_space s] by (simp add: q_def u_def)
qed

section \<open>The literal a pattern begins with\<close>

definition skip_char :: "char \<Rightarrow> string \<Rightarrow> string" where
  "skip_char c s = (if starts_with c s then tl s else s)"

lemma skip_char_le: "length (skip_char c s) \<le> length s"
  by (simp add: skip_char_def)

function toplevel_alternation :: "nat \<Rightarrow> bool \<Rightarrow> string \<Rightarrow> bool" where
  "toplevel_alternation depth in_class [] = False"
| "toplevel_alternation depth in_class (c # s) =
     (if c = CHR 0x5C then toplevel_alternation depth in_class (drop 1 s)
      else if in_class then toplevel_alternation depth (c \<noteq> CHR '']'') s
      else if c = CHR ''['' then toplevel_alternation depth True (skip_char CHR '']'' (skip_char CHR ''^'' s))
      else if c = CHR ''('' then toplevel_alternation (depth + 1) in_class s
      else if c = CHR '')'' then toplevel_alternation (depth - 1) in_class s
      else if c = CHR ''|'' \<and> depth = 0 then True
      else toplevel_alternation depth in_class s)"
  by pat_completeness auto

termination
proof (relation "measure (\<lambda>(d, i, s). length s)", goal_cases)
  case (4 depth in_class c s)
  show ?case using skip_char_le [of "CHR '']''" "skip_char CHR ''^'' s"] skip_char_le [of "CHR ''^''" s] by simp
qed auto

definition has_toplevel_alternation :: "string \<Rightarrow> bool" where
  "has_toplevel_alternation pattern = toplevel_alternation 0 False pattern"

definition metas :: string where
  "metas = ''.^$*+?()[]{}|''"

text \<open>The characters every match must begin with, \<open>None\<close> when the loop returns \<open>false\<close>.\<close>

fun literal_run :: "string \<Rightarrow> string \<Rightarrow> string option" where
  "literal_run [] lit = Some lit"
| "literal_run (c # s) lit =
     (if c = CHR 0x5C
      then (case s of
              [] \<Rightarrow> None
            | n # t \<Rightarrow>
                if n \<in> {CHR ''n'', CHR ''r'', CHR ''t'', CHR ''0''} then literal_run t (lit @ [unescaped n])
                else if n = CHR ''x''
                then (case t of
                        h # l # u \<Rightarrow> if is_xdigit h \<and> is_xdigit l then literal_run u (lit @ [byte_of_hex h l]) else None
                      | _ \<Rightarrow> None)
                else if is_punct n then literal_run t (lit @ [n])
                else None)
      else if c \<in> set metas
      then Some (if (c = CHR ''*'' \<or> c = CHR ''?'' \<or> c = CHR ''{'') \<and> lit \<noteq> [] then butlast lit else lit)
      else literal_run s (lit @ [c]))"

definition anchor_literal_prefix :: "string \<Rightarrow> bool \<Rightarrow> string option" where
  "anchor_literal_prefix pattern caseless =
     (if \<not> starts_with CHR ''^'' pattern \<or> has_toplevel_alternation pattern then None
      else case literal_run (tl pattern) [] of
        None \<Rightarrow> None
      | Some lit \<Rightarrow> if length lit < 3 then None else Some (if caseless then map lower_ascii lit else lit))"

section \<open>Lines of patterns\<close>

record match_line =
  ml_soft :: bool
  ml_service :: string
  ml_regex :: string
  ml_i :: bool
  ml_s :: bool
  ml_prefix :: "string option"
  ml_product :: "string option"
  ml_version :: "string option"
  ml_info :: "string option"
  ml_hostname :: "string option"
  ml_ostype :: "string option"
  ml_devicetype :: "string option"
  ml_cpe :: "string list"

fun regex_flags :: "string \<Rightarrow> match_line \<Rightarrow> probe_err + match_line" where
  "regex_flags [] m = Inr m"
| "regex_flags (f # fs) m =
     (if f = CHR ''i'' then regex_flags fs (m\<lparr>ml_i := True\<rparr>)
      else if f = CHR ''s'' then regex_flags fs (m\<lparr>ml_s := True\<rparr>)
      else Inl IllegalFlag)"

definition set_template :: "string \<Rightarrow> string \<Rightarrow> match_line \<Rightarrow> match_line option" where
  "set_template mode t m =
     (if mode = ''p'' then Some (m\<lparr>ml_product := Some t\<rparr>)
      else if mode = ''v'' then Some (m\<lparr>ml_version := Some t\<rparr>)
      else if mode = ''i'' then Some (m\<lparr>ml_info := Some t\<rparr>)
      else if mode = ''h'' then Some (m\<lparr>ml_hostname := Some t\<rparr>)
      else if mode = ''o'' then Some (m\<lparr>ml_ostype := Some t\<rparr>)
      else if mode = ''d'' then Some (m\<lparr>ml_devicetype := Some t\<rparr>)
      else if mode = ''cpe'' then Some (m\<lparr>ml_cpe := ml_cpe m @ [t]\<rparr>)
      else None)"

function version_templates :: "string \<Rightarrow> match_line \<Rightarrow> probe_err + match_line" where
  "version_templates s m =
     (case next_template s of
        Inl e \<Rightarrow> Inl e
      | Inr None \<Rightarrow> Inr m
      | Inr (Some (mode, t, flags, rest)) \<Rightarrow>
          (case set_template mode t m of
             None \<Rightarrow> Inl UnknownSpecifier
           | Some m \<Rightarrow> version_templates rest m))"
  by pat_completeness auto

termination
  by (relation "measure (\<lambda>(s, m). length s)") (auto dest: next_template_shorter)

declare version_templates.simps [simp del]

definition match_kind :: "string \<Rightarrow> (bool \<times> string) option" where
  "match_kind s =
     (if take 10 s = ''softmatch '' then Some (True, drop 10 s)
      else if take 6 s = ''match '' then Some (False, drop 6 s)
      else None)"

definition init_match :: "string \<Rightarrow> probe_err + match_line" where
  "init_match matchtext =
     (if matchtext = [] then Inl NoMatchText
      else case match_kind (dropWhile is_space matchtext) of
        None \<Rightarrow> Inl NotAMatch
      | Some (soft, s) \<Rightarrow>
          (case find_char CHR '' '' s of
             None \<Rightarrow> Inl NoServiceName
           | Some sp \<Rightarrow>
               (case next_template (drop sp s) of
                  Inl e \<Rightarrow> Inl e
                | Inr None \<Rightarrow> Inl MissingRegex
                | Inr (Some (mode, regex, flags, rest)) \<Rightarrow>
                    if mode \<noteq> ''m'' then Inl RegexMode
                    else case regex_flags flags
                        \<lparr>ml_soft = soft, ml_service = take sp s, ml_regex = regex, ml_i = False, ml_s = False, ml_prefix = None,
                         ml_product = None, ml_version = None, ml_info = None, ml_hostname = None, ml_ostype = None,
                         ml_devicetype = None, ml_cpe = []\<rparr> of
                      Inl e \<Rightarrow> Inl e
                    | Inr m \<Rightarrow> version_templates rest (m\<lparr>ml_prefix := anchor_literal_prefix regex (ml_i m)\<rparr>))))"

section \<open>Probes\<close>

datatype probe_ref = NullProbe | ProbeAt nat

datatype service_tunnel = TunnelNone | TunnelSsl

record service_probe =
  sp_name :: string
  sp_string :: string
  sp_proto :: nat
  sp_rarity :: int
  sp_totalwaitms :: int
  sp_tcpwrappedms :: int
  sp_ports :: "nat list"
  sp_ssl_ports :: "nat list"
  sp_detected :: "string list"
  sp_matches :: "match_line list"
  sp_fallback_str :: "string option"
  sp_fallbacks :: "probe_ref list"

definition new_probe :: service_probe where
  "new_probe =
     \<lparr>sp_name = [], sp_string = [], sp_proto = 0, sp_rarity = 5, sp_totalwaitms = 5000, sp_tcpwrappedms = 3000, sp_ports = [],
      sp_ssl_ports = [], sp_detected = [], sp_matches = [], sp_fallback_str = None, sp_fallbacks = []\<rparr>"

definition probe_protocol :: "string \<Rightarrow> nat option" where
  "probe_protocol pd =
     (if take 4 pd = ''TCP '' then Some IPPROTO_TCP else if take 4 pd = ''UDP '' then Some IPPROTO_UDP else None)"

definition probe_bytes :: "string \<Rightarrow> probe_err + string" where
  "probe_bytes pd =
     (if \<not> starts_with CHR ''q'' pd then Inl NoQ
      else case tl pd of
        [] \<Rightarrow> Inl NoStringDelimiter
      | delim # s \<Rightarrow>
          (case find_char delim s of
             None \<Rightarrow> Inl NoEndingDelimiter
           | Some ep \<Rightarrow> (case cstring_unescape (take ep s) of (ok, bs) \<Rightarrow> if ok then Inr bs else Inl BadEscape)))"

definition set_probe_details :: "string \<Rightarrow> probe_err + service_probe" where
  "set_probe_details pd =
     (if pd = [] then Inl NoArguments
      else case probe_protocol pd of
        None \<Rightarrow> Inl InvalidProtocol
      | Some proto \<Rightarrow>
          (let pd = drop 4 pd in
           if pd = [] \<or> \<not> is_alnum (hd pd) then Inl BadProbeName
           else case find_char CHR '' '' pd of
             None \<Rightarrow> Inl NothingAfterName
           | Some sp \<Rightarrow>
               (case probe_bytes (drop (sp + 1) pd) of
                  Inl e \<Rightarrow> Inl e
                | Inr bs \<Rightarrow> Inr (new_probe\<lparr>sp_name := take sp pd, sp_string := bs, sp_proto := proto\<rparr>))))"

text \<open>One port or range of \<open>setPortVector\<close>: the ports and the rest of the text.\<close>

definition port_entry :: "string \<Rightarrow> probe_err + (nat list \<times> string)" where
  "port_entry s =
     (let s = dropWhile is_space s in
      if \<not> digit_next s then Inl ExpectedPort
      else let (lo, k) = strtol 10 s in
        if lo < 0 \<or> lo > 65535 then Inl PortOutOfRange
        else let s = dropWhile is_space (drop k s) in
          if starts_with CHR ''-'' s
          then (let (hi, k) = strtol 10 (tl s) in
                if hi < 0 \<or> hi > 65535 \<or> hi < lo then Inl RangeInvalid
                else Inr ([nat lo ..< Suc (nat hi)], drop k (tl s)))
          else Inr ([nat lo], s))"

lemma port_entry_shorter:
  assumes "port_entry s = Inr (ps, t)"
  shows "length t < length s"
proof -
  define u where "u = dropWhile is_space s"
  have u: "digit_next u" using assms by (simp add: port_entry_def u_def Let_def split: if_splits)
  obtain lo k where k: "strtol 10 u = (lo, k)" by (cases "strtol 10 u")
  define v where "v = dropWhile is_space (drop k u)"
  have "length v < length u" using strtol_digit [OF u] length_dropWhile_le [of is_space "drop k u"] by (simp add: k v_def)
  moreover have "length t \<le> length v"
    using assms by (auto simp: port_entry_def Let_def k u v_def simp flip: u_def split: if_splits prod.splits)
  ultimately show ?thesis using length_dropWhile_le [of is_space s] by (simp add: u_def)
qed

function set_port_vector :: "nat list \<Rightarrow> string \<Rightarrow> probe_err + nat list" where
  "set_port_vector portv s =
     (case port_entry s of
        Inl e \<Rightarrow> Inl e
      | Inr (ps, rest) \<Rightarrow>
          (let s = dropWhile is_space rest in
           if starts_with CHR '','' s \<and> tl s \<noteq> [] then set_port_vector (portv @ ps) (tl s)
           else Inr (portv @ ps)))"
  by pat_completeness auto

termination
proof (relation "measure (\<lambda>(portv, s). length s)", goal_cases)
  case (2 portv s p ps rest t)
  then show ?case using port_entry_shorter [of s ps rest] length_dropWhile_le [of is_space rest] by simp
qed simp

declare set_port_vector.simps [simp del]

definition set_rarity :: "string \<Rightarrow> probe_err + int" where
  "set_rarity val = (let (r, k) = strtol 10 val in if k = 0 \<or> drop k val \<noteq> [] \<or> r < 1 \<or> r > 9 then Inl BadRarity else Inr r)"

definition wait_ms :: "string \<Rightarrow> probe_err + int" where
  "wait_ms val = (let ms = fst (strtol 10 val) in if ms < 100 \<or> ms > 300000 then Inl BadWait else Inr ms)"

definition add_match :: "string \<Rightarrow> service_probe \<Rightarrow> probe_err + service_probe" where
  "add_match line p =
     (case init_match line of
        Inl e \<Rightarrow> Inl e
      | Inr m \<Rightarrow> Inr (p\<lparr>sp_matches := sp_matches p @ [m],
          sp_detected := (if ml_service m \<in> set (sp_detected p) then sp_detected p else sp_detected p @ [ml_service m])\<rparr>))"

section \<open>The file\<close>

record probe_db =
  pd_probes :: "service_probe list"
  pd_null :: "service_probe option"
  pd_excluded :: excluded_ports
  pd_excluded_seen :: bool

definition empty_db :: probe_db where
  "empty_db =
     \<lparr>pd_probes = [], pd_null = None, pd_excluded = \<lparr>tcp_ports = [], udp_ports = [], sctp_ports = []\<rparr>, pd_excluded_seen = False\<rparr>"

definition finish_probe :: "service_probe option \<Rightarrow> probe_db \<Rightarrow> probe_err + probe_db" where
  "finish_probe cur db =
     (case cur of
        None \<Rightarrow> Inr db
      | Some p \<Rightarrow>
          if sp_proto p = IPPROTO_TCP \<and> sp_name p = ''NULL''
          then (if pd_null db \<noteq> None then Inl DuplicateNull else Inr (db\<lparr>pd_null := Some p\<rparr>))
          else Inr (db\<lparr>pd_probes := pd_probes db @ [p]\<rparr>))"

definition probe_directive :: "string \<Rightarrow> service_probe \<Rightarrow> probe_err + service_probe" where
  "probe_directive line p =
     (if take 6 line = ''ports '' then map_sum id (\<lambda>v. p\<lparr>sp_ports := v\<rparr>) (set_port_vector (sp_ports p) (drop 6 line))
      else if take 9 line = ''sslports '' then map_sum id (\<lambda>v. p\<lparr>sp_ssl_ports := v\<rparr>) (set_port_vector (sp_ssl_ports p) (drop 9 line))
      else if take 7 line = ''rarity '' then map_sum id (\<lambda>r. p\<lparr>sp_rarity := r\<rparr>) (set_rarity (drop 7 line))
      else if take 9 line = ''fallback '' then Inr (p\<lparr>sp_fallback_str := Some (drop 9 line)\<rparr>)
      else if take 12 line = ''totalwaitms '' then map_sum id (\<lambda>ms. p\<lparr>sp_totalwaitms := ms\<rparr>) (wait_ms (drop 12 line))
      else if take 6 line = ''match '' \<or> take 10 line = ''softmatch '' then add_match line p
      else if take 13 line = ''tcpwrappedms '' then map_sum id (\<lambda>ms. p\<lparr>sp_tcpwrappedms := ms\<rparr>) (wait_ms (drop 13 line))
      else Inr p)"

text \<open>A line, the probe under construction and the database.\<close>

definition probe_line :: "string \<Rightarrow> service_probe option \<Rightarrow> probe_db \<Rightarrow> probe_err + (service_probe option \<times> probe_db)" where
  "probe_line line cur db =
     (let line = chop_cr (c_str line) in
      if line = [] \<or> starts_with CHR ''#'' line then Inr (cur, db)
      else if take 8 line = ''Exclude ''
      then (if pd_excluded_seen db then Inl SecondExclude
            else Inr (cur, db\<lparr>pd_excluded := parse_excluded None (drop 8 line) (pd_excluded db), pd_excluded_seen := True\<rparr>))
      else if take 6 line = ''Probe ''
      then (case finish_probe cur db of
              Inl e \<Rightarrow> Inl e
            | Inr db \<Rightarrow> (case set_probe_details (drop 6 line) of Inl e \<Rightarrow> Inl e | Inr p \<Rightarrow> Inr (Some p, db)))
      else case cur of
        None \<Rightarrow> Inl OutsideProbe
      | Some p \<Rightarrow> (case probe_directive line p of Inl e \<Rightarrow> Inl e | Inr p \<Rightarrow> Inr (Some p, db)))"

text \<open>The error is reported with the number of its line.\<close>

fun probe_lines :: "nat \<Rightarrow> string list \<Rightarrow> service_probe option \<Rightarrow> probe_db \<Rightarrow> (nat \<times> probe_err) + probe_db" where
  "probe_lines n [] cur db = map_sum (Pair n) id (finish_probe cur db)"
| "probe_lines n (line # lines) cur db =
     (case probe_line line cur db of
        Inl e \<Rightarrow> Inl (n + 1, e)
      | Inr (cur, db) \<Rightarrow> probe_lines (n + 1) lines cur db)"

section \<open>Fallbacks and the index of ports\<close>

definition probe_at :: "probe_db \<Rightarrow> probe_ref \<Rightarrow> service_probe option" where
  "probe_at db r =
     (case r of
        NullProbe \<Rightarrow> pd_null db
      | ProbeAt i \<Rightarrow> if i < length (pd_probes db) then Some (pd_probes db ! i) else None)"

definition first_probe :: "(service_probe \<Rightarrow> bool) \<Rightarrow> probe_db \<Rightarrow> probe_ref option" where
  "first_probe P db = map_option (\<lambda>(i, p). ProbeAt i) (find (\<lambda>(i, p). P p) (enumerate 0 (pd_probes db)))"

definition get_probe_by_name :: "probe_db \<Rightarrow> string \<Rightarrow> nat \<Rightarrow> probe_ref option" where
  "get_probe_by_name db nm proto =
     (if proto = IPPROTO_TCP \<and> (case pd_null db of Some p \<Rightarrow> sp_name p = nm | None \<Rightarrow> False) then Some NullProbe
      else case first_probe (\<lambda>p. sp_proto p = proto \<and> sp_name p = nm) db of
        Some r \<Rightarrow> Some r
      | None \<Rightarrow> first_probe (\<lambda>p. sp_name p = nm) db)"

definition MAXFALLBACKS :: nat where
  "MAXFALLBACKS = 20"

definition is_fallback_sep :: "char \<Rightarrow> bool" where
  "is_fallback_sep c \<longleftrightarrow> c = CHR '','' \<or> c = CR \<or> c = NL \<or> c = CHR 0x09 \<or> c = CHR '' ''"

text \<open>The tokens of \<open>strtok_r\<close>, which skips runs of separators.\<close>

fun strtok :: "string \<Rightarrow> string \<Rightarrow> string list" where
  "strtok cur [] = (if cur = [] then [] else [cur])"
| "strtok cur (c # s) =
     (if is_fallback_sep c then (if cur = [] then strtok [] s else cur # strtok [] s) else strtok (cur @ [c]) s)"

fun look_up_all :: "probe_db \<Rightarrow> nat \<Rightarrow> string list \<Rightarrow> probe_err + probe_ref list" where
  "look_up_all db proto [] = Inr []"
| "look_up_all db proto (t # ts) =
     (case get_probe_by_name db t proto of
        None \<Rightarrow> Inl UnknownFallback
      | Some r \<Rightarrow> map_sum id (\<lambda>rs. r # rs) (look_up_all db proto ts))"

definition fallback_list :: "probe_db \<Rightarrow> probe_ref \<Rightarrow> service_probe \<Rightarrow> probe_err + probe_ref list" where
  "fallback_list db self p =
     (let toks = (case sp_fallback_str p of None \<Rightarrow> [] | Some s \<Rightarrow> strtok [] s) in
      case look_up_all db (sp_proto p) (take (MAXFALLBACKS - 2) toks) of
        Inl e \<Rightarrow> Inl e
      | Inr rs \<Rightarrow>
          if length toks > MAXFALLBACKS - 2 then Inl TooManyFallbacks
          else let fbs = self # rs in
            Inr (if sp_proto p = IPPROTO_TCP \<and> pd_null db \<noteq> None \<and> NullProbe \<notin> set fbs \<and> length fbs < MAXFALLBACKS
                 then fbs @ [NullProbe] else fbs))"

fun compile_lists :: "probe_db \<Rightarrow> nat \<Rightarrow> service_probe list \<Rightarrow> probe_err + service_probe list" where
  "compile_lists db i [] = Inr []"
| "compile_lists db i (p # ps) =
     (case fallback_list db (ProbeAt i) p of
        Inl e \<Rightarrow> Inl e
      | Inr fbs \<Rightarrow>
          map_sum id (\<lambda>qs. p\<lparr>sp_fallbacks := fbs, sp_fallback_str := None\<rparr> # qs) (compile_lists db (i + 1) ps))"

definition compile_fallbacks :: "probe_db \<Rightarrow> probe_err + probe_db" where
  "compile_fallbacks db =
     (case compile_lists db 0 (pd_probes db) of
        Inl e \<Rightarrow> Inl e
      | Inr ps \<Rightarrow>
          if \<exists>p \<in> set ps. \<not> distinct (sp_fallbacks p) then Inl CircularFallback
          else Inr (db\<lparr>pd_probes := ps, pd_null := map_option (\<lambda>p. p\<lparr>sp_fallbacks := [NullProbe]\<rparr>) (pd_null db)\<rparr>))"

definition parse_probe_file :: "string \<Rightarrow> (nat \<times> probe_err) + probe_db" where
  "parse_probe_file content =
     (let lines = getline_tokens NL content in
      case probe_lines 0 lines None empty_db of
        Inl e \<Rightarrow> Inl e
      | Inr db \<Rightarrow> map_sum (Pair (length lines)) id (compile_fallbacks db))"

text \<open>\<open>probesForPort\<close>: a probe that lists a port twice is there twice.\<close>

definition listed_ports :: "service_tunnel \<Rightarrow> service_probe \<Rightarrow> nat list" where
  "listed_ports tunnel p = (case tunnel of TunnelNone \<Rightarrow> sp_ports p | TunnelSsl \<Rightarrow> sp_ssl_ports p)"

definition probes_for_port :: "probe_db \<Rightarrow> nat \<Rightarrow> service_tunnel \<Rightarrow> nat \<Rightarrow> probe_ref list" where
  "probes_for_port db proto tunnel port =
     concat (map (\<lambda>(i, p). if sp_proto p = proto then replicate (count_list (listed_ports tunnel p) port) (ProbeAt i) else [])
       (enumerate 0 (pd_probes db)))"

definition port_is_probable :: "service_probe \<Rightarrow> service_tunnel \<Rightarrow> nat \<Rightarrow> bool" where
  "port_is_probable p tunnel port = (port \<in> set (listed_ports tunnel p))"

definition is_excluded :: "probe_db \<Rightarrow> nat \<Rightarrow> nat \<Rightarrow> bool" where
  "is_excluded db port proto = (pd_excluded_seen db \<and> excluded_contains (pd_excluded db) port proto)"

end
