(* ===== verification/Service_Match.thy ===== *)
theory Service_Match
  imports Service_Db
begin

text \<open>
  Matching a response against the database of probes (src/probe.cpp, lines 354 to 628, 745 to 801 and 1152 to 1454):
  substitution into version templates, the fingerprint of an unknown service and the order in which \<open>matchResponse\<close>
  tries probes. PCRE2 is a parameter that answers a pattern, its flags and a subject with the captured groups; the
  interpreted and the JIT-compiled copy of a pattern are one pattern. A write outside a buffer is \<open>None\<close>.
\<close>

section \<open>Substitution\<close>

datatype subst_arg = IntArg int | StrArg string

text \<open>The text up to a quote that does not follow a backslash.\<close>

fun quoted :: "char \<Rightarrow> string \<Rightarrow> string \<times> string" where
  "quoted prev [] = ([], [])"
| "quoted prev (c # s) =
     (if c = CHR 0x22 \<and> prev \<noteq> CHR 0x5C then ([], c # s) else let (body, rest) = quoted c s in (c # body, rest))"

text \<open>\<open>cstring_unescape\<close> on a buffer: where it gives up the rest stays as it was.\<close>

definition unescape_in_place :: "string \<Rightarrow> string" where
  "unescape_in_place body = (let (ok, out) = cstring_unescape body in if ok then out else out @ drop (length out) body)"

definition next_arg :: "string \<Rightarrow> string option" where
  "next_arg s =
     (let s = dropWhile (\<lambda>c. c \<noteq> CHR '','' \<and> c \<noteq> CHR '')'') s in if s = [] then None else Some (skip_char CHR '','' s))"

definition to_int :: "int \<Rightarrow> int" where
  "to_int v = sint (word_of_int v :: 32 word)"

lemma quoted_shorter: "quoted prev s = (body, rest) \<Longrightarrow> length rest \<le> length s"
  by (induction prev s arbitrary: body rule: quoted.induct) (auto split: if_splits prod.splits)

lemma next_arg_shorter: "next_arg s = Some t \<Longrightarrow> length t \<le> length s"
  using length_dropWhile_le [of "\<lambda>c. c \<noteq> CHR '','' \<and> c \<noteq> CHR '')''" s] skip_char_le
  by (auto simp: next_arg_def Let_def split: if_splits intro: order_trans)

lemma starts_with_not_Nil: "starts_with c s \<Longrightarrow> s \<noteq> []"
  by (auto simp: starts_with_def)

text \<open>One argument, from its first character, with the comma after it.\<close>

definition one_arg :: "string \<Rightarrow> (subst_arg \<times> string) option" where
  "one_arg s =
     (if starts_with CHR 0x22 s
      then (let (body, rest) = quoted CHR 0x22 (tl s) in
            if length body > 127 then None
            else map_option (Pair (StrArg (unescape_in_place body))) (next_arg (skip_char CHR 0x22 rest)))
      else let (v, k) = strtol 0 s in
        if k = 0 then None else map_option (Pair (IntArg (to_int v))) (next_arg (drop k s)))"

lemma one_arg_shorter:
  assumes "one_arg s = Some (a, t)"
  shows "length t < length s"
proof (cases "starts_with CHR 0x22 s")
  case True
  then obtain body rest where q: "quoted CHR 0x22 (tl s) = (body, rest)" "next_arg (skip_char CHR 0x22 rest) = Some t"
    using assms by (auto simp: one_arg_def Let_def split: prod.splits if_splits)
  have "length t \<le> length rest" using next_arg_shorter [OF q(2)] skip_char_le [of "CHR 0x22" rest] by simp
  also have "\<dots> \<le> length (tl s)" by (rule quoted_shorter [OF q(1)])
  also have "\<dots> < length s" using starts_with_not_Nil [OF True] by simp
  finally show ?thesis .
next
  case False
  then obtain v k where k: "strtol 0 s = (v, k)" "k \<noteq> 0" "next_arg (drop k s) = Some t"
    using assms by (auto simp: one_arg_def Let_def split: prod.splits if_splits)
  have "s \<noteq> []" using k(1,2) by (auto simp: strtol_def strto_def sign_prefix_def base_prefix_def hex_prefix_def Let_def)
  then have "length (drop k s) < length s" using k(2) by (cases s) auto
  then show ?thesis using next_arg_shorter [OF k(3)] by simp
qed

function parse_subst_args :: "subst_arg list \<Rightarrow> string \<Rightarrow> (subst_arg list \<times> string) option" where
  "parse_subst_args args s =
     (if s = [] \<or> starts_with CHR '')'' s then Some (args, skip_char CHR '')'' s)
      else let s = dropWhile is_space s in
        if starts_with CHR '')'' s then Some (args, tl s)
        else if length args \<ge> 5 then None
        else case one_arg s of None \<Rightarrow> None | Some (a, rest) \<Rightarrow> parse_subst_args (args @ [a]) rest)"
  by pat_completeness auto

termination
proof (relation "measure (\<lambda>(args, s). length s)", goal_cases)
  case (2 args s t p a rest)
  then have "length rest < length t" using one_arg_shorter [of t a rest] by simp
  then show ?case using 2(2) length_dropWhile_le [of is_space s] by simp
qed simp

declare parse_subst_args.simps [simp del]

type_synonym captures = "nat \<Rightarrow> (nat \<times> nat) option"

datatype regex_result = BadPattern | Unmatched | Captures captures

definition captured :: "captures \<Rightarrow> string \<Rightarrow> int \<Rightarrow> string option" where
  "captured caps subject n =
     (if n \<le> 0 \<or> n > 9 then None else map_option (\<lambda>(os, oe). substr subject os (oe - os)) (caps (nat n)))"

definition is_print :: "char \<Rightarrow> bool" where
  "is_print c \<longleftrightarrow> 32 \<le> code c \<and> code c \<le> 126"

function replace_all :: "string \<Rightarrow> string \<Rightarrow> string \<Rightarrow> string" where
  "replace_all f r [] = []"
| "replace_all f r (c # s) =
     (if f \<noteq> [] \<and> take (length f) (c # s) = f then r @ replace_all f r (drop (length f) (c # s))
      else c # replace_all f r s)"
  by pat_completeness auto

termination
  by (relation "measure (\<lambda>(f, r, s). length s)") (auto simp: length_greater_0_conv [symmetric] simp del: length_greater_0_conv)

definition big_endian :: "string \<Rightarrow> nat" where
  "big_endian s = foldl (\<lambda>v c. v * 256 + code c) 0 s"

definition subst_command :: "string \<Rightarrow> subst_arg list \<Rightarrow> captures \<Rightarrow> string \<Rightarrow> string option" where
  "subst_command cmd args caps subject =
     (if cmd = ''P''
      then (case args of
              [IntArg n] \<Rightarrow> Some (case captured caps subject n of None \<Rightarrow> [] | Some t \<Rightarrow> filter is_print t)
            | _ \<Rightarrow> None)
      else if cmd = ''SUBST''
      then (case args of
              [IntArg n, StrArg f, StrArg r] \<Rightarrow>
                Some (case captured caps subject n of None \<Rightarrow> [] | Some t \<Rightarrow> replace_all f r t)
            | _ \<Rightarrow> None)
      else if cmd = ''I''
      then (case args of
              [IntArg n, StrArg e] \<Rightarrow>
                if length e \<noteq> 1 then None
                else (case captured caps subject n of
                        None \<Rightarrow> Some []
                      | Some t \<Rightarrow> if length t > 8 then None
                          else Some (show_nat (big_endian (if e = ''>'' then t else rev t))))
            | _ \<Rightarrow> None)
      else None)"

text \<open>The substituted text, cut at its first NUL, and the rest of the template.\<close>

definition subst_var :: "captures \<Rightarrow> string \<Rightarrow> string \<Rightarrow> (string \<times> string) option" where
  "subst_var caps subject s =
     (let t = tl s in
      if digit_next t
      then Some (c_str (case captured caps subject (int (code (hd t)) - 48) of None \<Rightarrow> [] | Some v \<Rightarrow> v), tl t)
      else case find_char CHR ''('' t of
        None \<Rightarrow> None
      | Some i \<Rightarrow>
          if i = 0 \<or> i \<ge> 16 then None
          else case parse_subst_args [] (drop (i + 1) t) of
            None \<Rightarrow> None
          | Some (args, rest) \<Rightarrow>
              map_option (\<lambda>v. (c_str v, rest)) (subst_command (take i t) args caps subject))"

lemma parse_subst_args_shorter: "parse_subst_args args s = Some (args', rest) \<Longrightarrow> length rest \<le> length s"
proof (induction args s rule: parse_subst_args.induct)
  case (1 args s)
  define t where "t = dropWhile is_space s"
  have t: "length t \<le> length s" by (simp add: t_def length_dropWhile_le)
  note eq = parse_subst_args.simps [of args s, unfolded Let_def, folded t_def]
  consider "s = [] \<or> starts_with CHR '')'' s" | "s \<noteq> []" "\<not> starts_with CHR '')'' s" "starts_with CHR '')'' t"
    | a u where "s \<noteq> []" "\<not> starts_with CHR '')'' s" "\<not> starts_with CHR '')'' t" "\<not> length args \<ge> 5" "one_arg t = Some (a, u)"
        "parse_subst_args (args @ [a]) u = Some (args', rest)"
    using "1.prems" by (auto simp: eq split: if_splits option.splits)
  then show ?case
  proof cases
    case 1
    then show ?thesis using "1.prems" skip_char_le [of "CHR '')''" s] by (auto simp: eq)
  next
    case 2
    then show ?thesis using "1.prems" t by (auto simp: eq)
  next
    case (3 a u)
    then have "length rest \<le> length u" using "1.IH" [OF _ t_def, of "(a, u)" a u] by simp
    then show ?thesis using one_arg_shorter [OF 3(5)] t by simp
  qed
qed

lemma subst_var_shorter: "s \<noteq> [] \<Longrightarrow> subst_var caps subject s = Some (v, rest) \<Longrightarrow> length rest < length s"
  using parse_subst_args_shorter
  by (cases s) (fastforce simp: subst_var_def Let_def split: if_splits option.splits prod.splits)+

section \<open>Version templates\<close>

definition SERVICE_FIELD_LEN :: nat where
  "SERVICE_FIELD_LEN = 80"

definition SERVICE_EXTRA_LEN :: nat where
  "SERVICE_EXTRA_LEN = 256"

definition SERVICE_TYPE_LEN :: nat where
  "SERVICE_TYPE_LEN = 32"

text \<open>
  The loop of \<open>doTmplSubst\<close>: the template from \<open>src\<close> on, the output \<open>dst\<close> written up to then. A step that would
  reach the last byte but one of the buffer gives up.
\<close>

function template_from :: "captures \<Rightarrow> string \<Rightarrow> (string \<Rightarrow> string) \<Rightarrow> nat \<Rightarrow> string \<Rightarrow> string \<Rightarrow> string option" where
  "template_from caps subject transform outlen src dst =
     (if src = [] then Some dst
      else case find_char CHR ''$'' src of
        None \<Rightarrow> if length dst + length src \<ge> outlen - 1 then None else Some (dst @ src)
      | Some i \<Rightarrow>
          if length dst + i \<ge> outlen - 1 then None
          else let dst = dst @ take i src in
            case subst_var caps subject (drop i src) of
              None \<Rightarrow> None
            | Some (v, rest) \<Rightarrow>
                (let v = transform v in
                 if length dst + length v \<ge> outlen - 1 then None
                 else template_from caps subject transform outlen rest (dst @ v)))"
  by pat_completeness auto

termination
proof (relation "measure (\<lambda>(caps, subject, tr, outlen, src, dst). length src)", goal_cases)
  case (2 caps subject tr outlen src dst i dst' p v rest v')
  have "drop i src \<noteq> []" using find_char_Some [OF 2(2)] by simp
  then have "length rest < length (drop i src)" using subst_var_shorter 2(5,6) by blast
  then show ?case by simp
qed simp

declare template_from.simps [simp del]

definition is_trailing :: "char \<Rightarrow> bool" where
  "is_trailing c \<longleftrightarrow> is_space c \<or> c = CHR '',''"

definition do_tmpl_subst :: "captures \<Rightarrow> string \<Rightarrow> string \<Rightarrow> nat \<Rightarrow> (string \<Rightarrow> string) \<Rightarrow> string option" where
  "do_tmpl_subst caps subject tmpl outlen transform =
     (if outlen < 3 then None
      else map_option (\<lambda>v. rev (dropWhile is_trailing (rev v))) (template_from caps subject transform outlen tmpl []))"

definition hex2 :: "char \<Rightarrow> string" where
  "hex2 c = [hex_digit (code c div 16), hex_digit (code c mod 16)]"

definition cpe_specials :: string where
  "cpe_specials = '':/?#[]@!$&'' @ [CHR 0x27] @ ''()*+,;=%<>'' @ [CHR 0x22]"

definition cpe_char :: "char \<Rightarrow> string" where
  "cpe_char c =
     (if c \<in> set cpe_specials then CHR ''%'' # map to_upper (hex2 c)
      else if is_space c then ''_''
      else [lower_ascii c])"

definition transform_cpe :: "string \<Rightarrow> string" where
  "transform_cpe s = concat (map cpe_char s)"

definition fill_field :: "captures \<Rightarrow> string \<Rightarrow> nat \<Rightarrow> string option \<Rightarrow> string" where
  "fill_field caps subject outlen tmpl =
     (case tmpl of
        None \<Rightarrow> []
      | Some t \<Rightarrow> (case do_tmpl_subst caps subject t outlen id of None \<Rightarrow> [] | Some v \<Rightarrow> v))"

record match_details =
  md_soft :: bool
  md_service :: string
  md_product :: string
  md_version :: string
  md_info :: string
  md_hostname :: string
  md_ostype :: string
  md_devicetype :: string
  md_cpe_a :: string
  md_cpe_h :: string
  md_cpe_o :: string

definition cpe_value :: "captures \<Rightarrow> string \<Rightarrow> string \<Rightarrow> string option" where
  "cpe_value caps subject t =
     map_option (\<lambda>body. take (SERVICE_FIELD_LEN - 1) (''cpe:/'' @ body))
       (do_tmpl_subst caps subject t SERVICE_FIELD_LEN transform_cpe)"

text \<open>The first template of a part that can be filled in sets its field.\<close>

definition fill_cpe :: "captures \<Rightarrow> string \<Rightarrow> string \<Rightarrow> match_details \<Rightarrow> match_details" where
  "fill_cpe caps subject t md =
     (if t = [] then md
      else let keep = (\<lambda>old. if old \<noteq> [] then old else case cpe_value caps subject t of None \<Rightarrow> old | Some v \<Rightarrow> v) in
        if hd t = CHR ''a'' then md\<lparr>md_cpe_a := keep (md_cpe_a md)\<rparr>
        else if hd t = CHR ''h'' then md\<lparr>md_cpe_h := keep (md_cpe_h md)\<rparr>
        else if hd t = CHR ''o'' then md\<lparr>md_cpe_o := keep (md_cpe_o md)\<rparr>
        else md)"

definition fill_version_str :: "captures \<Rightarrow> string \<Rightarrow> match_line \<Rightarrow> match_details" where
  "fill_version_str caps subject m =
     fold (fill_cpe caps subject) (ml_cpe m)
       \<lparr>md_soft = ml_soft m, md_service = ml_service m,
        md_product = fill_field caps subject SERVICE_FIELD_LEN (ml_product m),
        md_version = fill_field caps subject SERVICE_FIELD_LEN (ml_version m),
        md_info = fill_field caps subject SERVICE_EXTRA_LEN (ml_info m),
        md_hostname = fill_field caps subject SERVICE_FIELD_LEN (ml_hostname m),
        md_ostype = fill_field caps subject SERVICE_TYPE_LEN (ml_ostype m),
        md_devicetype = fill_field caps subject SERVICE_TYPE_LEN (ml_devicetype m),
        md_cpe_a = [], md_cpe_h = [], md_cpe_o = []\<rparr>"

section \<open>One line, one probe\<close>

type_synonym pcre = "string \<Rightarrow> bool \<Rightarrow> bool \<Rightarrow> string \<Rightarrow> regex_result"

text \<open>\<open>strncasecmp(buf, lit, plen) == 0\<close> on a buffer at least as long: it stops at a NUL of both.\<close>

fun case_prefix :: "string \<Rightarrow> string \<Rightarrow> bool" where
  "case_prefix [] buf = True"
| "case_prefix (x # xs) [] = False"
| "case_prefix (x # xs) (y # ys) =
     (lower_ascii x = lower_ascii y \<and> (lower_ascii x = CHR 0x00 \<or> case_prefix xs ys))"

definition prefix_ok :: "match_line \<Rightarrow> string \<Rightarrow> bool" where
  "prefix_ok m buf =
     (case ml_prefix m of
        None \<Rightarrow> True
      | Some lit \<Rightarrow>
          length buf \<ge> length lit \<and> (if ml_i m then case_prefix lit buf else take (length lit) buf = lit))"

definition test_match :: "pcre \<Rightarrow> string \<Rightarrow> match_line \<Rightarrow> match_details option" where
  "test_match pcre buf m =
     (if \<not> prefix_ok m buf then None
      else case pcre (ml_regex m) (ml_i m) (ml_s m) buf of
        Captures caps \<Rightarrow> Some (fill_version_str caps buf m)
      | _ \<Rightarrow> None)"

fun test_matches :: "pcre \<Rightarrow> string \<Rightarrow> match_line list \<Rightarrow> match_details option" where
  "test_matches pcre buf [] = None"
| "test_matches pcre buf (m # ms) = (case test_match pcre buf m of None \<Rightarrow> test_matches pcre buf ms | Some md \<Rightarrow> Some md)"

text \<open>The lists of a probe's fallbacks, the probe itself first.\<close>

fun test_fallbacks :: "pcre \<Rightarrow> probe_db \<Rightarrow> string \<Rightarrow> probe_ref list \<Rightarrow> match_details option" where
  "test_fallbacks pcre db buf [] = None"
| "test_fallbacks pcre db buf (r # rs) =
     (case probe_at db r of
        None \<Rightarrow> None
      | Some p \<Rightarrow> (case test_matches pcre buf (sp_matches p) of None \<Rightarrow> test_fallbacks pcre db buf rs | Some md \<Rightarrow> Some md))"

section \<open>Fingerprints\<close>

record fp_buffer =
  fp_text :: string
  fp_alloc :: nat

definition fp_put :: "string \<Rightarrow> fp_buffer \<Rightarrow> fp_buffer option" where
  "fp_put s b = (if length (fp_text b) + length s \<le> fp_alloc b then Some (b\<lparr>fp_text := fp_text b @ s\<rparr>) else None)"

definition fp_grow :: "fp_buffer \<Rightarrow> fp_buffer" where
  "fp_grow b =
     (if int (fp_alloc b) - int (length (fp_text b)) < 8
      then b\<lparr>fp_alloc := (if fp_alloc b = 0 then 1024 else fp_alloc b * 2)\<rparr> else b)"

definition add_fp_char :: "nat \<Rightarrow> char \<Rightarrow> fp_buffer \<Rightarrow> fp_buffer option" where
  "add_fp_char wrapat c b =
     (let b = fp_grow b in
      case (if length (fp_text b) mod (wrapat + 1) = wrapat then map_option fp_grow (fp_put (NL # ''SF:'') b) else Some b) of
        None \<Rightarrow> None
      | Some b \<Rightarrow> fp_put [c] b)"

fun add_fp_string :: "nat \<Rightarrow> string \<Rightarrow> fp_buffer \<Rightarrow> fp_buffer option" where
  "add_fp_string wrapat [] b = Some b"
| "add_fp_string wrapat (c # s) b =
     (case add_fp_char wrapat c b of None \<Rightarrow> None | Some b \<Rightarrow> add_fp_string wrapat s b)"

definition fp_specials :: string where
  "fp_specials = [CHR 0x5C] @ ''?'' @ [CHR 0x22] @ ''[]().*+$^|''"

definition escape_byte :: "char \<Rightarrow> string \<Rightarrow> string" where
  "escape_byte c rest =
     (if is_alnum c then [c]
      else if c = CHR 0x00 then (if digit_next rest then CHR 0x5C # ''x00'' else CHR 0x5C # ''0'')
      else if c \<in> set fp_specials then [CHR 0x5C, c]
      else if is_punct c then [c]
      else if c = CR then CHR 0x5C # ''r''
      else if c = NL then CHR 0x5C # ''n''
      else if c = CHR 0x09 then CHR 0x5C # ''t''
      else CHR 0x5C # CHR ''x'' # hex2 c)"

fun escape_bytes :: "string \<Rightarrow> string" where
  "escape_bytes [] = []"
| "escape_bytes (c # s) = escape_byte c s @ escape_bytes s"

definition show_hex_upper :: "nat \<Rightarrow> string" where
  "show_hex_upper n = map to_upper (show_hex n)"

text \<open>Month, day and seconds as \<open>localtime_r\<close> and \<open>time\<close> give them.\<close>

type_synonym stamp = "nat \<times> nat \<times> nat"

definition fp_header :: "stamp \<Rightarrow> nat \<Rightarrow> nat \<Rightarrow> nat \<Rightarrow> service_tunnel \<Rightarrow> string" where
  "fp_header stamp port proto intensity tunnel =
     (case stamp of (mon, mday, now) \<Rightarrow>
        take 255 (''SF-Port'' @ show_nat port @ ''-'' @ (if proto = IPPROTO_TCP then ''TCP'' else ''UDP'') @
          '':V=custom%I='' @ show_nat intensity @ ''%D='' @ show_nat (mon + 1) @ ''/'' @ show_nat mday @
          ''%Time='' @ show_hex_upper (now mod 2 ^ 32) @ ''%P=custom'' @ (if tunnel = TunnelSsl then ''%T=SSL'' else [])))"

definition fp_record :: "string \<Rightarrow> nat \<Rightarrow> string" where
  "fp_record probe_name resplen =
     take 255 (''%r('' @ probe_name @ '','' @ show_hex_upper resplen @ '','' @ [CHR 0x22])"

definition WRAP :: nat where
  "WRAP = 74"

text \<open>The last line of \<open>addToFingerprint\<close> stores a NUL behind the text.\<close>

definition add_to_fingerprint :: "string \<Rightarrow> string \<Rightarrow> string \<Rightarrow> fp_buffer \<Rightarrow> fp_buffer option" where
  "add_to_fingerprint header probe_name resp b =
     (if length (fp_text b) > 2200 then Some b
      else case (if fp_text b = [] then add_fp_string WRAP header b else Some b) of
        None \<Rightarrow> None
      | Some b \<Rightarrow>
          (case add_fp_string WRAP (fp_record probe_name (length resp)) b of
             None \<Rightarrow> None
           | Some b \<Rightarrow>
               (case add_fp_string WRAP (escape_bytes (take 900 resp) @ [CHR 0x22, CHR '')'']) b of
                  None \<Rightarrow> None
                | Some b \<Rightarrow> if length (fp_text b) < fp_alloc b then Some b else None)))"

text \<open>The text with the semicolon and NUL that \<open>getFingerprint\<close> stores behind it.\<close>

definition get_fingerprint :: "fp_buffer \<Rightarrow> string option" where
  "get_fingerprint b =
     (if fp_text b = [] then Some []
      else let alloc = (if int (fp_alloc b) - int (length (fp_text b)) < 4 then fp_alloc b + 32 else fp_alloc b)
        in if length (fp_text b) + 2 \<le> alloc then Some (fp_text b @ '';'') else None)"

section \<open>The engine\<close>

datatype probe_state =
    FINISHED_HARDMATCHED | FINISHED_SOFTMATCHED | FINISHED_NOMATCH | FINISHED_EXCLUDED | FINISHED_TCPWRAPPED

record service_nfo =
  nf_port :: nat
  nf_proto :: nat
  nf_intensity :: int
  nf_tunnel :: service_tunnel
  nf_matched :: "string option"
  nf_soft :: bool
  nf_fields :: match_details
  nf_state :: probe_state
  nf_fp :: fp_buffer

record scan_result =
  res_port :: nat
  res_proto :: nat
  res_state :: probe_state
  res_tunnel :: service_tunnel
  res_service :: string
  res_fields :: match_details
  res_fingerprint :: string

record match_context =
  cx_probe_name :: "string option"
  cx_closed_without_data :: bool
  cx_elapsed_ms :: int

definition no_fields :: match_details where
  "no_fields =
     \<lparr>md_soft = False, md_service = [], md_product = [], md_version = [], md_info = [], md_hostname = [], md_ostype = [],
      md_devicetype = [], md_cpe_a = [], md_cpe_h = [], md_cpe_o = []\<rparr>"

definition new_nfo :: "nat \<Rightarrow> nat \<Rightarrow> int \<Rightarrow> service_tunnel \<Rightarrow> service_nfo" where
  "new_nfo port proto intensity tunnel =
     \<lparr>nf_port = port, nf_proto = proto, nf_intensity = intensity, nf_tunnel = tunnel, nf_matched = None, nf_soft = False,
      nf_fields = no_fields, nf_state = FINISHED_NOMATCH, nf_fp = \<lparr>fp_text = [], fp_alloc = 0\<rparr>\<rparr>"

text \<open>
  \<open>copyField\<close>: all fields into cleared buffers of their lengths. Name and softness of the match are no fields of the
  result and are left empty here.
\<close>

definition copied_fields :: "match_details \<Rightarrow> match_details" where
  "copied_fields md =
     \<lparr>md_soft = False, md_service = [],
      md_product = take (SERVICE_FIELD_LEN - 1) (md_product md), md_version = take (SERVICE_FIELD_LEN - 1) (md_version md),
      md_info = take (SERVICE_EXTRA_LEN - 1) (md_info md), md_hostname = take (SERVICE_FIELD_LEN - 1) (md_hostname md),
      md_ostype = take (SERVICE_TYPE_LEN - 1) (md_ostype md), md_devicetype = take (SERVICE_TYPE_LEN - 1) (md_devicetype md),
      md_cpe_a = take (SERVICE_FIELD_LEN - 1) (md_cpe_a md), md_cpe_h = take (SERVICE_FIELD_LEN - 1) (md_cpe_h md),
      md_cpe_o = take (SERVICE_FIELD_LEN - 1) (md_cpe_o md)\<rparr>"

definition process_match :: "match_details \<Rightarrow> service_nfo \<Rightarrow> bool \<times> service_nfo" where
  "process_match md svc =
     (if md_soft md \<and> nf_matched svc \<noteq> None then (False, svc)
      else (\<not> md_soft md, svc\<lparr>nf_matched := Some (md_service md), nf_soft := md_soft md, nf_fields := copied_fields md\<rparr>))"

definition scan_through_tunnel :: "service_nfo \<Rightarrow> bool \<times> service_nfo" where
  "scan_through_tunnel svc =
     (case nf_matched svc of
        None \<Rightarrow> (False, svc)
      | Some nm \<Rightarrow>
          if take 4 nm = ''ssl/''
          then (False, svc\<lparr>nf_matched := Some (take (SERVICE_FIELD_LEN - 1) (drop 4 nm)), nf_tunnel := TunnelSsl\<rparr>)
          else if nf_tunnel svc \<noteq> TunnelNone then (False, svc)
          else if nm \<noteq> ''ssl'' \<and> nm \<noteq> ''dtls'' then (False, svc)
          else (True, svc\<lparr>nf_tunnel := TunnelSsl, nf_matched := None, nf_soft := False, nf_fields := no_fields,
                 nf_fp := \<lparr>fp_text = [], fp_alloc = 0\<rparr>\<rparr>))"

definition build_service_result :: "service_nfo \<Rightarrow> scan_result option" where
  "build_service_result svc =
     map_option (\<lambda>fp. \<lparr>res_port = nf_port svc, res_proto = nf_proto svc, res_state = nf_state svc, res_tunnel = nf_tunnel svc,
         res_service = (case nf_matched svc of None \<Rightarrow> [] | Some nm \<Rightarrow> nm), res_fields = nf_fields svc, res_fingerprint = fp\<rparr>)
       (get_fingerprint (nf_fp svc))"

definition try_probe_set :: "pcre \<Rightarrow> probe_db \<Rightarrow> string \<Rightarrow> probe_ref \<Rightarrow> service_nfo \<Rightarrow> bool \<times> service_nfo" where
  "try_probe_set pcre db buf r svc =
     (case probe_at db r of
        None \<Rightarrow> (False, svc)
      | Some p \<Rightarrow>
          (case test_fallbacks pcre db buf (sp_fallbacks p) of
             None \<Rightarrow> (False, svc)
           | Some md \<Rightarrow> process_match md svc))"

text \<open>\<open>if (tryProbeSet(probe)) { if (!scanThroughTunnel(&svc)) goto done_hard; }\<close>\<close>

definition attempt :: "pcre \<Rightarrow> probe_db \<Rightarrow> string \<Rightarrow> probe_ref \<Rightarrow> service_nfo \<Rightarrow> bool \<times> service_nfo" where
  "attempt pcre db buf r svc =
     (case try_probe_set pcre db buf r svc of
        (hard, svc) \<Rightarrow> if hard then (case scan_through_tunnel svc of (again, svc) \<Rightarrow> (\<not> again, svc)) else (False, svc))"

fun attempts :: "pcre \<Rightarrow> probe_db \<Rightarrow> string \<Rightarrow> (probe_ref \<Rightarrow> service_nfo \<Rightarrow> bool) \<Rightarrow> probe_ref list \<Rightarrow> service_nfo \<Rightarrow> bool \<times> service_nfo" where
  "attempts pcre db buf skip [] svc = (False, svc)"
| "attempts pcre db buf skip (r # rs) svc =
     (if skip r svc then attempts pcre db buf skip rs svc
      else case attempt pcre db buf r svc of
        (finished, svc) \<Rightarrow> if finished then (True, svc) else attempts pcre db buf skip rs svc)"

definition impossible_service :: "probe_db \<Rightarrow> probe_ref \<Rightarrow> service_nfo \<Rightarrow> bool" where
  "impossible_service db r svc =
     (nf_soft svc \<and>
      (case (probe_at db r, nf_matched svc) of (Some p, Some nm) \<Rightarrow> nm \<notin> set (sp_detected p) | _ \<Rightarrow> False))"

text \<open>The probes steps 2 and 3 pass over.\<close>

definition skip_listed :: "probe_db \<Rightarrow> probe_ref option \<Rightarrow> probe_ref \<Rightarrow> service_nfo \<Rightarrow> bool" where
  "skip_listed db hinted r svc = (Some r = hinted \<or> impossible_service db r svc)"

definition skip_other :: "probe_db \<Rightarrow> probe_ref option \<Rightarrow> probe_ref \<Rightarrow> service_nfo \<Rightarrow> bool" where
  "skip_other db hinted r svc =
     (case probe_at db r of
        None \<Rightarrow> True
      | Some p \<Rightarrow>
          sp_proto p \<noteq> nf_proto svc \<or> Some r = hinted \<or> port_is_probable p (nf_tunnel svc) (nf_port svc) \<or>
          (\<not> nf_soft svc \<and> sp_rarity p > nf_intensity svc) \<or>
          (nf_intensity svc < 9 \<and> impossible_service db r svc))"

fun dtls_attempts :: "pcre \<Rightarrow> probe_db \<Rightarrow> string \<Rightarrow> probe_ref list \<Rightarrow> service_nfo \<Rightarrow> bool \<times> service_nfo" where
  "dtls_attempts pcre db buf [] svc = (False, svc)"
| "dtls_attempts pcre db buf (r # rs) svc =
     (case probe_at db r of
        None \<Rightarrow> dtls_attempts pcre db buf rs svc
      | Some p \<Rightarrow>
          if sp_proto p \<noteq> IPPROTO_UDP \<or> \<not> port_is_probable p TunnelSsl (nf_port svc) then dtls_attempts pcre db buf rs svc
          else case attempt pcre db buf r (svc\<lparr>nf_tunnel := TunnelSsl\<rparr>) of
            (finished, svc) \<Rightarrow>
              if finished then (True, svc) else dtls_attempts pcre db buf rs (svc\<lparr>nf_tunnel := TunnelNone\<rparr>))"

definition all_refs :: "probe_db \<Rightarrow> probe_ref list" where
  "all_refs db = map ProbeAt [0..<length (pd_probes db)]"

text \<open>Steps 0 to 4; \<open>True\<close> is the jump to \<open>done_hard\<close>.\<close>

definition search :: "pcre \<Rightarrow> probe_db \<Rightarrow> string \<Rightarrow> probe_ref option \<Rightarrow> service_nfo \<Rightarrow> bool \<times> service_nfo" where
  "search pcre db buf hinted svc =
     (let (finished, svc) = (case hinted of None \<Rightarrow> (False, svc) | Some r \<Rightarrow> attempt pcre db buf r svc) in
      if finished then (True, svc)
      else let (finished, svc) =
          (if nf_proto svc = IPPROTO_TCP \<and> pd_null db \<noteq> None \<and> hinted \<noteq> Some NullProbe
           then attempt pcre db buf NullProbe svc else (False, svc)) in
      if finished then (True, svc)
      else let (finished, svc) =
          attempts pcre db buf (skip_listed db hinted)
            (probes_for_port db (nf_proto svc) (nf_tunnel svc) (nf_port svc)) svc in
      if finished \<or> (nf_matched svc \<noteq> None \<and> \<not> nf_soft svc) then (True, svc)
      else let (finished, svc) = attempts pcre db buf (skip_other db hinted) (all_refs db) svc in
      if finished then (True, svc)
      else if nf_proto svc = IPPROTO_UDP \<and> nf_tunnel svc = TunnelNone then dtls_attempts pcre db buf (all_refs db) svc
      else (False, svc))"

definition clamp_intensity :: "int \<Rightarrow> int" where
  "clamp_intensity vi = max 1 (min 9 vi)"

definition unanswered :: "probe_db \<Rightarrow> match_context \<Rightarrow> service_nfo \<Rightarrow> scan_result option" where
  "unanswered db ctx svc =
     (if nf_proto svc = IPPROTO_TCP \<and> cx_closed_without_data ctx \<and> cx_elapsed_ms ctx \<ge> 0 \<and>
        cx_elapsed_ms ctx < (case pd_null db of Some p \<Rightarrow> sp_tcpwrappedms p | None \<Rightarrow> 3000)
      then map_option (\<lambda>r. r\<lparr>res_service := ''tcpwrapped''\<rparr>) (build_service_result (svc\<lparr>nf_state := FINISHED_TCPWRAPPED\<rparr>))
      else build_service_result (svc\<lparr>nf_state := FINISHED_NOMATCH\<rparr>))"

definition concluded :: "stamp \<Rightarrow> string \<Rightarrow> bool \<Rightarrow> service_nfo \<Rightarrow> scan_result option" where
  "concluded stamp data hard svc =
     (if hard then build_service_result (svc\<lparr>nf_state := FINISHED_HARDMATCHED\<rparr>)
      else if nf_soft svc then build_service_result (svc\<lparr>nf_state := FINISHED_SOFTMATCHED\<rparr>)
      else case add_to_fingerprint
          (fp_header stamp (nf_port svc) (nf_proto svc) (nat (nf_intensity svc)) (nf_tunnel svc)) ''(all probes)'' data (nf_fp svc) of
        None \<Rightarrow> None
      | Some fp \<Rightarrow> build_service_result (svc\<lparr>nf_state := FINISHED_NOMATCH, nf_fp := fp\<rparr>))"

definition match_response ::
  "pcre \<Rightarrow> stamp \<Rightarrow> probe_db \<Rightarrow> bool \<Rightarrow> int \<Rightarrow> nat \<Rightarrow> nat \<Rightarrow> service_tunnel \<Rightarrow> string \<Rightarrow> match_context \<Rightarrow> scan_result option" where
  "match_response pcre stamp db ignore_exclude intensity port proto tunnel data ctx =
     (if \<not> ignore_exclude \<and> is_excluded db port proto
      then Some \<lparr>res_port = port, res_proto = proto, res_state = FINISHED_EXCLUDED, res_tunnel = TunnelNone,
        res_service = ''Excluded from version scan'', res_fields = no_fields, res_fingerprint = []\<rparr>
      else let svc = new_nfo port proto (clamp_intensity intensity) tunnel in
        if data = [] then unanswered db ctx svc
        else let hinted = (case cx_probe_name ctx of
               None \<Rightarrow> None | Some nm \<Rightarrow> if nm = [] then None else get_probe_by_name db nm proto) in
          case search pcre db data hinted svc of (hard, svc) \<Rightarrow> concluded stamp data hard svc)"

end
