(* ===== verification/Service_Props.thy ===== *)
theory Service_Props
  imports Service_Match
begin

text \<open>
  What the service probes guarantee: a loaded database is well formed, a result is backed by a line of it that
  matches, nothing is written outside a buffer, fingerprints are read back.
\<close>

section \<open>Fields\<close>

lemma template_from_length:
  "template_from caps subject transform outlen src dst = Some v \<Longrightarrow> length dst < outlen - 1 \<Longrightarrow> length v < outlen - 1"
proof (induction caps subject transform outlen src dst rule: template_from.induct)
  case (1 caps subject transform outlen src dst)
  show ?case
    using "1.prems" "1.IH"
    by (subst (asm) template_from.simps) (auto simp: Let_def split: if_splits option.splits prod.splits)
qed

lemma do_tmpl_subst_facts:
  assumes "do_tmpl_subst caps subject tmpl outlen transform = Some v"
  shows "length v < outlen - 1" and "v \<noteq> [] \<Longrightarrow> \<not> is_trailing (last v)"
proof -
  obtain u where u: "template_from caps subject transform outlen tmpl [] = Some u" "v = rev (dropWhile is_trailing (rev u))"
    "\<not> outlen < 3"
    using assms by (auto simp: do_tmpl_subst_def split: if_splits)
  have "length u < outlen - 1" using template_from_length [OF u(1)] u(3) by simp
  then show "length v < outlen - 1" using length_dropWhile_le [of is_trailing "rev u"] by (simp add: u(2))
  show "\<not> is_trailing (last v)" if "v \<noteq> []"
  proof -
    have "dropWhile is_trailing (rev u) \<noteq> []" using that by (simp add: u(2))
    then have "\<not> is_trailing (hd (dropWhile is_trailing (rev u)))" by (rule hd_dropWhile)
    then show ?thesis using that by (simp add: u(2) last_rev)
  qed
qed

definition field_ok :: "nat \<Rightarrow> string \<Rightarrow> bool" where
  "field_ok outlen v \<longleftrightarrow> length v < outlen - 1 \<and> (v \<noteq> [] \<longrightarrow> \<not> is_trailing (last v))"

definition cpe_ok :: "string \<Rightarrow> bool" where
  "cpe_ok v \<longleftrightarrow> v = [] \<or> (length v < SERVICE_FIELD_LEN \<and> take 5 v = ''cpe:/'')"

definition fields_ok :: "match_details \<Rightarrow> bool" where
  "fields_ok md \<longleftrightarrow>
     field_ok SERVICE_FIELD_LEN (md_product md) \<and> field_ok SERVICE_FIELD_LEN (md_version md) \<and>
     field_ok SERVICE_EXTRA_LEN (md_info md) \<and> field_ok SERVICE_FIELD_LEN (md_hostname md) \<and>
     field_ok SERVICE_TYPE_LEN (md_ostype md) \<and> field_ok SERVICE_TYPE_LEN (md_devicetype md) \<and>
     cpe_ok (md_cpe_a md) \<and> cpe_ok (md_cpe_h md) \<and> cpe_ok (md_cpe_o md)"

lemma do_tmpl_subst_ok: "do_tmpl_subst caps subject tmpl outlen transform = Some v \<Longrightarrow> field_ok outlen v"
  using do_tmpl_subst_facts by (simp add: field_ok_def)

lemma fill_field_ok: "2 \<le> outlen \<Longrightarrow> field_ok outlen (fill_field caps subject outlen tmpl)"
  using do_tmpl_subst_ok by (auto simp: fill_field_def field_ok_def [of outlen "[]"] split: option.split)

lemma cpe_value_ok: "cpe_value caps subject t = Some v \<Longrightarrow> cpe_ok v"
  by (auto simp: cpe_value_def cpe_ok_def SERVICE_FIELD_LEN_def)

lemma fill_cpe_ok: "fields_ok md \<Longrightarrow> fields_ok (fill_cpe caps subject t md)"
  by (auto simp: fill_cpe_def fields_ok_def Let_def dest: cpe_value_ok split: option.split)

lemma fill_version_str_ok: "fields_ok (fill_version_str caps subject m)"
proof -
  have "fields_ok (fold (fill_cpe caps subject) ts md)" if "fields_ok md" for ts md
    using that by (induction ts arbitrary: md) (simp_all add: fill_cpe_ok)
  then show ?thesis
    unfolding fill_version_str_def
    by (simp add: fields_ok_def fill_field_ok SERVICE_FIELD_LEN_def SERVICE_EXTRA_LEN_def SERVICE_TYPE_LEN_def cpe_ok_def)
qed

lemma fill_cpe_same [simp]:
  "md_soft (fill_cpe caps subject t md) = md_soft md" "md_service (fill_cpe caps subject t md) = md_service md"
  by (simp_all add: fill_cpe_def Let_def)

lemma fill_version_str_same [simp]:
  "md_soft (fill_version_str caps subject m) = ml_soft m" "md_service (fill_version_str caps subject m) = ml_service m"
proof -
  have "md_soft (fold (fill_cpe caps subject) ts md) = md_soft md \<and>
      md_service (fold (fill_cpe caps subject) ts md) = md_service md" for ts md
    by (induction ts arbitrary: md) simp_all
  then show "md_soft (fill_version_str caps subject m) = ml_soft m"
    and "md_service (fill_version_str caps subject m) = ml_service m"
    by (simp_all add: fill_version_str_def)
qed

text \<open>Copying into the buffers of the result cuts nothing.\<close>

lemma field_take: "field_ok n v \<Longrightarrow> take (n - 1) v = v"
  by (simp add: field_ok_def)

lemma cpe_take: "cpe_ok v \<Longrightarrow> take (SERVICE_FIELD_LEN - 1) v = v"
  by (auto simp: cpe_ok_def)

lemma copied_fields_ok: "fields_ok md \<Longrightarrow> copied_fields md = md\<lparr>md_soft := False, md_service := []\<rparr>"
  unfolding fields_ok_def copied_fields_def by (simp only: field_take cpe_take) simp

section \<open>Fingerprints\<close>

definition fp_ok :: "fp_buffer \<Rightarrow> bool" where
  "fp_ok b \<longleftrightarrow> (fp_text b = [] \<and> fp_alloc b = 0) \<or> (1024 \<le> fp_alloc b \<and> length (fp_text b) + 3 \<le> fp_alloc b)"

lemma fp_grow_facts:
  "fp_ok b \<Longrightarrow> fp_text (fp_grow b) = fp_text b \<and> 1024 \<le> fp_alloc (fp_grow b) \<and> length (fp_text b) + 8 \<le> fp_alloc (fp_grow b)"
  by (auto simp: fp_grow_def fp_ok_def)

lemma fp_put_Some: "length (fp_text b) + length s \<le> fp_alloc b \<Longrightarrow> fp_put s b = Some (b\<lparr>fp_text := fp_text b @ s\<rparr>)"
  by (simp add: fp_put_def)

definition wrap_mark :: "string \<Rightarrow> string" where
  "wrap_mark t = (if length t mod 75 = 74 then NL # ''SF:'' else [])"

lemma add_fp_char_Some:
  assumes "fp_ok b"
  shows "\<exists>b'. add_fp_char WRAP c b = Some b' \<and> fp_ok b' \<and> fp_text b' = fp_text b @ wrap_mark (fp_text b) @ [c]"
proof -
  note g = fp_grow_facts [OF assms]
  show ?thesis
  proof (cases "length (fp_text b) mod 75 = 74")
    case True
    define b1 where "b1 = (fp_grow b)\<lparr>fp_text := fp_text b @ NL # ''SF:''\<rparr>"
    have put: "fp_put (NL # ''SF:'') (fp_grow b) = Some b1" using g by (simp add: fp_put_Some b1_def)
    have "fp_ok b1" using g by (simp add: fp_ok_def b1_def)
    note g1 = fp_grow_facts [OF this]
    have "add_fp_char WRAP c b = Some ((fp_grow b1)\<lparr>fp_text := fp_text b1 @ [c]\<rparr>)"
      using put g g1 True by (simp add: add_fp_char_def WRAP_def fp_put_Some Let_def)
    then show ?thesis using g1 True by (auto simp: fp_ok_def b1_def wrap_mark_def)
  next
    case False
    have "add_fp_char WRAP c b = Some ((fp_grow b)\<lparr>fp_text := fp_text b @ [c]\<rparr>)"
      using g False by (simp add: add_fp_char_def WRAP_def fp_put_Some Let_def)
    then show ?thesis using g False by (auto simp: fp_ok_def wrap_mark_def)
  qed
qed

fun wrapped :: "string \<Rightarrow> string \<Rightarrow> string" where
  "wrapped t [] = t"
| "wrapped t (c # s) = wrapped (t @ wrap_mark t @ [c]) s"

lemma wrapped_append: "wrapped t (s @ s') = wrapped (wrapped t s) s'"
  by (induction t s rule: wrapped.induct) auto

lemma wrapped_not_Nil: "wrapped t s = [] \<longleftrightarrow> t = [] \<and> s = []"
  by (induction t s rule: wrapped.induct) auto

lemma add_fp_string_Some:
  "fp_ok b \<Longrightarrow> \<exists>b'. add_fp_string WRAP s b = Some b' \<and> fp_ok b' \<and> fp_text b' = wrapped (fp_text b) s"
proof (induction s arbitrary: b)
  case (Cons c s)
  obtain b1 where b1: "add_fp_char WRAP c b = Some b1" "fp_ok b1" "fp_text b1 = fp_text b @ wrap_mark (fp_text b) @ [c]"
    using add_fp_char_Some [OF Cons.prems] by blast
  show ?case using Cons.IH [OF b1(2)] b1(1,3) by auto
qed simp

definition fp_raw :: "string \<Rightarrow> string \<Rightarrow> string \<Rightarrow> string" where
  "fp_raw header probe_name resp =
     header @ fp_record probe_name (length resp) @ escape_bytes (take 900 resp) @ [CHR 0x22, CHR '')'']"

lemma add_to_fingerprint_Some:
  assumes "header \<noteq> []"
  shows "\<exists>b. add_to_fingerprint header nm resp \<lparr>fp_text = [], fp_alloc = 0\<rparr> = Some b \<and> fp_ok b \<and>
    fp_text b = wrapped [] (fp_raw header nm resp)"
proof -
  have "fp_ok \<lparr>fp_text = [], fp_alloc = 0\<rparr>" by (simp add: fp_ok_def)
  from add_fp_string_Some [OF this] obtain b1 where b1: "add_fp_string WRAP header \<lparr>fp_text = [], fp_alloc = 0\<rparr> = Some b1"
    "fp_ok b1" "fp_text b1 = wrapped [] header" by auto
  obtain b2 where b2: "add_fp_string WRAP (fp_record nm (length resp)) b1 = Some b2" "fp_ok b2"
    "fp_text b2 = wrapped (fp_text b1) (fp_record nm (length resp))" using add_fp_string_Some [OF b1(2)] by blast
  obtain b3 where b3: "add_fp_string WRAP (escape_bytes (take 900 resp) @ [CHR 0x22, CHR '')'']) b2 = Some b3" "fp_ok b3"
    "fp_text b3 = wrapped (fp_text b2) (escape_bytes (take 900 resp) @ [CHR 0x22, CHR '')''])"
    using add_fp_string_Some [OF b2(2)] by blast
  have all: "fp_text b3 = wrapped [] (fp_raw header nm resp)"
    by (simp add: fp_raw_def wrapped_append b3(3) b2(3) b1(3))
  then have "fp_text b3 \<noteq> []" using assms by (simp add: wrapped_not_Nil fp_raw_def)
  then have "length (fp_text b3) < fp_alloc b3" using b3(2) by (auto simp: fp_ok_def)
  then show ?thesis using b1(1) b2(1) b3(1,2) all by (simp add: add_to_fingerprint_def)
qed

lemma get_fingerprint_Some: "fp_ok b \<Longrightarrow> \<exists>t. get_fingerprint b = Some t"
  by (auto simp: get_fingerprint_def fp_ok_def Let_def)

text \<open>Reading back: a line break and the three characters after it are dropped.\<close>

fun unwrap :: "string \<Rightarrow> string" where
  "unwrap [] = []"
| "unwrap (c # s) = (if c = NL then unwrap (drop 3 s) else c # unwrap s)"

lemma unwrap_wrapped: "NL \<notin> set s \<Longrightarrow> (\<And>u. unwrap (t @ u) = r @ unwrap u) \<Longrightarrow> unwrap (wrapped t s @ u) = r @ s @ unwrap u"
proof (induction s arbitrary: t r)
  case (Cons c s)
  have "unwrap ((t @ wrap_mark t @ [c]) @ u) = (r @ [c]) @ unwrap u" for u
    using Cons.prems by (auto simp: wrap_mark_def)
  from Cons.IH [OF _ this] show ?case using Cons.prems(1) by simp
qed simp

lemma split_on_snoc: "split_on d (t @ [c]) = (if c = d then split_on d t @ [[]] else butlast (split_on d t) @ [last (split_on d t) @ [c]])"
proof (induction t)
  case (Cons x t)
  obtain u us where u: "split_on d t = u # us" by (cases "split_on d t") auto
  show ?case using Cons.IH by (cases us rule: rev_cases) (auto simp: u split: list.splits)
qed simp

definition lines_ok :: "string \<Rightarrow> bool" where
  "lines_ok t \<longleftrightarrow> (\<forall>l \<in> set (butlast (split_on NL t)). length l = 74) \<and> length (last (split_on NL t)) = length t mod 75"

lemma lines_ok_snoc:
  assumes "lines_ok t" and "c \<noteq> NL" and "length t mod 75 \<noteq> 74"
  shows "lines_ok (t @ [c])"
  using assms by (simp add: lines_ok_def split_on_snoc mod_Suc)

lemma lines_ok_break:
  assumes "lines_ok t" and "length t mod 75 = 74"
  shows "lines_ok (t @ [NL])"
proof -
  have "split_on NL t = butlast (split_on NL t) @ [last (split_on NL t)]" by simp
  then have "l \<in> set (split_on NL t) \<Longrightarrow> length l = 74" for l
    using assms by (metis lines_ok_def in_set_conv_decomp last_in_set Un_iff set_append list.set(1,2) empty_iff insert_iff)
  then show ?thesis using assms(2) by (simp add: lines_ok_def split_on_snoc mod_Suc)
qed

lemma lines_ok_mark:
  assumes "lines_ok t"
  shows "lines_ok (t @ wrap_mark t)" and "length (t @ wrap_mark t) mod 75 \<noteq> 74"
proof -
  have "lines_ok (t @ NL # ''SF:'') \<and> length (t @ NL # ''SF:'') mod 75 \<noteq> 74" if m: "length t mod 75 = 74"
  proof -
    have l: "length (t @ [NL]) mod 75 = 0" "length (t @ [NL, CHR ''S'']) mod 75 = 1" "length (t @ NL # ''SF'') mod 75 = 2"
      "length (t @ NL # ''SF:'') mod 75 = 3"
      using m by (simp_all add: mod_Suc)
    have ne: "length (t @ [NL]) mod 75 \<noteq> 74" "length (t @ [NL, CHR ''S'']) mod 75 \<noteq> 74" "length (t @ NL # ''SF'') mod 75 \<noteq> 74"
      using l by linarith+
    have "lines_ok (t @ [NL])" by (rule lines_ok_break [OF assms m])
    from lines_ok_snoc [OF this _ ne(1), of "CHR ''S''"] have "lines_ok (t @ [NL, CHR ''S''])" by simp
    from lines_ok_snoc [OF this _ ne(2), of "CHR ''F''"] have "lines_ok (t @ NL # ''SF'')" by simp
    from lines_ok_snoc [OF this _ ne(3), of "CHR '':''"]
    have "lines_ok (t @ NL # ''SF:'')" by simp
    then show ?thesis using l(4) by linarith
  qed
  then show "lines_ok (t @ wrap_mark t)" "length (t @ wrap_mark t) mod 75 \<noteq> 74"
    using assms by (simp_all add: wrap_mark_def)
qed

lemma lines_ok_wrapped: "lines_ok t \<Longrightarrow> NL \<notin> set s \<Longrightarrow> lines_ok (wrapped t s)"
proof (induction t s rule: wrapped.induct)
  case (2 t c s)
  have "lines_ok ((t @ wrap_mark t) @ [c])" using lines_ok_mark [OF 2(2)] 2(3) by (intro lines_ok_snoc) auto
  then show ?case using 2 by simp
qed simp

lemma lines_ok_length:
  assumes "lines_ok t" and "l \<in> set (split_on NL t)"
  shows "length l \<le> 74"
proof -
  have "split_on NL t = butlast (split_on NL t) @ [last (split_on NL t)]" by simp
  then consider "l \<in> set (butlast (split_on NL t))" | "l = last (split_on NL t)"
    using assms(2) by (metis Un_iff set_append list.set(1,2) empty_iff insert_iff)
  then show ?thesis using assms(1) by cases (auto simp: lines_ok_def)
qed

lemma code_less_256: "code c < 256"
  using nat_of_char_less_256 [of c] by simp

lemma hexval_hex_digit: "k < 16 \<Longrightarrow> hexval (hex_digit k) = Some k"
  using code_hex_digit [of k] by (auto simp: hexval_def)

lemma hex2_facts:
  assumes "hex2 c = [h, l]"
  shows "is_xdigit h \<and> is_xdigit l \<and> byte_of_hex h l = c" and "h \<noteq> NL" and "l \<noteq> NL"
proof -
  have k: "code c div 16 < 16" "code c mod 16 < 16" using code_less_256 [of c] less_mult_imp_div_less [of "code c" 16 16] by simp_all
  have hl: "h = hex_digit (code c div 16)" "l = hex_digit (code c mod 16)" using assms by (simp_all add: hex2_def)
  show "is_xdigit h \<and> is_xdigit l \<and> byte_of_hex h l = c"
    using hex_digit_facts(2) [OF k(1)] hex_digit_facts(2) [OF k(2)] hexval_hex_digit [OF k(1)] hexval_hex_digit [OF k(2)]
    by (simp add: hl is_xdigit_def byte_of_hex_def)
  show "h \<noteq> NL" "l \<noteq> NL" using hex_digit_facts(4) [OF k(1)] hex_digit_facts(4) [OF k(2)] by (auto simp: hl)
qed

lemma unescape_escape_byte:
  "cstring_unescape (escape_byte c rest @ u) = (fst (cstring_unescape u), c # snd (cstring_unescape u))"
proof -
  have special: "c \<in> set fp_specials \<Longrightarrow> unescaped c = c \<and> c \<noteq> CHR ''x''"
    by (auto simp: fp_specials_def unescaped_def)
  obtain h l where hl: "hex2 c = [h, l]" by (simp add: hex2_def)
  have zero: "is_xdigit (CHR ''0'')" "byte_of_hex (CHR ''0'') (CHR ''0'') = CHR 0x00" "unescaped (CHR ''0'') = CHR 0x00"
    "unescaped (CHR ''r'') = CR" "unescaped (CHR ''n'') = NL" "unescaped (CHR ''t'') = CHR 0x09"
    by code_simp+
  have plain: "is_alnum c \<Longrightarrow> c \<noteq> CHR 0x5C"
    by (auto simp: is_alnum_def is_alpha_def is_digit_def)
  have slash: "CHR 0x5C \<in> set fp_specials" by (simp add: fp_specials_def)
  consider "is_alnum c" | "\<not> is_alnum c" "c = CHR 0x00" | "\<not> is_alnum c" "c \<noteq> CHR 0x00" "c \<in> set fp_specials"
    | "\<not> is_alnum c" "c \<noteq> CHR 0x00" "c \<notin> set fp_specials" by blast
  then show ?thesis
  proof cases
    case 4
    then have "c \<noteq> CHR 0x5C" using slash by auto
    then show ?thesis using 4 zero hex2_facts(1) [OF hl] by (simp add: escape_byte_def hl split: prod.split)
  qed (use plain special zero in \<open>simp_all add: escape_byte_def split: prod.split\<close>)
qed

lemma unescape_escape_bytes: "cstring_unescape (escape_bytes s) = (True, s)"
  by (induction s) (simp_all add: unescape_escape_byte)

lemma escape_no_break: "NL \<notin> set (escape_bytes s)"
proof (induction s)
  case (Cons c s)
  obtain h l where hl: "hex2 c = [h, l]" by (simp add: hex2_def)
  have "NL \<notin> set (hex2 c)" using hex2_facts(2,3) [OF hl] by (auto simp: hl)
  then have "NL \<notin> set (escape_byte c s)"
    by (auto simp: escape_byte_def is_alnum_def is_alpha_def is_digit_def is_punct_def fp_specials_def)
  then show ?case using Cons by simp
qed simp

lemma show_hex_upper_chars: "NL \<notin> set (show_hex_upper n)"
proof
  assume "NL \<in> set (show_hex_upper n)"
  then obtain c where c: "c \<in> set (show_hex n)" "to_upper c = NL" by (auto simp: show_hex_upper_def)
  then have "c = NL" by (auto simp: to_upper_def of_char_of split: if_splits dest: arg_cong [of _ _ code])
  then show False using c(1) show_hex_chars(1) [of NL n] by (simp add: is_digit_in_def digit_value_def)
qed

section \<open>A loaded database\<close>

definition service_probe_ok :: "service_probe \<Rightarrow> bool" where
  "service_probe_ok p \<longleftrightarrow>
     sp_proto p \<in> {IPPROTO_TCP, IPPROTO_UDP} \<and> sp_name p \<noteq> [] \<and> 1 \<le> sp_rarity p \<and> sp_rarity p \<le> 9 \<and>
     100 \<le> sp_totalwaitms p \<and> sp_totalwaitms p \<le> 300000 \<and> 100 \<le> sp_tcpwrappedms p \<and> sp_tcpwrappedms p \<le> 300000 \<and>
     set (sp_ports p) \<subseteq> {..65535} \<and> set (sp_ssl_ports p) \<subseteq> {..65535} \<and>
     set (sp_detected p) = ml_service ` set (sp_matches p)"

lemma port_entry_bound: "port_entry s = Inr (ps, rest) \<Longrightarrow> set ps \<subseteq> {..65535}"
  by (auto simp: port_entry_def Let_def nat_le_iff split: if_splits prod.splits)

lemma set_port_vector_bound:
  "set_port_vector portv s = Inr v \<Longrightarrow> set portv \<subseteq> {..65535} \<Longrightarrow> set v \<subseteq> {..65535}"
proof (induction portv s rule: set_port_vector.induct)
  case (1 portv s)
  obtain ps rest where e: "port_entry s = Inr (ps, rest)"
    using "1.prems"(1) by (subst (asm) set_port_vector.simps) (auto split: sum.splits)
  have "set (portv @ ps) \<subseteq> {..65535}" using "1.prems"(2) port_entry_bound [OF e] by simp
  then show ?case using "1.IH" [OF e refl refl] "1.prems"(1)
    by (subst (asm) (2) set_port_vector.simps) (auto simp: e Let_def split: if_splits)
qed

lemma map_sum_Inr: "map_sum f g x = Inr y \<longleftrightarrow> (\<exists>z. x = Inr z \<and> y = g z)"
  by (cases x) auto

lemma set_probe_details_ok:
  assumes "set_probe_details pd = Inr p"
  shows "service_probe_ok p"
proof -
  define u where "u = drop 4 pd"
  obtain proto sp bs where u: "probe_protocol pd = Some proto" "u \<noteq> []" "is_alnum (hd u)" "find_char CHR '' '' u = Some sp"
    and p: "p = new_probe\<lparr>sp_name := take sp u, sp_string := bs, sp_proto := proto\<rparr>"
    using assms by (auto simp: set_probe_details_def Let_def u_def split: if_splits option.splits sum.splits)
  have "sp \<noteq> 0" using u(2-4) by (cases u) (auto simp: is_alnum_def is_alpha_def is_digit_def split: if_splits)
  then show ?thesis using u(1,2) by (auto simp: p service_probe_ok_def new_probe_def probe_protocol_def split: if_splits)
qed

lemma add_match_ok: "add_match line p = Inr q \<Longrightarrow> service_probe_ok p \<Longrightarrow> service_probe_ok q"
  by (auto simp: add_match_def service_probe_ok_def split: sum.splits if_splits)

lemma eight_ways:
  "(if a then x1 else if b then x2 else if c then x3 else if d then x4 else if e then x5 else if f then x6 else if g then x7 else x8) = y \<Longrightarrow>
   y = x1 \<or> y = x2 \<or> y = x3 \<or> y = x4 \<or> y = x5 \<or> y = x6 \<or> y = x7 \<or> y = x8"
  by auto

lemma probe_directive_ok:
  assumes "probe_directive line p = Inr q" and ok: "service_probe_ok p"
  shows "service_probe_ok q"
proof -
  have rarity: "set_rarity s = Inr r \<Longrightarrow> 1 \<le> r \<and> r \<le> 9" for s r
    by (auto simp: set_rarity_def Let_def split: if_splits prod.splits)
  have wait: "wait_ms s = Inr ms \<Longrightarrow> 100 \<le> ms \<and> ms \<le> 300000" for s ms
    by (auto simp: wait_ms_def Let_def split: if_splits)
  have upd: "service_probe_ok (p\<lparr>sp_ports := v\<rparr>)" "service_probe_ok (p\<lparr>sp_ssl_ports := v\<rparr>)" if "set v \<subseteq> {..65535}" for v
    using ok that by (simp_all add: service_probe_ok_def)
  have upd': "1 \<le> r \<and> r \<le> 9 \<Longrightarrow> service_probe_ok (p\<lparr>sp_rarity := r\<rparr>)" "service_probe_ok (p\<lparr>sp_fallback_str := x\<rparr>)"
    "100 \<le> r \<and> r \<le> 300000 \<Longrightarrow> service_probe_ok (p\<lparr>sp_totalwaitms := r\<rparr>)"
    "100 \<le> r \<and> r \<le> 300000 \<Longrightarrow> service_probe_ok (p\<lparr>sp_tcpwrappedms := r\<rparr>)" for r x
    using ok by (simp_all add: service_probe_ok_def)
  have lists: "set (sp_ports p) \<subseteq> {..65535}" "set (sp_ssl_ports p) \<subseteq> {..65535}" using ok by (simp_all add: service_probe_ok_def)
  have mapped: "service_probe_ok q" if "Inr q = map_sum id f x" "\<And>v. x = Inr v \<Longrightarrow> service_probe_ok (f v)"
    for f and x :: "probe_err + 'v"
    using that by (cases x) auto
  have ports: "service_probe_ok q" if "Inr q = map_sum id (\<lambda>v. p\<lparr>sp_ports := v\<rparr>) (set_port_vector (sp_ports p) s)" for s
    by (rule mapped [OF that]) (rule upd(1) [OF set_port_vector_bound [OF _ lists(1)]])
  have ssl: "service_probe_ok q" if "Inr q = map_sum id (\<lambda>v. p\<lparr>sp_ssl_ports := v\<rparr>) (set_port_vector (sp_ssl_ports p) s)" for s
    by (rule mapped [OF that]) (rule upd(2) [OF set_port_vector_bound [OF _ lists(2)]])
  have rare: "service_probe_ok q" if "Inr q = map_sum id (\<lambda>r. p\<lparr>sp_rarity := r\<rparr>) (set_rarity s)" for s
    by (rule mapped [OF that]) (rule upd'(1) [OF rarity])
  have total: "service_probe_ok q" if "Inr q = map_sum id (\<lambda>ms. p\<lparr>sp_totalwaitms := ms\<rparr>) (wait_ms s)" for s
    by (rule mapped [OF that]) (rule upd'(3) [OF wait])
  have tcpwrapped: "service_probe_ok q" if "Inr q = map_sum id (\<lambda>ms. p\<lparr>sp_tcpwrappedms := ms\<rparr>) (wait_ms s)" for s
    by (rule mapped [OF that]) (rule upd'(4) [OF wait])
  have rest: "service_probe_ok q" if "Inr q = add_match line p \<or> Inr q = (Inr p :: probe_err + service_probe) \<or>
      Inr q = (Inr (p\<lparr>sp_fallback_str := Some s\<rparr>) :: probe_err + service_probe)" for s
    using that add_match_ok [of line p q] ok upd'(2) by auto
  show ?thesis
    using eight_ways [OF assms(1) [unfolded probe_directive_def]]
    by (elim disjE) (erule ports ssl rare total tcpwrapped | rule rest, blast)+
qed

definition probes_ok :: "service_probe option \<Rightarrow> probe_db \<Rightarrow> bool" where
  "probes_ok cur db \<longleftrightarrow>
     (\<forall>p \<in> set (pd_probes db). service_probe_ok p) \<and> (case cur of None \<Rightarrow> True | Some p \<Rightarrow> service_probe_ok p) \<and>
     (case pd_null db of None \<Rightarrow> True | Some p \<Rightarrow> service_probe_ok p)"

lemma probes_ok_simps [simp]:
  "probes_ok (Some p) db \<longleftrightarrow> service_probe_ok p \<and> probes_ok None db"
  "probes_ok cur (db\<lparr>pd_excluded := ex, pd_excluded_seen := seen\<rparr>) = probes_ok cur db"
  by (auto simp: probes_ok_def)

lemma finish_probe_ok: "finish_probe cur db = Inr db' \<Longrightarrow> probes_ok cur db \<Longrightarrow> probes_ok None db'"
  by (auto simp: finish_probe_def probes_ok_def split: option.splits if_splits)

lemma probe_line_ok:
  assumes "probe_line line cur db = Inr (cur', db')" and ok: "probes_ok cur db"
  shows "probes_ok cur' db'"
proof -
  have fin: "finish_probe cur db = Inr d \<Longrightarrow> probes_ok None d" for d using ok finish_probe_ok by blast
  show ?thesis
    using assms fin
    by (auto simp: probe_line_def Let_def set_probe_details_ok probe_directive_ok split: if_splits option.splits sum.splits)
qed

lemma probe_lines_ok: "probe_lines n lines cur db = Inr db' \<Longrightarrow> probes_ok cur db \<Longrightarrow> probes_ok None db'"
proof (induction n lines cur db rule: probe_lines.induct)
  case (1 n cur db)
  then show ?case using finish_probe_ok by (auto simp: map_sum_Inr)
next
  case (2 n line lines cur db)
  then show ?case using probe_line_ok by (auto split: sum.splits prod.splits)
qed

lemma first_probe_at: "first_probe P db = Some r \<Longrightarrow> probe_at db r \<noteq> None"
  by (auto simp: first_probe_def probe_at_def find_Some_iff nth_enumerate_eq)

lemma get_probe_by_name_at: "get_probe_by_name db nm proto = Some r \<Longrightarrow> probe_at db r \<noteq> None"
  by (auto simp: get_probe_by_name_def probe_at_def dest: first_probe_at [unfolded probe_at_def] split: if_splits option.splits)

lemma look_up_all_at:
  "look_up_all db proto ts = Inr rs \<Longrightarrow> length rs = length ts \<and> (\<forall>r \<in> set rs. probe_at db r \<noteq> None)"
  by (induction db proto ts arbitrary: rs rule: look_up_all.induct)
    (auto simp: map_sum_Inr dest: get_probe_by_name_at split: option.splits)

definition fallbacks_ok :: "probe_db \<Rightarrow> probe_ref \<Rightarrow> service_probe \<Rightarrow> bool" where
  "fallbacks_ok db self p \<longleftrightarrow>
     sp_fallbacks p \<noteq> [] \<and> hd (sp_fallbacks p) = self \<and> length (sp_fallbacks p) \<le> MAXFALLBACKS \<and> distinct (sp_fallbacks p) \<and>
     (\<forall>r \<in> set (sp_fallbacks p). probe_at db r \<noteq> None) \<and>
     (sp_proto p = IPPROTO_TCP \<and> pd_null db \<noteq> None \<longrightarrow> NullProbe \<in> set (sp_fallbacks p))"

lemma fallback_list_facts:
  assumes "fallback_list db self p = Inr fbs" and "probe_at db self \<noteq> None"
  shows "fbs \<noteq> [] \<and> hd fbs = self \<and> length fbs \<le> MAXFALLBACKS \<and> (\<forall>r \<in> set fbs. probe_at db r \<noteq> None) \<and>
    (sp_proto p = IPPROTO_TCP \<and> pd_null db \<noteq> None \<longrightarrow> NullProbe \<in> set fbs)"
proof -
  obtain toks rs where rs: "look_up_all db (sp_proto p) (take 18 toks) = Inr rs" "length toks \<le> 18"
    and fbs: "fbs = (if sp_proto p = IPPROTO_TCP \<and> pd_null db \<noteq> None \<and> NullProbe \<notin> set (self # rs) \<and> length (self # rs) < MAXFALLBACKS
        then (self # rs) @ [NullProbe] else self # rs)"
    using assms(1) by (auto simp: fallback_list_def Let_def MAXFALLBACKS_def split: sum.splits if_splits)
  have "length rs \<le> 18" "\<forall>r \<in> set rs. probe_at db r \<noteq> None" using look_up_all_at [OF rs(1)] rs(2) by auto
  then show ?thesis using assms(2) by (auto simp: fbs MAXFALLBACKS_def probe_at_def)
qed

lemma compile_lists_nth:
  "compile_lists db i ps = Inr qs \<Longrightarrow>
    length qs = length ps \<and>
    (\<forall>k < length ps. \<exists>fbs. fallback_list db (ProbeAt (i + k)) (ps ! k) = Inr fbs \<and>
       qs ! k = (ps ! k)\<lparr>sp_fallbacks := fbs, sp_fallback_str := None\<rparr>)"
proof (induction db i ps arbitrary: qs rule: compile_lists.induct)
  case (2 db i p ps)
  obtain fbs rs where r: "fallback_list db (ProbeAt i) p = Inr fbs" "compile_lists db (i + 1) ps = Inr rs"
    "qs = p\<lparr>sp_fallbacks := fbs, sp_fallback_str := None\<rparr> # rs"
    using 2(2) by (auto simp: map_sum_Inr split: sum.splits)
  show ?case using 2(1) [OF r(1,2)] r(1,3) by (auto simp: less_Suc_eq_0_disj)
qed simp

definition db_ok :: "probe_db \<Rightarrow> bool" where
  "db_ok db \<longleftrightarrow>
     (\<forall>i < length (pd_probes db). service_probe_ok (pd_probes db ! i) \<and> fallbacks_ok db (ProbeAt i) (pd_probes db ! i)) \<and>
     (case pd_null db of None \<Rightarrow> True | Some p \<Rightarrow> service_probe_ok p \<and> sp_fallbacks p = [NullProbe])"

lemma compile_fallbacks_ok:
  assumes "compile_fallbacks db = Inr db'" and "probes_ok None db"
  shows "db_ok db'"
proof -
  obtain qs where qs: "compile_lists db 0 (pd_probes db) = Inr qs" "\<forall>q \<in> set qs. distinct (sp_fallbacks q)"
    and db': "db' = db\<lparr>pd_probes := qs, pd_null := map_option (\<lambda>p. p\<lparr>sp_fallbacks := [NullProbe]\<rparr>) (pd_null db)\<rparr>"
    using assms(1) by (auto simp: compile_fallbacks_def split: sum.splits if_splits)
  note nth = compile_lists_nth [OF qs(1)]
  have at: "(probe_at db' r = None) = (probe_at db r = None)" for r
    using nth by (cases r) (auto simp: probe_at_def db')
  have "service_probe_ok (qs ! i) \<and> fallbacks_ok db' (ProbeAt i) (qs ! i)" if "i < length qs" for i
  proof -
    obtain fbs where f: "fallback_list db (ProbeAt i) (pd_probes db ! i) = Inr fbs"
      "qs ! i = (pd_probes db ! i)\<lparr>sp_fallbacks := fbs, sp_fallback_str := None\<rparr>"
      using nth \<open>i < length qs\<close> by auto
    have "probe_at db (ProbeAt i) \<noteq> None" using \<open>i < length qs\<close> nth by (simp add: probe_at_def)
    note ff = fallback_list_facts [OF f(1) this]
    have "service_probe_ok (pd_probes db ! i)" using assms(2) \<open>i < length qs\<close> nth by (auto simp: probes_ok_def)
    then have "service_probe_ok (qs ! i)" by (simp add: f(2) service_probe_ok_def)
    moreover have "distinct fbs" using qs(2) \<open>i < length qs\<close> f(2) nth_mem by fastforce
    ultimately show ?thesis using ff by (simp add: fallbacks_ok_def f(2) at) (simp add: db')
  qed
  then show ?thesis using assms(2) by (auto simp: db_ok_def db' probes_ok_def service_probe_ok_def split: option.splits)
qed

lemma parse_probe_file_ok: "parse_probe_file content = Inr db \<Longrightarrow> db_ok db"
proof -
  assume "parse_probe_file content = Inr db"
  then obtain db0 where "probe_lines 0 (getline_tokens NL content) None empty_db = Inr db0" "compile_fallbacks db0 = Inr db"
    by (auto simp: parse_probe_file_def Let_def map_sum_Inr split: sum.splits)
  moreover have "probes_ok None empty_db" by (simp add: probes_ok_def empty_db_def)
  ultimately show "db_ok db" using probe_lines_ok compile_fallbacks_ok by blast
qed

section \<open>The engine\<close>

definition db_lines :: "probe_db \<Rightarrow> match_line set" where
  "db_lines db = {m. \<exists>p. (p \<in> set (pd_probes db) \<or> pd_null db = Some p) \<and> m \<in> set (sp_matches p)}"

text \<open>A service and fields that a line of the database gives for the response; a leading \<open>ssl/\<close> may be dropped.\<close>

definition line_backed :: "pcre \<Rightarrow> probe_db \<Rightarrow> string \<Rightarrow> bool \<Rightarrow> string \<Rightarrow> match_details \<Rightarrow> bool" where
  "line_backed pcre db data soft nm fs \<longleftrightarrow>
     (\<exists>m caps. m \<in> db_lines db \<and> ml_soft m = soft \<and> pcre (ml_regex m) (ml_i m) (ml_s m) data = Captures caps \<and>
        fs = (fill_version_str caps data m)\<lparr>md_soft := False, md_service := []\<rparr> \<and>
        (nm = ml_service m \<or> take 4 (ml_service m) = ''ssl/'' \<and> nm = take (SERVICE_FIELD_LEN - 1) (drop 4 (ml_service m))))"

lemma test_matches_Some: "test_matches pcre buf ms = Some md \<Longrightarrow> \<exists>m \<in> set ms. test_match pcre buf m = Some md"
  by (induction ms) (auto split: option.splits)

lemma test_matches_None: "test_matches pcre buf ms = None \<longleftrightarrow> (\<forall>m \<in> set ms. test_match pcre buf m = None)"
  by (induction ms) (auto split: option.splits)

lemma probe_at_lines: "probe_at db r = Some p \<Longrightarrow> m \<in> set (sp_matches p) \<Longrightarrow> m \<in> db_lines db"
  by (cases r) (auto simp: probe_at_def db_lines_def split: if_splits intro: nth_mem)

lemma test_fallbacks_Some:
  "test_fallbacks pcre db buf rs = Some md \<Longrightarrow> \<exists>m \<in> db_lines db. test_match pcre buf m = Some md"
  by (induction rs) (auto dest!: test_matches_Some intro: probe_at_lines split: option.splits)

lemma test_fallbacks_None:
  "test_fallbacks pcre db buf rs = None \<Longrightarrow> \<forall>r \<in> set rs. probe_at db r \<noteq> None \<Longrightarrow>
    r \<in> set rs \<Longrightarrow> probe_at db r = Some p \<Longrightarrow> m \<in> set (sp_matches p) \<Longrightarrow> test_match pcre buf m = None"
  by (induction rs) (auto simp: test_matches_None split: option.splits)

lemma test_match_backed:
  assumes "m \<in> db_lines db" and "test_match pcre buf m = Some md"
  shows "md_soft md = ml_soft m" and "md_service md = ml_service m"
    and "line_backed pcre db buf (md_soft md) (md_service md) (copied_fields md)"
proof -
  obtain caps where c: "pcre (ml_regex m) (ml_i m) (ml_s m) buf = Captures caps" "md = fill_version_str caps buf m"
    using assms(2) by (auto simp: test_match_def split: if_splits regex_result.splits)
  show "md_soft md = ml_soft m" "md_service md = ml_service m" by (simp_all add: c(2))
  show "line_backed pcre db buf (md_soft md) (md_service md) (copied_fields md)"
    using assms(1) c(1) by (auto simp: line_backed_def c(2) copied_fields_ok [OF fill_version_str_ok])
qed

lemma backed_stripped:
  assumes "m \<in> db_lines db" and "test_match pcre buf m = Some md" and "take 4 (md_service md) = ''ssl/''"
  shows "line_backed pcre db buf (md_soft md) (take (SERVICE_FIELD_LEN - 1) (drop 4 (md_service md))) (copied_fields md)"
proof -
  obtain caps where c: "pcre (ml_regex m) (ml_i m) (ml_s m) buf = Captures caps" "md = fill_version_str caps buf m"
    using assms(2) by (auto simp: test_match_def split: if_splits regex_result.splits)
  show ?thesis using assms(1,3) c(1) by (auto simp: line_backed_def c(2) copied_fields_ok [OF fill_version_str_ok])
qed

definition no_fp :: fp_buffer where
  "no_fp = \<lparr>fp_text = [], fp_alloc = 0\<rparr>"

text \<open>The state between two attempts, and after a hard match.\<close>

definition nfo_ok :: "pcre \<Rightarrow> probe_db \<Rightarrow> string \<Rightarrow> service_nfo \<Rightarrow> bool" where
  "nfo_ok pcre db data svc \<longleftrightarrow>
     nf_fp svc = no_fp \<and>
     (case nf_matched svc of
        None \<Rightarrow> \<not> nf_soft svc \<and> nf_fields svc = no_fields
      | Some nm \<Rightarrow> nf_soft svc \<and> line_backed pcre db data True nm (nf_fields svc))"

definition hard_ok :: "pcre \<Rightarrow> probe_db \<Rightarrow> string \<Rightarrow> service_nfo \<Rightarrow> bool" where
  "hard_ok pcre db data svc \<longleftrightarrow>
     nf_fp svc = no_fp \<and> (\<exists>nm. nf_matched svc = Some nm \<and> line_backed pcre db data False nm (nf_fields svc))"

definition same_target :: "service_nfo \<Rightarrow> service_nfo \<Rightarrow> bool" where
  "same_target svc svc' \<longleftrightarrow>
     nf_port svc' = nf_port svc \<and> nf_proto svc' = nf_proto svc \<and> nf_intensity svc' = nf_intensity svc"

definition step_ok :: "pcre \<Rightarrow> probe_db \<Rightarrow> string \<Rightarrow> service_nfo \<Rightarrow> bool \<times> service_nfo \<Rightarrow> bool" where
  "step_ok pcre db data svc res \<longleftrightarrow>
     same_target svc (snd res) \<and> (if fst res then hard_ok pcre db data (snd res) else nfo_ok pcre db data (snd res))"

lemma same_target_trans: "same_target a b \<Longrightarrow> same_target b c \<Longrightarrow> same_target a c"
  by (simp add: same_target_def)

lemma step_ok_keep: "nfo_ok pcre db data svc \<Longrightarrow> step_ok pcre db data svc (False, svc)"
  by (simp add: step_ok_def same_target_def)

lemma step_ok_after: "same_target svc svc' \<Longrightarrow> step_ok pcre db data svc' res \<Longrightarrow> step_ok pcre db data svc res"
  by (auto simp: step_ok_def intro: same_target_trans)

lemma nfo_ok_tunnel [simp]: "nfo_ok pcre db data (svc\<lparr>nf_tunnel := t\<rparr>) = nfo_ok pcre db data svc"
  by (simp add: nfo_ok_def split: option.split)

lemma hard_then_tunnel:
  assumes "m \<in> db_lines db" and "test_match pcre data m = Some md" and "\<not> md_soft md" and fp: "nf_fp svc = no_fp"
    and svc': "svc' = svc\<lparr>nf_matched := Some (md_service md), nf_soft := False, nf_fields := copied_fields md\<rparr>"
    and t: "scan_through_tunnel svc' = (again, svc'')"
  shows "step_ok pcre db data svc (\<not> again, svc'')"
proof (cases "take 4 (md_service md) = ''ssl/''")
  case True
  then have r: "again = False"
    "svc'' = svc'\<lparr>nf_matched := Some (take (SERVICE_FIELD_LEN - 1) (drop 4 (md_service md))), nf_tunnel := TunnelSsl\<rparr>"
    using t by (auto simp: scan_through_tunnel_def svc')
  show ?thesis
    using backed_stripped [OF assms(1,2) True] assms(3) fp by (simp add: r step_ok_def hard_ok_def same_target_def svc')
next
  case False
  show ?thesis
  proof (cases again)
    case True
    then show ?thesis using t False
      by (auto simp: scan_through_tunnel_def svc' step_ok_def nfo_ok_def no_fp_def same_target_def split: if_splits)
  next
    case no: False
    then have "svc'' = svc'" using t False by (auto simp: scan_through_tunnel_def svc' split: if_splits)
    then show ?thesis
      using test_match_backed(3) [OF assms(1,2)] assms(3) fp no by (simp add: step_ok_def hard_ok_def same_target_def svc')
  qed
qed

lemma step_ok_attempt:
  assumes ok: "nfo_ok pcre db data svc"
  shows "step_ok pcre db data svc (attempt pcre db data r svc)"
proof (cases "\<exists>p md. probe_at db r = Some p \<and> test_fallbacks pcre db data (sp_fallbacks p) = Some md")
  case False
  then have "attempt pcre db data r svc = (False, svc)"
    by (auto simp: attempt_def try_probe_set_def split: option.splits)
  then show ?thesis using step_ok_keep [OF ok] by simp
next
  case True
  then obtain p md where md: "probe_at db r = Some p" "test_fallbacks pcre db data (sp_fallbacks p) = Some md" by blast
  obtain m where m: "m \<in> db_lines db" "test_match pcre data m = Some md" using test_fallbacks_Some [OF md(2)] by blast
  have fp: "nf_fp svc = no_fp" using ok by (simp add: nfo_ok_def)
  consider "md_soft md" "nf_matched svc \<noteq> None" | "md_soft md" "nf_matched svc = None" | "\<not> md_soft md" by blast
  then show ?thesis
  proof cases
    case 1
    then have "attempt pcre db data r svc = (False, svc)" by (simp add: attempt_def try_probe_set_def md process_match_def)
    then show ?thesis using step_ok_keep [OF ok] by simp
  next
    case 2
    then have "attempt pcre db data r svc =
        (False, svc\<lparr>nf_matched := Some (md_service md), nf_soft := True, nf_fields := copied_fields md\<rparr>)"
      by (simp add: attempt_def try_probe_set_def md process_match_def)
    then show ?thesis
      using test_match_backed(3) [OF m] 2(1) fp by (simp add: step_ok_def same_target_def nfo_ok_def)
  next
    case 3
    define svc' where "svc' = svc\<lparr>nf_matched := Some (md_service md), nf_soft := False, nf_fields := copied_fields md\<rparr>"
    obtain again svc'' where t: "scan_through_tunnel svc' = (again, svc'')" by (cases "scan_through_tunnel svc'")
    have "attempt pcre db data r svc = (\<not> again, svc'')"
      using 3 t by (simp add: attempt_def try_probe_set_def md process_match_def svc'_def)
    then show ?thesis using hard_then_tunnel [OF m 3 fp svc'_def t] by simp
  qed
qed

lemma step_ok_attempts: "nfo_ok pcre db data svc \<Longrightarrow> step_ok pcre db data svc (attempts pcre db data skip rs svc)"
proof (induction rs arbitrary: svc)
  case Nil
  then show ?case by (simp add: step_ok_keep)
next
  case (Cons r rs)
  obtain fin svc' where a: "attempt pcre db data r svc = (fin, svc')" by fastforce
  have s: "step_ok pcre db data svc (fin, svc')" using step_ok_attempt [OF Cons.prems, of r] by (simp add: a)
  consider "skip r svc" | "\<not> skip r svc" fin | "\<not> (skip r svc \<or> fin)" by blast
  then show ?case
  proof cases
    case 1
    then show ?thesis using Cons by simp
  next
    case 2
    then show ?thesis using a s by simp
  next
    case False: 3
    then have "step_ok pcre db data svc' (attempts pcre db data skip rs svc')" using s by (intro Cons.IH) (simp add: step_ok_def)
    moreover have "attempts pcre db data skip (r # rs) svc = attempts pcre db data skip rs svc'" using False a by simp
    moreover have "same_target svc svc'" using s by (simp add: step_ok_def)
    ultimately show ?thesis using step_ok_after by simp
  qed
qed

lemma step_ok_dtls: "nfo_ok pcre db data svc \<Longrightarrow> step_ok pcre db data svc (dtls_attempts pcre db data rs svc)"
proof (induction rs arbitrary: svc)
  case Nil
  then show ?case by (simp add: step_ok_keep)
next
  case (Cons r rs)
  obtain fin svc' where a: "attempt pcre db data r (svc\<lparr>nf_tunnel := TunnelSsl\<rparr>) = (fin, svc')" by fastforce
  have s: "step_ok pcre db data (svc\<lparr>nf_tunnel := TunnelSsl\<rparr>) (fin, svc')"
    using step_ok_attempt [of pcre db data "svc\<lparr>nf_tunnel := TunnelSsl\<rparr>" r] Cons.prems by (simp add: a)
  then have st: "same_target svc svc'" by (simp add: step_ok_def same_target_def)
  show ?case
  proof (cases fin)
    case True
    then have "step_ok pcre db data svc (True, svc')" using s st by (simp add: step_ok_def)
    then show ?thesis using Cons a True by (auto split: option.split)
  next
    case False
    then have "step_ok pcre db data (svc'\<lparr>nf_tunnel := TunnelNone\<rparr>) (dtls_attempts pcre db data rs (svc'\<lparr>nf_tunnel := TunnelNone\<rparr>))"
      using s by (intro Cons.IH) (simp add: step_ok_def)
    moreover have "same_target svc (svc'\<lparr>nf_tunnel := TunnelNone\<rparr>)" using st by (simp add: same_target_def)
    ultimately have "step_ok pcre db data svc (dtls_attempts pcre db data rs (svc'\<lparr>nf_tunnel := TunnelNone\<rparr>))" using step_ok_after by blast
    then show ?thesis using Cons a False by (auto split: option.split)
  qed
qed

text \<open>The steps of \<open>search\<close> one by one; each begins where the one before ended without a hard match.\<close>

definition hint_step :: "pcre \<Rightarrow> probe_db \<Rightarrow> string \<Rightarrow> probe_ref option \<Rightarrow> service_nfo \<Rightarrow> bool \<times> service_nfo" where
  "hint_step pcre db buf hinted svc = (case hinted of None \<Rightarrow> (False, svc) | Some r \<Rightarrow> attempt pcre db buf r svc)"

definition null_step :: "pcre \<Rightarrow> probe_db \<Rightarrow> string \<Rightarrow> probe_ref option \<Rightarrow> service_nfo \<Rightarrow> bool \<times> service_nfo" where
  "null_step pcre db buf hinted svc =
     (if nf_proto svc = IPPROTO_TCP \<and> pd_null db \<noteq> None \<and> hinted \<noteq> Some NullProbe
      then attempt pcre db buf NullProbe svc else (False, svc))"

definition listed_step :: "pcre \<Rightarrow> probe_db \<Rightarrow> string \<Rightarrow> probe_ref option \<Rightarrow> service_nfo \<Rightarrow> bool \<times> service_nfo" where
  "listed_step pcre db buf hinted svc =
     attempts pcre db buf (skip_listed db hinted) (probes_for_port db (nf_proto svc) (nf_tunnel svc) (nf_port svc)) svc"

definition other_step :: "pcre \<Rightarrow> probe_db \<Rightarrow> string \<Rightarrow> probe_ref option \<Rightarrow> service_nfo \<Rightarrow> bool \<times> service_nfo" where
  "other_step pcre db buf hinted svc = attempts pcre db buf (skip_other db hinted) (all_refs db) svc"

definition dtls_step :: "pcre \<Rightarrow> probe_db \<Rightarrow> string \<Rightarrow> service_nfo \<Rightarrow> bool \<times> service_nfo" where
  "dtls_step pcre db buf svc =
     (if nf_proto svc = IPPROTO_UDP \<and> nf_tunnel svc = TunnelNone then dtls_attempts pcre db buf (all_refs db) svc else (False, svc))"

definition and_then :: "bool \<times> service_nfo \<Rightarrow> (service_nfo \<Rightarrow> bool \<times> service_nfo) \<Rightarrow> bool \<times> service_nfo" where
  "and_then res f = (if fst res then res else f (snd res))"

lemma step_ok_and_then:
  assumes "step_ok pcre db data svc res" and "\<And>svc'. nfo_ok pcre db data svc' \<Longrightarrow> step_ok pcre db data svc' (f svc')"
  shows "step_ok pcre db data svc (and_then res f)"
  using assms step_ok_after [of svc "snd res"] by (auto simp: and_then_def step_ok_def [of _ _ _ svc res])

lemma step_ok_steps:
  assumes "nfo_ok pcre db data svc"
  shows "step_ok pcre db data svc (hint_step pcre db data hinted svc)" "step_ok pcre db data svc (null_step pcre db data hinted svc)"
    "step_ok pcre db data svc (listed_step pcre db data hinted svc)" "step_ok pcre db data svc (other_step pcre db data hinted svc)"
    "step_ok pcre db data svc (dtls_step pcre db data svc)"
  using assms
  by (simp_all add: hint_step_def null_step_def listed_step_def other_step_def dtls_step_def step_ok_keep step_ok_attempt
      step_ok_attempts step_ok_dtls split: option.split)

lemma search_steps:
  assumes "nfo_ok pcre db data svc"
  shows "search pcre db data hinted svc =
    and_then (and_then (and_then (and_then (hint_step pcre db data hinted svc) (null_step pcre db data hinted))
      (listed_step pcre db data hinted)) (other_step pcre db data hinted)) (dtls_step pcre db data)"
proof -
  obtain f0 s0 where h: "hint_step pcre db data hinted svc = (f0, s0)" by fastforce
  obtain f1 s1 where n: "null_step pcre db data hinted s0 = (f1, s1)" by fastforce
  obtain f2 s2 where l: "listed_step pcre db data hinted s1 = (f2, s2)" by fastforce
  obtain f3 s3 where ot: "other_step pcre db data hinted s2 = (f3, s3)" by fastforce
  have soft: "nf_soft s2" if "\<not> f0" "\<not> f1" "\<not> f2" "nf_matched s2 \<noteq> None"
  proof -
    have "nfo_ok pcre db data s0" using step_ok_steps(1) [OF assms, of hinted] that by (simp add: h step_ok_def)
    then have "nfo_ok pcre db data s1" using step_ok_steps(2) [of pcre db data s0 hinted] that by (simp add: n step_ok_def)
    then have "nfo_ok pcre db data s2" using step_ok_steps(3) [of pcre db data s1 hinted] that by (simp add: l step_ok_def)
    then show ?thesis using that by (auto simp: nfo_ok_def)
  qed
  show ?thesis
    unfolding search_def hint_step_def [symmetric] null_step_def [symmetric] listed_step_def [symmetric] other_step_def [symmetric]
    using soft by (auto simp: Let_def h n l ot and_then_def dtls_step_def)
qed

lemma step_ok_search: "nfo_ok pcre db data svc \<Longrightarrow> step_ok pcre db data svc (search pcre db data hinted svc)"
  by (simp add: search_steps) (intro step_ok_and_then step_ok_steps)

section \<open>Nothing is passed over\<close>

definition misses :: "pcre \<Rightarrow> probe_db \<Rightarrow> string \<Rightarrow> probe_ref \<Rightarrow> bool" where
  "misses pcre db data r \<longleftrightarrow> (\<forall>p. probe_at db r = Some p \<longrightarrow> test_fallbacks pcre db data (sp_fallbacks p) = None)"

definition quiet :: "probe_db \<Rightarrow> bool" where
  "quiet db \<longleftrightarrow> (\<forall>m \<in> db_lines db. ml_service m \<noteq> ''ssl'' \<and> ml_service m \<noteq> ''dtls'')"

text \<open>A step that ends with no service found has left the state as it was.\<close>

definition nothing_found :: "service_nfo \<Rightarrow> bool \<times> service_nfo \<Rightarrow> bool" where
  "nothing_found svc res \<longleftrightarrow> \<not> fst res \<and> nf_matched (snd res) = None"

lemma attempt_miss:
  assumes "quiet db" and "nothing_found svc (attempt pcre db data r svc)"
  shows "attempt pcre db data r svc = (False, svc) \<and> misses pcre db data r"
proof (cases "misses pcre db data r")
  case True
  then show ?thesis by (auto simp: misses_def attempt_def try_probe_set_def split: option.splits)
next
  case False
  then obtain p md where md: "probe_at db r = Some p" "test_fallbacks pcre db data (sp_fallbacks p) = Some md"
    by (auto simp: misses_def)
  obtain m where m: "m \<in> db_lines db" "test_match pcre data m = Some md" using test_fallbacks_Some [OF md(2)] by blast
  have "md_service md \<noteq> ''ssl''" "md_service md \<noteq> ''dtls''" using assms(1) m test_match_backed(2) [OF m] by (auto simp: quiet_def)
  then show ?thesis
    using assms(2)
    by (auto simp: nothing_found_def attempt_def try_probe_set_def md process_match_def scan_through_tunnel_def split: if_splits)
qed

lemma attempts_miss:
  "quiet db \<Longrightarrow> nothing_found svc (attempts pcre db data skip rs svc) \<Longrightarrow>
    attempts pcre db data skip rs svc = (False, svc) \<and> (\<forall>r \<in> set rs. skip r svc \<or> misses pcre db data r)"
proof (induction rs arbitrary: svc)
  case (Cons r rs)
  show ?case
  proof (cases "skip r svc")
    case True
    then show ?thesis using Cons by simp
  next
    case False
    obtain fin svc' where a: "attempt pcre db data r svc = (fin, svc')" by fastforce
    have f: "\<not> fin" "nothing_found svc' (attempts pcre db data skip rs svc')"
      using Cons.prems(2) False a by (auto simp: nothing_found_def split: if_splits)
    note rest = Cons.IH [OF Cons.prems(1) f(2)]
    then have "nothing_found svc (attempt pcre db data r svc)" using f by (simp add: nothing_found_def a)
    from attempt_miss [OF Cons.prems(1) this] show ?thesis using rest a False by simp
  qed
qed simp

lemma dtls_miss:
  "quiet db \<Longrightarrow> nothing_found svc (dtls_attempts pcre db data rs svc) \<Longrightarrow> nf_matched svc = None"
proof (induction rs arbitrary: svc)
  case (Cons r rs)
  obtain fin svc' where a: "attempt pcre db data r (svc\<lparr>nf_tunnel := TunnelSsl\<rparr>) = (fin, svc')" by fastforce
  show ?case
  proof (cases "\<exists>p. probe_at db r = Some p \<and> sp_proto p = IPPROTO_UDP \<and> port_is_probable p TunnelSsl (nf_port svc)")
    case True
    then have f: "\<not> fin" "nothing_found (svc'\<lparr>nf_tunnel := TunnelNone\<rparr>) (dtls_attempts pcre db data rs (svc'\<lparr>nf_tunnel := TunnelNone\<rparr>))"
      using Cons.prems(2) a by (auto simp: nothing_found_def split: if_splits)
    then have "nf_matched svc' = None" using Cons.IH [OF Cons.prems(1) f(2)] by simp
    then have "nothing_found (svc\<lparr>nf_tunnel := TunnelSsl\<rparr>) (attempt pcre db data r (svc\<lparr>nf_tunnel := TunnelSsl\<rparr>))"
      using f(1) by (simp add: nothing_found_def a)
    from attempt_miss [OF Cons.prems(1) this] show ?thesis using a \<open>nf_matched svc' = None\<close> by auto
  next
    case False
    then have "dtls_attempts pcre db data (r # rs) svc = dtls_attempts pcre db data rs svc" by (auto split: option.split)
    then show ?thesis using Cons by metis
  qed
qed (simp add: nothing_found_def)

lemma dtls_step_miss:
  assumes "quiet db" and "nothing_found svc (dtls_step pcre db data svc)"
  shows "nf_matched svc = None"
proof (cases "nf_proto svc = IPPROTO_UDP \<and> nf_tunnel svc = TunnelNone")
  case True
  then have "dtls_step pcre db data svc = dtls_attempts pcre db data (all_refs db) svc" by (simp add: dtls_step_def)
  then show ?thesis using dtls_miss [OF assms(1)] assms(2) by metis
next
  case False
  then have "dtls_step pcre db data svc = (False, svc)" by (auto simp: dtls_step_def)
  then show ?thesis using assms(2) by (simp add: nothing_found_def)
qed

lemma and_then_open: "\<not> fst (and_then res f) \<Longrightarrow> \<not> fst res \<and> and_then res f = f (snd res)"
  by (cases "fst res") (simp_all add: and_then_def)

lemma search_miss:
  assumes ok: "nfo_ok pcre db data svc" and q: "quiet db" and found: "nothing_found svc (search pcre db data hinted svc)"
  shows "(\<forall>r. hinted = Some r \<longrightarrow> misses pcre db data r) \<and>
    (nf_proto svc = IPPROTO_TCP \<and> pd_null db \<noteq> None \<and> hinted \<noteq> Some NullProbe \<longrightarrow> misses pcre db data NullProbe) \<and>
    (\<forall>r \<in> set (probes_for_port db (nf_proto svc) (nf_tunnel svc) (nf_port svc)). skip_listed db hinted r svc \<or> misses pcre db data r) \<and>
    (\<forall>r \<in> set (all_refs db). skip_other db hinted r svc \<or> misses pcre db data r) \<and> \<not> nf_soft svc"
proof -
  obtain f0 s0 where h: "hint_step pcre db data hinted svc = (f0, s0)" by fastforce
  obtain f1 s1 where n: "null_step pcre db data hinted s0 = (f1, s1)" by fastforce
  obtain f2 s2 where l: "listed_step pcre db data hinted s1 = (f2, s2)" by fastforce
  obtain f3 s3 where ot: "other_step pcre db data hinted s2 = (f3, s3)" by fastforce
  let ?s1 = "and_then (hint_step pcre db data hinted svc) (null_step pcre db data hinted)"
  let ?s2 = "and_then ?s1 (listed_step pcre db data hinted)"
  let ?s3 = "and_then ?s2 (other_step pcre db data hinted)"
  have "\<not> fst (and_then ?s3 (dtls_step pcre db data))" using found by (simp add: search_steps [OF ok] nothing_found_def)
  note 3 = and_then_open [OF this]
  note 2 = and_then_open [OF 3 [THEN conjunct1]]
  note 1 = and_then_open [OF 2 [THEN conjunct1]]
  note 0 = and_then_open [OF 1 [THEN conjunct1]]
  have s1: "?s1 = (f1, s1)" using 0 [THEN conjunct2] n unfolding h by simp
  have s2': "?s2 = (f2, s2)" using 1 [THEN conjunct2] l unfolding s1 by simp
  have s3: "?s3 = (f3, s3)" using 2 [THEN conjunct2] ot unfolding s2' by simp
  have "search pcre db data hinted svc = dtls_step pcre db data s3"
    using 3 [THEN conjunct2] s3 unfolding search_steps [OF ok] by simp
  then have fin5: "nothing_found s3 (dtls_step pcre db data s3)" using found by (simp add: nothing_found_def)
  have fin: "\<not> f0" "\<not> f1" "\<not> f2" "\<not> f3"
    using 0 [THEN conjunct1, unfolded h] 1 [THEN conjunct1, unfolded s1] 2 [THEN conjunct1, unfolded s2'] 3 [THEN conjunct1, unfolded s3]
    by simp_all
  have "nf_matched s3 = None" by (rule dtls_step_miss [OF q fin5])
  then have n3: "nothing_found s2 (other_step pcre db data hinted s2)" using fin(4) by (simp add: nothing_found_def ot)
  note m3 = attempts_miss [OF q n3 [unfolded other_step_def], folded other_step_def]
  then have n2: "nothing_found s1 (listed_step pcre db data hinted s1)" using fin(3) \<open>nf_matched s3 = None\<close> by (simp add: nothing_found_def l ot)
  note m2 = attempts_miss [OF q n2 [unfolded listed_step_def], folded listed_step_def]
  then have none1: "nf_matched s1 = None" using n2 by (simp add: nothing_found_def)
  have m1: "s1 = s0 \<and> (nf_proto s0 = IPPROTO_TCP \<and> pd_null db \<noteq> None \<and> hinted \<noteq> Some NullProbe \<longrightarrow> misses pcre db data NullProbe)"
    using attempt_miss [OF q, of s0 pcre data NullProbe] n none1 fin(2) by (auto simp: null_step_def nothing_found_def split: if_splits)
  have m0: "s0 = svc \<and> (\<forall>r. hinted = Some r \<longrightarrow> misses pcre db data r)"
  proof (cases hinted)
    case None
    then show ?thesis using h by (simp add: hint_step_def)
  next
    case (Some r)
    then have a: "attempt pcre db data r svc = (f0, s0)" using h by (simp add: hint_step_def)
    then have "nothing_found svc (attempt pcre db data r svc)" using fin(1) none1 m1 by (simp add: nothing_found_def)
    from attempt_miss [OF q this] show ?thesis using a Some by simp
  qed
  have s2: "s2 = svc" using m2 l m1 m0 by simp
  have "\<not> nf_soft svc" using ok none1 m1 m0 by (simp add: nfo_ok_def)
  then show ?thesis using m0 m1 m2 m3 s2 by simp
qed

lemma probes_for_port_set:
  "ProbeAt i \<in> set (probes_for_port db proto tunnel port) \<longleftrightarrow>
    i < length (pd_probes db) \<and> sp_proto (pd_probes db ! i) = proto \<and> port_is_probable (pd_probes db ! i) tunnel port"
proof -
  have n: "count_list (listed_ports tunnel p) port \<noteq> 0 \<longleftrightarrow> port_is_probable p tunnel port" for p
    using count_list_0_iff [of "listed_ports tunnel p" port] by (simp add: port_is_probable_def)
  have one: "ProbeAt i \<in> set (if sp_proto p = proto then replicate (count_list (listed_ports tunnel p) port) (ProbeAt k) else []) \<longleftrightarrow>
      k = i \<and> sp_proto p = proto \<and> port_is_probable p tunnel port" for k p
    using n [of p] by (cases "sp_proto p = proto") (auto simp: in_set_replicate)
  have "ProbeAt i \<in> set (probes_for_port db proto tunnel port) \<longleftrightarrow>
      (\<exists>x \<in> set (enumerate 0 (pd_probes db)). fst x = i \<and> sp_proto (snd x) = proto \<and> port_is_probable (snd x) tunnel port)"
    by (simp only: probes_for_port_def set_concat set_map UN_iff bex_simps(7) case_prod_beta one)
  also have "\<dots> \<longleftrightarrow> i < length (pd_probes db) \<and> sp_proto (pd_probes db ! i) = proto \<and> port_is_probable (pd_probes db ! i) tunnel port"
  proof -
    have "(i, pd_probes db ! i) \<in> set (enumerate 0 (pd_probes db)) \<longleftrightarrow> i < length (pd_probes db)" by (simp add: in_set_enumerate_eq)
    moreover have "x \<in> set (enumerate 0 (pd_probes db)) \<Longrightarrow> snd x = pd_probes db ! fst x" for x by (simp add: in_set_enumerate_eq)
    ultimately show ?thesis by (metis fst_conv prod.collapse snd_conv)
  qed
  finally show ?thesis .
qed

lemma probe_tried:
  assumes ok: "nfo_ok pcre db data svc" and q: "quiet db" and found: "nothing_found svc (search pcre db data hinted svc)"
    and db: "db_ok db" and i: "i < length (pd_probes db)" and p: "p = pd_probes db ! i" and proto: "sp_proto p = nf_proto svc"
    and eligible: "port_is_probable p (nf_tunnel svc) (nf_port svc) \<or> sp_rarity p \<le> nf_intensity svc"
    and m: "m \<in> set (sp_matches p)"
  shows "test_match pcre data m = None"
proof -
  note s = search_miss [OF ok q found]
  have at: "probe_at db (ProbeAt i) = Some p" using i p by (simp add: probe_at_def)
  have "misses pcre db data (ProbeAt i)"
  proof (cases "hinted = Some (ProbeAt i)")
    case True
    then show ?thesis using s by blast
  next
    case hint: False
    show ?thesis
    proof (cases "port_is_probable p (nf_tunnel svc) (nf_port svc)")
      case True
      then have "ProbeAt i \<in> set (probes_for_port db (nf_proto svc) (nf_tunnel svc) (nf_port svc))"
        using i p proto by (simp add: probes_for_port_set)
      then show ?thesis using s hint by (auto simp: skip_listed_def impossible_service_def)
    next
      case False
      have "ProbeAt i \<in> set (all_refs db)" using i by (simp add: all_refs_def)
      then show ?thesis using s hint at False proto eligible by (auto simp: skip_other_def impossible_service_def)
    qed
  qed
  then have none: "test_fallbacks pcre db data (sp_fallbacks p) = None" using at by (simp add: misses_def)
  have fb: "fallbacks_ok db (ProbeAt i) p" using db i p by (simp add: db_ok_def)
  then have "ProbeAt i \<in> set (sp_fallbacks p)" by (metis fallbacks_ok_def hd_in_set)
  then show ?thesis using test_fallbacks_None [OF none _ _ at m] fb by (simp add: fallbacks_ok_def)
qed

end
