(* ===== verification/Service_Results.thy ===== *)
theory Service_Results
  imports Service_Props
begin

text \<open>
  The properties of the service probes: loading, matching, fingerprints and the list of excluded ports, and a database
  on which a match of the tunnel hides the probes behind it.
\<close>

section \<open>Examples\<close>

definition file_example :: string where
  "file_example =
     ''Exclude T:9'' @ [NL] @ ''Probe TCP Echo q|hi|'' @ [NL] @ ''ports 7'' @ [NL] @ ''match echo m|^abc(.)| p/Echo $1,/'' @ [NL]"

definition line_example :: match_line where
  "line_example =
     \<lparr>ml_soft = False, ml_service = ''echo'', ml_regex = ''^abc(.)'', ml_i = False, ml_s = False, ml_prefix = Some ''abc'',
      ml_product = Some ''Echo $1,'', ml_version = None, ml_info = None, ml_hostname = None, ml_ostype = None,
      ml_devicetype = None, ml_cpe = []\<rparr>"

definition db_example :: probe_db where
  "db_example =
     \<lparr>pd_probes = [new_probe\<lparr>sp_name := ''Echo'', sp_string := ''hi'', sp_proto := IPPROTO_TCP, sp_ports := [7],
        sp_detected := [''echo''], sp_matches := [line_example], sp_fallbacks := [ProbeAt 0]\<rparr>],
      pd_null = None, pd_excluded = \<lparr>tcp_ports = [9], udp_ports = [], sctp_ports = []\<rparr>, pd_excluded_seen = True\<rparr>"

definition pcre_example :: pcre where
  "pcre_example re i s data =
     (if take 3 data = ''abc'' then Captures (\<lambda>n. if n = 1 then Some (3, 4) else None) else Unmatched)"

definition context_example :: match_context where
  "context_example = \<lparr>cx_probe_name = None, cx_closed_without_data = False, cx_elapsed_ms = -1\<rparr>"

lemma file_example_parsed: "parse_probe_file file_example = Inr db_example"
  by code_simp

lemma response_example:
  "map_option (\<lambda>r. (res_state r, res_service r, md_product (res_fields r)))
     (match_response pcre_example (0, 1, 5) db_example False 7 7 IPPROTO_TCP TunnelNone ''abcd'' context_example) =
   Some (FINISHED_HARDMATCHED, ''echo'', ''Echo d'')"
  by code_simp

section \<open>Results\<close>

lemma nfo_ok_new: "nfo_ok pcre db data (new_nfo port proto intensity tunnel)"
  by (simp add: nfo_ok_def new_nfo_def no_fp_def)

lemma fp_header_not_Nil: "fp_header stamp port proto intensity tunnel \<noteq> []"
  by (cases stamp) (simp add: fp_header_def)

lemma concluded_cases:
  assumes "step_ok pcre db data svc (hard, svc')"
  shows "\<exists>r. concluded stamp data hard svc' = Some r \<and> res_port r = nf_port svc \<and> res_proto r = nf_proto svc \<and>
    res_fields r = nf_fields svc' \<and> res_service r = (case nf_matched svc' of None \<Rightarrow> [] | Some nm \<Rightarrow> nm) \<and>
    res_state r = (if hard then FINISHED_HARDMATCHED else if nf_soft svc' then FINISHED_SOFTMATCHED else FINISHED_NOMATCH)"
proof -
  have fp: "nf_fp svc' = no_fp" using assms by (auto simp: step_ok_def hard_ok_def nfo_ok_def split: if_splits)
  have st: "nf_port svc' = nf_port svc" "nf_proto svc' = nf_proto svc" using assms by (auto simp: step_ok_def same_target_def)
  show ?thesis
  proof (cases "hard \<or> nf_soft svc'")
    case True
    then show ?thesis using fp st by (auto simp: concluded_def build_service_result_def get_fingerprint_def no_fp_def)
  next
    case False
    define header where "header = fp_header stamp (nf_port svc') (nf_proto svc') (nat (nf_intensity svc')) (nf_tunnel svc')"
    obtain b where b: "add_to_fingerprint header ''(all probes)'' data no_fp = Some b" "fp_ok b"
      using add_to_fingerprint_Some [of header "''(all probes)''" data] fp_header_not_Nil
      by (auto simp: header_def no_fp_def)
    obtain t where t: "get_fingerprint b = Some t" using get_fingerprint_Some [OF b(2)] by blast
    have "concluded stamp data hard svc' = build_service_result (svc'\<lparr>nf_state := FINISHED_NOMATCH, nf_fp := b\<rparr>)"
      using False b(1) by (simp add: concluded_def fp header_def)
    then show ?thesis using False t st by (simp add: build_service_result_def)
  qed
qed

definition hint_of :: "probe_db \<Rightarrow> nat \<Rightarrow> match_context \<Rightarrow> probe_ref option" where
  "hint_of db proto ctx =
     (case cx_probe_name ctx of None \<Rightarrow> None | Some nm \<Rightarrow> if nm = [] then None else get_probe_by_name db nm proto)"

lemma match_response_search:
  assumes "data \<noteq> []" and "ignore_ex \<or> \<not> is_excluded db port proto"
  shows "match_response pcre stamp db ignore_ex intensity port proto tunnel data ctx =
    (case search pcre db data (hint_of db proto ctx) (new_nfo port proto (clamp_intensity intensity) tunnel) of
       (hard, svc) \<Rightarrow> concluded stamp data hard svc)"
  using assms by (auto simp: match_response_def hint_of_def Let_def)

text \<open>
  C7. A result is backed by the database. For any response that is not excluded the engine gives a result (it never
  writes outside a buffer): a hard or soft match comes from a hard or soft line of the loaded file that matches
  the response, with the service it names and the fields its templates give; and when nothing is reported, and no line
  stands for a tunnel, no line of a probe that lists the port or is common enough matches.
\<close>

theorem service_result_backed:
  assumes "parse_probe_file content = Inr db" and "data \<noteq> []" and "ignore_ex \<or> \<not> is_excluded db port proto"
  shows "\<exists>r. match_response pcre stamp db ignore_ex intensity port proto tunnel data ctx = Some r \<and>
    res_port r = port \<and> res_proto r = proto \<and>
    (res_state r = FINISHED_HARDMATCHED \<and> line_backed pcre db data False (res_service r) (res_fields r) \<or>
     res_state r = FINISHED_SOFTMATCHED \<and> line_backed pcre db data True (res_service r) (res_fields r) \<or>
     res_state r = FINISHED_NOMATCH \<and> res_service r = [] \<and> res_fields r = no_fields \<and>
     (quiet db \<longrightarrow>
        (\<forall>i < length (pd_probes db). \<forall>m \<in> set (sp_matches (pd_probes db ! i)).
           sp_proto (pd_probes db ! i) = proto \<and>
           (port_is_probable (pd_probes db ! i) tunnel port \<or> sp_rarity (pd_probes db ! i) \<le> clamp_intensity intensity) \<longrightarrow>
           test_match pcre data m = None)))"
proof -
  define svc where "svc = new_nfo port proto (clamp_intensity intensity) tunnel"
  have ok: "nfo_ok pcre db data svc" by (simp add: svc_def nfo_ok_new)
  obtain hard svc' where s: "search pcre db data (hint_of db proto ctx) svc = (hard, svc')" by fastforce
  have step: "step_ok pcre db data svc (hard, svc')" using step_ok_search [OF ok, of "hint_of db proto ctx"] by (simp add: s)
  obtain r where r: "concluded stamp data hard svc' = Some r" "res_port r = nf_port svc" "res_proto r = nf_proto svc"
    "res_fields r = nf_fields svc'" "res_service r = (case nf_matched svc' of None \<Rightarrow> [] | Some nm \<Rightarrow> nm)"
    "res_state r = (if hard then FINISHED_HARDMATCHED else if nf_soft svc' then FINISHED_SOFTMATCHED else FINISHED_NOMATCH)"
    using concluded_cases [OF step] by blast
  have m: "match_response pcre stamp db ignore_ex intensity port proto tunnel data ctx = Some r"
    using match_response_search [OF assms(2,3)] s r(1) by (simp add: svc_def)
  have target: "nf_port svc = port" "nf_proto svc = proto" "nf_tunnel svc = tunnel" "nf_intensity svc = clamp_intensity intensity"
    by (simp_all add: svc_def new_nfo_def)
  have none: "test_match pcre data l = None"
    if "quiet db" "nf_matched svc' = None" "\<not> hard" "i < length (pd_probes db)" "l \<in> set (sp_matches (pd_probes db ! i))"
      "sp_proto (pd_probes db ! i) = proto"
      "port_is_probable (pd_probes db ! i) tunnel port \<or> sp_rarity (pd_probes db ! i) \<le> clamp_intensity intensity" for i l
    using probe_tried [OF ok that(1) _ parse_probe_file_ok [OF assms(1)] that(4) refl, of "hint_of db proto ctx" l] that target
    by (simp add: nothing_found_def s)
  show ?thesis
    using m r(2-6) step none target
    by (cases "nf_matched svc'"; cases hard) (auto simp: step_ok_def hard_ok_def nfo_ok_def)
qed

lemma service_result_backed_witness:
  "\<exists>r. match_response pcre_example (0, 1, 5) db_example False 7 7 IPPROTO_TCP TunnelNone ''abcd'' context_example = Some r \<and>
     (res_state r = FINISHED_HARDMATCHED \<and> line_backed pcre_example db_example ''abcd'' False (res_service r) (res_fields r) \<or>
      res_state r = FINISHED_SOFTMATCHED \<and> line_backed pcre_example db_example ''abcd'' True (res_service r) (res_fields r) \<or>
      res_state r = FINISHED_NOMATCH)"
proof -
  have "\<not> is_excluded db_example 7 IPPROTO_TCP" by code_simp
  then show ?thesis
    using service_result_backed [OF file_example_parsed, of "''abcd''" False 7 IPPROTO_TCP pcre_example "(0, 1, 5)" 7 TunnelNone
        context_example] by auto
qed

text \<open>
  C30. Whatever was captured and however the templates read, product, version, info, hostname, type of system and type of
  device of a result fit their buffers without being cut and end neither in white space nor in a comma. A CPE name begins with
  cpe:/ and fits its buffer too; it may have been cut to it and so end in anything.
\<close>

theorem service_fields_bounded:
  assumes "match_response pcre stamp db ignore_ex intensity port proto tunnel data ctx = Some r"
  shows "fields_ok (res_fields r)"
proof -
  have nil: "fields_ok no_fields"
    by (simp add: fields_ok_def no_fields_def field_ok_def cpe_ok_def SERVICE_FIELD_LEN_def SERVICE_EXTRA_LEN_def SERVICE_TYPE_LEN_def)
  have backed: "line_backed pcre db data soft nm fs \<Longrightarrow> fields_ok fs" for soft nm fs
    using fill_version_str_ok by (auto simp: line_backed_def fields_ok_def)
  define svc where "svc = new_nfo port proto (clamp_intensity intensity) tunnel"
  consider "\<not> ignore_ex \<and> is_excluded db port proto" | "ignore_ex \<or> \<not> is_excluded db port proto" "data = []"
    | "ignore_ex \<or> \<not> is_excluded db port proto" "data \<noteq> []" by blast
  then show ?thesis
  proof cases
    case 1
    then show ?thesis using assms nil by (auto simp: match_response_def)
  next
    case 2
    then have "unanswered db ctx svc = Some r" using assms by (auto simp: match_response_def svc_def Let_def)
    then show ?thesis using nil
      by (auto simp: unanswered_def build_service_result_def svc_def new_nfo_def split: if_splits)
  next
    case 3
    have ok: "nfo_ok pcre db data svc" by (simp add: svc_def nfo_ok_new)
    obtain hard svc' where s: "search pcre db data (hint_of db proto ctx) svc = (hard, svc')" by fastforce
    have step: "step_ok pcre db data svc (hard, svc')" using step_ok_search [OF ok, of "hint_of db proto ctx"] by (simp add: s)
    have "res_fields r = nf_fields svc'"
      using concluded_cases [OF step, of stamp] match_response_search [OF 3(2,1), of pcre stamp intensity tunnel ctx] s assms
      by (auto simp: svc_def)
    then show ?thesis
      using step backed nil by (auto simp: step_ok_def hard_ok_def nfo_ok_def split: if_splits option.splits)
  qed
qed

lemma service_fields_bounded_witness:
  "\<exists>r. match_response pcre_example (0, 1, 5) db_example False 7 7 IPPROTO_TCP TunnelNone ''abcd'' context_example = Some r \<and>
     md_product (res_fields r) = ''Echo d'' \<and> fields_ok (res_fields r)"
  using response_example service_fields_bounded
    [of pcre_example "(0, 1, 5)" db_example False 7 7 IPPROTO_TCP TunnelNone "''abcd''" context_example] by auto

section \<open>Fingerprints\<close>

lemma show_nat_no_break: "NL \<notin> set (show_nat n)"
  using digit_char_not(3) [of NL n] by (auto simp: is_digit_def)

lemma fp_header_no_break: "NL \<notin> set (fp_header stamp port proto intensity tunnel)"
proof -
  have "NL \<notin> set (take k s)" if "NL \<notin> set s" for k s using that in_set_takeD by fast
  then show ?thesis by (cases stamp) (auto simp: fp_header_def show_nat_no_break show_hex_upper_chars)
qed

text \<open>
  C21. A fingerprint is read back. Written for a service nothing matched, it never leaves its buffer, no line of it is
  longer than 74 characters, and with the line breaks taken out it is the header, the record with the
  length of the response and the response's first 900 bytes in escapes that the reader of the probe file
  (\<open>cstring_unescape\<close>) turns into the bytes again.
\<close>

theorem fingerprint_roundtrip:
  "\<exists>b t. add_to_fingerprint (fp_header stamp port proto intensity tunnel) ''(all probes)'' data no_fp = Some b \<and>
     get_fingerprint b = Some (fp_text b @ '';'') \<and>
     (\<forall>l \<in> set (split_on NL (fp_text b)). length l \<le> 74) \<and>
     unwrap (fp_text b) = fp_header stamp port proto intensity tunnel @ fp_record ''(all probes)'' (length data) @ t @
       [CHR 0x22, CHR '')''] \<and>
     cstring_unescape t = (True, take 900 data)"
proof -
  define header where "header = fp_header stamp port proto intensity tunnel"
  define raw where "raw = fp_raw header ''(all probes)'' data"
  have "header \<noteq> []" by (simp add: header_def fp_header_not_Nil)
  from add_to_fingerprint_Some [OF this, of "''(all probes)''" data]
  obtain b where b: "add_to_fingerprint header ''(all probes)'' data no_fp = Some b" "fp_ok b" "fp_text b = wrapped [] raw"
    by (auto simp: raw_def no_fp_def)
  have "NL \<notin> set (fp_record ''(all probes)'' (length data))"
    using show_hex_upper_chars [of "length data"] by (auto simp: fp_record_def dest: in_set_takeD)
  then have raw: "NL \<notin> set raw"
    using fp_header_no_break escape_no_break by (simp add: raw_def fp_raw_def header_def)
  have "unwrap (wrapped [] raw @ []) = [] @ raw @ unwrap []" by (rule unwrap_wrapped [OF raw]) simp
  then have "unwrap (fp_text b) = raw" by (simp add: b(3))
  moreover have "lines_ok (fp_text b)" unfolding b(3) by (rule lines_ok_wrapped [OF _ raw]) (simp add: lines_ok_def)
  moreover have "fp_text b \<noteq> []" using \<open>header \<noteq> []\<close> by (simp add: b(3) wrapped_not_Nil raw_def fp_raw_def)
  then have "get_fingerprint b = Some (fp_text b @ '';'')" using b(2) by (auto simp: get_fingerprint_def fp_ok_def Let_def)
  ultimately show ?thesis
    using b(1) lines_ok_length unescape_escape_bytes by (auto simp: raw_def fp_raw_def header_def)
qed

lemma fingerprint_roundtrip_witness:
  "\<exists>b t. add_to_fingerprint (fp_header (0, 1, 5) 7 IPPROTO_TCP 7 TunnelNone) ''(all probes)'' ''hi'' no_fp = Some b \<and>
     get_fingerprint b = Some (fp_text b @ '';'') \<and>
     unwrap (fp_text b) = fp_header (0, 1, 5) 7 IPPROTO_TCP 7 TunnelNone @ fp_record ''(all probes)'' 2 @ t @ [CHR 0x22, CHR '')''] \<and>
     cstring_unescape t = (True, ''hi'')"
  using fingerprint_roundtrip [of "(0, 1, 5)" 7 IPPROTO_TCP 7 TunnelNone "''hi''"] by (auto simp: numeral_2_eq_2)

section \<open>Loading\<close>

text \<open>
  C22. A file that is accepted gives a well-formed database: rarities from 1 to 9, waits from 100 to 300000
  ms, ports of 16 bits, for every probe the list of the services its lines name, and a list of at most 20 fallbacks
  that begins with the probe itself, names each probe once and only probes that exist, and has the NULL probe
  for TCP.
\<close>

theorem probe_file_wf:
  assumes "parse_probe_file content = Inr db"
  shows "db_ok db"
  by (rule parse_probe_file_ok [OF assms])

lemma probe_file_wf_witness: "db_ok db_example"
  by (rule probe_file_wf [OF file_example_parsed])

section \<open>Excluded ports\<close>

lemma strtol_show_nat:
  assumes "n \<le> 65535" and "case rest of [] \<Rightarrow> True | c # _ \<Rightarrow> \<not> is_digit_in 10 c"
  shows "strtol 10 (show_nat n @ rest) = (int n, length (show_nat n))"
  using strto_show_nat [OF assms(2), of n] assms(1) by (simp add: strtol_def signed_value_def)

lemma digit_next_show_nat: "digit_next (show_nat n @ rest)"
  using digit_char_not(3) [of "hd (show_nat n)" n] by (cases "show_nat n") (auto simp: digit_next_def)

lemma not_digits: "\<not> is_digit_in 10 (CHR '','')" "\<not> is_digit_in 10 (CHR ''-'')"
  by code_simp+

fun item_low :: "port_item \<Rightarrow> nat" where
  "item_low (OnePort p) = p"
| "item_low (PortRange a b) = a"

fun item_high :: "port_item \<Rightarrow> nat" where
  "item_high (OnePort p) = p"
| "item_high (PortRange a b) = b"

text \<open>Behind an item there is the end or the comma of the next one.\<close>

fun item_ends :: "string \<Rightarrow> bool" where
  "item_ends [] = True"
| "item_ends (c # s) = (c = CHR '','')"

lemma item_ends_cases: "item_ends rest \<Longrightarrow> rest = [] \<or> (\<exists>s. rest = CHR '','' # s)"
  by (cases rest) auto

lemma excluded_item_show:
  assumes "item_ok it" and rest: "item_ends rest"
  shows "excluded_item (show_item it @ rest) = (int (item_low it), int (item_high it), rest)"
proof (cases it)
  case (OnePort p)
  have "strtol 10 (show_nat p @ rest) = (int p, length (show_nat p))"
    by (rule strtol_show_nat) (use assms OnePort not_digits item_ends_cases [OF rest] in auto)
  then show ?thesis
    using OnePort item_ends_cases [OF rest] by (auto simp: excluded_item_def starts_with_def)
next
  case (PortRange a b)
  have "strtol 10 (show_nat a @ CHR ''-'' # show_nat b @ rest) = (int a, length (show_nat a))"
    by (rule strtol_show_nat) (use assms PortRange not_digits in simp_all)
  moreover have "strtol 10 (show_nat b @ rest) = (int b, length (show_nat b))"
    by (rule strtol_show_nat) (use assms PortRange not_digits item_ends_cases [OF rest] in auto)
  ultimately show ?thesis
    using PortRange digit_next_show_nat [of b rest] by (simp add: excluded_item_def starts_with_def)
qed

lemma proto_prefix_digit: "digit_next s \<Longrightarrow> proto_prefix s = None"
  by (auto simp: digit_next_def proto_prefix_def is_digit_def split: list.splits)

lemma parse_excluded_comma: "parse_excluded forced (CHR '','' # s) ex = parse_excluded forced s ex"
  by (subst (1 2) parse_excluded.simps) simp

lemma parse_excluded_Nil: "parse_excluded forced [] ex = ex"
  by (subst parse_excluded.simps) simp

lemma parse_excluded_item:
  assumes "item_ok it" and rest: "item_ends rest"
  shows "parse_excluded forced (show_item it @ rest) ex =
    parse_excluded forced rest (add_excluded forced [item_low it ..< Suc (item_high it)] ex)"
proof -
  define s where "s = show_item it @ rest"
  have digit: "digit_next s" by (cases it) (simp_all add: s_def digit_next_show_nat)
  then obtain c t where c: "s = c # t" "is_digit c" by (auto simp: digit_next_def split: list.splits)
  then have drop: "dropWhile (\<lambda>c. is_space c \<or> c = CHR '','') s = s" by (auto simp: is_space_def is_digit_def)
  have "parse_excluded forced s ex =
      parse_excluded forced rest (add_excluded forced [item_low it ..< Suc (item_high it)] ex)"
    using assms digit proto_prefix_digit [OF digit] c(1) excluded_item_show [OF assms, folded s_def]
    by (subst parse_excluded.simps, unfold drop Let_def) (cases it; simp)
  then show ?thesis by (simp add: s_def)
qed

text \<open>
  The documented grammar, item (',' item)* with item := [T:|U:|S:] port | port '-' port (the code takes small
  letters too). An item is written with an optional letter; the letter in force for it is the last one up to it.
\<close>

type_synonym written = "char option \<times> port_item"

definition letter_proto :: "char \<Rightarrow> nat" where
  "letter_proto c = (if c \<in> set ''Tt'' then IPPROTO_TCP else if c \<in> set ''Uu'' then IPPROTO_UDP else IPPROTO_SCTP)"

definition written_ok :: "written \<Rightarrow> bool" where
  "written_ok w \<longleftrightarrow> (case fst w of None \<Rightarrow> True | Some c \<Rightarrow> c \<in> set ''TtUuSs'') \<and> item_ok (snd w)"

definition show_written :: "written \<Rightarrow> string" where
  "show_written w = (case fst w of None \<Rightarrow> [] | Some c \<Rightarrow> [c, CHR '':'']) @ show_item (snd w)"

fun show_spec :: "written list \<Rightarrow> string" where
  "show_spec [] = []"
| "show_spec [w] = show_written w"
| "show_spec (w # ws) = show_written w @ '','' @ show_spec ws"

definition in_force :: "nat option \<Rightarrow> written list \<Rightarrow> nat option" where
  "in_force forced ws =
     (case filter (\<lambda>w. fst w \<noteq> None) ws of [] \<Rightarrow> forced | ls \<Rightarrow> map_option letter_proto (fst (last ls)))"

definition is_proto :: "nat \<Rightarrow> bool" where
  "is_proto proto \<longleftrightarrow> proto \<in> {IPPROTO_TCP, IPPROTO_UDP, IPPROTO_SCTP}"

text \<open>The port is in an item that counts for the protocol.\<close>

definition left_out :: "nat option \<Rightarrow> written list \<Rightarrow> nat \<Rightarrow> nat \<Rightarrow> bool" where
  "left_out forced ws port proto \<longleftrightarrow>
     (\<exists>i < length ws. item_low (snd (ws ! i)) \<le> port \<and> port \<le> item_high (snd (ws ! i)) \<and>
        in_force forced (take (Suc i) ws) \<in> {None, Some proto})"

lemma in_force_Nil [simp]: "in_force forced [] = forced"
  by (simp add: in_force_def)

lemma in_force_Cons: "in_force forced (w # ws) = in_force (in_force forced [w]) ws"
  by (cases "fst w") (auto simp: in_force_def split: list.split)

lemma left_out_Cons:
  "left_out forced (w # ws) port proto \<longleftrightarrow>
    (item_low (snd w) \<le> port \<and> port \<le> item_high (snd w) \<and> in_force forced [w] \<in> {None, Some proto}) \<or>
    left_out (in_force forced [w]) ws port proto"
  by (simp add: left_out_def Ex_less_Suc2 in_force_Cons [of forced w "take _ ws"])

lemma parse_excluded_letter:
  assumes "c \<in> set ''TtUuSs''"
  shows "parse_excluded forced (c # CHR '':'' # s) ex = parse_excluded (Some (letter_proto c)) s ex"
proof -
  have "proto_prefix (c # CHR '':'' # s) = Some (letter_proto c)" "\<not> is_space c" "c \<noteq> CHR '',''"
    using assms by (auto simp: proto_prefix_def letter_proto_def is_space_def)
  then show ?thesis by (subst parse_excluded.simps) (simp add: Let_def)
qed

lemma add_port_set: "set (fold add_port ports v) = set ports \<union> set v"
  by (induction ports arbitrary: v) (auto simp: add_port_def)

lemma add_excluded_contains:
  "(case forced of None \<Rightarrow> True | Some p \<Rightarrow> is_proto p) \<Longrightarrow>
    excluded_contains (add_excluded forced ports ex) port proto \<longleftrightarrow>
    excluded_contains ex port proto \<or> (is_proto proto \<and> forced \<in> {None, Some proto} \<and> port \<in> set ports)"
  by (auto simp: excluded_contains_def add_excluded_def add_port_set is_proto_def IPPROTO_TCP_def IPPROTO_UDP_def IPPROTO_SCTP_def
      split: option.splits)

lemma parse_excluded_written:
  assumes "written_ok w" and "item_ends rest"
  shows "parse_excluded forced (show_written w @ rest) ex =
    parse_excluded (in_force forced [w]) rest
      (add_excluded (in_force forced [w]) [item_low (snd w) ..< Suc (item_high (snd w))] ex)"
  using assms by (cases "fst w") (simp_all add: written_ok_def show_written_def in_force_def parse_excluded_letter parse_excluded_item)

lemma parse_excluded_spec:
  "\<forall>w \<in> set ws. written_ok w \<Longrightarrow> (case forced of None \<Rightarrow> True | Some p \<Rightarrow> is_proto p) \<Longrightarrow>
    excluded_contains (parse_excluded forced (show_spec ws) ex) port proto \<longleftrightarrow>
    excluded_contains ex port proto \<or> (is_proto proto \<and> left_out forced ws port proto)"
proof (induction ws arbitrary: forced ex)
  case Nil
  show ?case by (simp add: parse_excluded_Nil left_out_def)
next
  case (Cons w ws)
  let ?f = "in_force forced [w]" and ?ports = "[item_low (snd w) ..< Suc (item_high (snd w))]"
  define ex1 where "ex1 = add_excluded ?f ?ports ex"
  have f: "case ?f of None \<Rightarrow> True | Some p \<Rightarrow> is_proto p"
    using Cons.prems by (auto simp: in_force_def is_proto_def letter_proto_def split: option.split)
  have "parse_excluded forced (show_spec (w # ws)) ex = parse_excluded ?f (show_spec ws) ex1"
  proof (cases ws)
    case Nil
    then show ?thesis
      using parse_excluded_written [of w "[]" forced ex] Cons.prems(1) by (simp add: ex1_def)
  next
    case (Cons v vs)
    then have "show_spec (w # ws) = show_written w @ CHR '','' # show_spec ws" by simp
    then show ?thesis
      using parse_excluded_written [of w "CHR '','' # show_spec ws" forced ex] Cons.prems(1)
      by (simp add: ex1_def parse_excluded_comma)
  qed
  moreover have "excluded_contains ex1 port proto \<longleftrightarrow> excluded_contains ex port proto \<or>
      (is_proto proto \<and> ?f \<in> {None, Some proto} \<and> port \<in> set ?ports)"
    unfolding ex1_def by (rule add_excluded_contains [OF f])
  moreover have "excluded_contains (parse_excluded ?f (show_spec ws) ex1) port proto \<longleftrightarrow>
      excluded_contains ex1 port proto \<or> (is_proto proto \<and> left_out ?f ws port proto)"
    by (rule Cons.IH [OF _ f]) (use Cons.prems(1) in simp)
  ultimately show ?case unfolding left_out_Cons by auto
qed

definition nothing_excluded :: excluded_ports where
  "nothing_excluded = \<lparr>tcp_ports = [], udp_ports = [], sctp_ports = []\<rparr>"

text \<open>
  C31. The ports to leave out are read as the documented grammar writes them: items separated by commas, the first
  and the last one included, each with an optional letter; a letter stays in force up to the next one and without any the
  item counts for every protocol. A port is excluded for a protocol exactly when one of the items counts for it and holds the port.
\<close>

theorem exclusion_roundtrip:
  assumes "\<forall>w \<in> set ws. written_ok w"
  shows "excluded_contains (parse_excluded None (show_spec ws) nothing_excluded) port proto \<longleftrightarrow>
    is_proto proto \<and> left_out None ws port proto"
proof -
  have "\<not> excluded_contains nothing_excluded port proto" by (simp add: excluded_contains_def nothing_excluded_def)
  then show ?thesis using parse_excluded_spec [OF assms, of None nothing_excluded port proto] by simp
qed

lemma exclusion_roundtrip_witness:
  "excluded_contains (parse_excluded None ''T:80,443-445,U:53'' nothing_excluded) 445 IPPROTO_TCP \<and>
   excluded_contains (parse_excluded None ''T:80,443-445,U:53'' nothing_excluded) 53 IPPROTO_UDP \<and>
   \<not> excluded_contains (parse_excluded None ''T:80,443-445,U:53'' nothing_excluded) 53 IPPROTO_TCP"
proof -
  let ?ws = "[(Some CHR ''T'', OnePort 80), (None, PortRange 443 445), (Some CHR ''U'', OnePort 53)]"
  have shown: "show_spec ?ws = ''T:80,443-445,U:53''" by code_simp
  have ok: "\<forall>w \<in> set ?ws. written_ok w" by (simp add: written_ok_def)
  have "left_out None ?ws 445 IPPROTO_TCP" "left_out None ?ws 53 IPPROTO_UDP" "\<not> left_out None ?ws 53 IPPROTO_TCP"
    by (simp_all add: left_out_Cons in_force_def letter_proto_def IPPROTO_TCP_def IPPROTO_UDP_def) (simp_all add: left_out_def)
  then show ?thesis
    using exclusion_roundtrip [OF ok, of 445 IPPROTO_TCP] exclusion_roundtrip [OF ok, of 53 IPPROTO_UDP]
      exclusion_roundtrip [OF ok, of 53 IPPROTO_TCP] unfolding shown by (simp add: is_proto_def)
qed

section \<open>Tunnels\<close>

text \<open>
  A hard match of \<open>ssl\<close> is meant to start the search again with the probes of the tunnel. The loops go on instead:
  here the probe that lists the port for the tunnel is passed over as tried, and nothing is reported.
\<close>

definition tunnel_line :: "string \<Rightarrow> match_line" where
  "tunnel_line nm = line_example\<lparr>ml_service := nm, ml_product := None\<rparr>"

definition tunnel_db :: probe_db where
  "tunnel_db =
     \<lparr>pd_probes =
        [new_probe\<lparr>sp_name := ''Plain'', sp_proto := IPPROTO_TCP, sp_rarity := 8, sp_ports := [7], sp_detected := [''ssl''],
           sp_matches := [tunnel_line ''ssl''], sp_fallbacks := [ProbeAt 0]\<rparr>,
         new_probe\<lparr>sp_name := ''Inner'', sp_proto := IPPROTO_TCP, sp_rarity := 1, sp_ssl_ports := [7], sp_detected := [''http''],
           sp_matches := [tunnel_line ''http''], sp_fallbacks := [ProbeAt 1]\<rparr>],
      pd_null = None, pd_excluded = \<lparr>tcp_ports = [], udp_ports = [], sctp_ports = []\<rparr>, pd_excluded_seen = False\<rparr>"

lemma tunnel_hides_probes:
  "map_prod id nf_matched (search pcre_example tunnel_db ''abcd'' None (new_nfo 7 IPPROTO_TCP 7 TunnelNone)) = (False, None)"
  "map_prod id nf_matched (search pcre_example tunnel_db ''abcd'' None (new_nfo 7 IPPROTO_TCP 7 TunnelSsl)) = (True, Some ''http'')"
  by code_simp+

end
