(* ===== verification/Pattern_Prefix.thy ===== *)
theory Pattern_Prefix
  imports Service_Match
begin

text \<open>
  The filter before a pattern is matched: \<open>extract_anchor_literal_prefix\<close> reads off the characters every match must
  begin with. It is held against a reference: the syntax of patterns as a datatype, its printing in every
  spelling a character can have, and the strings a pattern stands for. A class stands for any character, an escape
  such as \<open>\d\<close> or \<open>\1\<close> for any text and a zero-width test never fails: these are more strings than in PCRE2, so
  what holds of all strings here holds there. Look-around, inline options and \<open>\Q\<close> are outside the syntax.
\<close>

section \<open>Patterns\<close>

datatype quant = Once | Opt | Star | Plus | Count nat nat

datatype rx_atom =
    Chr char string
  | Any
  | Cls bool bool string
  | Kind char
  | Edge char
  | Grp bool rx_alts
and rx_seq = SNil | SCons rx_atom quant rx_seq
and rx_alts = Only rx_seq | Alt rx_seq rx_alts

fun show_quant :: "quant \<Rightarrow> string" where
  "show_quant Once = []"
| "show_quant Opt = ''?''"
| "show_quant Star = ''*''"
| "show_quant Plus = ''+''"
| "show_quant (Count m n) = ''{'' @ show_nat m @ '','' @ show_nat n @ ''}''"

primrec show_atom :: "rx_atom \<Rightarrow> string" and show_seq :: "rx_seq \<Rightarrow> string" and show_alts :: "rx_alts \<Rightarrow> string" where
  "show_atom (Chr c sp) = sp"
| "show_atom Any = ''.''"
| "show_atom (Cls neg lead cs) = ''['' @ (if neg then ''^'' else []) @ (if lead then '']'' else []) @ cs @ '']''"
| "show_atom (Kind k) = [CHR 0x5C, k]"
| "show_atom (Edge e) = [e]"
| "show_atom (Grp capturing as) = ''('' @ (if capturing then [] else ''?:'') @ show_alts as @ '')''"
| "show_seq SNil = []"
| "show_seq (SCons a q r) = show_atom a @ show_quant q @ show_seq r"
| "show_alts (Only r) = show_seq r"
| "show_alts (Alt r as) = show_seq r @ ''|'' @ show_alts as"

text \<open>The spellings of a character.\<close>

definition spelled :: "char \<Rightarrow> string \<Rightarrow> bool" where
  "spelled c sp \<longleftrightarrow>
     (sp = [c] \<and> c \<notin> set ''.^$*+?()[{|'' \<and> c \<noteq> CHR 0x5C) \<or>
     (\<exists>n. sp = [CHR 0x5C, n] \<and> (n \<in> {CHR ''n'', CHR ''r'', CHR ''t''} \<and> c = unescaped n \<or> is_punct n \<and> c = n)) \<or>
     (\<exists>h l. sp = [CHR 0x5C, CHR ''x'', h, l] \<and> is_xdigit h \<and> is_xdigit l \<and> c = byte_of_hex h l)"

fun class_text :: "string \<Rightarrow> bool" where
  "class_text [] = True"
| "class_text (c # s) = (if c = CHR 0x5C then s \<noteq> [] \<and> class_text (tl s) else c \<noteq> CHR '']'' \<and> class_text s)"

definition class_ok :: "bool \<Rightarrow> bool \<Rightarrow> string \<Rightarrow> bool" where
  "class_ok neg lead cs \<longleftrightarrow> class_text cs \<and> (lead \<or> cs \<noteq> []) \<and> (\<not> neg \<and> \<not> lead \<longrightarrow> \<not> starts_with CHR ''^'' cs)"

primrec atom_ok :: "rx_atom \<Rightarrow> bool" and seq_ok :: "rx_seq \<Rightarrow> bool" and alts_ok :: "rx_alts \<Rightarrow> bool" where
  "atom_ok (Chr c sp) = spelled c sp"
| "atom_ok Any = True"
| "atom_ok (Cls neg lead cs) = class_ok neg lead cs"
| "atom_ok (Kind k) = (is_alnum k \<and> k \<notin> set ''nrt0xQE'')"
| "atom_ok (Edge e) = (e = CHR ''^'' \<or> e = CHR ''$'')"
| "atom_ok (Grp capturing as) = alts_ok as"
| "seq_ok SNil = True"
| "seq_ok (SCons a q r) = (atom_ok a \<and> seq_ok r)"
| "alts_ok (Only r) = seq_ok r"
| "alts_ok (Alt r as) = (seq_ok r \<and> alts_ok as)"

section \<open>What a pattern stands for\<close>

fun times :: "quant \<Rightarrow> nat \<Rightarrow> bool" where
  "times Once n = (n = 1)"
| "times Opt n = (n \<le> 1)"
| "times Star n = True"
| "times Plus n = (1 \<le> n)"
| "times (Count lo hi) n = (lo \<le> n \<and> n \<le> hi)"

definition same_char :: "bool \<Rightarrow> char \<Rightarrow> char \<Rightarrow> bool" where
  "same_char ci c d \<longleftrightarrow> (if ci then lower_ascii c = lower_ascii d else c = d)"

inductive m_atom :: "bool \<Rightarrow> rx_atom \<Rightarrow> string \<Rightarrow> bool" and m_rep :: "bool \<Rightarrow> rx_atom \<Rightarrow> nat \<Rightarrow> string \<Rightarrow> bool"
  and m_seq :: "bool \<Rightarrow> rx_seq \<Rightarrow> string \<Rightarrow> bool" and m_alts :: "bool \<Rightarrow> rx_alts \<Rightarrow> string \<Rightarrow> bool" where
  chr: "same_char ci c d \<Longrightarrow> m_atom ci (Chr c sp) [d]"
| any: "m_atom ci Any [d]"
| cls: "m_atom ci (Cls neg lead cs) [d]"
| kind: "m_atom ci (Kind k) s"
| edge: "m_atom ci (Edge e) []"
| grp: "m_alts ci as s \<Longrightarrow> m_atom ci (Grp capturing as) s"
| rep_0: "m_rep ci a 0 []"
| rep_Suc: "m_atom ci a s \<Longrightarrow> m_rep ci a n t \<Longrightarrow> m_rep ci a (Suc n) (s @ t)"
| nil: "m_seq ci SNil []"
| cons: "m_rep ci a n s \<Longrightarrow> times q n \<Longrightarrow> m_seq ci r t \<Longrightarrow> m_seq ci (SCons a q r) (s @ t)"
| only: "m_seq ci r s \<Longrightarrow> m_alts ci (Only r) s"
| alt_1: "m_seq ci r s \<Longrightarrow> m_alts ci (Alt r as) s"
| alt_2: "m_alts ci as s \<Longrightarrow> m_alts ci (Alt r as) s"

inductive_cases m_chr_elim: "m_atom ci (Chr c sp) s"
inductive_cases m_rep_elim: "m_rep ci a n s"
inductive_cases m_seq_elim: "m_seq ci (SCons a q r) s"

primrec alternatives :: "rx_alts \<Rightarrow> rx_seq list" where
  "alternatives (Only r) = [r]"
| "alternatives (Alt r as) = r # alternatives as"

text \<open>A search: an alternative that begins with \<open>^\<close> matches at the start of the subject only.\<close>

definition finds_seq :: "bool \<Rightarrow> rx_seq \<Rightarrow> string \<Rightarrow> bool" where
  "finds_seq ci r subject =
     (case r of
        SCons (Edge e) Once t \<Rightarrow>
          if e = CHR ''^'' then \<exists>s v. subject = s @ v \<and> m_seq ci t s else \<exists>u s v. subject = u @ s @ v \<and> m_seq ci r s
      | _ \<Rightarrow> \<exists>u s v. subject = u @ s @ v \<and> m_seq ci r s)"

definition finds :: "bool \<Rightarrow> rx_alts \<Rightarrow> string \<Rightarrow> bool" where
  "finds ci as subject \<longleftrightarrow> (\<exists>r \<in> set (alternatives as). finds_seq ci r subject)"

section \<open>Alternatives outside groups\<close>

lemma alternation_harmless:
  "c \<noteq> CHR 0x5C \<Longrightarrow> c \<notin> set ''[()|'' \<Longrightarrow> toplevel_alternation d False (c # s) = toplevel_alternation d False s"
  by simp

lemma alternation_escape: "toplevel_alternation d i (CHR 0x5C # c # s) = toplevel_alternation d i s"
  by simp

lemma xdigit_harmless: "is_xdigit c \<Longrightarrow> c \<noteq> CHR 0x5C \<and> c \<notin> set ''[()|''"
  by (auto simp: is_xdigit_def is_digit_in_def digit_value_def)

lemma alternation_spelled:
  assumes "spelled c sp"
  shows "toplevel_alternation d False (sp @ s) = toplevel_alternation d False s"
  using assms xdigit_harmless by (auto simp: spelled_def alternation_harmless)

lemma alternation_show_nat: "toplevel_alternation d False (show_nat n @ s) = toplevel_alternation d False s"
proof -
  have "toplevel_alternation d False (t @ s) = toplevel_alternation d False s" if "\<forall>c \<in> set t. is_digit c" for t
    using that
  proof (induction t)
    case (Cons c t)
    then have "c \<noteq> CHR 0x5C" "c \<notin> set ''[()|''" by (auto simp: is_digit_def)
    then show ?case using Cons alternation_harmless by simp
  qed simp
  then show ?thesis using digit_char_not(3) by blast
qed

lemma alternation_quant: "toplevel_alternation d False (show_quant q @ s) = toplevel_alternation d False s"
  by (cases q) (simp_all add: alternation_show_nat)

lemma alternation_class_text:
  "class_text cs \<Longrightarrow> toplevel_alternation d True (cs @ CHR '']'' # s) = toplevel_alternation d False s"
proof (induction cs rule: class_text.induct)
  case (2 c cs)
  show ?case
  proof (cases "c = CHR 0x5C")
    case True
    then obtain x t where "cs = x # t" "class_text t" using 2(3) by (cases cs) auto
    then show ?thesis using 2(1) True by simp
  next
    case False
    then show ?thesis using 2 by simp
  qed
qed simp

lemma alternation_class:
  assumes "class_ok neg lead cs"
  shows "toplevel_alternation d False (show_atom (Cls neg lead cs) @ s) = toplevel_alternation d False s"
proof -
  define body where "body = (if neg then ''^'' else []) @ (if lead then '']'' else []) @ cs @ '']'' @ s"
  have "\<not> starts_with CHR '']'' cs" if "\<not> lead"
    using that assms by (cases cs) (auto simp: class_ok_def starts_with_def)
  then have "skip_char CHR '']'' (skip_char CHR ''^'' body) = cs @ '']'' @ s"
    using assms by (cases cs) (auto simp: body_def class_ok_def skip_char_def starts_with_def)
  then show ?thesis using assms alternation_class_text [of cs d s] by (simp add: class_ok_def body_def)
qed

lemma alternation_balanced:
  "atom_ok a \<Longrightarrow> toplevel_alternation d False (show_atom a @ s) = toplevel_alternation d False s"
  "seq_ok r \<Longrightarrow> toplevel_alternation d False (show_seq r @ s) = toplevel_alternation d False s"
  "alts_ok as \<Longrightarrow> 0 < d \<Longrightarrow> toplevel_alternation d False (show_alts as @ s) = toplevel_alternation d False s"
proof (induction a and r and as arbitrary: d s and d s and d s)
  case (Cls neg lead cs)
  then show ?case using alternation_class [of neg lead cs d s] by simp
next
  case (Edge e)
  then show ?case by auto
next
  case (Grp capturing as)
  have "toplevel_alternation d False (show_atom (Grp capturing as) @ s) =
      toplevel_alternation (Suc d) False (show_alts as @ CHR '')'' # s)" by simp
  also have "\<dots> = toplevel_alternation (Suc d) False (CHR '')'' # s)" using Grp by simp
  finally show ?case by simp
qed (simp_all add: alternation_spelled alternation_quant)

lemma alternation_found:
  assumes "alts_ok (Alt r as)"
  shows "has_toplevel_alternation (show_alts (Alt r as))"
  using assms alternation_balanced(2) [of r 0 "CHR ''|'' # show_alts as"] by (simp add: has_toplevel_alternation_def)

section \<open>The literal run\<close>

lemma literal_run_spelled:
  assumes "spelled c sp" and "c \<notin> set '']}'' \<or> length sp > 1"
  shows "literal_run (sp @ s) acc = literal_run s (acc @ [c])"
proof -
  have punct: "is_punct n \<Longrightarrow> n \<notin> {CHR ''n'', CHR ''r'', CHR ''t'', CHR ''0'', CHR ''x''}" for n
    by (auto simp: is_punct_def is_alnum_def is_alpha_def is_digit_def)
  consider "sp = [c]" "c \<notin> set metas" "c \<noteq> CHR 0x5C"
    | n where "sp = [CHR 0x5C, n]" "n \<in> {CHR ''n'', CHR ''r'', CHR ''t''}" "c = unescaped n"
    | n where "sp = [CHR 0x5C, n]" "is_punct n" "c = n"
    | h l where "sp = [CHR 0x5C, CHR ''x'', h, l]" "is_xdigit h" "is_xdigit l" "c = byte_of_hex h l"
    using assms unfolding spelled_def metas_def by (elim disjE exE conjE) auto
  then show ?thesis
  proof cases
    case 3
    then show ?thesis using punct [of n] by simp
  qed auto
qed

lemma literal_run_meta:
  "c \<in> set metas \<Longrightarrow> literal_run (c # s) acc =
    Some (if (c = CHR ''*'' \<or> c = CHR ''?'' \<or> c = CHR ''{'') \<and> acc \<noteq> [] then butlast acc else acc)"
  by (auto simp: metas_def)

lemma literal_run_quant:
  "q \<noteq> Once \<Longrightarrow> literal_run (show_quant q @ s) acc = Some (if q = Plus \<or> acc = [] then acc else butlast acc)"
  by (cases q) (simp_all add: metas_def)

definition agrees :: "bool \<Rightarrow> string \<Rightarrow> string \<Rightarrow> bool" where
  "agrees ci l s \<longleftrightarrow> (\<exists>u v. s = u @ v \<and> list_all2 (same_char ci) l u)"

lemma agrees_Nil [simp]: "agrees ci [] s"
  by (simp add: agrees_def)

lemma agrees_Cons: "same_char ci c d \<Longrightarrow> agrees ci l s \<Longrightarrow> agrees ci (c # l) (d # s)"
  by (auto simp: agrees_def) (metis append_Cons list.rel_intros(2))

lemma agrees_append: "agrees ci l s \<Longrightarrow> agrees ci l (s @ t)"
  by (auto simp: agrees_def) (metis append.assoc)

lemma m_rep_Chr:
  assumes "m_rep ci (Chr c sp) n s" and "1 \<le> n"
  shows "\<exists>d t. s = d # t \<and> same_char ci c d"
proof -
  obtain k where "n = Suc k" using assms(2) by (cases n) auto
  then obtain s1 t where s: "s = s1 @ t" "m_atom ci (Chr c sp) s1" using m_rep_elim [OF assms(1)] by blast
  obtain d where "s1 = [d]" "same_char ci c d" using m_chr_elim [OF s(2)] by blast
  then show ?thesis using s(1) by simp
qed

lemma m_rep_Chr_1:
  assumes "m_rep ci (Chr c sp) (Suc 0) s"
  shows "\<exists>d. s = [d] \<and> same_char ci c d"
proof -
  obtain s1 t where s: "s = s1 @ t" "m_atom ci (Chr c sp) s1" "m_rep ci (Chr c sp) 0 t"
    using m_rep_elim [OF assms] by blast
  have "t = []" using m_rep_elim [OF s(3)] by blast
  moreover obtain d where "s1 = [d]" "same_char ci c d" using m_chr_elim [OF s(2)] by blast
  ultimately show ?thesis using s by simp
qed

lemma rx_seq_steps:
  assumes "P SNil" and "\<And>a q r. P r \<Longrightarrow> P (SCons a q r)"
  shows "P r"
proof (induction "size r" arbitrary: r rule: less_induct)
  case less
  then show ?case using assms by (cases r) auto
qed

lemma literal_run_sound:
  "seq_ok r \<Longrightarrow> literal_run (show_seq r) acc = Some lit \<Longrightarrow> m_seq ci r s \<Longrightarrow> \<exists>l. lit = acc @ l \<and> agrees ci l s"
proof (induction r arbitrary: acc s rule: rx_seq_steps)
  case 1
  then show ?case by simp
next
  case SCons: (2 a q r)
  have ok: "atom_ok a" "seq_ok r" using SCons.prems(1) by simp_all
  from SCons.prems(3) obtain n s1 s2 where m: "m_rep ci a n s1" "times q n" "m_seq ci r s2" "s = s1 @ s2"
    by (elim m_seq_elim) auto
  show ?case
  proof (cases a)
    case (Chr c sp)
    show ?thesis
    proof (cases "c \<in> set '']}'' \<and> length sp \<le> 1")
      case True
      then have "sp = [c]" "c \<in> set metas" "c \<notin> set ''*?{''" using ok(1) Chr by (auto simp: spelled_def metas_def)
      then have "lit = acc" using SCons.prems(2) Chr literal_run_meta [of c "show_quant q @ show_seq r" acc] by auto
      then show ?thesis by simp
    next
      case False
      then have run: "literal_run (show_quant q @ show_seq r) (acc @ [c]) = Some lit"
        using SCons.prems(2) Chr ok(1) literal_run_spelled [of c sp "show_quant q @ show_seq r" acc] by auto
      show ?thesis
      proof (cases "q = Once")
        case True
        obtain d where d: "s1 = [d]" "same_char ci c d" using m_rep_Chr_1 [of ci c sp s1] m(1,2) True Chr by auto
        obtain l where "lit = (acc @ [c]) @ l" "agrees ci l s2"
          using SCons.IH [OF ok(2) _ m(3), of "acc @ [c]"] run True by auto
        then show ?thesis using d m(4) agrees_Cons [of ci c d l s2] by (intro exI [of _ "c # l"]) simp
      next
        case False
        have lit: "lit = (if q = Plus then acc @ [c] else acc)"
          using run literal_run_quant [OF False, of "show_seq r" "acc @ [c]"] by (auto split: if_splits)
        show ?thesis
        proof (cases "q = Plus")
          case True
          obtain d t where "s1 = d # t" "same_char ci c d" using m_rep_Chr [of ci c sp n s1] m(1,2) True Chr by auto
          then show ?thesis using lit True m(4) agrees_Cons [of ci c d "[]" "t @ s2"] by (intro exI [of _ "[c]"]) simp
        next
          case False
          then show ?thesis using lit by simp
        qed
      qed
    qed
  next
    case Any
    then show ?thesis using SCons.prems(2) by (simp add: metas_def)
  next
    case (Cls neg lead cs)
    then show ?thesis using SCons.prems(2) by (simp add: metas_def)
  next
    case (Kind k)
    then have "literal_run (show_seq (SCons a q r)) acc = None" using ok(1) by (auto simp: is_punct_def)
    then show ?thesis using SCons.prems(2) by simp
  next
    case (Edge e)
    then show ?thesis using SCons.prems(2) ok(1) by (auto simp: metas_def)
  next
    case (Grp capturing as)
    then show ?thesis using SCons.prems(2) by (simp add: metas_def)
  qed
qed

section \<open>The filter accepts what the pattern finds\<close>

lemma lower_ascii_idem [simp]: "lower_ascii (lower_ascii c) = lower_ascii c"
  by (auto simp: lower_ascii_def)

lemma agrees_case_prefix: "agrees True l s \<Longrightarrow> case_prefix (map lower_ascii l) s"
proof -
  have "case_prefix (map lower_ascii l) (u @ v)" if "list_all2 (same_char True) l u" for u v
    using that by (induction rule: list_all2_induct) (simp_all add: same_char_def)
  then show "agrees True l s \<Longrightarrow> case_prefix (map lower_ascii l) s" by (auto simp: agrees_def)
qed

lemma agrees_exact: "agrees False l s \<Longrightarrow> take (length l) s = l"
proof -
  have "l = u" if "list_all2 (same_char False) l u" for u
    using that by (induction rule: list_all2_induct) (simp_all add: same_char_def)
  then have "agrees False l s \<Longrightarrow> \<exists>v. s = l @ v" by (auto simp: agrees_def)
  then show "agrees False l s \<Longrightarrow> take (length l) s = l" by auto
qed

lemma agrees_length: "agrees ci l s \<Longrightarrow> length l \<le> length s"
  by (auto simp: agrees_def dest: list_all2_lengthD)

lemma anchored_shape:
  assumes "seq_ok r" and "starts_with CHR ''^'' (show_seq r)"
  obtains q t where "r = SCons (Edge CHR ''^'') q t" "seq_ok t"
proof (cases r)
  case SNil
  then show ?thesis using assms by (simp add: starts_with_def)
next
  case (SCons a q t)
  have "a = Edge CHR ''^''"
  proof (cases a)
    case (Chr c sp)
    then show ?thesis using assms SCons by (auto simp: starts_with_def spelled_def)
  qed (use assms SCons in \<open>auto simp: starts_with_def\<close>)
  then show ?thesis using that SCons assms(1) by simp
qed

lemma literal_prefix_agrees:
  assumes "seq_ok r" and "anchor_literal_prefix (show_seq r) ci = Some lit" and "finds_seq ci r subject"
  shows "\<exists>l. lit = (if ci then map lower_ascii l else l) \<and> agrees ci l subject"
proof -
  obtain run where run: "starts_with CHR ''^'' (show_seq r)" "literal_run (tl (show_seq r)) [] = Some run" "3 \<le> length run"
      "lit = (if ci then map lower_ascii run else run)"
    using assms(2) by (auto simp: anchor_literal_prefix_def split: if_splits option.splits)
  obtain q t where r: "r = SCons (Edge CHR ''^'') q t" "seq_ok t" using anchored_shape [OF assms(1) run(1)] by blast
  have q: "q = Once"
  proof (rule ccontr)
    assume "q \<noteq> Once"
    then show False using literal_run_quant [of q "show_seq t" "[]"] run r by simp
  qed
  then obtain s v where s: "subject = s @ v" "m_seq ci t s" using assms(3) r by (auto simp: finds_seq_def)
  have "agrees ci run s" using literal_run_sound [OF r(2) _ s(2), of "[]" run] run r q by auto
  then show ?thesis using run(4) s(1) agrees_append by auto
qed

lemma set_template_keeps:
  "set_template mode t m = Some m' \<Longrightarrow> ml_regex m' = ml_regex m \<and> ml_i m' = ml_i m \<and> ml_prefix m' = ml_prefix m"
  by (auto simp: set_template_def split: if_splits)

lemma version_templates_keep:
  "version_templates s m = Inr m' \<Longrightarrow> ml_regex m' = ml_regex m \<and> ml_i m' = ml_i m \<and> ml_prefix m' = ml_prefix m"
proof (induction s m rule: version_templates.induct)
  case (1 s m)
  consider "next_template s = Inr None"
    | mode t flags rest m1 where "next_template s = Inr (Some (mode, t, flags, rest))" "set_template mode t m = Some m1"
        "version_templates rest m1 = Inr m'"
    using 1(2) unfolding version_templates.simps [of s m] by (auto split: sum.splits option.splits)
  then show ?case
  proof cases
    case 1
    then show ?thesis using \<open>version_templates s m = Inr m'\<close> unfolding version_templates.simps [of s m] by simp
  next
    case 2
    then show ?thesis using 1(1) set_template_keeps by (metis (no_types, lifting))
  qed
qed

lemma regex_flags_keep: "regex_flags fs m = Inr m' \<Longrightarrow> ml_regex m' = ml_regex m"
  by (induction fs m rule: regex_flags.induct) (auto split: if_splits)

lemma init_prefix:
  assumes "init_match txt = Inr m"
  shows "ml_prefix m = anchor_literal_prefix (ml_regex m) (ml_i m)"
proof -
  obtain regex flags rest m0 m1 where "ml_regex m0 = regex" "regex_flags flags m0 = Inr m1"
      "version_templates rest (m1\<lparr>ml_prefix := anchor_literal_prefix regex (ml_i m1)\<rparr>) = Inr m"
    using assms by (auto simp: init_match_def simp del: version_templates.simps split: if_splits sum.splits option.splits)
  then show ?thesis using regex_flags_keep version_templates_keep by fastforce
qed

text \<open>
  C8. The prefix filter never rejects a response its pattern matches. Whatever match line \<open>init\<close> accepts, if its
  pattern is one of the reference syntax (characters in any spelling the extraction knows, classes, groups,
  quantifiers, alternatives), a response in which the pattern is found passes the test against the literal prefix
  read off the pattern's text, folded to lower case when the pattern ignores case.
\<close>

theorem prefix_sound:
  assumes "init_match txt = Inr m" and "ml_regex m = show_alts as" and "alts_ok as" and "finds (ml_i m) as subject"
  shows "prefix_ok m subject"
proof (cases "ml_prefix m")
  case None
  then show ?thesis by (simp add: prefix_ok_def)
next
  case (Some lit)
  note lit = init_prefix [OF assms(1)]
  have "\<not> has_toplevel_alternation (show_alts as)"
    using Some lit assms(2) by (auto simp: anchor_literal_prefix_def split: if_splits)
  then obtain r where r: "as = Only r" using alternation_found assms(3) by (cases as) auto
  then obtain l where "lit = (if ml_i m then map lower_ascii l else l)" "agrees (ml_i m) l subject"
    using literal_prefix_agrees [of r "ml_i m" lit subject] lit assms Some by (auto simp: finds_def)
  then show ?thesis
    using Some agrees_case_prefix agrees_exact agrees_length [of "ml_i m" l subject] by (auto simp: prefix_ok_def)
qed

text \<open>A match line with the pattern \<open>^SSH\-x?.\<close>, and a server's first line.\<close>

definition ssh_pattern :: rx_alts where
  "ssh_pattern = Only (SCons (Edge CHR ''^'') Once (SCons (Chr CHR ''S'' ''S'') Once (SCons (Chr CHR ''S'' ''S'') Once
     (SCons (Chr CHR ''H'' ''H'') Once (SCons (Chr CHR ''-'' [CHR 0x5C, CHR ''-'']) Once
     (SCons (Chr CHR ''x'' ''x'') Opt (SCons Any Once SNil)))))))"

definition ssh_line :: string where
  "ssh_line = ''match ssh m|^SSH'' @ [CHR 0x5C] @ ''-x?.|i p/SSH/''"

definition ssh_match :: match_line where
  "ssh_match =
     \<lparr>ml_soft = False, ml_service = ''ssh'', ml_regex = show_alts ssh_pattern, ml_i = True, ml_s = False,
      ml_prefix = Some ''ssh-'', ml_product = Some ''SSH'', ml_version = None, ml_info = None, ml_hostname = None,
      ml_ostype = None, ml_devicetype = None, ml_cpe = []\<rparr>"

lemma m_seq_literal: "same_char ci c d \<Longrightarrow> m_seq ci r t \<Longrightarrow> m_seq ci (SCons (Chr c sp) Once r) (d # t)"
proof -
  assume "same_char ci c d" "m_seq ci r t"
  then have "m_rep ci (Chr c sp) (Suc 0) ([d] @ [])" by (intro rep_Suc chr rep_0)
  then show ?thesis using m_atom_m_rep_m_seq_m_alts.cons [of ci "Chr c sp" "Suc 0" "[d]" Once r t] \<open>m_seq ci r t\<close> by simp
qed

lemma ssh_chars: "same_char True CHR ''S'' CHR ''s''" "same_char True CHR ''H'' CHR ''h''" "same_char True c c"
  by (code_simp, code_simp, simp add: same_char_def)

lemma ssh_found: "finds True ssh_pattern ''ssh-2.0''"
proof -
  have "m_rep True Any (Suc 0) ([CHR ''2''] @ [])" by (intro rep_Suc any rep_0)
  then have "m_seq True (SCons Any Once SNil) (([CHR ''2''] @ []) @ [])" by (rule cons) (simp_all add: nil)
  then have "m_seq True (SCons (Chr CHR ''x'' ''x'') Opt (SCons Any Once SNil)) ([] @ ''2'')"
    by (intro cons [of _ _ 0]) (auto intro: rep_0)
  then have "m_seq True (SCons (Chr CHR ''S'' ''S'') Once (SCons (Chr CHR ''S'' ''S'') Once (SCons (Chr CHR ''H'' ''H'') Once
      (SCons (Chr CHR ''-'' [CHR 0x5C, CHR ''-'']) Once (SCons (Chr CHR ''x'' ''x'') Opt (SCons Any Once SNil)))))) ''ssh-2''"
    by (intro m_seq_literal) (simp_all add: ssh_chars)
  then show ?thesis
    by (simp add: finds_def finds_seq_def ssh_pattern_def, intro exI [of _ "''ssh-2''"], simp)
qed

lemma ssh_init: "init_match ssh_line = Inr ssh_match"
  by code_simp

lemma ssh_ok: "alts_ok ssh_pattern"
  by (simp add: ssh_pattern_def spelled_def is_punct_def is_alnum_def is_alpha_def is_digit_def)

theorem prefix_sound_witness: "init_match ssh_line = Inr ssh_match \<and> prefix_ok ssh_match ''ssh-2.0''"
  using prefix_sound [of ssh_line ssh_match ssh_pattern "''ssh-2.0''"] ssh_init ssh_found ssh_ok
  by (simp add: ssh_match_def)

text \<open>
  An octal escape is not read as PCRE2 reads it: after a backslash and \<open>0\<close> the extraction takes a null character and
  then the remaining digits as literal characters. The pattern below stands for a line feed and \<open>abc\<close>, and its prefix
  begins with a null character and \<open>12\<close>.
\<close>

lemma octal_escape_misread:
  "anchor_literal_prefix (''^'' @ [CHR 0x5C] @ ''012abc'') False = Some (CHR 0x00 # ''12abc'')"
  by (simp add: anchor_literal_prefix_def has_toplevel_alternation_def starts_with_def metas_def unescaped_def)

end
