(* ===== verification/Spec2Isabelle.thy ===== *)
theory Spec2Isabelle
  imports Fragment Dns_Reply Capture_Runs Capture_Report Worker Server_Props Service_Results Pattern_Prefix
begin

text \<open>
  Trinetra is a scanner of TCP ports that builds its own packets. This development models the parts of
  the C++ sources under src/ that decide what is sent and what a reply means, and proves them correct.

  How the program works. The options of the command line are parsed into configuration structs
  (src/parser.cpp, src/main.cpp). For a batch of ports \<open>receive_response\<close> (src/scan.cpp) sets up one state
  per port and a heap of deadlines; a deadline queues a probe, \<open>send_tcp_packets\<close> builds it with
  \<open>build_packet\<close>, cuts it into fragments when asked and submits it. Replies come back to
  \<open>receive_response\<close>, which matches them to a probe and hands TCP segments to \<open>process_response\<close>; a port
  that does not answer is retried and given up in the end. \<open>worker_thread\<close> runs the batches of a target one
  after the other and adds up their results. Next to the scan stand a passive capture
  (src/net_capture.cpp), an enumeration over DNS (src/dns_enum.cpp), the address blocks of a country or an
  owner, downloaded from the registries (src/discover.cpp), a probe of versions that reads HTTP responses
  (src/control.cpp) and names services by a file of probes and patterns (src/probe.cpp), and a web front end
  that runs command lines as child processes (src/server.cpp).
\<close>

text \<open>
  The theories and the code they model, bottom up:

  \<^item> Prelude, Cxx_Num, Binary64: words and bytes, \<open>std::string\<close>, the numeric conversions of the C++
    library (exceptions are values) and \<open>double\<close> arithmetic as rounded rationals.
  \<^item> Parser (src/parser.cpp up to line 523) and Ext_Options (the rest of it, and the handlers of
    src/main.cpp): one function per option; each returns the configuration as the code leaves it and the
    error it reports.
  \<^item> Ext_Headers, Ext_Chain: the IPv6 extension headers and their chain (\<open>build_hop_by_hop_header\<close> and
    the others, \<open>build_packet\<close> lines 966 to 1099 of src/scan.cpp).
  \<^item> Tcp_Options, Checksum, Packet: the rest of \<open>build_packet\<close>; Checksum also has the checksums of the IPv4
    header and of src/utils.cpp.
  \<^item> Fragment: the fragmentation block of \<open>send_tcp_packets\<close>.
  \<^item> Probe, Reply, Retry (src/scan.hpp, \<open>process_response\<close>): the state \<open>PortState\<close> of a port, the meaning of
    a segment, round-trip times, retry budget, rate and bandwidth.
  \<^item> Engine: \<open>receive_response\<close>. The record \<open>engine\<close> holds its local state, the parallel vectors of the code
    being one list of slots; \<open>start_batch\<close> is its set-up, \<open>on_tcp\<close> and \<open>on_icmp\<close> its handlers, \<open>pop_and_fire\<close>
    one turn of the heap loop, \<open>pre_submit\<close> the callback of the sender and \<open>tx_stamp\<close> one message of the
    socket's error queue. The order in which packets, stamps and deadlines come is open: \<open>scan_step\<close> is
    the relation of one of them happening, \<open>scan_run\<close> a sequence of them. A deadline fires only
    when it is a top of the heap and has passed.
  \<^item> Port_List, Worker: the ports asked for (\<open>parse_ports\<close> of src/utils.cpp, the exclusion in src/main.cpp),
    their batches and the loop of \<open>worker_thread\<close>, whose record \<open>target\<close> holds what one batch hands to the next.
  \<^item> Cidr, Text_Match, Registry: parsing, merging and emitting address blocks, names of owners and their
    distances, and the downloads that are cut into lines (src/discover.cpp).
  \<^item> Dns, Dns_Reply: messages of src/dns_enum.cpp, lines 51 to 369.
  \<^item> Net_Capture, Capture_Report: the capture loop, its handlers and its report (src/net_capture.cpp).
  \<^item> Http_Text: requests, cookies, command lines and chunks of src/server.cpp, and the readers of headers,
    status and chunked bodies of src/control.cpp.
  \<^item> Server: the event loop of src/server.cpp. The record \<open>server\<close> holds the links, the connections by descriptor
    and the pipes of the children; an \<open>occurrence\<close> is one event with the answers of the system to the calls its
    handler makes, and \<open>serve\<close> handles it. What the server does to the outside is appended to a log.
  \<^item> Service_Db, Service_Match (src/probe.cpp): \<open>parse_probe_file\<close> turns the text of a probe file into a \<open>probe_db\<close>
    (match lines, ports, fallbacks, excluded ports), \<open>match_response\<close> searches it for a response in the order of
    \<open>matchResponse\<close>, fills the templates of the line that matches, or writes a fingerprint.
\<close>

text \<open>
  What the lemmas show:

  \<^item> Scan. Engine_Runs: \<open>tally\<close>, the account of open, closed, filtered and active ports, is kept by every
    handler; the locale \<open>step_invariant\<close> lifts a law of steps to runs. Its instances are the ports of
    the batch (Engine_History), the traffic (Engine_Traffic: retries, budget, a credit that pays every
    queued packet) and the heap (Engine_Deadlines: an undecided port is always waited for; a closing
    connection is not). \<open>slot_move\<close> in Engine_History says what may happen to one port in one step and
    with which cause, held against the slot before the step; \<open>decided_in\<close> says that a run decided a port that way, and
    the evidence behind a result follows from it. Engine_Props collects the
    properties and plays a batch of two ports by hand as their instance. Reply refines the abstract protocol
    \<open>port_step\<close> of a port (waiting, closing, decided).
  \<^item> Targets. Worker adds the accounts of the batches up: with the ports read from the option's text, the
    result of a target reports each of them once. Its end is a batch whose active ports are all decided, or
    one a fatal ICMP message broke off.
  \<^item> Packets. What \<open>build_packet\<close> writes is read back by receivers written against the standards: the TCP
    and IP fields (Packet), the walk along next-header fields (Ext_Chain), option lists (Tcp_Options,
    Ext_Headers), the checksum of RFC 1071 (Checksum), reassembly (Fragment). Buffers are never left.
  \<^item> Parsers. Accepted values are characterised with their wrap-around and rounding; printed
    configurations parse back; the structs stay in the bounds the builders rely on.
  \<^item> Capture. Capture_Spec has an abstract machine, one step per kind of frame; the handlers implement
    it for any bytes, and its invariants hold over all rounds (Capture_Runs): counters in balance, findings
    backed by frames, findings spaced.
  \<^item> DNS and address blocks. The parser of messages ends and stays inside its buffer; replies written by
    the rules of RFC 1035 are read back, their names compressed or not (\<open>spells\<close> follows the pointers of a name). Merged
    intervals keep their union, emitted blocks tile an interval. A download yields the same however it is cut, and a file in
    the format of the registries (\<open>registry_line\<close>) the addresses its records delegate. The tables of
    distances between names are tied to scripts of single edits (\<open>edits\<close>, an inductive relation).
  \<^item> Web front end. Server_Props: the invariant \<open>wf_server\<close> ties links, connections and pipes together; \<open>calm\<close> and
    \<open>settled\<close> say that a handler starts nothing, \<open>starts_at_most\<close> that it starts one program that was asked for.
    \<open>posted\<close> is the complete request a client's bytes are, and \<open>head_ok\<close>, part of the invariant, says that what a connection
    has noted of the head agrees with them. Programs run for authorised requests only, one per link; failed logins are bounded. Http_Text: chunks
    and quoted command lines are read back.
  \<^item> Services. Service_Props: \<open>db_ok\<close> is kept by every directive of the file; \<open>nfo_ok\<close> and \<open>step_ok\<close> tie the state of
    the search to lines that match, \<open>search_miss\<close> says which probes were tried when nothing is found.
    Service_Results has the properties: results are backed by lines, fields fit their buffers, fingerprints and lists
    of excluded ports are read back. Pattern_Prefix gives patterns a syntax and a meaning of their own and proves
    that the filter on literal prefixes rejects no response its pattern matches.

  Interfaces are locales with the laws a client relies on: \<open>staged_option\<close> (options per retry stage),
  \<open>option_parser\<close> (a parser keeps the configuration well formed), \<open>option_filler\<close> and \<open>bounded_writer\<close>
  (writers of option areas), \<open>interval_merge\<close> (one merging loop for both address widths), \<open>request_list\<close>
  (the pending requests of the capture), \<open>step_invariant\<close>. Each is interpreted on the code's functions.
\<close>

text \<open>
  Parameters. Code that is not in the repository is an argument: \<open>inet_pton\<close> and \<open>inet_ntop\<close>, \<open>std::shuffle\<close>,
  \<open>std::uniform_int_distribution\<close>, \<open>std::pow\<close>, the random engine as the stream of its values, readings
  of the clock, the map of services, PCRE2 as a function from a pattern, its flags and a subject to the captured
  groups, the results of \<open>read\<close>, \<open>write\<close> and \<open>fork\<close>. What C++ leaves undefined is an argument too (the uninitialized byte of
  \<open>--chain unknown\<close>, a shift by a negative count) or \<open>None\<close> (a read outside a buffer). Integers are words
  where they can wrap; counters that cannot are numbers, and that they do not pass zero is proved.

  Loops. All recursion is structural or has a termination proof: the loops over labels, records and
  options by the bytes left, emission by the addresses left, fragments by the bytes left. Only the rejection
  loop of \<open>fast_uniform_port\<close> may run on, with a random engine that never leaves a bad range; it is a
  partial function, and its results are stated for streams that do. No fuel is used.
\<close>

text \<open>
  Not modelled: io_uring, sockets, BPF filters, namespaces and threads (src/async_io.cpp,
  src/netns_split.cpp and their use in src/scan.cpp), whose packets and callbacks are the events of the scan
  loop; a step of the loop is atomic, so races between the sender thread and the loop are outside the
  model; packet details kept for display and OS detection (src/os_detect.cpp, src/anomaly_analysis.cpp);
  host discovery by ICMP, ARP and UDP (src/discover.cpp, src/icmp_ping.hpp,
  src/arp_handler.cpp) and src/traceroute.cpp, exchanges over sockets; TLS enumeration, calls of
  OpenSSL (src/ssl_enum.cpp); help texts, orchestration, tables and downloads (src/main.cpp,
  most of src/control.cpp, the mapping of files and the compilation of patterns in src/probe.cpp, src/handler.cpp, src/public_db.cpp, src/simulations.cpp, src/debug.cpp and most of
  src/utils.cpp); of src/server.cpp the options, the set-up of listeners, stunnel and its certificate, shutdown and
  the page.
\<close>

end
